(* ===== verification/StatsdPrelude.thy ===== *)
theory StatsdPrelude
  imports Main "HOL-Library.Word" "HOL-Library.AList" "HOL-Library.Multiset"
begin

text \<open>
  Shared vocabulary of the development: the names of the machine types, the finite maps that
  stand for \<^verbatim>\<open>std::unordered_map\<close> and \<^verbatim>\<open>std::map\<close>, and the generic lemmas on lists, maps,
  words and integer division that the component theories use.

  Conventions, kept in every theory:
  \<^item> \<^verbatim>\<open>int32_t\<close> bit patterns (encoded fields, masks, tags) and \<^verbatim>\<open>uint32_t\<close> second counters are
    32 bit words, so wrap-around is the machine's;
  \<^item> \<^verbatim>\<open>int64_t\<close> nanosecond clocks and \<^verbatim>\<open>int\<close> nesting counters are mathematical integers:
    their overflow is undefined behaviour in C++, so every defined run agrees with the model;
  \<^item> an unordered map is an association list with distinct keys. Its list order is the
    (unspecified) iteration order of the container; lookups go through \<^const>\<open>map_of\<close>.
\<close>

unbundle bit_operations_syntax

type_synonym i32 = "32 word"
type_synonym u32 = "32 word"
type_synonym i64 = "64 word"
type_synonym ns = int
type_synonym 'v cpp_vector = "'v list"
type_synonym ('k, 'v) umap = "('k \<times> 'v) list"

named_theorems field_simps_statsd \<open>bit-level facts about encoded fields\<close>
named_theorems umap_simps \<open>lookup facts about association-list maps\<close>
named_theorems frame_simps \<open>fields an operation leaves unchanged\<close>

subsection \<open>Constants shared by several components\<close>

text \<open>\<^verbatim>\<open>StatsdStats::kDimensionKeySizeSoftLimit\<close> and \<^verbatim>\<open>kDimensionKeySizeHardLimit\<close>.\<close>

definition kDimensionKeySizeSoftLimit :: nat where
  "kDimensionKeySizeSoftLimit = 500"

definition kDimensionKeySizeHardLimit :: nat where
  "kDimensionKeySizeHardLimit = 800"

text \<open>The guard rail every dimension map of the daemon uses: a key that is already present is
  fine, a new key is refused once the map holds the hard limit.\<close>

definition dimension_guardrail :: "('k, 'v) umap \<Rightarrow> 'k \<Rightarrow> bool" where
  "dimension_guardrail m k =
     (if map_of m k \<noteq> None then False
      else if length m > kDimensionKeySizeSoftLimit - 1
           then length m + 1 > kDimensionKeySizeHardLimit
           else False)"

definition NS_PER_SEC :: int where
  "NS_PER_SEC = 1000000000"

definition MS_PER_SEC :: int where
  "MS_PER_SEC = 1000"

text \<open>A C string in memory ends before its first null character.\<close>

definition c_string :: "string \<Rightarrow> string" where
  "c_string s = takeWhile (\<lambda>c. c \<noteq> CHR 0x00) s"

subsection \<open>Association lists as unordered maps\<close>

definition umap_ok :: "('k, 'v) umap \<Rightarrow> bool" where
  "umap_ok m = distinct (map fst m)"

lemma umap_ok_Nil [simp, intro]: "umap_ok []"
  by (simp add: umap_ok_def)

lemma umap_ok_update [simp, intro]: "umap_ok m \<Longrightarrow> umap_ok (AList.update k v m)"
  by (simp add: umap_ok_def distinct_update)

lemma umap_ok_delete [simp, intro]: "umap_ok m \<Longrightarrow> umap_ok (AList.delete k m)"
  by (simp add: umap_ok_def distinct_delete)

lemma umap_ok_map_values [simp]: "umap_ok (map (\<lambda>(k, v). (k, f k v)) m) = umap_ok m"
  by (simp add: umap_ok_def case_prod_unfold comp_def)

lemma umap_ok_filter [intro]: "umap_ok m \<Longrightarrow> umap_ok (filter P m)"
  by (induction m) (auto simp: umap_ok_def)

lemma map_of_update [umap_simps, simp]:
  "map_of (AList.update k v m) k' = (if k' = k then Some v else map_of m k')"
  by (simp add: update_conv')

lemma map_of_delete [umap_simps, simp]:
  "map_of (AList.delete k m) k' = (if k' = k then None else map_of m k')"
  by (simp add: delete_conv')

lemma map_of_map_values [umap_simps]:
  "map_of (map (\<lambda>(k, v). (k, f k v)) m) k = map_option (f k) (map_of m k)"
  by (induction m) auto

lemma map_of_Some_iff_mem: "umap_ok m \<Longrightarrow> (map_of m k = Some v) = ((k, v) \<in> set m)"
  by (simp add: umap_ok_def)

lemma length_update_absent: "map_of m k = None \<Longrightarrow> length (AList.update k v m) = Suc (length m)"
  by (induction m) auto

lemma length_update_present: "map_of m k \<noteq> None \<Longrightarrow> length (AList.update k v m) = length m"
  by (induction m) auto

text \<open>A map that grows only past the guard rail never exceeds the hard limit.\<close>

lemma guardrail_update_bound:
  assumes "length m \<le> kDimensionKeySizeHardLimit" and "\<not> dimension_guardrail m k"
  shows "length (AList.update k v m) \<le> kDimensionKeySizeHardLimit"
proof (cases "map_of m k = None")
  case True
  with assms show ?thesis
    by (auto simp: dimension_guardrail_def length_update_absent kDimensionKeySizeHardLimit_def
        kDimensionKeySizeSoftLimit_def split: if_splits)
next
  case False
  with assms show ?thesis by (simp add: length_update_present)
qed

subsection \<open>Words that do not wrap\<close>

lemma uint_add_no_wrap:
  "uint (a :: 32 word) + uint b < 2 ^ 32 \<Longrightarrow> uint (a + b) = uint a + uint b"
  by (simp add: uint_word_ariths)

lemma uint_of_int_u32: "0 \<le> e \<Longrightarrow> e < 2 ^ 32 \<Longrightarrow> uint (word_of_int e :: u32) = e"
  by (simp add: uint_word_of_int)

lemma uint_u32_less: "uint (d :: u32) < 4294967296"
  using uint_bounded[of d] by simp

lemma word_positive_iff: "(0 :: 'a :: len word) < a \<longleftrightarrow> a \<noteq> 0"
  by (rule word_neq_0_conv[symmetric])

lemma word_less_1 [simp]: "((a :: u32) < 1) = (a = 0)"
  by (simp add: word_less_def uint_0_iff) (metis uint_0_iff uint_ge_0 order.antisym zero_less_one_class.zero_less_one int_one_le_iff_zero_less linorder_not_less)

subsection \<open>Division\<close>

lemma div_mult_bounds:
  assumes "(0::int) < d"
  shows "d * (n div d) \<le> n" and "n < d * (n div d) + d"
proof -
  have eq: "d * (n div d) + n mod d = n" by simp
  have "0 \<le> n mod d" and "n mod d < d" using assms by simp_all
  with eq show "d * (n div d) \<le> n" and "n < d * (n div d) + d" by linarith+
qed

lemma mod_eq_close:
  assumes "(0::int) < n" "a mod n = b mod n" "a - n < b" "b < a + n"
  shows "a = b"
proof -
  have "n dvd a - b" using assms(2) by (simp add: mod_eq_dvd_iff)
  moreover have "\<bar>a - b\<bar> < n" using assms by linarith
  ultimately show ?thesis using dvd_imp_le_int[of "a - b" n] by fastforce
qed

subsection \<open>Lists\<close>

lemma filter_map_append_single: "foldl (\<lambda>acc x. if P x then acc @ [f x] else acc) acc xs =
    acc @ map f (filter P xs)"
  by (induction xs arbitrary: acc) auto

lemma sum_list_map_update_int:
  "i < length xs \<Longrightarrow> sum_list (map f (xs[i := y])) = sum_list (map f xs) - f (xs ! i) + (f y :: int)"
  by (induction xs arbitrary: i) (auto split: nat.splits)

lemma sum_list_nonneg_int: "(\<And>x. x \<in> set xs \<Longrightarrow> (0::int) \<le> x) \<Longrightarrow> 0 \<le> sum_list xs"
  by (induction xs) auto


lemma nth_le_sum_list_int:
  "(\<forall>v \<in> set xs. (0::int) \<le> v) \<Longrightarrow> i < length xs \<Longrightarrow> xs ! i \<le> sum_list xs"
proof (induction xs arbitrary: i)
  case (Cons x xs)
  then have "0 \<le> sum_list xs" by (auto intro: sum_list_nonneg_int)
  with Cons show ?case by (cases i) fastforce+
qed simp

end
