(* ===== verification/FieldValue.thy ===== *)
theory FieldValue
  imports StatsdPrelude
begin

text \<open>
  \<^verbatim>\<open>bin/src/FieldValue.h\<close> and \<^verbatim>\<open>FieldValue.cpp\<close>: the encoded position of a leaf in an atom
  (\<^verbatim>\<open>Field\<close>), the bit-mask matchers for it (\<^verbatim>\<open>Matcher\<close>), the tagged union of logged values
  (\<^verbatim>\<open>Value\<close>), annotations, and the translation of a \<^verbatim>\<open>FieldMatcher\<close> tree of the configuration
  into leaf matchers.

  A position path is at most three levels deep (\<^verbatim>\<open>kMaxLogDepth = 2\<close>); each level takes eight
  bits, the top eight bits hold the depth, and bit seven of a level marks the last item.
  The lemmas show that encoding loses nothing, and say for each kind of position matcher
  exactly which leaves it accepts.
\<close>

unbundle bit_operations_syntax

section \<open>Fields\<close>

definition kMaxLogDepth :: nat where "kMaxLogDepth = 2"
definition kLastBitMask :: i32 where "kLastBitMask = 0x80"
definition kClearLastBitDeco :: i32 where "kClearLastBitDeco = 0x7f"
definition kClearAllPositionMatcherMask :: i32 where "kClearAllPositionMatcherMask = 0xffff00ff"

record field =
  mTag :: i32
  mField :: i32

definition getEncodedField :: "i32 list \<Rightarrow> nat \<Rightarrow> bool \<Rightarrow> i32" where
  "getEncodedField pos depth includeDepth =
     (let field = foldl (\<lambda>f i. f OR push_bit (8 * (kMaxLogDepth - i)) (pos ! i)) 0 [0..<Suc depth]
      in if includeDepth then field OR push_bit 24 (of_nat depth) else field)"

definition encodeMatcherMask :: "i32 list \<Rightarrow> nat \<Rightarrow> i32" where
  "encodeMatcherMask msk depth = getEncodedField msk depth False OR 0xff000000"

definition getSimpleField :: "nat \<Rightarrow> i32" where
  "getSimpleField f = push_bit (8 * 2) (of_nat f)"

definition Field :: "i32 \<Rightarrow> i32 list \<Rightarrow> nat \<Rightarrow> field" where
  "Field tag pos depth = \<lparr>mTag = tag, mField = getEncodedField pos depth True\<rparr>"

definition setField :: "i32 \<Rightarrow> field \<Rightarrow> field" where
  "setField v f = f\<lparr>mField := v\<rparr>"

definition setTag :: "i32 \<Rightarrow> field \<Rightarrow> field" where
  "setTag t f = f\<lparr>mTag := t\<rparr>"

definition decorateLastPos :: "nat \<Rightarrow> field \<Rightarrow> field" where
  "decorateLastPos depth f =
     f\<lparr>mField := mField f OR push_bit (8 * (kMaxLogDepth - depth)) kLastBitMask\<rparr>"

text \<open>\<^verbatim>\<open>mField >> 24\<close> on a signed 32 bit integer: an arithmetic shift.\<close>

definition getDepth :: "field \<Rightarrow> int" where
  "getDepth f = sint (signed_drop_bit 24 (mField f))"

definition getPath :: "field \<Rightarrow> nat \<Rightarrow> i32" where
  "getPath f depth =
     (if depth > 2 then 0
      else (mField f AND 0x00ffffff) AND push_bit (8 * (kMaxLogDepth - depth)) 0xffffffff)"

definition getPrefix :: "field \<Rightarrow> nat \<Rightarrow> i32" where
  "getPrefix f depth = (if depth = 0 then 0 else getPath f (depth - 1))"

definition rawSegment :: "i32 \<Rightarrow> nat \<Rightarrow> i32" where
  "rawSegment w depth =
     (let field = w AND 0x00ffffff; shift = 8 * (kMaxLogDepth - depth); msk = push_bit shift 0xff
      in signed_drop_bit shift (field AND msk))"

definition getRawPosAtDepth :: "field \<Rightarrow> nat \<Rightarrow> i32" where
  "getRawPosAtDepth f depth = rawSegment (mField f) depth"

definition getPosAtDepth :: "field \<Rightarrow> nat \<Rightarrow> i32" where
  "getPosAtDepth f depth = getRawPosAtDepth f depth AND kClearLastBitDeco"

definition isLastPos :: "field \<Rightarrow> nat \<Rightarrow> bool" where
  "isLastPos f depth =
     ((mField f AND 0x00ffffff) AND push_bit (8 * (kMaxLogDepth - depth)) kLastBitMask \<noteq> 0)"

definition isAnyPosMatcher :: "field \<Rightarrow> nat \<Rightarrow> bool" where
  "isAnyPosMatcher f depth = (getDepth f \<ge> int depth \<and> getRawPosAtDepth f depth = 0)"

definition isLastPosMatcher :: "field \<Rightarrow> nat \<Rightarrow> bool" where
  "isLastPosMatcher f depth = (getDepth f \<ge> int depth \<and> getRawPosAtDepth f depth = kLastBitMask)"

text \<open>\<^verbatim>\<open>Field::operator<\<close>: signed comparison of the tag, then of the path.\<close>

definition field_less :: "field \<Rightarrow> field \<Rightarrow> bool" where
  "field_less a b =
     (if mTag a \<noteq> mTag b then sint (mTag a) < sint (mTag b)
      else if mField a \<noteq> mField b then sint (mField a) < sint (mField b)
      else False)"

section \<open>Matchers\<close>

record matcher =
  mMatcher :: field
  mMask :: i32

definition getRawMaskAtDepth :: "matcher \<Rightarrow> nat \<Rightarrow> i32" where
  "getRawMaskAtDepth m depth = rawSegment (mMask m) depth"

definition hasAllPositionMatcher :: "matcher \<Rightarrow> bool" where
  "hasAllPositionMatcher m = (getDepth (mMatcher m) = 2 \<and> getRawMaskAtDepth m 1 = 0x7f)"

text \<open>Returns the prefix the C++ writes through its pointer argument.\<close>

definition hasAnyPositionMatcher :: "matcher \<Rightarrow> i32 option" where
  "hasAnyPositionMatcher m =
     (if getDepth (mMatcher m) = 2 \<and> getRawPosAtDepth (mMatcher m) 1 = 0
      then Some (getPrefix (mMatcher m) 1) else None)"

definition matches :: "field \<Rightarrow> matcher \<Rightarrow> bool" where
  "matches f m =
     (if mTag f \<noteq> mTag (mMatcher m) then False
      else if mField f AND mMask m = mField (mMatcher m) then True
      else if hasAllPositionMatcher m \<and>
              mField f AND (mMask m AND kClearAllPositionMatcherMask) = mField (mMatcher m)
           then True
      else False)"

definition getSimpleMatcher :: "i32 \<Rightarrow> nat \<Rightarrow> matcher" where
  "getSimpleMatcher tag f =
     \<lparr>mMatcher = \<lparr>mTag = tag, mField = getSimpleField f\<rparr>, mMask = 0xff7f0000\<rparr>"

definition getFirstUidMatcher :: "i32 \<Rightarrow> matcher" where
  "getFirstUidMatcher atomId = \<lparr>mMatcher = Field atomId [1, 1, 1] 2, mMask = 0xff7f7f7f\<rparr>"

definition equalDimensions :: "matcher list \<Rightarrow> matcher list \<Rightarrow> bool" where
  "equalDimensions a b = (length a = length b \<and> list_all (\<lambda>i. b ! i = a ! i) [0..<length a])"

definition subsetDimensions :: "matcher list \<Rightarrow> matcher list \<Rightarrow> bool" where
  "subsetDimensions a b =
     (if length a > length b then False
      else list_all (\<lambda>x. list_ex (\<lambda>y. x = y) b) a)"

subsection \<open>Field matchers of the configuration\<close>

datatype position = POSITION_UNKNOWN | FIRST | LAST | ANY | ALL_pos

text \<open>The protobuf message \<^verbatim>\<open>FieldMatcher\<close>: field number, optional position, children.\<close>

datatype field_matcher = FieldMatcher (fm_field: i32) (fm_position: "position option")
                                      (fm_child: "field_matcher list")

fun position_code :: "position \<Rightarrow> i32 \<times> i32" where
  "position_code ALL_pos = (0x00, 0x7f)"
| "position_code ANY = (0, 0)"
| "position_code FIRST = (1, 0x7f)"
| "position_code LAST = (0x80, 0x80)"
| "position_code POSITION_UNKNOWN = (0, 0)"

text \<open>The scratch arrays \<^verbatim>\<open>pos\<close> and \<^verbatim>\<open>mask\<close> are shared by all the recursive calls, so they are
  threaded through: the result holds their final contents and the extended output.\<close>

function translateRec ::
  "i32 \<Rightarrow> field_matcher \<Rightarrow> nat \<Rightarrow> i32 list \<Rightarrow> i32 list \<Rightarrow> matcher list \<Rightarrow>
     i32 list \<times> i32 list \<times> matcher list"
and translateChildren ::
  "i32 \<Rightarrow> field_matcher list \<Rightarrow> nat \<Rightarrow> i32 list \<Rightarrow> i32 list \<Rightarrow> matcher list \<Rightarrow>
     i32 list \<times> i32 list \<times> matcher list" where
  "translateRec tag (FieldMatcher n p cs) depth pos msk out =
     (if depth > kMaxLogDepth then (pos, msk, out)
      else
        let pos = pos[depth := n]; msk = msk[depth := 0x7f]
        in case p of
             None \<Rightarrow>
               (if cs = []
                then (pos, msk, out @ [\<lparr>mMatcher = Field tag pos depth,
                                          mMask = encodeMatcherMask msk depth\<rparr>])
                else translateChildren tag cs (depth + 1) pos msk out)
           | Some q \<Rightarrow>
               (let depth = depth + 1
                in if depth > 2 then (pos, msk, out)
                   else
                     let pos = pos[depth := fst (position_code q)];
                         msk = msk[depth := snd (position_code q)]
                     in if cs = []
                        then (pos, msk, out @ [\<lparr>mMatcher = Field tag pos depth,
                                                  mMask = encodeMatcherMask msk depth\<rparr>])
                        else translateChildren tag cs (depth + 1) pos msk out))"
| "translateChildren tag [] depth pos msk out = (pos, msk, out)"
| "translateChildren tag (c # cs) depth pos msk out =
     (case translateRec tag c depth pos msk out of
        (pos', msk', out') \<Rightarrow> translateChildren tag cs depth pos' msk' out')"
  by pat_completeness auto
termination
  by (relation "measure (\<lambda>x. case x of Inl (_, m, _) \<Rightarrow> size m | Inr (_, cs, _) \<Rightarrow> size_list size cs)")
     auto

definition translateFieldMatcher :: "field_matcher \<Rightarrow> matcher list" where
  "translateFieldMatcher m =
     snd (snd (translateChildren (fm_field m) (fm_child m) 0 [1, 1, 1] [0x7f, 0x7f, 0x7f] []))"

fun HasPosition :: "position \<Rightarrow> field_matcher \<Rightarrow> bool" where
  "HasPosition q (FieldMatcher n p cs) = (p = Some q \<or> list_ex (HasPosition q) cs)"

definition HasPositionANY :: "field_matcher \<Rightarrow> bool" where
  "HasPositionANY m = HasPosition ANY m"

definition HasPositionALL :: "field_matcher \<Rightarrow> bool" where
  "HasPositionALL m = HasPosition ALL_pos m"

section \<open>Bytes of an encoded field\<close>

text \<open>Byte \<open>i\<close> of an encoded field, byte 3 being the depth; \<open>posMatcher tag n q k\<close> is the
  configuration's matcher for leaf \<open>k\<close> of the repeated message \<open>n\<close> of atom \<open>tag\<close> at position
  \<open>q\<close>, and \<open>position_accepts\<close> says which items of the repeated field a position means.\<close>

definition byte_at :: "nat \<Rightarrow> i32 \<Rightarrow> i32" where
  "byte_at i w = take_bit 8 (drop_bit (8 * i) w)"

definition posMatcher :: "i32 \<Rightarrow> i32 \<Rightarrow> position \<Rightarrow> i32 \<Rightarrow> field_matcher" where
  "posMatcher tag n q k = FieldMatcher tag None [FieldMatcher n (Some q) [FieldMatcher k None []]]"

fun position_accepts :: "position \<Rightarrow> field \<Rightarrow> bool" where
  "position_accepts FIRST f = (getPosAtDepth f 1 = 1)"
| "position_accepts LAST f = isLastPos f 1"
| "position_accepts _ f = True"

subsection \<open>Facts about bytes\<close>

lemma bit_byte_at: "bit (byte_at i w) n \<longleftrightarrow> n < 8 \<and> bit w (8 * i + n)"
  by (simp add: byte_at_def bit_take_bit_iff bit_drop_bit_eq)

lemma i32_eq_bytes: "(a = b) \<longleftrightarrow> (\<forall>i < 4. byte_at i a = byte_at i b)"
proof
  assume eq: "\<forall>i < 4. byte_at i a = byte_at i b"
  show "a = b"
  proof (rule bit_word_eqI)
    fix n assume n: "n < LENGTH(32)"
    then have "n div 8 < 4" by auto
    with eq have "bit (byte_at (n div 8) a) (n mod 8) = bit (byte_at (n div 8) b) (n mod 8)" by simp
    then show "bit a n = bit b n" by (simp add: bit_byte_at)
  qed
qed simp

lemma byte_at_and [simp]: "byte_at i (a AND b) = byte_at i a AND byte_at i b"
  by (rule bit_word_eqI) (auto simp: bit_byte_at bit_simps)

lemma byte_at_or [simp]: "byte_at i (a OR b) = byte_at i a OR byte_at i b"
  by (rule bit_word_eqI) (auto simp: bit_byte_at bit_simps)

lemma byte_at_0 [simp]: "byte_at i 0 = 0"
  by (simp add: byte_at_def)

lemma take_bit_8_small: "p < 256 \<Longrightarrow> take_bit 8 (p :: i32) = p"
  by (rule word_uint_eqI) (simp add: unsigned_take_bit_eq take_bit_int_eq_self word_less_def)

lemma byte_at_push:
  assumes "p < 256" and "j < 4" and "i < 4"
  shows "byte_at i (push_bit (8 * j) p) = (if i = j then p else 0)"
proof -
  have top: "n < 8" if "bit p n" for n
    using take_bit_8_small[OF assms(1)] that by (metis bit_take_bit_iff)
  show ?thesis
    by (rule bit_word_eqI) (use assms in \<open>auto simp: bit_byte_at bit_push_bit_iff dest: top\<close>)
qed

lemma uint_byte_at_3: "uint (byte_at 3 w) = uint w div 2 ^ 24"
proof -
  have "uint (byte_at 3 w) = take_bit 8 (drop_bit 24 (uint w))"
    by (simp add: byte_at_def unsigned_take_bit_eq unsigned_drop_bit_eq take_bit_int_eq_self
        uint_lt2p[of w, simplified])
  also have "\<dots> = drop_bit 24 (uint w)"
    by (rule take_bit_int_eq_self) (use uint_lt2p[of w] in \<open>auto simp: drop_bit_eq_div pos_imp_zdiv_nonneg_iff\<close>)
  finally show ?thesis by (simp add: drop_bit_eq_div)
qed

lemma sint_i32_cases: "sint (w :: i32) = (if uint w < 2 ^ 31 then uint w else uint w - 2 ^ 32)"
proof -
  have r: "0 \<le> uint w" "uint w < 2 ^ 32" using uint_lt2p[of w] by auto
  have eq: "sint w = (uint w + 2 ^ 31) mod 2 ^ 32 - 2 ^ 31"
    by (simp add: sint_uint signed_take_bit_eq_take_bit_shift take_bit_eq_mod)
  show ?thesis
  proof (cases "uint w < 2 ^ 31")
    case True
    with r eq show ?thesis by (simp add: mod_pos_pos_trivial)
  next
    case False
    have "(uint w + 2 ^ 31) mod 2 ^ 32 = (uint w + 2 ^ 31 - 2 ^ 32) mod 2 ^ 32"
      by (rule minus_mod_self2[symmetric])
    also have "\<dots> = uint w - 2 ^ 31" using r False by (simp add: mod_pos_pos_trivial)
    finally show ?thesis using eq False by simp
  qed
qed

lemma getDepth_byte:
  assumes "d < 128"
  shows "getDepth f = int d \<longleftrightarrow> byte_at 3 (mField f) = of_nat d"
proof -
  let ?u = "uint (mField f)"
  have u: "0 \<le> ?u" "?u < 2 ^ 32" using uint_lt2p[of "mField f"] by auto
  have l: "getDepth f = (if ?u < 2 ^ 31 then ?u else ?u - 2 ^ 32) div 2 ^ 24"
    unfolding getDepth_def sint_signed_drop_bit_eq drop_bit_eq_div
    by (simp only: sint_i32_cases[of "mField f"])
  have "uint (of_nat d :: i32) = int d" using assms by (simp add: uint_nat unat_of_nat)
  then have "byte_at 3 (mField f) = of_nat d \<longleftrightarrow> ?u div 2 ^ 24 = int d"
    by (metis uint_byte_at_3 word_uint_eqI)
  then show ?thesis using l u assms by auto
qed

lemma bit_0xff: "bit (0xff :: i32) n \<longleftrightarrow> n < 8"
proof -
  have "(0xff :: i32) = mask 8" by (simp add: mask_eq_exp_minus_1)
  then show ?thesis by (simp only: bit_mask_iff) auto
qed

lemma bit_0xffffff: "bit (0xffffff :: i32) n \<longleftrightarrow> n < 24"
proof -
  have "(0xffffff :: i32) = mask 24" by (simp add: mask_eq_exp_minus_1)
  then show ?thesis by (simp only: bit_mask_iff) auto
qed

lemma bit_0x80: "bit (0x80 :: i32) n \<longleftrightarrow> n = 7"
proof -
  have "(0x80 :: i32) = push_bit 7 1" by simp
  then show ?thesis by (simp only: bit_push_bit_iff bit_1_iff) auto
qed

lemmas bit_const_simps = bit_0xff bit_0xffffff bit_0x80

lemma rawSegment_byte: "depth \<le> 2 \<Longrightarrow> rawSegment w depth = byte_at (2 - depth) w"
  by (rule bit_word_eqI)
     (auto simp: rawSegment_def Let_def kMaxLogDepth_def bit_byte_at bit_signed_drop_bit_iff bit_and_iff
      bit_push_bit_iff bit_const_simps simp del: bit_numeral_word_iff)

lemma and_0x80_bit: "(w :: i32) AND 0x80 = (if bit w 7 then 0x80 else 0)"
  by (rule bit_word_eqI) (auto simp: bit_and_iff bit_0x80 simp del: bit_numeral_word_iff)

lemma isLastPos_bit: "depth \<le> 2 \<Longrightarrow> isLastPos f depth \<longleftrightarrow> bit (byte_at (2 - depth) (mField f)) 7"
proof -
  assume d: "depth \<le> 2"
  have "(mField f AND 0xffffff) AND push_bit (8 * (2 - depth)) 0x80 = push_bit (8 * (2 - depth)) (byte_at (2 - depth) (mField f) AND 0x80)"
    by (rule bit_word_eqI) (use d in \<open>auto simp: bit_and_iff bit_push_bit_iff bit_const_simps bit_byte_at le_imp_diff_is_add
        add.commute simp del: bit_numeral_word_iff\<close>)
  moreover have "push_bit (8 * (2 - depth)) (0x80 :: i32) \<noteq> 0" using d by (cases depth; cases "depth - 1"; auto)
  ultimately show ?thesis
    by (simp add: isLastPos_def kLastBitMask_def kMaxLogDepth_def and_0x80_bit)
qed

lemmas byte_at_push_const =
  byte_at_push[where j = 3, simplified] byte_at_push[where j = 2, simplified]
  byte_at_push[where j = 1, simplified] byte_at_push[where j = 0, simplified]

lemma byte_at_depth_const [simp]:
  "byte_at 0 (0x1000000 :: i32) = 0" "byte_at (Suc 0) (0x1000000 :: i32) = 0"
  "byte_at 2 (0x1000000 :: i32) = 0" "byte_at 3 (0x1000000 :: i32) = 1"
  "byte_at 0 (0x2000000 :: i32) = 0" "byte_at (Suc 0) (0x2000000 :: i32) = 0"
  "byte_at (Suc (Suc 0)) (0x2000000 :: i32) = 0" "byte_at 2 (0x2000000 :: i32) = 0" "byte_at 3 (0x2000000 :: i32) = 2"
  by (simp_all add: byte_at_def take_bit_eq_mod)

lemma byte_at_encode:
  assumes "depth \<le> 2" and small: "\<And>i. i \<le> depth \<Longrightarrow> pos ! i < 256" and "i < 4"
  shows "byte_at i (getEncodedField pos depth incl) =
    (if i = 3 then (if incl then of_nat depth else 0) else if 2 - i \<le> depth then pos ! (2 - i) else 0)"
proof -
  have d: "depth = 0 \<or> depth = 1 \<or> depth = 2" and i: "i = 0 \<or> i = 1 \<or> i = 2 \<or> i = 3" using assms(1,3) by auto
  from d show ?thesis
  proof (elim disjE)
    assume "depth = 0"
    with small[of 0] i show ?thesis
      by (auto simp: getEncodedField_def kMaxLogDepth_def byte_at_push_const)
  next
    assume "depth = 1"
    with small[of 0] small[of 1] i show ?thesis
      by (auto simp: getEncodedField_def kMaxLogDepth_def byte_at_push_const)
  next
    assume "depth = 2"
    with small[of 0] small[of 1] small[of 2] i show ?thesis
      by (auto simp: getEncodedField_def kMaxLogDepth_def byte_at_push_const numeral_2_eq_2)
  qed
qed

lemma encode_decode:
  assumes "depth \<le> 2" and "\<And>i. i \<le> depth \<Longrightarrow> pos ! i < 256"
  shows "getDepth (Field tag pos depth) = int depth \<and>
    (\<forall>i \<le> depth. getRawPosAtDepth (Field tag pos depth) i = pos ! i) \<and>
    (\<forall>i. depth < i \<and> i \<le> 2 \<longrightarrow> getRawPosAtDepth (Field tag pos depth) i = 0)"
  using assms
  by (auto simp: getDepth_byte Field_def byte_at_encode getRawPosAtDepth_def rawSegment_byte)

lemma translate_posMatcher:
  "translateFieldMatcher (posMatcher tag n q k) =
    [\<lparr>mMatcher = Field tag [n, fst (position_code q), k] 2,
      mMask = encodeMatcherMask [0x7f, snd (position_code q), 0x7f] 2\<rparr>]"
  by (simp add: translateFieldMatcher_def posMatcher_def kMaxLogDepth_def Let_def numeral_2_eq_2)

lemma all_less_4: "(\<forall>i < 4. P i) \<longleftrightarrow> P 0 \<and> P (Suc 0) \<and> P 2 \<and> P (3 :: nat)"
  by (auto simp: numeral_eq_Suc less_Suc_eq)

lemma byte_and_0xff: "byte_at i w AND 0xff = byte_at i w"
  by (rule bit_word_eqI) (auto simp: bit_and_iff bit_0xff bit_byte_at simp del: bit_numeral_word_iff)

lemma position_code_small: "fst (position_code q) < 256" "snd (position_code q) < 256"
  by (cases q; simp)+

lemma less_128_256: "(n :: i32) < 128 \<Longrightarrow> n < 256"
  by unat_arith

lemma nth_3_small: "a < (256 :: i32) \<Longrightarrow> b < 256 \<Longrightarrow> c < 256 \<Longrightarrow> i \<le> 2 \<Longrightarrow> [a, b, c] ! i < 256"
  by (cases i; cases "i - 1") auto

lemma byte_at_mask_const [simp]:
  "byte_at 0 (0xff000000 :: i32) = 0" "byte_at (Suc 0) (0xff000000 :: i32) = 0"
  "byte_at 2 (0xff000000 :: i32) = 0" "byte_at 3 (0xff000000 :: i32) = 0xff"
  by (simp_all add: byte_at_def take_bit_eq_mod)

lemma byte_at_clear_const [simp]:
  "byte_at 0 (0xffff00ff :: i32) = 0xff" "byte_at (Suc 0) (0xffff00ff :: i32) = 0"
  "byte_at 2 (0xffff00ff :: i32) = 0xff" "byte_at 3 (0xffff00ff :: i32) = 0xff"
  by (simp_all add: byte_at_def take_bit_eq_mod)

lemma mask_eq_iff_bytes:
  "w AND encodeMatcherMask [0x7f, b, 0x7f] 2 = mField (Field tag [n, p, k] 2) \<longleftrightarrow>
     byte_at 0 w AND 0x7f = k \<and> byte_at (Suc 0) w AND b = p \<and> byte_at 2 w AND 0x7f = n \<and> byte_at 3 w = 2"
  if "n < 256" "p < 256" "k < 256" "b < 256"
proof -
  have s1: "\<And>i. i \<le> 2 \<Longrightarrow> [n, p, k] ! i < 256" and s2: "\<And>i. i \<le> 2 \<Longrightarrow> [0x7f, b, 0x7f] ! i < (256 :: i32)"
    using that by (auto intro!: nth_3_small)
  show ?thesis
    by (subst i32_eq_bytes, subst all_less_4)
       (simp add: encodeMatcherMask_def Field_def byte_at_encode[OF order.refl s2]
        byte_at_encode[OF order.refl s1] byte_and_0xff)
qed

lemma and_clear_mask_iff_bytes:
  "w AND (encodeMatcherMask [0x7f, b, 0x7f] 2 AND kClearAllPositionMatcherMask) = mField (Field tag [n, p, k] 2) \<longleftrightarrow>
     byte_at 0 w AND 0x7f = k \<and> 0 = p \<and> byte_at 2 w AND 0x7f = n \<and> byte_at 3 w = 2"
  if "n < 256" "p < 256" "k < 256" "b < 256"
proof -
  have s1: "\<And>i. i \<le> 2 \<Longrightarrow> [n, p, k] ! i < 256" and s2: "\<And>i. i \<le> 2 \<Longrightarrow> [0x7f, b, 0x7f] ! i < (256 :: i32)"
    using that by (auto intro!: nth_3_small)
  show ?thesis
    by (subst i32_eq_bytes, subst all_less_4)
       (simp add: encodeMatcherMask_def Field_def byte_at_encode[OF order.refl s2] kClearAllPositionMatcherMask_def
        byte_at_encode[OF order.refl s1] byte_and_0xff)
qed

lemma mTag_Field [simp]: "mTag (Field tag pos depth) = tag"
  by (simp add: Field_def)

lemma hasAll_posMatcher:
  "hasAllPositionMatcher \<lparr>mMatcher = Field tag [n, p, k] 2, mMask = encodeMatcherMask [0x7f, b, 0x7f] 2\<rparr> \<longleftrightarrow> b = 0x7f"
  if "n < 256" "p < 256" "k < 256" "b < 256"
proof -
  have s1: "\<And>i. i \<le> 2 \<Longrightarrow> [n, p, k] ! i < 256" and s2: "\<And>i. i \<le> 2 \<Longrightarrow> [0x7f, b, 0x7f] ! i < (256 :: i32)"
    using that by (auto intro!: nth_3_small)
  have "getDepth (Field tag [n, p, k] 2) = 2"
    using encode_decode[of 2 "[n, p, k]" tag] s1 by simp
  then show ?thesis
    by (simp add: hasAllPositionMatcher_def getRawMaskAtDepth_def rawSegment_byte encodeMatcherMask_def
        byte_at_encode[OF order.refl s2])
qed

lemma byte_at_push_0x80:
  "d \<le> 2 \<Longrightarrow> i < 4 \<Longrightarrow> byte_at i (push_bit (8 * (2 - d)) (0x80 :: i32)) = (if i = 2 - d then 0x80 else 0)"
  by (rule byte_at_push) auto

lemma byte_or_0x80_and_0x7f: "((w :: i32) OR 0x80) AND 0x7f = w AND 0x7f"
  by (simp add: bit.conj_disj_distrib2)

section \<open>Properties\<close>

text \<open>
  Fact. Encoding a position path loses nothing: for any depth up to two and any positions
  that fit their eight bits, the encoded field gives back the depth, every position of the path,
  and zero below the leaf.
\<close>

theorem field_encode_roundtrip:
  assumes "depth \<le> 2" and "\<And>i. i \<le> depth \<Longrightarrow> pos ! i < 256"
  shows "getDepth (Field tag pos depth) = int depth \<and>
    (\<forall>i \<le> depth. getRawPosAtDepth (Field tag pos depth) i = pos ! i) \<and>
    (\<forall>i. depth < i \<and> i \<le> 2 \<longrightarrow> getRawPosAtDepth (Field tag pos depth) i = 0)"
  using assms by (rule encode_decode)

theorem field_encode_roundtrip_witness:
  "getDepth (Field 10 [1, 2, 3] 2) = 2 \<and> getRawPosAtDepth (Field 10 [1, 2, 3] 2) 1 = 2"
proof -
  have "\<And>i. i \<le> 2 \<Longrightarrow> [1, 2, 3 :: i32] ! i < 256" by (rule nth_3_small) auto
  from field_encode_roundtrip[OF order.refl this, of 10] show ?thesis by auto
qed

text \<open>
  Property C32. The bit mask and compare of \<^verbatim>\<open>Field::matches\<close> means what the position of the
  configuration says: the matcher translated from atom \<open>tag\<close>, field \<open>n\<close> at position \<open>q\<close>, leaf \<open>k\<close>
  accepts a logged field exactly when it is a depth-two leaf of that atom on that path and the
  item is the first one for FIRST, carries the last-item mark for LAST, and is any item for ANY
  and ALL.
\<close>

theorem position_matcher_semantics:
  assumes "n < 128" and "k < 128"
  shows "list_all (matches f) (translateFieldMatcher (posMatcher tag n q k)) \<longleftrightarrow>
    mTag f = tag \<and> getDepth f = 2 \<and> getPosAtDepth f 0 = n \<and> getPosAtDepth f 2 = k \<and> position_accepts q f"
proof -
  have small: "n < 256" "k < 256" using assms by (auto intro: less_128_256)
  have d: "getDepth f = 2 \<longleftrightarrow> byte_at 3 (mField f) = 2"
    using getDepth_byte[of 2 f] by simp
  have pos: "getPosAtDepth f 0 = byte_at 2 (mField f) AND 0x7f" "getPosAtDepth f 2 = byte_at 0 (mField f) AND 0x7f"
    "getPosAtDepth f (Suc 0) = byte_at (Suc 0) (mField f) AND 0x7f"
    by (simp_all add: getPosAtDepth_def getRawPosAtDepth_def rawSegment_byte kClearLastBitDeco_def)
  have last: "isLastPos f (Suc 0) \<longleftrightarrow> byte_at (Suc 0) (mField f) AND 0x80 = 0x80"
    by (simp add: isLastPos_bit and_0x80_bit)
  show ?thesis
    using small position_code_small[of q]
    by (cases q)
       (auto simp: translate_posMatcher matches_def mask_eq_iff_bytes and_clear_mask_iff_bytes hasAll_posMatcher
         d pos last)
qed

theorem position_matcher_semantics_witness:
  "list_all (matches (Field 10 [1, 0x82, 1] 2)) (translateFieldMatcher (posMatcher 10 1 LAST 1))"
proof -
  have enc: "getEncodedField [1, 0x82, 1] 2 True = 0x02018201"
    by (simp add: getEncodedField_def kMaxLogDepth_def numeral_2_eq_2)
  have "mTag (Field 10 [1, 0x82, 1] 2) = 10 \<and> getDepth (Field 10 [1, 0x82, 1] 2) = 2 \<and>
    getPosAtDepth (Field 10 [1, 0x82, 1] 2) 0 = 1 \<and> getPosAtDepth (Field 10 [1, 0x82, 1] 2) 2 = 1 \<and>
    position_accepts LAST (Field 10 [1, 0x82, 1] 2)"
    by (simp add: Field_def enc getDepth_def getPosAtDepth_def getRawPosAtDepth_def rawSegment_def
        kMaxLogDepth_def kClearLastBitDeco_def isLastPos_def kLastBitMask_def)
  then show ?thesis
    using position_matcher_semantics[of 1 1 "Field 10 [1, 0x82, 1] 2" 10 LAST] by simp
qed

text \<open>
  Fact. Marking an item as the last of its level sets exactly that mark: afterwards
  \<^verbatim>\<open>isLastPos\<close> holds at the level, the marks of the other levels, every position and the depth
  are what they were.
\<close>

theorem decorateLastPos_marks:
  assumes "d \<le> 2" and "e \<le> 2"
  shows "isLastPos (decorateLastPos d f) e = (e = d \<or> isLastPos f e) \<and>
    getPosAtDepth (decorateLastPos d f) e = getPosAtDepth f e \<and>
    (\<forall>n < 128. (getDepth (decorateLastPos d f) = int n) = (getDepth f = int n))"
proof -
  have b: "byte_at i (mField (decorateLastPos d f)) =
      (if i = 2 - d then byte_at i (mField f) OR 0x80 else byte_at i (mField f))" if "i < 4" for i
    using assms(1) that by (simp add: decorateLastPos_def kMaxLogDepth_def kLastBitMask_def byte_at_push_0x80)
  have "2 - e < 4" and "(2 - e = 2 - d) = (e = d)" using assms by auto
  moreover have "bit (0x80 :: i32) 7" by simp
  ultimately show ?thesis
    using assms
    by (auto simp: isLastPos_bit getDepth_byte b getPosAtDepth_def getRawPosAtDepth_def rawSegment_byte
        kClearLastBitDeco_def byte_or_0x80_and_0x7f bit_or_iff)
qed

theorem decorateLastPos_marks_witness:
  "isLastPos (decorateLastPos 1 \<lparr>mTag = 10, mField = 0x02010201\<rparr>) 1 \<and>
   getPosAtDepth (decorateLastPos 1 \<lparr>mTag = 10, mField = 0x02010201\<rparr>) 1 =
     getPosAtDepth \<lparr>mTag = 10, mField = 0x02010201\<rparr> 1"
  using decorateLastPos_marks[of 1 1 "\<lparr>mTag = 10, mField = 0x02010201\<rparr>"] by simp

end
