(* ===== verification/StatsdValue.thy ===== *)
theory StatsdValue
  imports FieldValue "HOL-Library.Product_Lexorder" "HOL-Library.List_Lexorder"
begin

text \<open>
  \<^verbatim>\<open>struct Value\<close>, \<^verbatim>\<open>class Annotations\<close> and \<^verbatim>\<open>struct FieldValue\<close> of \<^verbatim>\<open>bin/src/FieldValue.h\<close>, with the
  operators of \<^verbatim>\<open>FieldValue.cpp\<close>. A \<^verbatim>\<open>float\<close> or \<^verbatim>\<open>double\<close> is its IEEE 754 bit pattern: comparison,
  the epsilon test of \<^verbatim>\<open>isZero\<close>, addition, subtraction and widening are the machine's, computed
  on the bit patterns (round to nearest, ties to even; one quiet NaN stands for all the NaNs an
  operation may produce).

  The containers of the daemon need \<^verbatim>\<open>operator<\<close> to be a strict weak order that agrees with
  \<^verbatim>\<open>operator!=\<close>. The locale \<open>cpp_order\<close> states that contract; it is interpreted here for fields,
  values and field values, and in \<^verbatim>\<open>DimensionKey\<close> for the keys of every map.
\<close>

unbundle bit_operations_syntax

section \<open>IEEE 754 numbers as bit patterns\<close>

text \<open>A format has \<open>p\<close> fraction bits and \<open>w\<close> exponent bits: 23 and 8 for \<^verbatim>\<open>float\<close>, 52 and 11 for
  \<^verbatim>\<open>double\<close>. A magnitude is counted in units of the least subnormal number.\<close>

definition fp_sign :: "nat \<Rightarrow> nat \<Rightarrow> nat \<Rightarrow> bool" where
  "fp_sign p w b = (2 ^ (p + w) \<le> b)"

definition fp_abs :: "nat \<Rightarrow> nat \<Rightarrow> nat \<Rightarrow> nat" where
  "fp_abs p w b = b mod 2 ^ (p + w)"

definition fp_inf :: "nat \<Rightarrow> nat \<Rightarrow> nat" where
  "fp_inf p w = (2 ^ w - 1) * 2 ^ p"

definition fp_isnan :: "nat \<Rightarrow> nat \<Rightarrow> nat \<Rightarrow> bool" where
  "fp_isnan p w b = (fp_inf p w < fp_abs p w b)"

definition fp_qnan :: "nat \<Rightarrow> nat \<Rightarrow> nat" where
  "fp_qnan p w = fp_inf p w + 2 ^ (p - 1)"

definition fp_key :: "nat \<Rightarrow> nat \<Rightarrow> nat \<Rightarrow> int" where
  "fp_key p w b = (if fp_sign p w b then - int (fp_abs p w b) else int (fp_abs p w b))"

definition fp_eq :: "nat \<Rightarrow> nat \<Rightarrow> nat \<Rightarrow> nat \<Rightarrow> bool" where
  "fp_eq p w a b = (\<not> fp_isnan p w a \<and> \<not> fp_isnan p w b \<and> fp_key p w a = fp_key p w b)"

definition fp_less :: "nat \<Rightarrow> nat \<Rightarrow> nat \<Rightarrow> nat \<Rightarrow> bool" where
  "fp_less p w a b = (\<not> fp_isnan p w a \<and> \<not> fp_isnan p w b \<and> fp_key p w a < fp_key p w b)"

fun bit_length :: "nat \<Rightarrow> nat" where
  "bit_length n = (if n = 0 then 0 else Suc (bit_length (n div 2)))"

declare bit_length.simps [simp del]

definition fp_magnitude :: "nat \<Rightarrow> nat \<Rightarrow> nat \<Rightarrow> nat" where
  "fp_magnitude p w b =
     (let e = fp_abs p w b div 2 ^ p; m = fp_abs p w b mod 2 ^ p
      in if e = 0 then m else (m + 2 ^ p) * 2 ^ (e - 1))"

definition fp_round :: "nat \<Rightarrow> nat \<Rightarrow> nat \<Rightarrow> nat" where
  "fp_round p w n =
     (if n < 2 ^ (p + 1) then n
      else
        let k = bit_length n - (p + 1);
            q = n div 2 ^ k; r = n mod 2 ^ k; half = 2 ^ (k - 1);
            q' = (if r > half \<or> (r = half \<and> odd q) then q + 1 else q)
        in min (fp_inf p w) (k * 2 ^ p + q'))"

definition fp_pack :: "nat \<Rightarrow> nat \<Rightarrow> bool \<Rightarrow> nat \<Rightarrow> nat" where
  "fp_pack p w neg n = (if neg then 2 ^ (p + w) else 0) + fp_round p w n"

definition fp_add :: "nat \<Rightarrow> nat \<Rightarrow> nat \<Rightarrow> nat \<Rightarrow> nat" where
  "fp_add p w a b =
     (if fp_isnan p w a \<or> fp_isnan p w b then fp_qnan p w
      else if fp_abs p w a = fp_inf p w
           then (if fp_abs p w b = fp_inf p w \<and> fp_sign p w a \<noteq> fp_sign p w b then fp_qnan p w else a)
      else if fp_abs p w b = fp_inf p w then b
      else
        let sv = (\<lambda>x. if fp_sign p w x then - int (fp_magnitude p w x) else int (fp_magnitude p w x));
            s = sv a + sv b
        in if s = 0 then (if fp_sign p w a \<and> fp_sign p w b then 2 ^ (p + w) else 0)
           else fp_pack p w (s < 0) (nat \<bar>s\<bar>))"

definition fp_neg :: "nat \<Rightarrow> nat \<Rightarrow> nat \<Rightarrow> nat" where
  "fp_neg p w b = (if fp_sign p w b then b - 2 ^ (p + w) else b + 2 ^ (p + w))"

definition fp_sub :: "nat \<Rightarrow> nat \<Rightarrow> nat \<Rightarrow> nat \<Rightarrow> nat" where
  "fp_sub p w a b = fp_add p w a (fp_neg p w b)"

abbreviation "f32 (f :: nat \<Rightarrow> nat \<Rightarrow> 'a) \<equiv> f 23 8"
abbreviation "f64 (f :: nat \<Rightarrow> nat \<Rightarrow> 'a) \<equiv> f 52 11"

text \<open>Exact widening of a \<^verbatim>\<open>float\<close>, and conversion of an integer, to \<^verbatim>\<open>double\<close>. One unit of the
  \<^verbatim>\<open>float\<close> grid is \<open>2 ^ 925\<close> units of the \<^verbatim>\<open>double\<close> grid, and one is \<open>2 ^ 1074\<close> of them.\<close>

definition f32_to_f64 :: "u32 \<Rightarrow> 64 word" where
  "f32_to_f64 b =
     (if f32 fp_isnan (unat b) then of_nat (f64 fp_qnan)
      else if f32 fp_abs (unat b) = f32 fp_inf
           then of_nat ((if f32 fp_sign (unat b) then 2 ^ 63 else 0) + f64 fp_inf)
      else of_nat (f64 fp_pack (f32 fp_sign (unat b)) (f32 fp_magnitude (unat b) * 2 ^ 925)))"

definition int_to_f64 :: "int \<Rightarrow> 64 word" where
  "int_to_f64 i = of_nat (f64 fp_pack (i < 0) (nat \<bar>i\<bar> * 2 ^ 1074))"

section \<open>Values\<close>

datatype log_value =
    UNKNOWN
  | INT_v (as_int: i32)
  | LONG (as_long: i64)
  | FLOAT (as_float: u32)
  | DOUBLE (as_double: "64 word")
  | STRING (as_str: string)
  | STORAGE (as_storage: "8 word list")

fun getType :: "log_value \<Rightarrow> nat" where
  "getType UNKNOWN = 0"
| "getType (INT_v _) = 1"
| "getType (LONG _) = 2"
| "getType (FLOAT _) = 3"
| "getType (DOUBLE _) = 4"
| "getType (STRING _) = 5"
| "getType (STORAGE _) = 6"

text \<open>Reading the \<^verbatim>\<open>int_value\<close> member of the union whatever the type: the low four bytes of the
  shared storage (little endian). The member is indeterminate where the union was never written;
  the model reads zero there.\<close>

fun int_value :: "log_value \<Rightarrow> i32" where
  "int_value (INT_v v) = v"
| "int_value (LONG v) = ucast v"
| "int_value (FLOAT v) = v"
| "int_value (DOUBLE v) = ucast v"
| "int_value _ = 0"

text \<open>\<^verbatim>\<open>std::string\<close> and \<^verbatim>\<open>std::vector<uint8_t>\<close> compare lexicographically by unsigned bytes.\<close>

fun bytes_less :: "nat list \<Rightarrow> nat list \<Rightarrow> bool" where
  "bytes_less [] [] = False"
| "bytes_less [] (y # ys) = True"
| "bytes_less (x # xs) [] = False"
| "bytes_less (x # xs) (y # ys) = (x < y \<or> (x = y \<and> bytes_less xs ys))"

definition string_less :: "string \<Rightarrow> string \<Rightarrow> bool" where
  "string_less s t = bytes_less (map of_char s) (map of_char t)"

definition storage_less :: "8 word list \<Rightarrow> 8 word list \<Rightarrow> bool" where
  "storage_less s t = bytes_less (map unat s) (map unat t)"

fun isZero :: "log_value \<Rightarrow> bool" where
  "isZero (INT_v v) = (v = 0)"
| "isZero (LONG v) = (v = 0)"
| "isZero (FLOAT v) = (f32 fp_abs (unat v) \<le> 0x34000000)"
| "isZero (DOUBLE v) = (f64 fp_abs (unat v) \<le> 0x3CB0000000000000)"
| "isZero (STRING s) = (length s = 0)"
| "isZero (STORAGE s) = (length s = 0)"
| "isZero UNKNOWN = False"

definition value_eq :: "log_value \<Rightarrow> log_value \<Rightarrow> bool" where
  "value_eq v that =
     (if getType v \<noteq> getType that then False
      else case v of
        INT_v a \<Rightarrow> a = as_int that
      | LONG a \<Rightarrow> a = as_long that
      | FLOAT a \<Rightarrow> f32 fp_eq (unat a) (unat (as_float that))
      | DOUBLE a \<Rightarrow> f64 fp_eq (unat a) (unat (as_double that))
      | STRING a \<Rightarrow> a = as_str that
      | STORAGE a \<Rightarrow> a = as_storage that
      | UNKNOWN \<Rightarrow> False)"

definition value_neq :: "log_value \<Rightarrow> log_value \<Rightarrow> bool" where
  "value_neq v that =
     (if getType v \<noteq> getType that then True
      else case v of
        INT_v a \<Rightarrow> a \<noteq> as_int that
      | LONG a \<Rightarrow> a \<noteq> as_long that
      | FLOAT a \<Rightarrow> \<not> f32 fp_eq (unat a) (unat (as_float that))
      | DOUBLE a \<Rightarrow> \<not> f64 fp_eq (unat a) (unat (as_double that))
      | STRING a \<Rightarrow> a \<noteq> as_str that
      | STORAGE a \<Rightarrow> a \<noteq> as_storage that
      | UNKNOWN \<Rightarrow> False)"

definition value_less :: "log_value \<Rightarrow> log_value \<Rightarrow> bool" where
  "value_less v that =
     (if getType v \<noteq> getType that then getType v < getType that
      else case v of
        INT_v a \<Rightarrow> sint a < sint (as_int that)
      | LONG a \<Rightarrow> sint a < sint (as_long that)
      | FLOAT a \<Rightarrow> f32 fp_less (unat a) (unat (as_float that))
      | DOUBLE a \<Rightarrow> f64 fp_less (unat a) (unat (as_double that))
      | STRING a \<Rightarrow> string_less a (as_str that)
      | STORAGE a \<Rightarrow> storage_less a (as_storage that)
      | UNKNOWN \<Rightarrow> False)"

definition value_greater :: "log_value \<Rightarrow> log_value \<Rightarrow> bool" where
  "value_greater v that =
     (if getType v \<noteq> getType that then getType v > getType that
      else case v of
        INT_v a \<Rightarrow> sint a > sint (as_int that)
      | LONG a \<Rightarrow> sint a > sint (as_long that)
      | FLOAT a \<Rightarrow> f32 fp_less (unat (as_float that)) (unat a)
      | DOUBLE a \<Rightarrow> f64 fp_less (unat (as_double that)) (unat a)
      | STRING a \<Rightarrow> string_less (as_str that) a
      | STORAGE a \<Rightarrow> storage_less (as_storage that) a
      | UNKNOWN \<Rightarrow> False)"

definition value_ge :: "log_value \<Rightarrow> log_value \<Rightarrow> bool" where
  "value_ge v that =
     (if getType v \<noteq> getType that then getType v \<ge> getType that
      else case v of
        INT_v a \<Rightarrow> sint a \<ge> sint (as_int that)
      | LONG a \<Rightarrow> sint a \<ge> sint (as_long that)
      | FLOAT a \<Rightarrow> f32 fp_less (unat (as_float that)) (unat a) \<or> f32 fp_eq (unat (as_float that)) (unat a)
      | DOUBLE a \<Rightarrow> f64 fp_less (unat (as_double that)) (unat a) \<or> f64 fp_eq (unat (as_double that)) (unat a)
      | STRING a \<Rightarrow> \<not> string_less a (as_str that)
      | STORAGE a \<Rightarrow> \<not> storage_less a (as_storage that)
      | UNKNOWN \<Rightarrow> False)"

text \<open>\<^verbatim>\<open>operator-\<close> yields an \<^verbatim>\<open>UNKNOWN\<close> value on a type mismatch or a non-numeric type,
  \<^verbatim>\<open>operator+=\<close> leaves its left operand as it was.\<close>

definition value_minus :: "log_value \<Rightarrow> log_value \<Rightarrow> log_value" where
  "value_minus v that =
     (if getType v \<noteq> getType that then UNKNOWN
      else case v of
        INT_v a \<Rightarrow> INT_v (a - as_int that)
      | LONG a \<Rightarrow> LONG (a - as_long that)
      | FLOAT a \<Rightarrow> FLOAT (of_nat (f32 fp_sub (unat a) (unat (as_float that))))
      | DOUBLE a \<Rightarrow> DOUBLE (of_nat (f64 fp_sub (unat a) (unat (as_double that))))
      | _ \<Rightarrow> UNKNOWN)"

definition value_plus :: "log_value \<Rightarrow> log_value \<Rightarrow> log_value" where
  "value_plus v that =
     (if getType v \<noteq> getType that then v
      else case v of
        INT_v a \<Rightarrow> INT_v (a + as_int that)
      | LONG a \<Rightarrow> LONG (a + as_long that)
      | FLOAT a \<Rightarrow> FLOAT (of_nat (f32 fp_add (unat a) (unat (as_float that))))
      | DOUBLE a \<Rightarrow> DOUBLE (of_nat (f64 fp_add (unat a) (unat (as_double that))))
      | _ \<Rightarrow> v)"

fun getDouble :: "log_value \<Rightarrow> 64 word" where
  "getDouble (INT_v v) = int_to_f64 (sint v)"
| "getDouble (LONG v) = int_to_f64 (sint v)"
| "getDouble (FLOAT v) = f32_to_f64 v"
| "getDouble (DOUBLE v) = v"
| "getDouble _ = 0"

section \<open>Annotations and field values\<close>

definition NESTED_POS :: nat where "NESTED_POS = 0"
definition PRIMARY_POS :: nat where "PRIMARY_POS = 1"
definition EXCLUSIVE_POS :: nat where "EXCLUSIVE_POS = 2"
definition UID_POS :: nat where "UID_POS = 3"

type_synonym annotations = "8 word"

definition setBitmaskAtPos :: "nat \<Rightarrow> bool \<Rightarrow> annotations \<Rightarrow> annotations" where
  "setBitmaskAtPos pos v m = (m AND NOT (push_bit pos 1)) OR push_bit pos (of_bool v)"

definition getValueFromBitmask :: "nat \<Rightarrow> annotations \<Rightarrow> bool" where
  "getValueFromBitmask pos m = (drop_bit pos m AND 1 \<noteq> 0)"

definition default_annotations :: annotations where
  "default_annotations = setBitmaskAtPos NESTED_POS True 0"

record field_value =
  fvField :: field
  fvValue :: log_value
  fvAnnotations :: annotations

definition mkFieldValue :: "field \<Rightarrow> log_value \<Rightarrow> field_value" where
  "mkFieldValue f v = \<lparr>fvField = f, fvValue = v, fvAnnotations = default_annotations\<rparr>"

definition isNested :: "field_value \<Rightarrow> bool" where
  "isNested fv = getValueFromBitmask NESTED_POS (fvAnnotations fv)"

definition isPrimaryField :: "field_value \<Rightarrow> bool" where
  "isPrimaryField fv = getValueFromBitmask PRIMARY_POS (fvAnnotations fv)"

definition isExclusiveState :: "field_value \<Rightarrow> bool" where
  "isExclusiveState fv = getValueFromBitmask EXCLUSIVE_POS (fvAnnotations fv)"

definition isUidField :: "field_value \<Rightarrow> bool" where
  "isUidField fv = getValueFromBitmask UID_POS (fvAnnotations fv)"

definition isAttributionUidField :: "field_value \<Rightarrow> bool" where
  "isAttributionUidField fv =
     (mField (fvField fv) AND 0xff007f = 0x10001 \<and> (case fvValue fv of INT_v _ \<Rightarrow> True | _ \<Rightarrow> False))"

definition getUidIfExists :: "field_value \<Rightarrow> i32" where
  "getUidIfExists fv =
     (if isAttributionUidField fv \<or> isUidField fv then int_value (fvValue fv) else -1)"

definition fv_neq :: "field_value \<Rightarrow> field_value \<Rightarrow> bool" where
  "fv_neq a b = (fvField a \<noteq> fvField b \<or> value_neq (fvValue a) (fvValue b))"

definition fv_eq :: "field_value \<Rightarrow> field_value \<Rightarrow> bool" where
  "fv_eq a b = (fvField a = fvField b \<and> value_eq (fvValue a) (fvValue b))"

definition fv_less :: "field_value \<Rightarrow> field_value \<Rightarrow> bool" where
  "fv_less a b =
     (if fvField a \<noteq> fvField b then field_less (fvField a) (fvField b)
      else if value_neq (fvValue a) (fvValue b) then value_less (fvValue a) (fvValue b)
      else False)"

section \<open>Orders for containers\<close>

text \<open>What \<^verbatim>\<open>std::map\<close> and \<^verbatim>\<open>std::set\<close> need of a key type: on the keys in use (\<open>ok\<close>),
  \<^verbatim>\<open>operator<\<close> is a strict order, it separates exactly the keys that \<^verbatim>\<open>operator!=\<close> tells apart,
  and it does not tell apart keys that are not different.\<close>

locale cpp_order =
  fixes ok :: "'a \<Rightarrow> bool" and lt :: "'a \<Rightarrow> 'a \<Rightarrow> bool" and ne :: "'a \<Rightarrow> 'a \<Rightarrow> bool"
  assumes irreflexive: "ok a \<Longrightarrow> \<not> lt a a"
    and transitive: "ok a \<Longrightarrow> ok b \<Longrightarrow> ok c \<Longrightarrow> lt a b \<Longrightarrow> lt b c \<Longrightarrow> lt a c"
    and ne_iff: "ok a \<Longrightarrow> ok b \<Longrightarrow> ne a b \<longleftrightarrow> lt a b \<or> lt b a"
    and eq_left: "ok a \<Longrightarrow> ok b \<Longrightarrow> ok c \<Longrightarrow> \<not> ne a b \<Longrightarrow> lt b c \<Longrightarrow> lt a c"
    and eq_right: "ok a \<Longrightarrow> ok b \<Longrightarrow> ok c \<Longrightarrow> \<not> ne b c \<Longrightarrow> lt a b \<Longrightarrow> lt a c"
begin

lemma asymmetric: "ok a \<Longrightarrow> ok b \<Longrightarrow> lt a b \<Longrightarrow> \<not> lt b a"
  using irreflexive transitive by blast

lemma equiv_transitive:
  "ok a \<Longrightarrow> ok b \<Longrightarrow> ok c \<Longrightarrow> \<not> ne a b \<Longrightarrow> \<not> ne b c \<Longrightarrow> \<not> ne a c"
  using ne_iff eq_left eq_right by meson

lemma incomparable_transitive:
  "ok a \<Longrightarrow> ok b \<Longrightarrow> ok c \<Longrightarrow> \<not> lt a b \<Longrightarrow> \<not> lt b a \<Longrightarrow> \<not> lt b c \<Longrightarrow> \<not> lt c b \<Longrightarrow>
     \<not> lt a c \<and> \<not> lt c a"
  using equiv_transitive[of a b c] ne_iff by blast

end

text \<open>An order read off a linearly ordered key satisfies the contract.\<close>

lemma cpp_order_by_key:
  fixes key :: "'a \<Rightarrow> 'k :: linorder"
  assumes "\<And>a b. ok a \<Longrightarrow> ok b \<Longrightarrow> lt a b = (key a < key b)"
    and "\<And>a b. ok a \<Longrightarrow> ok b \<Longrightarrow> ne a b = (key a \<noteq> key b)"
  shows "cpp_order ok lt ne"
  by unfold_locales (auto simp: assms)

text \<open>Values that are not NaN, and the key each is ordered by.\<close>

definition value_ok :: "log_value \<Rightarrow> bool" where
  "value_ok v = (case v of FLOAT a \<Rightarrow> \<not> f32 fp_isnan (unat a)
                         | DOUBLE a \<Rightarrow> \<not> f64 fp_isnan (unat a) | _ \<Rightarrow> True)"

definition value_key :: "log_value \<Rightarrow> nat \<times> int \<times> nat list" where
  "value_key v = (getType v,
     (case v of INT_v a \<Rightarrow> sint a | LONG a \<Rightarrow> sint a | FLOAT a \<Rightarrow> f32 fp_key (unat a)
        | DOUBLE a \<Rightarrow> f64 fp_key (unat a) | _ \<Rightarrow> 0),
     (case v of STRING s \<Rightarrow> map of_char s | STORAGE s \<Rightarrow> map unat s | _ \<Rightarrow> []))"

definition field_key :: "field \<Rightarrow> int \<times> int" where
  "field_key f = (sint (mTag f), sint (mField f))"

definition fv_ok :: "field_value \<Rightarrow> bool" where
  "fv_ok fv = value_ok (fvValue fv)"

definition fv_key :: "field_value \<Rightarrow> (int \<times> int) \<times> nat \<times> int \<times> nat list" where
  "fv_key fv = (field_key (fvField fv), value_key (fvValue fv))"

lemma bytes_less_list: "bytes_less xs ys = (xs < ys)"
  by (induction xs ys rule: bytes_less.induct) auto

lemma of_char_nat_inj: "map (of_char :: char \<Rightarrow> nat) s = map of_char t \<longleftrightarrow> s = t"
  by (rule inj_map_eq_map) (simp add: inj_def)

lemma unat_list_inj: "map unat (s :: 8 word list) = map unat t \<longleftrightarrow> s = t"
  by (rule inj_map_eq_map) (auto simp: inj_def intro: unsigned_word_eqI)

lemma sint_inj_iff: "sint (a :: 'a :: len word) = sint b \<longleftrightarrow> a = b"
  by (auto intro: signed_word_eqI)

lemma value_less_key:
  assumes "value_ok a" and "value_ok b"
  shows "value_less a b = (value_key a < value_key b)"
proof (cases "getType a = getType b")
  case True
  with assms show ?thesis
    by (cases a; cases b)
       (simp_all add: value_less_def value_key_def value_ok_def fp_less_def string_less_def
        storage_less_def bytes_less_list)
next
  case False
  then show ?thesis by (auto simp: value_less_def value_key_def)
qed

lemma value_neq_key:
  assumes "value_ok a" and "value_ok b"
  shows "value_neq a b = (value_key a \<noteq> value_key b)"
proof (cases "getType a = getType b")
  case True
  with assms show ?thesis
    by (cases a; cases b)
       (simp_all add: value_neq_def value_key_def value_ok_def fp_eq_def of_char_nat_inj
        unat_list_inj sint_inj_iff)
next
  case False
  then show ?thesis by (auto simp: value_neq_def value_key_def)
qed

lemma field_key_inj: "field_key a = field_key b \<longleftrightarrow> a = b"
  by (cases a; cases b) (simp add: field_key_def sint_inj_iff)

lemma field_less_key: "field_less a b = (field_key a < field_key b)"
  by (auto simp: field_less_def field_key_def less_le sint_inj_iff)

lemma fv_less_key: "fv_ok a \<Longrightarrow> fv_ok b \<Longrightarrow> fv_less a b = (fv_key a < fv_key b)"
  by (auto simp: fv_less_def fv_key_def fv_ok_def field_less_key value_less_key value_neq_key
      less_le field_key_inj)

lemma fv_neq_key: "fv_ok a \<Longrightarrow> fv_ok b \<Longrightarrow> fv_neq a b = (fv_key a \<noteq> fv_key b)"
  by (auto simp: fv_neq_def fv_key_def fv_ok_def value_neq_key field_key_inj)

interpretation value_order: cpp_order value_ok value_less value_neq
  by (rule cpp_order_by_key[OF value_less_key value_neq_key])

interpretation field_order: cpp_order "\<lambda>_. True" field_less "(\<noteq>)"
  by (rule cpp_order_by_key[where key = field_key]) (auto simp: field_less_key field_key_inj)

interpretation fv_order: cpp_order fv_ok fv_less fv_neq
  by (rule cpp_order_by_key[OF fv_less_key fv_neq_key])

lemma fp_eq_sym: "fp_eq p w a b = fp_eq p w b a"
  by (auto simp: fp_eq_def)

lemma value_greater_flip: "value_greater v u = value_less u v"
  by (cases v; cases u) (auto simp: value_greater_def value_less_def)

lemma annotation_get_set:
  assumes "i < 8" and "j < 8"
  shows "getValueFromBitmask i (setBitmaskAtPos j v m) = (if i = j then v else getValueFromBitmask i m)"
proof -
  have one: "(x AND 1 \<noteq> 0) = bit x 0" for x :: annotations
    by (simp add: and_one_eq odd_iff_mod_2_eq_one bit_0)
  show ?thesis
    using assms
    by (auto simp: getValueFromBitmask_def setBitmaskAtPos_def one bit_drop_bit_eq bit_or_iff
        bit_and_iff bit_not_iff bit_push_bit_iff bit_exp_iff bit_1_iff split: if_splits)
qed

section \<open>Properties\<close>

text \<open>
  Fact. \<^verbatim>\<open>Value::operator<\<close> is a strict weak order that agrees with \<^verbatim>\<open>operator!=\<close> on every
  set of values without NaNs: it is irreflexive and transitive, two values differ exactly when
  one is less than the other, and being incomparable is transitive. This is what \<^verbatim>\<open>std::map\<close> needs.
\<close>

theorem value_less_strict_weak_order:
  assumes "value_ok a" and "value_ok b" and "value_ok c"
  shows "\<not> value_less a a \<and> (value_less a b \<and> value_less b c \<longrightarrow> value_less a c) \<and>
    (value_neq a b \<longleftrightarrow> value_less a b \<or> value_less b a) \<and>
    (\<not> value_neq a b \<and> \<not> value_neq b c \<longrightarrow> \<not> value_neq a c)"
  using assms value_order.irreflexive value_order.transitive value_order.ne_iff
    value_order.equiv_transitive by blast

theorem value_less_strict_weak_order_witness:
  "value_less (INT_v 1) (INT_v 2) \<and> value_less (INT_v 2) (STRING ''a'') \<and>
   value_less (INT_v 1) (STRING ''a'')"
proof -
  have ok: "value_ok (INT_v 1)" "value_ok (INT_v 2)" "value_ok (STRING ''a'')"
    by (simp_all add: value_ok_def)
  have "value_less (INT_v 1) (INT_v 2)" "value_less (INT_v 2) (STRING ''a'')"
    by (simp_all add: value_less_def)
  with value_less_strict_weak_order[OF ok] show ?thesis by blast
qed

text \<open>
  Fact. \<^verbatim>\<open>operator==\<close> and \<^verbatim>\<open>operator!=\<close> of \<^verbatim>\<open>Value\<close> are complementary except on one pair: an
  \<^verbatim>\<open>UNKNOWN\<close> value is neither equal to nor different from another \<^verbatim>\<open>UNKNOWN\<close> value.
\<close>

theorem value_eq_neq_complement:
  "value_neq a b = (\<not> value_eq a b) \<longleftrightarrow> \<not> (a = UNKNOWN \<and> b = UNKNOWN)"
  by (cases a; cases b) (auto simp: value_neq_def value_eq_def)

text \<open>
  Fact. For \<^verbatim>\<open>int\<close> and \<^verbatim>\<open>long\<close> values \<^verbatim>\<open>+=\<close> undoes \<^verbatim>\<open>-\<close> with two's complement wrap-around, and
  on any mismatch of types the difference is \<^verbatim>\<open>UNKNOWN\<close> and \<^verbatim>\<open>+=\<close> changes nothing.
\<close>

theorem value_plus_minus:
  "value_plus (value_minus (INT_v x) (INT_v y)) (INT_v y) = INT_v x \<and>
   value_plus (value_minus (LONG p) (LONG q)) (LONG q) = LONG p \<and>
   (getType a = getType b \<or> (value_minus a b = UNKNOWN \<and> value_plus a b = a))"
  by (simp add: value_plus_def value_minus_def)

end
