(* ===== verification/DimensionKey.thy ===== *)
theory DimensionKey
  imports StatsdValue
begin

text \<open>
  \<^verbatim>\<open>bin/src/HashableDimensionKey.h\<close> and \<^verbatim>\<open>.cpp\<close>: how a dimension key is cut out of an event with
  leaf matchers, how metric fields are renamed into condition or state fields, and the
  equality, order and containment of keys.

  A \<^verbatim>\<open>HashableDimensionKey\<close> is its vector of field values. The maps of the daemon compare keys
  with \<^verbatim>\<open>operator==\<close>, which ignores annotations; their model keys are therefore \<open>dim_key\<close>s, the
  list of (field, value) pairs, and \<open>key_eq_canonical\<close> says when the two notions agree.
\<close>

unbundle bit_operations_syntax

section \<open>Definitions\<close>

type_synonym hashable_key = "field_value list"

record metric2condition =
  m2cConditionId :: int
  m2cMetricFields :: "matcher list"
  m2cConditionFields :: "matcher list"

record metric2state =
  m2sStateAtomId :: i32
  m2sMetricFields :: "matcher list"
  m2sStateFields :: "matcher list"

type_synonym dim_key = "(field \<times> log_value) list"

definition key_of :: "hashable_key \<Rightarrow> dim_key" where
  "key_of k = map (\<lambda>fv. (fvField fv, fvValue fv)) k"

text \<open>\<^verbatim>\<open>DEFAULT_DIMENSION_KEY\<close>, the empty key, and \<^verbatim>\<open>MetricDimensionKey\<close>: the key in what and the
  state values.\<close>

definition DEFAULT_DIMENSION_KEY :: dim_key where
  "DEFAULT_DIMENSION_KEY = []"

record metric_key =
  mDimensionKeyInWhat :: dim_key
  mStateValuesKey :: dim_key

definition DEFAULT_METRIC_DIMENSION_KEY :: metric_key where
  "DEFAULT_METRIC_DIMENSION_KEY = \<lparr>mDimensionKeyInWhat = [], mStateValuesKey = []\<rparr>"

subsection \<open>Filtering events into keys\<close>

fun filterValue :: "matcher \<Rightarrow> field_value list \<Rightarrow> field_value option" where
  "filterValue m [] = None"
| "filterValue m (v # vs) = (if matches (fvField v) m then Some v else filterValue m vs)"

text \<open>One match: push the value, then rewrite tag and masked field of entry \<open>num\<close> of the output.
  The output vector is an in-out parameter, as in the C++.\<close>

definition pushMasked :: "field_value \<Rightarrow> i32 \<Rightarrow> hashable_key \<times> nat \<Rightarrow> hashable_key \<times> nat" where
  "pushMasked v msk st =
     (let out = fst st @ [v]; num = snd st
      in (out[num := (out ! num)\<lparr>fvField := \<lparr>mTag = mTag (fvField v),
                                               mField = mField (fvField v) AND msk\<rparr>\<rparr>],
          num + 1))"

definition filterValues :: "matcher list \<Rightarrow> field_value list \<Rightarrow> hashable_key \<Rightarrow> hashable_key \<times> bool" where
  "filterValues ms vs output =
     (let (out, num) =
        foldl (\<lambda>st v. foldl (\<lambda>st m. if matches (fvField v) m then pushMasked v (mMask m) st else st) st ms)
          (output, 0) vs
      in (out, num > 0))"

definition filterPrimaryKey :: "field_value list \<Rightarrow> hashable_key \<Rightarrow> hashable_key \<times> bool" where
  "filterPrimaryKey vs output =
     (let (out, num) =
        foldl (\<lambda>st v. if isPrimaryField v
                      then pushMasked v (if isAttributionUidField v then 0xff7f7f7f else 0xff7f0000) st
                      else st)
          (output, 0) vs
      in (out, num > 0))"

definition filterGaugeValues :: "matcher list \<Rightarrow> field_value list \<Rightarrow> field_value list" where
  "filterGaugeValues ms vs =
     foldl (\<lambda>out m. foldl (\<lambda>out v. if matches (fvField v) m then out @ [v] else out) out vs) [] ms"

definition relabel :: "matcher list \<Rightarrow> hashable_key \<Rightarrow> hashable_key" where
  "relabel fs k =
     (if length k \<noteq> length fs then k
      else map (\<lambda>(fv, m). fv\<lparr>fvField := \<lparr>mTag = mTag (mMatcher m), mField = mField (mMatcher m)\<rparr>\<rparr>)
               (zip k fs))"

definition getDimensionForCondition ::
  "field_value list \<Rightarrow> metric2condition \<Rightarrow> hashable_key \<Rightarrow> hashable_key" where
  "getDimensionForCondition vs links k =
     relabel (m2cConditionFields links) (fst (filterValues (m2cMetricFields links) vs k))"

definition getDimensionForState ::
  "field_value list \<Rightarrow> metric2state \<Rightarrow> hashable_key \<Rightarrow> hashable_key" where
  "getDimensionForState vs link k =
     relabel (m2sStateFields link) (fst (filterValues (m2sMetricFields link) vs k))"

subsection \<open>Links between state and metric keys\<close>

definition linked :: "metric2state list \<Rightarrow> i32 \<Rightarrow> field \<Rightarrow> field \<Rightarrow> bool" where
  "linked stateLinks stateAtomId stateField metricField =
     list_ex (\<lambda>l. m2sStateAtomId l = stateAtomId \<and>
        list_ex (\<lambda>i. mMatcher (m2sStateFields l ! i) = stateField \<and>
                     mMatcher (m2sMetricFields l ! i) = metricField)
          [0..<length (m2sStateFields l)]) stateLinks"

definition containsLinkedStateValues ::
  "hashable_key \<Rightarrow> hashable_key \<Rightarrow> metric2state list \<Rightarrow> i32 \<Rightarrow> bool" where
  "containsLinkedStateValues whatKey primaryKey stateLinks stateAtomId =
     (if length whatKey < length primaryKey then False
      else list_all (\<lambda>p. list_ex (\<lambda>w. linked stateLinks stateAtomId (fvField p) (fvField w) \<and>
                                      value_eq (fvValue p) (fvValue w)) whatKey) primaryKey)"

subsection \<open>Comparing keys\<close>

fun firstDifferenceLess :: "field_value list \<Rightarrow> field_value list \<Rightarrow> bool" where
  "firstDifferenceLess (a # as) (b # bs) =
     (if fv_neq a b then fv_less a b else firstDifferenceLess as bs)"
| "firstDifferenceLess _ _ = False"

definition LessThan :: "hashable_key \<Rightarrow> hashable_key \<Rightarrow> bool" where
  "LessThan s1 s2 =
     (if length s1 \<noteq> length s2 then length s1 < length s2 else firstDifferenceLess s1 s2)"

definition key_eq :: "hashable_key \<Rightarrow> hashable_key \<Rightarrow> bool" where
  "key_eq k that =
     (if length k \<noteq> length that then False
      else list_all (\<lambda>i. \<not> fv_neq (k ! i) (that ! i)) [0..<length k])"

definition key_neq :: "hashable_key \<Rightarrow> hashable_key \<Rightarrow> bool" where
  "key_neq k that = (\<not> key_eq k that)"

definition key_contains :: "hashable_key \<Rightarrow> hashable_key \<Rightarrow> bool" where
  "key_contains k that =
     (if length k < length that then False
      else if length k = length that then key_eq k that
      else list_all (\<lambda>v. list_ex (\<lambda>mine. fvField v = fvField mine \<and> value_eq (fvValue v) (fvValue mine)) k)
             that)"

text \<open>The same containment on canonical keys, as the sliced-condition maps use it.\<close>

definition dim_contains :: "dim_key \<Rightarrow> dim_key \<Rightarrow> bool" where
  "dim_contains k that =
     (if length k < length that then False
      else if length k = length that then k = that
      else list_all (\<lambda>v. list_ex (\<lambda>mine. fst v = fst mine \<and> value_eq (snd v) (snd mine)) k) that)"

record metric_hashable_key =
  mhWhat :: hashable_key
  mhState :: hashable_key

definition metricKeyLess :: "metric_hashable_key \<Rightarrow> metric_hashable_key \<Rightarrow> bool" where
  "metricKeyLess k that =
     (if LessThan (mhWhat k) (mhWhat that) then True
      else if LessThan (mhWhat that) (mhWhat k) then False
      else LessThan (mhState k) (mhState that))"

definition metricKeyNeq :: "metric_hashable_key \<Rightarrow> metric_hashable_key \<Rightarrow> bool" where
  "metricKeyNeq k that =
     (\<not> (key_eq (mhWhat k) (mhWhat that) \<and> key_eq (mhState k) (mhState that)))"

section \<open>Facts about filtering\<close>

text \<open>The value a match contributes to the key.\<close>

definition masked :: "field_value \<Rightarrow> i32 \<Rightarrow> field_value" where
  "masked v msk = v\<lparr>fvField := \<lparr>mTag = mTag (fvField v), mField = mField (fvField v) AND msk\<rparr>\<rparr>"

definition matchedValues :: "matcher list \<Rightarrow> field_value list \<Rightarrow> hashable_key" where
  "matchedValues ms vs =
     concat (map (\<lambda>v. map (\<lambda>m. masked v (mMask m)) (filter (matches (fvField v)) ms)) vs)"

lemma pushMasked_aligned: "pushMasked v msk (out, length out) = (out @ [masked v msk], length out + 1)"
  by (simp add: pushMasked_def masked_def)

lemma filter_inner:
  "foldl (\<lambda>st m. if matches (fvField v) m then pushMasked v (mMask m) st else st) (out, length out) ms =
   (out @ map (\<lambda>m. masked v (mMask m)) (filter (matches (fvField v)) ms),
    length out + length (filter (matches (fvField v)) ms))"
proof (induction ms arbitrary: out)
  case (Cons m ms)
  from Cons.IH[of "out @ [masked v (mMask m)]"] Cons.IH[of out] show ?case
    by (simp add: pushMasked_aligned)
qed simp

lemma filter_outer:
  "foldl (\<lambda>st v. foldl (\<lambda>st m. if matches (fvField v) m then pushMasked v (mMask m) st else st) st ms)
     (out, length out) vs = (out @ matchedValues ms vs, length out + length (matchedValues ms vs))"
proof (induction vs arbitrary: out)
  case Nil
  then show ?case by (simp add: matchedValues_def)
next
  case (Cons v vs)
  let ?new = "map (\<lambda>m. masked v (mMask m)) (filter (matches (fvField v)) ms)"
  have "length out + length (filter (matches (fvField v)) ms) = length (out @ ?new)" by simp
  then show ?case
    using Cons.IH[of "out @ ?new"] by (simp only: foldl_Cons filter_inner) (simp add: matchedValues_def)
qed

lemma filterValues_eq: "filterValues ms vs [] = (matchedValues ms vs, matchedValues ms vs \<noteq> [])"
  using filter_outer[of ms "[]" vs] by (simp add: filterValues_def)

lemma filterPrimaryKey_eq:
  "filterPrimaryKey vs [] =
     (let k = map (\<lambda>v. masked v (if isAttributionUidField v then 0xff7f7f7f else 0xff7f0000))
                (filter isPrimaryField vs)
      in (k, k \<noteq> []))"
proof -
  have "foldl (\<lambda>st v. if isPrimaryField v
          then pushMasked v (if isAttributionUidField v then 0xff7f7f7f else 0xff7f0000) st else st)
        (out, length out) vs =
     (out @ map (\<lambda>v. masked v (if isAttributionUidField v then 0xff7f7f7f else 0xff7f0000))
              (filter isPrimaryField vs),
      length out + length (filter isPrimaryField vs))" for out
  proof (induction vs arbitrary: out)
    case (Cons v vs)
    from Cons.IH[of "out @ [masked v (if isAttributionUidField v then 0xff7f7f7f else 0xff7f0000)]"]
      Cons.IH[of out] show ?case
      by (simp add: pushMasked_aligned)
  qed simp
  from this[of "[]"] show ?thesis by (simp add: filterPrimaryKey_def Let_def)
qed

lemma filterGaugeValues_eq:
  "filterGaugeValues ms vs = concat (map (\<lambda>m. filter (\<lambda>v. matches (fvField v) m) vs) ms)"
proof -
  have "foldl (\<lambda>out v. if matches (fvField v) m then out @ [v] else out) out vs =
      out @ filter (\<lambda>v. matches (fvField v) m) vs" for out m
    using filter_map_append_single[of "\<lambda>v. matches (fvField v) m" "\<lambda>v. v"] by simp
  then have "foldl (\<lambda>out m. foldl (\<lambda>out v. if matches (fvField v) m then out @ [v] else out) out vs) out ms =
      out @ concat (map (\<lambda>m. filter (\<lambda>v. matches (fvField v) m) vs) ms)" for out
    by (induction ms arbitrary: out) auto
  then show ?thesis by (simp add: filterGaugeValues_def)
qed

section \<open>Facts about key comparison\<close>

definition key_ok :: "hashable_key \<Rightarrow> bool" where
  "key_ok k = list_all fv_ok k"

definition key_key :: "hashable_key \<Rightarrow> nat \<times> ((int \<times> int) \<times> nat \<times> int \<times> nat list) list" where
  "key_key k = (length k, map fv_key k)"

definition exact_value :: "log_value \<Rightarrow> bool" where
  "exact_value v = (\<not> is_FLOAT v \<and> \<not> is_DOUBLE v)"

lemma firstDifferenceLess_key:
  assumes "length xs = length ys" and "list_all fv_ok xs" and "list_all fv_ok ys"
  shows "firstDifferenceLess xs ys = (map fv_key xs < map fv_key ys)"
  using assms by (induction xs ys rule: list_induct2) (auto simp: fv_neq_key fv_less_key)

lemma LessThan_key: "key_ok a \<Longrightarrow> key_ok b \<Longrightarrow> LessThan a b = (key_key a < key_key b)"
  by (auto simp: LessThan_def key_ok_def key_key_def firstDifferenceLess_key)

lemma key_eq_list_all2: "key_eq a b = list_all2 (\<lambda>x y. \<not> fv_neq x y) a b"
  by (auto simp: key_eq_def list_all2_conv_all_nth list_all_iff)

lemma key_neq_key: "key_ok a \<Longrightarrow> key_ok b \<Longrightarrow> key_neq a b = (key_key a \<noteq> key_key b)"
proof -
  assume "key_ok a" "key_ok b"
  then have "list_all2 (\<lambda>x y. \<not> fv_neq x y) a b = (map fv_key a = map fv_key b)"
  proof (induction a arbitrary: b)
    case (Cons x xs)
    then show ?case by (cases b) (auto simp: key_ok_def fv_neq_key)
  qed (auto simp: list_all2_Nil)
  then show ?thesis
    by (auto simp: key_neq_def key_eq_list_all2 key_key_def dest: map_eq_imp_length_eq)
qed

interpretation key_order: cpp_order key_ok LessThan key_neq
  by (rule cpp_order_by_key[OF LessThan_key key_neq_key])

interpretation metric_key_order: cpp_order "\<lambda>k. key_ok (mhWhat k) \<and> key_ok (mhState k)"
    metricKeyLess metricKeyNeq
proof (rule cpp_order_by_key[where key = "\<lambda>k. (key_key (mhWhat k), key_key (mhState k))"])
  fix a b :: metric_hashable_key
  assume ok: "key_ok (mhWhat a) \<and> key_ok (mhState a)" "key_ok (mhWhat b) \<and> key_ok (mhState b)"
  then show "metricKeyLess a b =
      ((key_key (mhWhat a), key_key (mhState a)) < (key_key (mhWhat b), key_key (mhState b)))"
    by (cases "key_key (mhWhat a)" "key_key (mhWhat b)" rule: linorder_cases)
       (auto simp: metricKeyLess_def LessThan_key)
  from ok show "metricKeyNeq a b =
      ((key_key (mhWhat a), key_key (mhState a)) \<noteq> (key_key (mhWhat b), key_key (mhState b)))"
    using key_neq_key[of "mhWhat a" "mhWhat b"] key_neq_key[of "mhState a" "mhState b"]
    by (simp add: metricKeyNeq_def key_neq_def)
qed

lemma exact_value_neq: "exact_value a \<Longrightarrow> exact_value b \<Longrightarrow> value_neq a b = (a \<noteq> b)"
  by (cases a; cases b) (auto simp: exact_value_def value_neq_def)

lemma key_eq_canonical:
  assumes "list_all (\<lambda>fv. exact_value (fvValue fv)) a" and "list_all (\<lambda>fv. exact_value (fvValue fv)) b"
  shows "key_eq a b = (key_of a = key_of b)"
  unfolding key_eq_list_all2 key_of_def
  using assms
proof (induction a arbitrary: b)
  case (Cons x xs)
  then show ?case by (cases b) (auto simp: fv_neq_def exact_value_neq)
qed (auto simp: list_all2_Nil)


lemma value_eq_exact: "exact_value a \<Longrightarrow> value_eq a b \<Longrightarrow> a = b"
  by (cases a; cases b) (auto simp: exact_value_def value_eq_def)

lemma dim_contains_subset:
  "\<forall>v \<in> set that. exact_value (snd v) \<Longrightarrow> dim_contains k that \<Longrightarrow> set that \<subseteq> set k"
  by (auto simp: dim_contains_def list_all_iff list_ex_iff split: if_splits)
     (metis prod.collapse snd_conv value_eq_exact)

lemma matches_masked_field:
  "matches f m \<Longrightarrow> \<not> hasAllPositionMatcher m \<Longrightarrow>
   \<lparr>mTag = mTag f, mField = mField f AND mMask m\<rparr> = mMatcher m"
  by (simp add: matches_def split: if_splits)

section \<open>Properties\<close>

text \<open>
  Fact. Cutting a dimension key out of an event: \<^verbatim>\<open>filterValues\<close> into an empty key yields,
  in event order and then matcher order, one entry per (value, matcher) match, and reports
  success exactly when there is one; the value of each entry is the event's, and its field is the
  matcher's own field unless the matcher is for position ALL. Events that differ only in which
  item matched ANY, FIRST or LAST therefore produce the same key fields.
\<close>

theorem filterValues_spec:
  shows "filterValues ms vs [] = (matchedValues ms vs, matchedValues ms vs \<noteq> []) \<and>
    (\<forall>e \<in> set (fst (filterValues ms vs [])). \<exists>v \<in> set vs. \<exists>m \<in> set ms.
        matches (fvField v) m \<and> fvValue e = fvValue v \<and> fvAnnotations e = fvAnnotations v \<and>
        (hasAllPositionMatcher m \<or> fvField e = mMatcher m))"
proof -
  have "\<exists>v \<in> set vs. \<exists>m \<in> set ms.
        matches (fvField v) m \<and> fvValue e = fvValue v \<and> fvAnnotations e = fvAnnotations v \<and>
        (hasAllPositionMatcher m \<or> fvField e = mMatcher m)"
    if "e \<in> set (matchedValues ms vs)" for e
    using that by (fastforce simp: matchedValues_def masked_def dest: matches_masked_field)
  then show ?thesis by (simp add: filterValues_eq)
qed

theorem filterValues_spec_witness:
  "\<exists>v \<in> set [\<lparr>fvField = \<lparr>mTag = 10, mField = 0x10000\<rparr>, fvValue = INT_v 7, fvAnnotations = 0\<rparr>].
     fvValue (hd (fst (filterValues [getSimpleMatcher 10 1]
       [\<lparr>fvField = \<lparr>mTag = 10, mField = 0x10000\<rparr>, fvValue = INT_v 7, fvAnnotations = 0\<rparr>] [])))
       = fvValue v"
proof -
  let ?e = "\<lparr>fvField = \<lparr>mTag = 10, mField = 0x10000\<rparr>, fvValue = INT_v 7, fvAnnotations = 0\<rparr>"
  have "matchedValues [getSimpleMatcher 10 1] [?e] \<noteq> []"
    by (simp add: matchedValues_def matches_def getSimpleMatcher_def getSimpleField_def)
  then have "hd (fst (filterValues [getSimpleMatcher 10 1] [?e] []))
      \<in> set (fst (filterValues [getSimpleMatcher 10 1] [?e] []))"
    by (simp add: filterValues_eq)
  with filterValues_spec[of "[getSimpleMatcher 10 1]" "[?e]"] show ?thesis by fastforce
qed

text \<open>
  Fact. \<^verbatim>\<open>HashableDimensionKey::operator<\<close> (\<^verbatim>\<open>LessThan\<close>) is a strict weak order whose
  incomparability is \<^verbatim>\<open>operator==\<close>, as \<^verbatim>\<open>std::map\<close> keyed by dimension keys requires, for keys
  with no NaN, storage or unknown value.
\<close>

theorem dimension_key_order:
  assumes "key_ok a" and "key_ok b" and "key_ok c"
  shows "\<not> LessThan a a \<and> (LessThan a b \<and> LessThan b c \<longrightarrow> LessThan a c) \<and>
    (key_eq a b \<longleftrightarrow> \<not> LessThan a b \<and> \<not> LessThan b a)"
  using key_order.irreflexive[OF assms(1)] key_order.transitive[OF assms]
    key_order.ne_iff[OF assms(1,2)] by (auto simp: key_neq_def)

theorem dimension_key_order_witness:
  "key_eq [] [] \<longleftrightarrow> \<not> LessThan [] [] \<and> \<not> LessThan [] []"
  using dimension_key_order[of "[]" "[]" "[]"] by (simp add: key_ok_def)

text \<open>
  Fact. The key looked up in a linked condition speaks the condition's language: if the
  metric fields of the link match as many values as the link has condition fields, then the key
  carries exactly the condition fields, in order, over the values of the metric event.
\<close>

theorem getDimensionForCondition_relabels:
  assumes "length (matchedValues (m2cMetricFields l) vs) = length (m2cConditionFields l)"
  shows "map fvField (getDimensionForCondition vs l []) = map mMatcher (m2cConditionFields l) \<and>
    map fvValue (getDimensionForCondition vs l []) = map fvValue (matchedValues (m2cMetricFields l) vs)"
proof -
  have "map fvField (relabel fs k) = map mMatcher fs \<and> map fvValue (relabel fs k) = map fvValue k"
    if "length k = length fs" for k and fs :: "matcher list"
    using that unfolding relabel_def by (induction k fs rule: list_induct2) auto
  with assms show ?thesis by (simp add: getDimensionForCondition_def filterValues_eq)
qed

theorem getDimensionForCondition_relabels_witness:
  "map fvField (getDimensionForCondition
     [\<lparr>fvField = \<lparr>mTag = 10, mField = 0x10000\<rparr>, fvValue = INT_v 7, fvAnnotations = 0\<rparr>]
     \<lparr>m2cConditionId = 1, m2cMetricFields = [getSimpleMatcher 10 1],
      m2cConditionFields = [getSimpleMatcher 20 3]\<rparr> []) = [\<lparr>mTag = 20, mField = 0x30000\<rparr>]"
  using getDimensionForCondition_relabels[of
     "\<lparr>m2cConditionId = 1, m2cMetricFields = [getSimpleMatcher 10 1],
      m2cConditionFields = [getSimpleMatcher 20 3]\<rparr>"
     "[\<lparr>fvField = \<lparr>mTag = 10, mField = 0x10000\<rparr>, fvValue = INT_v 7, fvAnnotations = 0\<rparr>]"]
  by (simp add: matchedValues_def matches_def getSimpleMatcher_def getSimpleField_def)

end
