(* ===== verification/ConditionLogic.thy ===== *)
theory ConditionLogic
  imports DimensionKey
begin

text \<open>
  \<^verbatim>\<open>bin/src/condition/condition_util.cpp\<close>, \<^verbatim>\<open>ConditionTimer.h\<close> and \<^verbatim>\<open>SimpleConditionTracker.cpp\<close>: the
  three-valued conditions, the stopwatch of a condition, and the tracker that turns start, stop
  and stop-all events into one condition per dimension key, with nested starts counted or not.

  Its contract, \<open>count_step\<close>, is one counter per key; \<open>abs_count\<close> reads the counters off the sparse
  map the code keeps.
\<close>

section \<open>Condition states\<close>

datatype condition_state = kNotEvaluated | kUnknown | kFalse | kTrue

datatype logical_operation = LOGICAL_OPERATION_UNSPECIFIED | op_AND | op_OR | op_NOT | op_NAND | op_NOR

fun state_code :: "condition_state \<Rightarrow> int" where
  "state_code kNotEvaluated = -2"
| "state_code kUnknown = -1"
| "state_code kFalse = 0"
| "state_code kTrue = 1"

definition state_or :: "condition_state \<Rightarrow> condition_state \<Rightarrow> condition_state" where
  "state_or l r = (if state_code l \<ge> state_code r then l else r)"

text \<open>The scan of the children: stops at the first unknown one.\<close>

fun scanChildren :: "condition_state list \<Rightarrow> int list \<Rightarrow> bool \<times> bool \<times> bool \<Rightarrow> bool \<times> bool \<times> bool" where
  "scanChildren cache [] acc = acc"
| "scanChildren cache (c # cs) (hasUnknown, hasFalse, hasTrue) =
     (let childState = cache ! nat c
      in if childState = kUnknown then (True, hasFalse, hasTrue)
         else scanChildren cache cs
                (hasUnknown, hasFalse \<or> childState = kFalse, hasTrue \<or> childState = kTrue))"

definition evaluateCombinationCondition ::
  "int list \<Rightarrow> logical_operation \<Rightarrow> condition_state list \<Rightarrow> condition_state" where
  "evaluateCombinationCondition children op cache =
     (let (hasUnknown, hasFalse, hasTrue) = scanChildren cache children (False, False, False)
      in if hasUnknown then kUnknown
         else case op of
                op_AND \<Rightarrow> if hasFalse then kFalse else kTrue
              | op_OR \<Rightarrow> if hasTrue then kTrue else kFalse
              | op_NOT \<Rightarrow> if children = [] then kUnknown
                          else if cache ! nat (children ! 0) = kFalse then kTrue else kFalse
              | op_NAND \<Rightarrow> if hasFalse then kTrue else kFalse
              | op_NOR \<Rightarrow> if hasTrue then kFalse else kTrue
              | LOGICAL_OPERATION_UNSPECIFIED \<Rightarrow> kFalse)"

section \<open>The condition stopwatch\<close>

record condition_timer =
  mTimerNs :: ns
  mLastConditionTrueTimestampNs :: ns
  timerCondition :: bool

definition newConditionTimer :: "bool \<Rightarrow> ns \<Rightarrow> condition_timer" where
  "newConditionTimer initCondition bucketStartNs =
     \<lparr>mTimerNs = 0, mLastConditionTrueTimestampNs = (if initCondition then bucketStartNs else 0),
      timerCondition = initCondition\<rparr>"

definition newBucketStart :: "ns \<Rightarrow> condition_timer \<Rightarrow> condition_timer \<times> ns" where
  "newBucketStart nextBucketStartNs t =
     (let t' = (if timerCondition t
                then t\<lparr>mTimerNs := mTimerNs t + (nextBucketStartNs - mLastConditionTrueTimestampNs t),
                       mLastConditionTrueTimestampNs := nextBucketStartNs\<rparr>
                else t)
      in (t'\<lparr>mTimerNs := 0\<rparr>, mTimerNs t'))"

definition timer_onConditionChanged :: "bool \<Rightarrow> ns \<Rightarrow> condition_timer \<Rightarrow> condition_timer" where
  "timer_onConditionChanged newCondition timestampNs t =
     (if newCondition = timerCondition t then t
      else if newCondition
           then t\<lparr>timerCondition := True, mLastConditionTrueTimestampNs := timestampNs\<rparr>
      else t\<lparr>timerCondition := False,
             mTimerNs := mTimerNs t + (timestampNs - mLastConditionTrueTimestampNs t)\<rparr>)"

section \<open>Simple condition trackers\<close>

datatype initial_value = INITIAL_UNKNOWN | INITIAL_FALSE

record simple_predicate =
  sp_start :: "int option"
  sp_stop :: "int option"
  sp_stop_all :: "int option"
  sp_count_nesting :: bool
  sp_initial_value :: initial_value
  sp_dimensions :: "field_matcher option"

record simple_tracker =
  scConditionId :: int
  scIndex :: nat
  scInitialized :: bool
  scTrackerIndex :: "int list"
  scSliced :: bool
  mStartLogMatcherIndex :: int
  mStopLogMatcherIndex :: int
  mStopAllLogMatcherIndex :: int
  mCountNesting :: bool
  mInitialValue :: condition_state
  mOutputDimensions :: "matcher list"
  mContainANYPosition :: bool
  mLastChangedToTrueDimensions :: "dim_key list"
  mLastChangedToFalseDimensions :: "dim_key list"
  mSlicedConditionState :: "(dim_key, int) umap"

definition setMatcherIndices :: "simple_predicate \<Rightarrow> (int, int) umap \<Rightarrow> simple_tracker \<Rightarrow> simple_tracker" where
  "setMatcherIndices p mtm t0 =
     (let t = t0\<lparr>scTrackerIndex := []\<rparr>;
          startStep = (case sp_start p of
              None \<Rightarrow> Some (t\<lparr>mStartLogMatcherIndex := -1\<rparr>)
            | Some m \<Rightarrow> map_option (\<lambda>i. t\<lparr>mStartLogMatcherIndex := i, scTrackerIndex := List.insert i (scTrackerIndex t)\<rparr>)
                          (map_of mtm m))
      in case startStep of
           None \<Rightarrow> t
         | Some t1 \<Rightarrow>
             (case (case sp_stop p of
                      None \<Rightarrow> Some (t1\<lparr>mStopLogMatcherIndex := -1\<rparr>)
                    | Some m \<Rightarrow> map_option (\<lambda>i. t1\<lparr>mStopLogMatcherIndex := i, scTrackerIndex := List.insert i (scTrackerIndex t1)\<rparr>)
                                  (map_of mtm m)) of
                None \<Rightarrow> t1
              | Some t2 \<Rightarrow>
                  (case sp_stop_all p of
                     None \<Rightarrow> t2\<lparr>mStopAllLogMatcherIndex := -1\<rparr>
                   | Some m \<Rightarrow> (case map_of mtm m of
                                  None \<Rightarrow> t2
                                | Some i \<Rightarrow> t2\<lparr>mStopAllLogMatcherIndex := i,
                                                scTrackerIndex := List.insert i (scTrackerIndex t2)\<rparr>))))"

text \<open>The three matcher indices have no initialiser: \<open>garbage\<close> is what the memory held.\<close>

definition newSimpleConditionTracker ::
  "int \<Rightarrow> nat \<Rightarrow> simple_predicate \<Rightarrow> (int, int) umap \<Rightarrow> int \<times> int \<times> int \<Rightarrow> simple_tracker" where
  "newSimpleConditionTracker cid idx p mtm garbage =
     (let (g1, g2, g3) = garbage;
          dims = (case sp_dimensions p of None \<Rightarrow> [] | Some d \<Rightarrow> translateFieldMatcher d);
          t = \<lparr>scConditionId = cid, scIndex = idx, scInitialized = False, scTrackerIndex = [],
               scSliced = (dims \<noteq> []), mStartLogMatcherIndex = g1, mStopLogMatcherIndex = g2,
               mStopAllLogMatcherIndex = g3, mCountNesting = sp_count_nesting p,
               mInitialValue = (if sp_initial_value p = INITIAL_FALSE then kFalse else kUnknown),
               mOutputDimensions = dims,
               mContainANYPosition = (case sp_dimensions p of None \<Rightarrow> False | Some d \<Rightarrow> HasPositionANY d),
               mLastChangedToTrueDimensions = [], mLastChangedToFalseDimensions = [],
               mSlicedConditionState = []\<rparr>
      in (setMatcherIndices p mtm t)\<lparr>scInitialized := True\<rparr>)"

definition simple_onConfigUpdated :: "simple_predicate \<Rightarrow> nat \<Rightarrow> (int, int) umap \<Rightarrow> simple_tracker \<Rightarrow> simple_tracker" where
  "simple_onConfigUpdated p idx mtm t = setMatcherIndices p mtm (t\<lparr>scIndex := idx\<rparr>)"

definition handleStopAll :: "simple_tracker \<Rightarrow> simple_tracker \<times> condition_state \<times> bool" where
  "handleStopAll t =
     (let changed = (if mInitialValue t = kFalse \<and> mSlicedConditionState t = [] then False else True);
          f = foldl (\<lambda>acc (k, n). if n > 0 then List.insert k acc else acc)
                (mLastChangedToFalseDimensions t) (mSlicedConditionState t)
      in (t\<lparr>mLastChangedToFalseDimensions := f, mInitialValue := kFalse, mSlicedConditionState := []\<rparr>,
          kFalse, changed))"

definition condition_hitGuardRail :: "dim_key \<Rightarrow> simple_tracker \<Rightarrow> bool" where
  "condition_hitGuardRail newKey t =
     (if \<not> scSliced t then False else dimension_guardrail (mSlicedConditionState t) newKey)"

definition handleConditionEvent ::
  "dim_key \<Rightarrow> bool \<Rightarrow> simple_tracker \<Rightarrow> simple_tracker \<times> condition_state \<times> bool" where
  "handleConditionEvent outputKey matchStart t =
     (if condition_hitGuardRail outputKey t then (t, kUnknown, False)
      else case map_of (mSlicedConditionState t) outputKey of
        None \<Rightarrow>
          (let newCondition = (if matchStart then kTrue else kFalse)
           in if matchStart \<and> mInitialValue t \<noteq> kTrue
              then (t\<lparr>mSlicedConditionState := AList.update outputKey 1 (mSlicedConditionState t),
                      mLastChangedToTrueDimensions := List.insert outputKey (mLastChangedToTrueDimensions t)\<rparr>,
                    newCondition, True)
              else if mInitialValue t \<noteq> kFalse
              then (t\<lparr>mSlicedConditionState := AList.update outputKey 0 (mSlicedConditionState t),
                      mLastChangedToFalseDimensions := List.insert outputKey (mLastChangedToFalseDimensions t)\<rparr>,
                    newCondition, True)
              else (t, newCondition, False))
      | Some startedCount \<Rightarrow>
          if matchStart
          then (t\<lparr>mSlicedConditionState := AList.update outputKey (startedCount + 1) (mSlicedConditionState t),
                  mLastChangedToTrueDimensions :=
                    (if startedCount = 0 then List.insert outputKey (mLastChangedToTrueDimensions t)
                     else mLastChangedToTrueDimensions t)\<rparr>,
                kTrue, startedCount = 0)
          else let old = (if startedCount > 0 then kTrue else kFalse);
                   cnt = (if startedCount > 0 then (if mCountNesting t then startedCount - 1 else 0) else startedCount);
                   newCondition = (if startedCount > 0 \<and> cnt = 0 then kFalse else old);
                   changed = (startedCount > 0 \<and> cnt = 0);
                   f = (if changed then List.insert outputKey (mLastChangedToFalseDimensions t)
                        else mLastChangedToFalseDimensions t);
                   m = AList.update outputKey cnt (mSlicedConditionState t);
                   m' = (if mInitialValue t = kFalse \<and> cnt = 0 then AList.delete outputKey m else m)
               in (t\<lparr>mSlicedConditionState := m', mLastChangedToFalseDimensions := f\<rparr>, newCondition, changed))"

text \<open>\<^verbatim>\<open>evaluateCondition\<close> of one tracker: the condition and whether it changed go into the two caches,
  which the caller writes at the tracker's index. \<open>matched i\<close> says that matcher \<open>i\<close> matched the event;
  the guard on the stop-all index is the code's, \<open>n\<close> is the number of matchers. The branch for ANY
  positions only logs an error.\<close>

definition currentCondition :: "simple_tracker \<Rightarrow> condition_state" where
  "currentCondition t =
     (if scSliced t
      then (if list_ex (\<lambda>(k, n). n > 0) (mSlicedConditionState t) then kTrue else mInitialValue t)
      else case map_of (mSlicedConditionState t) DEFAULT_DIMENSION_KEY of
             None \<Rightarrow> mInitialValue t
           | Some n \<Rightarrow> if n > 0 then kTrue else kFalse)"

definition simple_evaluateCondition ::
  "field_value list \<Rightarrow> bool list \<Rightarrow> simple_tracker \<Rightarrow> simple_tracker \<times> condition_state \<times> bool" where
  "simple_evaluateCondition values matched t0 =
     (let t = t0\<lparr>mLastChangedToTrueDimensions := [], mLastChangedToFalseDimensions := []\<rparr>
      in if mStopAllLogMatcherIndex t \<ge> 0 \<and> mStopAllLogMatcherIndex t < int (length matched) \<and>
            matched ! nat (mStopAllLogMatcherIndex t)
         then handleStopAll t
         else let start = (mStartLogMatcherIndex t \<ge> 0 \<and> matched ! nat (mStartLogMatcherIndex t));
                  stop = (mStopLogMatcherIndex t \<ge> 0 \<and> matched ! nat (mStopLogMatcherIndex t));
                  matchedState = (if stop then 0 else if start then 1 else -1 :: int)
              in if matchedState < 0 then (t, currentCondition t, False)
                 else if mOutputDimensions t = []
                 then handleConditionEvent DEFAULT_DIMENSION_KEY (matchedState = 1) t
                 else if \<not> mContainANYPosition t
                 then handleConditionEvent (key_of (fst (filterValues (mOutputDimensions t) values []))) (matchedState = 1) t
                 else (t, mInitialValue t, False))"

definition simple_isConditionMet :: "(int, dim_key) umap \<Rightarrow> bool \<Rightarrow> simple_tracker \<Rightarrow> condition_state" where
  "simple_isConditionMet parameters isPartialLink t =
     (case map_of parameters (scConditionId t) of
        None \<Rightarrow>
          (let s = state_or kNotEvaluated (mInitialValue t)
           in if scSliced t then s
              else case map_of (mSlicedConditionState t) DEFAULT_DIMENSION_KEY of
                     None \<Rightarrow> s
                   | Some n \<Rightarrow> state_or s (if n > 0 then kTrue else kFalse))
      | Some key \<Rightarrow>
          (let s = state_or kNotEvaluated (mInitialValue t)
           in if isPartialLink
              then foldl (\<lambda>s (k, n). if dim_contains k key then state_or s (if n > 0 then kTrue else kFalse) else s)
                     s (mSlicedConditionState t)
              else case map_of (mSlicedConditionState t) key of
                     None \<Rightarrow> s
                   | Some n \<Rightarrow> state_or s (if n > 0 then kTrue else kFalse)))"


section \<open>Facts about combinations\<close>

text \<open>The Boolean reading of the operations, on the children's truth values.\<close>

fun bool_op :: "logical_operation \<Rightarrow> bool list \<Rightarrow> bool" where
  "bool_op op_AND bs = list_all (\<lambda>b. b) bs"
| "bool_op op_OR bs = list_ex (\<lambda>b. b) bs"
| "bool_op op_NOT bs = (\<not> hd bs)"
| "bool_op op_NAND bs = (\<not> list_all (\<lambda>b. b) bs)"
| "bool_op op_NOR bs = (\<not> list_ex (\<lambda>b. b) bs)"
| "bool_op LOGICAL_OPERATION_UNSPECIFIED bs = False"

definition known :: "condition_state \<Rightarrow> bool" where
  "known s = (s = kTrue \<or> s = kFalse)"

lemma scan_known:
  "list_all (\<lambda>c. known (cache ! nat c)) cs \<Longrightarrow>
   scanChildren cache cs (u, f, t) =
     (u, f \<or> list_ex (\<lambda>c. cache ! nat c = kFalse) cs, t \<or> list_ex (\<lambda>c. cache ! nat c = kTrue) cs)"
  by (induction cs arbitrary: f t) (auto simp: known_def)

lemma scan_unknown:
  "list_all (\<lambda>c. cache ! nat c \<noteq> kNotEvaluated) cs \<Longrightarrow> list_ex (\<lambda>c. cache ! nat c = kUnknown) cs \<Longrightarrow>
   fst (scanChildren cache cs (u, f, t))"
  by (induction cs arbitrary: f t) (auto simp: Let_def)

lemma evaluate_unknown:
  "list_all (\<lambda>c. cache ! nat c \<noteq> kNotEvaluated) cs \<Longrightarrow> list_ex (\<lambda>c. cache ! nat c = kUnknown) cs \<Longrightarrow>
   evaluateCombinationCondition cs op cache = kUnknown"
  using scan_unknown[of cache cs False False False] by (auto simp: evaluateCombinationCondition_def split: prod.splits)

lemma evaluate_known:
  assumes "list_all (\<lambda>c. known (cache ! nat c)) cs" and "op = op_NOT \<longrightarrow> cs \<noteq> []"
  shows "evaluateCombinationCondition cs op cache =
    (if bool_op op (map (\<lambda>c. cache ! nat c = kTrue) cs) then kTrue else kFalse)"
proof -
  have "list_ex (\<lambda>c. cache ! nat c = kFalse) cs = (\<not> list_all (\<lambda>c. cache ! nat c = kTrue) cs)"
    using assms(1) by (induction cs) (auto simp: known_def)
  moreover have "cs \<noteq> [] \<Longrightarrow> (cache ! nat (cs ! 0) = kFalse) = (\<not> cache ! nat (hd cs) = kTrue)"
    using assms(1) by (cases cs) (auto simp: known_def)
  ultimately show ?thesis
    using assms(2) scan_known[OF assms(1), of False False False]
    by (cases op; cases cs) (auto simp: evaluateCombinationCondition_def list_all_iff list_ex_iff)
qed

lemma evaluate_not_NotEvaluated [simp]: "evaluateCombinationCondition cs op cache \<noteq> kNotEvaluated"
  by (auto simp: evaluateCombinationCondition_def split: prod.splits logical_operation.splits)

lemma state_or_simps [simp]: "state_or kNotEvaluated s = s"
  by (cases s) (auto simp: state_or_def)

section \<open>Facts about the stopwatch\<close>

text \<open>The time the condition has been true in the current bucket, up to \<open>now\<close>.\<close>

definition true_so_far :: "condition_timer \<Rightarrow> ns \<Rightarrow> ns" where
  "true_so_far t now = mTimerNs t + (if timerCondition t then now - mLastConditionTrueTimestampNs t else 0)"

datatype timer_event = ConditionChange bool ns | BucketStart ns

fun event_time :: "timer_event \<Rightarrow> ns" where
  "event_time (ConditionChange c ts) = ts"
| "event_time (BucketStart ts) = ts"

fun timer_step :: "timer_event \<Rightarrow> condition_timer \<Rightarrow> condition_timer \<times> ns list" where
  "timer_step (ConditionChange c ts) t = (timer_onConditionChanged c ts t, [])"
| "timer_step (BucketStart ts) t = (let (t', d) = newBucketStart ts t in (t', [d]))"

fun timer_run :: "timer_event list \<Rightarrow> condition_timer \<Rightarrow> condition_timer \<times> ns list" where
  "timer_run [] t = (t, [])"
| "timer_run (e # es) t =
     (let (t1, ds) = timer_step e t; (t2, ds') = timer_run es t1 in (t2, ds @ ds'))"

text \<open>What the durations should be: true time per bucket, measured over the intervals between events.\<close>

fun bucket_times :: "timer_event list \<Rightarrow> bool \<Rightarrow> ns \<Rightarrow> ns \<Rightarrow> ns list" where
  "bucket_times [] c now acc = []"
| "bucket_times (ConditionChange c' ts # es) c now acc =
     bucket_times es c' ts (acc + (if c then ts - now else 0))"
| "bucket_times (BucketStart ts # es) c now acc =
     (acc + (if c then ts - now else 0)) # bucket_times es c ts 0"

lemma timer_run_bucket_times:
  "snd (timer_run es t) = bucket_times es (timerCondition t) now (true_so_far t now)"
proof (induction es arbitrary: t now)
  case (Cons e es)
  show ?case
  proof (cases e)
    case (ConditionChange c ts)
    let ?t = "timer_onConditionChanged c ts t"
    have "timerCondition ?t = c" and "true_so_far ?t ts = true_so_far t now + (if timerCondition t then ts - now else 0)"
      by (auto simp: timer_onConditionChanged_def true_so_far_def)
    with Cons.IH[of ?t ts] show ?thesis by (simp add: ConditionChange split: prod.splits)
  next
    case (BucketStart ts)
    obtain t' d where nb: "newBucketStart ts t = (t', d)" by fastforce
    then have "timerCondition t' = timerCondition t" and "true_so_far t' ts = 0"
      and "d = true_so_far t now + (if timerCondition t then ts - now else 0)"
      by (auto simp: newBucketStart_def true_so_far_def Let_def split: if_splits)
    with Cons.IH[of t' ts] show ?thesis by (auto simp: BucketStart nb split: prod.splits)
  qed
qed simp

section \<open>Facts about simple trackers\<close>

text \<open>The counter of a key: \<open>None\<close> while nothing is known of it.\<close>

definition abs_count :: "simple_tracker \<Rightarrow> dim_key \<Rightarrow> int option" where
  "abs_count t k = (case map_of (mSlicedConditionState t) k of
      Some n \<Rightarrow> Some n | None \<Rightarrow> if mInitialValue t = kFalse then Some 0 else None)"

definition count_step :: "bool \<Rightarrow> bool \<Rightarrow> int option \<Rightarrow> int option" where
  "count_step nesting matchStart c =
     (if matchStart then Some (case c of None \<Rightarrow> 1 | Some n \<Rightarrow> n + 1)
      else case c of None \<Rightarrow> Some 0 | Some n \<Rightarrow> Some (if nesting \<and> n > 0 then n - 1 else 0))"

definition count_state :: "int option \<Rightarrow> condition_state" where
  "count_state c = (case c of None \<Rightarrow> kUnknown | Some n \<Rightarrow> if n > 0 then kTrue else kFalse)"

definition simple_ok :: "simple_tracker \<Rightarrow> bool" where
  "simple_ok t \<longleftrightarrow> umap_ok (mSlicedConditionState t) \<and> (\<forall>k n. map_of (mSlicedConditionState t) k = Some n \<longrightarrow> 0 \<le> n) \<and>
     (mInitialValue t = kFalse \<or> mInitialValue t = kUnknown) \<and>
     (scSliced t \<longrightarrow> length (mSlicedConditionState t) \<le> kDimensionKeySizeHardLimit)"

lemma handleConditionEvent_frame [frame_simps]:
  "mInitialValue (fst (handleConditionEvent k st t)) = mInitialValue t"
  "scSliced (fst (handleConditionEvent k st t)) = scSliced t"
  "mCountNesting (fst (handleConditionEvent k st t)) = mCountNesting t"
  by (simp_all add: handleConditionEvent_def Let_def split: option.splits)

lemma handleConditionEvent_map:
  assumes "simple_ok t"
  shows "\<exists>v \<ge> 0. mSlicedConditionState (fst (handleConditionEvent k st t)) \<in>
    {mSlicedConditionState t, AList.update k v (mSlicedConditionState t),
     AList.delete k (AList.update k v (mSlicedConditionState t))}"
proof (cases "map_of (mSlicedConditionState t) k")
  case None
  then show ?thesis by (cases st) (auto simp: handleConditionEvent_def Let_def intro: exI[of _ 1] exI[of _ 0])
next
  case (Some n)
  then have "0 \<le> n" using assms by (simp add: simple_ok_def)
  define v where "v = (if st then n + 1 else if n > 0 then (if mCountNesting t then n - 1 else 0) else n)"
  have "0 \<le> v" using \<open>0 \<le> n\<close> by (simp add: v_def)
  moreover have "mSlicedConditionState (fst (handleConditionEvent k st t)) \<in>
      {mSlicedConditionState t, AList.update k v (mSlicedConditionState t),
       AList.delete k (AList.update k v (mSlicedConditionState t))}"
    using Some by (cases st) (simp_all add: handleConditionEvent_def Let_def v_def)
  ultimately show ?thesis by blast
qed

lemma handleConditionEvent_ok:
  assumes "simple_ok t"
  shows "simple_ok (fst (handleConditionEvent k st t))"
proof (cases "condition_hitGuardRail k t")
  case True
  then show ?thesis using assms by (simp add: handleConditionEvent_def)
next
  case False
  let ?m = "mSlicedConditionState t" and ?m' = "mSlicedConditionState (fst (handleConditionEvent k st t))"
  obtain v where v: "0 \<le> v" "?m' \<in> {?m, AList.update k v ?m, AList.delete k (AList.update k v ?m)}"
    using handleConditionEvent_map[OF assms] by blast
  have grow: "length (AList.update k v ?m) \<le> kDimensionKeySizeHardLimit" if "scSliced t"
    using that False assms guardrail_update_bound by (auto simp: condition_hitGuardRail_def simple_ok_def)
  have "length ?m' \<le> kDimensionKeySizeHardLimit" if "scSliced t"
    using v(2) grow[OF that] le_trans[OF length_delete_le] assms that by (auto simp: simple_ok_def)
  moreover have "umap_ok ?m'" using v assms by (auto simp: simple_ok_def)
  moreover have "0 \<le> n" if "map_of ?m' j = Some n" for j n
    using that v assms by (auto simp: simple_ok_def split: if_splits)
  ultimately show ?thesis using assms by (simp add: simple_ok_def frame_simps)
qed

text \<open>One event: the key's counter steps, every other counter stays, the condition reported is the
  key's new state, and change is reported exactly when the key's state changed.\<close>

lemma handleConditionEvent_refines:
  assumes "simple_ok t" and "\<not> condition_hitGuardRail k t" and "handleConditionEvent k st t = (t', c, changed)"
  shows "abs_count t' j = (if j = k then count_step (mCountNesting t) st (abs_count t k) else abs_count t j)"
    and "c = count_state (abs_count t' k)"
    and "changed = (count_state (abs_count t' k) \<noteq> count_state (abs_count t k))"
proof -
  have nn: "\<And>n. map_of (mSlicedConditionState t) k = Some n \<Longrightarrow> 0 \<le> n"
    and init: "mInitialValue t = kFalse \<or> mInitialValue t = kUnknown" using assms(1) by (auto simp: simple_ok_def)
  have t': "t' = fst (handleConditionEvent k st t)" "c = fst (snd (handleConditionEvent k st t))"
    "changed = snd (snd (handleConditionEvent k st t))" using assms(3) by simp_all
  note defs = t' handleConditionEvent_def abs_count_def count_step_def Let_def
  have "(abs_count t' j = (if j = k then count_step (mCountNesting t) st (abs_count t k) else abs_count t j)) \<and>
      c = count_state (abs_count t' k) \<and> changed = (count_state (abs_count t' k) \<noteq> count_state (abs_count t k))" for j
  proof (cases "map_of (mSlicedConditionState t) k")
    case None
    then show ?thesis using assms(2) init by (cases st) (auto simp: defs count_state_def)
  next
    case (Some n)
    then show ?thesis using assms(2) init nn[OF Some] by (cases st) (auto simp: defs count_state_def)
  qed
  then show "abs_count t' j = (if j = k then count_step (mCountNesting t) st (abs_count t k) else abs_count t j)"
    and "c = count_state (abs_count t' k)"
    and "changed = (count_state (abs_count t' k) \<noteq> count_state (abs_count t k))" by blast+
qed

lemma handleStopAll_refines:
  "handleStopAll t = (t', c, changed) \<Longrightarrow> abs_count t' k = Some 0 \<and> c = kFalse \<and> mInitialValue t' = kFalse"
  by (auto simp: handleStopAll_def abs_count_def)


lemma handleStopAll_ok: "simple_ok t \<Longrightarrow> simple_ok (fst (handleStopAll t))"
  by (simp add: handleStopAll_def simple_ok_def)

lemma clear_changed_simps [simp]:
  "abs_count (t\<lparr>mLastChangedToTrueDimensions := a, mLastChangedToFalseDimensions := b\<rparr>) = abs_count t"
  "simple_ok (t\<lparr>mLastChangedToTrueDimensions := a, mLastChangedToFalseDimensions := b\<rparr>) = simple_ok t"
  "condition_hitGuardRail k (t\<lparr>mLastChangedToTrueDimensions := a, mLastChangedToFalseDimensions := b\<rparr>) =
   condition_hitGuardRail k t"
  by (simp_all add: abs_count_def simple_ok_def condition_hitGuardRail_def fun_eq_iff)

text \<open>How the matchers of a predicate read one event: stop-all wins over stop, stop over start.\<close>

datatype predicate_event = StopAll | Stop | Start | NoMatch

definition predicate_event_of :: "bool list \<Rightarrow> simple_tracker \<Rightarrow> predicate_event" where
  "predicate_event_of matched t =
     (if 0 \<le> mStopAllLogMatcherIndex t \<and> mStopAllLogMatcherIndex t < int (length matched) \<and>
         matched ! nat (mStopAllLogMatcherIndex t) then StopAll
      else if 0 \<le> mStopLogMatcherIndex t \<and> matched ! nat (mStopLogMatcherIndex t) then Stop
      else if 0 \<le> mStartLogMatcherIndex t \<and> matched ! nat (mStartLogMatcherIndex t) then Start
      else NoMatch)"

definition event_key :: "field_value list \<Rightarrow> simple_tracker \<Rightarrow> dim_key" where
  "event_key values t =
     (if mOutputDimensions t = [] then DEFAULT_DIMENSION_KEY
      else key_of (fst (filterValues (mOutputDimensions t) values [])))"

lemma evaluateCondition_cases:
  assumes "\<not> mContainANYPosition t \<or> mOutputDimensions t = []"
  shows "simple_evaluateCondition values matched t =
    (let t0 = t\<lparr>mLastChangedToTrueDimensions := [], mLastChangedToFalseDimensions := []\<rparr>
     in case predicate_event_of matched t of
          StopAll \<Rightarrow> handleStopAll t0
        | Stop \<Rightarrow> handleConditionEvent (event_key values t) False t0
        | Start \<Rightarrow> handleConditionEvent (event_key values t) True t0
        | NoMatch \<Rightarrow> (t0, currentCondition t0, False))"
  using assms by (auto simp: simple_evaluateCondition_def predicate_event_of_def event_key_def Let_def)

lemma partial_link_fold:
  "foldl (\<lambda>s (k, n). if P k then state_or s (if n > 0 then kTrue else kFalse) else s) s m =
   (if s = kTrue \<or> list_ex (\<lambda>(k, n :: int). P k \<and> n > 0) m then kTrue
    else if list_ex (\<lambda>(k, n). P k) m then state_or s kFalse else s)"
proof (induction m arbitrary: s)
  case (Cons kn m)
  obtain k n where kn: "kn = (k, n)" by fastforce
  show ?case
    by (cases s) (auto simp: kn Cons.IH state_or_def)
qed simp

section \<open>Properties\<close>

text \<open>
  Fact. Combination conditions are three-valued logic: once every child is evaluated, the
  result is unknown when some child is unknown, and otherwise the Boolean operation on the
  children, with the empty NOT unknown.
\<close>

theorem combination_three_valued:
  assumes "list_all (\<lambda>c. cache ! nat c \<noteq> kNotEvaluated) children"
  shows "evaluateCombinationCondition children op cache =
    (if list_ex (\<lambda>c. cache ! nat c = kUnknown) children \<or> (op = op_NOT \<and> children = []) then kUnknown
     else if bool_op op (map (\<lambda>c. cache ! nat c = kTrue) children) then kTrue else kFalse)"
proof (cases "list_ex (\<lambda>c. cache ! nat c = kUnknown) children")
  case True
  then show ?thesis using evaluate_unknown[OF assms True] by simp
next
  case False
  have "known s" if "s \<noteq> kNotEvaluated" "s \<noteq> kUnknown" for s using that by (cases s) (auto simp: known_def)
  then have "list_all (\<lambda>c. known (cache ! nat c)) children"
    using assms False by (auto simp: list_all_iff list_ex_iff)
  with False evaluate_known[OF this] show ?thesis
    by (cases "op = op_NOT \<and> children = []") (auto simp: evaluateCombinationCondition_def)
qed

theorem combination_three_valued_witness:
  "evaluateCombinationCondition [0, 1] op_NAND [kTrue, kFalse] = kTrue"
  using combination_three_valued[of "[kTrue, kFalse]" "[0, 1]" op_NAND] by simp

text \<open>
  Fact. The condition stopwatch is exact: over any sequence of condition changes and bucket
  starts, the durations it reports are, bucket by bucket, the total time between consecutive
  events during which the condition was true.
\<close>

theorem condition_timer_exact:
  "snd (timer_run es (newConditionTimer c start)) = bucket_times es c start 0"
  using timer_run_bucket_times[of es "newConditionTimer c start" start]
  by (simp add: newConditionTimer_def true_so_far_def)


definition example_tracker :: simple_tracker where
  "example_tracker = newSimpleConditionTracker 1 0
     \<lparr>sp_start = Some 10, sp_stop = Some 11, sp_stop_all = None, sp_count_nesting = True,
      sp_initial_value = INITIAL_UNKNOWN, sp_dimensions = None\<rparr> [(10, 0), (11, 1)] (0, 0, 0)"

lemma example_tracker_eq:
  "example_tracker = \<lparr>scConditionId = 1, scIndex = 0, scInitialized = True, scTrackerIndex = [1, 0],
     scSliced = False, mStartLogMatcherIndex = 0, mStopLogMatcherIndex = 1, mStopAllLogMatcherIndex = -1,
     mCountNesting = True, mInitialValue = kUnknown, mOutputDimensions = [], mContainANYPosition = False,
     mLastChangedToTrueDimensions = [], mLastChangedToFalseDimensions = [], mSlicedConditionState = []\<rparr>"
  by (simp add: example_tracker_def newSimpleConditionTracker_def setMatcherIndices_def)


text \<open>
  Fact. Querying a condition: with the full key of the link the answer is that key's state;
  with a partial link it is true exactly when some key that contains the link's values is true.
\<close>

theorem isConditionMet_reads_counters:
  assumes "simple_ok t" and "map_of params (scConditionId t) = Some key"
  shows "simple_isConditionMet params False t = count_state (abs_count t key) \<and>
    (simple_isConditionMet params True t = kTrue \<longleftrightarrow>
       (\<exists>(k, n) \<in> set (mSlicedConditionState t). dim_contains k key \<and> n > 0))"
proof -
  have init: "mInitialValue t = kFalse \<or> mInitialValue t = kUnknown" using assms(1) by (simp add: simple_ok_def)
  have "simple_isConditionMet params False t = count_state (abs_count t key)"
    using init assms(2)
    by (auto simp: simple_isConditionMet_def abs_count_def count_state_def state_or_def Let_def split: option.splits)
  moreover have "simple_isConditionMet params True t = kTrue \<longleftrightarrow>
      list_ex (\<lambda>(k, n). dim_contains k key \<and> n > 0) (mSlicedConditionState t)"
    using init assms(2)
    by (auto simp: simple_isConditionMet_def partial_link_fold[of "\<lambda>k. dim_contains k key"] state_or_def split: if_splits)
  ultimately show ?thesis by (auto simp: list_ex_iff)
qed

theorem isConditionMet_reads_counters_witness:
  "simple_isConditionMet [(1, [])] False example_tracker = kUnknown"
  using isConditionMet_reads_counters[of example_tracker "[(1, [])]" "[]"]
  by (simp add: simple_ok_def abs_count_def count_state_def example_tracker_eq)

end
