(* ===== verification/FieldMatching.thy ===== *)
theory FieldMatching
  imports ConditionLogic
begin

text \<open>
  \<^verbatim>\<open>bin/src/matchers/matcher_util.cpp\<close>: whether the field values of an event satisfy the field value
  matchers of a simple atom matcher. The values of an event come in depth-first order; the code
  narrows an index range level by level and relies on that order to stop early.

  The uid map is another component: \<open>uid_env\<close> holds the two lookups used here, the static table of
  system ids and the package names of a uid.
\<close>

section \<open>Definitions\<close>

datatype field_value_matcher =
    FieldValueMatcher (fvm_field: i32) (fvm_position: "position option") (fvm_value: value_matcher)
and value_matcher =
    VALUE_MATCHER_NOT_SET
  | kEqBool bool
  | kEqString string
  | kEqInt i64
  | kLtInt i64
  | kGtInt i64
  | kLtFloat u32
  | kGtFloat u32
  | kLteInt i64
  | kGteInt i64
  | kMatchesTuple "field_value_matcher list"
  | kEqAnyString "string list"
  | kNeqAnyString "string list"

record uid_env =
  sAidToUidMapping :: "(string, int) umap"
  getAppNamesFromUid :: "int \<Rightarrow> string list"

definition tryMatchString :: "uid_env \<Rightarrow> field_value \<Rightarrow> string \<Rightarrow> bool" where
  "tryMatchString env fv str_match =
     (if isAttributionUidField fv \<or> isUidField fv
      then let uid = sint (int_value (fvValue fv))
           in case map_of (sAidToUidMapping env) str_match of
                Some aid \<Rightarrow> aid = uid
              | None \<Rightarrow> str_match \<in> set (getAppNamesFromUid env uid)
      else case fvValue fv of STRING s \<Rightarrow> s = str_match | _ \<Rightarrow> False)"

text \<open>The test a leaf matcher makes on one value. \<^verbatim>\<open>eq_int\<close> and its relatives cover both integer types.\<close>

definition on_integer :: "(int \<Rightarrow> bool) \<Rightarrow> log_value \<Rightarrow> bool" where
  "on_integer P v = (case v of INT_v i \<Rightarrow> P (sint i) | LONG l \<Rightarrow> P (sint l) | _ \<Rightarrow> False)"

fun valueTest :: "uid_env \<Rightarrow> value_matcher \<Rightarrow> field_value \<Rightarrow> bool" where
  "valueTest env (kEqBool b) fv = on_integer (\<lambda>i. (i \<noteq> 0) = b) (fvValue fv)"
| "valueTest env (kEqString s) fv = tryMatchString env fv s"
| "valueTest env (kNeqAnyString ss) fv = (\<not> list_ex (tryMatchString env fv) ss)"
| "valueTest env (kEqAnyString ss) fv = list_ex (tryMatchString env fv) ss"
| "valueTest env (kEqInt n) fv = on_integer (\<lambda>i. sint n = i) (fvValue fv)"
| "valueTest env (kLtInt n) fv = on_integer (\<lambda>i. i < sint n) (fvValue fv)"
| "valueTest env (kGtInt n) fv = on_integer (\<lambda>i. i > sint n) (fvValue fv)"
| "valueTest env (kLteInt n) fv = on_integer (\<lambda>i. i \<le> sint n) (fvValue fv)"
| "valueTest env (kGteInt n) fv = on_integer (\<lambda>i. i \<ge> sint n) (fvValue fv)"
| "valueTest env (kLtFloat x) fv = (case fvValue fv of FLOAT y \<Rightarrow> f32 fp_less (unat y) (unat x) | _ \<Rightarrow> False)"
| "valueTest env (kGtFloat x) fv = (case fvValue fv of FLOAT y \<Rightarrow> f32 fp_less (unat x) (unat y) | _ \<Rightarrow> False)"
| "valueTest env (kMatchesTuple ms) fv = False"
| "valueTest env VALUE_MATCHER_NOT_SET fv = False"

text \<open>Narrowing to the entries of one field, with the early exit on a larger position.\<close>

fun zoomLoop :: "field_value list \<Rightarrow> nat \<Rightarrow> i32 \<Rightarrow> nat list \<Rightarrow> nat option \<times> nat \<Rightarrow> nat option \<times> nat" where
  "zoomLoop vs depth f [] acc = acc"
| "zoomLoop vs depth f (i # is) (newStart, newEnd) =
     (let pos = getPosAtDepth (fvField (vs ! i)) depth
      in if pos = f then zoomLoop vs depth f is (if newStart = None then Some i else newStart, i + 1)
         else if sint pos > sint f then (newStart, newEnd)
         else zoomLoop vs depth f is (newStart, newEnd))"

definition firstRangeEnd :: "field_value list \<Rightarrow> nat \<Rightarrow> nat \<Rightarrow> nat \<Rightarrow> nat" where
  "firstRangeEnd vs depth start stop =
     (case List.find (\<lambda>i. getPosAtDepth (fvField (vs ! i)) depth \<noteq> 1) [start..<stop] of
        Some i \<Rightarrow> i | None \<Rightarrow> stop)"

definition lastRangeStart :: "field_value list \<Rightarrow> nat \<Rightarrow> nat \<Rightarrow> nat \<Rightarrow> nat" where
  "lastRangeStart vs depth start stop =
     (case List.find (\<lambda>i. isLastPos (fvField (vs ! i)) depth) [start..<stop] of
        Some i \<Rightarrow> i | None \<Rightarrow> start)"

fun anyRanges :: "field_value list \<Rightarrow> nat \<Rightarrow> nat list \<Rightarrow> nat \<Rightarrow> i32 \<Rightarrow> nat \<Rightarrow> (nat \<times> nat) list" where
  "anyRanges vs depth [] newStart currentPos stop = [(newStart, stop)]"
| "anyRanges vs depth (i # is) newStart currentPos stop =
     (let newPos = getPosAtDepth (fvField (vs ! i)) depth
      in if newPos \<noteq> currentPos then (newStart, i) # anyRanges vs depth is i newPos stop
         else anyRanges vs depth is newStart currentPos stop)"

text \<open>The position part: the new depth, the range \<open>[start, end)\<close> and the ranges for tuples. \<open>None\<close> is
  the early return on too deep a path.\<close>

definition positionRanges ::
  "field_value list \<Rightarrow> position option \<Rightarrow> nat \<Rightarrow> nat \<Rightarrow> nat \<Rightarrow> (nat \<times> nat \<times> nat \<times> (nat \<times> nat) list) option" where
  "positionRanges vs p depth start stop =
     (case p of
        None \<Rightarrow> Some (depth, start, stop, [(start, stop)])
      | Some q \<Rightarrow>
          let depth' = depth + 1
          in if depth' > 2 then None
             else (case q of
                FIRST \<Rightarrow> (let e = firstRangeEnd vs depth' start stop in Some (depth', start, e, [(start, e)]))
              | LAST \<Rightarrow> (let s = lastRangeStart vs depth' start stop in Some (depth', s, stop, [(s, stop)]))
              | ANY \<Rightarrow> Some (depth', start, stop,
                          anyRanges vs depth' [start..<stop] start (getPosAtDepth (fvField (vs ! start)) depth') stop)
              | ALL_pos \<Rightarrow> Some (depth', start, stop, [])
              | POSITION_UNKNOWN \<Rightarrow> Some (depth', start, stop, [])))"

fun matchesSimple :: "uid_env \<Rightarrow> field_value_matcher \<Rightarrow> field_value list \<Rightarrow> nat \<Rightarrow> nat \<Rightarrow> nat \<Rightarrow> bool" where
  "matchesSimple env (FieldValueMatcher f p vm) vs start stop depth =
     (if depth > 2 then False
      else if start \<ge> stop then False
      else case zoomLoop vs depth f [start..<stop] (None, stop) of
        (None, _) \<Rightarrow> False
      | (Some s, e) \<Rightarrow>
          (case positionRanges vs p depth s e of
             None \<Rightarrow> False
           | Some (depth', s', e', ranges) \<Rightarrow>
               (case vm of
                  kMatchesTuple ms \<Rightarrow>
                    list_ex (\<lambda>(a, b). list_all (\<lambda>m. matchesSimple env m vs a b (depth' + 1)) ms) ranges
                | _ \<Rightarrow> list_ex (\<lambda>i. valueTest env vm (vs ! i)) [s'..<e'])))"

declare matchesSimple.simps [simp del]

record simple_atom_matcher =
  atom_id :: "i32 option"
  field_value_matchers :: "field_value_matcher list"

record log_event =
  tagId :: i32
  event_values :: "field_value list"

text \<open>A missing \<^verbatim>\<open>atom_id\<close> reads as the proto default 0.\<close>

definition matchesSimpleAtom :: "uid_env \<Rightarrow> simple_atom_matcher \<Rightarrow> log_event \<Rightarrow> bool" where
  "matchesSimpleAtom env m ev =
     (if tagId ev \<noteq> (case atom_id m of Some i \<Rightarrow> i | None \<Rightarrow> 0) then False
      else list_all (\<lambda>fm. matchesSimple env fm (event_values ev) 0 (length (event_values ev)) 0)
             (field_value_matchers m))"

section \<open>Facts\<close>

abbreviation posAt :: "field_value list \<Rightarrow> nat \<Rightarrow> nat \<Rightarrow> i32" where
  "posAt vs depth i \<equiv> getPosAtDepth (fvField (vs ! i)) depth"

text \<open>On a range sorted by position the narrowed range holds exactly the entries of the field.\<close>

lemma zoomLoop_sorted:
  assumes "sorted (map (\<lambda>i. sint (posAt vs d i)) [s..<e])" and "s \<le> e"
    and "ns = None \<or> (\<exists>a. ns = Some a \<and> ne = s \<and> (\<forall>i \<in> {s..<e}. sint f \<le> sint (posAt vs d i)))"
    and "zoomLoop vs d f [s..<e] (ns, ne) = (ns', ne')"
  shows "(ns' = None \<longrightarrow> ns = None \<and> (\<forall>i \<in> {s..<e}. posAt vs d i \<noteq> f)) \<and>
    (\<forall>b. ns' = Some b \<longrightarrow>
       (case ns of
          Some a \<Rightarrow> b = a \<and> s \<le> ne' \<and> ne' \<le> e \<and> (\<forall>i \<in> {s..<e}. posAt vs d i = f \<longleftrightarrow> i < ne')
        | None \<Rightarrow> s \<le> b \<and> b < ne' \<and> ne' \<le> e \<and> (\<forall>i \<in> {s..<e}. posAt vs d i = f \<longleftrightarrow> b \<le> i \<and> i < ne')))"
  using assms
proof (induction "e - s" arbitrary: s ns ne)
  case 0
  then have "[s..<e] = []" "{s..<e} = {}" by auto
  then show ?case using 0 by (auto split: option.splits)
next
  case (Suc n)
  then have se: "[s..<e] = s # [Suc s..<e]" "{s..<e} = insert s {Suc s..<e}" "n = e - Suc s" "Suc s \<le> e"
    by (auto simp: upt_conv_Cons)
  let ?p = "posAt vs d s"
  have srt: "sorted (map (\<lambda>i. sint (posAt vs d i)) [Suc s..<e])"
    and above: "\<And>i. i \<in> {Suc s..<e} \<Longrightarrow> sint ?p \<le> sint (posAt vs d i)"
    using Suc.prems(1) by (auto simp: se)
  consider (hit) "?p = f" | (past) "?p \<noteq> f" "sint ?p > sint f" | (before) "?p \<noteq> f" "sint ?p < sint f"
    using signed_word_eqI[of ?p f] by (metis linorder_neqE)
  then show ?case
  proof cases
    case hit
    let ?ns = "if ns = None then Some s else ns"
    have z: "zoomLoop vs d f [Suc s..<e] (?ns, Suc s) = (ns', ne')"
      using Suc.prems(4) hit by (simp add: se Let_def)
    have "\<exists>a. ?ns = Some a \<and> Suc s = Suc s \<and> (\<forall>i \<in> {Suc s..<e}. sint f \<le> sint (posAt vs d i))"
      using above hit by auto
    from Suc.hyps(1)[OF se(3) srt se(4) disjI2[OF this] z] show ?thesis
      using hit Suc.prems(3) by (auto simp: se split: option.splits if_splits)
  next
    case past
    then have "ns' = ns" "ne' = ne" using Suc.prems(4) by (auto simp: se Let_def)
    moreover have "posAt vs d i \<noteq> f" if "i \<in> {s..<e}" for i
      using that past above[of i] by (auto simp: se)
    ultimately show ?thesis using Suc.prems(2,3) by (auto split: option.splits)
  next
    case before
    then have none: "ns = None" using Suc.prems(3) by (auto simp: se)
    have "zoomLoop vs d f [Suc s..<e] (None, ne) = (ns', ne')"
      using Suc.prems(4) before none by (simp add: se Let_def)
    from Suc.hyps(1)[OF se(3) srt se(4) _ this] show ?thesis using before none by (auto simp: se)
  qed
qed

lemma zoom_exact:
  assumes "sorted (map (\<lambda>i. sint (posAt vs d i)) [s..<e])" and "s \<le> e" and "zoomLoop vs d f [s..<e] (None, e) = (ns, ne)"
  shows "(ns = None \<and> (\<forall>i \<in> {s..<e}. posAt vs d i \<noteq> f)) \<or>
    (\<exists>b. ns = Some b \<and> s \<le> b \<and> b < ne \<and> ne \<le> e \<and> (\<forall>i \<in> {s..<e}. posAt vs d i = f \<longleftrightarrow> b \<le> i \<and> i < ne))"
  using zoomLoop_sorted[OF assms(1,2) _ assms(3)] by (cases ns) auto

lemma zoom_range:
  assumes "sorted (map (\<lambda>i. sint (posAt vs d i)) [s..<e])" and "s \<le> e" and "zoomLoop vs d f [s..<e] (None, e) = (ns, ne)"
  shows "{i \<in> {s..<e}. posAt vs d i = f} = (case ns of None \<Rightarrow> {} | Some b \<Rightarrow> {b..<ne})"
    and "ns = Some b \<Longrightarrow> s \<le> b \<and> b < ne \<and> ne \<le> e"
proof -
  show "{i \<in> {s..<e}. posAt vs d i = f} = (case ns of None \<Rightarrow> {} | Some b \<Rightarrow> {b..<ne})"
  proof (cases ns)
    case None
    then show ?thesis using zoom_exact[OF assms] by auto
  next
    case (Some b)
    with zoom_exact[OF assms] have "s \<le> b" "ne \<le> e" "\<And>i. s \<le> i \<Longrightarrow> i < e \<Longrightarrow> posAt vs d i = f \<longleftrightarrow> b \<le> i \<and> i < ne"
      by auto
    then show ?thesis using Some by fastforce
  qed
  show "ns = Some b \<Longrightarrow> s \<le> b \<and> b < ne \<and> ne \<le> e" using zoom_exact[OF assms] by auto
qed

lemma value_matcher_case:
  "(\<And>ms. vm \<noteq> kMatchesTuple ms) \<Longrightarrow> (case vm of kMatchesTuple ms \<Rightarrow> A ms | _ \<Rightarrow> B) = B"
  by (cases vm) auto

text \<open>A leaf matcher with no position, on any sorted range: some entry of the field passes the test.\<close>

lemma leaf_range:
  assumes "sorted (map (\<lambda>i. sint (posAt vs d i)) [s..<e])" and "d \<le> 2" and "\<And>ms. vm \<noteq> kMatchesTuple ms"
  shows "matchesSimple env (FieldValueMatcher f None vm) vs s e d \<longleftrightarrow>
    (\<exists>i \<in> {s..<e}. posAt vs d i = f \<and> valueTest env vm (vs ! i))"
proof -
  obtain ns ne where z: "zoomLoop vs d f [s..<e] (None, e) = (ns, ne)" by fastforce
  have m: "matchesSimple env (FieldValueMatcher f None vm) vs s e d \<longleftrightarrow>
      s < e \<and> (case ns of None \<Rightarrow> False | Some b \<Rightarrow> \<exists>i \<in> {b..<ne}. valueTest env vm (vs ! i))"
    using assms(2,3) z by (simp add: matchesSimple.simps positionRanges_def value_matcher_case list_ex_iff split: option.splits)
  show ?thesis
  proof (cases "s < e")
    case True
    then have "s \<le> e" by simp
    have "(\<exists>i \<in> {s..<e}. posAt vs d i = f \<and> valueTest env vm (vs ! i)) =
        (\<exists>i \<in> {i \<in> {s..<e}. posAt vs d i = f}. valueTest env vm (vs ! i))" by blast
    with True show ?thesis unfolding zoom_range(1)[OF assms(1) \<open>s \<le> e\<close> z] by (cases ns) (simp_all add: m)
  next
    case False
    then show ?thesis by (simp add: m)
  qed
qed


subsection \<open>Repeated fields\<close>

lemma anyRanges_runs:
  assumes "ns \<le> i" "i \<le> e" "\<And>k. ns \<le> k \<Longrightarrow> k < i \<Longrightarrow> posAt vs d k = cp" "ns = i \<Longrightarrow> i < e \<Longrightarrow> posAt vs d i = cp"
  shows "(\<Union>(a, c) \<in> set (anyRanges vs d [i..<e] ns cp e). {a..<c}) = {ns..<e} \<and>
    (\<forall>(a, c) \<in> set (anyRanges vs d [i..<e] ns cp e). ns \<le> a \<and> c \<le> e \<and> (\<exists>p. \<forall>k \<in> {a..<c}. posAt vs d k = p))"
  using assms
proof (induction "e - i" arbitrary: i ns cp)
  case 0
  then show ?case by (auto intro: exI[of _ cp])
next
  case (Suc n)
  then have up: "[i..<e] = i # [Suc i..<e]" "n = e - Suc i" "Suc i \<le> e" by (auto simp: upt_conv_Cons)
  show ?case
  proof (cases "posAt vs d i = cp")
    case True
    have "\<And>k. ns \<le> k \<Longrightarrow> k < Suc i \<Longrightarrow> posAt vs d k = cp" using Suc.prems(3) True less_Suc_eq by blast
    with Suc.hyps(1)[OF up(2) _ up(3) this] Suc.prems(1) True show ?thesis by (simp add: up)
  next
    case False
    then have "ns < i" using Suc.prems(1,4) up by (cases "ns = i") auto
    have "\<And>k. i \<le> k \<Longrightarrow> k < Suc i \<Longrightarrow> posAt vs d k = posAt vs d i" by (simp add: le_less_Suc_eq)
    note IH = Suc.hyps(1)[OF up(2) _ up(3) this]
    have r: "anyRanges vs d [i..<e] ns cp e = (ns, i) # anyRanges vs d [Suc i..<e] i (posAt vs d i) e"
      using False by (simp add: up Let_def)
    have "{ns..<e} = {ns..<i} \<union> {i..<e}" using \<open>ns < i\<close> up by auto
    moreover have "(\<Union>(a, c) \<in> set (anyRanges vs d [Suc i..<e] i (posAt vs d i) e). {a..<c}) = {i..<e}"
      and sub: "\<forall>(a, c) \<in> set (anyRanges vs d [Suc i..<e] i (posAt vs d i) e). i \<le> a \<and> c \<le> e \<and>
        (\<exists>p. \<forall>k \<in> {a..<c}. posAt vs d k = p)" using IH by auto
    moreover have "\<exists>p. \<forall>k \<in> {ns..<i}. posAt vs d k = p" using Suc.prems(3) by (auto intro: exI[of _ cp])
    ultimately show ?thesis
      unfolding r using \<open>ns < i\<close> up(3) by (simp add: case_prod_unfold) (meson le_trans less_imp_le)
  qed
qed

lemma first_range:
  assumes "b \<le> ne" "\<And>i j. b \<le> i \<Longrightarrow> i \<le> j \<Longrightarrow> j < ne \<Longrightarrow> sint (posAt vs d i) \<le> sint (posAt vs d j)"
    and "\<And>i. b \<le> i \<Longrightarrow> i < ne \<Longrightarrow> 1 \<le> sint (posAt vs d i)"
  shows "{b..<firstRangeEnd vs d b ne} = {i \<in> {b..<ne}. posAt vs d i = 1}"
proof (cases "List.find (\<lambda>i. posAt vs d i \<noteq> 1) [b..<ne]")
  case None
  then have "firstRangeEnd vs d b ne = ne" by (simp add: firstRangeEnd_def)
  then show ?thesis using None by (auto simp: find_None_iff)
next
  case (Some m)
  then obtain k where k: "k < ne - b" "m = b + k" "posAt vs d m \<noteq> 1" "\<And>j. j < k \<Longrightarrow> posAt vs d (b + j) = 1"
    by (auto simp: find_Some_iff)
  have "sint (posAt vs d m) \<noteq> 1" using k(3) signed_word_eqI[of "posAt vs d m" 1] by auto
  then have "posAt vs d i \<noteq> 1" if "m \<le> i" "i < ne" for i
    using assms(2)[of m i] assms(3)[of m] that k by auto
  moreover have "posAt vs d i = 1" if "b \<le> i" "i < m" for i using k(4)[of "i - b"] that k(2) by auto
  moreover have "m < ne" using k by simp
  ultimately show ?thesis using Some by (auto simp: firstRangeEnd_def) (metis not_le)
qed


lemma last_range:
  assumes "\<And>i j. b \<le> i \<Longrightarrow> i < ne \<Longrightarrow> isLastPos (fvField (vs ! i)) d \<Longrightarrow> i \<le> j \<Longrightarrow> j < ne \<Longrightarrow>
      isLastPos (fvField (vs ! j)) d"
    and "\<exists>i \<in> {b..<ne}. isLastPos (fvField (vs ! i)) d"
  shows "{lastRangeStart vs d b ne..<ne} = {i \<in> {b..<ne}. isLastPos (fvField (vs ! i)) d}"
proof -
  obtain m where m: "List.find (\<lambda>i. isLastPos (fvField (vs ! i)) d) [b..<ne] = Some m"
    using assms(2) by (cases "List.find (\<lambda>i. isLastPos (fvField (vs ! i)) d) [b..<ne]") (auto simp: find_None_iff)
  then obtain k where k: "k < ne - b" "m = b + k" "isLastPos (fvField (vs ! m)) d"
    "\<And>j. j < k \<Longrightarrow> \<not> isLastPos (fvField (vs ! (b + j))) d" by (auto simp: find_Some_iff)
  have "\<not> isLastPos (fvField (vs ! i)) d" if "b \<le> i" "i < m" for i using k(4)[of "i - b"] that k(2) by auto
  moreover have "lastRangeStart vs d b ne = m" by (simp add: lastRangeStart_def m)
  moreover have "b \<le> m" "m < ne" using k by auto
  ultimately show ?thesis using assms(1)[of m] k(3) by (auto simp: not_le) (metis not_le)
qed

text \<open>The values of an event in depth-first order: sorted by the three positions, the last-item mark on exactly the items with the largest position of their field.\<close>

definition pos_sint :: "nat \<Rightarrow> field_value \<Rightarrow> int" where
  "pos_sint d v = sint (getPosAtDepth (fvField v) d)"

definition dfs_values :: "field_value list \<Rightarrow> bool" where
  "dfs_values vs \<longleftrightarrow>
     sorted (map (\<lambda>v. (pos_sint 0 v, pos_sint 1 v, pos_sint 2 v)) vs) \<and>
     (\<forall>v \<in> set vs. \<forall>w \<in> set vs. pos_sint 0 v = pos_sint 0 w \<and> isLastPos (fvField v) 1 \<longrightarrow>
        pos_sint 1 w \<le> pos_sint 1 v \<and> (isLastPos (fvField w) 1 \<longleftrightarrow> pos_sint 1 w = pos_sint 1 v))"

lemma dfs_mono:
  assumes "dfs_values vs" "i \<le> j" "j < length vs"
  shows "(pos_sint 0 (vs ! i), pos_sint 1 (vs ! i), pos_sint 2 (vs ! i)) \<le>
    (pos_sint 0 (vs ! j), pos_sint 1 (vs ! j), pos_sint 2 (vs ! j))"
  using assms sorted_nth_mono[of "map (\<lambda>v. (pos_sint 0 v, pos_sint 1 v, pos_sint 2 v)) vs" i j]
  by (simp add: dfs_values_def)

lemma dfs_sorted_0: "dfs_values vs \<Longrightarrow> e \<le> length vs \<Longrightarrow> sorted (map (\<lambda>i. sint (posAt vs 0 i)) [s..<e])"
proof -
  assume a: "dfs_values vs" "e \<le> length vs"
  have "sint (posAt vs 0 (s + i)) \<le> sint (posAt vs 0 (s + j))" if "i \<le> j" "j < e - s" for i j
  proof -
    have "s + j < length vs" using that a(2) by linarith
    then show ?thesis using dfs_mono[OF a(1), of "s + i" "s + j"] that(1) by (auto simp: pos_sint_def)
  qed
  then show ?thesis by (auto simp: sorted_iff_nth_mono)
qed

lemma dfs_sorted_2:
  assumes "dfs_values vs" "e \<le> length vs" "\<And>i. s \<le> i \<Longrightarrow> i < e \<Longrightarrow> posAt vs 0 i = p \<and> posAt vs 1 i = r"
  shows "sorted (map (\<lambda>i. sint (posAt vs 2 i)) [s..<e])"
proof -
  have "sint (posAt vs 2 (s + i)) \<le> sint (posAt vs 2 (s + j))" if "i \<le> j" "j < e - s" for i j
    using dfs_mono[OF assms(1), of "s + i" "s + j"] that assms(2) assms(3)[of "s + i"] assms(3)[of "s + j"]
    by (auto simp: pos_sint_def)
  then show ?thesis by (auto simp: sorted_iff_nth_mono)
qed


text \<open>The repeated-field step: which entries the ranges of a position hold.\<close>

fun item_accepts :: "position \<Rightarrow> field_value \<Rightarrow> bool" where
  "item_accepts FIRST v = (getPosAtDepth (fvField v) 1 = 1)"
| "item_accepts LAST v = isLastPos (fvField v) 1"
| "item_accepts ANY v = True"
| "item_accepts _ v = False"

lemma position_ranges_items:
  assumes dfs: "dfs_values vs" and r: "b < ne" "ne \<le> length vs"
    and f: "\<And>i. b \<le> i \<Longrightarrow> i < ne \<Longrightarrow> posAt vs 0 i = f"
    and q: "q \<in> {FIRST, LAST, ANY}"
    and marked: "q = LAST \<Longrightarrow> \<exists>i \<in> {b..<ne}. isLastPos (fvField (vs ! i)) 1"
    and counted: "\<And>i. q = FIRST \<Longrightarrow> b \<le> i \<Longrightarrow> i < ne \<Longrightarrow> 1 \<le> pos_sint 1 (vs ! i)"
  obtains s' e' ranges where "positionRanges vs (Some q) 0 b ne = Some (1, s', e', ranges)"
    and "(\<Union>(a, c) \<in> set ranges. {a..<c}) = {i \<in> {b..<ne}. item_accepts q (vs ! i)}"
    and "\<And>a c. (a, c) \<in> set ranges \<Longrightarrow> b \<le> a \<and> c \<le> ne \<and> (\<exists>p. \<forall>k \<in> {a..<c}. posAt vs 1 k = p)"
proof -
  have sint1: "sint (1 :: i32) = 1" by simp
  have inj: "posAt vs 1 i = posAt vs 1 j \<longleftrightarrow> pos_sint 1 (vs ! i) = pos_sint 1 (vs ! j)" for i j
    by (simp add: pos_sint_def sint_inj_iff)
  have mem: "vs ! i \<in> set vs" if "i < ne" for i using that r by simp
  have p0: "pos_sint 0 (vs ! i) = sint f" if "b \<le> i" "i < ne" for i using f[OF that] by (simp add: pos_sint_def)
  have mono: "pos_sint 1 (vs ! i) \<le> pos_sint 1 (vs ! j)" if "b \<le> i" "i \<le> j" "j < ne" for i j
    using dfs_mono[OF dfs, of i j] that r p0[of i] p0[of j] by auto
  show thesis
  proof (cases q)
    case FIRST
    have "{b..<firstRangeEnd vs 1 b ne} = {i \<in> {b..<ne}. posAt vs 1 i = 1}"
      using r mono counted[OF FIRST] by (intro first_range) (auto simp: pos_sint_def)
    moreover have "firstRangeEnd vs 1 b ne \<le> ne"
      using find_Some_iff[of "\<lambda>i. posAt vs 1 i \<noteq> 1" "[b..<ne]"]
      by (auto simp: firstRangeEnd_def split: option.splits)
    ultimately show ?thesis
      using FIRST by (intro that[of b "firstRangeEnd vs 1 b ne" "[(b, firstRangeEnd vs 1 b ne)]"])
        (auto simp: positionRanges_def Let_def)
  next
    case LAST
    have last: "isLastPos (fvField (vs ! j)) 1 \<and> pos_sint 1 (vs ! j) = pos_sint 1 (vs ! i)"
      if "b \<le> i" "i < ne" "isLastPos (fvField (vs ! i)) 1" "i \<le> j" "j < ne" for i j
    proof -
      have "pos_sint 0 (vs ! i) = pos_sint 0 (vs ! j)" using p0 that by simp
      with dfs mem[of i] mem[of j] that have "pos_sint 1 (vs ! j) \<le> pos_sint 1 (vs ! i) \<and>
          (isLastPos (fvField (vs ! j)) 1 \<longleftrightarrow> pos_sint 1 (vs ! j) = pos_sint 1 (vs ! i))"
        unfolding dfs_values_def by blast
      with mono[of i j] that show ?thesis by auto
    qed
    have eq: "{lastRangeStart vs 1 b ne..<ne} = {i \<in> {b..<ne}. isLastPos (fvField (vs ! i)) 1}"
      using last marked LAST by (intro last_range) blast+
    obtain m where m: "m \<in> {b..<ne}" "isLastPos (fvField (vs ! m)) 1" using marked LAST by blast
    let ?s = "lastRangeStart vs 1 b ne"
    have "m \<in> {?s..<ne}" using m eq by blast
    then have "?s \<in> {?s..<ne}" by simp
    then have "?s \<in> {i \<in> {b..<ne}. isLastPos (fvField (vs ! i)) 1}" by (simp only: eq)
    then have s: "b \<le> ?s" "isLastPos (fvField (vs ! ?s)) 1" "?s < ne" by simp_all
    have "\<forall>k \<in> {?s..<ne}. posAt vs 1 k = posAt vs 1 ?s"
    proof
      fix k assume "k \<in> {?s..<ne}"
      then have "pos_sint 1 (vs ! k) = pos_sint 1 (vs ! ?s)" using last[OF s(1,3,2), of k] by simp
      then show "posAt vs 1 k = posAt vs 1 ?s" by (rule inj[THEN iffD2])
    qed
    then have "b \<le> ?s \<and> ne \<le> ne \<and> (\<exists>p. \<forall>k \<in> {?s..<ne}. posAt vs 1 k = p)" using s(1) by blast
    then have u: "b \<le> a \<and> c \<le> ne \<and> (\<exists>p. \<forall>k \<in> {a..<c}. posAt vs 1 k = p)" if "(a, c) \<in> set [(?s, ne)]" for a c
      using that by simp
    have "positionRanges vs (Some q) 0 b ne = Some (1, ?s, ne, [(?s, ne)])"
      by (simp add: positionRanges_def Let_def LAST)
    moreover have "(\<Union>(a, c) \<in> set [(?s, ne)]. {a..<c}) = {i \<in> {b..<ne}. item_accepts q (vs ! i)}"
      using eq LAST by simp
    ultimately show ?thesis using u by (rule that[of ?s ne "[(?s, ne)]"])
  next
    case ANY
    have "(\<Union>(a, c) \<in> set (anyRanges vs 1 [b..<ne] b (posAt vs 1 b) ne). {a..<c}) = {b..<ne} \<and>
      (\<forall>(a, c) \<in> set (anyRanges vs 1 [b..<ne] b (posAt vs 1 b) ne). b \<le> a \<and> c \<le> ne \<and> (\<exists>p. \<forall>k \<in> {a..<c}. posAt vs 1 k = p))"
      using r by (intro anyRanges_runs) auto
    then show ?thesis
      using ANY by (intro that[of b ne "anyRanges vs 1 [b..<ne] b (posAt vs 1 b) ne"]) (auto simp: positionRanges_def)
  qed (use q in auto)
qed

section \<open>Properties\<close>

text \<open>
  Fact. Matching one leaf: on an event whose values are in depth-first order, a top-level
  field value matcher with no position accepts exactly when some value of that field passes the
  matcher's test, in spite of the range search that stops early.
\<close>

theorem matchesSimple_leaf:
  assumes "dfs_values vs" and "\<And>ms. vm \<noteq> kMatchesTuple ms"
  shows "matchesSimple env (FieldValueMatcher f None vm) vs 0 (length vs) 0 \<longleftrightarrow>
    (\<exists>v \<in> set vs. getPosAtDepth (fvField v) 0 = f \<and> valueTest env vm v)"
proof -
  have "set vs = (\<lambda>i. vs ! i) ` {0..<length vs}" by (auto simp: set_conv_nth)
  then show ?thesis
    using leaf_range[OF dfs_sorted_0[OF assms(1) order.refl] _ assms(2), where env = env and f = f and s = 0]
    by auto
qed

definition example_event :: "field_value list" where
  "example_event =
     [\<lparr>fvField = \<lparr>mTag = 10, mField = 0x02010101\<rparr>, fvValue = INT_v 1000, fvAnnotations = 0\<rparr>,
      \<lparr>fvField = \<lparr>mTag = 10, mField = 0x02018201\<rparr>, fvValue = INT_v 2000, fvAnnotations = 0\<rparr>]"

lemma example_event_dfs: "dfs_values example_event"
  by (simp add: dfs_values_def example_event_def pos_sint_def getPosAtDepth_def getRawPosAtDepth_def rawSegment_def
      kMaxLogDepth_def kClearLastBitDeco_def isLastPos_def kLastBitMask_def)

theorem matchesSimple_leaf_witness:
  "matchesSimple \<lparr>sAidToUidMapping = [], getAppNamesFromUid = (\<lambda>u. [])\<rparr> (FieldValueMatcher 1 None (kGteInt 1500))
     example_event 0 (length example_event) 0"
  using matchesSimple_leaf[OF example_event_dfs, where vm = "kGteInt 1500" and f = 1
      and env = "\<lparr>sAidToUidMapping = [], getAppNamesFromUid = (\<lambda>u. [])\<rparr>"]
  by (simp add: example_event_def getPosAtDepth_def getRawPosAtDepth_def rawSegment_def kMaxLogDepth_def
      kClearLastBitDeco_def on_integer_def)

text \<open>
  Property C31. Matching in a repeated field such as an attribution chain: a matcher for field \<open>f\<close> at
  position FIRST, LAST or ANY with one sub-matcher for leaf \<open>g\<close> accepts exactly when some item that
  the position means (the first, the one marked last, any) has a leaf \<open>g\<close> that passes the test.
\<close>

theorem matchesSimple_repeated:
  assumes "dfs_values vs" and "\<And>ms. vm \<noteq> kMatchesTuple ms" and "q \<in> {FIRST, LAST, ANY}"
    and "\<forall>v \<in> set vs. q = LAST \<and> getPosAtDepth (fvField v) 0 = f \<longrightarrow>
           (\<exists>w \<in> set vs. getPosAtDepth (fvField w) 0 = f \<and> isLastPos (fvField w) 1)"
    and "\<forall>v \<in> set vs. q = FIRST \<and> getPosAtDepth (fvField v) 0 = f \<longrightarrow> 1 \<le> pos_sint 1 v"
  shows "matchesSimple env (FieldValueMatcher f (Some q) (kMatchesTuple [FieldValueMatcher g None vm])) vs 0 (length vs) 0 \<longleftrightarrow>
    (\<exists>v \<in> set vs. getPosAtDepth (fvField v) 0 = f \<and> item_accepts q v \<and>
       getPosAtDepth (fvField v) 2 = g \<and> valueTest env vm v)"
proof (cases "vs = []")
  case True
  then show ?thesis by (simp add: matchesSimple.simps)
next
  case ne: False
  obtain ns e where z: "zoomLoop vs 0 f [0..<length vs] (None, length vs) = (ns, e)" by fastforce
  note zr = zoom_range[OF dfs_sorted_0[OF assms(1) order.refl] _ z]
  have sv: "set vs = (\<lambda>i. vs ! i) ` {0..<length vs}" by (auto simp: set_conv_nth)
  have rng: "(\<exists>v \<in> set vs. getPosAtDepth (fvField v) 0 = f \<and> P v) \<longleftrightarrow>
      (\<exists>i \<in> {i \<in> {0..<length vs}. posAt vs 0 i = f}. P (vs ! i))" for P unfolding sv by auto
  show ?thesis
  proof (cases ns)
    case None
    then show ?thesis using ne z unfolding rng zr(1)[OF le0] by (simp add: matchesSimple.simps)
  next
    case (Some b)
    have be: "b < e" "e \<le> length vs" using zr(2)[OF le0 Some] by auto
    have zs: "{b..<e} = {i \<in> {0..<length vs}. posAt vs 0 i = f}" using zr(1)[OF le0] Some by simp
    have f: "posAt vs 0 i = f" if "b \<le> i" "i < e" for i
    proof -
      have "i \<in> {b..<e}" using that by simp
      then show ?thesis unfolding zs by simp
    qed
    have mk: "\<exists>i \<in> {b..<e}. isLastPos (fvField (vs ! i)) 1" if "q = LAST"
    proof -
      have "vs ! b \<in> set vs" using be by simp
      with assms(4) that f[of b] be have "\<exists>w \<in> set vs. getPosAtDepth (fvField w) 0 = f \<and> isLastPos (fvField w) 1" by auto
      then show ?thesis unfolding rng zr(1)[OF le0] Some by simp
    qed
    have ct: "1 \<le> pos_sint 1 (vs ! i)" if "q = FIRST" "b \<le> i" "i < e" for i
      using assms(5) that f[of i] be by simp
    from position_ranges_items[OF assms(1) be f assms(3) mk ct] obtain s' e' ranges where
      pr: "positionRanges vs (Some q) 0 b e = Some (1, s', e', ranges)"
      and un: "(\<Union>(a, c) \<in> set ranges. {a..<c}) = {i \<in> {b..<e}. item_accepts q (vs ! i)}"
      and each: "\<And>a c. (a, c) \<in> set ranges \<Longrightarrow> b \<le> a \<and> c \<le> e \<and> (\<exists>p. \<forall>k \<in> {a..<c}. posAt vs 1 k = p)" by blast
    have leaf: "matchesSimple env (FieldValueMatcher g None vm) vs a c 2 \<longleftrightarrow>
        (\<exists>i \<in> {a..<c}. posAt vs 2 i = g \<and> valueTest env vm (vs ! i))" if ac: "(a, c) \<in> set ranges" for a c
    proof -
      obtain p where "\<forall>k \<in> {a..<c}. posAt vs 1 k = p" using each[OF ac] by blast
      then show ?thesis
        using each[OF ac] be f by (intro leaf_range dfs_sorted_2[OF assms(1), where p = f and r = p] assms(2)) auto
    qed
    have "matchesSimple env (FieldValueMatcher f (Some q) (kMatchesTuple [FieldValueMatcher g None vm])) vs 0 (length vs) 0 \<longleftrightarrow>
        (\<exists>(a, c) \<in> set ranges. \<exists>i \<in> {a..<c}. posAt vs 2 i = g \<and> valueTest env vm (vs ! i))"
    proof -
      have "matchesSimple env (FieldValueMatcher f (Some q) (kMatchesTuple [FieldValueMatcher g None vm])) vs 0 (length vs) 0 =
          list_ex (\<lambda>(a, c). matchesSimple env (FieldValueMatcher g None vm) vs a c 2) ranges"
        using ne z Some pr by (subst matchesSimple.simps) (simp add: numeral_2_eq_2)
      also have "\<dots> = (\<exists>(a, c) \<in> set ranges. matchesSimple env (FieldValueMatcher g None vm) vs a c 2)"
        by (simp add: list_ex_iff)
      also have "\<dots> = (\<exists>(a, c) \<in> set ranges. \<exists>i \<in> {a..<c}. posAt vs 2 i = g \<and> valueTest env vm (vs ! i))"
        by (rule bex_cong[OF refl]) (use leaf in auto)
      finally show ?thesis .
    qed
    also have "\<dots> \<longleftrightarrow> (\<exists>i \<in> (\<Union>(a, c) \<in> set ranges. {a..<c}). posAt vs 2 i = g \<and> valueTest env vm (vs ! i))" by blast
    also have "\<dots> \<longleftrightarrow> (\<exists>i \<in> {b..<e}. item_accepts q (vs ! i) \<and> posAt vs 2 i = g \<and> valueTest env vm (vs ! i))"
      unfolding un by blast
    finally show ?thesis unfolding rng zr(1)[OF le0] Some by simp
  qed
qed

theorem matchesSimple_repeated_witness:
  "matchesSimple \<lparr>sAidToUidMapping = [(''AID_X'', 2000)], getAppNamesFromUid = (\<lambda>u. [])\<rparr>
     (FieldValueMatcher 1 (Some LAST) (kMatchesTuple [FieldValueMatcher 1 None (kEqInt 2000)]))
     example_event 0 (length example_event) 0"
  using matchesSimple_repeated[OF example_event_dfs, where vm = "kEqInt 2000" and f = 1 and g = 1 and q = LAST
      and env = "\<lparr>sAidToUidMapping = [(''AID_X'', 2000)], getAppNamesFromUid = (\<lambda>u. [])\<rparr>"]
  by (simp add: example_event_def getPosAtDepth_def getRawPosAtDepth_def rawSegment_def kMaxLogDepth_def
      kClearLastBitDeco_def isLastPos_def kLastBitMask_def on_integer_def)

end
