(* ===== verification/MatchingTrackers.thy ===== *)
theory MatchingTrackers
  imports FieldMatching
begin

text \<open>
  \<^verbatim>\<open>bin/src/matchers/SimpleAtomMatchingTracker.cpp\<close>, \<^verbatim>\<open>CombinationAtomMatchingTracker.cpp\<close>,
  \<^verbatim>\<open>combinationMatch\<close> of \<^verbatim>\<open>matcher_util.cpp\<close>, and \<^verbatim>\<open>createAtomMatchingTracker\<close> and
  \<^verbatim>\<open>initAtomMatchingTrackers\<close> of \<^verbatim>\<open>metrics/parsing_utils/metrics_manager_util.cpp\<close>: the graph of matchers
  of a config, its depth-first initialisation with cycle detection, and the evaluation of an event
  with a result cache.

  A tracker object is an entry of the list of all trackers; \<open>this\<close> is its index. The two recursions
  over the graph take fuel, \<open>None\<close> when it runs out; the theorems show that as much fuel as there
  are trackers is always enough. Proto hashes are not modelled: nothing here reads them.
\<close>

section \<open>Definitions\<close>

datatype matching_state = kNotComputed | kNotMatched | kMatched

datatype atom_matcher_contents =
    CONTENTS_NOT_SET
  | kSimpleAtomMatcher simple_atom_matcher
  | kCombination "logical_operation option" "int list"

record atom_matcher =
  am_id :: int
  am_contents :: atom_matcher_contents

datatype tracker_kind =
    SimpleTracker simple_atom_matcher
  | CombinationTracker (tk_op: logical_operation) (tk_children: "nat list")

record matching_tracker =
  mtId :: int
  mtIndex :: nat
  mtInitialized :: bool
  mtAtomIds :: "i32 list"
  mtKind :: tracker_kind

definition isCombination :: "matching_tracker \<Rightarrow> bool" where
  "isCombination t = (case mtKind t of CombinationTracker _ _ \<Rightarrow> True | SimpleTracker _ \<Rightarrow> False)"

definition newSimpleAtomMatchingTracker :: "int \<Rightarrow> nat \<Rightarrow> simple_atom_matcher \<Rightarrow> matching_tracker" where
  "newSimpleAtomMatchingTracker i idx m =
     \<lparr>mtId = i, mtIndex = idx,
      mtInitialized = (case atom_id m of None \<Rightarrow> False | Some _ \<Rightarrow> True),
      mtAtomIds = (case atom_id m of None \<Rightarrow> [] | Some a \<Rightarrow> [a]), mtKind = SimpleTracker m\<rparr>"

definition newCombinationAtomMatchingTracker :: "int \<Rightarrow> nat \<Rightarrow> matching_tracker" where
  "newCombinationAtomMatchingTracker i idx =
     \<lparr>mtId = i, mtIndex = idx, mtInitialized = False, mtAtomIds = [],
      mtKind = CombinationTracker LOGICAL_OPERATION_UNSPECIFIED []\<rparr>"

definition createAtomMatchingTracker :: "atom_matcher \<Rightarrow> nat \<Rightarrow> matching_tracker option" where
  "createAtomMatchingTracker m idx =
     (case am_contents m of
        kSimpleAtomMatcher s \<Rightarrow> Some (newSimpleAtomMatchingTracker (am_id m) idx s)
      | kCombination _ _ \<Rightarrow> Some (newCombinationAtomMatchingTracker (am_id m) idx)
      | CONTENTS_NOT_SET \<Rightarrow> None)"

type_synonym init_state = "matching_tracker list \<times> bool list"

definition addChild :: "nat \<Rightarrow> nat \<Rightarrow> matching_tracker list \<Rightarrow> matching_tracker list" where
  "addChild this childIndex ts =
     (case mtKind (ts ! this) of
        CombinationTracker op cs \<Rightarrow>
          ts[this := (ts ! this)\<lparr>mtKind := CombinationTracker op (cs @ [childIndex]),
                                 mtAtomIds := List.union (mtAtomIds (ts ! this)) (mtAtomIds (ts ! childIndex))\<rparr>]
      | SimpleTracker _ \<Rightarrow> ts)"

definition setOperation :: "logical_operation \<Rightarrow> matching_tracker \<Rightarrow> matching_tracker" where
  "setOperation op t = (case mtKind t of
      CombinationTracker _ cs \<Rightarrow> t\<lparr>mtKind := CombinationTracker op cs\<rparr> | SimpleTracker _ \<Rightarrow> t)"

definition combinationOf :: "atom_matcher \<Rightarrow> logical_operation option \<times> int list" where
  "combinationOf m = (case am_contents m of kCombination op cs \<Rightarrow> (op, cs) | _ \<Rightarrow> (None, []))"

function (sequential)
  tracker_init :: "nat \<Rightarrow> atom_matcher list \<Rightarrow> (int, nat) umap \<Rightarrow> nat \<Rightarrow> init_state \<Rightarrow> (init_state \<times> bool) option" and
  init_children :: "nat \<Rightarrow> atom_matcher list \<Rightarrow> (int, nat) umap \<Rightarrow> nat \<Rightarrow> int list \<Rightarrow> init_state \<Rightarrow> (init_state \<times> bool) option"
where
  "tracker_init 0 cfgs mp this s = None"
| "tracker_init (Suc n) cfgs mp this (ts, stack) =
     (case mtKind (ts ! this) of
        SimpleTracker _ \<Rightarrow> Some ((ts, stack), mtInitialized (ts ! this))
      | CombinationTracker _ _ \<Rightarrow>
          if mtInitialized (ts ! this) then Some ((ts, stack), True)
          else let idx = mtIndex (ts ! this);
                   stack1 = stack[idx := True];
                   (op, kids) = combinationOf (cfgs ! idx)
               in case op of
                    None \<Rightarrow> Some ((ts, stack1), False)
                  | Some op \<Rightarrow>
                      let ts1 = ts[this := setOperation op (ts ! this)]
                      in if op = op_NOT \<and> length kids \<noteq> 1 then Some ((ts1, stack1), False)
                         else (case init_children n cfgs mp this kids (ts1, stack1) of
                                 None \<Rightarrow> None
                               | Some ((ts2, stack2), ok) \<Rightarrow>
                                   if ok then Some ((ts2[this := (ts2 ! this)\<lparr>mtInitialized := True\<rparr>], stack2[idx := False]), True)
                                   else Some ((ts2, stack2), False)))"
| "init_children n cfgs mp this [] s = Some (s, True)"
| "init_children n cfgs mp this (child # cs) (ts, stack) =
     (case map_of mp child of
        None \<Rightarrow> Some ((ts, stack), False)
      | Some childIndex \<Rightarrow>
          if stack ! childIndex then Some ((ts, stack), False)
          else (case tracker_init n cfgs mp childIndex (ts, stack) of
                  None \<Rightarrow> None
                | Some ((ts1, stack1), ok) \<Rightarrow>
                    if \<not> ok then Some ((ts1, stack1), False)
                    else init_children n cfgs mp this cs (addChild this childIndex ts1, stack1)))"
  by pat_completeness auto
termination
  by (relation "measures [\<lambda>x. case x of Inl (n, _) \<Rightarrow> n | Inr (n, _) \<Rightarrow> n,
        \<lambda>x. case x of Inl _ \<Rightarrow> 0 | Inr (n, cfgs, mp, this, cs, s) \<Rightarrow> Suc (length cs)]") auto

text \<open>\<^verbatim>\<open>initAtomMatchingTrackers\<close>: create all trackers, then initialise each and collect the tag ids.\<close>

fun createTrackers :: "atom_matcher list \<Rightarrow> nat \<Rightarrow> matching_tracker list \<Rightarrow> (int, nat) umap \<Rightarrow>
    (matching_tracker list \<times> (int, nat) umap) option" where
  "createTrackers [] i ts mp = Some (ts, mp)"
| "createTrackers (m # ms) i ts mp =
     (case createAtomMatchingTracker m i of
        None \<Rightarrow> None
      | Some t \<Rightarrow> if map_of mp (am_id m) \<noteq> None then None
                  else createTrackers ms (i + 1) (ts @ [t]) (AList.update (am_id m) i mp))"

fun initAll :: "nat \<Rightarrow> atom_matcher list \<Rightarrow> (int, nat) umap \<Rightarrow> nat list \<Rightarrow> init_state \<Rightarrow> i32 list \<Rightarrow>
    ((matching_tracker list \<times> i32 list) option) option" where
  "initAll n cfgs mp [] (ts, stack) tags = Some (Some (ts, tags))"
| "initAll n cfgs mp (i # is) (ts, stack) tags =
     (case tracker_init n cfgs mp i (ts, stack) of
        None \<Rightarrow> None
      | Some ((ts1, stack1), ok) \<Rightarrow>
          if \<not> ok then Some None
          else initAll n cfgs mp is (ts1, stack1) (List.union tags (mtAtomIds (ts1 ! i))))"

definition initAtomMatchingTrackers ::
  "nat \<Rightarrow> atom_matcher list \<Rightarrow> ((matching_tracker list \<times> (int, nat) umap \<times> i32 list) option) option" where
  "initAtomMatchingTrackers fuel cfgs =
     (case createTrackers cfgs 0 [] [] of
        None \<Rightarrow> Some None
      | Some (ts, mp) \<Rightarrow>
          map_option (map_option (\<lambda>(ts', tags). (ts', mp, tags)))
            (initAll fuel cfgs mp [0..<length ts] (ts, replicate (length ts) False) []))"

fun onConfigUpdatedChildren :: "(int, nat) umap \<Rightarrow> int list \<Rightarrow> nat list \<Rightarrow> nat list \<times> bool" where
  "onConfigUpdatedChildren mp [] acc = (acc, True)"
| "onConfigUpdatedChildren mp (c # cs) acc =
     (case map_of mp c of
        None \<Rightarrow> (acc, False)
      | Some i \<Rightarrow> onConfigUpdatedChildren mp cs (acc @ [i]))"

definition matcher_onConfigUpdated ::
  "atom_matcher \<Rightarrow> nat \<Rightarrow> (int, nat) umap \<Rightarrow> matching_tracker \<Rightarrow> matching_tracker \<times> bool" where
  "matcher_onConfigUpdated m idx mp t =
     (case mtKind t of
        SimpleTracker _ \<Rightarrow> (t\<lparr>mtIndex := idx\<rparr>, mtInitialized t)
      | CombinationTracker op _ \<Rightarrow>
          let (cs, ok) = onConfigUpdatedChildren mp (snd (combinationOf m)) []
          in (t\<lparr>mtIndex := idx, mtKind := CombinationTracker op cs\<rparr>, ok))"

definition combinationMatch :: "nat list \<Rightarrow> logical_operation \<Rightarrow> matching_state list \<Rightarrow> bool" where
  "combinationMatch children op results =
     (case op of
        op_AND \<Rightarrow> \<not> list_ex (\<lambda>c. results ! c \<noteq> kMatched) children
      | op_OR \<Rightarrow> list_ex (\<lambda>c. results ! c = kMatched) children
      | op_NOT \<Rightarrow> results ! (children ! 0) = kNotMatched
      | op_NAND \<Rightarrow> list_ex (\<lambda>c. results ! c \<noteq> kMatched) children
      | op_NOR \<Rightarrow> \<not> list_ex (\<lambda>c. results ! c = kMatched) children
      | LOGICAL_OPERATION_UNSPECIFIED \<Rightarrow> False)"

definition state_of_bool :: "bool \<Rightarrow> matching_state" where
  "state_of_bool b = (if b then kMatched else kNotMatched)"

function (sequential)
  tracker_onLogEvent :: "nat \<Rightarrow> uid_env \<Rightarrow> matching_tracker list \<Rightarrow> log_event \<Rightarrow> nat \<Rightarrow> matching_state list \<Rightarrow> matching_state list option" and
  eval_children :: "nat \<Rightarrow> uid_env \<Rightarrow> matching_tracker list \<Rightarrow> log_event \<Rightarrow> nat list \<Rightarrow> matching_state list \<Rightarrow> matching_state list option"
where
  "tracker_onLogEvent 0 env ts ev this results = None"
| "tracker_onLogEvent (Suc n) env ts ev this results =
     (let idx = mtIndex (ts ! this)
      in if results ! idx \<noteq> kNotComputed then Some results
         else if tagId ev \<notin> set (mtAtomIds (ts ! this)) then Some (results[idx := kNotMatched])
         else case mtKind (ts ! this) of
                SimpleTracker m \<Rightarrow> Some (results[idx := state_of_bool (matchesSimpleAtom env m ev)])
              | CombinationTracker op cs \<Rightarrow>
                  (case eval_children n env ts ev cs results of
                     None \<Rightarrow> None
                   | Some results1 \<Rightarrow> Some (results1[idx := state_of_bool (combinationMatch cs op results1)])))"
| "eval_children n env ts ev [] results = Some results"
| "eval_children n env ts ev (c # cs) results =
     (case (if results ! c = kNotComputed then tracker_onLogEvent n env ts ev c results else Some results) of
        None \<Rightarrow> None
      | Some results1 \<Rightarrow> eval_children n env ts ev cs results1)"
  by pat_completeness auto
termination
  by (relation "measures [\<lambda>x. case x of Inl (n, _) \<Rightarrow> n | Inr (n, _) \<Rightarrow> n,
        \<lambda>x. case x of Inl _ \<Rightarrow> 0 | Inr (n, env, ts, ev, cs, r) \<Rightarrow> Suc (length cs)]") auto


text \<open>The loop of \<^verbatim>\<open>MetricsManager::onLogEvent\<close> over all matchers, from an empty cache.\<close>

fun evalAll :: "nat \<Rightarrow> uid_env \<Rightarrow> matching_tracker list \<Rightarrow> log_event \<Rightarrow> nat list \<Rightarrow> matching_state list \<Rightarrow> matching_state list option" where
  "evalAll n env ts ev [] results = Some results"
| "evalAll n env ts ev (i # is) results =
     (case tracker_onLogEvent n env ts ev i results of
        None \<Rightarrow> None
      | Some results1 \<Rightarrow> evalAll n env ts ev is results1)"

definition evaluateAtomMatchers :: "nat \<Rightarrow> uid_env \<Rightarrow> matching_tracker list \<Rightarrow> log_event \<Rightarrow> matching_state list option" where
  "evaluateAtomMatchers n env ts ev =
     evalAll n env ts ev [0..<length ts] (replicate (length ts) kNotComputed)"

section \<open>Initialisation terminates and finds cycles\<close>

definition children_of :: "matching_tracker \<Rightarrow> nat list" where
  "children_of t = (case mtKind t of CombinationTracker _ cs \<Rightarrow> cs | SimpleTracker _ \<Rightarrow> [])"

definition inits :: "matching_tracker list \<Rightarrow> nat set" where
  "inits ts = {j. j < length ts \<and> mtInitialized (ts ! j)}"

text \<open>What is true of an initialised combination: its children are those of the config, are
  initialised, and its tag ids are theirs.\<close>

definition combination_ok :: "atom_matcher list \<Rightarrow> (int, nat) umap \<Rightarrow> matching_tracker list \<Rightarrow> nat \<Rightarrow> bool" where
  "combination_ok cfgs mp ts j = (case mtKind (ts ! j) of
      SimpleTracker _ \<Rightarrow> True
    | CombinationTracker op cs \<Rightarrow>
        (\<exists>kids. combinationOf (cfgs ! j) = (Some op, kids) \<and> map (map_of mp) kids = map Some cs) \<and>
        (op = op_NOT \<longrightarrow> length cs = 1) \<and> set cs \<subseteq> inits ts \<and>
        set (mtAtomIds (ts ! j)) = (\<Union>c \<in> set cs. set (mtAtomIds (ts ! c))))"

definition ranked :: "(nat \<Rightarrow> nat) \<Rightarrow> matching_tracker list \<Rightarrow> bool" where
  "ranked rank ts \<longleftrightarrow> (\<forall>j \<in> inits ts. rank j < card (inits ts) \<and> (\<forall>c \<in> set (children_of (ts ! j)). rank c < rank j))"

definition trackers_ok :: "atom_matcher list \<Rightarrow> (int, nat) umap \<Rightarrow> matching_tracker list \<Rightarrow> bool list \<Rightarrow> bool" where
  "trackers_ok cfgs mp ts stack \<longleftrightarrow> length stack = length ts \<and>
     (\<forall>j < length ts. mtIndex (ts ! j) = j \<and> (stack ! j \<longrightarrow> \<not> mtInitialized (ts ! j)) \<and>
        (\<not> stack ! j \<and> \<not> mtInitialized (ts ! j) \<and> isCombination (ts ! j) \<longrightarrow>
           children_of (ts ! j) = [] \<and> mtAtomIds (ts ! j) = [])) \<and>
     (\<forall>j \<in> inits ts. combination_ok cfgs mp ts j) \<and> (\<exists>rank. ranked rank ts)"

lemma children_of_simple: "\<not> isCombination t \<Longrightarrow> children_of t = []"
  by (simp add: isCombination_def children_of_def split: tracker_kind.splits)

lemma finite_inits [simp]: "finite (inits ts)"
  by (simp add: inits_def)

lemma card_inits: "card (inits ts) \<le> length ts"
  using card_mono[of "{..<length ts}" "inits ts"] by (auto simp: inits_def)

lemma combination_ok_cong:
  assumes "combination_ok cfgs mp ts j" "ts' ! j = ts ! j" "inits ts \<subseteq> inits ts'"
    and "\<And>c. c \<in> inits ts \<Longrightarrow> mtAtomIds (ts' ! c) = mtAtomIds (ts ! c)"
  shows "combination_ok cfgs mp ts' j"
  using assms by (auto simp: combination_ok_def subset_iff split: tracker_kind.splits)

lemma trackers_ok_stacked_update:
  assumes "trackers_ok cfgs mp ts stack" "stack ! i" "i < length ts" "\<not> mtInitialized t" "mtIndex t = i"
  shows "trackers_ok cfgs mp (ts[i := t]) stack" and "inits (ts[i := t]) = inits ts"
proof -
  have ni: "\<not> mtInitialized (ts ! i)" using assms by (simp add: trackers_ok_def)
  show e: "inits (ts[i := t]) = inits ts" using assms ni by (auto simp: inits_def nth_list_update)
  have at: "ts[i := t] ! j = ts ! j" if "j \<in> inits ts" for j using that ni by (cases "j = i") (auto simp: inits_def)
  have "combination_ok cfgs mp (ts[i := t]) j" if "j \<in> inits ts" for j
    by (rule combination_ok_cong[of cfgs mp ts]) (use assms(1) that at e in \<open>simp_all add: trackers_ok_def\<close>)
  moreover have "ranked r (ts[i := t])" if "ranked r ts" for r
    using that unfolding ranked_def e by (simp add: at)
  ultimately show "trackers_ok cfgs mp (ts[i := t]) stack"
    using assms e by (auto simp: trackers_ok_def nth_list_update)
qed

lemma trackers_ok_push:
  "trackers_ok cfgs mp ts stack \<Longrightarrow> i < length ts \<Longrightarrow> \<not> mtInitialized (ts ! i) \<Longrightarrow> trackers_ok cfgs mp ts (stack[i := True])"
  by (auto simp: trackers_ok_def nth_list_update)

lemma trackers_ok_finish:
  assumes ok: "trackers_ok cfgs mp ts (stack[i := True])" and i: "i < length ts" "\<not> stack ! i"
    and c: "combination_ok cfgs mp ts i" "isCombination (ts ! i)"
  shows "trackers_ok cfgs mp (ts[i := (ts ! i)\<lparr>mtInitialized := True\<rparr>]) stack"
proof -
  let ?t = "(ts ! i)\<lparr>mtInitialized := True\<rparr>" and ?ts = "ts[i := (ts ! i)\<lparr>mtInitialized := True\<rparr>]"
  have len: "length stack = length ts" using ok by (simp add: trackers_ok_def)
  have ni: "i \<notin> inits ts" using ok i len by (auto simp: trackers_ok_def inits_def)
  have e: "inits ?ts = insert i (inits ts)" using i by (auto simp: inits_def nth_list_update)
  have cnt: "card (inits ?ts) = Suc (card (inits ts))" using ni e by simp
  have atoms: "mtAtomIds (?ts ! j) = mtAtomIds (ts ! j)" for j using i by (cases "j = i") auto
  have kind: "mtKind (?ts ! j) = mtKind (ts ! j)" for j using i by (cases "j = i") auto
  then have kids: "children_of (?ts ! j) = children_of (ts ! j)" for j by (simp add: children_of_def)
  have comb: "combination_ok cfgs mp ?ts j" if "j \<in> insert i (inits ts)" for j
  proof -
    have "combination_ok cfgs mp ts j" using that c ok by (auto simp: trackers_ok_def)
    then show ?thesis unfolding combination_ok_def kind atoms e by (auto split: tracker_kind.splits)
  qed
  obtain rank where r: "ranked rank ts" using ok by (auto simp: trackers_ok_def)
  have sub: "set (children_of (ts ! j)) \<subseteq> inits ts" if "j \<in> insert i (inits ts)" for j
  proof -
    have "combination_ok cfgs mp ts j" using that c ok by (auto simp: trackers_ok_def)
    then show ?thesis by (auto simp: combination_ok_def children_of_def split: tracker_kind.splits)
  qed
  have "ranked (rank(i := card (inits ts))) ?ts"
    unfolding ranked_def e kids cnt[unfolded e]
  proof (intro ballI conjI)
    fix j k assume j: "j \<in> insert i (inits ts)"
    show "(rank(i := card (inits ts))) j < Suc (card (inits ts))"
      using j r by (auto simp: ranked_def less_Suc_eq)
    assume k: "k \<in> set (children_of (ts ! j))"
    then have "k \<in> inits ts" using sub[OF j] by blast
    then show "(rank(i := card (inits ts))) k < (rank(i := card (inits ts))) j"
      using j k r ni by (cases "j = i") (auto simp: ranked_def)
  qed
  moreover have "\<forall>j < length ?ts. mtIndex (?ts ! j) = j \<and> (stack ! j \<longrightarrow> \<not> mtInitialized (?ts ! j)) \<and>
        (\<not> stack ! j \<and> \<not> mtInitialized (?ts ! j) \<and> isCombination (?ts ! j) \<longrightarrow>
           children_of (?ts ! j) = [] \<and> mtAtomIds (?ts ! j) = [])"
    using ok i len by (auto simp: trackers_ok_def nth_list_update)
  ultimately show ?thesis using len comb e unfolding trackers_ok_def by auto
qed


definition unstacked :: "bool list \<Rightarrow> nat" where
  "unstacked stack = length (filter Not stack)"

lemma unstacked_push: "i < length stack \<Longrightarrow> \<not> stack ! i \<Longrightarrow> Suc (unstacked (stack[i := True])) = unstacked stack"
  unfolding unstacked_def by (induction stack arbitrary: i) (auto split: nat.splits)

definition keeps :: "bool list \<Rightarrow> matching_tracker list \<Rightarrow> matching_tracker list \<Rightarrow> bool" where
  "keeps stack ts ts' \<longleftrightarrow> length ts' = length ts \<and>
     (\<forall>j < length ts. (stack ! j \<or> mtInitialized (ts ! j) \<longrightarrow> ts' ! j = ts ! j) \<and>
        isCombination (ts' ! j) = isCombination (ts ! j))"

lemma keeps_refl [simp]: "keeps stack ts ts"
  by (simp add: keeps_def)

lemma keeps_trans: "keeps stack ts ts' \<Longrightarrow> keeps stack ts' ts'' \<Longrightarrow> keeps stack ts ts''"
  by (auto simp: keeps_def)

lemma keeps_inits: "keeps stack ts ts' \<Longrightarrow> inits ts \<subseteq> inits ts'"
  by (auto simp: keeps_def inits_def)

text \<open>The outcome of initialising one tracker: it always comes back; when it reports success the
  stack is as before, the tracker is initialised and everything finished or in progress is kept.\<close>

definition init_good ::
  "atom_matcher list \<Rightarrow> (int, nat) umap \<Rightarrow> nat \<Rightarrow> matching_tracker list \<Rightarrow> bool list \<Rightarrow> (init_state \<times> bool) option \<Rightarrow> bool" where
  "init_good cfgs mp this ts stack r \<longleftrightarrow>
     (\<exists>ts' stack' ok. r = Some ((ts', stack'), ok) \<and>
        (ok \<longrightarrow> stack' = stack \<and> trackers_ok cfgs mp ts' stack \<and> keeps stack ts ts' \<and> mtInitialized (ts' ! this)))"

text \<open>The same for the children loop of a tracker that is on the stack.\<close>

definition children_good ::
  "atom_matcher list \<Rightarrow> (int, nat) umap \<Rightarrow> nat \<Rightarrow> int list \<Rightarrow> matching_tracker list \<Rightarrow> bool list \<Rightarrow> (init_state \<times> bool) option \<Rightarrow> bool" where
  "children_good cfgs mp this kids ts stack r \<longleftrightarrow>
     (\<exists>ts' stack' ok. r = Some ((ts', stack'), ok) \<and>
        (ok \<longrightarrow> stack' = stack \<and> trackers_ok cfgs mp ts' stack \<and> keeps (stack[this := False]) ts ts' \<and>
          (\<exists>cs. map (map_of mp) kids = map Some cs \<and> set cs \<subseteq> inits ts' \<and>
             mtKind (ts' ! this) = CombinationTracker (tk_op (mtKind (ts ! this))) (children_of (ts ! this) @ cs) \<and>
             mtIndex (ts' ! this) = this \<and> \<not> mtInitialized (ts' ! this) \<and>
             set (mtAtomIds (ts' ! this)) = set (mtAtomIds (ts ! this)) \<union> (\<Union>c \<in> set cs. set (mtAtomIds (ts' ! c))))))"

lemma failed_good [simp]:
  "init_good cfgs mp this ts stack (Some (s, False))" "children_good cfgs mp this kids ts stack (Some (s, False))"
  by (cases s, auto simp: init_good_def children_good_def)+

lemma addChild_ok:
  assumes ok: "trackers_ok cfgs mp ts stack" and th: "this < length ts" "stack ! this" "isCombination (ts ! this)"
  shows "trackers_ok cfgs mp (addChild this c ts) stack" and "inits (addChild this c ts) = inits ts"
    and "j \<noteq> this \<Longrightarrow> addChild this c ts ! j = ts ! j" and "length (addChild this c ts) = length ts"
    and "addChild this c ts ! this = (ts ! this)\<lparr>mtKind := CombinationTracker (tk_op (mtKind (ts ! this))) (children_of (ts ! this) @ [c]),
          mtAtomIds := List.union (mtAtomIds (ts ! this)) (mtAtomIds (ts ! c))\<rparr>"
proof -
  let ?t = "(ts ! this)\<lparr>mtKind := CombinationTracker (tk_op (mtKind (ts ! this))) (children_of (ts ! this) @ [c]),
          mtAtomIds := List.union (mtAtomIds (ts ! this)) (mtAtomIds (ts ! c))\<rparr>"
  have eq: "addChild this c ts = ts[this := ?t]"
    using th(3) by (simp add: addChild_def isCombination_def children_of_def split: tracker_kind.splits)
  have "\<not> mtInitialized ?t" "mtIndex ?t = this" using ok th by (simp_all add: trackers_ok_def)
  from trackers_ok_stacked_update[OF ok th(2,1) this]
  show "trackers_ok cfgs mp (addChild this c ts) stack" "inits (addChild this c ts) = inits ts" by (simp_all add: eq)
  show "j \<noteq> this \<Longrightarrow> addChild this c ts ! j = ts ! j" "length (addChild this c ts) = length ts"
    "addChild this c ts ! this = ?t" using th(1) by (simp_all add: eq)
qed

definition children_fit :: "(int, nat) umap \<Rightarrow> nat \<Rightarrow> bool" where
  "children_fit mp len \<longleftrightarrow> (\<forall>c i. map_of mp c = Some i \<longrightarrow> i < len)"

definition init_works :: "nat \<Rightarrow> atom_matcher list \<Rightarrow> (int, nat) umap \<Rightarrow> bool" where
  "init_works n cfgs mp \<longleftrightarrow> (\<forall>this ts stack. trackers_ok cfgs mp ts stack \<and> this < length ts \<and> \<not> stack ! this \<and>
     children_fit mp (length ts) \<and> unstacked stack < n \<longrightarrow>
     init_good cfgs mp this ts stack (tracker_init n cfgs mp this (ts, stack)))"

lemma init_children_step:
  assumes P: "init_works n cfgs mp"
    and "trackers_ok cfgs mp ts stack" "this < length ts" "stack ! this" "isCombination (ts ! this)"
      "children_fit mp (length ts)" "unstacked stack < n"
  shows "children_good cfgs mp this kids ts stack (init_children n cfgs mp this kids (ts, stack))"
  using assms(2-)
proof (induction kids arbitrary: ts)
  case Nil
  then show ?case
    by (auto simp: children_good_def trackers_ok_def isCombination_def children_of_def split: tracker_kind.splits)
next
  case (Cons child kids)
  show ?case
  proof (cases "\<exists>c. map_of mp child = Some c \<and> \<not> stack ! c")
    case False
    then show ?thesis by (auto split: option.splits)
  next
    case True
    then obtain c where c: "map_of mp child = Some c" "\<not> stack ! c" by blast
    then have cl: "c < length ts" using Cons.prems(5) by (simp add: children_fit_def)
    from P Cons.prems c cl have "init_good cfgs mp c ts stack (tracker_init n cfgs mp c (ts, stack))"
      by (simp add: init_works_def)
    then obtain ts1 stack1 ok where r: "tracker_init n cfgs mp c (ts, stack) = Some ((ts1, stack1), ok)"
      and good: "ok \<Longrightarrow> stack1 = stack \<and> trackers_ok cfgs mp ts1 stack \<and> keeps stack ts ts1 \<and> mtInitialized (ts1 ! c)"
      by (auto simp: init_good_def)
    show ?thesis
    proof (cases ok)
      case False
      then show ?thesis using c r by simp
    next
      case ok: True
      from good[OF ok] have g: "stack1 = stack" "trackers_ok cfgs mp ts1 stack" "keeps stack ts ts1" "mtInitialized (ts1 ! c)"
        by auto
      have len: "length ts1 = length ts" and same: "ts1 ! this = ts ! this"
        using g(3) Cons.prems(2,3) by (auto simp: keeps_def)
      have th: "this < length ts1" "stack ! this" "isCombination (ts1 ! this)" using Cons.prems len same by auto
      let ?ts = "addChild this c ts1"
      note ac = addChild_ok[OF g(2) th, where c = c]
      have cn: "c \<noteq> this" using c(2) Cons.prems(3) by blast
      have "isCombination (?ts ! this)" by (simp add: ac(5) isCombination_def)
      with Cons.IH[OF ac(1), of] ac len Cons.prems have
        "children_good cfgs mp this kids ?ts stack (init_children n cfgs mp this kids (?ts, stack))" by simp
      then obtain ts' stack' ok' where r': "init_children n cfgs mp this kids (?ts, stack) = Some ((ts', stack'), ok')"
        and good': "ok' \<Longrightarrow> stack' = stack \<and> trackers_ok cfgs mp ts' stack \<and> keeps (stack[this := False]) ?ts ts' \<and>
          (\<exists>cs. map (map_of mp) kids = map Some cs \<and> set cs \<subseteq> inits ts' \<and>
             mtKind (ts' ! this) = CombinationTracker (tk_op (mtKind (?ts ! this))) (children_of (?ts ! this) @ cs) \<and>
             mtIndex (ts' ! this) = this \<and> \<not> mtInitialized (ts' ! this) \<and>
             set (mtAtomIds (ts' ! this)) = set (mtAtomIds (?ts ! this)) \<union> (\<Union>c \<in> set cs. set (mtAtomIds (ts' ! c))))"
        by (auto simp: children_good_def)
      have eq: "init_children n cfgs mp this (child # kids) (ts, stack) = Some ((ts', stack'), ok')"
        using c r ok g(1) r' by simp
      show ?thesis
      proof (cases ok')
        case False
        then show ?thesis unfolding eq by simp
      next
        case True
        from good'[OF this] obtain cs where h: "stack' = stack" "trackers_ok cfgs mp ts' stack"
          "keeps (stack[this := False]) ?ts ts'" "map (map_of mp) kids = map Some cs" "set cs \<subseteq> inits ts'"
          "mtKind (ts' ! this) = CombinationTracker (tk_op (mtKind (?ts ! this))) (children_of (?ts ! this) @ cs)"
          "mtIndex (ts' ! this) = this" "\<not> mtInitialized (ts' ! this)"
          "set (mtAtomIds (ts' ! this)) = set (mtAtomIds (?ts ! this)) \<union> (\<Union>c \<in> set cs. set (mtAtomIds (ts' ! c)))" by blast
        have ci: "c \<in> inits ?ts" using g(4) ac(2) cl len by (simp add: inits_def)
        then have atc: "ts' ! c = ts1 ! c" using h(3) ac(3)[OF cn] ac(4) cl len by (auto simp: keeps_def inits_def)
        have "c \<in> inits ts'" using keeps_inits[OF h(3)] ci by blast
        moreover have "keeps (stack[this := False]) ts ts'"
        proof -
          have "keeps (stack[this := False]) ts ?ts"
            unfolding keeps_def
          proof (intro conjI allI impI)
            show "length ?ts = length ts" using ac(4) len by simp
            fix j assume j: "j < length ts"
            show "isCombination (?ts ! j) = isCombination (ts ! j)"
              using g(3) j ac(3) Cons.prems(4) by (cases "j = this") (auto simp: keeps_def ac(5) isCombination_def)
            assume k: "stack[this := False] ! j \<or> mtInitialized (ts ! j)"
            have "j \<noteq> this" using k Cons.prems(1,2,3) by (auto simp: trackers_ok_def)
            then show "?ts ! j = ts ! j" using k g(3) j ac(3) by (auto simp: keeps_def)
          qed
          then show ?thesis using h(3) by (rule keeps_trans)
        qed
        moreover have "children_of (?ts ! this) = children_of (ts ! this) @ [c]" "tk_op (mtKind (?ts ! this)) = tk_op (mtKind (ts ! this))"
          by (simp_all add: ac(5) children_of_def same)
        moreover have "set (mtAtomIds (?ts ! this)) = set (mtAtomIds (ts ! this)) \<union> set (mtAtomIds (ts' ! c))"
          by (simp add: ac(5) same atc)
        ultimately show ?thesis
          unfolding children_good_def eq using h c by (intro exI[of _ ts'] exI[of _ stack'] exI[of _ ok']) (auto intro!: exI[of _ "c # cs"])
      qed
    qed
  qed
qed


lemma tracker_init_step:
  assumes P: "init_works n cfgs mp"
  shows "init_works (Suc n) cfgs mp"
  unfolding init_works_def
proof (intro allI impI, elim conjE)
  fix this ts stack
  assume ok: "trackers_ok cfgs mp ts stack" and th: "this < length ts" "\<not> stack ! this"
    and fit: "children_fit mp (length ts)" and fuel: "unstacked stack < Suc n"
  have idx: "mtIndex (ts ! this) = this" and len: "length stack = length ts" using ok th by (auto simp: trackers_ok_def)
  show "init_good cfgs mp this ts stack (tracker_init (Suc n) cfgs mp this (ts, stack))"
  proof (cases "isCombination (ts ! this) \<and> \<not> mtInitialized (ts ! this)")
    case False
    then show ?thesis using ok by (auto simp: init_good_def isCombination_def split: tracker_kind.splits)
  next
    case True
    then obtain op0 cs0 where k: "mtKind (ts ! this) = CombinationTracker op0 cs0" and ni: "\<not> mtInitialized (ts ! this)"
      by (auto simp: isCombination_def split: tracker_kind.splits)
    have fresh: "cs0 = []" "mtAtomIds (ts ! this) = []"
      using ok th ni True k unfolding trackers_ok_def children_of_def by auto
    obtain op kids where cf: "combinationOf (cfgs ! this) = (op, kids)" by fastforce
    show ?thesis
    proof (cases "op = None \<or> (op = Some op_NOT \<and> length kids \<noteq> 1)")
      case True
      then show ?thesis using k ni idx cf by auto
    next
      case False
      then obtain p where p: "op = Some p" "p = op_NOT \<longrightarrow> length kids = 1" by auto
      let ?stack = "stack[this := True]" and ?t = "setOperation p (ts ! this)"
      let ?ts = "ts[this := setOperation p (ts ! this)]"
      have t: "?t = (ts ! this)\<lparr>mtKind := CombinationTracker p []\<rparr>" by (simp add: setOperation_def k fresh)
      have st: "?stack ! this" using th len by simp
      have ok1: "trackers_ok cfgs mp ?ts ?stack"
        by (rule trackers_ok_stacked_update(1)[OF trackers_ok_push[OF ok th(1) ni] st th(1)]) (simp_all add: t ni idx)
      have "children_good cfgs mp this kids ?ts ?stack (init_children n cfgs mp this kids (?ts, ?stack))"
        using P ok1 th len st fit fuel unstacked_push[of this stack]
        by (intro init_children_step) (auto simp: t isCombination_def)
      then obtain ts' stack' ok' where r: "init_children n cfgs mp this kids (?ts, ?stack) = Some ((ts', stack'), ok')"
        and g: "ok' \<Longrightarrow> stack' = ?stack \<and> trackers_ok cfgs mp ts' ?stack \<and> keeps (?stack[this := False]) ?ts ts' \<and>
          (\<exists>cs. map (map_of mp) kids = map Some cs \<and> set cs \<subseteq> inits ts' \<and>
             mtKind (ts' ! this) = CombinationTracker (tk_op (mtKind (?ts ! this))) (children_of (?ts ! this) @ cs) \<and>
             mtIndex (ts' ! this) = this \<and> \<not> mtInitialized (ts' ! this) \<and>
             set (mtAtomIds (ts' ! this)) = set (mtAtomIds (?ts ! this)) \<union> (\<Union>c \<in> set cs. set (mtAtomIds (ts' ! c))))"
        by (auto simp: children_good_def)
      have eq: "tracker_init (Suc n) cfgs mp this (ts, stack) =
          Some (if ok' then ((ts'[this := (ts' ! this)\<lparr>mtInitialized := True\<rparr>], stack'[this := False]), True) else ((ts', stack'), False))"
        using k ni idx cf p r by (auto simp: Let_def)
      show ?thesis
      proof (cases ok')
        case True
        from g[OF True] obtain cs where h: "stack' = ?stack" "trackers_ok cfgs mp ts' ?stack"
          "keeps (?stack[this := False]) ?ts ts'" "map (map_of mp) kids = map Some cs" "set cs \<subseteq> inits ts'"
          "mtKind (ts' ! this) = CombinationTracker p cs"
          "set (mtAtomIds (ts' ! this)) = (\<Union>c \<in> set cs. set (mtAtomIds (ts' ! c)))"
          using th t fresh by (auto simp: children_of_def)
        have restore: "?stack[this := False] = stack" using th by (metis list_update_id list_update_overwrite)
        have kp: "keeps stack ?ts ts'" using h(3) by (simp only: restore)
        then have th': "this < length ts'" using th by (simp add: keeps_def)
        have "length cs = length kids" using h(4) by (metis length_map)
        then have "combination_ok cfgs mp ts' this" using h cf p by (auto simp: combination_ok_def)
        then have "trackers_ok cfgs mp (ts'[this := (ts' ! this)\<lparr>mtInitialized := True\<rparr>]) stack"
          using h(2) th th' h(6) by (intro trackers_ok_finish) (auto simp: isCombination_def)
        moreover have "keeps stack ts (ts'[this := (ts' ! this)\<lparr>mtInitialized := True\<rparr>])"
          using kp ni th h(6) k unfolding keeps_def by (auto simp: nth_list_update isCombination_def t)
        ultimately show ?thesis
          using True th' restore h(1) unfolding eq by (auto simp: init_good_def)
      next
        case False
        then show ?thesis unfolding eq by simp
      qed
    qed
  qed
qed

lemma init_works_all: "init_works n cfgs mp"
  by (induction n) (simp add: init_works_def, rule tracker_init_step)


lemma createTrackers_fresh:
  assumes "createTrackers ms (length ts) ts mp = Some (ts', mp')"
    and "children_fit mp (length ts)"
    and "\<forall>j < length ts. mtIndex (ts ! j) = j \<and> (isCombination (ts ! j) \<longrightarrow> \<not> mtInitialized (ts ! j) \<and>
           children_of (ts ! j) = [] \<and> mtAtomIds (ts ! j) = [])"
  shows "children_fit mp' (length ts') \<and> length ts' = length ts + length ms \<and>
    (\<forall>j < length ts'. mtIndex (ts' ! j) = j \<and> (isCombination (ts' ! j) \<longrightarrow> \<not> mtInitialized (ts' ! j) \<and>
           children_of (ts' ! j) = [] \<and> mtAtomIds (ts' ! j) = []))"
  using assms
proof (induction ms arbitrary: ts mp)
  case (Cons m ms)
  from Cons.prems(1) obtain t where t: "createAtomMatchingTracker m (length ts) = Some t"
    and r: "createTrackers ms (length (ts @ [t])) (ts @ [t]) (AList.update (am_id m) (length ts) mp) = Some (ts', mp')"
    by (auto split: option.splits if_splits)
  have "mtIndex t = length ts \<and> (isCombination t \<longrightarrow> \<not> mtInitialized t \<and> children_of t = [] \<and> mtAtomIds t = [])"
    using t by (auto simp: createAtomMatchingTracker_def newSimpleAtomMatchingTracker_def isCombination_def
        newCombinationAtomMatchingTracker_def children_of_def split: atom_matcher_contents.splits)
  then have "\<forall>j < length (ts @ [t]). mtIndex ((ts @ [t]) ! j) = j \<and> (isCombination ((ts @ [t]) ! j) \<longrightarrow>
      \<not> mtInitialized ((ts @ [t]) ! j) \<and> children_of ((ts @ [t]) ! j) = [] \<and> mtAtomIds ((ts @ [t]) ! j) = [])"
    using Cons.prems(3) by (auto simp: nth_append less_Suc_eq)
  moreover have "children_fit (AList.update (am_id m) (length ts) mp) (length (ts @ [t]))"
    using Cons.prems(2) by (auto simp: children_fit_def less_Suc_eq split: if_splits)
  ultimately show ?case using Cons.IH[OF r] by auto
qed auto

lemma fresh_trackers_ok:
  assumes "\<forall>j < length ts. mtIndex (ts ! j) = j \<and> (isCombination (ts ! j) \<longrightarrow> \<not> mtInitialized (ts ! j) \<and>
           children_of (ts ! j) = [] \<and> mtAtomIds (ts ! j) = [])"
  shows "trackers_ok cfgs mp ts (replicate (length ts) False)"
proof -
  have simple: "\<not> isCombination (ts ! j)" if "j \<in> inits ts" for j using assms that by (auto simp: inits_def)
  have "ranked (\<lambda>_. 0) ts"
    using simple by (auto simp: ranked_def card_gt_0_iff children_of_simple)
  moreover have "combination_ok cfgs mp ts j" if "j \<in> inits ts" for j
    using simple[OF that] by (auto simp: combination_ok_def isCombination_def split: tracker_kind.splits)
  ultimately show ?thesis using assms by (auto simp: trackers_ok_def)
qed

lemma initAll_spec:
  assumes "trackers_ok cfgs mp ts stack" "stack = replicate (length ts) False" "children_fit mp (length ts)" "length ts < n"
    and "set is \<subseteq> {..<length ts}" "done \<subseteq> inits ts" "set tags = (\<Union>j \<in> done. set (mtAtomIds (ts ! j)))"
  shows "\<exists>r. initAll n cfgs mp is (ts, stack) tags = Some r \<and>
    (\<forall>ts' tags'. r = Some (ts', tags') \<longrightarrow> trackers_ok cfgs mp ts' stack \<and> length ts' = length ts \<and>
       done \<union> set is \<subseteq> inits ts' \<and> set tags' = (\<Union>j \<in> done \<union> set is. set (mtAtomIds (ts' ! j))))"
  using assms
proof (induction "is" arbitrary: ts tags "done")
  case (Cons i xs)
  have i: "i < length ts" "\<not> stack ! i" using Cons.prems by auto
  have "unstacked stack < n" using Cons.prems(2,4) by (simp add: unstacked_def)
  with init_works_all[of n cfgs mp] Cons.prems(1,3) i
  have "init_good cfgs mp i ts stack (tracker_init n cfgs mp i (ts, stack))" by (simp add: init_works_def)
  then obtain ts1 stack1 ok where r: "tracker_init n cfgs mp i (ts, stack) = Some ((ts1, stack1), ok)"
    and g: "ok \<Longrightarrow> stack1 = stack \<and> trackers_ok cfgs mp ts1 stack \<and> keeps stack ts ts1 \<and> mtInitialized (ts1 ! i)"
    by (auto simp: init_good_def)
  show ?case
  proof (cases ok)
    case True
    note g = g[OF True]
    have len: "length ts1 = length ts" and sub: "inits ts \<subseteq> inits ts1" using g keeps_inits by (auto simp: keeps_def)
    have i1: "insert i done \<subseteq> inits ts1" using g sub Cons.prems(6) i len by (auto simp: inits_def)
    have "mtAtomIds (ts1 ! j) = mtAtomIds (ts ! j)" if "j \<in> done" for j
      using that Cons.prems(6) g by (auto simp: keeps_def inits_def)
    then have "set (List.union tags (mtAtomIds (ts1 ! i))) = (\<Union>j \<in> insert i done. set (mtAtomIds (ts1 ! j)))"
      using Cons.prems(7) by auto
    from Cons.IH[of ts1 "insert i done", OF _ _ _ _ _ i1 this] g len Cons.prems r True show ?thesis by simp
  qed (use r in simp)
qed auto


section \<open>Evaluation with a cache\<close>

text \<open>What an event means to a matcher, with no cache and in no particular order: the tag must be one
  of the matcher's, then the simple test or the Boolean operation on the children. The first
  argument bounds the depth.\<close>

fun matcher_sem :: "nat \<Rightarrow> uid_env \<Rightarrow> matching_tracker list \<Rightarrow> log_event \<Rightarrow> nat \<Rightarrow> bool" where
  "matcher_sem 0 env ts ev i = False"
| "matcher_sem (Suc n) env ts ev i =
     (tagId ev \<in> set (mtAtomIds (ts ! i)) \<and>
      (case mtKind (ts ! i) of
         SimpleTracker m \<Rightarrow> matchesSimpleAtom env m ev
       | CombinationTracker op cs \<Rightarrow> bool_op op (map (matcher_sem n env ts ev) cs)))"

abbreviation event_matches :: "uid_env \<Rightarrow> matching_tracker list \<Rightarrow> log_event \<Rightarrow> nat \<Rightarrow> bool" where
  "event_matches env ts ev i \<equiv> matcher_sem (length ts) env ts ev i"

definition graph_ok :: "(nat \<Rightarrow> nat) \<Rightarrow> matching_tracker list \<Rightarrow> bool" where
  "graph_ok rank ts \<longleftrightarrow> (\<forall>i < length ts. mtIndex (ts ! i) = i \<and> rank i < length ts \<and>
     (\<forall>c \<in> set (children_of (ts ! i)). c < length ts \<and> rank c < rank i) \<and>
     (case mtKind (ts ! i) of CombinationTracker op cs \<Rightarrow> op = op_NOT \<longrightarrow> length cs = 1 | SimpleTracker _ \<Rightarrow> True))"

lemma trackers_ok_graph:
  assumes "trackers_ok cfgs mp ts stack" "{..<length ts} \<subseteq> inits ts"
  shows "\<exists>rank. graph_ok rank ts"
proof -
  obtain rank where r: "ranked rank ts" using assms(1) by (auto simp: trackers_ok_def)
  have "graph_ok rank ts"
    unfolding graph_ok_def
  proof (intro allI impI)
    fix i assume i: "i < length ts"
    then have ii: "i \<in> inits ts" using assms(2) by auto
    then have c: "combination_ok cfgs mp ts i" using assms(1) by (simp add: trackers_ok_def)
    have "rank i < length ts" using r ii card_inits[of ts] by (fastforce simp: ranked_def)
    moreover have "\<forall>c \<in> set (children_of (ts ! i)). c < length ts \<and> rank c < rank i"
      using c r ii by (auto simp: combination_ok_def children_of_def ranked_def inits_def subset_iff split: tracker_kind.splits)
    moreover have "mtIndex (ts ! i) = i" using assms(1) i by (simp add: trackers_ok_def)
    ultimately show "mtIndex (ts ! i) = i \<and> rank i < length ts \<and>
      (\<forall>c \<in> set (children_of (ts ! i)). c < length ts \<and> rank c < rank i) \<and>
      (case mtKind (ts ! i) of CombinationTracker op cs \<Rightarrow> op = op_NOT \<longrightarrow> length cs = 1 | SimpleTracker _ \<Rightarrow> True)"
      using c by (auto simp: combination_ok_def split: tracker_kind.splits)
  qed
  then show ?thesis by blast
qed

lemma matcher_sem_stable:
  "graph_ok rank ts \<Longrightarrow> i < length ts \<Longrightarrow> rank i < n \<Longrightarrow> rank i < m \<Longrightarrow>
   matcher_sem n env ts ev i = matcher_sem m env ts ev i"
proof (induction "rank i" arbitrary: i n m rule: less_induct)
  case less
  obtain n' m' where nm: "n = Suc n'" "m = Suc m'" using less.prems(3,4) by (metis not0_implies_Suc not_less0)
  have "matcher_sem n' env ts ev c = matcher_sem m' env ts ev c" if "c \<in> set (children_of (ts ! i))" for c
  proof -
    have "rank c < rank i" "c < length ts" using less.prems(1,2) that by (auto simp: graph_ok_def)
    then show ?thesis using less.hyps[of c n' m'] less.prems nm by simp
  qed
  then have "map (matcher_sem n' env ts ev) (children_of (ts ! i)) = map (matcher_sem m' env ts ev) (children_of (ts ! i))"
    by simp
  then show ?case
  proof (cases "mtKind (ts ! i)")
    case (CombinationTracker op cs)
    then have "map (matcher_sem n' env ts ev) cs = map (matcher_sem m' env ts ev) cs"
      using \<open>map _ (children_of _) = map _ _\<close> by (simp only: children_of_def tracker_kind.case)
    then show ?thesis by (simp only: nm matcher_sem.simps CombinationTracker tracker_kind.case)
  qed (simp add: nm)
qed

definition cache_ok :: "uid_env \<Rightarrow> matching_tracker list \<Rightarrow> log_event \<Rightarrow> matching_state list \<Rightarrow> bool" where
  "cache_ok env ts ev results \<longleftrightarrow> length results = length ts \<and>
     (\<forall>j < length ts. results ! j \<noteq> kNotComputed \<longrightarrow> results ! j = state_of_bool (event_matches env ts ev j))"

definition computed :: "matching_state list \<Rightarrow> nat set" where
  "computed results = {j. j < length results \<and> results ! j \<noteq> kNotComputed}"

definition eval_good where
  "eval_good env ts ev results goal r \<longleftrightarrow>
     (\<exists>results'. r = Some results' \<and> cache_ok env ts ev results' \<and> computed results \<union> goal \<subseteq> computed results')"

lemma state_of_bool_simps [simp]: "state_of_bool b \<noteq> kNotComputed" "(state_of_bool b = kMatched) = b" "(state_of_bool b = kNotMatched) = (\<not> b)"
  by (auto simp: state_of_bool_def)

lemma cache_ok_write:
  assumes "cache_ok env ts ev results" "i < length ts" "b = event_matches env ts ev i"
  shows "cache_ok env ts ev (results[i := state_of_bool b])"
    and "computed (results[i := state_of_bool b]) = insert i (computed results)"
  using assms by (auto simp: cache_ok_def computed_def nth_list_update)

lemma combinationMatch_sem:
  assumes "cache_ok env ts ev results" "set cs \<subseteq> computed results" "op = op_NOT \<longrightarrow> length cs = 1"
  shows "combinationMatch cs op results = bool_op op (map (event_matches env ts ev) cs)"
proof -
  have at: "results ! c = state_of_bool (event_matches env ts ev c)" if "c \<in> set cs" for c
    using assms(1,2) that by (auto simp: cache_ok_def computed_def)
  show ?thesis
  proof (cases op)
    case op_NOT
    then obtain c where "cs = [c]" using assms(3) by (auto simp: length_Suc_conv)
    then show ?thesis using op_NOT at by (simp add: combinationMatch_def)
  qed (auto simp: combinationMatch_def list_all_iff list_ex_iff at)
qed

lemma onLogEvent_works:
  assumes g: "graph_ok rank ts"
  shows "cache_ok env ts ev results \<Longrightarrow> i < length ts \<Longrightarrow> rank i < n \<Longrightarrow>
    eval_good env ts ev results {i} (tracker_onLogEvent n env ts ev i results)"
proof (induction n arbitrary: i results)
  case (Suc n)
  have kids: "eval_good env ts ev results (set cs) (eval_children n env ts ev cs results)"
    if "cache_ok env ts ev results" "\<forall>c \<in> set cs. c < length ts \<and> rank c < n" for cs results
    using that
  proof (induction cs arbitrary: results)
    case (Cons c cs)
    let ?r = "if results ! c = kNotComputed then tracker_onLogEvent n env ts ev c results else Some results"
    have "eval_good env ts ev results {c} ?r"
      using Suc.IH[of results c] Cons.prems by (auto simp: eval_good_def computed_def cache_ok_def)
    then obtain results1 where r1: "?r = Some results1" "cache_ok env ts ev results1" "computed results \<union> {c} \<subseteq> computed results1"
      by (auto simp: eval_good_def)
    from Cons.IH[OF r1(2)] Cons.prems(2) obtain results2 where "eval_children n env ts ev cs results1 = Some results2"
      "cache_ok env ts ev results2" "computed results1 \<union> set cs \<subseteq> computed results2" by (auto simp: eval_good_def)
    with r1 show ?case by (auto simp: eval_good_def)
  qed (simp add: eval_good_def)
  have idx: "mtIndex (ts ! i) = i" and fuel: "rank i < length ts" using g Suc.prems by (auto simp: graph_ok_def)
  have sem: "event_matches env ts ev i = matcher_sem (Suc (rank i)) env ts ev i"
    by (rule matcher_sem_stable[OF g Suc.prems(2) fuel]) simp
  show ?case
  proof (cases "results ! i \<noteq> kNotComputed \<or> tagId ev \<notin> set (mtAtomIds (ts ! i))")
    case True
    then show ?thesis
      using Suc.prems idx cache_ok_write[OF Suc.prems(1,2), of False] sem
      by (auto simp: eval_good_def computed_def cache_ok_def state_of_bool_def)
  next
    case False
    show ?thesis
    proof (cases "mtKind (ts ! i)")
      case (SimpleTracker m)
      then show ?thesis
        using False idx sem cache_ok_write[OF Suc.prems(1,2), of "matchesSimpleAtom env m ev"]
        by (auto simp: eval_good_def)
    next
      case (CombinationTracker op cs)
      have cs: "\<forall>c \<in> set cs. c < length ts \<and> rank c < rank i" "op = op_NOT \<longrightarrow> length cs = 1"
        using g Suc.prems(2) CombinationTracker by (auto simp: graph_ok_def children_of_def)
      then have "\<forall>c \<in> set cs. c < length ts \<and> rank c < n" using Suc.prems(3) by auto
      from kids[OF Suc.prems(1) this] obtain results1 where r1: "eval_children n env ts ev cs results = Some results1"
        "cache_ok env ts ev results1" "computed results \<union> set cs \<subseteq> computed results1" by (auto simp: eval_good_def)
      have "matcher_sem (rank i) env ts ev c = event_matches env ts ev c" if "c \<in> set cs" for c
        using cs(1) that fuel by (intro matcher_sem_stable[OF g]) auto
      then have "event_matches env ts ev i = bool_op op (map (event_matches env ts ev) cs)"
        using sem CombinationTracker False by (simp cong: map_cong)
      then have "combinationMatch cs op results1 = event_matches env ts ev i"
        using combinationMatch_sem[OF r1(2) _ cs(2)] r1(3) by simp
      then show ?thesis
        using cache_ok_write[OF r1(2) Suc.prems(2)] r1 False CombinationTracker idx by (auto simp: eval_good_def)
    qed
  qed
qed simp

lemma evalAll_works:
  assumes g: "graph_ok rank ts" and n: "length ts \<le> n"
  shows "cache_ok env ts ev results \<Longrightarrow> set is \<subseteq> {..<length ts} \<Longrightarrow>
    eval_good env ts ev results (set is) (evalAll n env ts ev is results)"
proof (induction "is" arbitrary: results)
  case (Cons i xs)
  have "rank i < n" using g n Cons.prems(2) by (auto simp: graph_ok_def intro: order.strict_trans2)
  with onLogEvent_works[OF g Cons.prems(1), of i n] Cons.prems(2) obtain results1 where
    "tracker_onLogEvent n env ts ev i results = Some results1" "cache_ok env ts ev results1"
    "computed results \<union> {i} \<subseteq> computed results1" by (auto simp: eval_good_def)
  with Cons.IH[of results1] Cons.prems(2) show ?case by (auto simp: eval_good_def)
qed (simp add: eval_good_def)


lemma init_result:
  assumes "length cfgs < n"
  shows "\<exists>r. initAtomMatchingTrackers n cfgs = Some r \<and>
    (\<forall>ts mp tags. r = Some (ts, mp, tags) \<longrightarrow>
       (\<exists>stack. trackers_ok cfgs mp ts stack) \<and> length ts = length cfgs \<and> {..<length ts} \<subseteq> inits ts \<and>
       set tags = (\<Union>t \<in> set ts. set (mtAtomIds t)))"
proof (cases "createTrackers cfgs 0 [] []")
  case None
  then show ?thesis by (simp add: initAtomMatchingTrackers_def)
next
  case (Some c)
  obtain ts mp where c: "c = (ts, mp)" by fastforce
  have fresh: "children_fit mp (length ts)" "length ts = length cfgs"
    "\<forall>j < length ts. mtIndex (ts ! j) = j \<and> (isCombination (ts ! j) \<longrightarrow> \<not> mtInitialized (ts ! j) \<and>
           children_of (ts ! j) = [] \<and> mtAtomIds (ts ! j) = [])"
    using createTrackers_fresh[of cfgs "[]" "[]" ts mp] Some c by (auto simp: children_fit_def)
  from initAll_spec[OF fresh_trackers_ok[OF fresh(3), of cfgs mp] refl fresh(1), of n "[0..<length ts]" "{}" "[]"] assms fresh(2)
  obtain r where r: "initAll n cfgs mp [0..<length ts] (ts, replicate (length ts) False) [] = Some r"
    and g: "\<forall>ts' tags'. r = Some (ts', tags') \<longrightarrow> trackers_ok cfgs mp ts' (replicate (length ts) False) \<and>
       length ts' = length ts \<and> {..<length ts} \<subseteq> inits ts' \<and> set tags' = (\<Union>j \<in> {..<length ts}. set (mtAtomIds (ts' ! j)))"
    by (auto simp: lessThan_atLeast0)
  have "set ts' = (\<lambda>j. ts' ! j) ` {..<length ts'}" for ts' :: "matching_tracker list" by (auto simp: set_conv_nth)
  with r g fresh(2) show ?thesis by (cases r) (auto simp: initAtomMatchingTrackers_def Some c)
qed

section \<open>Properties\<close>

text \<open>
  Property C30. Initialising the matchers of any config terminates, with no more nested calls than
  there are matchers, even when the config has reference cycles; and when it succeeds the matcher
  graph has no cycle: every combination's children are the config's, in order, in range and of
  smaller rank, and the tag ids collected are those of all the matchers.
\<close>

theorem initAtomMatchingTrackers_acyclic:
  assumes "length cfgs < fuel"
  shows "initAtomMatchingTrackers fuel cfgs \<noteq> None \<and>
    (\<forall>ts mp tags. initAtomMatchingTrackers fuel cfgs = Some (Some (ts, mp, tags)) \<longrightarrow>
       length ts = length cfgs \<and> set tags = (\<Union>t \<in> set ts. set (mtAtomIds t)) \<and>
       (\<exists>rank :: nat \<Rightarrow> nat. \<forall>i < length ts. mtInitialized (ts ! i) \<and>
          (\<forall>c \<in> set (children_of (ts ! i)). c < length ts \<and> rank c < rank i) \<and>
          (\<forall>op cs. mtKind (ts ! i) = CombinationTracker op cs \<longrightarrow>
             (\<exists>kids. combinationOf (cfgs ! i) = (Some op, kids) \<and> map (map_of mp) kids = map Some cs))))"
proof -
  obtain r where r: "initAtomMatchingTrackers fuel cfgs = Some r" and
    g: "\<And>ts mp tags. r = Some (ts, mp, tags) \<Longrightarrow> (\<exists>stack. trackers_ok cfgs mp ts stack) \<and> length ts = length cfgs \<and>
       {..<length ts} \<subseteq> inits ts \<and> set tags = (\<Union>t \<in> set ts. set (mtAtomIds t))"
    using init_result[OF assms] by blast
  have "\<exists>rank :: nat \<Rightarrow> nat. \<forall>i < length ts. mtInitialized (ts ! i) \<and>
          (\<forall>c \<in> set (children_of (ts ! i)). c < length ts \<and> rank c < rank i) \<and>
          (\<forall>op cs. mtKind (ts ! i) = CombinationTracker op cs \<longrightarrow>
             (\<exists>kids. combinationOf (cfgs ! i) = (Some op, kids) \<and> map (map_of mp) kids = map Some cs))"
    if ok: "trackers_ok cfgs mp ts stack" "{..<length ts} \<subseteq> inits ts" for ts mp stack
  proof -
    obtain rank where rank: "graph_ok rank ts" using trackers_ok_graph[OF ok] by blast
    have "combination_ok cfgs mp ts i" if "i < length ts" for i using ok that by (auto simp: trackers_ok_def)
    then have "\<exists>kids. combinationOf (cfgs ! i) = (Some op, kids) \<and> map (map_of mp) kids = map Some cs"
      if "i < length ts" "mtKind (ts ! i) = CombinationTracker op cs" for i op cs
      using that by (fastforce simp: combination_ok_def)
    moreover have "mtInitialized (ts ! i)" if "i < length ts" for i using ok(2) that by (auto simp: inits_def)
    moreover have "\<forall>c \<in> set (children_of (ts ! i)). c < length ts \<and> rank c < rank i" if "i < length ts" for i
      using rank that by (auto simp: graph_ok_def)
    ultimately show ?thesis by (intro exI[of _ rank]) blast
  qed
  note graph = this
  show ?thesis
  proof (intro conjI allI impI)
    fix ts mp tags
    assume "initAtomMatchingTrackers fuel cfgs = Some (Some (ts, mp, tags))"
    then have ok: "(\<exists>stack. trackers_ok cfgs mp ts stack) \<and> length ts = length cfgs \<and>
       {..<length ts} \<subseteq> inits ts \<and> set tags = (\<Union>t \<in> set ts. set (mtAtomIds t))" using r g[of ts mp tags] by auto
    then show "length ts = length cfgs" "set tags = (\<Union>t \<in> set ts. set (mtAtomIds t))" by simp_all
    from ok obtain stack where "trackers_ok cfgs mp ts stack" "{..<length ts} \<subseteq> inits ts" by blast
    then show "\<exists>rank :: nat \<Rightarrow> nat. \<forall>i < length ts. mtInitialized (ts ! i) \<and>
          (\<forall>c \<in> set (children_of (ts ! i)). c < length ts \<and> rank c < rank i) \<and>
          (\<forall>op cs. mtKind (ts ! i) = CombinationTracker op cs \<longrightarrow>
             (\<exists>kids. combinationOf (cfgs ! i) = (Some op, kids) \<and> map (map_of mp) kids = map Some cs))"
      by (rule graph)
  qed (simp add: r)
qed

definition example_matchers :: "atom_matcher list" where
  "example_matchers =
     [\<lparr>am_id = 7, am_contents = kCombination (Some op_NOT) [8]\<rparr>,
      \<lparr>am_id = 8, am_contents = kSimpleAtomMatcher \<lparr>atom_id = Some 10, field_value_matchers = []\<rparr>\<rparr>]"

theorem initAtomMatchingTrackers_acyclic_witness:
  "initAtomMatchingTrackers 3 example_matchers \<noteq> None \<and>
   initAtomMatchingTrackers 2 [\<lparr>am_id = 7, am_contents = kCombination (Some op_NOT) [7]\<rparr>] = Some None"
  using initAtomMatchingTrackers_acyclic[of example_matchers 3]
  by (simp add: example_matchers_def initAtomMatchingTrackers_def createAtomMatchingTracker_def numeral_2_eq_2
      newCombinationAtomMatchingTracker_def combinationOf_def setOperation_def upt_rec)

text \<open>
  Property C29. Evaluating an event over an initialised config always returns, and gives every
  matcher the state that its Boolean formula has on the event, whatever results were cached on the
  way: the cache and the evaluation order never change a result.
\<close>

theorem evaluateAtomMatchers_semantics:
  assumes "initAtomMatchingTrackers fuel cfgs = Some (Some (ts, mp, tags))" and "length cfgs < fuel" and "length ts \<le> n"
  shows "evaluateAtomMatchers n env ts ev = Some (map (\<lambda>i. state_of_bool (event_matches env ts ev i)) [0..<length ts])"
proof -
  obtain stack where "trackers_ok cfgs mp ts stack" "{..<length ts} \<subseteq> inits ts"
    using init_result[OF assms(2)] assms(1) by auto
  then obtain rank where g: "graph_ok rank ts" using trackers_ok_graph by blast
  have "cache_ok env ts ev (replicate (length ts) kNotComputed)" by (simp add: cache_ok_def)
  from evalAll_works[OF g assms(3) this, of "[0..<length ts]"] obtain results where
    r: "evaluateAtomMatchers n env ts ev = Some results" "cache_ok env ts ev results" "{..<length ts} \<subseteq> computed results"
    by (auto simp: eval_good_def evaluateAtomMatchers_def lessThan_atLeast0)
  then have "results = map (\<lambda>i. state_of_bool (event_matches env ts ev i)) [0..<length ts]"
    by (intro nth_equalityI) (auto simp: cache_ok_def computed_def subset_iff)
  with r show ?thesis by simp
qed

theorem evaluateAtomMatchers_semantics_witness:
  "\<exists>ts mp tags. initAtomMatchingTrackers 3 example_matchers = Some (Some (ts, mp, tags)) \<and>
     evaluateAtomMatchers 2 \<lparr>sAidToUidMapping = [], getAppNamesFromUid = (\<lambda>u. [])\<rparr> ts \<lparr>tagId = 10, event_values = []\<rparr> =
       Some (map (\<lambda>i. state_of_bool (event_matches \<lparr>sAidToUidMapping = [], getAppNamesFromUid = (\<lambda>u. [])\<rparr> ts
         \<lparr>tagId = 10, event_values = []\<rparr> i)) [0..<2])"
proof -
  have "\<exists>ts mp tags. initAtomMatchingTrackers 3 example_matchers = Some (Some (ts, mp, tags)) \<and> length ts = 2"
    by (simp add: example_matchers_def initAtomMatchingTrackers_def createAtomMatchingTracker_def numeral_2_eq_2 numeral_3_eq_3
      newCombinationAtomMatchingTracker_def newSimpleAtomMatchingTracker_def combinationOf_def setOperation_def upt_rec addChild_def)
  then obtain ts mp tags where e: "initAtomMatchingTrackers 3 example_matchers = Some (Some (ts, mp, tags))" "length ts = 2" by blast
  from evaluateAtomMatchers_semantics[OF e(1), of 2] e show ?thesis by (simp add: example_matchers_def)
qed

end
