(* ===== verification/AnomalyTracker.thy ===== *)
theory AnomalyTracker
  imports Complex_Main StatsdPrelude
begin

text \<open>
  \<^verbatim>\<open>bin/src/anomaly/AnomalyTracker.h\<close> and \<^verbatim>\<open>.cpp\<close>: the ring of past buckets with its cached sum, the
  detection of a threshold crossing and the refractory period. Keys are polymorphic: the tracker
  only compares them. A null \<^verbatim>\<open>shared_ptr\<close> to a bucket is \<open>None\<close>. Informing subscribers, the
  statistics counter and the statsd atom are recorded in \<open>effects\<close>.

  \<^verbatim>\<open>trigger_if_sum_gt\<close> is a double of the configuration; it is a rational here, and the integer it
  is compared with is first rounded to 53 significant bits as the C++ conversion does.
  Time stamps are non-negative, where the unsigned division by \<^verbatim>\<open>NS_PER_SEC\<close> is \<open>div\<close>.
\<close>

section \<open>Definitions\<close>

record alert =
  alert_id :: int
  metric_id :: int
  num_buckets :: int
  refractory_period_secs :: "int option"
  trigger_if_sum_gt :: "rat option"

type_synonym 'k bucket = "('k, int) umap option"

datatype 'k anomaly_effect =
    InformSubscribers int int 'k int
  | NoteAnomalyDeclared int
  | WriteAnomalyDetected int

record 'k anomaly_tracker =
  mAlert :: alert
  mSubscriptions :: "int list"
  mNumOfPastBuckets :: int
  mPastBuckets :: "'k bucket list"
  mSumOverPastBuckets :: "('k, int) umap"
  mMostRecentBucketNum :: int
  mRefractoryPeriodEndsSec :: "('k, u32) umap"
  effects :: "'k anomaly_effect list"

definition resetStorage :: "'k anomaly_tracker \<Rightarrow> 'k anomaly_tracker" where
  "resetStorage t =
     t\<lparr>mPastBuckets := replicate (nat (mNumOfPastBuckets t)) None, mSumOverPastBuckets := []\<rparr>"

definition newAnomalyTracker :: "alert \<Rightarrow> 'k anomaly_tracker" where
  "newAnomalyTracker a = resetStorage
     \<lparr>mAlert = a, mSubscriptions = [], mNumOfPastBuckets = num_buckets a - 1, mPastBuckets = [],
      mSumOverPastBuckets = [], mMostRecentBucketNum = -1, mRefractoryPeriodEndsSec = [], effects = []\<rparr>"

definition tracker_onConfigUpdated :: "'k anomaly_tracker \<Rightarrow> 'k anomaly_tracker" where
  "tracker_onConfigUpdated t = t\<lparr>mSubscriptions := []\<rparr>"

definition addSubscription :: "int \<Rightarrow> 'k anomaly_tracker \<Rightarrow> 'k anomaly_tracker" where
  "addSubscription s t = t\<lparr>mSubscriptions := mSubscriptions t @ [s]\<rparr>"

text \<open>Called with non-negative bucket numbers only.\<close>

definition index :: "'k anomaly_tracker \<Rightarrow> int \<Rightarrow> nat" where
  "index t bucketNum = nat (bucketNum mod mNumOfPastBuckets t)"

definition subtractValueFromSum :: "'k \<Rightarrow> int \<Rightarrow> ('k, int) umap \<Rightarrow> ('k, int) umap" where
  "subtractValueFromSum key v acc =
     (case map_of acc key of
        None \<Rightarrow> acc
      | Some s \<Rightarrow> if s - v = 0 then AList.delete key acc else AList.update key (s - v) acc)"

definition subtractBucketFromSum :: "'k bucket \<Rightarrow> ('k, int) umap \<Rightarrow> ('k, int) umap" where
  "subtractBucketFromSum b acc =
     (case b of None \<Rightarrow> acc | Some m \<Rightarrow> foldl (\<lambda>s (k, v). subtractValueFromSum k v s) acc m)"

text \<open>\<^verbatim>\<open>map[key] += v\<close>: an absent entry starts at 0.\<close>

definition addValue :: "'k \<Rightarrow> int \<Rightarrow> ('k, int) umap \<Rightarrow> ('k, int) umap" where
  "addValue k v m = AList.update k (case map_of m k of None \<Rightarrow> v | Some s \<Rightarrow> s + v) m"

definition addBucketToSum :: "'k bucket \<Rightarrow> ('k, int) umap \<Rightarrow> ('k, int) umap" where
  "addBucketToSum b acc =
     (case b of None \<Rightarrow> acc | Some m \<Rightarrow> foldl (\<lambda>s (k, v). addValue k v s) acc m)"

text \<open>One iteration of the clearing loop.\<close>

definition releaseBucket :: "'k anomaly_tracker \<Rightarrow> int \<Rightarrow> 'k anomaly_tracker" where
  "releaseBucket t i =
     (let idx = index t i
      in t\<lparr>mPastBuckets := (mPastBuckets t)[idx := None],
           mSumOverPastBuckets := subtractBucketFromSum (mPastBuckets t ! idx) (mSumOverPastBuckets t)\<rparr>)"

definition advanceMostRecentBucketTo :: "int \<Rightarrow> 'k anomaly_tracker \<Rightarrow> 'k anomaly_tracker" where
  "advanceMostRecentBucketTo bucketNum t =
     (if mNumOfPastBuckets t \<le> 0 then t
      else if bucketNum \<le> mMostRecentBucketNum t then t
      else if bucketNum \<ge> mMostRecentBucketNum t + mNumOfPastBuckets t
           then (resetStorage t)\<lparr>mMostRecentBucketNum := bucketNum\<rparr>
      else (foldl releaseBucket t [mMostRecentBucketNum t + 1..bucketNum])\<lparr>mMostRecentBucketNum := bucketNum\<rparr>)"

definition addPastBucket :: "'k bucket \<Rightarrow> int \<Rightarrow> 'k anomaly_tracker \<Rightarrow> 'k anomaly_tracker" where
  "addPastBucket b bucketNum t =
     (if mNumOfPastBuckets t = 0 \<or> bucketNum < 0 \<or>
         bucketNum \<le> mMostRecentBucketNum t - mNumOfPastBuckets t then t
      else let t' = (if bucketNum \<le> mMostRecentBucketNum t
                     then t\<lparr>mSumOverPastBuckets :=
                            subtractBucketFromSum (mPastBuckets t ! index t bucketNum) (mSumOverPastBuckets t)\<rparr>
                     else advanceMostRecentBucketTo bucketNum t)
           in t'\<lparr>mPastBuckets := (mPastBuckets t')[index t' bucketNum := b],
                 mSumOverPastBuckets := addBucketToSum b (mSumOverPastBuckets t')\<rparr>)"

definition addPastBucketValue :: "'k \<Rightarrow> int \<Rightarrow> int \<Rightarrow> 'k anomaly_tracker \<Rightarrow> 'k anomaly_tracker" where
  "addPastBucketValue key bucketValue bucketNum t =
     (if mNumOfPastBuckets t = 0 \<or> bucketNum < 0 \<or>
         bucketNum \<le> mMostRecentBucketNum t - mNumOfPastBuckets t then t
      else let bucketIndex = index t bucketNum
           in case (if bucketNum \<le> mMostRecentBucketNum t then mPastBuckets t ! bucketIndex else None) of
                Some b \<Rightarrow>
                  (let acc = (case map_of b key of
                                 Some old \<Rightarrow> subtractValueFromSum key old (mSumOverPastBuckets t)
                               | None \<Rightarrow> mSumOverPastBuckets t)
                   in t\<lparr>mPastBuckets := (mPastBuckets t)[bucketIndex := Some (AList.update key bucketValue b)],
                        mSumOverPastBuckets := addValue key bucketValue acc\<rparr>)
              | None \<Rightarrow> addPastBucket (Some [(key, bucketValue)]) bucketNum t)"

definition valueIn :: "'k bucket \<Rightarrow> 'k \<Rightarrow> int" where
  "valueIn b key = (case b of None \<Rightarrow> 0 | Some m \<Rightarrow> (case map_of m key of None \<Rightarrow> 0 | Some v \<Rightarrow> v))"

definition getPastBucketValue :: "'k anomaly_tracker \<Rightarrow> 'k \<Rightarrow> int \<Rightarrow> int" where
  "getPastBucketValue t key bucketNum =
     (if bucketNum < 0 \<or> mMostRecentBucketNum t < 0 \<or>
         bucketNum \<le> mMostRecentBucketNum t - mNumOfPastBuckets t \<or>
         bucketNum > mMostRecentBucketNum t then 0
      else valueIn (mPastBuckets t ! index t bucketNum) key)"

definition getSumOverPastBuckets :: "'k anomaly_tracker \<Rightarrow> 'k \<Rightarrow> int" where
  "getSumOverPastBuckets t key =
     (case map_of (mSumOverPastBuckets t) key of Some s \<Rightarrow> s | None \<Rightarrow> 0)"

text \<open>Conversion of a 64 bit integer to double: 53 significant bits, round half to even.\<close>

fun bit_len :: "nat \<Rightarrow> nat" where
  "bit_len n = (if n = 0 then 0 else Suc (bit_len (n div 2)))"

declare bit_len.simps [simp del]

definition int_to_double :: "int \<Rightarrow> int" where
  "int_to_double n =
     (if \<bar>n\<bar> \<le> 2 ^ 53 then n
      else let u = 2 ^ (bit_len (nat \<bar>n\<bar>) - 53); q = \<bar>n\<bar> div u; r = \<bar>n\<bar> mod u
           in sgn n * u * (if 2 * r > u \<or> (2 * r = u \<and> odd q) then q + 1 else q))"

definition detectAnomaly :: "int \<Rightarrow> 'k \<Rightarrow> int \<Rightarrow> 'k anomaly_tracker \<Rightarrow> 'k anomaly_tracker \<times> bool" where
  "detectAnomaly currentBucketNum key currentBucketValue t =
     (let t' = (if currentBucketNum > mMostRecentBucketNum t + 1
                then advanceMostRecentBucketTo (currentBucketNum - 1) t else t)
      in (t', case trigger_if_sum_gt (mAlert t') of
                None \<Rightarrow> False
              | Some limit \<Rightarrow>
                  rat_of_int (int_to_double (getSumOverPastBuckets t' key + currentBucketValue)) > limit))"

definition isInRefractoryPeriod :: "int \<Rightarrow> 'k \<Rightarrow> 'k anomaly_tracker \<Rightarrow> bool" where
  "isInRefractoryPeriod timestampNs key t =
     (case map_of (mRefractoryPeriodEndsSec t) key of
        Some e \<Rightarrow> timestampNs < uint e * NS_PER_SEC
      | None \<Rightarrow> False)"

definition getRefractoryPeriodEndsSec :: "'k \<Rightarrow> 'k anomaly_tracker \<Rightarrow> u32" where
  "getRefractoryPeriodEndsSec key t =
     (case map_of (mRefractoryPeriodEndsSec t) key of Some e \<Rightarrow> e | None \<Rightarrow> 0)"

definition declareAnomaly :: "int \<Rightarrow> int \<Rightarrow> 'k \<Rightarrow> int \<Rightarrow> 'k anomaly_tracker \<Rightarrow> 'k anomaly_tracker" where
  "declareAnomaly timestampNs metricId key metricValue t =
     (if isInRefractoryPeriod timestampNs key t then t
      else let ends = (case refractory_period_secs (mAlert t) of
                         None \<Rightarrow> mRefractoryPeriodEndsSec t
                       | Some secs \<Rightarrow>
                           AList.update key
                             (word_of_int ((timestampNs + NS_PER_SEC - 1) div NS_PER_SEC + secs))
                             (mRefractoryPeriodEndsSec t));
               informed = (if mSubscriptions t \<noteq> []
                           then [InformSubscribers (alert_id (mAlert t)) metricId key metricValue] else [])
           in t\<lparr>mRefractoryPeriodEndsSec := ends,
                effects := effects t @ informed @
                  [NoteAnomalyDeclared (alert_id (mAlert t)), WriteAnomalyDetected (alert_id (mAlert t))]\<rparr>)"

definition detectAndDeclareAnomaly ::
  "int \<Rightarrow> int \<Rightarrow> int \<Rightarrow> 'k \<Rightarrow> int \<Rightarrow> 'k anomaly_tracker \<Rightarrow> 'k anomaly_tracker" where
  "detectAndDeclareAnomaly timestampNs currBucketNum metricId key currentBucketValue t =
     (let (t', hit) = detectAnomaly currBucketNum key currentBucketValue t
      in if hit then declareAnomaly timestampNs metricId key currentBucketValue t' else t')"

text \<open>Persisting refractory periods in wall clock time. The key codec is an argument; the proto's
  \<^verbatim>\<open>last_refractory_ends_sec\<close> is an \<^verbatim>\<open>int32\<close>.\<close>

definition writeAlertMetadataToProto ::
  "('k \<Rightarrow> 'p) \<Rightarrow> int \<Rightarrow> int \<Rightarrow> 'k anomaly_tracker \<Rightarrow> (i32 \<times> 'p) list" where
  "writeAlertMetadataToProto enc currentWallClockTimeNs systemElapsedTimeNs t =
     map (\<lambda>(k, e). (word_of_int (currentWallClockTimeNs div NS_PER_SEC +
                                 (uint e - systemElapsedTimeNs div NS_PER_SEC)), enc k))
       (filter (\<lambda>(k, e). \<not> uint e < systemElapsedTimeNs div NS_PER_SEC) (mRefractoryPeriodEndsSec t))"

text \<open>The comparison with the wall clock is on the sign-extended \<^verbatim>\<open>uint64_t\<close>.\<close>

definition loadAlertMetadata ::
  "('p \<Rightarrow> 'k) \<Rightarrow> (i32 \<times> 'p) list \<Rightarrow> int \<Rightarrow> int \<Rightarrow> 'k anomaly_tracker \<Rightarrow> 'k anomaly_tracker" where
  "loadAlertMetadata dec kd currentWallClockTimeNs systemElapsedTimeNs t =
     foldl (\<lambda>t (e, p).
        if sint e mod 2 ^ 64 < currentWallClockTimeNs div NS_PER_SEC then t
        else t\<lparr>mRefractoryPeriodEndsSec := AList.update (dec p)
                 (word_of_int (sint e - currentWallClockTimeNs div NS_PER_SEC + systemElapsedTimeNs div NS_PER_SEC))
                 (mRefractoryPeriodEndsSec t)\<rparr>) t kd"


section \<open>The cached sum\<close>

definition sumIn :: "('k, int) umap \<Rightarrow> 'k \<Rightarrow> int" where
  "sumIn s k = (case map_of s k of Some v \<Rightarrow> v | None \<Rightarrow> 0)"

definition bucket_ok :: "'k bucket \<Rightarrow> bool" where
  "bucket_ok b = (case b of None \<Rightarrow> True | Some m \<Rightarrow> umap_ok m \<and> (\<forall>(k, v) \<in> set m. 0 \<le> v))"

lemma sumIn_subtractValue:
  "map_of s k = None \<longrightarrow> v = 0 \<Longrightarrow>
   sumIn (subtractValueFromSum k v s) k' = sumIn s k' - (if k' = k then v else 0)"
  by (auto simp: sumIn_def subtractValueFromSum_def split: option.splits)

lemma map_of_subtractValue_other:
  "k' \<noteq> k \<Longrightarrow> map_of (subtractValueFromSum k v s) k' = map_of s k'"
  by (simp add: subtractValueFromSum_def split: option.splits)

lemma sumIn_addValue: "sumIn (addValue k v s) k' = sumIn s k' + (if k' = k then v else 0)"
  by (simp add: sumIn_def addValue_def split: option.splits)

lemma sumIn_subtractBucket:
  assumes "bucket_ok b" and "\<And>k. map_of s k = None \<Longrightarrow> valueIn b k = 0"
  shows "sumIn (subtractBucketFromSum b s) k = sumIn s k - valueIn b k"
proof (cases b)
  case (Some m)
  have "sumIn (foldl (\<lambda>s (k, v). subtractValueFromSum k v s) s m) k = sumIn s k - valueIn (Some m) k"
    if "umap_ok m" "\<And>k. map_of s k = None \<Longrightarrow> valueIn (Some m) k = 0" for s m
    using that
  proof (induction m arbitrary: s)
    case (Cons kv m)
    obtain k1 v1 where kv: "kv = (k1, v1)" by fastforce
    have ok: "umap_ok m" and fresh: "map_of m k1 = None"
      using Cons.prems(1) kv by (auto simp: umap_ok_def map_of_eq_None_iff)
    have "map_of (subtractValueFromSum k1 v1 s) k = None \<Longrightarrow> valueIn (Some m) k = 0" for k
      using Cons.prems(2)[of k] fresh map_of_subtractValue_other[of k k1 v1 s] kv
      by (cases "k = k1") (auto simp: valueIn_def)
    from Cons.IH[OF ok this] have "sumIn (foldl (\<lambda>s (k, v). subtractValueFromSum k v s) s (kv # m)) k =
        sumIn (subtractValueFromSum k1 v1 s) k - valueIn (Some m) k" by (simp add: kv)
    moreover have "map_of s k1 = None \<longrightarrow> v1 = 0" using Cons.prems(2)[of k1] kv by (simp add: valueIn_def)
    ultimately show ?case
      using fresh by (auto simp: sumIn_subtractValue kv valueIn_def)
  qed (simp add: valueIn_def)
  with assms Some show ?thesis by (simp add: bucket_ok_def subtractBucketFromSum_def)
qed (simp add: subtractBucketFromSum_def valueIn_def)

lemma sumIn_addBucket:
  assumes "bucket_ok b"
  shows "sumIn (addBucketToSum b s) k = sumIn s k + valueIn b k"
proof (cases b)
  case (Some m)
  have "sumIn (foldl (\<lambda>s (k, v). addValue k v s) s m) k = sumIn s k + valueIn (Some m) k"
    if "umap_ok m" for s m
    using that
  proof (induction m arbitrary: s)
    case (Cons kv m)
    obtain k1 v1 where kv: "kv = (k1, v1)" by fastforce
    have ok: "umap_ok m" and fresh: "map_of m k1 = None"
      using Cons.prems(1) kv by (auto simp: umap_ok_def map_of_eq_None_iff)
    from Cons.IH[OF ok, of "addValue k1 v1 s"] fresh show ?case
      by (auto simp: kv sumIn_addValue valueIn_def)
  qed (simp add: valueIn_def)
  with assms Some show ?thesis by (simp add: bucket_ok_def addBucketToSum_def)
qed (simp add: addBucketToSum_def valueIn_def)

lemma valueIn_None [simp]: "valueIn None k = 0"
  by (simp add: valueIn_def)

lemma valueIn_nonneg: "bucket_ok b \<Longrightarrow> 0 \<le> valueIn b k"
  by (fastforce simp: bucket_ok_def valueIn_def split: option.splits dest: map_of_SomeD)

text \<open>The slots hold well-formed buckets of non-negative values, a slot whose bucket number has not
  come up yet is empty, and the cached sum of every key is the sum over the slots.\<close>

definition slot_sum :: "'k anomaly_tracker \<Rightarrow> 'k \<Rightarrow> int" where
  "slot_sum t k = sum_list (map (\<lambda>b. valueIn b k) (mPastBuckets t))"

definition tracker_shape :: "'k anomaly_tracker \<Rightarrow> bool" where
  "tracker_shape t \<longleftrightarrow> 0 \<le> mNumOfPastBuckets t \<and> int (length (mPastBuckets t)) = mNumOfPastBuckets t \<and>
     -1 \<le> mMostRecentBucketNum t \<and> (\<forall>b \<in> set (mPastBuckets t). bucket_ok b) \<and>
     (\<forall>i < length (mPastBuckets t). mMostRecentBucketNum t < int i \<longrightarrow> mPastBuckets t ! i = None)"

definition tracker_ok :: "'k anomaly_tracker \<Rightarrow> bool" where
  "tracker_ok t \<longleftrightarrow> tracker_shape t \<and> (\<forall>k. sumIn (mSumOverPastBuckets t) k = slot_sum t k)"

lemma index_less: "tracker_shape t \<Longrightarrow> 0 < mNumOfPastBuckets t \<Longrightarrow> index t b < length (mPastBuckets t)"
  by (simp add: tracker_shape_def index_def) (metis nat_int pos_mod_bound nat_less_iff pos_mod_sign)

lemma slot_le_sum:
  assumes "tracker_shape t" "i < length (mPastBuckets t)"
  shows "valueIn (mPastBuckets t ! i) k \<le> slot_sum t k"
proof -
  let ?vs = "map (\<lambda>b. valueIn b k) (mPastBuckets t)"
  have "\<forall>v \<in> set ?vs. 0 \<le> v" using assms by (auto simp: tracker_shape_def intro: valueIn_nonneg)
  then have "?vs ! i \<le> sum_list ?vs"
    using assms(2) by (intro nth_le_sum_list_int) auto
  then show ?thesis using assms(2) by (simp add: slot_sum_def)
qed

text \<open>The subtraction in the cached sum never misses: a key with no entry has only zeros.\<close>

lemma absent_sum_zero:
  assumes "tracker_ok t" "i < length (mPastBuckets t)" "map_of (mSumOverPastBuckets t) k = None"
  shows "valueIn (mPastBuckets t ! i) k = 0"
proof -
  have "slot_sum t k = 0" using assms(1,3) unfolding tracker_ok_def sumIn_def by (metis option.simps(4))
  moreover have "bucket_ok (mPastBuckets t ! i)" using assms by (simp add: tracker_ok_def tracker_shape_def)
  ultimately show ?thesis
    using slot_le_sum[of t i k] valueIn_nonneg[of "mPastBuckets t ! i" k] assms
    by (simp add: tracker_ok_def)
qed


section \<open>The ring buffer\<close>

lemma slot_sum_update:
  "i < length (mPastBuckets t) \<Longrightarrow>
   slot_sum (t\<lparr>mPastBuckets := (mPastBuckets t)[i := b]\<rparr>) k = slot_sum t k - valueIn (mPastBuckets t ! i) k + valueIn b k"
  by (simp add: slot_sum_def sum_list_map_update_int)

lemma slot_sum_cong: "mPastBuckets t = mPastBuckets u \<Longrightarrow> slot_sum t k = slot_sum u k"
  by (simp add: slot_sum_def)

lemma index_eq_iff:
  assumes "0 < mNumOfPastBuckets t" "a - mNumOfPastBuckets t < b" "b < a + mNumOfPastBuckets t"
  shows "index t a = index t b \<longleftrightarrow> a = b"
  using assms mod_eq_close[OF assms(1) _ assms(2,3)] by (auto simp: index_def eq_nat_nat_iff)

lemma tracker_ok_subtract:
  assumes "tracker_ok t" "i < length (mPastBuckets t)"
  shows "sumIn (subtractBucketFromSum (mPastBuckets t ! i) (mSumOverPastBuckets t)) k =
    slot_sum t k - valueIn (mPastBuckets t ! i) k"
  using assms absent_sum_zero[OF assms]
  by (subst sumIn_subtractBucket) (auto simp: tracker_ok_def tracker_shape_def)

text \<open>Replacing one slot, with the cached sum adjusted, keeps the invariant.\<close>

lemma tracker_ok_set_slot:
  assumes ok: "tracker_ok t" and i: "i < length (mPastBuckets t)" "int i \<le> mMostRecentBucketNum t \<or> b = None"
    and b: "bucket_ok b"
    and s: "\<And>k. sumIn s k = slot_sum t k - valueIn (mPastBuckets t ! i) k + valueIn b k"
  shows "tracker_ok (t\<lparr>mPastBuckets := (mPastBuckets t)[i := b], mSumOverPastBuckets := s\<rparr>)"
proof -
  have "\<forall>x \<in> set ((mPastBuckets t)[i := b]). bucket_ok x"
    using ok b set_update_subset_insert[of "mPastBuckets t" i b] by (auto simp: tracker_ok_def tracker_shape_def)
  then show ?thesis
    using ok i s slot_sum_update[OF i(1), of b]
    by (auto simp: tracker_ok_def tracker_shape_def nth_list_update slot_sum_def)
qed

lemma releaseBucket_frame [frame_simps, simp]:
  "mNumOfPastBuckets (releaseBucket t i) = mNumOfPastBuckets t"
  "mMostRecentBucketNum (releaseBucket t i) = mMostRecentBucketNum t"
  "length (mPastBuckets (releaseBucket t i)) = length (mPastBuckets t)"
  "mAlert (releaseBucket t i) = mAlert t"
  by (simp_all add: releaseBucket_def Let_def)

lemma releaseBucket_ok:
  "tracker_ok t \<Longrightarrow> 0 < mNumOfPastBuckets t \<Longrightarrow> tracker_ok (releaseBucket t i)"
  unfolding releaseBucket_def Let_def
  by (rule tracker_ok_set_slot)
     (simp_all add: tracker_ok_subtract index_less tracker_ok_def[of t] bucket_ok_def)

lemma releaseBuckets:
  assumes "tracker_ok t" "0 < mNumOfPastBuckets t"
  shows "tracker_ok (foldl releaseBucket t is) \<and>
    mNumOfPastBuckets (foldl releaseBucket t is) = mNumOfPastBuckets t \<and>
    mMostRecentBucketNum (foldl releaseBucket t is) = mMostRecentBucketNum t \<and>
    mAlert (foldl releaseBucket t is) = mAlert t \<and>
    (\<forall>j < length (mPastBuckets t). mPastBuckets (foldl releaseBucket t is) ! j =
       (if j \<in> index t ` set is then None else mPastBuckets t ! j))"
  using assms
proof (induction "is" arbitrary: t)
  case (Cons i xs)
  have "index (releaseBucket t i) = index t" by (simp add: index_def fun_eq_iff)
  moreover have "mPastBuckets (releaseBucket t i) ! j = (if j = index t i then None else mPastBuckets t ! j)"
    if "j < length (mPastBuckets t)" for j
    using that by (simp add: releaseBucket_def Let_def nth_list_update)
  ultimately show ?case
    using Cons.IH[OF releaseBucket_ok[OF Cons.prems]] Cons.prems by auto
qed simp

lemma resetStorage_ok: "tracker_shape t \<Longrightarrow> -1 \<le> n \<Longrightarrow> tracker_ok ((resetStorage t)\<lparr>mMostRecentBucketNum := n\<rparr>)"
  by (auto simp: tracker_ok_def tracker_shape_def resetStorage_def bucket_ok_def sumIn_def slot_sum_def
      sum_list_replicate)

lemma advance_ok:
  assumes ok: "tracker_ok t"
  shows "tracker_ok (advanceMostRecentBucketTo n t)"
proof -
  have "tracker_ok ((foldl releaseBucket t is)\<lparr>mMostRecentBucketNum := n\<rparr>)"
    if "0 < mNumOfPastBuckets t" "mMostRecentBucketNum t < n" for "is"
    using releaseBuckets[OF ok that(1), of "is"] that ok
    by (auto simp: tracker_ok_def tracker_shape_def slot_sum_def)
  then show ?thesis
    using ok resetStorage_ok[of t n]
    by (auto simp: advanceMostRecentBucketTo_def tracker_ok_def tracker_shape_def)
qed

lemma advance_frame [frame_simps, simp]:
  "tracker_ok t \<Longrightarrow> mNumOfPastBuckets (advanceMostRecentBucketTo n t) = mNumOfPastBuckets t"
  "tracker_ok t \<Longrightarrow> mAlert (advanceMostRecentBucketTo n t) = mAlert t"
  "tracker_ok t \<Longrightarrow> mMostRecentBucketNum (advanceMostRecentBucketTo n t) =
     (if mNumOfPastBuckets t = 0 then mMostRecentBucketNum t else max n (mMostRecentBucketNum t))"
  using releaseBuckets[of t]
  by (auto simp: advanceMostRecentBucketTo_def resetStorage_def tracker_ok_def tracker_shape_def max_def)

text \<open>Advancing forgets the buckets that fall out of the window and nothing else.\<close>

lemma getPast_advance:
  assumes ok: "tracker_ok t" and n: "mMostRecentBucketNum t < n"
  shows "getPastBucketValue (advanceMostRecentBucketTo n t) k b =
    (if b \<le> n - mNumOfPastBuckets t then 0 else getPastBucketValue t k b)"
proof (cases "mNumOfPastBuckets t \<le> 0 \<or> b < 0 \<or> b \<le> n - mNumOfPastBuckets t \<or> b > n")
  case True
  then show ?thesis
    using n advance_frame[OF ok, of n] ok
    by (auto simp: getPastBucketValue_def tracker_ok_def tracker_shape_def split: if_splits)
next
  case False
  let ?N = "mNumOfPastBuckets t" and ?mr = "mMostRecentBucketNum t"
  have N: "0 < ?N" and sh: "tracker_shape t" using False ok by (auto simp: tracker_ok_def)
  have nn: "0 \<le> n" using n sh by (simp add: tracker_shape_def)
  show ?thesis
  proof (cases "n \<ge> ?mr + ?N")
    case True
    then show ?thesis
      using False n index_less[OF sh N, of b]
      by (auto simp: advanceMostRecentBucketTo_def getPastBucketValue_def resetStorage_def index_def valueIn_def
          tracker_shape_def sh)
  next
    case reuse: False
    let ?t = "foldl releaseBucket t [?mr + 1..n]"
    note rel = releaseBuckets[OF ok N, of "[?mr + 1..n]"]
    have "index t b \<in> index t ` set [?mr + 1..n] \<longleftrightarrow> ?mr < b"
    proof
      assume "index t b \<in> index t ` set [?mr + 1..n]"
      then obtain i where i: "index t b = index t i" "?mr < i" "i \<le> n" by auto
      show "?mr < b"
      proof (rule ccontr)
        assume "\<not> ?mr < b"
        with i False have "b = i" using index_eq_iff[OF N, of b i] by linarith
        with i \<open>\<not> ?mr < b\<close> show False by simp
      qed
    qed (use False in auto)
    then show ?thesis
      using rel False reuse n nn N index_less[OF sh N, of b]
      by (auto simp: advanceMostRecentBucketTo_def getPastBucketValue_def index_def valueIn_def)
  qed
qed


lemma index_le: "0 < mNumOfPastBuckets t \<Longrightarrow> 0 \<le> n \<Longrightarrow> int (index t n) \<le> n"
  by (simp add: index_def zmod_le_nonneg_dividend)

lemma getPast_in_window:
  "0 \<le> b \<Longrightarrow> b \<le> mMostRecentBucketNum t \<Longrightarrow> mMostRecentBucketNum t - mNumOfPastBuckets t < b \<Longrightarrow>
   getPastBucketValue t k b = valueIn (mPastBuckets t ! index t b) k"
  by (simp add: getPastBucketValue_def)

lemma getPast_set_slot:
  assumes "tracker_shape t" "0 \<le> n" "n \<le> mMostRecentBucketNum t" "mMostRecentBucketNum t - mNumOfPastBuckets t < n"
  shows "getPastBucketValue (t\<lparr>mPastBuckets := (mPastBuckets t)[index t n := b], mSumOverPastBuckets := s\<rparr>) k c =
    (if c = n then valueIn b k else getPastBucketValue t k c)"
proof -
  have N: "0 < mNumOfPastBuckets t" using assms by linarith
  have "index t c \<noteq> index t n" if "c \<noteq> n" "c \<le> mMostRecentBucketNum t" "mMostRecentBucketNum t - mNumOfPastBuckets t < c"
    using index_eq_iff[OF N, of c n] that assms by auto
  then show ?thesis
    using assms N index_less[OF assms(1) N] by (auto simp: getPastBucketValue_def index_def)
qed

text \<open>Both forms of \<^verbatim>\<open>addPastBucket\<close> set one slot of a tracker whose window ends at the later of
  the two bucket numbers.\<close>

lemma addPastBucket_spec:
  assumes ok: "tracker_ok t" and b: "bucket_ok b"
    and n: "0 \<le> n" "mMostRecentBucketNum t - mNumOfPastBuckets t < n" "0 < mNumOfPastBuckets t"
  shows "tracker_ok (addPastBucket b n t) \<and>
    mMostRecentBucketNum (addPastBucket b n t) = max n (mMostRecentBucketNum t) \<and>
    mNumOfPastBuckets (addPastBucket b n t) = mNumOfPastBuckets t \<and>
    getPastBucketValue (addPastBucket b n t) k c =
      (if c = n then valueIn b k
       else if c \<le> n - mNumOfPastBuckets t then 0 else getPastBucketValue t k c)"
proof -
  let ?i = "index t n"
  have sh: "tracker_shape t" using ok by (simp add: tracker_ok_def)
  show ?thesis
  proof (cases "n \<le> mMostRecentBucketNum t")
    case True
    let ?s = "addBucketToSum b (subtractBucketFromSum (mPastBuckets t ! ?i) (mSumOverPastBuckets t))"
    have eq: "addPastBucket b n t = t\<lparr>mPastBuckets := (mPastBuckets t)[?i := b], mSumOverPastBuckets := ?s\<rparr>"
      using True n by (simp add: addPastBucket_def index_def)
    have "tracker_ok (t\<lparr>mPastBuckets := (mPastBuckets t)[?i := b], mSumOverPastBuckets := ?s\<rparr>)"
      by (rule tracker_ok_set_slot[OF ok])
         (use True n index_less[OF sh n(3), of n] index_le[OF n(3,1)] b ok in
           \<open>auto simp: sumIn_addBucket tracker_ok_subtract\<close>)
    moreover have "getPastBucketValue t k c = 0" if "c \<le> n - mNumOfPastBuckets t"
      using that True by (simp add: getPastBucketValue_def)
    ultimately show ?thesis
      using True n getPast_set_slot[OF sh n(1) True n(2)] by (auto simp: eq)
  next
    case False
    let ?t = "advanceMostRecentBucketTo n t"
    let ?s = "addBucketToSum b (mSumOverPastBuckets ?t)"
    have ok': "tracker_ok ?t" by (rule advance_ok[OF ok])
    have mr: "mMostRecentBucketNum ?t = n" and N: "mNumOfPastBuckets ?t = mNumOfPastBuckets t"
      using False ok n by simp_all
    have sh': "tracker_shape ?t" using ok' by (simp add: tracker_ok_def)
    have eq: "addPastBucket b n t = ?t\<lparr>mPastBuckets := (mPastBuckets ?t)[index ?t n := b], mSumOverPastBuckets := ?s\<rparr>"
      using False n by (simp add: addPastBucket_def Let_def)
    have vacant: "valueIn (mPastBuckets ?t ! index ?t n) k = 0" for k
      using getPast_in_window[of n ?t k] getPast_advance[OF ok, of n k n] False n mr N
      by (simp add: getPastBucketValue_def)
    have "tracker_ok (?t\<lparr>mPastBuckets := (mPastBuckets ?t)[index ?t n := b], mSumOverPastBuckets := ?s\<rparr>)"
      by (rule tracker_ok_set_slot[OF ok'])
         (use n index_less[OF sh', of n] index_le[of ?t n] b ok' mr N vacant in
           \<open>auto simp: sumIn_addBucket tracker_ok_def\<close>)
    then show ?thesis
      using False n mr N getPast_set_slot[OF sh', where n = n and b = b and s = "?s" and k = k and c = c] getPast_advance[OF ok, of n k c] by (auto simp: eq)
  qed
qed


lemma valueIn_update: "valueIn (Some (AList.update key v m)) k = (if k = key then v else valueIn (Some m) k)"
  by (simp add: valueIn_def)

lemma bucket_ok_update: "bucket_ok (Some m) \<Longrightarrow> 0 \<le> v \<Longrightarrow> bucket_ok (Some (AList.update key v m))"
proof -
  assume m: "bucket_ok (Some m)" and v: "0 \<le> v"
  have ok: "umap_ok (AList.update key v m)" using m by (simp add: bucket_ok_def)
  have "0 \<le> w" if "(k, w) \<in> set (AList.update key v m)" for k w
  proof -
    have "map_of (AList.update key v m) k = Some w" using that ok map_of_Some_iff_mem by fast
    then show ?thesis using m v by (auto simp: bucket_ok_def split: if_splits dest: map_of_SomeD)
  qed
  with ok show ?thesis by (auto simp: bucket_ok_def)
qed

lemma addPastBucketValue_spec:
  assumes ok: "tracker_ok t" and v: "0 \<le> v"
    and n: "0 \<le> n" "mMostRecentBucketNum t - mNumOfPastBuckets t < n" "0 < mNumOfPastBuckets t"
  shows "tracker_ok (addPastBucketValue key v n t) \<and>
    getPastBucketValue (addPastBucketValue key v n t) k c =
      (if c = n \<and> k = key then v
       else if c \<le> n - mNumOfPastBuckets t then 0 else getPastBucketValue t k c)"
proof -
  let ?i = "index t n"
  have sh: "tracker_shape t" using ok by (simp add: tracker_ok_def)
  note i = index_less[OF sh n(3), of n]
  show ?thesis
  proof (cases "if n \<le> mMostRecentBucketNum t then mPastBuckets t ! ?i else None")
    case None
    then have "addPastBucketValue key v n t = addPastBucket (Some [(key, v)]) n t"
      using n by (simp add: addPastBucketValue_def Let_def)
    moreover have "bucket_ok (Some [(key, v)])" using v by (simp add: bucket_ok_def umap_ok_def)
    moreover have "getPastBucketValue t k n = 0"
      using None n by (auto simp: getPastBucketValue_def valueIn_def split: if_splits)
    ultimately show ?thesis
      using addPastBucket_spec[OF ok _ n, of "Some [(key, v)]" k c] n by (auto simp: valueIn_def)
  next
    case (Some m)
    then have le: "n \<le> mMostRecentBucketNum t" and slot: "mPastBuckets t ! ?i = Some m" by (auto split: if_splits)
    let ?s = "addValue key v (case map_of m key of
        Some old \<Rightarrow> subtractValueFromSum key old (mSumOverPastBuckets t) | None \<Rightarrow> mSumOverPastBuckets t)"
    have eq: "addPastBucketValue key v n t =
        t\<lparr>mPastBuckets := (mPastBuckets t)[?i := Some (AList.update key v m)], mSumOverPastBuckets := ?s\<rparr>"
      using Some n le by (simp add: addPastBucketValue_def Let_def)
    have m: "bucket_ok (Some m)" using ok i slot nth_mem by (fastforce simp: tracker_ok_def tracker_shape_def)
    have "sumIn ?s k = slot_sum t k - valueIn (mPastBuckets t ! ?i) k + valueIn (Some (AList.update key v m)) k" for k
      using absent_sum_zero[OF ok i, of key] ok slot
      by (auto simp: sumIn_addValue sumIn_subtractValue valueIn_update valueIn_def tracker_ok_def split: option.splits)
    then have "tracker_ok (t\<lparr>mPastBuckets := (mPastBuckets t)[?i := Some (AList.update key v m)], mSumOverPastBuckets := ?s\<rparr>)"
      using le n index_le[OF n(3,1)] bucket_ok_update[OF m v] by (intro tracker_ok_set_slot[OF ok i]) auto
    moreover have "getPastBucketValue t k c = 0" if "c \<le> n - mNumOfPastBuckets t"
      using that le by (simp add: getPastBucketValue_def)
    moreover have "getPastBucketValue t k n = valueIn (Some m) k"
      using getPast_in_window[OF n(1) le n(2)] slot by simp
    ultimately show ?thesis
      using getPast_set_slot[OF sh n(1) le n(2)] n le by (auto simp: eq valueIn_update)
  qed
qed

text \<open>The slots in any order are the buckets of the window.\<close>

lemma slot_sum_window:
  assumes "tracker_ok t"
  shows "slot_sum t k = (\<Sum>b \<in> {mMostRecentBucketNum t - mNumOfPastBuckets t + 1..mMostRecentBucketNum t}. getPastBucketValue t k b)"
proof (cases "mNumOfPastBuckets t = 0")
  case True
  then show ?thesis using assms by (simp add: slot_sum_def tracker_ok_def tracker_shape_def)
next
  case False
  let ?N = "mNumOfPastBuckets t" and ?mr = "mMostRecentBucketNum t" and ?len = "length (mPastBuckets t)"
  have sh: "tracker_shape t" and N: "0 < ?N" using False assms by (auto simp: tracker_ok_def tracker_shape_def)
  have val: "getPastBucketValue t k b = valueIn (mPastBuckets t ! index t b) k" if "b \<in> {?mr - ?N + 1..?mr}" for b
  proof (cases "b < 0")
    case True
    have "b mod ?N = (b + ?N) mod ?N" by simp
    also have "\<dots> = b + ?N" using True that N sh by (intro mod_pos_pos_trivial) (auto simp: tracker_shape_def)
    finally have "b mod ?N = b + ?N" .
    then have "int (index t b) > ?mr" using True that N by (simp add: index_def)
    then have "mPastBuckets t ! index t b = None" using sh index_less[OF sh N, of b] by (simp add: tracker_shape_def)
    then show ?thesis using True by (simp add: getPastBucketValue_def)
  qed (use that in \<open>simp add: getPast_in_window\<close>)
  have inj: "inj_on (index t) {?mr - ?N + 1..?mr}"
    by (rule inj_onI) (use index_eq_iff[OF N] in auto)
  have "index t ` {?mr - ?N + 1..?mr} = {..<?len}"
    using sh index_less[OF sh N] by (intro card_seteq) (auto simp: card_image[OF inj] tracker_shape_def)
  then have "(\<Sum>b \<in> {?mr - ?N + 1..?mr}. getPastBucketValue t k b) = (\<Sum>i<?len. valueIn (mPastBuckets t ! i) k)"
    using val sum.reindex[OF inj, of "\<lambda>i. valueIn (mPastBuckets t ! i) k"] by simp
  then show ?thesis by (simp add: slot_sum_def sum_list_sum_nth atLeast0LessThan)
qed


lemma getSum_slots: "tracker_ok t \<Longrightarrow> getSumOverPastBuckets t k = slot_sum t k"
  by (simp add: getSumOverPastBuckets_def tracker_ok_def flip: sumIn_def)

lemma tracker_ok_frame [frame_simps]:
  "tracker_ok (t\<lparr>effects := e\<rparr>) = tracker_ok t" "tracker_ok (t\<lparr>mRefractoryPeriodEndsSec := r\<rparr>) = tracker_ok t"
  "tracker_ok (t\<lparr>mSubscriptions := s\<rparr>) = tracker_ok t"
  by (simp_all add: tracker_ok_def tracker_shape_def slot_sum_def)

lemma declareAnomaly_ok: "tracker_ok t \<Longrightarrow> tracker_ok (declareAnomaly ts m k v t)"
  by (simp add: declareAnomaly_def Let_def frame_simps)

lemma detectAndDeclare_ok: "tracker_ok t \<Longrightarrow> tracker_ok (detectAndDeclareAnomaly ts n m k v t)"
  by (simp add: detectAndDeclareAnomaly_def detectAnomaly_def Let_def declareAnomaly_ok advance_ok
      split: prod.splits if_splits)

lemma loadAlertMetadata_ok: "tracker_ok t \<Longrightarrow> tracker_ok (loadAlertMetadata dec kd w e t)"
  unfolding loadAlertMetadata_def by (induction kd arbitrary: t) (auto simp: frame_simps)

lemma new_ok: "1 \<le> num_buckets a \<Longrightarrow> tracker_ok (newAnomalyTracker a)"
  using resetStorage_ok[of "newAnomalyTracker a :: 'k anomaly_tracker" "-1"]
  by (auto simp: newAnomalyTracker_def resetStorage_def tracker_ok_def tracker_shape_def bucket_ok_def sumIn_def
      slot_sum_def sum_list_replicate)

text \<open>Everything that happens to a tracker: buckets arrive, in any order, anomalies are looked for
  and declared, subscriptions and metadata are loaded.\<close>

inductive tracker_reachable :: "alert \<Rightarrow> 'k anomaly_tracker \<Rightarrow> bool" for a where
  tr_new: "1 \<le> num_buckets a \<Longrightarrow> tracker_reachable a (newAnomalyTracker a)"
| tr_bucket: "tracker_reachable a t \<Longrightarrow> bucket_ok b \<Longrightarrow> tracker_reachable a (addPastBucket b n t)"
| tr_value: "tracker_reachable a t \<Longrightarrow> 0 \<le> v \<Longrightarrow> tracker_reachable a (addPastBucketValue k v n t)"
| tr_detect: "tracker_reachable a t \<Longrightarrow> tracker_reachable a (detectAndDeclareAnomaly ts n m k v t)"
| tr_subscribe: "tracker_reachable a t \<Longrightarrow> tracker_reachable a (addSubscription s t)"
| tr_update: "tracker_reachable a t \<Longrightarrow> tracker_reachable a (tracker_onConfigUpdated t)"
| tr_load: "tracker_reachable a t \<Longrightarrow> tracker_reachable a (loadAlertMetadata (\<lambda>key. key) kd w e t)"

lemma addPastBucket_ok:
  assumes "tracker_ok t" "bucket_ok b"
  shows "tracker_ok (addPastBucket b n t)"
proof (cases "mNumOfPastBuckets t = 0 \<or> n < 0 \<or> n \<le> mMostRecentBucketNum t - mNumOfPastBuckets t")
  case True
  then show ?thesis using assms by (simp add: addPastBucket_def)
next
  case False
  then have "0 < mNumOfPastBuckets t" using assms by (simp add: tracker_ok_def tracker_shape_def)
  then show ?thesis using False assms addPastBucket_spec[of t b n] by simp
qed

lemma addPastBucketValue_ok:
  assumes "tracker_ok t" "0 \<le> v"
  shows "tracker_ok (addPastBucketValue k v n t)"
proof (cases "mNumOfPastBuckets t = 0 \<or> n < 0 \<or> n \<le> mMostRecentBucketNum t - mNumOfPastBuckets t")
  case True
  then show ?thesis using assms by (simp add: addPastBucketValue_def)
next
  case False
  then have "0 < mNumOfPastBuckets t" using assms by (simp add: tracker_ok_def tracker_shape_def)
  then show ?thesis using False assms addPastBucketValue_spec[of t v n k] by simp
qed

lemma tracker_reachable_ok: "tracker_reachable a t \<Longrightarrow> tracker_ok t"
  by (induction rule: tracker_reachable.induct)
     (auto intro: new_ok addPastBucket_ok addPastBucketValue_ok detectAndDeclare_ok loadAlertMetadata_ok
       simp: addSubscription_def tracker_onConfigUpdated_def frame_simps)

section \<open>Properties\<close>



text \<open>
  Fact. \<^verbatim>\<open>addPastBucket\<close> of a whole bucket is the update of a window: bucket \<open>n\<close> reads as
  the new bucket, buckets that fall out of the window read as 0, every other bucket of the window
  reads as before; a bucket number that is negative or older than the window changes nothing.
\<close>

theorem addPastBucket_window:
  assumes "tracker_ok t" and "bucket_ok b" and "0 < mNumOfPastBuckets t"
  shows "getPastBucketValue (addPastBucket b n t) k c =
    (if n < 0 \<or> n \<le> mMostRecentBucketNum t - mNumOfPastBuckets t then getPastBucketValue t k c
     else if c = n then valueIn b k
     else if c \<le> n - mNumOfPastBuckets t then 0 else getPastBucketValue t k c)"
  using addPastBucket_spec[OF assms(1,2) _ _ assms(3), of n k c] by (auto simp: addPastBucket_def)

theorem addPastBucket_window_witness:
  "getPastBucketValue (addPastBucket (Some [(CHR ''k'', 7)]) 1 (newAnomalyTracker
     \<lparr>alert_id = 1, metric_id = 2, num_buckets = 3, refractory_period_secs = None, trigger_if_sum_gt = None\<rparr>))
     CHR ''k'' 1 = 7"
proof -
  let ?t = "newAnomalyTracker \<lparr>alert_id = 1, metric_id = 2, num_buckets = 3, refractory_period_secs = None,
    trigger_if_sum_gt = None\<rparr> :: char anomaly_tracker"
  have "tracker_ok ?t" by (rule new_ok) simp
  moreover have "mNumOfPastBuckets ?t = 2" "mMostRecentBucketNum ?t = -1" by (simp_all add: newAnomalyTracker_def resetStorage_def)
  moreover have "bucket_ok (Some [(CHR ''k'', 7)])" by (simp add: bucket_ok_def umap_ok_def)
  ultimately show ?thesis using addPastBucket_window[of ?t "Some [(CHR ''k'', 7)]" 1 "CHR ''k''" 1] by (simp add: valueIn_def)
qed

text \<open>
  Fact. Detection looks at exactly the \<^verbatim>\<open>num_buckets\<close> buckets that end with the current one:
  an anomaly is reported when the values of the \<open>num_buckets - 1\<close> buckets before the current one
  plus the current value exceed the threshold, whatever bucket the tracker was at before (sums
  that a double holds exactly).
\<close>

theorem detectAnomaly_sliding_window:
  assumes "tracker_ok t" and "mMostRecentBucketNum t < cur" and "trigger_if_sum_gt (mAlert t) = Some limit"
    and "\<bar>(\<Sum>b \<in> {cur - mNumOfPastBuckets t..cur - 1}. getPastBucketValue t k b) + v\<bar> \<le> 2 ^ 53"
  shows "snd (detectAnomaly cur k v t) \<longleftrightarrow>
    rat_of_int ((\<Sum>b \<in> {cur - mNumOfPastBuckets t..cur - 1}. getPastBucketValue t k b) + v) > limit"
proof -
  let ?N = "mNumOfPastBuckets t"
  let ?t = "if cur > mMostRecentBucketNum t + 1 then advanceMostRecentBucketTo (cur - 1) t else t"
  have ok: "tracker_ok ?t" using assms(1) by (simp add: advance_ok)
  have N: "0 \<le> ?N" using assms(1) by (simp add: tracker_ok_def tracker_shape_def)
  have same: "getPastBucketValue ?t k b = getPastBucketValue t k b" if "b \<in> {cur - ?N..cur - 1}" for b
    using that getPast_advance[OF assms(1), of "cur - 1" k b] by simp
  have "getSumOverPastBuckets ?t k = (\<Sum>b \<in> {cur - ?N..cur - 1}. getPastBucketValue ?t k b)"
  proof (cases "?N = 0")
    case True
    then show ?thesis using getSum_slots[OF ok] slot_sum_window[OF ok] assms(1) by simp
  next
    case False
    then have "mMostRecentBucketNum ?t = cur - 1" "mNumOfPastBuckets ?t = ?N" using assms(1,2) by auto
    moreover have "cur - 1 - ?N + 1 = cur - ?N" by simp
    ultimately show ?thesis using getSum_slots[OF ok] slot_sum_window[OF ok] by metis
  qed
  then have "getSumOverPastBuckets ?t k = (\<Sum>b \<in> {cur - ?N..cur - 1}. getPastBucketValue t k b)"
    using same by simp
  moreover have "mAlert ?t = mAlert t" using assms(1) by simp
  ultimately show ?thesis using assms(3,4) by (simp add: detectAnomaly_def Let_def int_to_double_def)
qed

theorem detectAnomaly_sliding_window_witness:
  "\<not> snd (detectAnomaly 0 CHR ''k'' 4 (newAnomalyTracker
     \<lparr>alert_id = 1, metric_id = 2, num_buckets = 1, refractory_period_secs = None, trigger_if_sum_gt = Some 4\<rparr>))"
proof -
  let ?t = "newAnomalyTracker \<lparr>alert_id = 1, metric_id = 2, num_buckets = 1, refractory_period_secs = None,
    trigger_if_sum_gt = Some 4\<rparr> :: char anomaly_tracker"
  have "tracker_ok ?t" by (rule new_ok) simp
  then show ?thesis using detectAnomaly_sliding_window[of ?t 0 4 "CHR ''k''" 4]
    by (simp add: newAnomalyTracker_def resetStorage_def)
qed

text \<open>
  Fact. The refractory period: after an anomaly is declared for a key at time \<open>ts\<close>, another
  declaration for that key before \<open>ts\<close> plus the period does nothing at all, and a declaration for
  another key is not affected (times whose end second fits 32 bits).
\<close>

theorem refractory_period_suppresses:
  assumes "\<not> isInRefractoryPeriod ts k t" and "refractory_period_secs (mAlert t) = Some secs"
    and "0 \<le> ts" and "0 \<le> secs" and "ts div NS_PER_SEC + 1 + secs < 2 ^ 32"
    and "ts' < ts + secs * NS_PER_SEC"
  shows "declareAnomaly ts' m' k v' (declareAnomaly ts m k v t) = declareAnomaly ts m k v t \<and>
    (k' \<noteq> k \<longrightarrow> isInRefractoryPeriod ts' k' (declareAnomaly ts m k v t) = isInRefractoryPeriod ts' k' t)"
proof -
  define e where "e = (ts + NS_PER_SEC - 1) div NS_PER_SEC + secs"
  let ?t = "declareAnomaly ts m k v t"
  have P: "(0::int) < NS_PER_SEC" by (simp add: NS_PER_SEC_def)
  have b: "ts \<le> NS_PER_SEC * ((ts + NS_PER_SEC - 1) div NS_PER_SEC)"
    using div_mult_bounds(2)[OF P, of "ts + NS_PER_SEC - 1"] by linarith
  have "(ts + NS_PER_SEC - 1) div NS_PER_SEC \<le> (ts + 1 * NS_PER_SEC) div NS_PER_SEC"
    by (intro zdiv_mono1) (auto simp: P)
  also have "\<dots> = ts div NS_PER_SEC + 1" using P by (subst div_mult_self1) auto
  finally have "e < 2 ^ 32" and "0 \<le> e"
    unfolding e_def using assms P by (auto intro!: add_nonneg_nonneg div_int_pos_iff[THEN iffD2])
  then have "uint (word_of_int e :: u32) = e" by (rule uint_of_int_u32[rotated])
  moreover have "ts' < e * NS_PER_SEC" using assms(6) b by (simp add: algebra_simps e_def)
  moreover have "map_of (mRefractoryPeriodEndsSec ?t) k = Some (word_of_int e)"
    using assms by (simp add: declareAnomaly_def Let_def e_def)
  ultimately have "isInRefractoryPeriod ts' k ?t" by (simp add: isInRefractoryPeriod_def)
  moreover have "k' \<noteq> k \<longrightarrow> isInRefractoryPeriod ts' k' ?t = isInRefractoryPeriod ts' k' t"
    using assms by (simp add: declareAnomaly_def Let_def isInRefractoryPeriod_def)
  ultimately show ?thesis by (simp add: declareAnomaly_def[of ts'])
qed

theorem refractory_period_suppresses_witness:
  "let t = newAnomalyTracker \<lparr>alert_id = 1, metric_id = 2, num_buckets = 1, refractory_period_secs = Some 10,
             trigger_if_sum_gt = Some 4\<rparr>
   in declareAnomaly 3000000000 2 CHR ''k'' 9 (declareAnomaly 1 2 CHR ''k'' 8 t) = declareAnomaly 1 2 CHR ''k'' 8 t"
  using refractory_period_suppresses[of 1 "CHR ''k''" "newAnomalyTracker \<lparr>alert_id = 1, metric_id = 2,
      num_buckets = 1, refractory_period_secs = Some 10, trigger_if_sum_gt = Some 4\<rparr>" 10 3000000000]
  by (simp add: newAnomalyTracker_def resetStorage_def isInRefractoryPeriod_def NS_PER_SEC_def Let_def)

end
