(* ===== verification/MetadataUtil.thy ===== *)
theory MetadataUtil
  imports DimensionKey AnomalyTracker
begin

text \<open>
  \<^verbatim>\<open>bin/src/metadata_util.cpp\<close>: metric dimension keys in the metadata proto that survives a restart,
  and what the alert metadata of \<^verbatim>\<open>AnomalyTracker\<close> keeps of the refractory periods with them.
  Serialised protos and the file they are written to are not modelled: a message is its fields.
\<close>

section \<open>Definitions\<close>

datatype metadata_value =
    VALUE_NOT_SET
  | kValueInt i32
  | kValueLong i64
  | kValueFloat u32
  | kValueDouble "64 word"
  | kValueStr string
  | kValueStorage string

record metadata_key =
  dimension_key_in_what :: "(field \<times> metadata_value) list"
  state_values_key :: "(field \<times> metadata_value) list"

text \<open>\<^verbatim>\<open>c_str()\<close> stops at the first null character. The bytes of a STORAGE value are read as a C
  string too; with no zero byte among them the read runs past the vector, which is no defined
  behaviour: \<open>None\<close>.\<close>

fun writeValueToProto :: "log_value \<Rightarrow> metadata_value option" where
  "writeValueToProto (INT_v v) = Some (kValueInt v)"
| "writeValueToProto (LONG v) = Some (kValueLong v)"
| "writeValueToProto (FLOAT v) = Some (kValueFloat v)"
| "writeValueToProto (DOUBLE v) = Some (kValueDouble v)"
| "writeValueToProto (STRING s) = Some (kValueStr (c_string s))"
| "writeValueToProto (STORAGE bs) =
     (if list_ex (\<lambda>b. b = 0) bs then Some (kValueStorage (c_string (map (\<lambda>b. char_of (unat b)) bs))) else None)"
| "writeValueToProto UNKNOWN = Some VALUE_NOT_SET"

fun writeFieldValues :: "dim_key \<Rightarrow> (field \<times> metadata_value) list option" where
  "writeFieldValues [] = Some []"
| "writeFieldValues ((f, v) # k) =
     (case writeValueToProto v of
        None \<Rightarrow> None
      | Some mv \<Rightarrow> map_option (\<lambda>r. (f, mv) # r) (writeFieldValues k))"

definition writeMetricDimensionKeyToMetadataDimensionKey :: "metric_key \<Rightarrow> metadata_key option" where
  "writeMetricDimensionKeyToMetadataDimensionKey k =
     (case writeFieldValues (mDimensionKeyInWhat k) of
        None \<Rightarrow> None
      | Some w \<Rightarrow> map_option (\<lambda>s. \<lparr>dimension_key_in_what = w, state_values_key = s\<rparr>)
                    (writeFieldValues (mStateValuesKey k)))"

text \<open>A loaded STORAGE becomes a STRING: \<^verbatim>\<open>value_storage()\<close> is a \<^verbatim>\<open>std::string\<close>.\<close>

fun readMetadataValue :: "metadata_value \<Rightarrow> log_value" where
  "readMetadataValue (kValueInt v) = INT_v v"
| "readMetadataValue (kValueLong v) = LONG v"
| "readMetadataValue (kValueFloat v) = FLOAT v"
| "readMetadataValue (kValueDouble v) = DOUBLE v"
| "readMetadataValue (kValueStr s) = STRING s"
| "readMetadataValue (kValueStorage s) = STRING s"
| "readMetadataValue VALUE_NOT_SET = UNKNOWN"

definition writeFieldValuesFromMetadata :: "(field \<times> metadata_value) list \<Rightarrow> dim_key" where
  "writeFieldValuesFromMetadata fs = map (\<lambda>(f, mv). (f, readMetadataValue mv)) fs"

definition loadMetricDimensionKeyFromProto :: "metadata_key \<Rightarrow> metric_key" where
  "loadMetricDimensionKeyFromProto mk =
     \<lparr>mDimensionKeyInWhat = writeFieldValuesFromMetadata (dimension_key_in_what mk),
      mStateValuesKey = writeFieldValuesFromMetadata (state_values_key mk)\<rparr>"

section \<open>Facts\<close>

definition storable_value :: "log_value \<Rightarrow> bool" where
  "storable_value v = (case v of STRING s \<Rightarrow> CHR 0x00 \<notin> set s | STORAGE _ \<Rightarrow> False | _ \<Rightarrow> True)"

definition storable_key :: "metric_key \<Rightarrow> bool" where
  "storable_key k = (list_all (\<lambda>(f, v). storable_value v) (mDimensionKeyInWhat k) \<and>
     list_all (\<lambda>(f, v). storable_value v) (mStateValuesKey k))"

lemma value_roundtrip: "storable_value v \<Longrightarrow> \<exists>mv. writeValueToProto v = Some mv \<and> readMetadataValue mv = v"
  by (cases v) (auto simp: storable_value_def c_string_def takeWhile_eq_all_conv)

lemma fields_roundtrip:
  "list_all (\<lambda>(f, v). storable_value v) k \<Longrightarrow>
   \<exists>fs. writeFieldValues k = Some fs \<and> writeFieldValuesFromMetadata fs = k"
proof (induction k)
  case (Cons fv k)
  then obtain f v fs where fv: "fv = (f, v)" "storable_value v" "writeFieldValues k = Some fs"
    "writeFieldValuesFromMetadata fs = k" by (cases fv) auto
  then show ?case using value_roundtrip[of v] by (auto simp: writeFieldValuesFromMetadata_def)
qed (simp add: writeFieldValuesFromMetadata_def)

lemma key_roundtrip:
  "storable_key k \<Longrightarrow> \<exists>mk. writeMetricDimensionKeyToMetadataDimensionKey k = Some mk \<and>
     loadMetricDimensionKeyFromProto mk = k"
  using fields_roundtrip[of "mDimensionKeyInWhat k"] fields_roundtrip[of "mStateValuesKey k"]
  by (auto simp: storable_key_def writeMetricDimensionKeyToMetadataDimensionKey_def loadMetricDimensionKeyFromProto_def)

text \<open>The wall clock second at which a refractory period ends, and what a load makes of it.\<close>

definition end_wall :: "int \<Rightarrow> int \<Rightarrow> u32 \<Rightarrow> int" where
  "end_wall w e x = w div NS_PER_SEC + (uint x - e div NS_PER_SEC)"

lemma sint_of_int_i32: "0 \<le> n \<Longrightarrow> n < 2 ^ 31 \<Longrightarrow> sint (word_of_int n :: i32) = n"
  by (simp add: signed_of_int signed_take_bit_int_eq_self)

lemma loadAlert_simps [simp]:
  "loadAlertMetadata dec [] w e t = t"
  "loadAlertMetadata dec ((v, p) # kd) w e t = loadAlertMetadata dec kd w e
     (if sint v mod 2 ^ 64 < w div NS_PER_SEC then t
      else t\<lparr>mRefractoryPeriodEndsSec := AList.update (dec p)
               (word_of_int (sint v - w div NS_PER_SEC + e div NS_PER_SEC)) (mRefractoryPeriodEndsSec t)\<rparr>)"
  by (simp_all add: loadAlertMetadata_def)

lemma load_written_entries:
  assumes "distinct (map fst xs)" and "\<And>k. dec (enc k) = k"
    and "\<forall>(k, x) \<in> set xs. 0 \<le> end_wall w e x \<and> end_wall w e x < 2 ^ 31"
  shows "map_of (mRefractoryPeriodEndsSec (loadAlertMetadata dec
      (map (\<lambda>(k, x). (word_of_int (end_wall w e x), enc k)) (filter (\<lambda>(k, x). \<not> uint x < e div NS_PER_SEC) xs)) w' e' u)) k =
    (case map_of xs k of
       None \<Rightarrow> map_of (mRefractoryPeriodEndsSec u) k
     | Some x \<Rightarrow> if uint x < e div NS_PER_SEC \<or> end_wall w e x < w' div NS_PER_SEC
                  then map_of (mRefractoryPeriodEndsSec u) k
                  else Some (word_of_int (end_wall w e x - w' div NS_PER_SEC + e' div NS_PER_SEC)))"
  using assms(1,3)
proof (induction xs arbitrary: u k)
  case (Cons kx xs)
  obtain k1 x where kx: "kx = (k1, x)" by fastforce
  have b: "sint (word_of_int (end_wall w e x) :: i32) = end_wall w e x" "end_wall w e x mod 18446744073709551616 = end_wall w e x"
    using Cons.prems(2) kx by (auto simp: sint_of_int_i32)
  have fresh: "map_of xs k1 = None" using Cons.prems(1) kx by (auto simp: map_of_eq_None_iff)
  have prems: "distinct (map fst xs)" "\<forall>(k, x) \<in> set xs. 0 \<le> end_wall w e x \<and> end_wall w e x < 2 ^ 31"
    using Cons.prems by auto
  show ?case
    using fresh b assms(2)
    by (auto simp: kx Cons.IH[OF prems] simp del: of_int_add of_int_diff split: option.splits)
qed simp

section \<open>Properties\<close>

text \<open>
  Fact. A dimension key survives the metadata proto: writing a key and loading it back gives
  the key, for keys of integers, longs, floats, doubles, unset values and strings with no null
  character.
\<close>

theorem metadata_key_roundtrip:
  assumes "storable_key k"
  shows "map_option loadMetricDimensionKeyFromProto (writeMetricDimensionKeyToMetadataDimensionKey k) = Some k"
  using key_roundtrip[OF assms] by auto

theorem metadata_key_roundtrip_witness:
  "map_option loadMetricDimensionKeyFromProto (writeMetricDimensionKeyToMetadataDimensionKey
     \<lparr>mDimensionKeyInWhat = [(\<lparr>mTag = 10, mField = 0x10000\<rparr>, STRING ''pkg'')], mStateValuesKey = []\<rparr>) =
   Some \<lparr>mDimensionKeyInWhat = [(\<lparr>mTag = 10, mField = 0x10000\<rparr>, STRING ''pkg'')], mStateValuesKey = []\<rparr>"
  by (rule metadata_key_roundtrip) (simp add: storable_key_def storable_value_def)

text \<open>
  Fact. Refractory periods survive a restart in wall clock time: what is written at wall
  time \<open>w\<close>, up time \<open>e\<close> and loaded at wall time \<open>w'\<close>, up time \<open>e'\<close> gives each key whose period has
  not ended by \<open>w'\<close> the same end, moved to the new up-time clock, and gives no other key an end.
\<close>

theorem refractory_survives_restart:
  fixes t :: "'k anomaly_tracker" and u :: "'k anomaly_tracker"
  assumes "umap_ok (mRefractoryPeriodEndsSec t)" and "mRefractoryPeriodEndsSec u = []"
    and "\<And>k. dec (enc k) = k"
    and "\<forall>(k, x) \<in> set (mRefractoryPeriodEndsSec t). 0 \<le> end_wall w e x \<and> end_wall w e x < 2 ^ 31"
  shows "map_of (mRefractoryPeriodEndsSec (loadAlertMetadata dec (writeAlertMetadataToProto enc w e t) w' e' u)) k =
    (case map_of (mRefractoryPeriodEndsSec t) k of
       None \<Rightarrow> None
     | Some x \<Rightarrow> if uint x < e div NS_PER_SEC \<or> end_wall w e x < w' div NS_PER_SEC then None
                  else Some (word_of_int (end_wall w e x - w' div NS_PER_SEC + e' div NS_PER_SEC)))"
proof -
  have "writeAlertMetadataToProto enc w e t = map (\<lambda>(k, x). (word_of_int (end_wall w e x), enc k))
      (filter (\<lambda>(k, x). \<not> uint x < e div NS_PER_SEC) (mRefractoryPeriodEndsSec t))"
    by (simp add: writeAlertMetadataToProto_def end_wall_def)
  then show ?thesis
    using load_written_entries[of "mRefractoryPeriodEndsSec t" dec enc w e w' e' u k] assms
    by (simp add: umap_ok_def del: of_int_add of_int_diff split: option.splits)
qed

theorem refractory_survives_restart_witness:
  "map_of (mRefractoryPeriodEndsSec (loadAlertMetadata (\<lambda>k. k)
      (writeAlertMetadataToProto (\<lambda>k. k) 7000000000 3000000000
        ((newAnomalyTracker \<lparr>alert_id = 1, metric_id = 2, num_buckets = 1, refractory_period_secs = None,
           trigger_if_sum_gt = None\<rparr>)\<lparr>mRefractoryPeriodEndsSec := [(CHR ''k'', 9)]\<rparr>)) 8000000000 1000000000
      (newAnomalyTracker \<lparr>alert_id = 1, metric_id = 2, num_buckets = 1, refractory_period_secs = None,
           trigger_if_sum_gt = None\<rparr>))) CHR ''k'' = Some 6"
  using refractory_survives_restart[of "(newAnomalyTracker \<lparr>alert_id = 1, metric_id = 2, num_buckets = 1,
      refractory_period_secs = None, trigger_if_sum_gt = None\<rparr>)\<lparr>mRefractoryPeriodEndsSec := [(CHR ''k'', 9)]\<rparr>"
      "newAnomalyTracker \<lparr>alert_id = 1, metric_id = 2, num_buckets = 1,
      refractory_period_secs = None, trigger_if_sum_gt = None\<rparr>" "\<lambda>k. k" "\<lambda>k. k" 7000000000 3000000000
      8000000000 1000000000 "CHR ''k''"]
  by (simp add: newAnomalyTracker_def resetStorage_def umap_ok_def end_wall_def NS_PER_SEC_def)

end
