(* ===== verification/StateTracking.thy ===== *)
theory StateTracking
  imports FieldMatching
begin

text \<open>
  \<^verbatim>\<open>bin/src/state/StateTracker.cpp\<close> and \<^verbatim>\<open>StateManager.cpp\<close>: the state of every primary key of a state
  atom, overwritten or counted with nesting, the listeners that are told of changes, and the
  manager that owns one tracker per state atom.

  Calls of \<^verbatim>\<open>StateListener::onStateChanged\<close> are recorded as \<open>state_change\<close> values. A listener is held
  by a weak pointer: the argument \<open>alive\<close> tells which pointers still promote. When the new state is
  unknown the code erases the map entry and then, unless the event is nested, still writes to the
  erased element; the model gives the erased map, on which the write has no effect.
\<close>

section \<open>State trackers\<close>

record state_event = log_event +
  elapsedTimestampNs :: ns
  logUid :: int
  resetStateValue :: i32
  exclusiveStateFieldIndex :: int
  truncateTimestamp :: bool

record state_value_info =
  svState :: i32
  svCount :: int

definition kStateUnknown :: i32 where
  "kStateUnknown = -1"

definition newStateValueInfo :: state_value_info where
  "newStateValueInfo = \<lparr>svState = kStateUnknown, svCount = 0\<rparr>"

record 'l state_tracker =
  stField :: field
  mStateMap :: "(dim_key, state_value_info) umap"
  mListeners :: "'l list"

record 'l state_change =
  scListener :: 'l
  scTimeNs :: ns
  scAtomId :: i32
  scPrimaryKey :: dim_key
  scOldState :: field_value
  scNewState :: field_value

definition newStateTracker :: "i32 \<Rightarrow> 'l state_tracker" where
  "newStateTracker atomId = \<lparr>stField = \<lparr>mTag = atomId, mField = 0\<rparr>, mStateMap = [], mListeners = []\<rparr>"

definition tracker_registerListener :: "'l \<Rightarrow> 'l state_tracker \<Rightarrow> 'l state_tracker" where
  "tracker_registerListener l t = t\<lparr>mListeners := List.insert l (mListeners t)\<rparr>"

definition tracker_unregisterListener :: "'l \<Rightarrow> 'l state_tracker \<Rightarrow> 'l state_tracker" where
  "tracker_unregisterListener l t = t\<lparr>mListeners := filter (\<lambda>x. x \<noteq> l) (mListeners t)\<rparr>"

definition tracker_getStateValue :: "dim_key \<Rightarrow> 'l state_tracker \<Rightarrow> field_value \<Rightarrow> field_value \<times> bool" where
  "tracker_getStateValue k t output =
     (case map_of (mStateMap t) k of
        Some info \<Rightarrow> (output\<lparr>fvField := stField t, fvValue := INT_v (svState info)\<rparr>, True)
      | None \<Rightarrow> (output\<lparr>fvField := stField t, fvValue := INT_v kStateUnknown\<rparr>, False))"

definition notifyListeners ::
  "('l \<Rightarrow> bool) \<Rightarrow> ns \<Rightarrow> dim_key \<Rightarrow> field_value \<Rightarrow> field_value \<Rightarrow> 'l state_tracker \<Rightarrow> 'l state_change list" where
  "notifyListeners alive t k old new tr =
     map (\<lambda>l. \<lparr>scListener = l, scTimeNs = t, scAtomId = mTag (stField tr), scPrimaryKey = k,
               scOldState = old, scNewState = new\<rparr>) (filter alive (mListeners tr))"

text \<open>\<open>stateValueInfo\<close> points to the entry of the key, which both callers have just found or inserted.\<close>

definition writeInfo :: "dim_key \<Rightarrow> state_value_info \<Rightarrow> 'l state_tracker \<Rightarrow> 'l state_tracker" where
  "writeInfo k info t =
     (if map_of (mStateMap t) k = None then t else t\<lparr>mStateMap := AList.update k info (mStateMap t)\<rparr>)"

definition updateStateForPrimaryKey ::
  "('l \<Rightarrow> bool) \<Rightarrow> ns \<Rightarrow> dim_key \<Rightarrow> field_value \<Rightarrow> bool \<Rightarrow> state_value_info \<Rightarrow> 'l state_tracker \<Rightarrow>
     'l state_tracker \<times> 'l state_change list" where
  "updateStateForPrimaryKey alive time k newState nested info t =
     (let oldState = mkFieldValue (stField t) (INT_v (svState info));
          oldStateValue = svState info;
          newStateValue = int_value (fvValue newState);
          t1 = (if newStateValue = kStateUnknown then t\<lparr>mStateMap := AList.delete k (mStateMap t)\<rparr> else t);
          told = notifyListeners alive time k oldState newState t1
      in if \<not> nested then
           (writeInfo k \<lparr>svState = newStateValue, svCount = 1\<rparr> t1,
            if oldStateValue \<noteq> newStateValue then told else [])
         else if newStateValue = kStateUnknown then
           (t1, if oldStateValue \<noteq> kStateUnknown then told else [])
         else if oldStateValue = kStateUnknown then
           (writeInfo k \<lparr>svState = newStateValue, svCount = 1\<rparr> t1, told)
         else if oldStateValue = newStateValue then
           (writeInfo k (info\<lparr>svCount := svCount info + 1\<rparr>) t1, [])
         else if svCount info - 1 = 0 then
           (writeInfo k \<lparr>svState = newStateValue, svCount = 1\<rparr> t1, told)
         else (writeInfo k (info\<lparr>svCount := svCount info - 1\<rparr>) t1, []))"

fun resetKeys ::
  "('l \<Rightarrow> bool) \<Rightarrow> ns \<Rightarrow> field_value \<Rightarrow> dim_key list \<Rightarrow> 'l state_tracker \<Rightarrow> 'l state_tracker \<times> 'l state_change list" where
  "resetKeys alive time newState [] t = (t, [])"
| "resetKeys alive time newState (k # ks) t =
     (let (t1, c1) = updateStateForPrimaryKey alive time k newState False (the (map_of (mStateMap t) k)) t;
          (t2, c2) = resetKeys alive time newState ks t1
      in (t2, c1 @ c2))"

definition handleReset ::
  "('l \<Rightarrow> bool) \<Rightarrow> ns \<Rightarrow> field_value \<Rightarrow> 'l state_tracker \<Rightarrow> 'l state_tracker \<times> 'l state_change list" where
  "handleReset alive time newState t = resetKeys alive time newState (map fst (mStateMap t)) t"

definition clearStateForPrimaryKey ::
  "('l \<Rightarrow> bool) \<Rightarrow> ns \<Rightarrow> dim_key \<Rightarrow> 'l state_tracker \<Rightarrow> 'l state_tracker \<times> 'l state_change list" where
  "clearStateForPrimaryKey alive time k t =
     (case map_of (mStateMap t) k of
        None \<Rightarrow> (t, [])
      | Some info \<Rightarrow>
          updateStateForPrimaryKey alive time k (mkFieldValue (stField t) (INT_v kStateUnknown)) False info t)"

definition getStateFieldValueFromLogEvent :: "state_event \<Rightarrow> field_value option" where
  "getStateFieldValueFromLogEvent ev =
     (if exclusiveStateFieldIndex ev = -1 then None
      else Some (event_values ev ! nat (exclusiveStateFieldIndex ev)))"

text \<open>The last step of \<^verbatim>\<open>onLogEvent\<close>: \<^verbatim>\<open>mStateMap[primaryKey]\<close> inserts a default entry when there is none.\<close>

definition recordState ::
  "('l \<Rightarrow> bool) \<Rightarrow> ns \<Rightarrow> dim_key \<Rightarrow> field_value \<Rightarrow> bool \<Rightarrow> 'l state_tracker \<Rightarrow> 'l state_tracker \<times> 'l state_change list" where
  "recordState alive time k newState nested t =
     (let info = (case map_of (mStateMap t) k of Some i \<Rightarrow> i | None \<Rightarrow> newStateValueInfo)
      in updateStateForPrimaryKey alive time k newState nested info
           (t\<lparr>mStateMap := AList.update k info (mStateMap t)\<rparr>))"

definition state_onLogEvent ::
  "('l \<Rightarrow> bool) \<Rightarrow> state_event \<Rightarrow> 'l state_tracker \<Rightarrow> 'l state_tracker \<times> 'l state_change list" where
  "state_onLogEvent alive ev t =
     (let time = elapsedTimestampNs ev;
          primaryKey = key_of (fst (filterPrimaryKey (event_values ev) []))
      in case getStateFieldValueFromLogEvent ev of
           None \<Rightarrow> clearStateForPrimaryKey alive time primaryKey t
         | Some newState \<Rightarrow>
             let t1 = t\<lparr>stField := setField (mField (fvField newState)) (stField t)\<rparr>
             in if getType (fvValue newState) \<noteq> 1 then clearStateForPrimaryKey alive time primaryKey t1
                else if resetStateValue ev \<noteq> -1
                then handleReset alive time (mkFieldValue (stField t1) (INT_v (resetStateValue ev))) t1
                else recordState alive time primaryKey newState (isNested newState) t1)"

section \<open>The state manager\<close>

record 'l state_manager =
  mStateTrackers :: "(i32, 'l state_tracker) umap"
  mAllowedPkg :: "string list"
  mAllowedLogSources :: "int list"

definition AID_ROOT :: int where
  "AID_ROOT = 0"

definition newStateManager :: "'l state_manager" where
  "newStateManager = \<lparr>mStateTrackers = [], mAllowedPkg = [''com.android.systemui''], mAllowedLogSources = []\<rparr>"

definition manager_clear :: "'l state_manager \<Rightarrow> 'l state_manager" where
  "manager_clear m = m\<lparr>mStateTrackers := []\<rparr>"

definition manager_onLogEvent ::
  "('l \<Rightarrow> bool) \<Rightarrow> state_event \<Rightarrow> 'l state_manager \<Rightarrow> 'l state_manager \<times> 'l state_change list" where
  "manager_onLogEvent alive ev m =
     (if logUid ev = AID_ROOT \<or> (logUid ev \<ge> 1000 \<and> logUid ev < 2000) \<or> logUid ev \<in> set (mAllowedLogSources m)
      then (case map_of (mStateTrackers m) (tagId ev) of
              None \<Rightarrow> (m, [])
            | Some t \<Rightarrow> let (t', c) = state_onLogEvent alive ev t
                        in (m\<lparr>mStateTrackers := AList.update (tagId ev) t' (mStateTrackers m)\<rparr>, c))
      else (m, []))"

definition registerListener :: "i32 \<Rightarrow> 'l \<Rightarrow> 'l state_manager \<Rightarrow> 'l state_manager" where
  "registerListener atomId l m =
     (let t = (case map_of (mStateTrackers m) atomId of None \<Rightarrow> newStateTracker atomId | Some t \<Rightarrow> t)
      in m\<lparr>mStateTrackers := AList.update atomId (tracker_registerListener l t) (mStateTrackers m)\<rparr>)"

definition unregisterListener :: "i32 \<Rightarrow> 'l \<Rightarrow> 'l state_manager \<Rightarrow> 'l state_manager" where
  "unregisterListener atomId l m =
     (case map_of (mStateTrackers m) atomId of
        None \<Rightarrow> m
      | Some t \<Rightarrow>
          let t' = tracker_unregisterListener l t
          in m\<lparr>mStateTrackers := (if length (mListeners t') = 0 then AList.delete atomId (mStateTrackers m)
                                  else AList.update atomId t' (mStateTrackers m))\<rparr>)"

definition manager_getStateValue :: "i32 \<Rightarrow> dim_key \<Rightarrow> 'l state_manager \<Rightarrow> field_value \<Rightarrow> field_value \<times> bool" where
  "manager_getStateValue atomId k m output =
     (case map_of (mStateTrackers m) atomId of
        Some t \<Rightarrow> tracker_getStateValue k t output
      | None \<Rightarrow> (output, False))"

definition updateLogSources :: "(string \<Rightarrow> int list) \<Rightarrow> 'l state_manager \<Rightarrow> 'l state_manager" where
  "updateLogSources getAppUid m = m\<lparr>mAllowedLogSources := concat (map getAppUid (mAllowedPkg m))\<rparr>"

definition manager_notifyAppChanged :: "string \<Rightarrow> (string \<Rightarrow> int list) \<Rightarrow> 'l state_manager \<Rightarrow> 'l state_manager" where
  "manager_notifyAppChanged apk getAppUid m =
     (if apk \<in> set (mAllowedPkg m) then updateLogSources getAppUid m else m)"

section \<open>One key at a time\<close>

definition stateOf :: "'l state_tracker \<Rightarrow> dim_key \<Rightarrow> i32" where
  "stateOf t k = (case map_of (mStateMap t) k of Some i \<Rightarrow> svState i | None \<Rightarrow> kStateUnknown)"

definition info_ok :: "state_value_info \<Rightarrow> bool" where
  "info_ok i \<longleftrightarrow> svState i \<noteq> kStateUnknown \<and> svCount i \<ge> 1"

definition states_ok :: "'l state_tracker \<Rightarrow> bool" where
  "states_ok t \<longleftrightarrow> umap_ok (mStateMap t) \<and> distinct (mListeners t) \<and>
     (\<forall>k i. map_of (mStateMap t) k = Some i \<longrightarrow> info_ok i)"

definition told :: "'l state_change \<Rightarrow> 'l \<times> dim_key \<times> i32 \<times> i32" where
  "told c = (scListener c, scPrimaryKey c, int_value (fvValue (scOldState c)), int_value (fvValue (scNewState c)))"

text \<open>An operation that turned \<open>t\<close> into \<open>t'\<close> told every live listener exactly once of each key whose
  state differs, with the old and the new state.\<close>

definition changes_exact :: "('l \<Rightarrow> bool) \<Rightarrow> 'l state_tracker \<Rightarrow> 'l state_tracker \<Rightarrow> 'l state_change list \<Rightarrow> bool" where
  "changes_exact alive t t' c \<longleftrightarrow> distinct (map told c) \<and>
     (\<forall>l k old new. (l, k, old, new) \<in> told ` set c \<longleftrightarrow>
        l \<in> set (mListeners t) \<and> alive l \<and> old = stateOf t k \<and> new = stateOf t' k \<and> old \<noteq> new)"

lemma told_notify:
  "map told (notifyListeners alive time k old new t) =
     map (\<lambda>l. (l, k, int_value (fvValue old), int_value (fvValue new))) (filter alive (mListeners t))"
  by (simp add: notifyListeners_def told_def)

lemma distinct_told_notify: "distinct (mListeners t) \<Longrightarrow> distinct (map told (notifyListeners alive time k old new t))"
  unfolding told_notify by (simp add: distinct_map inj_on_def)

lemma told_notify_iff:
  "x \<in> told ` set (notifyListeners alive time k old new t) \<longleftrightarrow>
     (\<exists>l \<in> set (mListeners t). alive l \<and> x = (l, k, int_value (fvValue old), int_value (fvValue new)))"
proof -
  have "told ` set (notifyListeners alive time k old new t) = set (map told (notifyListeners alive time k old new t))" by simp
  then show ?thesis unfolding told_notify by auto
qed

text \<open>The entry of the key after an update, \<open>None\<close> when it is erased.\<close>

definition nextInfo :: "i32 \<Rightarrow> bool \<Rightarrow> state_value_info \<Rightarrow> state_value_info option" where
  "nextInfo v nested info =
     (if v = kStateUnknown then None
      else if nested \<and> svState info \<noteq> kStateUnknown \<and> svState info = v then Some (info\<lparr>svCount := svCount info + 1\<rparr>)
      else if nested \<and> svState info \<noteq> kStateUnknown \<and> svCount info \<noteq> 1 then Some (info\<lparr>svCount := svCount info - 1\<rparr>)
      else Some \<lparr>svState = v, svCount = 1\<rparr>)"

definition valueOf :: "state_value_info option \<Rightarrow> i32" where
  "valueOf x = (case x of Some i \<Rightarrow> svState i | None \<Rightarrow> kStateUnknown)"

lemma stateOf_valueOf: "stateOf t k = valueOf (map_of (mStateMap t) k)"
  by (simp add: stateOf_def valueOf_def)

lemma update_eq:
  assumes "map_of (mStateMap t) k = Some info"
  shows "updateStateForPrimaryKey alive time k ns nested info t =
    (let v = int_value (fvValue ns); n = nextInfo v nested info
     in (t\<lparr>mStateMap := (case n of None \<Rightarrow> AList.delete k (mStateMap t) | Some i \<Rightarrow> AList.update k i (mStateMap t))\<rparr>,
         if svState info \<noteq> valueOf n
         then notifyListeners alive time k (mkFieldValue (stField t) (INT_v (svState info))) ns t else []))"
  using assms by (simp add: updateStateForPrimaryKey_def nextInfo_def valueOf_def writeInfo_def notifyListeners_def Let_def)

lemma nextInfo_ok: "info_ok i \<or> svState i = kStateUnknown \<Longrightarrow> nextInfo v nested i = Some n \<Longrightarrow> info_ok n"
  by (auto simp: nextInfo_def info_ok_def split: if_splits)

lemma nextInfo_value: "valueOf (nextInfo v nested i) = v \<or> valueOf (nextInfo v nested i) = svState i"
  by (auto simp: nextInfo_def valueOf_def)

lemma nextInfo_overwrites: "valueOf (nextInfo v False i) = v"
  by (simp add: nextInfo_def valueOf_def)

text \<open>The update of one entry: nothing else changes, the entry stays well formed, and the
  notification says what changed. The entry may be the default one just inserted.\<close>

definition updated where
  "updated alive k v t t' c \<longleftrightarrow> states_ok t' \<and> stField t' = stField t \<and> mListeners t' = mListeners t \<and>
     (\<forall>j. j \<noteq> k \<longrightarrow> map_of (mStateMap t') j = map_of (mStateMap t) j) \<and>
     (stateOf t' k = stateOf t k \<or> stateOf t' k = v) \<and> changes_exact alive t t' c"

lemma changes_exact_at:
  assumes "\<And>j. j \<noteq> k \<Longrightarrow> stateOf t' j = stateOf t j" "distinct (mListeners t)"
    and "stateOf t' k \<noteq> stateOf t k \<Longrightarrow> stateOf t' k = int_value (fvValue ns)"
    and "int_value (fvValue old) = stateOf t k"
  shows "changes_exact alive t t' (if stateOf t k \<noteq> stateOf t' k then notifyListeners alive time k old ns t else [])"
proof -
  have iff: "(l, j, o', n') \<in> told ` set (if stateOf t k \<noteq> stateOf t' k then notifyListeners alive time k old ns t else []) \<longleftrightarrow>
     l \<in> set (mListeners t) \<and> alive l \<and> o' = stateOf t j \<and> n' = stateOf t' j \<and> o' \<noteq> n'" for l j o' n'
  proof (cases "j = k \<and> stateOf t k \<noteq> stateOf t' k")
    case True
    then have "stateOf t' k = int_value (fvValue ns)" using assms(3) by metis
    with True show ?thesis by (auto simp: told_notify_iff assms(4))
  next
    case False
    then have "stateOf t j = stateOf t' j" using assms(1)[of j] by metis
    with False show ?thesis unfolding if_distrib[of "\<lambda>c. _ \<in> told ` set c"] told_notify_iff by auto
  qed
  have "distinct (map told (if stateOf t k \<noteq> stateOf t' k then notifyListeners alive time k old ns t else []))"
    using distinct_told_notify[OF assms(2)] by simp
  with iff show ?thesis unfolding changes_exact_def by blast
qed

lemma update_spec:
  assumes "umap_ok (mStateMap t)" "distinct (mListeners t)" "map_of (mStateMap t) k = Some info"
    and rest: "\<And>j i. j \<noteq> k \<Longrightarrow> map_of (mStateMap t) j = Some i \<Longrightarrow> info_ok i"
    and info: "info_ok info \<or> svState info = kStateUnknown"
  obtains t' c where "updateStateForPrimaryKey alive time k ns nested info t = (t', c)"
    and "updated alive k (int_value (fvValue ns)) t t' c"
    and "map_of (mStateMap t') k = nextInfo (int_value (fvValue ns)) nested info"
proof -
  let ?n = "nextInfo (int_value (fvValue ns)) nested info"
  define t' where "t' = t\<lparr>mStateMap := (case ?n of None \<Rightarrow> AList.delete k (mStateMap t) | Some i \<Rightarrow> AList.update k i (mStateMap t))\<rparr>"
  define c where "c = (if stateOf t k \<noteq> stateOf t' k then notifyListeners alive time k (mkFieldValue (stField t) (INT_v (svState info))) ns t else [])"
  have look: "map_of (mStateMap t') j = (if j = k then ?n else map_of (mStateMap t) j)" for j
    by (simp add: t'_def split: option.split)
  have old: "stateOf t k = svState info" by (simp add: stateOf_valueOf assms(3) valueOf_def)
  have new: "stateOf t' k = valueOf ?n" by (simp add: stateOf_valueOf look)
  have "updateStateForPrimaryKey alive time k ns nested info t = (t', c)"
    unfolding update_eq[OF assms(3)] c_def old new by (simp add: t'_def Let_def)
  moreover have "states_ok t'"
    using assms(1,2) rest nextInfo_ok[OF info] unfolding states_ok_def look
    by (auto simp: t'_def split: option.split)
  moreover have "changes_exact alive t t' c"
    unfolding c_def by (rule changes_exact_at) (use look old new nextInfo_value[of _ nested info] assms(2) in
      \<open>auto simp: stateOf_valueOf mkFieldValue_def\<close>)
  ultimately show thesis
    using that[of t' c] look nextInfo_value[of "int_value (fvValue ns)" nested info] old new
    by (auto simp: updated_def t'_def)
qed


section \<open>Whole events\<close>

lemma changes_exact_seq:
  assumes "changes_exact alive t t1 c1" "changes_exact alive t1 t2 c2" "mListeners t1 = mListeners t"
    and "\<And>j. stateOf t1 j = stateOf t j \<or> stateOf t2 j = stateOf t1 j"
  shows "changes_exact alive t t2 (c1 @ c2)"
proof -
  have iff: "(l, k, o', n') \<in> told ` set (c1 @ c2) \<longleftrightarrow>
     l \<in> set (mListeners t) \<and> alive l \<and> o' = stateOf t k \<and> n' = stateOf t2 k \<and> o' \<noteq> n'" for l k o' n'
    using assms(1,2,3) assms(4)[of k] unfolding changes_exact_def image_Un set_append Un_iff by metis
  have "x \<notin> told ` set c2" if "x \<in> told ` set c1" for x
  proof
    assume "x \<in> told ` set c2"
    moreover obtain l k o' n' where "x = (l, k, o', n')" by (cases x)
    ultimately show False using that assms(1,2) assms(4)[of k] unfolding changes_exact_def by metis
  qed
  then have "set (map told c1) \<inter> set (map told c2) = {}" unfolding set_map by blast
  then have "distinct (map told (c1 @ c2))"
    using assms(1,2) unfolding changes_exact_def map_append distinct_append by blast
  with iff show ?thesis unfolding changes_exact_def by blast
qed

lemma changes_exact_refl: "mStateMap t' = mStateMap t \<Longrightarrow> changes_exact alive t t' []"
  by (simp add: changes_exact_def stateOf_def)

lemma changes_exact_cong:
  "changes_exact alive t t' c \<Longrightarrow> mListeners t = mListeners s \<Longrightarrow> (\<And>k. stateOf t k = stateOf s k) \<Longrightarrow> changes_exact alive s t' c"
  by (simp add: changes_exact_def)

definition handled where
  "handled alive t r \<longleftrightarrow> states_ok (fst r) \<and> mListeners (fst r) = mListeners t \<and> mTag (stField (fst r)) = mTag (stField t) \<and>
     changes_exact alive t (fst r) (snd r)"

lemma resetKeys_spec:
  assumes "states_ok t" "int_value (fvValue ns) \<noteq> kStateUnknown" "distinct ks" "set ks \<subseteq> dom (map_of (mStateMap t))"
  shows "handled alive t (resetKeys alive time ns ks t) \<and>
    (\<forall>j. stateOf (fst (resetKeys alive time ns ks t)) j = (if j \<in> set ks then int_value (fvValue ns) else stateOf t j))"
  using assms
proof (induction ks arbitrary: t)
  case Nil
  then show ?case by (simp add: handled_def changes_exact_refl)
next
  case (Cons k ks)
  from Cons.prems(4) obtain info where info: "map_of (mStateMap t) k = Some info" by auto
  have ok: "umap_ok (mStateMap t)" "distinct (mListeners t)" "info_ok info \<or> svState info = kStateUnknown"
    "\<And>j i. j \<noteq> k \<Longrightarrow> map_of (mStateMap t) j = Some i \<Longrightarrow> info_ok i"
    using Cons.prems(1) info by (auto simp: states_ok_def)
  obtain t1 c1 where u: "updateStateForPrimaryKey alive time k ns False info t = (t1, c1)"
    and up: "updated alive k (int_value (fvValue ns)) t t1 c1"
    and k: "map_of (mStateMap t1) k = nextInfo (int_value (fvValue ns)) False info"
    by (rule update_spec[OF ok(1,2) info ok(4,3)])
  have at_k: "stateOf t1 k = int_value (fvValue ns)" by (simp add: stateOf_valueOf k nextInfo_overwrites)
  have k_in: "map_of (mStateMap t1) k \<noteq> None" using Cons.prems(2) by (simp add: k nextInfo_def)
  have other: "map_of (mStateMap t1) j = map_of (mStateMap t) j" if "j \<noteq> k" for j using up that by (simp add: updated_def)
  have "set ks \<subseteq> dom (map_of (mStateMap t1))"
  proof
    fix j
    assume "j \<in> set ks"
    then have "map_of (mStateMap t) j \<noteq> None" using Cons.prems(4) by auto
    then show "j \<in> dom (map_of (mStateMap t1))" using other[of j] k_in by (cases "j = k") (simp_all add: domIff)
  qed
  moreover have "states_ok t1" "distinct ks" using up Cons.prems(3) by (simp_all add: updated_def)
  ultimately have IH: "handled alive t1 (resetKeys alive time ns ks t1)"
    "\<And>j. stateOf (fst (resetKeys alive time ns ks t1)) j = (if j \<in> set ks then int_value (fvValue ns) else stateOf t1 j)"
    using Cons.IH[of t1] Cons.prems(2) by blast+
  obtain t2 c2 where r: "resetKeys alive time ns ks t1 = (t2, c2)" by fastforce
  have eq: "resetKeys alive time ns (k # ks) t = (t2, c1 @ c2)" by (simp add: info u r)
  have state: "stateOf t2 j = (if j \<in> set (k # ks) then int_value (fvValue ns) else stateOf t j)" for j
    using IH(2)[of j] at_k other[of j] by (auto simp: r stateOf_def)
  have "changes_exact alive t t2 (c1 @ c2)"
  proof (rule changes_exact_seq)
    show "stateOf t1 j = stateOf t j \<or> stateOf t2 j = stateOf t1 j" for j
      using other[of j] at_k state[of j] by (cases "j = k") (auto simp: stateOf_def)
  qed (use up IH(1) in \<open>auto simp: r updated_def handled_def\<close>)
  then show ?case using eq state up IH(1) by (simp add: r handled_def updated_def)
qed

lemma clear_spec:
  assumes "states_ok t"
  shows "handled alive t (clearStateForPrimaryKey alive time k t)"
proof (cases "map_of (mStateMap t) k")
  case None
  then show ?thesis using assms by (simp add: clearStateForPrimaryKey_def handled_def changes_exact_refl)
next
  case (Some info)
  have ok: "umap_ok (mStateMap t)" "distinct (mListeners t)" "info_ok info \<or> svState info = kStateUnknown"
    "\<And>j i. j \<noteq> k \<Longrightarrow> map_of (mStateMap t) j = Some i \<Longrightarrow> info_ok i"
    using assms Some by (auto simp: states_ok_def)
  show ?thesis
    by (rule update_spec[OF ok(1,2) Some ok(4,3), where alive = alive and time = time and nested = False and
        ns = "mkFieldValue (stField t) (INT_v kStateUnknown)"])
      (simp_all add: clearStateForPrimaryKey_def Some handled_def updated_def)
qed

lemma record_spec:
  assumes "states_ok t"
  shows "handled alive t (recordState alive time k ns nested t)"
    and "map_of (mStateMap (fst (recordState alive time k ns nested t))) k = nextInfo (int_value (fvValue ns)) nested
       (case map_of (mStateMap t) k of Some i \<Rightarrow> i | None \<Rightarrow> newStateValueInfo)"
proof -
  let ?info = "case map_of (mStateMap t) k of Some i \<Rightarrow> i | None \<Rightarrow> newStateValueInfo"
  let ?t = "t\<lparr>mStateMap := AList.update k ?info (mStateMap t)\<rparr>"
  have ok: "umap_ok (mStateMap ?t)" "distinct (mListeners ?t)" "info_ok ?info \<or> svState ?info = kStateUnknown"
    "map_of (mStateMap ?t) k = Some ?info" "\<And>j i. j \<noteq> k \<Longrightarrow> map_of (mStateMap ?t) j = Some i \<Longrightarrow> info_ok i"
    using assms by (auto simp: states_ok_def newStateValueInfo_def split: option.split)
  obtain t' c where u: "updateStateForPrimaryKey alive time k ns nested ?info ?t = (t', c)"
    and up: "updated alive k (int_value (fvValue ns)) ?t t' c"
    and k: "map_of (mStateMap t') k = nextInfo (int_value (fvValue ns)) nested ?info"
    by (rule update_spec[OF ok(1,2,4,5,3)])
  have "stateOf ?t j = stateOf t j" for j by (simp add: stateOf_def newStateValueInfo_def split: option.split)
  then have "changes_exact alive t t' c" using up by (intro changes_exact_cong[of alive ?t t' c t]) (simp_all add: updated_def)
  then show "handled alive t (recordState alive time k ns nested t)"
    using up by (simp add: recordState_def Let_def u handled_def updated_def)
  show "map_of (mStateMap (fst (recordState alive time k ns nested t))) k = nextInfo (int_value (fvValue ns)) nested ?info"
    by (simp add: recordState_def Let_def u k)
qed

lemma onLogEvent_handled:
  assumes "states_ok t"
  shows "handled alive t (state_onLogEvent alive ev t)"
proof -
  have weaken: "handled alive t r" if "handled alive (t\<lparr>stField := setField v (stField t)\<rparr>) r" for v r
    using that by (auto simp: handled_def setField_def changes_exact_def stateOf_def)
  have ok: "states_ok (t\<lparr>stField := setField v (stField t)\<rparr>)" for v using assms by (simp add: states_ok_def)
  have reset: "handled alive s (handleReset alive time (mkFieldValue f (INT_v r)) s)" if "states_ok s" "r \<noteq> -1" for s time f r
    unfolding handleReset_def
    by (rule conjunct1[OF resetKeys_spec[OF that(1)]]) (use that in
      \<open>auto simp: mkFieldValue_def kStateUnknown_def states_ok_def umap_ok_def dom_map_of_conv_image_fst\<close>)
  show ?thesis
    unfolding state_onLogEvent_def Let_def
    using clear_spec[OF assms] weaken[OF clear_spec[OF ok]] weaken[OF record_spec(1)[OF ok]] weaken[OF reset[OF ok]]
    by (simp split: option.split)
qed

subsection \<open>Nested counting\<close>

fun nestedRun :: "('l \<Rightarrow> bool) \<Rightarrow> dim_key \<Rightarrow> (ns \<times> field_value) list \<Rightarrow> 'l state_tracker \<Rightarrow> 'l state_tracker" where
  "nestedRun alive k [] t = t"
| "nestedRun alive k ((time, v) # es) t = nestedRun alive k es (fst (recordState alive time k v True t))"

text \<open>How many more \<open>a\<close> than \<open>b\<close> events an entry stands for, when its key started with \<open>a\<close>.\<close>

definition excess :: "i32 \<Rightarrow> state_value_info \<Rightarrow> int" where
  "excess a i = (if svState i = a then svCount i else 1 - svCount i)"

lemma nextInfo_excess:
  assumes "a \<noteq> b" "a \<noteq> kStateUnknown" "b \<noteq> kStateUnknown" "svState i \<in> {a, b}" "svCount i \<ge> 1" "v \<in> {a, b}"
  obtains n where "nextInfo v True i = Some n" "svState n \<in> {a, b}" "svCount n \<ge> 1"
    "excess a n = excess a i + (if v = a then 1 else -1)"
proof -
  have "\<exists>n. nextInfo v True i = Some n \<and> svState n \<in> {a, b} \<and> svCount n \<ge> 1 \<and>
     excess a n = excess a i + (if v = a then 1 else -1)"
    using assms by (auto simp: nextInfo_def excess_def)
  then show thesis using that by blast
qed

lemma nestedRun_excess:
  assumes "a \<noteq> b" "a \<noteq> kStateUnknown" "b \<noteq> kStateUnknown"
    and "states_ok t" "map_of (mStateMap t) k = Some i" "svState i \<in> {a, b}"
    and "\<forall>e \<in> set es. int_value (fvValue (snd e)) \<in> {a, b}"
  shows "\<exists>n. map_of (mStateMap (nestedRun alive k es t)) k = Some n \<and> svState n \<in> {a, b} \<and> svCount n \<ge> 1 \<and>
     excess a n = excess a i + (\<Sum>e\<leftarrow>es. if int_value (fvValue (snd e)) = a then 1 else -1)"
  using assms(4-)
proof (induction es arbitrary: t i)
  case Nil
  then show ?case by (auto simp: states_ok_def info_ok_def)
next
  case (Cons e es)
  obtain time v where e: "e = (time, v)" by fastforce
  let ?t = "fst (recordState alive time k v True t)"
  have "svCount i \<ge> 1" using Cons.prems(1,2) by (auto simp: states_ok_def info_ok_def)
  then obtain n where n: "nextInfo (int_value (fvValue v)) True i = Some n" "svState n \<in> {a, b}"
      "excess a n = excess a i + (if int_value (fvValue v) = a then 1 else -1)"
    using nextInfo_excess[OF assms(1-3) Cons.prems(3), of "int_value (fvValue v)"] Cons.prems(4) e by auto
  have "states_ok ?t" using record_spec(1)[OF Cons.prems(1), of alive time k v True] by (simp add: handled_def)
  moreover have "map_of (mStateMap ?t) k = Some n" using record_spec(2)[OF Cons.prems(1), of alive time k v True] Cons.prems(2) n(1) by simp
  ultimately show ?case using Cons.IH[of ?t n] Cons.prems(4) n(2,3) by (auto simp: e)
qed

subsection \<open>The manager\<close>

text \<open>The manager's operations, in any order.\<close>

inductive manager_reachable :: "'l state_manager \<Rightarrow> bool" where
  start: "manager_reachable newStateManager"
| clear: "manager_reachable m \<Longrightarrow> manager_reachable (manager_clear m)"
| log_event: "manager_reachable m \<Longrightarrow> manager_reachable (fst (manager_onLogEvent alive ev m))"
| register: "manager_reachable m \<Longrightarrow> manager_reachable (registerListener atomId l m)"
| unregister: "manager_reachable m \<Longrightarrow> manager_reachable (unregisterListener atomId l m)"
| app_changed: "manager_reachable m \<Longrightarrow> manager_reachable (manager_notifyAppChanged apk getAppUid m)"
| sources: "manager_reachable m \<Longrightarrow> manager_reachable (updateLogSources getAppUid m)"

definition manager_ok :: "'l state_manager \<Rightarrow> bool" where
  "manager_ok m \<longleftrightarrow> umap_ok (mStateTrackers m) \<and>
     (\<forall>a t. map_of (mStateTrackers m) a = Some t \<longrightarrow> states_ok t \<and> mTag (stField t) = a \<and> mListeners t \<noteq> [])"

lemma manager_ok_update:
  "manager_ok m \<Longrightarrow> states_ok t \<Longrightarrow> mTag (stField t) = a \<Longrightarrow> mListeners t \<noteq> [] \<Longrightarrow>
   manager_ok (m\<lparr>mStateTrackers := AList.update a t (mStateTrackers m)\<rparr>)"
  by (auto simp: manager_ok_def)

lemma manager_ok_delete: "manager_ok m \<Longrightarrow> manager_ok (m\<lparr>mStateTrackers := AList.delete a (mStateTrackers m)\<rparr>)"
  by (auto simp: manager_ok_def)

lemma manager_lookup:
  "manager_ok m \<Longrightarrow> map_of (mStateTrackers m) a = Some t \<Longrightarrow> states_ok t \<and> mTag (stField t) = a \<and> mListeners t \<noteq> []"
  by (simp add: manager_ok_def)

lemma register_ok: "states_ok t \<Longrightarrow> states_ok (tracker_registerListener l t) \<and>
    stField (tracker_registerListener l t) = stField t \<and> mListeners (tracker_registerListener l t) \<noteq> []"
  by (auto simp: states_ok_def tracker_registerListener_def List.insert_def)

lemma unregister_ok: "states_ok t \<Longrightarrow> states_ok (tracker_unregisterListener l t) \<and>
    stField (tracker_unregisterListener l t) = stField t"
  by (auto simp: states_ok_def tracker_unregisterListener_def)

lemma newStateTracker_ok: "states_ok (newStateTracker a) \<and> mTag (stField (newStateTracker a)) = a"
  by (simp add: states_ok_def newStateTracker_def)

lemma manager_reachable_ok: "manager_reachable m \<Longrightarrow> manager_ok m"
proof (induction rule: manager_reachable.induct)
  case (log_event m alive ev)
  show ?case
  proof (cases "map_of (mStateTrackers m) (tagId ev)")
    case (Some t)
    then show ?thesis
      using log_event.IH manager_lookup[OF log_event.IH Some] onLogEvent_handled[of t alive ev]
      by (auto simp: manager_onLogEvent_def handled_def case_prod_unfold Let_def intro: manager_ok_update)
  qed (simp add: manager_onLogEvent_def log_event.IH)
next
  case (register m atomId l)
  then show ?case
    using manager_lookup[OF register.IH, of atomId]
    by (auto simp: registerListener_def Let_def register_ok newStateTracker_ok split: option.split intro!: manager_ok_update)
next
  case (unregister m atomId l)
  show ?case
    using unregister.IH manager_lookup[OF unregister.IH, of atomId] unregister_ok[of _ l]
    by (auto simp: unregisterListener_def Let_def split: option.split intro!: manager_ok_update manager_ok_delete)
qed (simp_all add: manager_ok_def newStateManager_def manager_clear_def manager_notifyAppChanged_def updateLogSources_def)

section \<open>Properties\<close>

text \<open>
  Property C37. Handling a state event keeps the tracker well formed, and tells every live listener,
  exactly once for each primary key whose state the event changed, of its old and its new state: on
  every kind of event (state update, nested update, reset, missing or mistyped state).
\<close>

theorem state_changes_reported:
  assumes "states_ok t" and "state_onLogEvent alive ev t = (t', c)"
  shows "states_ok t' \<and> mListeners t' = mListeners t \<and> distinct (map told c) \<and>
    (\<forall>l k old new. (l, k, old, new) \<in> told ` set c \<longleftrightarrow>
       l \<in> set (mListeners t) \<and> alive l \<and> old = stateOf t k \<and> new = stateOf t' k \<and> old \<noteq> new)"
  using onLogEvent_handled[OF assms(1), of alive ev] unfolding assms(2) handled_def changes_exact_def fst_conv snd_conv by blast

definition example_state_event :: state_event where
  "example_state_event = \<lparr>tagId = 27, event_values = [mkFieldValue \<lparr>mTag = 27, mField = 0x10000\<rparr> (INT_v 3)],
     elapsedTimestampNs = 100, logUid = 1000, resetStateValue = -1, exclusiveStateFieldIndex = 0,
     truncateTimestamp = False\<rparr>"

theorem state_changes_reported_witness:
  "states_ok (tracker_registerListener (5 :: nat) (newStateTracker 27)) \<and>
   stateOf (fst (state_onLogEvent (\<lambda>_. True) example_state_event (tracker_registerListener (5 :: nat) (newStateTracker 27)))) [] = 3 \<and>
   (5, [], -1, 3) \<in> told ` set (snd (state_onLogEvent (\<lambda>_. True) example_state_event (tracker_registerListener (5 :: nat) (newStateTracker 27))))"
proof -
  let ?t = "tracker_registerListener (5 :: nat) (newStateTracker 27)"
  let ?r = "state_onLogEvent (\<lambda>_. True) example_state_event ?t"
  have ok: "states_ok ?t" by (simp add: states_ok_def tracker_registerListener_def newStateTracker_def)
  have "filterPrimaryKey (event_values example_state_event) [] = ([], False)"
    by (simp add: filterPrimaryKey_def example_state_event_def isPrimaryField_def getValueFromBitmask_def PRIMARY_POS_def
        mkFieldValue_def default_annotations_def setBitmaskAtPos_def NESTED_POS_def)
  then have new: "stateOf (fst ?r) [] = 3"
    by (simp add: state_onLogEvent_def Let_def getStateFieldValueFromLogEvent_def)
      (simp add: example_state_event_def mkFieldValue_def recordState_def tracker_registerListener_def newStateTracker_def
        updateStateForPrimaryKey_def newStateValueInfo_def kStateUnknown_def writeInfo_def stateOf_def Let_def key_of_def)
  have old: "stateOf ?t [] = -1" "mListeners ?t = [5]"
    by (simp_all add: stateOf_def tracker_registerListener_def newStateTracker_def kStateUnknown_def)
  from state_changes_reported[OF ok, of "\<lambda>_. True" example_state_event "fst ?r" "snd ?r"]
  have "(5, [], -1, 3) \<in> told ` set (snd ?r)" using old new by simp
  with ok new show ?thesis by blast
qed

text \<open>
  Fact. Nested state counting: when a key without a state sees only events of two states,
  its state is the one it saw first as long as that one's events outnumber the other's, and the
  other one otherwise.
\<close>

theorem nested_state_counts:
  assumes "states_ok t" and "map_of (mStateMap t) k = None"
    and "a \<noteq> b" and "a \<noteq> kStateUnknown" and "b \<noteq> kStateUnknown"
    and "map (\<lambda>e. int_value (fvValue (snd e))) es = vs" and "hd vs = a" and "vs \<noteq> []" and "set vs \<subseteq> {a, b}"
  shows "stateOf (nestedRun alive k es t) k = (if count_list vs a > count_list vs b then a else b)"
proof -
  from assms(6-8) obtain time v es' where es: "es = (time, v) # es'" and v: "int_value (fvValue v) = a" by (cases es) auto
  let ?t = "fst (recordState alive time k v True t)"
  let ?i = "\<lparr>svState = a, svCount = 1\<rparr>"
  have "states_ok ?t" using record_spec(1)[OF assms(1), of alive time k v True] by (simp add: handled_def)
  moreover have "map_of (mStateMap ?t) k = Some ?i"
    using record_spec(2)[OF assms(1), of alive time k v True] assms(2,4) v by (simp add: nextInfo_def newStateValueInfo_def)
  moreover have "\<forall>e \<in> set es'. int_value (fvValue (snd e)) \<in> {a, b}"
    using assms(9) unfolding assms(6)[symmetric] es by (simp add: image_subset_iff)
  ultimately obtain n where n: "map_of (mStateMap (nestedRun alive k es' ?t)) k = Some n" "svState n \<in> {a, b}" "svCount n \<ge> 1"
    "excess a n = excess a ?i + (\<Sum>e\<leftarrow>es'. if int_value (fvValue (snd e)) = a then 1 else -1)"
    using nestedRun_excess[OF assms(3-5), of ?t k ?i es' alive] by auto
  have "(\<Sum>x\<leftarrow>xs. if x = a then 1 else -1) = int (count_list xs a) - int (count_list xs b)" if "set xs \<subseteq> {a, b}" for xs
    using that assms(3) by (induction xs) auto
  from this[of vs] assms(6,9) n(4) v
  have "excess a n = int (count_list vs a) - int (count_list vs b)" by (auto simp: es excess_def comp_def)
  with n(1-3) show ?thesis by (auto simp: es stateOf_def excess_def split: if_splits)
qed

theorem nested_state_counts_witness:
  "stateOf (nestedRun (\<lambda>_. True) [] (map (\<lambda>v. (0, mkFieldValue \<lparr>mTag = 27, mField = 0x10000\<rparr> (INT_v v))) [1, 1, 0])
     (newStateTracker 27 :: nat state_tracker)) [] = 1"
proof -
  have "states_ok (newStateTracker 27 :: nat state_tracker)" "map_of (mStateMap (newStateTracker 27 :: nat state_tracker)) [] = None"
    by (simp_all add: states_ok_def newStateTracker_def)
  from nested_state_counts[OF this, of 1 0 "map (\<lambda>v. (0, mkFieldValue \<lparr>mTag = 27, mField = 0x10000\<rparr> (INT_v v))) [1, 1, 0]" "[1, 1, 0]" "\<lambda>_. True"]
  show ?thesis by (simp add: kStateUnknown_def mkFieldValue_def)
qed

text \<open>
  Fact. In every state manager that its operations can reach, every tracker it holds is the
  tracker of its atom, well formed, and has a listener: unregistering the last listener of an atom
  drops the tracker and the states with it.
\<close>

theorem state_manager_invariant:
  assumes "manager_reachable m" and "map_of (mStateTrackers m) a = Some t"
  shows "states_ok t \<and> mTag (stField t) = a \<and> mListeners t \<noteq> [] \<and>
    (set (mListeners t) = {l} \<longrightarrow> map_of (mStateTrackers (unregisterListener a l m)) a = None)"
proof -
  have "filter (\<lambda>x. x \<noteq> l) (mListeners t) = []" if "set (mListeners t) = {l}" using that by (simp add: filter_empty_conv)
  then show ?thesis
    using manager_lookup[OF manager_reachable_ok[OF assms(1)] assms(2)] assms(2)
    by (auto simp: unregisterListener_def tracker_unregisterListener_def Let_def)
qed

theorem state_manager_invariant_witness:
  "map_of (mStateTrackers (unregisterListener 27 (5 :: nat) (registerListener 27 5 newStateManager))) 27 = None"
proof -
  let ?m = "registerListener 27 (5 :: nat) newStateManager"
  let ?t = "tracker_registerListener (5 :: nat) (newStateTracker 27)"
  have "manager_reachable ?m" by (intro manager_reachable.intros)
  moreover have "map_of (mStateTrackers ?m) 27 = Some ?t" by (simp add: registerListener_def newStateManager_def Let_def)
  moreover have "set (mListeners ?t) = {5}" by (simp add: tracker_registerListener_def newStateTracker_def)
  ultimately show ?thesis using state_manager_invariant[of ?m 27 ?t 5] by blast
qed

end
