(* ===== verification/EventQueue.thy ===== *)
theory EventQueue
  imports StateTracking
begin

text \<open>
  \<^verbatim>\<open>bin/src/logd/LogEventQueue.cpp\<close>, the bounded queue between the socket threads and the processing
  thread, and \<^verbatim>\<open>bin/src/utils/MultiConditionTrigger.cpp\<close>, the count-down of named start-up conditions.
  Every operation holds the object's mutex for its whole effect, so a run of several threads is a
  sequence of operations in lock order; a \<^verbatim>\<open>waitPop\<close> that finds the queue empty blocks, and is
  a step that leaves everything as it is.

  The locale \<open>fifo_channel\<close> is the contract of a bounded channel: whatever the interleaving, what comes out
  is what was accepted, in order.
\<close>

section \<open>Definitions\<close>

record log_event_queue =
  mQueueLimit :: nat
  mQueue :: "state_event list"

definition newLogEventQueue :: "nat \<Rightarrow> log_event_queue" where
  "newLogEventQueue maxSize = \<lparr>mQueueLimit = maxSize, mQueue = []\<rparr>"

text \<open>\<open>None\<close>: the thread waits. The result is the event and the queue left.\<close>

definition waitPop :: "log_event_queue \<Rightarrow> (state_event \<times> log_event_queue) option" where
  "waitPop q = (case mQueue q of [] \<Rightarrow> None | e # es \<Rightarrow> Some (e, q\<lparr>mQueue := es\<rparr>))"

text \<open>\<open>oldestTimestampNs\<close> is an in-out parameter. \<open>None\<close>: reading the front of an empty queue, which is
  undefined; it needs a limit of 0.\<close>

definition queue_push :: "state_event \<Rightarrow> ns \<Rightarrow> log_event_queue \<Rightarrow> (log_event_queue \<times> ns \<times> bool) option" where
  "queue_push item oldestTimestampNs q =
     (if length (mQueue q) < mQueueLimit q then Some (q\<lparr>mQueue := mQueue q @ [item]\<rparr>, oldestTimestampNs, True)
      else case mQueue q of
             [] \<Rightarrow> None
           | e # _ \<Rightarrow> Some (q, elapsedTimestampNs e, False))"

record multi_condition_trigger =
  mRemainingConditionNames :: "string list"
  mCompleted :: bool

text \<open>The second component: whether the trigger is started.\<close>

definition newMultiConditionTrigger :: "string list \<Rightarrow> multi_condition_trigger \<times> bool" where
  "newMultiConditionTrigger names =
     (let completed = (names = [])
      in (\<lparr>mRemainingConditionNames = names, mCompleted = completed\<rparr>, completed))"

definition markComplete :: "string \<Rightarrow> multi_condition_trigger \<Rightarrow> multi_condition_trigger \<times> bool" where
  "markComplete name t =
     (if mCompleted t then (t, False)
      else let remaining = filter (\<lambda>n. n \<noteq> name) (mRemainingConditionNames t);
               completed = (remaining = [])
           in (t\<lparr>mRemainingConditionNames := remaining, mCompleted := completed\<rparr>, completed))"

section \<open>Channels\<close>

datatype 'e channel_op = Push 'e | Pop

text \<open>A run of a channel: the events accepted, the events delivered, and the channel at the end.\<close>

fun channel_run :: "('e \<Rightarrow> 'q \<Rightarrow> 'q \<times> bool) \<Rightarrow> ('q \<Rightarrow> ('e \<times> 'q) option) \<Rightarrow> 'e channel_op list \<Rightarrow> 'q \<Rightarrow>
    'e list \<times> 'e list \<times> 'q" where
  "channel_run push pop [] q = ([], [], q)"
| "channel_run push pop (Push e # ops) q =
     (let (q', ok) = push e q; (a, d, q'') = channel_run push pop ops q'
      in (if ok then e # a else a, d, q''))"
| "channel_run push pop (Pop # ops) q =
     (case pop q of
        None \<Rightarrow> channel_run push pop ops q
      | Some (e, q') \<Rightarrow> let (a, d, q'') = channel_run push pop ops q' in (a, e # d, q''))"

locale fifo_channel =
  fixes ok :: "'q \<Rightarrow> bool" and contents :: "'q \<Rightarrow> 'e list" and capacity :: "'q \<Rightarrow> nat"
    and push :: "'e \<Rightarrow> 'q \<Rightarrow> 'q \<times> bool" and pop :: "'q \<Rightarrow> ('e \<times> 'q) option"
  assumes push_law: "ok q \<Longrightarrow> push e q = (q', b) \<Longrightarrow> ok q' \<and> capacity q' = capacity q \<and>
      b = (length (contents q) < capacity q) \<and> contents q' = (if b then contents q @ [e] else contents q)"
    and pop_law: "ok q \<Longrightarrow> (case pop q of
        None \<Rightarrow> contents q = []
      | Some (e, q') \<Rightarrow> ok q' \<and> capacity q' = capacity q \<and> contents q = e # contents q')"
begin

lemma run_fifo:
  "ok q \<Longrightarrow> channel_run push pop ops q = (a, d, q') \<Longrightarrow>
     ok q' \<and> capacity q' = capacity q \<and> contents q @ a = d @ contents q' \<and>
     (length (contents q) \<le> capacity q \<longrightarrow> length (contents q') \<le> capacity q)"
proof (induction ops arbitrary: q a d)
  case (Cons x ops)
  show ?case
  proof (cases x)
    case (Push e)
    obtain q1 b where p: "push e q = (q1, b)" by fastforce
    obtain a' d' where r: "channel_run push pop ops q1 = (a', d', q')" using Cons.prems(2) by (auto simp: Push p split: prod.splits)
    then show ?thesis using Cons.IH[OF _ r] push_law[OF Cons.prems(1) p] Cons.prems(2) by (auto simp: Push p split: if_splits)
  next
    case Pop
    show ?thesis
    proof (cases "pop q")
      case None
      then show ?thesis using Cons by (simp add: Pop)
    next
      case (Some r)
      obtain e q1 where s: "pop q = Some (e, q1)" using Some by fastforce
      obtain a' d' where r: "channel_run push pop ops q1 = (a', d', q')" using Cons.prems(2) by (auto simp: Pop s split: prod.splits)
      then show ?thesis using Cons.IH[OF _ r] pop_law[OF Cons.prems(1)] Cons.prems(2) by (auto simp: Pop s)
    qed
  qed
qed simp

end

text \<open>The queue as a channel; the timestamp a refused push reports is not part of the contract.\<close>

definition try_push :: "state_event \<Rightarrow> log_event_queue \<Rightarrow> log_event_queue \<times> bool" where
  "try_push e q = (case queue_push e 0 q of Some (q', _, b) \<Rightarrow> (q', b) | None \<Rightarrow> (q, False))"

interpretation event_queue: fifo_channel "\<lambda>q. mQueueLimit q > 0" mQueue mQueueLimit try_push waitPop
  by unfold_locales (auto simp: try_push_def queue_push_def waitPop_def split: if_splits list.splits)

section \<open>Properties\<close>

text \<open>
  Property C38. Whatever the order in which threads push and pop, the events delivered followed by
  those still queued are those accepted, in order; the queue never exceeds its limit; and a push is
  refused only on a full queue, leaves it as it is and reports the time of its oldest event.
\<close>

theorem event_queue_fifo:
  assumes "0 < limit" and "channel_run try_push waitPop ops (newLogEventQueue limit) = (accepted, delivered, q)"
  shows "accepted = delivered @ mQueue q \<and> length (mQueue q) \<le> limit \<and>
    (\<forall>e t. length (mQueue q) < limit \<longrightarrow> queue_push e t q = Some (q\<lparr>mQueue := mQueue q @ [e]\<rparr>, t, True)) \<and>
    (\<forall>e t. length (mQueue q) = limit \<longrightarrow> queue_push e t q = Some (q, elapsedTimestampNs (hd (mQueue q)), False))"
  using event_queue.run_fifo[OF _ assms(2)] assms(1)
  by (auto simp: newLogEventQueue_def queue_push_def split: list.split)

theorem event_queue_fifo_witness:
  "channel_run try_push waitPop [Pop, Push example_state_event, Push example_state_event, Pop] (newLogEventQueue 1) =
     ([example_state_event], [example_state_event], newLogEventQueue 1) \<and> [example_state_event] = [example_state_event] @ mQueue (newLogEventQueue 1)"
proof -
  have run: "channel_run try_push waitPop [Pop, Push example_state_event, Push example_state_event, Pop] (newLogEventQueue 1) =
     ([example_state_event], [example_state_event], newLogEventQueue 1)"
    by (simp add: try_push_def queue_push_def waitPop_def newLogEventQueue_def)
  from run event_queue_fifo[OF _ run] show ?thesis by simp
qed

text \<open>The number of times the trigger starts when the names are marked in turn.\<close>

fun markAll :: "string list \<Rightarrow> multi_condition_trigger \<Rightarrow> nat" where
  "markAll [] t = 0"
| "markAll (n # ns) t = (let (t', fired) = markComplete n t in of_bool fired + markAll ns t')"

lemma markAll_completed: "mCompleted t \<Longrightarrow> markAll ns t = 0"
  by (induction ns) (simp_all add: markComplete_def)

lemma markAll_open:
  "\<not> mCompleted t \<Longrightarrow> mRemainingConditionNames t \<noteq> [] \<Longrightarrow>
   markAll ns t = of_bool (set (mRemainingConditionNames t) \<subseteq> set ns)"
proof (induction ns arbitrary: t)
  case (Cons n ns)
  let ?r = "filter (\<lambda>x. x \<noteq> n) (mRemainingConditionNames t)"
  let ?t = "t\<lparr>mRemainingConditionNames := ?r, mCompleted := False\<rparr>"
  have sub: "set ?r \<subseteq> set ns \<longleftrightarrow> set (mRemainingConditionNames t) \<subseteq> set (n # ns)" by auto
  show ?case
  proof (cases "?r = []")
    case True
    then have "set (mRemainingConditionNames t) \<subseteq> set (n # ns)" using sub by (metis empty_subsetI list.set(1))
    then show ?thesis using Cons.prems True by (simp add: markComplete_def Let_def markAll_completed)
  next
    case False
    with Cons.IH[of ?t] Cons.prems sub show ?thesis by (simp add: markComplete_def Let_def)
  qed
qed simp

text \<open>
  Property C39. The start-up trigger runs exactly once, when every named condition has been marked
  complete, in any order and however often; it never runs before.
\<close>

theorem trigger_fires_once:
  "of_bool (snd (newMultiConditionTrigger names)) + markAll marks (fst (newMultiConditionTrigger names)) =
     (of_bool (set names \<subseteq> set marks) :: nat)"
  by (cases names) (simp_all add: newMultiConditionTrigger_def markAll_completed markAll_open)

end
