(* ===== verification/GraphEvaluation.thy ===== *)
theory GraphEvaluation
  imports StatsdPrelude
begin

text \<open>
  Cached evaluation of an acyclic graph, the pattern of the matcher and condition trackers: a node
  visits those of its children that are still pending, then finishes itself from their results. The
  locale \<open>cached_graph\<close> states what such an evaluator needs; its lemmas say that enough fuel always gives
  a result, in which the wanted nodes are no longer pending and the invariant of the cache holds.
  The context \<open>c\<close> stands for what an evaluation does not change (the graph, the event, a query).
\<close>

fun visit :: "('s \<Rightarrow> nat \<Rightarrow> bool) \<Rightarrow> (nat \<Rightarrow> 's \<Rightarrow> 's option) \<Rightarrow> nat list \<Rightarrow> 's \<Rightarrow> 's option" where
  "visit pending f [] s = Some s"
| "visit pending f (k # ks) s =
     (case (if pending s k then f k s else Some s) of None \<Rightarrow> None | Some s' \<Rightarrow> visit pending f ks s')"

locale cached_graph =
  fixes wf :: "'c \<Rightarrow> bool" and size :: "'c \<Rightarrow> nat" and rank :: "'c \<Rightarrow> nat \<Rightarrow> nat" and kids :: "'c \<Rightarrow> nat \<Rightarrow> nat list"
    and good :: "'c \<Rightarrow> 's \<Rightarrow> bool" and pending :: "'s \<Rightarrow> nat \<Rightarrow> bool"
    and finish :: "'c \<Rightarrow> nat \<Rightarrow> 's \<Rightarrow> 's" and run :: "'c \<Rightarrow> nat \<Rightarrow> nat \<Rightarrow> 's \<Rightarrow> 's option"
  assumes kids_ranked: "wf c \<Longrightarrow> i < size c \<Longrightarrow> k \<in> set (kids c i) \<Longrightarrow> k < size c \<and> rank c k < rank c i"
    and run_step: "wf c \<Longrightarrow> good c s \<Longrightarrow> i < size c \<Longrightarrow> pending s i \<Longrightarrow>
      run c (Suc n) i s = map_option (finish c i) (visit pending (run c n) (kids c i) s)"
    and finish_good: "wf c \<Longrightarrow> good c s \<Longrightarrow> i < size c \<Longrightarrow> pending s i \<Longrightarrow> \<forall>k \<in> set (kids c i). \<not> pending s k \<Longrightarrow>
      good c (finish c i s)"
    and finish_pending: "wf c \<Longrightarrow> good c s \<Longrightarrow> i < size c \<Longrightarrow> pending s i \<Longrightarrow> j < size c \<Longrightarrow>
      pending (finish c i s) j \<longleftrightarrow> pending s j \<and> j \<noteq> i"
begin

text \<open>Progress from \<open>s\<close> to \<open>s'\<close>: nothing becomes pending again, and what is settled ranks below \<open>r\<close>.\<close>

definition settles :: "'c \<Rightarrow> nat \<Rightarrow> 's \<Rightarrow> 's \<Rightarrow> bool" where
  "settles c r s s' \<longleftrightarrow> good c s' \<and> (\<forall>j < size c. pending s' j \<longrightarrow> pending s j) \<and>
     (\<forall>j < size c. pending s j \<and> \<not> pending s' j \<longrightarrow> rank c j < r)"

lemma settles_refl: "good c s \<Longrightarrow> settles c r s s"
  by (simp add: settles_def)

lemma settles_trans: "settles c r s s' \<Longrightarrow> settles c r' s' s'' \<Longrightarrow> r' \<le> r \<Longrightarrow> settles c r s s''"
  unfolding settles_def by (meson order.strict_trans2)

lemma visit_settles:
  assumes "\<And>k s. k \<in> set ks \<Longrightarrow> good c s \<Longrightarrow> pending s k \<Longrightarrow> \<exists>s'. f k s = Some s' \<and> settles c r s s' \<and> \<not> pending s' k"
    and "\<forall>k \<in> set ks. k < size c" and "good c s"
  shows "\<exists>s'. visit pending f ks s = Some s' \<and> settles c r s s' \<and> (\<forall>k \<in> set ks. \<not> pending s' k)"
  using assms
proof (induction ks arbitrary: s)
  case Nil
  then show ?case by (simp add: settles_refl)
next
  case (Cons k ks)
  obtain s1 where s1: "(if pending s k then f k s else Some s) = Some s1" "settles c r s s1" "\<not> pending s1 k"
    using Cons.prems(1)[of k s] Cons.prems(3) settles_refl[of c s r] by (cases "pending s k") auto
  have "good c s1" using s1(2) by (simp add: settles_def)
  with Cons.IH[of s1] Cons.prems obtain s2 where
    s2: "visit pending f ks s1 = Some s2" "settles c r s1 s2" "\<forall>k \<in> set ks. \<not> pending s2 k" by auto
  have "\<not> pending s2 k" using s1(3) s2(2) Cons.prems(2) by (auto simp: settles_def)
  with s1 s2 settles_trans[OF s1(2) s2(2)] show ?case by auto
qed

theorem run_settles:
  assumes "wf c"
  shows "good c s \<Longrightarrow> i < size c \<Longrightarrow> pending s i \<Longrightarrow> rank c i < n \<Longrightarrow>
    \<exists>s'. run c n i s = Some s' \<and> settles c (Suc (rank c i)) s s' \<and> \<not> pending s' i"
proof (induction n arbitrary: i s)
  case (Suc n)
  have kids: "\<forall>k \<in> set (kids c i). k < size c \<and> rank c k < rank c i" using kids_ranked[OF assms] Suc.prems(2) by blast
  have "\<exists>s'. run c n k s = Some s' \<and> settles c (rank c i) s s' \<and> \<not> pending s' k"
    if "k \<in> set (kids c i)" "good c s" "pending s k" for k s
  proof -
    have k: "k < size c" "rank c k < n" "Suc (rank c k) \<le> rank c i" using kids that(1) Suc.prems(4) by auto
    from Suc.IH[OF that(2) k(1) that(3) k(2)] obtain s' where s': "run c n k s = Some s'" "settles c (Suc (rank c k)) s s'" "\<not> pending s' k"
      by blast
    have "settles c (rank c i) s s'" using s'(2) k(3) unfolding settles_def by (meson order.strict_trans2)
    with s' show ?thesis by blast
  qed
  from visit_settles[OF this, of "kids c i" s] kids Suc.prems(1) obtain s1 where
    s1: "visit pending (run c n) (kids c i) s = Some s1" "settles c (rank c i) s s1" "\<forall>k \<in> set (kids c i). \<not> pending s1 k" by blast
  have g: "good c s1" and p: "pending s1 i" using s1(2) Suc.prems(2,3) by (auto simp: settles_def)
  have "run c (Suc n) i s = Some (finish c i s1)" using run_step[OF assms Suc.prems(1-3)] s1(1) by simp
  moreover have "good c (finish c i s1)" by (rule finish_good[OF assms g Suc.prems(2) p s1(3)])
  moreover note finish_pending[OF assms g Suc.prems(2) p]
  ultimately show ?case
    using s1(2) Suc.prems(2) less_SucI unfolding settles_def by fastforce
qed simp

lemma run_all:
  assumes "wf c" "good c s" "\<forall>i \<in> set is. i < size c \<and> rank c i < n"
  shows "\<exists>s'. visit pending (run c n) is s = Some s' \<and> good c s' \<and> (\<forall>i \<in> set is. \<not> pending s' i) \<and>
    (\<forall>j < size c. pending s' j \<longrightarrow> pending s j)"
proof -
  have "\<exists>s'. run c n k s = Some s' \<and> settles c n s s' \<and> \<not> pending s' k" if "k \<in> set is" "good c s" "pending s k" for k s
  proof -
    have k: "k < size c" "rank c k < n" using assms(3) that(1) by auto
    from run_settles[OF assms(1) that(2) k(1) that(3) k(2)] obtain s' where
      s': "run c n k s = Some s'" "settles c (Suc (rank c k)) s s'" "\<not> pending s' k" by blast
    have "settles c n s s'" using s'(2) k(2) unfolding settles_def by (meson Suc_leI order.strict_trans2)
    with s' show ?thesis by blast
  qed
  from visit_settles[OF this, of "is" s] assms show ?thesis unfolding settles_def by blast
qed

end

end
