(* ===== verification/ConditionGraph.thy ===== *)
theory ConditionGraph
  imports ConditionLogic GraphEvaluation
begin

text \<open>
  \<^verbatim>\<open>bin/src/condition/CombinationConditionTracker.cpp\<close>, \<^verbatim>\<open>ConditionWizard.cpp\<close>, the virtual interface
  \<^verbatim>\<open>ConditionTracker.h\<close>, \<^verbatim>\<open>createConditionTracker\<close> and \<^verbatim>\<open>initConditions\<close> of \<^verbatim>\<open>metrics_manager_util.cpp\<close>, and the
  condition loop of \<^verbatim>\<open>MetricsManager::onLogEvent\<close>.

  As with the matchers, a tracker object is an entry of the list of all trackers and the recursions over
  the graph take fuel. Evaluating an event updates the trackers it reaches, the condition cache and
  the changed cache; a query only fills a cache of its own.
\<close>

section \<open>Trackers\<close>

datatype predicate_contents =
    PREDICATE_NOT_SET
  | kSimplePredicate simple_predicate
  | kPredicateCombination "logical_operation option" "int list"

record predicate =
  pr_id :: int
  pr_contents :: predicate_contents

record combination_tracker =
  ccConditionId :: int
  ccIndex :: nat
  ccInitialized :: bool
  ccTrackerIndex :: "int list"
  ccUnSlicedPartCondition :: condition_state
  ccSliced :: bool
  ccLogicalOperation :: logical_operation
  ccChildren :: "int list"
  ccSlicedChildren :: "int list"
  ccUnSlicedChildren :: "int list"

datatype condition_tracker = SimpleCondition simple_tracker | CombinationCondition combination_tracker

fun isSliced :: "condition_tracker \<Rightarrow> bool" where
  "isSliced (SimpleCondition t) = scSliced t"
| "isSliced (CombinationCondition t) = ccSliced t"

fun conditionIndex :: "condition_tracker \<Rightarrow> nat" where
  "conditionIndex (SimpleCondition t) = scIndex t"
| "conditionIndex (CombinationCondition t) = ccIndex t"

fun getAtomMatchingTrackerIndex :: "condition_tracker \<Rightarrow> int list" where
  "getAtomMatchingTrackerIndex (SimpleCondition t) = scTrackerIndex t"
| "getAtomMatchingTrackerIndex (CombinationCondition t) = ccTrackerIndex t"

definition newCombinationConditionTracker :: "int \<Rightarrow> nat \<Rightarrow> combination_tracker" where
  "newCombinationConditionTracker cid idx =
     \<lparr>ccConditionId = cid, ccIndex = idx, ccInitialized = False, ccTrackerIndex = [],
      ccUnSlicedPartCondition = kUnknown, ccSliced = False, ccLogicalOperation = LOGICAL_OPERATION_UNSPECIFIED,
      ccChildren = [], ccSlicedChildren = [], ccUnSlicedChildren = []\<rparr>"

definition createConditionTracker ::
  "predicate \<Rightarrow> nat \<Rightarrow> (int, int) umap \<Rightarrow> int \<times> int \<times> int \<Rightarrow> condition_tracker option" where
  "createConditionTracker p idx mtm garbage =
     (case pr_contents p of
        kSimplePredicate sp \<Rightarrow> Some (SimpleCondition (newSimpleConditionTracker (pr_id p) idx sp mtm garbage))
      | kPredicateCombination _ _ \<Rightarrow> Some (CombinationCondition (newCombinationConditionTracker (pr_id p) idx))
      | PREDICATE_NOT_SET \<Rightarrow> None)"

section \<open>Initialisation\<close>

type_synonym cond_state = "condition_tracker list \<times> bool list \<times> condition_state list"

definition addConditionChild :: "int \<Rightarrow> condition_tracker \<Rightarrow> combination_tracker \<Rightarrow> combination_tracker" where
  "addConditionChild childIndex child t =
     (let t1 = (if isSliced child
                then t\<lparr>ccSliced := True, ccSlicedChildren := ccSlicedChildren t @ [childIndex]\<rparr>
                else t\<lparr>ccUnSlicedChildren := ccUnSlicedChildren t @ [childIndex]\<rparr>)
      in t1\<lparr>ccChildren := ccChildren t1 @ [childIndex],
            ccTrackerIndex := List.union (ccTrackerIndex t1) (getAtomMatchingTrackerIndex child)\<rparr>)"

definition combo :: "condition_tracker \<Rightarrow> combination_tracker" where
  "combo c = (case c of CombinationCondition t \<Rightarrow> t | SimpleCondition t \<Rightarrow> newCombinationConditionTracker (scConditionId t) (scIndex t))"

definition predicateCombination :: "predicate \<Rightarrow> logical_operation option \<times> int list" where
  "predicateCombination p = (case pr_contents p of kPredicateCombination op cs \<Rightarrow> (op, cs) | _ \<Rightarrow> (None, []))"

definition simple_init :: "simple_tracker \<Rightarrow> condition_state list \<Rightarrow> condition_state list \<times> bool" where
  "simple_init t cache =
     (let parameters = (if scSliced t then [(scConditionId t, DEFAULT_DIMENSION_KEY)] else [])
      in (if cache ! scIndex t \<noteq> kNotEvaluated then cache
          else cache[scIndex t := simple_isConditionMet parameters (scSliced t) t], scInitialized t))"

function (sequential)
  condition_init :: "nat \<Rightarrow> predicate list \<Rightarrow> (int, int) umap \<Rightarrow> nat \<Rightarrow> cond_state \<Rightarrow> (cond_state \<times> bool) option" and
  cond_init_children :: "nat \<Rightarrow> predicate list \<Rightarrow> (int, int) umap \<Rightarrow> nat \<Rightarrow> int list \<Rightarrow> cond_state \<Rightarrow> (cond_state \<times> bool) option" and
  cond_refill :: "nat \<Rightarrow> predicate list \<Rightarrow> (int, int) umap \<Rightarrow> int list \<Rightarrow> cond_state \<Rightarrow> cond_state option"
where
  "condition_init 0 cfgs mp this s = None"
| "condition_init (Suc n) cfgs mp this (ts, stack, cache) =
     (case ts ! this of
        SimpleCondition t \<Rightarrow> let (cache1, ok) = simple_init t cache in Some ((ts, stack, cache1), ok)
      | CombinationCondition t \<Rightarrow>
          if ccInitialized t then
            (case cond_refill n cfgs mp (ccChildren t) (ts, stack, cache) of
               None \<Rightarrow> None
             | Some (ts1, stack1, cache1) \<Rightarrow>
                 Some ((ts1, stack1, cache1[ccIndex t :=
                   evaluateCombinationCondition (ccChildren t) (ccLogicalOperation t) cache1]), True))
          else let stack1 = stack[ccIndex t := True];
                   (op, kids) = predicateCombination (cfgs ! ccIndex t)
               in case op of
                    None \<Rightarrow> Some ((ts, stack1, cache), False)
                  | Some op \<Rightarrow>
                      let ts1 = ts[this := CombinationCondition (t\<lparr>ccLogicalOperation := op\<rparr>)]
                      in if op = op_NOT \<and> length kids \<noteq> 1 then Some ((ts1, stack1, cache), False)
                         else (case cond_init_children n cfgs mp this kids (ts1, stack1, cache) of
                                 None \<Rightarrow> None
                               | Some ((ts2, stack2, cache2), ok) \<Rightarrow>
                                   if \<not> ok then Some ((ts2, stack2, cache2), False)
                                   else let t2 = combo (ts2 ! this)
                                        in Some ((ts2[this := CombinationCondition (t2\<lparr>ccUnSlicedPartCondition :=
                                              evaluateCombinationCondition (ccUnSlicedChildren t2) op cache2,
                                              ccInitialized := True\<rparr>)],
                                            stack2[ccIndex t := False],
                                            cache2[ccIndex t := evaluateCombinationCondition (ccChildren t2) op cache2]), True)))"
| "cond_init_children n cfgs mp this [] s = Some (s, True)"
| "cond_init_children n cfgs mp this (child # cs) (ts, stack, cache) =
     (case map_of mp child of
        None \<Rightarrow> Some ((ts, stack, cache), False)
      | Some childIndex \<Rightarrow>
          if stack ! nat childIndex then Some ((ts, stack, cache), False)
          else (case condition_init n cfgs mp (nat childIndex) (ts, stack, cache) of
                  None \<Rightarrow> None
                | Some ((ts1, stack1, cache1), ok) \<Rightarrow>
                    if \<not> ok then Some ((ts1, stack1, cache1), False)
                    else cond_init_children n cfgs mp this cs
                           (ts1[this := CombinationCondition (addConditionChild childIndex (ts1 ! nat childIndex) (combo (ts1 ! this)))],
                            stack1, cache1)))"
| "cond_refill n cfgs mp [] s = Some s"
| "cond_refill n cfgs mp (c # cs) (ts, stack, cache) =
     (if cache ! nat c = kNotEvaluated then
        (case condition_init n cfgs mp (nat c) (ts, stack, cache) of
           None \<Rightarrow> None
         | Some (s, _) \<Rightarrow> cond_refill n cfgs mp cs s)
      else cond_refill n cfgs mp cs (ts, stack, cache))"
  by pat_completeness auto
termination
  by (relation "measures [\<lambda>x. case x of Inl (n, _) \<Rightarrow> n | Inr (Inl (n, _)) \<Rightarrow> n | Inr (Inr (n, _)) \<Rightarrow> n,
        \<lambda>x. case x of Inl _ \<Rightarrow> 0 | Inr (Inl (n, cfgs, mp, this, cs, s)) \<Rightarrow> Suc (length cs)
                    | Inr (Inr (n, cfgs, mp, cs, s)) \<Rightarrow> Suc (length cs)]") auto

fun createConditions :: "predicate list \<Rightarrow> nat \<Rightarrow> (int, int) umap \<Rightarrow> int \<times> int \<times> int \<Rightarrow> condition_tracker list \<Rightarrow> (int, int) umap \<Rightarrow>
    (condition_tracker list \<times> (int, int) umap) option" where
  "createConditions [] i mtm g ts mp = Some (ts, mp)"
| "createConditions (p # ps) i mtm g ts mp =
     (case createConditionTracker p i mtm g of
        None \<Rightarrow> None
      | Some t \<Rightarrow> if map_of mp (pr_id p) \<noteq> None then None
                  else createConditions ps (i + 1) mtm g (ts @ [t]) (AList.update (pr_id p) (int i) mp))"

definition pushCondition :: "nat \<Rightarrow> (int, nat list) umap \<Rightarrow> int \<Rightarrow> (int, nat list) umap" where
  "pushCondition i tm idx = AList.update idx ((case map_of tm idx of None \<Rightarrow> [] | Some l \<Rightarrow> l) @ [i]) tm"

fun initAllConditions :: "nat \<Rightarrow> predicate list \<Rightarrow> (int, int) umap \<Rightarrow> nat list \<Rightarrow> cond_state \<Rightarrow> (int, nat list) umap \<Rightarrow>
    (cond_state \<times> (int, nat list) umap) option option" where
  "initAllConditions n cfgs mp [] s tm = Some (Some (s, tm))"
| "initAllConditions n cfgs mp (i # is) s tm =
     (case condition_init n cfgs mp i s of
        None \<Rightarrow> None
      | Some ((ts, stack, cache), ok) \<Rightarrow>
          if \<not> ok then Some None
          else initAllConditions n cfgs mp is (ts, stack, cache)
                 (foldl (pushCondition i) tm (getAtomMatchingTrackerIndex (ts ! i))))"

definition initConditions ::
  "nat \<Rightarrow> predicate list \<Rightarrow> (int, int) umap \<Rightarrow> int \<times> int \<times> int \<Rightarrow>
     (condition_tracker list \<times> condition_state list \<times> (int, nat list) umap) option option" where
  "initConditions fuel cfgs mtm garbage =
     (case createConditions cfgs 0 mtm garbage [] [] of
        None \<Rightarrow> Some None
      | Some (ts, mp) \<Rightarrow>
          map_option (map_option (\<lambda>((ts', _, cache), tm). (ts', cache, tm)))
            (initAllConditions fuel cfgs mp [0..<length ts]
               (ts, replicate (length ts) False, replicate (length cfgs) kNotEvaluated) []))"

section \<open>Config updates\<close>

text \<open>A preserved condition is told its new index; its children are updated first and looked up again.\<close>

definition simplePredicateOf :: "predicate \<Rightarrow> simple_predicate" where
  "simplePredicateOf p = (case pr_contents p of
      kSimplePredicate sp \<Rightarrow> sp
    | _ \<Rightarrow> \<lparr>sp_start = None, sp_stop = None, sp_stop_all = None, sp_count_nesting = True,
           sp_initial_value = INITIAL_UNKNOWN, sp_dimensions = None\<rparr>)"

definition updateConditionChild :: "int \<Rightarrow> condition_tracker \<Rightarrow> combination_tracker \<Rightarrow> combination_tracker" where
  "updateConditionChild childIndex child t =
     (let t1 = (if isSliced child then t\<lparr>ccSlicedChildren := ccSlicedChildren t @ [childIndex]\<rparr>
                else t\<lparr>ccUnSlicedChildren := ccUnSlicedChildren t @ [childIndex]\<rparr>)
      in t1\<lparr>ccChildren := ccChildren t1 @ [childIndex],
            ccTrackerIndex := List.union (ccTrackerIndex t1) (getAtomMatchingTrackerIndex child)\<rparr>)"

function (sequential)
  condition_onConfigUpdated :: "nat \<Rightarrow> predicate list \<Rightarrow> (int, int) umap \<Rightarrow> (int, int) umap \<Rightarrow> nat \<Rightarrow> condition_tracker list \<Rightarrow>
    (condition_tracker list \<times> bool) option" and
  update_children :: "nat \<Rightarrow> predicate list \<Rightarrow> (int, int) umap \<Rightarrow> (int, int) umap \<Rightarrow> nat \<Rightarrow> int list \<Rightarrow> condition_tracker list \<Rightarrow>
    (condition_tracker list \<times> bool) option"
where
  "condition_onConfigUpdated 0 protos mtm ctm index ts = None"
| "condition_onConfigUpdated (Suc n) protos mtm ctm index ts =
     (case ts ! index of
        SimpleCondition t \<Rightarrow>
          Some (ts[index := SimpleCondition (simple_onConfigUpdated (simplePredicateOf (protos ! index)) index mtm t)], True)
      | CombinationCondition t \<Rightarrow>
          update_children n protos mtm ctm index (snd (predicateCombination (protos ! index)))
            (ts[index := CombinationCondition (t\<lparr>ccIndex := index, ccTrackerIndex := [], ccChildren := [],
                           ccUnSlicedChildren := [], ccSlicedChildren := []\<rparr>)]))"
| "update_children n protos mtm ctm this [] ts = Some (ts, True)"
| "update_children n protos mtm ctm this (child # cs) ts =
     (case map_of ctm child of
        None \<Rightarrow> Some (ts, False)
      | Some childIndex \<Rightarrow>
          (case condition_onConfigUpdated n protos mtm ctm (nat childIndex) ts of
             None \<Rightarrow> None
           | Some (ts1, ok) \<Rightarrow>
               if \<not> ok then Some (ts1, False)
               else update_children n protos mtm ctm this cs
                      (ts1[this := CombinationCondition (updateConditionChild childIndex (ts1 ! nat childIndex) (combo (ts1 ! this)))])))"
  by pat_completeness auto
termination
  by (relation "measures [\<lambda>x. case x of Inl (n, _) \<Rightarrow> n | Inr (n, _) \<Rightarrow> n,
        \<lambda>x. case x of Inl _ \<Rightarrow> 0 | Inr (n, p, m, c, this, cs, ts) \<Rightarrow> Suc (length cs)]") auto

section \<open>Queries\<close>

function (sequential)
  isConditionMet :: "nat \<Rightarrow> (int, dim_key) umap \<Rightarrow> bool \<Rightarrow> condition_tracker list \<Rightarrow> nat \<Rightarrow> condition_state list \<Rightarrow> condition_state list option" and
  conditions_met :: "nat \<Rightarrow> (int, dim_key) umap \<Rightarrow> bool \<Rightarrow> condition_tracker list \<Rightarrow> int list \<Rightarrow> condition_state list \<Rightarrow> condition_state list option"
where
  "isConditionMet 0 ps pl ts this cache = None"
| "isConditionMet (Suc n) ps pl ts this cache =
     (case ts ! this of
        SimpleCondition t \<Rightarrow>
          Some (if cache ! scIndex t \<noteq> kNotEvaluated then cache else cache[scIndex t := simple_isConditionMet ps pl t])
      | CombinationCondition t \<Rightarrow>
          (case conditions_met n ps pl ts (ccChildren t) cache of
             None \<Rightarrow> None
           | Some cache1 \<Rightarrow> Some (cache1[ccIndex t := evaluateCombinationCondition (ccChildren t) (ccLogicalOperation t) cache1])))"
| "conditions_met n ps pl ts [] cache = Some cache"
| "conditions_met n ps pl ts (c # cs) cache =
     (case (if cache ! nat c = kNotEvaluated then isConditionMet n ps pl ts (nat c) cache else Some cache) of
        None \<Rightarrow> None
      | Some cache1 \<Rightarrow> conditions_met n ps pl ts cs cache1)"
  by pat_completeness auto
termination
  by (relation "measures [\<lambda>x. case x of Inl (n, _) \<Rightarrow> n | Inr (n, _) \<Rightarrow> n,
        \<lambda>x. case x of Inl _ \<Rightarrow> 0 | Inr (n, ps, pl, ts, cs, c) \<Rightarrow> Suc (length cs)]") auto

definition wizard_query :: "nat \<Rightarrow> condition_tracker list \<Rightarrow> nat \<Rightarrow> (int, dim_key) umap \<Rightarrow> bool \<Rightarrow> condition_state option" where
  "wizard_query fuel ts index parameters isPartialLink =
     map_option (\<lambda>cache. cache ! index)
       (isConditionMet fuel parameters isPartialLink ts index (replicate (length ts) kNotEvaluated))"

fun getChangedToTrueDimensions :: "nat \<Rightarrow> condition_tracker list \<Rightarrow> nat \<Rightarrow> dim_key list option" where
  "getChangedToTrueDimensions 0 ts this = None"
| "getChangedToTrueDimensions (Suc n) ts this =
     (case ts ! this of
        SimpleCondition t \<Rightarrow> if scSliced t then Some (mLastChangedToTrueDimensions t) else None
      | CombinationCondition t \<Rightarrow>
          foldr (\<lambda>c r. case getChangedToTrueDimensions n ts (nat c) of Some d \<Rightarrow> Some d | None \<Rightarrow> r) (ccChildren t) None)"

fun getChangedToFalseDimensions :: "nat \<Rightarrow> condition_tracker list \<Rightarrow> nat \<Rightarrow> dim_key list option" where
  "getChangedToFalseDimensions 0 ts this = None"
| "getChangedToFalseDimensions (Suc n) ts this =
     (case ts ! this of
        SimpleCondition t \<Rightarrow> if scSliced t then Some (mLastChangedToFalseDimensions t) else None
      | CombinationCondition t \<Rightarrow>
          foldr (\<lambda>c r. case getChangedToFalseDimensions n ts (nat c) of Some d \<Rightarrow> Some d | None \<Rightarrow> r) (ccChildren t) None)"

definition IsChangedDimensionTrackable :: "condition_tracker list \<Rightarrow> int \<Rightarrow> bool" where
  "IsChangedDimensionTrackable ts index =
     (if index \<ge> 0 \<and> index < int (length ts)
      then (case ts ! nat index of
              SimpleCondition _ \<Rightarrow> True
            | CombinationCondition t \<Rightarrow> ccLogicalOperation t = op_AND \<and> length (ccSlicedChildren t) = 1)
      else False)"

definition IsSimpleCondition :: "condition_tracker list \<Rightarrow> int \<Rightarrow> bool" where
  "IsSimpleCondition ts index =
     (if index \<ge> 0 \<and> index < int (length ts)
      then (case ts ! nat index of SimpleCondition _ \<Rightarrow> True | CombinationCondition _ \<Rightarrow> False) else False)"

fun equalOutputDimensions :: "nat \<Rightarrow> condition_tracker list \<Rightarrow> matcher list \<Rightarrow> int \<Rightarrow> bool" where
  "equalOutputDimensions 0 ts dims this = False"
| "equalOutputDimensions (Suc n) ts dims this =
     (case ts ! nat this of
        SimpleCondition t \<Rightarrow> equalDimensions (mOutputDimensions t) dims
      | CombinationCondition t \<Rightarrow>
          if length (ccSlicedChildren t) \<noteq> 1 \<or> hd (ccSlicedChildren t) \<ge> int (length ts) \<or> ccLogicalOperation t \<noteq> op_AND then False
          else equalOutputDimensions n ts dims (hd (ccSlicedChildren t)))"

definition wizard_equalOutputDimensions :: "nat \<Rightarrow> condition_tracker list \<Rightarrow> int \<Rightarrow> matcher list \<Rightarrow> bool" where
  "wizard_equalOutputDimensions fuel ts index dims =
     (if index \<ge> 0 \<and> index < int (length ts) then equalOutputDimensions fuel ts dims index else False)"

text \<open>\<open>None\<close> for the null pointer. A simple tracker never writes its unsliced part.\<close>

fun getSlicedDimensionMap :: "nat \<Rightarrow> condition_tracker list \<Rightarrow> int \<Rightarrow> (dim_key, int) umap option" where
  "getSlicedDimensionMap 0 ts this = None"
| "getSlicedDimensionMap (Suc n) ts this =
     (case ts ! nat this of
        SimpleCondition t \<Rightarrow> Some (mSlicedConditionState t)
      | CombinationCondition t \<Rightarrow>
          if length (ccSlicedChildren t) = 1 then getSlicedDimensionMap n ts (hd (ccSlicedChildren t)) else None)"

definition getUnSlicedPartConditionState :: "condition_tracker list \<Rightarrow> int \<Rightarrow> condition_state" where
  "getUnSlicedPartConditionState ts index =
     (case ts ! nat index of SimpleCondition _ \<Rightarrow> kUnknown | CombinationCondition t \<Rightarrow> ccUnSlicedPartCondition t)"

section \<open>Evaluating an event\<close>

type_synonym eval_state = "condition_tracker list \<times> condition_state list \<times> bool list"

text \<open>The end of \<^verbatim>\<open>CombinationConditionTracker::evaluateCondition\<close>, once the children are evaluated.\<close>

definition finishCombination :: "combination_tracker \<Rightarrow> condition_state list \<Rightarrow> bool list \<Rightarrow>
    combination_tracker \<times> condition_state \<times> bool" where
  "finishCombination t cache changed =
     (let newCondition = evaluateCombinationCondition (ccChildren t) (ccLogicalOperation t) cache
      in if \<not> ccSliced t
         then (t\<lparr>ccUnSlicedPartCondition := newCondition\<rparr>, newCondition, ccUnSlicedPartCondition t \<noteq> newCondition)
         else (t\<lparr>ccUnSlicedPartCondition :=
                 evaluateCombinationCondition (ccUnSlicedChildren t) (ccLogicalOperation t) cache\<rparr>,
               newCondition,
               changed ! ccIndex t \<or> list_ex (\<lambda>c. changed ! nat c) (ccChildren t)))"

function (sequential)
  evaluateCondition :: "nat \<Rightarrow> field_value list \<Rightarrow> bool list \<Rightarrow> nat \<Rightarrow> eval_state \<Rightarrow> eval_state option" and
  evaluate_children :: "nat \<Rightarrow> field_value list \<Rightarrow> bool list \<Rightarrow> int list \<Rightarrow> eval_state \<Rightarrow> eval_state option"
where
  "evaluateCondition 0 vals matched this s = None"
| "evaluateCondition (Suc n) vals matched this (ts, cache, changed) =
     (if cache ! conditionIndex (ts ! this) \<noteq> kNotEvaluated then Some (ts, cache, changed)
      else case ts ! this of
        SimpleCondition t \<Rightarrow>
          let (t', c, ch) = simple_evaluateCondition vals matched t
          in Some (ts[this := SimpleCondition t'], cache[scIndex t := c], changed[scIndex t := ch])
      | CombinationCondition t \<Rightarrow>
          (case evaluate_children n vals matched (ccChildren t) (ts, cache, changed) of
             None \<Rightarrow> None
           | Some (ts1, cache1, changed1) \<Rightarrow>
               let (t', c, ch) = finishCombination (combo (ts1 ! this)) cache1 changed1
               in Some (ts1[this := CombinationCondition t'], cache1[ccIndex t := c], changed1[ccIndex t := ch])))"
| "evaluate_children n vals matched [] s = Some s"
| "evaluate_children n vals matched (c # cs) (ts, cache, changed) =
     (case (if cache ! nat c = kNotEvaluated then evaluateCondition n vals matched (nat c) (ts, cache, changed)
            else Some (ts, cache, changed)) of
        None \<Rightarrow> None
      | Some s \<Rightarrow> evaluate_children n vals matched cs s)"
  by pat_completeness auto
termination
  by (relation "measures [\<lambda>x. case x of Inl (n, _) \<Rightarrow> n | Inr (n, _) \<Rightarrow> n,
        \<lambda>x. case x of Inl _ \<Rightarrow> 0 | Inr (n, v, m, cs, s) \<Rightarrow> Suc (length cs)]") auto

text \<open>The loop over the conditions that some matched atom may affect, from empty caches.\<close>

fun evaluateSome :: "nat \<Rightarrow> field_value list \<Rightarrow> bool list \<Rightarrow> nat list \<Rightarrow> eval_state \<Rightarrow> eval_state option" where
  "evaluateSome n vals matched [] s = Some s"
| "evaluateSome n vals matched (i # is) s =
     (case evaluateCondition n vals matched i s of
        None \<Rightarrow> None
      | Some s' \<Rightarrow> evaluateSome n vals matched is s')"

definition evaluateConditions :: "nat \<Rightarrow> field_value list \<Rightarrow> bool list \<Rightarrow> bool list \<Rightarrow> condition_tracker list \<Rightarrow> eval_state option" where
  "evaluateConditions n vals matched toBeEvaluated ts =
     evaluateSome n vals matched (filter (\<lambda>i. toBeEvaluated ! i) [0..<length ts])
       (ts, replicate (length ts) kNotEvaluated, replicate (length ts) False)"

section \<open>Acyclic condition graphs\<close>

definition cond_kids :: "condition_tracker \<Rightarrow> nat list" where
  "cond_kids c = (case c of SimpleCondition _ \<Rightarrow> [] | CombinationCondition t \<Rightarrow> map nat (ccChildren t))"

definition cgraph_ok :: "(nat \<Rightarrow> nat) \<Rightarrow> condition_tracker list \<Rightarrow> bool" where
  "cgraph_ok rank ts \<longleftrightarrow> (\<forall>i < length ts. conditionIndex (ts ! i) = i \<and> rank i < length ts \<and>
     (\<forall>k \<in> set (cond_kids (ts ! i)). k < length ts \<and> rank k < rank i) \<and>
     (case ts ! i of
        SimpleCondition t \<Rightarrow> mInitialValue t \<noteq> kNotEvaluated
      | CombinationCondition t \<Rightarrow> set (ccUnSlicedChildren t) \<subseteq> set (ccChildren t)))"

lemma cgraph_index: "cgraph_ok rank ts \<Longrightarrow> i < length ts \<Longrightarrow> conditionIndex (ts ! i) = i"
  and cgraph_rank: "cgraph_ok rank ts \<Longrightarrow> i < length ts \<Longrightarrow> rank i < length ts"
  and cgraph_kids: "cgraph_ok rank ts \<Longrightarrow> i < length ts \<Longrightarrow> k \<in> set (cond_kids (ts ! i)) \<Longrightarrow> k < length ts \<and> rank k < rank i"
  by (auto simp: cgraph_ok_def)

lemma cgraph_initial: "cgraph_ok rank ts \<Longrightarrow> i < length ts \<Longrightarrow> ts ! i = SimpleCondition t \<Longrightarrow> mInitialValue t \<noteq> kNotEvaluated"
  and cgraph_unsliced: "cgraph_ok rank ts \<Longrightarrow> i < length ts \<Longrightarrow> ts ! i = CombinationCondition u \<Longrightarrow>
    set (ccUnSlicedChildren u) \<subseteq> set (ccChildren u) \<and> ccIndex u = i"
  by (auto simp: cgraph_ok_def dest!: spec[of _ i])

lemma cgraph_not_own_kid: "cgraph_ok rank ts \<Longrightarrow> i < length ts \<Longrightarrow> i \<notin> set (cond_kids (ts ! i))"
  using cgraph_kids by blast

text \<open>A combination reads the cache at its children only.\<close>

lemma scanChildren_cong: "(\<And>c. c \<in> set cs \<Longrightarrow> a ! nat c = b ! nat c) \<Longrightarrow> scanChildren a cs acc = scanChildren b cs acc"
proof (induction a cs acc rule: scanChildren.induct)
  case (2 cache c cs u f t)
  then show ?case by (simp add: Let_def)
qed simp

lemma evaluateCombination_cong:
  assumes "\<And>c. c \<in> set cs \<Longrightarrow> a ! nat c = b ! nat c"
  shows "evaluateCombinationCondition cs op a = evaluateCombinationCondition cs op b"
proof (cases "cs = []")
  case False
  then have "a ! nat (cs ! 0) = b ! nat (cs ! 0)" using assms by simp
  moreover have "scanChildren a cs (False, False, False) = scanChildren b cs (False, False, False)"
    by (rule scanChildren_cong) (rule assms)
  ultimately show ?thesis by (simp add: evaluateCombinationCondition_def)
qed (simp add: evaluateCombinationCondition_def)

lemma state_or_known: "a \<noteq> kNotEvaluated \<Longrightarrow> state_or a b \<noteq> kNotEvaluated"
  by (cases a; cases b) (auto simp: state_or_def)

lemma simple_isConditionMet_known:
  assumes "mInitialValue t \<noteq> kNotEvaluated"
  shows "simple_isConditionMet ps pl t \<noteq> kNotEvaluated"
proof -
  have "foldl (\<lambda>s (k, n). if dim_contains k key then state_or s (if n > 0 then kTrue else kFalse) else s) s0 m \<noteq> kNotEvaluated"
    if "s0 \<noteq> kNotEvaluated" for s0 key and m :: "(dim_key, int) umap"
    using that
  proof (induction m arbitrary: s0)
    case (Cons e m)
    then show ?case by (cases e) (simp add: state_or_known)
  qed simp
  then show ?thesis
    using assms by (auto simp: simple_isConditionMet_def Let_def state_or_known split: option.split)
qed

lemma simple_evaluate_known:
  assumes "mInitialValue t \<noteq> kNotEvaluated"
  shows "fst (snd (simple_evaluateCondition vals matched t)) \<noteq> kNotEvaluated"
  using assms
  by (auto simp: simple_evaluateCondition_def handleStopAll_def handleConditionEvent_def currentCondition_def Let_def
      split: option.splits)

section \<open>Queries\<close>

text \<open>The value a node must have, given those of its children.\<close>

definition query_local :: "(int, dim_key) umap \<Rightarrow> bool \<Rightarrow> condition_tracker list \<Rightarrow> condition_state list \<Rightarrow> nat \<Rightarrow> condition_state" where
  "query_local ps pl ts cache i = (case ts ! i of
      SimpleCondition t \<Rightarrow> simple_isConditionMet ps pl t
    | CombinationCondition t \<Rightarrow> evaluateCombinationCondition (ccChildren t) (ccLogicalOperation t) cache)"

definition query_good where
  "query_good c cache \<longleftrightarrow> (case c of (rank, ts, ps, pl) \<Rightarrow> length cache = length ts \<and>
     (\<forall>j < length ts. cache ! j \<noteq> kNotEvaluated \<longrightarrow> cache ! j = query_local ps pl ts cache j \<and>
        (\<forall>k \<in> set (cond_kids (ts ! j)). cache ! k \<noteq> kNotEvaluated)))"

lemma conditions_met_visit:
  "conditions_met n ps pl ts cs cache = visit (\<lambda>cache k. cache ! k = kNotEvaluated) (isConditionMet n ps pl ts) (map nat cs) cache"
  by (induction cs arbitrary: cache) (auto split: option.split)

lemma query_local_cong:
  assumes "cgraph_ok rank ts" "j < length ts" "\<And>k. k \<in> set (cond_kids (ts ! j)) \<Longrightarrow> a ! k = b ! k"
  shows "query_local ps pl ts a j = query_local ps pl ts b j"
  using assms(3) by (auto simp: query_local_def cond_kids_def intro!: evaluateCombination_cong split: condition_tracker.splits)

lemma query_local_known: "cgraph_ok rank ts \<Longrightarrow> j < length ts \<Longrightarrow> query_local ps pl ts cache j \<noteq> kNotEvaluated"
  by (cases "ts ! j") (simp_all add: query_local_def simple_isConditionMet_known[OF cgraph_initial])

interpretation query_graph: cached_graph
  "\<lambda>(rank, ts, ps, pl). cgraph_ok rank ts" "\<lambda>(rank, ts, ps, pl). length ts" "\<lambda>(rank, ts, ps, pl). rank"
  "\<lambda>(rank, ts, ps, pl) i. cond_kids (ts ! i)" query_good "\<lambda>cache k. cache ! k = kNotEvaluated"
  "\<lambda>(rank, ts, ps, pl) i cache. cache[i := query_local ps pl ts cache i]"
  "\<lambda>(rank, ts, ps, pl) n i cache. isConditionMet n ps pl ts i cache"
proof (unfold_locales, goal_cases)
  case (1 c i k)
  then show ?case by (cases c) (auto dest: cgraph_kids)
next
  case (2 c s i n)
  obtain rank ts ps pl where c: "c = (rank, ts, ps, pl)" by (cases c)
  show ?case
    using 2 cgraph_index[of rank ts i]
    by (cases "ts ! i") (simp_all add: c cond_kids_def query_local_def conditions_met_visit option.case_eq_if map_option_case)
next
  case (3 c s i)
  obtain rank ts ps pl where c: "c = (rank, ts, ps, pl)" by (cases c)
  let ?s = "s[i := query_local ps pl ts s i]"
  have ok: "cgraph_ok rank ts" "i < length ts" "length s = length ts" "s ! i = kNotEvaluated"
    and good: "\<And>j. j < length ts \<Longrightarrow> s ! j \<noteq> kNotEvaluated \<Longrightarrow> s ! j = query_local ps pl ts s j \<and>
        (\<forall>k \<in> set (cond_kids (ts ! j)). s ! k \<noteq> kNotEvaluated)"
    and mine: "\<forall>k \<in> set (cond_kids (ts ! i)). s ! k \<noteq> kNotEvaluated"
    using 3 unfolding c query_good_def prod.case by blast+
  have "?s ! j = query_local ps pl ts ?s j \<and> (\<forall>k \<in> set (cond_kids (ts ! j)). ?s ! k \<noteq> kNotEvaluated)"
    if j: "j < length ts" "?s ! j \<noteq> kNotEvaluated" for j
  proof -
    have kids: "\<forall>k \<in> set (cond_kids (ts ! j)). s ! k \<noteq> kNotEvaluated"
      using good[of j] mine j by (cases "j = i") simp_all
    then have ni: "i \<notin> set (cond_kids (ts ! j))" using ok(4) by auto
    then have "query_local ps pl ts ?s j = query_local ps pl ts s j" by (intro query_local_cong[OF ok(1) j(1)]) (metis nth_list_update_neq)
    moreover have "?s ! j = query_local ps pl ts s j" using good[of j] j ok by (cases "j = i") simp_all
    ultimately show ?thesis using kids ni by (metis nth_list_update_neq)
  qed
  then show ?case using ok unfolding c query_good_def prod.case length_list_update by blast
next
  case (4 c s i j)
  obtain rank ts ps pl where c: "c = (rank, ts, ps, pl)" by (cases c)
  have "length s = length ts" "cgraph_ok rank ts" "i < length ts" using 4 unfolding c query_good_def prod.case by blast+
  then show ?case by (simp add: c nth_list_update query_local_known)
qed

section \<open>Events\<close>

definition eval_local :: "field_value list \<Rightarrow> bool list \<Rightarrow> condition_tracker list \<Rightarrow> condition_state list \<Rightarrow> bool list \<Rightarrow> nat \<Rightarrow>
    condition_tracker \<times> condition_state \<times> bool" where
  "eval_local vals matched ts cache changed i = (case ts ! i of
      SimpleCondition t \<Rightarrow> let (t', c, ch) = simple_evaluateCondition vals matched t in (SimpleCondition t', c, ch)
    | CombinationCondition t \<Rightarrow> let (t', c, ch) = finishCombination t cache (changed[i := False]) in (CombinationCondition t', c, ch))"

text \<open>The trackers that were evaluated are one step on from where they started; the others have not moved.\<close>

definition cond_eval_good where
  "cond_eval_good c s \<longleftrightarrow> (case c of (rank, ts0, vals, matched) \<Rightarrow> case s of (ts, cache, changed) \<Rightarrow>
     length ts = length ts0 \<and> length cache = length ts0 \<and> length changed = length ts0 \<and>
     (\<forall>j < length ts0. if cache ! j = kNotEvaluated then ts ! j = ts0 ! j \<and> \<not> changed ! j
        else (ts ! j, cache ! j, changed ! j) = eval_local vals matched ts0 cache changed j \<and>
             (\<forall>k \<in> set (cond_kids (ts0 ! j)). cache ! k \<noteq> kNotEvaluated)))"

definition eval_finish where
  "eval_finish c i s = (case c of (rank, ts0, vals, matched) \<Rightarrow> case s of (ts, cache, changed) \<Rightarrow>
     case (case ts0 ! i of
         SimpleCondition t \<Rightarrow> let (t', c, ch) = simple_evaluateCondition vals matched t in (SimpleCondition t', c, ch)
       | CombinationCondition _ \<Rightarrow> let (t', c, ch) = finishCombination (combo (ts ! i)) cache changed in (CombinationCondition t', c, ch)) of
       (t, v, ch) \<Rightarrow> (ts[i := t], cache[i := v], changed[i := ch]))"

lemma evaluate_children_visit:
  "evaluate_children n vals matched cs s =
     visit (\<lambda>s k. fst (snd s) ! k = kNotEvaluated) (evaluateCondition n vals matched) (map nat cs) s"
  by (induction cs arbitrary: s) (auto split: option.split)

lemma finishCombination_cong:
  assumes "\<And>k. k \<in> set (ccChildren t) \<Longrightarrow> a ! nat k = b ! nat k \<and> x ! nat k = y ! nat k"
    and "set (ccUnSlicedChildren t) \<subseteq> set (ccChildren t)" "x ! ccIndex t = y ! ccIndex t"
  shows "finishCombination t a x = finishCombination t b y"
proof -
  have "evaluateCombinationCondition (ccChildren t) (ccLogicalOperation t) a = evaluateCombinationCondition (ccChildren t) (ccLogicalOperation t) b"
    by (rule evaluateCombination_cong) (use assms(1) in blast)
  moreover have "evaluateCombinationCondition (ccUnSlicedChildren t) (ccLogicalOperation t) a = evaluateCombinationCondition (ccUnSlicedChildren t) (ccLogicalOperation t) b"
    by (rule evaluateCombination_cong) (use assms(1,2) in blast)
  moreover have "list_ex (\<lambda>c. x ! nat c) (ccChildren t) = list_ex (\<lambda>c. y ! nat c) (ccChildren t)"
    using assms(1) by (auto simp: list_ex_iff)
  ultimately show ?thesis using assms(3) unfolding finishCombination_def Let_def by presburger
qed

lemma eval_local_cong:
  assumes "cgraph_ok rank ts" "j < length ts" "length x = length ts" "length y = length ts"
    and "\<And>k. k \<in> set (cond_kids (ts ! j)) \<Longrightarrow> a ! k = b ! k \<and> x ! k = y ! k"
  shows "eval_local vals matched ts a x j = eval_local vals matched ts b y j"
proof (cases "ts ! j")
  case (CombinationCondition t)
  have "finishCombination t a (x[j := False]) = finishCombination t b (y[j := False])"
  proof (rule finishCombination_cong)
    fix k assume "k \<in> set (ccChildren t)"
    then have k: "nat k \<in> set (cond_kids (ts ! j))" by (simp add: cond_kids_def CombinationCondition)
    then have "nat k \<noteq> j" using cgraph_not_own_kid[OF assms(1,2)] by auto
    then show "a ! nat k = b ! nat k \<and> x[j := False] ! nat k = y[j := False] ! nat k" using assms(5)[OF k] by simp
  qed (use cgraph_unsliced[OF assms(1,2) CombinationCondition] assms(2-4) in simp_all)
  then show ?thesis by (simp add: eval_local_def CombinationCondition)
qed (simp add: eval_local_def)

lemma eval_local_known: "cgraph_ok rank ts \<Longrightarrow> j < length ts \<Longrightarrow> fst (snd (eval_local vals matched ts cache changed j)) \<noteq> kNotEvaluated"
  using simple_evaluate_known[OF cgraph_initial, of rank ts j _ vals matched]
  by (cases "ts ! j") (auto simp: eval_local_def finishCombination_def Let_def split_beta)

lemma simple_evaluate_index: "scIndex (fst (simple_evaluateCondition vals matched t)) = scIndex t"
  by (auto simp: simple_evaluateCondition_def handleStopAll_def handleConditionEvent_def Let_def split: option.splits)

lemma eval_goodD:
  assumes "cond_eval_good (rank, ts0, vals, matched) (ts, cache, changed)"
  shows "length ts = length ts0" "length cache = length ts0" "length changed = length ts0"
    and "j < length ts0 \<Longrightarrow> cache ! j = kNotEvaluated \<Longrightarrow> ts ! j = ts0 ! j \<and> \<not> changed ! j"
    and "j < length ts0 \<Longrightarrow> cache ! j \<noteq> kNotEvaluated \<Longrightarrow>
       (ts ! j, cache ! j, changed ! j) = eval_local vals matched ts0 cache changed j \<and>
       (\<forall>k \<in> set (cond_kids (ts0 ! j)). cache ! k \<noteq> kNotEvaluated)"
  using assms unfolding cond_eval_good_def prod.case by meson+

lemma eval_finish_eq:
  assumes "cond_eval_good (rank, ts0, vals, matched) (ts, cache, changed)" "i < length ts0" "cache ! i = kNotEvaluated"
  shows "eval_finish (rank, ts0, vals, matched) i (ts, cache, changed) =
      (case eval_local vals matched ts0 cache changed i of (t, v, ch) \<Rightarrow> (ts[i := t], cache[i := v], changed[i := ch]))"
proof -
  have i: "ts ! i = ts0 ! i" "\<not> changed ! i" using eval_goodD(4)[OF assms(1-3)] by simp_all
  then have "changed[i := False] = changed" using list_update_id[of changed i] by simp
  with i(1) show ?thesis by (simp add: eval_finish_def eval_local_def combo_def split: condition_tracker.split)
qed

lemma eval_finish_good:
  assumes ok: "cgraph_ok rank ts0" and g: "cond_eval_good (rank, ts0, vals, matched) (ts, cache, changed)"
    and i: "i < length ts0" "cache ! i = kNotEvaluated" and mine: "\<forall>k \<in> set (cond_kids (ts0 ! i)). cache ! k \<noteq> kNotEvaluated"
  shows "cond_eval_good (rank, ts0, vals, matched) (eval_finish (rank, ts0, vals, matched) i (ts, cache, changed))"
proof -
  note gd = eval_goodD[OF g]
  note fin = eval_finish_eq[OF g i]
  obtain t v ch where l: "eval_local vals matched ts0 cache changed i = (t, v, ch)" by (cases "eval_local vals matched ts0 cache changed i")
  have v: "v \<noteq> kNotEvaluated" using eval_local_known[OF ok i(1), of vals matched cache changed] by (simp add: l)
  let ?ts = "ts[i := t]" and ?cache = "cache[i := v]" and ?changed = "changed[i := ch]"
  have step: "if ?cache ! j = kNotEvaluated then ?ts ! j = ts0 ! j \<and> \<not> ?changed ! j
        else (?ts ! j, ?cache ! j, ?changed ! j) = eval_local vals matched ts0 ?cache ?changed j \<and>
             (\<forall>k \<in> set (cond_kids (ts0 ! j)). ?cache ! k \<noteq> kNotEvaluated)" if j: "j < length ts0" for j
  proof (cases "j \<noteq> i \<and> cache ! j = kNotEvaluated")
    case True
    then show ?thesis using gd(4)[of j] j by simp
  next
    case False
    then have kids: "\<forall>k \<in> set (cond_kids (ts0 ! j)). cache ! k \<noteq> kNotEvaluated" using gd(5)[of j] mine j by (cases "j = i") simp_all
    then have ni: "k \<noteq> i" if "k \<in> set (cond_kids (ts0 ! j))" for k using i(2) that by auto
    have "eval_local vals matched ts0 ?cache ?changed j = eval_local vals matched ts0 cache changed j"
      by (rule eval_local_cong[OF ok j]) (auto simp: gd(3) dest!: ni)
    moreover have "(?ts ! j, ?cache ! j, ?changed ! j) = eval_local vals matched ts0 cache changed j"
      using False gd(1-3) gd(5)[of j] j l by (cases "j = i") simp_all
    moreover have "?cache ! j \<noteq> kNotEvaluated" using False v gd(2) j by (cases "j = i") simp_all
    moreover have "\<forall>k \<in> set (cond_kids (ts0 ! j)). ?cache ! k \<noteq> kNotEvaluated" using kids ni by (metis nth_list_update_neq)
    ultimately show ?thesis by simp
  qed
  show ?thesis unfolding fin l prod.case cond_eval_good_def using gd(1-3) step by simp
qed

interpretation eval_graph: cached_graph
  "\<lambda>(rank, ts, vals, matched). cgraph_ok rank ts" "\<lambda>(rank, ts, vals, matched). length ts" "\<lambda>(rank, ts, vals, matched). rank"
  "\<lambda>(rank, ts, vals, matched) i. cond_kids (ts ! i)" cond_eval_good "\<lambda>s k. fst (snd s) ! k = kNotEvaluated"
  eval_finish "\<lambda>(rank, ts, vals, matched) n i s. evaluateCondition n vals matched i s"
proof (unfold_locales, goal_cases)
  case (1 c i k)
  then show ?case by (cases c) (auto dest: cgraph_kids)
next
  case (2 c s i n)
  obtain rank ts0 vals matched where c: "c = (rank, ts0, vals, matched)" by (cases c)
  obtain ts cache changed where s: "s = (ts, cache, changed)" by (cases s)
  have ok: "cgraph_ok rank ts0" "i < length ts0" "cache ! i = kNotEvaluated" and g: "cond_eval_good (rank, ts0, vals, matched) (ts, cache, changed)"
    using 2 by (simp_all add: c s)
  have i: "ts ! i = ts0 ! i" "conditionIndex (ts0 ! i) = i" using eval_goodD(4)[OF g ok(2,3)] cgraph_index[OF ok(1,2)] by simp_all
  show ?case
    using ok i by (cases "ts0 ! i") (auto simp: c s cond_kids_def eval_finish_def evaluate_children_visit Let_def
        map_option_case split: prod.splits option.splits)
next
  case (3 c s i)
  obtain rank ts0 vals matched where c: "c = (rank, ts0, vals, matched)" by (cases c)
  obtain ts cache changed where s: "s = (ts, cache, changed)" by (cases s)
  show ?case using 3 eval_finish_good[of rank ts0 vals matched ts cache changed i] by (simp add: c s)
next
  case (4 c s i j)
  obtain rank ts0 vals matched where c: "c = (rank, ts0, vals, matched)" by (cases c)
  obtain ts cache changed where s: "s = (ts, cache, changed)" by (cases s)
  have g: "cond_eval_good (rank, ts0, vals, matched) (ts, cache, changed)" and ok: "cgraph_ok rank ts0" "i < length ts0" "cache ! i = kNotEvaluated"
    using 4 by (simp_all add: c s)
  obtain t v ch where l: "eval_local vals matched ts0 cache changed i = (t, v, ch)" by (cases "eval_local vals matched ts0 cache changed i")
  have v: "v \<noteq> kNotEvaluated" using eval_local_known[OF ok(1,2), of vals matched cache changed] by (simp add: l)
  show ?case using eval_goodD(2)[OF g] v ok(2,3) by (simp add: c s eval_finish_eq[OF g ok(2,3)] l nth_list_update)
qed

lemma evaluateSome_visit:
  assumes ok: "cgraph_ok rank ts0" and n: "length ts0 \<le> n"
  shows "cond_eval_good (rank, ts0, vals, matched) s \<Longrightarrow> \<forall>i \<in> set is. i < length ts0 \<Longrightarrow>
    evaluateSome n vals matched is s = visit (\<lambda>s k. fst (snd s) ! k = kNotEvaluated) (evaluateCondition n vals matched) is s"
proof (induction "is" arbitrary: s)
  case (Cons i xs)
  obtain ts cache changed where s: "s = (ts, cache, changed)" by (cases s)
  have g: "cond_eval_good (rank, ts0, vals, matched) (ts, cache, changed)" and i: "i < length ts0" using Cons.prems by (simp_all add: s)
  obtain m where m: "n = Suc m" using n i by (cases n) auto
  show ?case
  proof (cases "cache ! i = kNotEvaluated")
    case True
    have r: "rank i < n" using cgraph_rank[OF ok i] n by simp
    from eval_graph.run_settles[of "(rank, ts0, vals, matched)" s i n] ok g i True r obtain s' where
      s': "evaluateCondition n vals matched i s = Some s'" "eval_graph.settles (rank, ts0, vals, matched) (Suc (rank i)) s s'"
      by (auto simp: s)
    have "cond_eval_good (rank, ts0, vals, matched) s'" using s'(2) by (simp add: eval_graph.settles_def)
    then show ?thesis using Cons.IH[of s'] Cons.prems(2) True s'(1) by (simp add: s)
  next
    case False
    have "conditionIndex (ts ! i) = i"
    proof -
      have "ts ! i = fst (eval_local vals matched ts0 cache changed i)" using eval_goodD(5)[OF g i False] by (metis fst_conv)
      then show ?thesis using cgraph_index[OF ok i] simple_evaluate_index
        by (cases "ts0 ! i") (auto simp: eval_local_def finishCombination_def Let_def split_beta)
    qed
    then have "evaluateCondition n vals matched i s = Some s" using False by (simp add: s m)
    then show ?thesis using Cons.IH[of s] Cons.prems False by (simp add: s)
  qed
qed simp

section \<open>Properties\<close>

text \<open>
  Fact. Querying a condition of an acyclic condition graph always returns, with the value
  that the graph gives it: there is a cache in which every condition the query reached has the value
  of its own counters (a simple condition) or of its operation on its children's values (a combination),
  whose children were all reached.
\<close>

theorem wizard_query_semantics:
  assumes "cgraph_ok rank ts" and "index < length ts" and "length ts \<le> fuel"
  shows "\<exists>cache. wizard_query fuel ts index ps pl = Some (cache ! index) \<and> cache ! index \<noteq> kNotEvaluated \<and>
    (\<forall>j < length ts. cache ! j \<noteq> kNotEvaluated \<longrightarrow> cache ! j = query_local ps pl ts cache j \<and>
       (\<forall>k \<in> set (cond_kids (ts ! j)). cache ! k \<noteq> kNotEvaluated))"
proof -
  let ?c = "(rank, ts, ps, pl)" and ?s = "replicate (length ts) kNotEvaluated"
  have g: "query_good ?c ?s" by (simp add: query_good_def)
  have "rank index < fuel" using cgraph_rank[OF assms(1,2)] assms(3) by simp
  with query_graph.run_settles[of ?c ?s index fuel] g assms obtain cache where
    c: "isConditionMet fuel ps pl ts index ?s = Some cache" "query_graph.settles ?c (Suc (rank index)) ?s cache" "cache ! index \<noteq> kNotEvaluated"
    by auto
  have "query_good ?c cache" using c(2) by (simp add: query_graph.settles_def)
  then have "\<forall>j < length ts. cache ! j \<noteq> kNotEvaluated \<longrightarrow> cache ! j = query_local ps pl ts cache j \<and>
       (\<forall>k \<in> set (cond_kids (ts ! j)). cache ! k \<noteq> kNotEvaluated)"
    unfolding query_good_def prod.case by blast
  then show ?thesis using c(1,3) by (intro exI[of _ cache]) (simp add: wizard_query_def)
qed

definition example_conditions :: "condition_tracker list" where
  "example_conditions =
     [CombinationCondition \<lparr>ccConditionId = 7, ccIndex = 0, ccInitialized = True, ccTrackerIndex = [0], ccUnSlicedPartCondition = kUnknown,
        ccSliced = False, ccLogicalOperation = op_NOT, ccChildren = [1], ccSlicedChildren = [], ccUnSlicedChildren = [1]\<rparr>,
      SimpleCondition \<lparr>scConditionId = 8, scIndex = 1, scInitialized = True, scTrackerIndex = [0], scSliced = False,
        mStartLogMatcherIndex = 0, mStopLogMatcherIndex = -1, mStopAllLogMatcherIndex = -1, mCountNesting = True,
        mInitialValue = kFalse, mOutputDimensions = [], mContainANYPosition = False, mLastChangedToTrueDimensions = [],
        mLastChangedToFalseDimensions = [], mSlicedConditionState = []\<rparr>]"

lemma example_conditions_ok: "cgraph_ok (\<lambda>i. 1 - i) example_conditions"
  by (auto simp: cgraph_ok_def example_conditions_def cond_kids_def less_Suc_eq nth_Cons split: nat.splits)

theorem wizard_query_semantics_witness:
  "wizard_query 2 example_conditions 1 [] False = Some kFalse"
proof -
  from wizard_query_semantics[OF example_conditions_ok, of 1 2 "[]" False]
  obtain cache where c: "wizard_query 2 example_conditions 1 [] False = Some (cache ! 1)"
    "cache ! 1 = query_local [] False example_conditions cache 1"
    by (auto simp: example_conditions_def)
  have "query_local [] False example_conditions cache 1 = kFalse"
    by (simp add: query_local_def example_conditions_def simple_isConditionMet_def Let_def)
  with c show ?thesis by simp
qed



end
