(* ===== verification/MetricActivation.thy ===== *)
theory MetricActivation
  imports StatsdPrelude
begin

text \<open>
  The activations of \<^verbatim>\<open>bin/src/metrics/MetricProducer.h\<close> and \<^verbatim>\<open>.cpp\<close>: a metric with activations produces data
  only while one of them is alive, and activations are saved and loaded around restarts.

  \<^verbatim>\<open>mEventActivationMap\<close> and \<^verbatim>\<open>mEventDeactivationMap\<close> share their \<^verbatim>\<open>Activation\<close> objects through
  \<^verbatim>\<open>shared_ptr\<close>; the objects are a store here and the maps hold addresses into it, so a cancellation
  through one map is seen through the other. A call of the virtual \<^verbatim>\<open>onActiveStateChangedLocked\<close> is
  the Boolean result of the operations that make it.
\<close>

section \<open>Definitions\<close>

datatype activation_state = kNotActive | kActive | kActiveOnBoot

datatype activation_type = ACTIVATION_TYPE_UNKNOWN | ACTIVATE_IMMEDIATELY | ACTIVATE_ON_BOOT

record activation =
  ttl_ns :: ns
  start_ns :: ns
  act_state :: activation_state
  activationType :: activation_type

definition newActivation :: "activation_type \<Rightarrow> ns \<Rightarrow> activation" where
  "newActivation ty ttl = \<lparr>ttl_ns = ttl, start_ns = 0, act_state = kNotActive, activationType = ty\<rparr>"

record activations =
  actStore :: "activation list"
  mEventActivationMap :: "(int, nat) umap"
  mEventDeactivationMap :: "(int, nat list) umap"
  mIsActive :: bool

definition newActivations :: "activation list \<Rightarrow> (int, nat) umap \<Rightarrow> (int, nat list) umap \<Rightarrow> activations" where
  "newActivations store act deact =
     \<lparr>actStore = store, mEventActivationMap = act, mEventDeactivationMap = deact, mIsActive = (act = [])\<rparr>"

definition expire :: "ns \<Rightarrow> activation \<Rightarrow> activation" where
  "expire now a = (if act_state a = kActive \<and> now > ttl_ns a + start_ns a then a\<lparr>act_state := kNotActive\<rparr> else a)"

fun expireAll :: "ns \<Rightarrow> (int, nat) umap \<Rightarrow> activation list \<Rightarrow> bool \<Rightarrow> activation list \<times> bool" where
  "expireAll now [] store isActive = (store, isActive)"
| "expireAll now ((_, a) # es) store isActive =
     (let store' = store[a := expire now (store ! a)]
      in expireAll now es store' (if act_state (store' ! a) = kActive then True else isActive))"

definition evaluateActiveStateLocked :: "ns \<Rightarrow> activations \<Rightarrow> activations \<times> bool" where
  "evaluateActiveStateLocked now m =
     (let (store, isActive) = expireAll now (mEventActivationMap m) (actStore m) (mEventActivationMap m = [])
      in (m\<lparr>actStore := store\<rparr>, isActive))"

definition flushIfExpire :: "ns \<Rightarrow> activations \<Rightarrow> activations \<times> bool" where
  "flushIfExpire now m =
     (if \<not> mIsActive m then (m, False)
      else let (m1, isActive) = evaluateActiveStateLocked now m
           in (m1\<lparr>mIsActive := isActive\<rparr>, \<not> isActive))"

definition activateLocked :: "int \<Rightarrow> ns \<Rightarrow> activations \<Rightarrow> activations \<times> bool" where
  "activateLocked i now m =
     (case map_of (mEventActivationMap m) i of
        None \<Rightarrow> (m, False)
      | Some a \<Rightarrow>
          let act = actStore m ! a
          in if activationType act = ACTIVATE_ON_BOOT
             then (if act_state act = kNotActive
                   then m\<lparr>actStore := (actStore m)[a := act\<lparr>act_state := kActiveOnBoot\<rparr>]\<rparr> else m, False)
             else (m\<lparr>actStore := (actStore m)[a := act\<lparr>start_ns := now, act_state := kActive\<rparr>], mIsActive := True\<rparr>,
                   \<not> mIsActive m))"

definition cancelEventActivationLocked :: "int \<Rightarrow> activations \<Rightarrow> activations" where
  "cancelEventActivationLocked i m =
     (case map_of (mEventDeactivationMap m) i of
        None \<Rightarrow> m
      | Some as \<Rightarrow> m\<lparr>actStore := foldl (\<lambda>st a. st[a := (st ! a)\<lparr>act_state := kNotActive\<rparr>]) (actStore m) as\<rparr>)"

datatype saved_state = saved_UNKNOWN | saved_ACTIVE | saved_ACTIVATE_ON_BOOT

record active_event_activation =
  atom_matcher_index :: int
  remaining_ttl_nanos :: "int option"
  saved_state :: "saved_state option"

definition loadOne :: "ns \<Rightarrow> active_event_activation \<Rightarrow> activations \<Rightarrow> activations" where
  "loadOne now s m =
     (case map_of (mEventActivationMap m) (atom_matcher_index s) of
        None \<Rightarrow> m
      | Some a \<Rightarrow>
          let act = actStore m ! a
          in if saved_state s = None \<or> saved_state s = Some saved_ACTIVE
             then m\<lparr>actStore := (actStore m)[a := act\<lparr>start_ns := now + (case remaining_ttl_nanos s of None \<Rightarrow> 0 | Some r \<Rightarrow> r) - ttl_ns act,
                                                     act_state := kActive\<rparr>],
                    mIsActive := True\<rparr>
             else if saved_state s = Some saved_ACTIVATE_ON_BOOT
             then m\<lparr>actStore := (actStore m)[a := act\<lparr>act_state := kActiveOnBoot\<rparr>]\<rparr>
             else m)"

definition loadActiveMetricLocked :: "active_event_activation list \<Rightarrow> ns \<Rightarrow> activations \<Rightarrow> activations" where
  "loadActiveMetricLocked ss now m =
     (if length (mEventActivationMap m) = 0 then m else foldl (\<lambda>m s. loadOne now s m) m ss)"

datatype dump_report_reason =
    DEVICE_SHUTDOWN | CONFIG_UPDATED | CONFIG_REMOVED | GET_DATA_CALLED | ADB_DUMP | CONFIG_RESET
  | STATSCOMPANION_DIED | TERMINATION_SIGNAL_RECEIVED

definition writeOne :: "ns \<Rightarrow> dump_report_reason \<Rightarrow> int \<Rightarrow> activation \<Rightarrow> active_event_activation option" where
  "writeOne now reason i act =
     (if act_state act = kNotActive \<or> (act_state act = kActive \<and> start_ns act + ttl_ns act < now) then None
      else let s = \<lparr>atom_matcher_index = i, remaining_ttl_nanos = None, saved_state = None\<rparr>
           in if act_state act = kActive
              then Some (s\<lparr>remaining_ttl_nanos := Some (start_ns act + ttl_ns act - now), saved_state := Some saved_ACTIVE\<rparr>)
              else if reason = DEVICE_SHUTDOWN \<or> reason = TERMINATION_SIGNAL_RECEIVED
              then Some (s\<lparr>remaining_ttl_nanos := Some (ttl_ns act), saved_state := Some saved_ACTIVE\<rparr>)
              else if reason = STATSCOMPANION_DIED then Some (s\<lparr>saved_state := Some saved_ACTIVATE_ON_BOOT\<rparr>)
              else Some s)"

definition writeActiveMetricToProtoOutputStream ::
  "ns \<Rightarrow> dump_report_reason \<Rightarrow> activations \<Rightarrow> active_event_activation list" where
  "writeActiveMetricToProtoOutputStream now reason m =
     List.map_filter (\<lambda>(i, a). writeOne now reason i (actStore m ! a)) (mEventActivationMap m)"

section \<open>The store\<close>

definition maps_ok :: "activations \<Rightarrow> bool" where
  "maps_ok m \<longleftrightarrow> umap_ok (mEventActivationMap m) \<and> distinct (map snd (mEventActivationMap m)) \<and>
     (\<forall>a \<in> snd ` set (mEventActivationMap m). a < length (actStore m))"

text \<open>The activation events of the metric, and those alive at a time.\<close>

definition activation_at :: "activations \<Rightarrow> int \<Rightarrow> activation option" where
  "activation_at m i = map_option (\<lambda>a. actStore m ! a) (map_of (mEventActivationMap m) i)"

definition alive_at :: "ns \<Rightarrow> activation \<Rightarrow> bool" where
  "alive_at now a \<longleftrightarrow> act_state a = kActive \<and> now \<le> start_ns a + ttl_ns a"

definition active_flag_ok :: "activations \<Rightarrow> bool" where
  "active_flag_ok m \<longleftrightarrow> maps_ok m \<and> (mEventActivationMap m = [] \<longrightarrow> mIsActive m) \<and>
     (\<forall>i act. activation_at m i = Some act \<and> act_state act = kActive \<longrightarrow> mIsActive m)"

lemma expireAll_spec:
  assumes "distinct (map snd es)" "\<forall>a \<in> snd ` set es. a < length store"
  shows "expireAll now es store b =
    (map (\<lambda>a. if a \<in> snd ` set es then expire now (store ! a) else store ! a) [0..<length store],
     b \<or> (\<exists>a \<in> snd ` set es. alive_at now (store ! a)))"
  using assms
proof (induction es arbitrary: store b)
  case Nil
  then show ?case by (simp add: map_nth)
next
  case (Cons e es)
  obtain i a where e: "e = (i, a)" by fastforce
  let ?s = "store[a := expire now (store ! a)]"
  have a: "a < length store" "a \<notin> snd ` set es" using Cons.prems by (auto simp: e)
  have "expireAll now (e # es) store b = expireAll now es ?s (alive_at now (store ! a) \<or> b)"
    using a by (simp add: e expire_def alive_at_def Let_def not_less add.commute)
  also have "\<dots> = (map (\<lambda>a. if a \<in> snd ` set es then expire now (?s ! a) else ?s ! a) [0..<length ?s],
     (alive_at now (store ! a) \<or> b) \<or> (\<exists>a \<in> snd ` set es. alive_at now (?s ! a)))"
    using Cons.prems by (intro Cons.IH) (auto simp: e)
  also have "(\<exists>a \<in> snd ` set es. alive_at now (?s ! a)) = (\<exists>a \<in> snd ` set es. alive_at now (store ! a))"
    using a(2) by (metis nth_list_update_neq)
  also have "map (\<lambda>a. if a \<in> snd ` set es then expire now (?s ! a) else ?s ! a) [0..<length ?s] =
     map (\<lambda>a. if a \<in> snd ` set (e # es) then expire now (store ! a) else store ! a) [0..<length store]"
    using a by (auto simp: e nth_list_update)
  also have "((alive_at now (store ! a) \<or> b) \<or> (\<exists>a \<in> snd ` set es. alive_at now (store ! a))) =
     (b \<or> (\<exists>a \<in> snd ` set (e # es). alive_at now (store ! a)))" by (auto simp: e)
  finally show ?case .
qed

lemma maps_ok_address:
  assumes "maps_ok m" "map_of (mEventActivationMap m) i = Some a"
  shows "a < length (actStore m)" "a \<in> snd ` set (mEventActivationMap m)"
    and "map_of (mEventActivationMap m) j = Some a \<Longrightarrow> j = i"
proof -
  have mem: "(i, a) \<in> set (mEventActivationMap m)" using assms(2) by (rule map_of_SomeD)
  then show "a \<in> snd ` set (mEventActivationMap m)" by force
  then show "a < length (actStore m)" using assms(1) by (auto simp: maps_ok_def)
  assume "map_of (mEventActivationMap m) j = Some a"
  then have "(j, a) \<in> set (mEventActivationMap m)" by (rule map_of_SomeD)
  moreover have "inj_on snd (set (mEventActivationMap m))" using assms(1) by (simp add: maps_ok_def distinct_map)
  ultimately show "j = i" using inj_onD[of snd "set (mEventActivationMap m)" "(i, a)" "(j, a)"] mem by simp
qed

lemma maps_ok_same: "maps_ok m \<Longrightarrow> mEventActivationMap m' = mEventActivationMap m \<Longrightarrow>
    length (actStore m') = length (actStore m) \<Longrightarrow> maps_ok m'"
  by (simp add: maps_ok_def)

lemma entry_index: "maps_ok m \<Longrightarrow> a \<in> snd ` set (mEventActivationMap m) \<Longrightarrow> \<exists>i. map_of (mEventActivationMap m) i = Some a"
  by (auto simp: maps_ok_def umap_ok_def intro: map_of_is_SomeI)

text \<open>Writing one activation changes what that event sees and nothing else.\<close>

lemma activation_at_write:
  assumes "maps_ok m" "map_of (mEventActivationMap m) i = Some a"
    and "mEventActivationMap m' = mEventActivationMap m" "actStore m' = (actStore m)[a := act]"
  shows "activation_at m' j = (if j = i then Some act else activation_at m j)"
proof (cases "map_of (mEventActivationMap m) j")
  case (Some b)
  then have "b = a \<longleftrightarrow> j = i" using maps_ok_address(3)[OF assms(1,2), of j] assms(2) by auto
  then show ?thesis using Some maps_ok_address(1)[OF assms(1,2)] unfolding activation_at_def assms(3,4)
    by (cases "j = i") simp_all
next
  case None
  then show ?thesis using assms(2,3) by (auto simp: activation_at_def)
qed

lemma evaluate_spec:
  assumes "maps_ok m"
  obtains m' where "evaluateActiveStateLocked now m = (m', mEventActivationMap m = [] \<or> (\<exists>i act. activation_at m i = Some act \<and> alive_at now act))"
    and "mEventActivationMap m' = mEventActivationMap m" "length (actStore m') = length (actStore m)" "mIsActive m' = mIsActive m"
    and "\<forall>i. activation_at m' i = map_option (expire now) (activation_at m i)"
proof -
  let ?es = "mEventActivationMap m"
  let ?s = "map (\<lambda>a. if a \<in> snd ` set ?es then expire now (actStore m ! a) else actStore m ! a) [0..<length (actStore m)]"
  let ?m = "m\<lparr>actStore := ?s\<rparr>"
  have alive: "(\<exists>a \<in> snd ` set ?es. alive_at now (actStore m ! a)) = (\<exists>i act. activation_at m i = Some act \<and> alive_at now act)"
    using entry_index[OF assms] maps_ok_address(2)[OF assms] by (fastforce simp: activation_at_def)
  have "evaluateActiveStateLocked now m = (?m, ?es = [] \<or> (\<exists>i act. activation_at m i = Some act \<and> alive_at now act))"
    using expireAll_spec[of ?es "actStore m" now "?es = []"] assms
    unfolding evaluateActiveStateLocked_def Let_def alive by (simp add: maps_ok_def)
  moreover have "activation_at ?m i = map_option (expire now) (activation_at m i)" for i
    using maps_ok_address(1,2)[OF assms, of i] by (cases "map_of ?es i") (auto simp: activation_at_def)
  ultimately show thesis using that[of ?m] by simp
qed

text \<open>Every operation keeps the flag's invariant.\<close>

lemma expire_active: "act_state (expire now a) = kActive \<longleftrightarrow> alive_at now a"
  by (auto simp: expire_def alive_at_def)

lemma flushIfExpire_ok:
  assumes "active_flag_ok m"
  shows "active_flag_ok (fst (flushIfExpire now m))"
proof (cases "mIsActive m")
  case True
  have ok: "maps_ok m" using assms by (simp add: active_flag_ok_def)
  obtain m' where m': "evaluateActiveStateLocked now m = (m', mEventActivationMap m = [] \<or> (\<exists>i act. activation_at m i = Some act \<and> alive_at now act))"
    "mEventActivationMap m' = mEventActivationMap m" "length (actStore m') = length (actStore m)" "mIsActive m' = mIsActive m"
    "\<forall>i. activation_at m' i = map_option (expire now) (activation_at m i)"
    by (rule evaluate_spec[OF ok, where now = now])
  have same: "activation_at (m'\<lparr>mIsActive := b\<rparr>) i = activation_at m' i" for i b by (simp add: activation_at_def)
  show ?thesis
    using maps_ok_same[OF ok m'(2,3)]
    by (auto simp: flushIfExpire_def True m'(1) active_flag_ok_def same m'(2,5) expire_active maps_ok_def)
qed (simp add: flushIfExpire_def assms)

lemma activate_ok:
  assumes "active_flag_ok m"
  shows "active_flag_ok (fst (activateLocked i now m))"
proof (cases "map_of (mEventActivationMap m) i")
  case (Some a)
  have ok: "maps_ok m" using assms by (simp add: active_flag_ok_def)
  let ?act = "actStore m ! a"
  have "active_flag_ok (m\<lparr>actStore := (actStore m)[a := ?act\<lparr>act_state := kActiveOnBoot\<rparr>]\<rparr>)"
    using assms activation_at_write[OF ok Some, of "m\<lparr>actStore := (actStore m)[a := ?act\<lparr>act_state := kActiveOnBoot\<rparr>]\<rparr>"]
    by (auto simp: active_flag_ok_def maps_ok_def)
  moreover have "active_flag_ok (m\<lparr>actStore := s, mIsActive := True\<rparr>)" if "length s = length (actStore m)" for s
    using ok that by (simp add: active_flag_ok_def maps_ok_def)
  ultimately show ?thesis using assms by (simp add: activateLocked_def Some Let_def)
qed (simp add: activateLocked_def assms)

lemma cancel_ok:
  assumes "active_flag_ok m"
  shows "active_flag_ok (cancelEventActivationLocked i m)"
proof (cases "map_of (mEventDeactivationMap m) i")
  case (Some as)
  have fold: "length (foldl (\<lambda>st a. st[a := (st ! a)\<lparr>act_state := kNotActive\<rparr>]) st as) = length st \<and>
     (\<forall>j < length st. act_state (foldl (\<lambda>st a. st[a := (st ! a)\<lparr>act_state := kNotActive\<rparr>]) st as ! j) = kActive \<longrightarrow> act_state (st ! j) = kActive)" for st
  proof (induction as arbitrary: st)
    case (Cons a as)
    let ?st = "st[a := (st ! a)\<lparr>act_state := kNotActive\<rparr>]"
    have "act_state (?st ! j) = kActive \<longrightarrow> act_state (st ! j) = kActive" if "j < length st" for j
      using that by (cases "a = j") simp_all
    then show ?case using Cons.IH[of ?st] by simp
  qed simp
  have ok: "maps_ok m" using assms by (simp add: active_flag_ok_def)
  have "mIsActive m" if "map_of (mEventActivationMap m) i' = Some a" "act_state (foldl (\<lambda>st a. st[a := (st ! a)\<lparr>act_state := kNotActive\<rparr>]) (actStore m) as ! a) = kActive" for i' a
    using that fold[of "actStore m"] maps_ok_address(1)[OF ok that(1)] assms by (auto simp: active_flag_ok_def activation_at_def)
  then show ?thesis
    using assms fold[of "actStore m"]
    by (auto simp: cancelEventActivationLocked_def Some active_flag_ok_def maps_ok_def activation_at_def)
qed (simp add: cancelEventActivationLocked_def assms)

lemma loadOne_ok:
  assumes "active_flag_ok m"
  shows "active_flag_ok (loadOne now s m)"
proof (cases "map_of (mEventActivationMap m) (atom_matcher_index s)")
  case (Some a)
  have ok: "maps_ok m" using assms by (simp add: active_flag_ok_def)
  let ?act = "actStore m ! a"
  have "active_flag_ok (m\<lparr>actStore := (actStore m)[a := ?act\<lparr>act_state := kActiveOnBoot\<rparr>]\<rparr>)"
    using assms activation_at_write[OF ok Some, of "m\<lparr>actStore := (actStore m)[a := ?act\<lparr>act_state := kActiveOnBoot\<rparr>]\<rparr>"]
    by (auto simp: active_flag_ok_def maps_ok_def)
  moreover have "active_flag_ok (m\<lparr>actStore := s, mIsActive := True\<rparr>)" if "length s = length (actStore m)" for s
    using ok that by (simp add: active_flag_ok_def maps_ok_def)
  ultimately show ?thesis using assms by (simp add: loadOne_def Some Let_def)
qed (simp add: loadOne_def assms)

lemma load_ok: "active_flag_ok m \<Longrightarrow> active_flag_ok (loadActiveMetricLocked ss now m)"
proof -
  assume "active_flag_ok m"
  then have "active_flag_ok (foldl (\<lambda>m s. loadOne now s m) m ss)" by (induction ss arbitrary: m) (simp_all add: loadOne_ok)
  then show ?thesis using \<open>active_flag_ok m\<close> by (simp add: loadActiveMetricLocked_def)
qed

text \<open>Any sequence of the operations, from a metric whose activations are all off.\<close>

inductive activation_reachable :: "activations \<Rightarrow> bool" where
  start: "maps_ok (newActivations store act deact) \<Longrightarrow> \<forall>a \<in> set store. act_state a \<noteq> kActive \<Longrightarrow>
    activation_reachable (newActivations store act deact)"
| activate: "activation_reachable m \<Longrightarrow> activation_reachable (fst (activateLocked i now m))"
| cancel: "activation_reachable m \<Longrightarrow> activation_reachable (cancelEventActivationLocked i m)"
| flush: "activation_reachable m \<Longrightarrow> activation_reachable (fst (flushIfExpire now m))"
| load: "activation_reachable m \<Longrightarrow> activation_reachable (loadActiveMetricLocked ss now m)"

lemma activation_reachable_ok: "activation_reachable m \<Longrightarrow> active_flag_ok m"
proof (induction rule: activation_reachable.induct)
  case (start store act deact)
  have "act_state (store ! a) \<noteq> kActive" if "map_of act i = Some a" for i a
    using maps_ok_address(1)[OF start(1), of i a] start(2) that by (simp add: newActivations_def)
  with start(1) show ?case by (auto simp: active_flag_ok_def newActivations_def activation_at_def)
qed (simp_all add: activate_ok cancel_ok flushIfExpire_ok load_ok)

section \<open>Saving and loading\<close>

text \<open>What loading makes of an activation that was \<open>act\<close> when it was saved.\<close>

definition restored :: "ns \<Rightarrow> ns \<Rightarrow> dump_report_reason \<Rightarrow> activation \<Rightarrow> activation \<Rightarrow> activation" where
  "restored saved loaded reason act fresh =
     (if alive_at saved act then fresh\<lparr>start_ns := loaded + (start_ns act - saved), act_state := kActive\<rparr>
      else if act_state act = kActiveOnBoot \<and> reason = STATSCOMPANION_DIED then fresh\<lparr>act_state := kActiveOnBoot\<rparr>
      else if act_state act = kActiveOnBoot then fresh\<lparr>start_ns := loaded, act_state := kActive\<rparr>
      else fresh)"

lemma loadOne_restores:
  assumes "maps_ok m" "map_of (mEventActivationMap m) i = Some a" "ttl_ns (actStore m ! a) = ttl_ns act"
    and "reason \<in> {DEVICE_SHUTDOWN, TERMINATION_SIGNAL_RECEIVED, STATSCOMPANION_DIED}"
    and "m' = (case writeOne saved reason i act of None \<Rightarrow> m | Some s \<Rightarrow> loadOne loaded s m)"
  shows "maps_ok m'" "mEventActivationMap m' = mEventActivationMap m"
    and "activation_at m' j = (if j = i then Some (restored saved loaded reason act (actStore m ! a)) else activation_at m j)"
proof -
  have m': "mEventActivationMap m' = mEventActivationMap m \<and>
      actStore m' = (actStore m)[a := restored saved loaded reason act (actStore m ! a)]"
    using assms(2-5) by (cases "act_state act") (auto simp: writeOne_def loadOne_def restored_def alive_at_def Let_def)
  then show "mEventActivationMap m' = mEventActivationMap m" by simp
  show "maps_ok m'" using maps_ok_same[OF assms(1)] m' by simp
  show "activation_at m' j = (if j = i then Some (restored saved loaded reason act (actStore m ! a)) else activation_at m j)"
    using activation_at_write[OF assms(1,2)] m' by simp
qed

lemma load_restores:
  assumes "maps_ok m" "distinct (map fst es)" "\<forall>(i, act) \<in> set es. \<exists>a. map_of (mEventActivationMap m) i = Some a \<and> ttl_ns (actStore m ! a) = ttl_ns act"
    and "reason \<in> {DEVICE_SHUTDOWN, TERMINATION_SIGNAL_RECEIVED, STATSCOMPANION_DIED}"
  shows "activation_at (foldl (\<lambda>m s. loadOne loaded s m) m (List.map_filter (\<lambda>(i, act). writeOne saved reason i act) es)) j =
     (case map_of es j of None \<Rightarrow> activation_at m j
      | Some act \<Rightarrow> map_option (restored saved loaded reason act) (activation_at m j))"
  using assms(1-3)
proof (induction es arbitrary: m)
  case Nil
  then show ?case by (simp add: List.map_filter_def)
next
  case (Cons e es)
  obtain i act where e: "e = (i, act)" by fastforce
  obtain a where a: "map_of (mEventActivationMap m) i = Some a" "ttl_ns (actStore m ! a) = ttl_ns act"
    using Cons.prems(3) by (auto simp: e)
  define m1 where "m1 = (case writeOne saved reason i act of None \<Rightarrow> m | Some s \<Rightarrow> loadOne loaded s m)"
  note m1 = loadOne_restores[OF Cons.prems(1) a assms(4) m1_def]
  have i: "i \<notin> fst ` set es" using Cons.prems(2) by (simp add: e)
  have rest: "\<exists>b. map_of (mEventActivationMap m1) k = Some b \<and> ttl_ns (actStore m1 ! b) = ttl_ns act'" if mem: "(k, act') \<in> set es" for k act'
  proof -
    obtain b where b: "map_of (mEventActivationMap m) k = Some b" "ttl_ns (actStore m ! b) = ttl_ns act'"
      using Cons.prems(3) mem by auto
    have "k \<noteq> i" using i mem by force
    then have "activation_at m1 k = activation_at m k" using m1(3)[of k] by simp
    then show ?thesis using b m1(2) by (simp add: activation_at_def)
  qed
  have "foldl (\<lambda>m s. loadOne loaded s m) m (List.map_filter (\<lambda>(i, act). writeOne saved reason i act) (e # es)) =
     foldl (\<lambda>m s. loadOne loaded s m) m1 (List.map_filter (\<lambda>(i, act). writeOne saved reason i act) es)"
    by (simp add: e m1_def List.map_filter_def split: option.split)
  then have "activation_at (foldl (\<lambda>m s. loadOne loaded s m) m (List.map_filter (\<lambda>(i, act). writeOne saved reason i act) (e # es))) j =
     (case map_of es j of None \<Rightarrow> activation_at m1 j | Some act \<Rightarrow> map_option (restored saved loaded reason act) (activation_at m1 j))"
    using Cons.IH[OF m1(1)] Cons.prems(2) rest by (auto simp: e)
  moreover have "map_of es i = None" using i by (simp add: map_of_eq_None_iff)
  moreover have "activation_at m i = Some (actStore m ! a)" using a by (simp add: activation_at_def)
  ultimately show ?case using m1(3)[of j] by (cases "j = i") (simp_all add: e split: option.split)
qed

section \<open>Properties\<close>

text \<open>
  Property C40. In every metric its operations can reach, expiry at a time leaves the metric active
  exactly when it has no activations or one of them is active with that time still in its time to
  live; it switches off exactly the expired ones, and signals a change exactly when the metric
  went from active to inactive.
\<close>

theorem activation_window:
  assumes "activation_reachable m" and "flushIfExpire now m = (m', changed)"
  shows "(mIsActive m' \<longleftrightarrow> mEventActivationMap m = [] \<or> (\<exists>i act. activation_at m i = Some act \<and> alive_at now act)) \<and>
    (mIsActive m \<longrightarrow> (\<forall>i. activation_at m' i = map_option (expire now) (activation_at m i))) \<and>
    (changed \<longleftrightarrow> mIsActive m \<and> \<not> mIsActive m')"
proof -
  have ok: "active_flag_ok m" by (rule activation_reachable_ok[OF assms(1)])
  show ?thesis
  proof (cases "mIsActive m")
    case True
    have mok: "maps_ok m" using ok by (simp add: active_flag_ok_def)
    obtain m1 where m1: "evaluateActiveStateLocked now m = (m1, mEventActivationMap m = [] \<or> (\<exists>i act. activation_at m i = Some act \<and> alive_at now act))"
      "mEventActivationMap m1 = mEventActivationMap m" "length (actStore m1) = length (actStore m)" "mIsActive m1 = mIsActive m"
      "\<forall>i. activation_at m1 i = map_option (expire now) (activation_at m i)"
      by (rule evaluate_spec[OF mok, where now = now])
    have "activation_at (m1\<lparr>mIsActive := b\<rparr>) i = activation_at m1 i" for i b by (simp add: activation_at_def)
    then show ?thesis using assms(2) m1(1,5) True by (auto simp: flushIfExpire_def)
  next
    case False
    then show ?thesis using assms(2) ok by (auto simp: flushIfExpire_def active_flag_ok_def alive_at_def)
  qed
qed

definition example_activations :: activations where
  "example_activations = newActivations [newActivation ACTIVATE_IMMEDIATELY 60] [(3, 0)] [(4, [0])]"

lemma example_activations_reachable: "activation_reachable example_activations"
  unfolding example_activations_def
  by (rule activation_reachable.start) (auto simp: maps_ok_def newActivations_def newActivation_def umap_ok_def)

theorem activation_window_witness:
  "mIsActive (fst (flushIfExpire 160 (fst (activateLocked 3 100 example_activations)))) \<and>
   \<not> mIsActive (fst (flushIfExpire 161 (fst (activateLocked 3 100 example_activations))))"
proof -
  let ?m = "fst (activateLocked 3 100 example_activations)"
  have r: "activation_reachable ?m" by (rule activation_reachable.activate[OF example_activations_reachable])
  have "activation_at ?m i = (if i = 3 then Some \<lparr>ttl_ns = 60, start_ns = 100, act_state = kActive, activationType = ACTIVATE_IMMEDIATELY\<rparr> else None)"
    "mEventActivationMap ?m \<noteq> []" for i
    by (simp_all add: example_activations_def activateLocked_def newActivations_def newActivation_def activation_at_def)
  then show ?thesis
    using activation_window[OF r, of 160 "fst (flushIfExpire 160 ?m)" "snd (flushIfExpire 160 ?m)"]
      activation_window[OF r, of 161 "fst (flushIfExpire 161 ?m)" "snd (flushIfExpire 161 ?m)"]
    by (simp add: alive_at_def)
qed

text \<open>
  Fact. Activations survive a restart: saved at one time and loaded at another into the same
  metric with all activations off, one that was alive keeps its remaining time to live, one that
  waits for boot starts its full time to live after a shutdown but keeps waiting after a restart of
  the system server, and all others stay off.
\<close>

theorem activation_survives_restart:
  assumes "maps_ok m" and "maps_ok fresh" and "mEventActivationMap fresh = mEventActivationMap m"
    and "map ttl_ns (actStore fresh) = map ttl_ns (actStore m)"
    and "reason \<in> {DEVICE_SHUTDOWN, TERMINATION_SIGNAL_RECEIVED, STATSCOMPANION_DIED}"
  shows "activation_at (loadActiveMetricLocked (writeActiveMetricToProtoOutputStream saved reason m) loaded fresh) i =
    (case (activation_at m i, activation_at fresh i) of
       (Some act, Some f) \<Rightarrow> Some (restored saved loaded reason act f) | _ \<Rightarrow> None)"
proof (cases "mEventActivationMap m = []")
  case True
  then show ?thesis using assms(3) by (simp add: loadActiveMetricLocked_def activation_at_def)
next
  case False
  let ?es = "map (\<lambda>(i, a). (i, actStore m ! a)) (mEventActivationMap m)"
  have w: "writeActiveMetricToProtoOutputStream saved reason m = List.map_filter (\<lambda>(i, act). writeOne saved reason i act) ?es"
    by (induction "mEventActivationMap m") (auto simp: writeActiveMetricToProtoOutputStream_def List.map_filter_def comp_def case_prod_unfold filter_map)
  have len: "length (actStore fresh) = length (actStore m)" using assms(4) by (metis length_map)
  have ttl: "ttl_ns (actStore fresh ! a) = ttl_ns (actStore m ! a)" if "a < length (actStore m)" for a
    using arg_cong[OF assms(4), of "\<lambda>l. l ! a"] that len by simp
  have addr: "a < length (actStore m) \<and> map_of (mEventActivationMap m) k = Some a" if "(k, a) \<in> set (mEventActivationMap m)" for k a
    using assms(1) that by (force simp: maps_ok_def umap_ok_def)
  have "distinct (map fst ?es)" using assms(1) by (simp add: maps_ok_def umap_ok_def comp_def case_prod_unfold)
  moreover have "\<forall>(k, act) \<in> set ?es. \<exists>a. map_of (mEventActivationMap fresh) k = Some a \<and> ttl_ns (actStore fresh ! a) = ttl_ns act"
    using addr ttl assms(3) by fastforce
  ultimately have "activation_at (loadActiveMetricLocked (writeActiveMetricToProtoOutputStream saved reason m) loaded fresh) i =
     (case map_of ?es i of None \<Rightarrow> activation_at fresh i
      | Some act \<Rightarrow> map_option (restored saved loaded reason act) (activation_at fresh i))"
    using load_restores[OF assms(2) _ _ assms(5), of ?es loaded saved i] False assms(3) by (simp add: loadActiveMetricLocked_def w)
  moreover have "map_of ?es i = activation_at m i" by (simp add: map_of_map activation_at_def)
  ultimately show ?thesis by (simp add: activation_at_def assms(3) split: option.splits)
qed

theorem activation_survives_restart_witness:
  "activation_at (loadActiveMetricLocked (writeActiveMetricToProtoOutputStream 110 DEVICE_SHUTDOWN
      (fst (activateLocked 3 100 example_activations))) 1000 example_activations) 3 =
    Some \<lparr>ttl_ns = 60, start_ns = 990, act_state = kActive, activationType = ACTIVATE_IMMEDIATELY\<rparr>"
proof -
  let ?m = "fst (activateLocked 3 100 example_activations)"
  have "maps_ok ?m" "maps_ok example_activations"
    using activation_reachable_ok[OF activation_reachable.activate[OF example_activations_reachable]]
      activation_reachable_ok[OF example_activations_reachable] by (simp_all add: active_flag_ok_def)
  from activation_survives_restart[OF this, of DEVICE_SHUTDOWN 110 1000 3]
  show ?thesis
    by (simp add: example_activations_def activateLocked_def newActivations_def newActivation_def activation_at_def restored_def alive_at_def)
qed

end
