(* ===== verification/MetricBase.thy ===== *)
theory MetricBase
  imports ConditionGraph StateTracking MetricActivation AnomalyTracker
begin

text \<open>
  The part of \<^verbatim>\<open>bin/src/metrics/MetricProducer.h\<close> and \<^verbatim>\<open>.cpp\<close> that all metrics share: bucket times, the
  queries of conditions and states for a matched event, and the construction of its dimension key. The record
  \<open>metric_producer\<close> is extended by each metric. \<^verbatim>\<open>mWizard\<close> is the list of all conditions, \<^verbatim>\<open>StateManager::getInstance()\<close>
  the state manager; both are arguments.
\<close>

record metric_producer =
  mpMetricId :: int
  mpTimeBaseNs :: ns
  mpCurrentBucketStartTimeNs :: ns
  mpCurrentBucketNum :: int
  mpBucketSizeNs :: ns
  mpCondition :: condition_state
  mpConditionTrackerIndex :: int
  mpConditionSliced :: bool
  mpHasLinksToAllConditionDimensionsInTracker :: bool
  mpDimensionsInWhat :: "matcher list"
  mpMetric2ConditionLinks :: "metric2condition list"
  mpMetric2StateLinks :: "metric2state list"
  mpSlicedStateAtoms :: "i32 list"
  mpStateGroupMap :: "(i32, (i32, i64) umap) umap"
  mpActivations :: activations
  mpAnomalyTrackers :: "metric_key anomaly_tracker list"

definition initialCondition :: "int \<Rightarrow> condition_state list \<Rightarrow> condition_state" where
  "initialCondition idx initialConditionCache =
     (if idx \<ge> 0 then initialConditionCache ! nat idx else kTrue)"

definition getCurrentBucketEndTimeNs :: "'a metric_producer_scheme \<Rightarrow> ns" where
  "getCurrentBucketEndTimeNs m = mpTimeBaseNs m + (mpCurrentBucketNum m + 1) * mpBucketSizeNs m"

text \<open>C++ division truncates; the argument is not before the time base.\<close>

definition getBucketNumFromEndTimeNs :: "'a metric_producer_scheme \<Rightarrow> ns \<Rightarrow> int" where
  "getBucketNumFromEndTimeNs m endNs = (endNs - mpTimeBaseNs m) div mpBucketSizeNs m - 1"

text \<open>A default-constructed \<^verbatim>\<open>FieldValue\<close>.\<close>

definition emptyFieldValue :: field_value where
  "emptyFieldValue = mkFieldValue \<lparr>mTag = 0, mField = 0\<rparr> UNKNOWN"

definition queryStateValue :: "'l state_manager \<Rightarrow> i32 \<Rightarrow> dim_key \<Rightarrow> field_value \<Rightarrow> field_value" where
  "queryStateValue sm atomId queryKey fv =
     (case manager_getStateValue atomId queryKey sm fv of
        (v, True) \<Rightarrow> v
      | (v, False) \<Rightarrow> v\<lparr>fvValue := INT_v kStateUnknown, fvField := setTag atomId (fvField v)\<rparr>)"

definition mapStateValue :: "'a metric_producer_scheme \<Rightarrow> i32 \<Rightarrow> field_value \<Rightarrow> field_value" where
  "mapStateValue m atomId fv =
     (case map_of (mpStateGroupMap m) atomId of
        None \<Rightarrow> fv
      | Some groups \<Rightarrow>
          (case map_of groups (int_value (fvValue fv)) of
             None \<Rightarrow> fv\<lparr>fvValue := INT_v kStateUnknown\<rparr>
           | Some g \<Rightarrow> fv\<lparr>fvValue := LONG g\<rparr>))"

definition getUnknownStateKey :: "'a metric_producer_scheme \<Rightarrow> hashable_key" where
  "getUnknownStateKey m =
     map (\<lambda>a. emptyFieldValue\<lparr>fvField := setTag a (fvField emptyFieldValue), fvValue := INT_v kStateUnknown\<rparr>) (mpSlicedStateAtoms m)"

text \<open>\<^verbatim>\<open>&map[key]\<close> as an in-out argument: an absent entry is an empty key.\<close>

definition entryOf :: "('k, hashable_key) umap \<Rightarrow> 'k \<Rightarrow> hashable_key" where
  "entryOf mp k = (case map_of mp k of None \<Rightarrow> [] | Some v \<Rightarrow> v)"

definition conditionKeyFor :: "'a metric_producer_scheme \<Rightarrow> field_value list \<Rightarrow> (int, hashable_key) umap" where
  "conditionKeyFor m vals =
     foldl (\<lambda>ck link. AList.update (m2cConditionId link) (getDimensionForCondition vals link (entryOf ck (m2cConditionId link))) ck)
       [] (mpMetric2ConditionLinks m)"

definition statePrimaryKeysFor :: "'a metric_producer_scheme \<Rightarrow> field_value list \<Rightarrow> (i32, hashable_key) umap" where
  "statePrimaryKeysFor m vals =
     foldl (\<lambda>sk link. AList.update (m2sStateAtomId link) (getDimensionForState vals link (entryOf sk (m2sStateAtomId link))) sk)
       [] (mpMetric2StateLinks m)"

definition stateValuesKeyFor :: "'l state_manager \<Rightarrow> 'a metric_producer_scheme \<Rightarrow> (i32, hashable_key) umap \<Rightarrow> hashable_key" where
  "stateValuesKeyFor sm m statePrimaryKeys =
     map (\<lambda>atomId. mapStateValue m atomId (queryStateValue sm atomId
            (case map_of statePrimaryKeys atomId of Some k \<Rightarrow> key_of k | None \<Rightarrow> DEFAULT_DIMENSION_KEY) emptyFieldValue))
       (mpSlicedStateAtoms m)"

record matched_event =
  meTimeNs :: ns
  meKey :: metric_key
  meConditionKey :: "(int, dim_key) umap"
  meCondition :: bool
  meStatePrimaryKeys :: "(i32, dim_key) umap"

definition map_keys :: "('k, hashable_key) umap \<Rightarrow> ('k, dim_key) umap" where
  "map_keys mp = map (\<lambda>(k, v). (k, key_of v)) mp"

text \<open>\<^verbatim>\<open>onMatchedLogEventLocked\<close> up to the call of the virtual \<^verbatim>\<open>onMatchedLogEventInternalLocked\<close>; \<open>None\<close> when it returns
  early. A query that ran out of fuel would be no true condition; \<open>wizard_query_semantics\<close> excludes it.\<close>

definition onMatchedLogEventLocked ::
  "condition_tracker list \<Rightarrow> 'l state_manager \<Rightarrow> state_event \<Rightarrow> 'a metric_producer_scheme \<Rightarrow> matched_event option" where
  "onMatchedLogEventLocked conditions sm ev m =
     (if \<not> mIsActive (mpActivations m) then None
      else if elapsedTimestampNs ev < mpTimeBaseNs m then None
      else let vals = event_values ev;
               conditionKey = (if mpConditionSliced m then map_keys (conditionKeyFor m vals) else []);
               condition = (if mpConditionSliced m
                            then wizard_query (length conditions) conditions (nat (mpConditionTrackerIndex m)) conditionKey
                                   (\<not> mpHasLinksToAllConditionDimensionsInTracker m) = Some kTrue
                            else mpCondition m = kTrue);
               statePrimaryKeys = statePrimaryKeysFor m vals
           in Some \<lparr>meTimeNs = elapsedTimestampNs ev,
                    meKey = \<lparr>mDimensionKeyInWhat = key_of (fst (filterValues (mpDimensionsInWhat m) vals [])),
                             mStateValuesKey = key_of (stateValuesKeyFor sm m statePrimaryKeys)\<rparr>,
                    meConditionKey = conditionKey, meCondition = condition,
                    meStatePrimaryKeys = map_keys statePrimaryKeys\<rparr>)"

text \<open>\<^verbatim>\<open>mPastBuckets[key].push_back(bucket)\<close>.\<close>

definition pushBucket :: "'k \<Rightarrow> 'b \<Rightarrow> ('k, 'b list) umap \<Rightarrow> ('k, 'b list) umap" where
  "pushBucket k b pb = AList.update k ((case map_of pb k of None \<Rightarrow> [] | Some bs \<Rightarrow> bs) @ [b]) pb"

definition NanoToMillis :: "ns \<Rightarrow> int" where
  "NanoToMillis n = n div 1000000"

section \<open>Bucket arithmetic\<close>

text \<open>The current bucket lies inside the aligned bucket of its number.\<close>

definition bucket_times_ok :: "'a metric_producer_scheme \<Rightarrow> bool" where
  "bucket_times_ok m \<longleftrightarrow> 0 < mpBucketSizeNs m \<and>
     mpTimeBaseNs m + mpCurrentBucketNum m * mpBucketSizeNs m \<le> mpCurrentBucketStartTimeNs m \<and>
     mpCurrentBucketStartTimeNs m < getCurrentBucketEndTimeNs m"

text \<open>The number and start of the bucket an event after the current end belongs to.\<close>

lemma next_bucket_bounds:
  fixes t e size :: int
  assumes "0 < size" "e \<le> t"
  defines "n \<equiv> 1 + (t - e) div size"
  shows "1 \<le> n" "e + (n - 1) * size \<le> t" "t < e + n * size"
proof -
  have "0 \<le> (t - e) div size" using assms by (simp add: pos_imp_zdiv_nonneg_iff)
  then show "1 \<le> n" by (simp add: n_def)
  show "e + (n - 1) * size \<le> t" "t < e + n * size"
    using div_mult_bounds[OF assms(1), of "t - e"] by (simp_all add: n_def algebra_simps)
qed

section \<open>Past buckets\<close>

text \<open>Closing a bucket pushes one entry per key of the current map.\<close>

lemma map_of_pushAll:
  "umap_ok c \<Longrightarrow> map_of (foldl (\<lambda>pb (k, x). pushBucket k (f x) pb) pb c) k =
     (case map_of c k of None \<Rightarrow> map_of pb k | Some x \<Rightarrow> Some ((case map_of pb k of None \<Rightarrow> [] | Some bs \<Rightarrow> bs) @ [f x]))"
proof (induction c arbitrary: pb)
  case (Cons y c)
  obtain k' x where y: "y = (k', x)" by fastforce
  have "k' \<notin> fst ` set c" "umap_ok c" using Cons.prems by (auto simp: y umap_ok_def)
  moreover from this have "map_of c k' = None" using map_of_eq_None_iff[of c k'] by simp
  ultimately show ?case using Cons.IH[of "pushBucket k' (f x) pb"] by (auto simp: y pushBucket_def split: option.split)
qed simp

text \<open>The buckets of every key are good, lie before \<open>limit\<close> and follow each other in time.\<close>

definition buckets_ok :: "('b \<Rightarrow> ns) \<Rightarrow> ('b \<Rightarrow> ns) \<Rightarrow> ('b \<Rightarrow> bool) \<Rightarrow> ('k, 'b list) umap \<Rightarrow> ns \<Rightarrow> bool" where
  "buckets_ok st en good pb limit \<longleftrightarrow> (\<forall>k bs. map_of pb k = Some bs \<longrightarrow>
     (\<forall>b \<in> set bs. st b \<le> en b \<and> en b \<le> limit \<and> good b) \<and> sorted_wrt (\<lambda>a b. en a \<le> st b) bs)"

lemma buckets_ok_empty [simp]: "buckets_ok st en good [] limit"
  by (simp add: buckets_ok_def)

lemma buckets_ok_later: "buckets_ok st en good pb limit \<Longrightarrow> limit \<le> limit' \<Longrightarrow> buckets_ok st en good pb limit'"
  by (fastforce simp: buckets_ok_def)

lemma buckets_ok_push:
  assumes "buckets_ok st en good pb s" "s \<le> e" "umap_ok c"
    and "\<And>k x. (k, x) \<in> set c \<Longrightarrow> good (f x) \<and> st (f x) = s \<and> en (f x) = e"
  shows "buckets_ok st en good (foldl (\<lambda>pb (k, x). pushBucket k (f x) pb) pb c) e"
  unfolding buckets_ok_def
proof (intro allI impI)
  fix k bs assume bs: "map_of (foldl (\<lambda>pb (k, x). pushBucket k (f x) pb) pb c) k = Some bs"
  show "(\<forall>b \<in> set bs. st b \<le> en b \<and> en b \<le> e \<and> good b) \<and> sorted_wrt (\<lambda>a b. en a \<le> st b) bs"
  proof (cases "map_of c k")
    case None
    then show ?thesis using bs map_of_pushAll[OF assms(3), of f pb k] buckets_ok_later[OF assms(1,2)] by (simp add: buckets_ok_def)
  next
    case (Some x)
    obtain bs0 where b0: "bs = bs0 @ [f x]" "map_of pb k = Some bs0 \<or> bs0 = []"
      using bs map_of_pushAll[OF assms(3), of f pb k] Some by (cases "map_of pb k") auto
    have "good (f x) \<and> st (f x) = s \<and> en (f x) = e" by (rule assms(4)[OF map_of_SomeD[OF Some]])
    moreover have "(\<forall>b \<in> set bs0. st b \<le> en b \<and> en b \<le> s \<and> good b) \<and> sorted_wrt (\<lambda>a b. en a \<le> st b) bs0"
      using b0(2) assms(1) by (auto simp: buckets_ok_def)
    ultimately show ?thesis using assms(2) by (auto simp: b0(1) sorted_wrt_append)
  qed
qed

text \<open>A metric without dimensions, condition and states, for the examples.\<close>

definition example_base :: metric_producer where
  "example_base = \<lparr>mpMetricId = 1, mpTimeBaseNs = 0, mpCurrentBucketStartTimeNs = 0, mpCurrentBucketNum = 0, mpBucketSizeNs = 0,
     mpCondition = kTrue, mpConditionTrackerIndex = -1, mpConditionSliced = False, mpHasLinksToAllConditionDimensionsInTracker = False,
     mpDimensionsInWhat = [], mpMetric2ConditionLinks = [], mpMetric2StateLinks = [], mpSlicedStateAtoms = [], mpStateGroupMap = [],
     mpActivations = newActivations [] [] [], mpAnomalyTrackers = []\<rparr>"

end
