(* ===== verification/CountMetric.thy ===== *)
theory CountMetric
  imports MetricBase
begin

text \<open>
  \<^verbatim>\<open>bin/src/metrics/CountMetricProducer.h\<close> and \<^verbatim>\<open>.cpp\<close>: counting matched events per dimension key and time bucket,
  full buckets for the anomaly trackers, partial buckets on demand, and the report. The report is the list
  of what is written to the proto stream. Configuration updates only rewire indices of the metrics
  manager and are not modelled here.
\<close>

section \<open>Definitions\<close>

record count_bucket =
  cbBucketStartNs :: ns
  cbBucketEndNs :: ns
  cbCount :: int

record count_metric = metric_producer +
  cmCurrentSlicedCounter :: "(metric_key, int) umap"
  cmCurrentFullCounters :: "(metric_key, int) umap"
  cmPastBuckets :: "(metric_key, count_bucket list) umap"

definition addCounters :: "(metric_key, int) umap \<Rightarrow> (metric_key, int) umap \<Rightarrow> (metric_key, int) umap" where
  "addCounters acc counters = foldl (\<lambda>acc (k, n). addValue k n acc) acc counters"

definition count_flushCurrentBucketLocked :: "ns \<Rightarrow> ns \<Rightarrow> count_metric \<Rightarrow> count_metric" where
  "count_flushCurrentBucketLocked eventTimeNs nextBucketStartTimeNs m =
     (let fullBucketEndTimeNs = getCurrentBucketEndTimeNs m;
          endNs = (if eventTimeNs < fullBucketEndTimeNs then eventTimeNs else fullBucketEndTimeNs);
          past = foldl (\<lambda>pb (k, n). pushBucket k \<lparr>cbBucketStartNs = mpCurrentBucketStartTimeNs m, cbBucketEndNs = endNs, cbCount = n\<rparr> pb)
                   (cmPastBuckets m) (cmCurrentSlicedCounter m);
          m1 = m\<lparr>cmPastBuckets := past\<rparr>;
          m2 = (if eventTimeNs > fullBucketEndTimeNs
                then (if length (cmCurrentFullCounters m1) > 0
                      then let full = addCounters (cmCurrentFullCounters m1) (cmCurrentSlicedCounter m1)
                           in m1\<lparr>mpAnomalyTrackers := map (addPastBucket (Some full) (mpCurrentBucketNum m1)) (mpAnomalyTrackers m1),
                                 cmCurrentFullCounters := []\<rparr>
                      else m1\<lparr>mpAnomalyTrackers :=
                                map (addPastBucket (Some (cmCurrentSlicedCounter m1)) (mpCurrentBucketNum m1)) (mpAnomalyTrackers m1)\<rparr>)
                else m1\<lparr>cmCurrentFullCounters := addCounters (cmCurrentFullCounters m1) (cmCurrentSlicedCounter m1)\<rparr>)
      in m2\<lparr>cmCurrentSlicedCounter := [], mpCurrentBucketStartTimeNs := nextBucketStartTimeNs\<rparr>)"

definition count_flushIfNeededLocked :: "ns \<Rightarrow> count_metric \<Rightarrow> count_metric" where
  "count_flushIfNeededLocked eventTimeNs m =
     (let currentBucketEndTimeNs = getCurrentBucketEndTimeNs m
      in if eventTimeNs < currentBucketEndTimeNs then m
         else let numBucketsForward = 1 + (eventTimeNs - currentBucketEndTimeNs) div mpBucketSizeNs m;
                  nextBucketNs = currentBucketEndTimeNs + (numBucketsForward - 1) * mpBucketSizeNs m;
                  m1 = count_flushCurrentBucketLocked eventTimeNs nextBucketNs m
              in m1\<lparr>mpCurrentBucketNum := mpCurrentBucketNum m1 + numBucketsForward\<rparr>)"

definition count_flushLocked :: "ns \<Rightarrow> count_metric \<Rightarrow> count_metric" where
  "count_flushLocked eventTimeNs m =
     count_flushCurrentBucketLocked eventTimeNs eventTimeNs (count_flushIfNeededLocked eventTimeNs m)"

text \<open>The constructor, given the fields the base class and the configuration set.\<close>

definition newCountMetricProducer :: "metric_producer \<Rightarrow> ns \<Rightarrow> ns \<Rightarrow> ns \<Rightarrow> count_metric" where
  "newCountMetricProducer b timeBaseNs bucketSizeNs startTimeNs =
     (count_flushIfNeededLocked startTimeNs
        (metric_producer.extend
           (b\<lparr>mpTimeBaseNs := timeBaseNs, mpCurrentBucketStartTimeNs := timeBaseNs, mpCurrentBucketNum := 0, mpBucketSizeNs := bucketSizeNs\<rparr>)
           (count_metric.fields [] [] [])))\<lparr>mpCurrentBucketStartTimeNs := startTimeNs\<rparr>"

definition count_hitGuardRailLocked :: "metric_key \<Rightarrow> count_metric \<Rightarrow> bool" where
  "count_hitGuardRailLocked newKey m = dimension_guardrail (cmCurrentSlicedCounter m) newKey"

definition count_onMatchedLogEventInternalLocked :: "metric_key \<Rightarrow> bool \<Rightarrow> ns \<Rightarrow> count_metric \<Rightarrow> count_metric" where
  "count_onMatchedLogEventInternalLocked eventKey condition eventTimeNs m0 =
     (let m = count_flushIfNeededLocked eventTimeNs m0
      in if \<not> condition then m
         else let counted = (case map_of (cmCurrentSlicedCounter m) eventKey of
                    None \<Rightarrow> if count_hitGuardRailLocked eventKey m then None
                            else Some (m\<lparr>cmCurrentSlicedCounter := AList.update eventKey 1 (cmCurrentSlicedCounter m)\<rparr>)
                  | Some n \<Rightarrow> Some (m\<lparr>cmCurrentSlicedCounter := AList.update eventKey (n + 1) (cmCurrentSlicedCounter m)\<rparr>))
              in case counted of
                   None \<Rightarrow> m
                 | Some m1 \<Rightarrow>
                     let countWholeBucket = the (map_of (cmCurrentSlicedCounter m1) eventKey) +
                           (case map_of (cmCurrentFullCounters m1) eventKey of None \<Rightarrow> 0 | Some p \<Rightarrow> p)
                     in m1\<lparr>mpAnomalyTrackers :=
                             map (detectAndDeclareAnomaly eventTimeNs (mpCurrentBucketNum m1) (mpMetricId m1) eventKey countWholeBucket)
                               (mpAnomalyTrackers m1)\<rparr>)"

definition count_onMatchedLogEvent :: "condition_tracker list \<Rightarrow> 'l state_manager \<Rightarrow> state_event \<Rightarrow> count_metric \<Rightarrow> count_metric" where
  "count_onMatchedLogEvent conditions sm ev m =
     (case onMatchedLogEventLocked conditions sm ev m of
        None \<Rightarrow> m
      | Some me \<Rightarrow> count_onMatchedLogEventInternalLocked (meKey me) (meCondition me) (meTimeNs me) m)"

definition count_onConditionChangedLocked :: "bool \<Rightarrow> count_metric \<Rightarrow> count_metric" where
  "count_onConditionChangedLocked conditionMet m = m\<lparr>mpCondition := (if conditionMet then kTrue else kFalse)\<rparr>"

text \<open>What the report says of a bucket: its times when it is partial, its number when it is full.\<close>

datatype bucket_info = PartialBucket ns ns int | FullBucket int int

definition bucketInfo :: "count_metric \<Rightarrow> count_bucket \<Rightarrow> bucket_info" where
  "bucketInfo m b =
     (if cbBucketEndNs b - cbBucketStartNs b \<noteq> mpBucketSizeNs m
      then PartialBucket (NanoToMillis (cbBucketStartNs b)) (NanoToMillis (cbBucketEndNs b)) (cbCount b)
      else FullBucket (getBucketNumFromEndTimeNs m (cbBucketEndNs b)) (cbCount b))"

definition count_onDumpReportLocked ::
  "ns \<Rightarrow> bool \<Rightarrow> bool \<Rightarrow> count_metric \<Rightarrow> count_metric \<times> (metric_key \<times> bucket_info list) list" where
  "count_onDumpReportLocked dumpTimeNs include_current_partial_bucket erase_data m0 =
     (let m = (if include_current_partial_bucket then count_flushLocked dumpTimeNs m0 else count_flushIfNeededLocked dumpTimeNs m0)
      in if cmPastBuckets m = [] then (m, [])
         else (if erase_data then m\<lparr>cmPastBuckets := []\<rparr> else m,
               map (\<lambda>(k, bs). (k, map (bucketInfo m) bs)) (cmPastBuckets m)))"

definition count_dropDataLocked :: "ns \<Rightarrow> count_metric \<Rightarrow> count_metric" where
  "count_dropDataLocked dropTimeNs m = (count_flushIfNeededLocked dropTimeNs m)\<lparr>cmPastBuckets := []\<rparr>"

definition count_clearPastBucketsLocked :: "count_metric \<Rightarrow> count_metric" where
  "count_clearPastBucketsLocked m = m\<lparr>cmPastBuckets := []\<rparr>"

definition count_flushIfExpire :: "ns \<Rightarrow> count_metric \<Rightarrow> count_metric" where
  "count_flushIfExpire now m =
     (let (a, changed) = flushIfExpire now (mpActivations m);
          m1 = m\<lparr>mpActivations := a\<rparr>
      in if changed \<and> \<not> mIsActive a then count_flushLocked now m1 else m1)"

definition count_byteSizeLocked :: "int \<Rightarrow> count_metric \<Rightarrow> int" where
  "count_byteSizeLocked kBucketSize m = sum_list (map (\<lambda>(k, bs). int (length bs) * kBucketSize) (cmPastBuckets m))"

section \<open>Counting\<close>

definition counterOf :: "(metric_key, int) umap \<Rightarrow> metric_key \<Rightarrow> int" where
  "counterOf c k = (case map_of c k of None \<Rightarrow> 0 | Some n \<Rightarrow> n)"

definition pastCount :: "(metric_key, count_bucket list) umap \<Rightarrow> metric_key \<Rightarrow> int" where
  "pastCount pb k = (case map_of pb k of None \<Rightarrow> 0 | Some bs \<Rightarrow> sum_list (map cbCount bs))"

text \<open>All events counted for a key and not yet reported.\<close>

definition totalCount :: "count_metric \<Rightarrow> metric_key \<Rightarrow> int" where
  "totalCount m k = pastCount (cmPastBuckets m) k + counterOf (cmCurrentSlicedCounter m) k"

lemma pastCount_push: "pastCount (pushBucket k b pb) k' = pastCount pb k' + (if k' = k then cbCount b else 0)"
  by (simp add: pastCount_def pushBucket_def split: option.split)

lemma counterOf_notin: "k \<notin> fst ` set c \<Longrightarrow> counterOf c k = 0"
  using map_of_eq_None_iff[of c k] by (simp add: counterOf_def)

lemma pastCount_flush:
  "umap_ok c \<Longrightarrow> pastCount (foldl (\<lambda>pb (k, n). pushBucket k \<lparr>cbBucketStartNs = s, cbBucketEndNs = e, cbCount = n\<rparr> pb) pb c) k =
     pastCount pb k + counterOf c k"
proof (induction c arbitrary: pb)
  case (Cons x c)
  obtain k' n where x: "x = (k', n)" by fastforce
  have "counterOf (x # c) k = (if k = k' then n else counterOf c k)" by (simp add: x counterOf_def)
  moreover have "k = k' \<Longrightarrow> counterOf c k = 0" using Cons.prems by (intro counterOf_notin) (auto simp: x umap_ok_def)
  ultimately show ?case using Cons.IH[of "pushBucket k' \<lparr>cbBucketStartNs = s, cbBucketEndNs = e, cbCount = n\<rparr> pb"] Cons.prems
    by (simp add: x pastCount_push umap_ok_def)
qed (simp add: counterOf_def)

lemma counterOf_addCounters: "umap_ok c \<Longrightarrow> counterOf (addCounters acc c) k = counterOf acc k + counterOf c k"
proof (induction c arbitrary: acc)
  case (Cons x c)
  obtain k' n where x: "x = (k', n)" by fastforce
  have "counterOf (x # c) k = (if k = k' then n else counterOf c k)" by (simp add: x counterOf_def)
  moreover have "k = k' \<Longrightarrow> counterOf c k = 0" using Cons.prems by (intro counterOf_notin) (auto simp: x umap_ok_def)
  moreover have "counterOf (addValue k' n acc) k = counterOf acc k + (if k = k' then n else 0)"
    by (simp add: counterOf_def addValue_def split: option.split)
  ultimately show ?case using Cons.IH[of "addValue k' n acc"] Cons.prems by (simp add: x addCounters_def umap_ok_def)
qed (simp add: counterOf_def addCounters_def)

lemma flushCurrent_fields [frame_simps]:
  "cmCurrentSlicedCounter (count_flushCurrentBucketLocked t nb m) = []"
  "mpCurrentBucketStartTimeNs (count_flushCurrentBucketLocked t nb m) = nb"
  "mpCurrentBucketNum (count_flushCurrentBucketLocked t nb m) = mpCurrentBucketNum m"
  "mpBucketSizeNs (count_flushCurrentBucketLocked t nb m) = mpBucketSizeNs m"
  "mpTimeBaseNs (count_flushCurrentBucketLocked t nb m) = mpTimeBaseNs m"
  "cmPastBuckets (count_flushCurrentBucketLocked t nb m) =
     foldl (\<lambda>pb (k, n). pushBucket k \<lparr>cbBucketStartNs = mpCurrentBucketStartTimeNs m,
         cbBucketEndNs = (if t < getCurrentBucketEndTimeNs m then t else getCurrentBucketEndTimeNs m), cbCount = n\<rparr> pb)
       (cmPastBuckets m) (cmCurrentSlicedCounter m)"
  by (simp_all add: count_flushCurrentBucketLocked_def Let_def)

lemma flushCurrent_total: "umap_ok (cmCurrentSlicedCounter m) \<Longrightarrow> totalCount (count_flushCurrentBucketLocked t nb m) k = totalCount m k"
  by (simp add: totalCount_def frame_simps pastCount_flush) (simp add: counterOf_def)

lemma flushIfNeeded_total: "umap_ok (cmCurrentSlicedCounter m) \<Longrightarrow> totalCount (count_flushIfNeededLocked t m) k = totalCount m k"
  using flushCurrent_total[of m] by (simp add: count_flushIfNeededLocked_def Let_def totalCount_def)

lemma flushIfNeeded_counter:
  "cmCurrentSlicedCounter (count_flushIfNeededLocked t m) = (if t < getCurrentBucketEndTimeNs m then cmCurrentSlicedCounter m else [])"
  by (simp add: count_flushIfNeededLocked_def Let_def frame_simps)

lemma flushIfNeeded_umap: "umap_ok (cmCurrentSlicedCounter m) \<Longrightarrow> umap_ok (cmCurrentSlicedCounter (count_flushIfNeededLocked t m))"
  by (simp add: flushIfNeeded_counter)

section \<open>Bucket times\<close>

lemma flushIfNeeded_times:
  assumes "bucket_times_ok m" "mpCurrentBucketStartTimeNs m \<le> t"
  shows "bucket_times_ok (count_flushIfNeededLocked t m) \<and> mpCurrentBucketStartTimeNs (count_flushIfNeededLocked t m) \<le> t \<and>
     t < getCurrentBucketEndTimeNs (count_flushIfNeededLocked t m)"
proof (cases "t < getCurrentBucketEndTimeNs m")
  case True
  then show ?thesis using assms by (simp add: count_flushIfNeededLocked_def)
next
  case False
  define e where "e = getCurrentBucketEndTimeNs m"
  define n where "n = 1 + (t - e) div mpBucketSizeNs m"
  have b: "1 \<le> n" "e + (n - 1) * mpBucketSizeNs m \<le> t" "t < e + n * mpBucketSizeNs m"
    using next_bucket_bounds[of "mpBucketSizeNs m" e t] assms(1) False by (simp_all add: bucket_times_ok_def e_def n_def)
  have e: "e = mpTimeBaseNs m + (mpCurrentBucketNum m + 1) * mpBucketSizeNs m" by (simp add: e_def getCurrentBucketEndTimeNs_def)
  have "count_flushIfNeededLocked t m = (count_flushCurrentBucketLocked t (e + (n - 1) * mpBucketSizeNs m) m)
      \<lparr>mpCurrentBucketNum := mpCurrentBucketNum m + n\<rparr>"
    using False by (simp add: count_flushIfNeededLocked_def Let_def frame_simps e_def n_def)
  then show ?thesis
    using b e assms(1) by (simp add: bucket_times_ok_def getCurrentBucketEndTimeNs_def frame_simps algebra_simps)
qed

lemma flush_times:
  assumes "bucket_times_ok m" "mpCurrentBucketStartTimeNs m \<le> t"
  shows "bucket_times_ok (count_flushLocked t m) \<and> mpCurrentBucketStartTimeNs (count_flushLocked t m) = t"
proof -
  note n = flushIfNeeded_times[OF assms]
  then show ?thesis by (auto simp: count_flushLocked_def bucket_times_ok_def getCurrentBucketEndTimeNs_def frame_simps)
qed

section \<open>Past buckets\<close>

text \<open>A bucket of the report covers a part of one aligned bucket and ends by \<open>limit\<close>.\<close>

definition bucket_fits :: "'a metric_producer_scheme \<Rightarrow> ns \<Rightarrow> count_bucket \<Rightarrow> bool" where
  "bucket_fits m limit b \<longleftrightarrow> cbBucketStartNs b \<le> cbBucketEndNs b \<and> cbBucketEndNs b \<le> limit \<and> 1 \<le> cbCount b \<and>
     (\<exists>n. mpTimeBaseNs m + n * mpBucketSizeNs m \<le> cbBucketStartNs b \<and>
          cbBucketEndNs b \<le> mpTimeBaseNs m + (n + 1) * mpBucketSizeNs m)"

definition past_ok :: "'a metric_producer_scheme \<Rightarrow> (metric_key, count_bucket list) umap \<Rightarrow> ns \<Rightarrow> bool" where
  "past_ok m pb limit \<longleftrightarrow> (\<forall>k bs. map_of pb k = Some bs \<longrightarrow> (\<forall>b \<in> set bs. bucket_fits m limit b) \<and>
     sorted_wrt (\<lambda>a b. cbBucketEndNs a \<le> cbBucketStartNs b) bs)"

definition count_ok :: "count_metric \<Rightarrow> bool" where
  "count_ok m \<longleftrightarrow> bucket_times_ok m \<and> umap_ok (cmCurrentSlicedCounter m) \<and>
     (\<forall>k n. map_of (cmCurrentSlicedCounter m) k = Some n \<longrightarrow> 1 \<le> n) \<and>
     length (cmCurrentSlicedCounter m) \<le> kDimensionKeySizeHardLimit \<and>
     past_ok m (cmPastBuckets m) (mpCurrentBucketStartTimeNs m)"

lemma past_ok_empty [simp]: "past_ok m [] limit"
  by (simp add: past_ok_def)

lemma past_ok_later: "past_ok m pb limit \<Longrightarrow> limit \<le> limit' \<Longrightarrow> past_ok m pb limit'"
  by (fastforce simp: past_ok_def bucket_fits_def)

lemma past_ok_same: "past_ok m pb limit \<Longrightarrow> mpTimeBaseNs m' = mpTimeBaseNs m \<Longrightarrow> mpBucketSizeNs m' = mpBucketSizeNs m \<Longrightarrow> past_ok m' pb limit"
  by (simp add: past_ok_def bucket_fits_def)

lemma past_ok_buckets: "past_ok m pb limit = buckets_ok cbBucketStartNs cbBucketEndNs (\<lambda>b. 1 \<le> cbCount b \<and>
     (\<exists>n. mpTimeBaseNs m + n * mpBucketSizeNs m \<le> cbBucketStartNs b \<and> cbBucketEndNs b \<le> mpTimeBaseNs m + (n + 1) * mpBucketSizeNs m)) pb limit"
  by (auto simp: past_ok_def buckets_ok_def bucket_fits_def)

lemma flushCurrent_past:
  assumes "count_ok m" "mpCurrentBucketStartTimeNs m \<le> t" "e = (if t < getCurrentBucketEndTimeNs m then t else getCurrentBucketEndTimeNs m)"
  shows "past_ok m (cmPastBuckets (count_flushCurrentBucketLocked t nb m)) e"
proof -
  have s: "mpCurrentBucketStartTimeNs m \<le> e" "e \<le> getCurrentBucketEndTimeNs m"
    using assms by (auto simp: count_ok_def bucket_times_ok_def)
  have aligned: "\<exists>n. mpTimeBaseNs m + n * mpBucketSizeNs m \<le> mpCurrentBucketStartTimeNs m \<and> e \<le> mpTimeBaseNs m + (n + 1) * mpBucketSizeNs m"
    using assms(1) s unfolding count_ok_def bucket_times_ok_def getCurrentBucketEndTimeNs_def by blast
  have c: "umap_ok (cmCurrentSlicedCounter m)" "past_ok m (cmPastBuckets m) (mpCurrentBucketStartTimeNs m)"
    "\<And>k n. (k, n) \<in> set (cmCurrentSlicedCounter m) \<Longrightarrow> 1 \<le> n"
    using assms(1) by (auto simp: count_ok_def umap_ok_def)
  show ?thesis
    unfolding flushCurrent_fields assms(3)[symmetric] past_ok_buckets
    by (rule buckets_ok_push[OF c(2)[unfolded past_ok_buckets] s(1) c(1)]) (use c(3) aligned in auto)
qed

lemma flushIfNeeded_ok:
  assumes "count_ok m" "mpCurrentBucketStartTimeNs m \<le> t"
  shows "count_ok (count_flushIfNeededLocked t m)"
proof (cases "t < getCurrentBucketEndTimeNs m")
  case True
  then show ?thesis using assms by (simp add: count_flushIfNeededLocked_def)
next
  case False
  have b: "bucket_times_ok m" using assms(1) by (simp add: count_ok_def)
  let ?m = "count_flushIfNeededLocked t m"
  define nb where "nb = getCurrentBucketEndTimeNs m + (1 + (t - getCurrentBucketEndTimeNs m) div mpBucketSizeNs m - 1) * mpBucketSizeNs m"
  have m: "?m = (count_flushCurrentBucketLocked t nb m)\<lparr>mpCurrentBucketNum := mpCurrentBucketNum m + (1 + (t - getCurrentBucketEndTimeNs m) div mpBucketSizeNs m)\<rparr>"
    using False by (simp add: count_flushIfNeededLocked_def Let_def frame_simps nb_def)
  have "0 \<le> (t - getCurrentBucketEndTimeNs m) div mpBucketSizeNs m"
    using False b by (simp add: bucket_times_ok_def pos_imp_zdiv_nonneg_iff)
  then have "getCurrentBucketEndTimeNs m \<le> nb" using b by (simp add: nb_def bucket_times_ok_def)
  then have "past_ok m (cmPastBuckets ?m) nb"
    using past_ok_later[OF flushCurrent_past[OF assms refl]] False by (simp add: m)
  then have "past_ok ?m (cmPastBuckets ?m) (mpCurrentBucketStartTimeNs ?m)"
    using past_ok_same[of m "cmPastBuckets ?m" nb ?m] by (simp add: m frame_simps)
  then show ?thesis using flushIfNeeded_times[OF b assms(2)] False by (simp add: count_ok_def flushIfNeeded_counter)
qed

lemma flush_ok:
  assumes "count_ok m" "mpCurrentBucketStartTimeNs m \<le> t"
  shows "count_ok (count_flushLocked t m)"
proof -
  let ?n = "count_flushIfNeededLocked t m"
  have n: "count_ok ?n" by (rule flushIfNeeded_ok[OF assms])
  have b: "bucket_times_ok m" using assms(1) by (simp add: count_ok_def)
  have t: "mpCurrentBucketStartTimeNs ?n \<le> t" "t < getCurrentBucketEndTimeNs ?n" using flushIfNeeded_times[OF b assms(2)] by simp_all
  have "past_ok ?n (cmPastBuckets (count_flushLocked t m)) t"
    using flushCurrent_past[OF n t(1) refl, of t] t(2) by (simp add: count_flushLocked_def)
  then have "past_ok (count_flushLocked t m) (cmPastBuckets (count_flushLocked t m)) t"
    using past_ok_same[of ?n _ t "count_flushLocked t m"] by (simp add: count_flushLocked_def frame_simps)
  then show ?thesis using flush_times[OF b assms(2)] by (simp add: count_ok_def) (simp add: count_flushLocked_def frame_simps)
qed

text \<open>Counting an event, once the bucket is right.\<close>

definition counted :: "metric_key \<Rightarrow> count_metric \<Rightarrow> bool" where
  "counted k m \<longleftrightarrow> map_of (cmCurrentSlicedCounter m) k \<noteq> None \<or> length (cmCurrentSlicedCounter m) < kDimensionKeySizeHardLimit"

lemma counted_iff_guardrail: "counted k m \<longleftrightarrow> \<not> count_hitGuardRailLocked k m"
  by (auto simp: counted_def count_hitGuardRailLocked_def dimension_guardrail_def kDimensionKeySizeHardLimit_def kDimensionKeySizeSoftLimit_def)

lemma event_effect:
  assumes "m = count_flushIfNeededLocked t m0"
  shows "\<exists>ats. count_onMatchedLogEventInternalLocked k condition t m0 =
    (if condition \<and> counted k m
     then m\<lparr>cmCurrentSlicedCounter := AList.update k (counterOf (cmCurrentSlicedCounter m) k + 1) (cmCurrentSlicedCounter m), mpAnomalyTrackers := ats\<rparr>
     else m)"
proof (cases "condition \<and> counted k m")
  case True
  then have ng: "\<not> count_hitGuardRailLocked k m" by (simp add: counted_iff_guardrail)
  show ?thesis
  proof (cases "map_of (cmCurrentSlicedCounter m) k")
    case None
    then show ?thesis using True ng
      unfolding count_onMatchedLogEventInternalLocked_def assms[symmetric] Let_def by (simp add: counterOf_def) metis
  next
    case (Some n)
    then show ?thesis using True ng
      unfolding count_onMatchedLogEventInternalLocked_def assms[symmetric] Let_def by (simp add: counterOf_def) metis
  qed
next
  case False
  then have "\<not> condition \<or> map_of (cmCurrentSlicedCounter m) k = None \<and> count_hitGuardRailLocked k m"
    by (auto simp: counted_iff_guardrail count_hitGuardRailLocked_def dimension_guardrail_def split: if_splits)
  with False show ?thesis
    unfolding count_onMatchedLogEventInternalLocked_def assms[symmetric] Let_def by auto
qed

lemma event_ok:
  assumes "count_ok m0" "mpCurrentBucketStartTimeNs m0 \<le> t"
  shows "count_ok (count_onMatchedLogEventInternalLocked k condition t m0)"
proof -
  define m where "m = count_flushIfNeededLocked t m0"
  have m: "count_ok m" unfolding m_def by (rule flushIfNeeded_ok[OF assms])
  obtain ats where e: "count_onMatchedLogEventInternalLocked k condition t m0 =
    (if condition \<and> counted k m
     then m\<lparr>cmCurrentSlicedCounter := AList.update k (counterOf (cmCurrentSlicedCounter m) k + 1) (cmCurrentSlicedCounter m), mpAnomalyTrackers := ats\<rparr>
     else m)" using event_effect[OF m_def] by blast
  have "counterOf (cmCurrentSlicedCounter m) k \<ge> 0" using m by (force simp: count_ok_def counterOf_def split: option.split)
  moreover have "length (AList.update k v (cmCurrentSlicedCounter m)) \<le> kDimensionKeySizeHardLimit" if "counted k m" for v
    using m that guardrail_update_bound[of "cmCurrentSlicedCounter m" k v]
    by (simp add: count_ok_def counted_iff_guardrail count_hitGuardRailLocked_def)
  ultimately show ?thesis
    using m unfolding e by (auto simp: count_ok_def bucket_times_ok_def getCurrentBucketEndTimeNs_def intro: past_ok_same)
qed

section \<open>Runs\<close>

datatype count_op =
    CountEvent metric_key bool ns
  | AppUpgrade ns
  | DumpReport ns bool bool
  | DropData ns
  | ConditionChanged bool ns

fun count_op_time :: "count_op \<Rightarrow> ns" where
  "count_op_time (CountEvent k c t) = t"
| "count_op_time (AppUpgrade t) = t"
| "count_op_time (DumpReport t i e) = t"
| "count_op_time (DropData t) = t"
| "count_op_time (ConditionChanged c t) = t"

fun count_op_step :: "count_op \<Rightarrow> count_metric \<Rightarrow> count_metric" where
  "count_op_step (CountEvent k c t) m = count_onMatchedLogEventInternalLocked k c t m"
| "count_op_step (AppUpgrade t) m = count_flushLocked t m"
| "count_op_step (DumpReport t i e) m = fst (count_onDumpReportLocked t i e m)"
| "count_op_step (DropData t) m = count_dropDataLocked t m"
| "count_op_step (ConditionChanged c t) m = count_onConditionChangedLocked c m"

definition clearPast :: "count_metric \<Rightarrow> count_metric" where
  "clearPast m = m\<lparr>cmPastBuckets := []\<rparr>"

lemma clearPast_ok: "count_ok m \<Longrightarrow> count_ok (clearPast m) \<and> mpCurrentBucketStartTimeNs (clearPast m) = mpCurrentBucketStartTimeNs m"
  by (simp add: count_ok_def clearPast_def bucket_times_ok_def getCurrentBucketEndTimeNs_def)

lemma event_start: "bucket_times_ok m \<Longrightarrow> mpCurrentBucketStartTimeNs m \<le> t \<Longrightarrow>
    mpCurrentBucketStartTimeNs (count_onMatchedLogEventInternalLocked k c t m) \<le> t"
  using event_effect[OF refl, of k c t m] flushIfNeeded_times[of m t] by auto

lemma step_ok:
  assumes "count_ok m" "mpCurrentBucketStartTimeNs m \<le> count_op_time x"
  shows "count_ok (count_op_step x m) \<and> mpCurrentBucketStartTimeNs (count_op_step x m) \<le> count_op_time x"
proof -
  have b: "bucket_times_ok m" using assms(1) by (simp add: count_ok_def)
  show ?thesis
  proof (cases x)
    case (CountEvent k c t)
    then show ?thesis using event_ok[OF assms(1), of t] event_start[OF b, of t] assms(2) by simp
  next
    case (AppUpgrade t)
    then show ?thesis using flush_ok[OF assms(1), of t] flush_times[OF b, of t] assms(2) by simp
  next
    case (DumpReport t i e)
    let ?m = "if i then count_flushLocked t m else count_flushIfNeededLocked t m"
    have "count_ok ?m" "mpCurrentBucketStartTimeNs ?m \<le> t"
      using flush_ok[OF assms(1), of t] flush_times[OF b, of t] flushIfNeeded_ok[OF assms(1), of t] flushIfNeeded_times[OF b, of t] assms(2)
      by (auto simp: DumpReport)
    moreover have "count_op_step x m \<in> {?m, clearPast ?m}" by (simp add: DumpReport count_onDumpReportLocked_def Let_def clearPast_def)
    ultimately show ?thesis using clearPast_ok[of ?m] by (auto simp: DumpReport)
  next
    case (DropData t)
    have "count_op_step x m = clearPast (count_flushIfNeededLocked t m)" by (simp add: DropData count_dropDataLocked_def clearPast_def)
    then show ?thesis using clearPast_ok[OF flushIfNeeded_ok[OF assms(1)], of t] flushIfNeeded_times[OF b, of t] assms(2) by (simp add: DropData)
  next
    case (ConditionChanged c t)
    then show ?thesis using assms by (simp add: count_onConditionChangedLocked_def count_ok_def bucket_times_ok_def getCurrentBucketEndTimeNs_def past_ok_def bucket_fits_def)
  qed
qed

lemma run_ok:
  "count_ok m \<Longrightarrow> mpCurrentBucketStartTimeNs m \<le> t \<Longrightarrow> sorted (t # map count_op_time ops) \<Longrightarrow> count_ok (fold count_op_step ops m)"
proof (induction ops arbitrary: m t)
  case (Cons x ops)
  from step_ok[of m x] Cons.prems have "count_ok (count_op_step x m)" "mpCurrentBucketStartTimeNs (count_op_step x m) \<le> count_op_time x" by auto
  with Cons.IH[of "count_op_step x m" "count_op_time x"] Cons.prems(3) show ?case by simp
qed simp

lemma newCount_ok:
  assumes "0 < width" "base \<le> start"
  shows "count_ok (newCountMetricProducer b base width start) \<and> mpCurrentBucketStartTimeNs (newCountMetricProducer b base width start) = start"
proof -
  define m where "m = metric_producer.extend (b\<lparr>mpTimeBaseNs := base, mpCurrentBucketStartTimeNs := base, mpCurrentBucketNum := 0, mpBucketSizeNs := width\<rparr>)
    (count_metric.fields [] [] [])"
  have m: "count_ok m" "mpCurrentBucketStartTimeNs m \<le> start" "bucket_times_ok m" "cmCurrentSlicedCounter m = []" "cmPastBuckets m = []"
    using assms by (simp_all add: m_def count_ok_def bucket_times_ok_def getCurrentBucketEndTimeNs_def metric_producer.defs count_metric.defs)
  let ?n = "count_flushIfNeededLocked start m"
  have n: "bucket_times_ok ?n" "mpCurrentBucketStartTimeNs ?n \<le> start" "start < getCurrentBucketEndTimeNs ?n"
    using flushIfNeeded_times[OF m(3,2)] by simp_all
  have "cmCurrentSlicedCounter ?n = []" "cmPastBuckets ?n = []"
    using m(4,5) by (simp_all add: flushIfNeeded_counter) (simp add: count_flushIfNeededLocked_def Let_def frame_simps)
  then show ?thesis using n by (auto simp: newCountMetricProducer_def m_def[symmetric] count_ok_def bucket_times_ok_def getCurrentBucketEndTimeNs_def)
qed

section \<open>Properties\<close>

text \<open>
  Property C16. Whatever events, upgrades, reports and data drops a count metric sees, in the order of
  their times, its current bucket lies inside the aligned bucket of its number, it never tracks more than the
  hard limit of keys, and every bucket it has stored for a key has a positive count and lies inside one
  aligned bucket; the buckets of a key follow one another without overlap.
\<close>

theorem count_buckets_invariant:
  assumes "0 < width" and "base \<le> start" and "sorted (start # map count_op_time ops)"
    and "m = fold count_op_step ops (newCountMetricProducer b base width start)"
  shows "bucket_times_ok m \<and> length (cmCurrentSlicedCounter m) \<le> kDimensionKeySizeHardLimit \<and>
    (\<forall>k bs. map_of (cmPastBuckets m) k = Some bs \<longrightarrow>
       (\<forall>x \<in> set bs. bucket_fits m (mpCurrentBucketStartTimeNs m) x) \<and>
       sorted_wrt (\<lambda>x y. cbBucketEndNs x \<le> cbBucketStartNs y) bs)"
proof -
  have "count_ok m" using run_ok[of "newCountMetricProducer b base width start" start ops] newCount_ok[OF assms(1,2)] assms(3,4) by simp
  then show ?thesis by (simp add: count_ok_def past_ok_def)
qed

theorem count_buckets_invariant_witness:
  "bucket_times_ok (fold count_op_step [CountEvent DEFAULT_METRIC_DIMENSION_KEY True 15, AppUpgrade 17, CountEvent DEFAULT_METRIC_DIMENSION_KEY True 31]
     (newCountMetricProducer example_base 0 10 5))"
  using count_buckets_invariant[of 10 0 5 "[CountEvent DEFAULT_METRIC_DIMENSION_KEY True 15, AppUpgrade 17,
      CountEvent DEFAULT_METRIC_DIMENSION_KEY True 31]" _ example_base] by simp



text \<open>
  Fact. What the anomaly trackers learn when a bucket is closed: after the end of the full
  bucket, each is given the counts of all its partial buckets and the current one together, and the
  accumulated counts start afresh; up to and including the end itself they are given nothing, and the
  current counts are accumulated.
\<close>

theorem count_flush_feeds_anomaly:
  assumes "umap_ok (cmCurrentSlicedCounter m)" and "m' = count_flushCurrentBucketLocked t nb m"
  shows "if t > getCurrentBucketEndTimeNs m
    then (\<exists>bucket. (\<forall>k. counterOf bucket k = counterOf (cmCurrentFullCounters m) k + counterOf (cmCurrentSlicedCounter m) k) \<and>
        mpAnomalyTrackers m' = map (addPastBucket (Some bucket) (mpCurrentBucketNum m)) (mpAnomalyTrackers m)) \<and> cmCurrentFullCounters m' = []
    else mpAnomalyTrackers m' = mpAnomalyTrackers m \<and>
      (\<forall>k. counterOf (cmCurrentFullCounters m') k = counterOf (cmCurrentFullCounters m) k + counterOf (cmCurrentSlicedCounter m) k)"
proof (cases "t > getCurrentBucketEndTimeNs m")
  case True
  show ?thesis
  proof (cases "cmCurrentFullCounters m = []")
    case True
    then show ?thesis
      using \<open>t > getCurrentBucketEndTimeNs m\<close>
      by (auto simp: assms(2) count_flushCurrentBucketLocked_def Let_def counterOf_def intro!: exI[of _ "cmCurrentSlicedCounter m"])
  next
    case False
    then show ?thesis
      using \<open>t > getCurrentBucketEndTimeNs m\<close> counterOf_addCounters[OF assms(1), of "cmCurrentFullCounters m"]
      by (auto simp: assms(2) count_flushCurrentBucketLocked_def Let_def
          intro!: exI[of _ "addCounters (cmCurrentFullCounters m) (cmCurrentSlicedCounter m)"])
  qed
next
  case False
  then show ?thesis
    using counterOf_addCounters[OF assms(1), of "cmCurrentFullCounters m"]
    by (simp add: assms(2) count_flushCurrentBucketLocked_def Let_def)
qed

theorem count_flush_feeds_anomaly_witness:
  "\<forall>k. counterOf (cmCurrentFullCounters (count_flushCurrentBucketLocked 10 10
      (count_onMatchedLogEventInternalLocked DEFAULT_METRIC_DIMENSION_KEY True 7 (newCountMetricProducer example_base 0 10 5)))) k =
    (if k = DEFAULT_METRIC_DIMENSION_KEY then 1 else 0)"
proof -
  let ?m = "newCountMetricProducer example_base 0 10 5"
  let ?n = "count_onMatchedLogEventInternalLocked DEFAULT_METRIC_DIMENSION_KEY True 7 ?m"
  have n: "cmCurrentSlicedCounter ?n = [(DEFAULT_METRIC_DIMENSION_KEY, 1)]" "cmCurrentFullCounters ?n = []" "getCurrentBucketEndTimeNs ?n = 10"
    by (simp_all add: newCountMetricProducer_def count_flushIfNeededLocked_def getCurrentBucketEndTimeNs_def example_base_def
        metric_producer.defs count_metric.defs count_onMatchedLogEventInternalLocked_def count_hitGuardRailLocked_def
        dimension_guardrail_def kDimensionKeySizeSoftLimit_def Let_def)
  have "umap_ok (cmCurrentSlicedCounter ?n)" by (simp add: n umap_ok_def)
  from count_flush_feeds_anomaly[OF this refl, of 10 10] show ?thesis by (simp add: n counterOf_def)
qed

end
