(* ===== verification/AlarmQueue.thy ===== *)
theory AlarmQueue
  imports StatsdPrelude
begin

text \<open>
  \<^verbatim>\<open>bin/src/anomaly/indexed_priority_queue.h\<close>: the binary heap with an index map that holds the
  alarms of the \<^verbatim>\<open>AlarmMonitor\<close>. The vector is 1-indexed with the null pointer in slot 0; an
  element is a pointer, so equality is identity. The comparator is the template parameter, an
  argument of every operation; locale \<open>comparator\<close> is its contract, locale \<open>min_queue\<close> the contract
  the queue gives its client, interpreted here on the heap for every comparator that is a strict
  weak order.
\<close>

section \<open>Definitions\<close>

record 'a ipq =
  pq :: "'a option list"
  indices :: "('a option, nat) umap"

definition ipq_size :: "'a ipq \<Rightarrow> nat" where
  "ipq_size q = length (pq q) - 1"

definition ipq_empty :: "'a ipq \<Rightarrow> bool" where
  "ipq_empty q = (ipq_size q < 1)"

definition ipq_init :: "'a ipq" where
  "ipq_init = \<lparr>pq = [None], indices = [(None, 0)]\<rparr>"

definition ipq_contains :: "'a ipq \<Rightarrow> 'a option \<Rightarrow> bool" where
  "ipq_contains q a = (if a = None then False else map_of (indices q) a \<noteq> None)"

definition ipq_top :: "'a ipq \<Rightarrow> 'a option" where
  "ipq_top q = (if ipq_empty q then None else pq q ! 1)"

text \<open>Out of range the comparison is \<open>False\<close>, as in the code; the comparator is never applied to
  the null pointer, which slot 0 alone holds.\<close>

definition higher :: "('a \<Rightarrow> 'a \<Rightarrow> bool) \<Rightarrow> 'a ipq \<Rightarrow> nat \<Rightarrow> nat \<Rightarrow> bool" where
  "higher lt q i j =
     (if \<not> (0 < i \<and> i < length (pq q) \<and> 0 < j \<and> j < length (pq q)) then False
      else (case (pq q ! i, pq q ! j) of (Some a, Some b) \<Rightarrow> lt a b | _ \<Rightarrow> False))"

definition swap_indices :: "'a ipq \<Rightarrow> nat \<Rightarrow> nat \<Rightarrow> 'a ipq" where
  "swap_indices q i j =
     (if \<not> (0 < i \<and> i < length (pq q) \<and> 0 < j \<and> j < length (pq q)) then q
      else let val_i = pq q ! i; val_j = pq q ! j
           in \<lparr>pq = (pq q)[i := val_j, j := val_i],
               indices = AList.update val_j i (AList.update val_i j (indices q))\<rparr>)"

lemma length_swap_indices [simp]: "length (pq (swap_indices q i j)) = length (pq q)"
  by (simp add: swap_indices_def Let_def)

function sift_up :: "('a \<Rightarrow> 'a \<Rightarrow> bool) \<Rightarrow> 'a ipq \<Rightarrow> nat \<Rightarrow> 'a ipq" where
  "sift_up lt q idx =
     (if idx > 1
      then let parent = idx div 2
           in if higher lt q idx parent then sift_up lt (swap_indices q idx parent) parent else q
      else q)"
  by pat_completeness auto
termination by (relation "measure (\<lambda>(lt, q, idx). idx)") auto

text \<open>The child of \<open>idx\<close> that the downward loop compares with.\<close>

definition higher_child :: "('a \<Rightarrow> 'a \<Rightarrow> bool) \<Rightarrow> 'a ipq \<Rightarrow> nat \<Rightarrow> nat" where
  "higher_child lt q idx =
     (let child = 2 * idx
      in if child < ipq_size q \<and> higher lt q (child + 1) child then child + 1 else child)"

lemma higher_0 [simp]: "\<not> higher lt q i 0" "\<not> higher lt q 0 i"
  by (simp_all add: higher_def)

function sift_down :: "('a \<Rightarrow> 'a \<Rightarrow> bool) \<Rightarrow> 'a ipq \<Rightarrow> nat \<Rightarrow> 'a ipq" where
  "sift_down lt q idx =
     (if 2 * idx \<le> ipq_size q
      then let child = higher_child lt q idx
           in if higher lt q child idx then sift_down lt (swap_indices q child idx) child else q
      else q)"
  by pat_completeness auto
termination
proof (relation "measure (\<lambda>(lt, q, idx). length (pq q) - idx)")
  fix lt :: "'a \<Rightarrow> 'a \<Rightarrow> bool" and q :: "'a ipq" and idx child
  assume "2 * idx \<le> ipq_size q" "child = higher_child lt q idx" "higher lt q child idx"
  then show "((lt, swap_indices q child idx, child), lt, q, idx) \<in> measure (\<lambda>(lt, q, idx). length (pq q) - idx)"
    by (auto simp: higher_def higher_child_def Let_def split: if_splits)
qed auto

declare sift_up.simps [simp del] sift_down.simps [simp del]

definition ipq_push :: "('a \<Rightarrow> 'a \<Rightarrow> bool) \<Rightarrow> 'a option \<Rightarrow> 'a ipq \<Rightarrow> 'a ipq" where
  "ipq_push lt a q =
     (if a = None then q
      else if ipq_contains q a then q
      else let pq' = pq q @ [a]; idx = length pq' - 1
           in sift_up lt
                \<lparr>pq = pq',
                 indices = (if map_of (indices q) a = None then AList.update a idx (indices q)
                            else indices q)\<rparr> idx)"

text \<open>Moving the last element into slot \<open>idx\<close> and dropping the last slot.\<close>

definition move_last :: "'a option \<Rightarrow> nat \<Rightarrow> 'a ipq \<Rightarrow> 'a ipq" where
  "move_last a idx q =
     (let last_a = last (pq q)
      in \<lparr>pq = butlast ((pq q)[idx := last_a]),
          indices = AList.delete a (AList.update last_a idx (indices q))\<rparr>)"

definition drop_last :: "'a option \<Rightarrow> 'a ipq \<Rightarrow> 'a ipq" where
  "drop_last a q = \<lparr>pq = butlast (pq q), indices = AList.delete a (indices q)\<rparr>"

text \<open>\<^verbatim>\<open>remove\<close> returns whether the element had been present.\<close>

definition ipq_remove :: "('a \<Rightarrow> 'a \<Rightarrow> bool) \<Rightarrow> 'a option \<Rightarrow> 'a ipq \<Rightarrow> 'a ipq \<times> bool" where
  "ipq_remove lt a q =
     (if a = None then (q, False)
      else if \<not> ipq_contains q a then (q, False)
      else let idx = the (map_of (indices q) a)
           in if idx \<ge> length (pq q) then (q, False)
              else if idx = ipq_size q then (drop_last a q, True)
              else (sift_down lt (sift_up lt (move_last a idx q) idx) idx, True))"

definition ipq_pop :: "('a \<Rightarrow> 'a \<Rightarrow> bool) \<Rightarrow> 'a ipq \<Rightarrow> 'a ipq" where
  "ipq_pop lt q =
     (let a = ipq_top q
      in if a = None then q
         else if 1 = ipq_size q then drop_last a q
         else sift_down lt (move_last a 1 q) 1)"

definition ipq_clear :: "'a ipq \<Rightarrow> 'a ipq" where
  "ipq_clear q = ipq_init"

section \<open>The index map is the inverse of the vector\<close>

definition ipq_wf :: "'a ipq \<Rightarrow> bool" where
  "ipq_wf q \<longleftrightarrow> pq q \<noteq> [] \<and> pq q ! 0 = None \<and>
     (\<forall>i x. map_of (indices q) x = Some i \<longleftrightarrow> i < length (pq q) \<and> pq q ! i = x)"

definition ipq_elems :: "'a ipq \<Rightarrow> 'a set" where
  "ipq_elems q = {a. Some a \<in> set (pq q)}"

lemma ipq_wf_inj: "ipq_wf q \<Longrightarrow> i < length (pq q) \<Longrightarrow> j < length (pq q) \<Longrightarrow> pq q ! i = pq q ! j \<Longrightarrow> i = j"
  by (metis ipq_wf_def option.inject)

lemma ipq_wf_distinct: "ipq_wf q \<Longrightarrow> distinct (pq q)"
  by (auto simp: distinct_conv_nth dest: ipq_wf_inj)

lemma ipq_wf_Some: "ipq_wf q \<Longrightarrow> 0 < i \<Longrightarrow> i < length (pq q) \<Longrightarrow> \<exists>a. pq q ! i = Some a"
  by (metis ipq_wf_def ipq_wf_inj length_greater_0_conv less_not_refl not_None_eq)

lemma ipq_contains_iff: "ipq_wf q \<Longrightarrow> ipq_contains q (Some a) \<longleftrightarrow> a \<in> ipq_elems q"
  by (auto simp: ipq_contains_def ipq_elems_def ipq_wf_def in_set_conv_nth)

lemma ipq_wf_init: "ipq_wf ipq_init"
  by (auto simp: ipq_wf_def ipq_init_def split: if_splits)

lemma ipq_elems_init [simp]: "ipq_elems ipq_init = {}"
  by (simp add: ipq_elems_def ipq_init_def)

lemma ipq_empty_iff: "ipq_wf q \<Longrightarrow> ipq_empty q \<longleftrightarrow> ipq_elems q = {}"
proof -
  assume wf: "ipq_wf q"
  have "ipq_elems q \<noteq> {}" if "1 < length (pq q)"
    using ipq_wf_Some[OF wf, of 1] that by (metis (mono_tags) empty_iff ipq_elems_def mem_Collect_eq nth_mem zero_less_one)
  moreover have "ipq_elems q = {}" if "length (pq q) = 1"
    using wf that by (auto simp: ipq_elems_def ipq_wf_def length_Suc_conv)
  moreover have "pq q \<noteq> []" using wf by (simp add: ipq_wf_def)
  ultimately show ?thesis
    by (cases "length (pq q) = 1") (auto simp: ipq_empty_def ipq_size_def Suc_lessI le_Suc_eq)
qed

lemma ipq_wf_swap: "ipq_wf q \<Longrightarrow> ipq_wf (swap_indices q i j)"
proof (cases "0 < i \<and> i < length (pq q) \<and> 0 < j \<and> j < length (pq q)")
  case True
  assume wf: "ipq_wf q"
  have inj: "(pq q ! k = pq q ! l) = (k = l)" if "k < length (pq q)" "l < length (pq q)" for k l
    using wf that by (auto dest: ipq_wf_inj)
  have "map_of (indices (swap_indices q i j)) x = Some k \<longleftrightarrow>
      k < length (pq q) \<and> pq (swap_indices q i j) ! k = x" for x k
    using True wf inj by (auto simp: swap_indices_def Let_def nth_list_update ipq_wf_def)
  moreover have "pq (swap_indices q i j) ! 0 = None"
    using True wf by (simp add: swap_indices_def Let_def ipq_wf_def)
  ultimately show ?thesis using wf by (simp add: ipq_wf_def swap_indices_def Let_def)
next
  case False
  then have "swap_indices q i j = q" by (auto simp: swap_indices_def)
  then show "ipq_wf q \<Longrightarrow> ?thesis" by simp
qed

lemma set_swap_indices [simp]: "set (pq (swap_indices q i j)) = set (pq q)"
  by (simp add: swap_indices_def Let_def)

lemma ipq_elems_swap [simp]: "ipq_elems (swap_indices q i j) = ipq_elems q"
  by (simp add: ipq_elems_def)

text \<open>What both sifting loops keep: well-formedness, the elements and the length.\<close>

lemma sift_up_frame:
  "(ipq_wf q \<longrightarrow> ipq_wf (sift_up lt q i)) \<and> set (pq (sift_up lt q i)) = set (pq q) \<and>
   length (pq (sift_up lt q i)) = length (pq q)"
proof (induction lt q i rule: sift_up.induct)
  case (1 lt q idx)
  then show ?case by (subst (1 2 3) sift_up.simps) (auto simp: Let_def ipq_wf_swap)
qed

lemma sift_down_frame:
  "(ipq_wf q \<longrightarrow> ipq_wf (sift_down lt q i)) \<and> set (pq (sift_down lt q i)) = set (pq q) \<and>
   length (pq (sift_down lt q i)) = length (pq q)"
proof (induction lt q i rule: sift_down.induct)
  case (1 lt q idx)
  then show ?case by (subst (1 2 3) sift_down.simps) (auto simp: Let_def ipq_wf_swap)
qed

lemmas sift_frames = sift_up_frame sift_down_frame
lemmas sift_wf = sift_up_frame[THEN conjunct1, rule_format] sift_down_frame[THEN conjunct1, rule_format]

lemma sift_elems [simp]: "ipq_elems (sift_up lt q i) = ipq_elems q" "ipq_elems (sift_down lt q i) = ipq_elems q"
  by (simp_all add: ipq_elems_def sift_frames)


lemma ipq_elems_split:
  assumes "ipq_wf q" and "map_of (indices q) (Some a) = Some i"
  shows "i < length (pq q)" and "pq q ! i = Some a" and "0 < i" and "a \<in> ipq_elems q"
proof -
  show i: "i < length (pq q)" "pq q ! i = Some a" using assms by (auto simp: ipq_wf_def)
  then show "0 < i" using assms by (cases i) (auto simp: ipq_wf_def)
  show "a \<in> ipq_elems q" using i nth_mem by (fastforce simp: ipq_elems_def)
qed

lemma drop_last_frame:
  assumes wf: "ipq_wf q" and a: "map_of (indices q) (Some a) = Some (ipq_size q)"
  shows "ipq_wf (drop_last (Some a) q)" and "ipq_elems (drop_last (Some a) q) = ipq_elems q - {a}"
proof -
  note at = ipq_elems_split[OF wf a]
  obtain ys where ys: "pq q = ys @ [Some a]"
    using at by (metis append_butlast_last_id ipq_size_def ipq_wf_def last_conv_nth wf)
  have "Some a \<notin> set ys" using ipq_wf_distinct[OF wf] by (simp add: ys)
  then show "ipq_elems (drop_last (Some a) q) = ipq_elems q - {a}"
    by (auto simp: drop_last_def ys ipq_elems_def)
  have ne: "ys \<noteq> []" and head: "ys ! 0 = None"
    using at wf by (auto simp: ipq_size_def ipq_wf_def ys nth_append split: if_splits)
  have "map_of (indices (drop_last (Some a) q)) x = Some k \<longleftrightarrow> k < length ys \<and> ys ! k = x" for x k
  proof -
    have "map_of (indices q) x = Some k \<longleftrightarrow> k < Suc (length ys) \<and> (ys @ [Some a]) ! k = x"
      using wf by (simp add: ipq_wf_def ys)
    moreover have "k < length ys \<Longrightarrow> ys ! k \<noteq> Some a"
      using \<open>Some a \<notin> set ys\<close> by (metis nth_mem)
    ultimately show ?thesis
      by (auto simp: drop_last_def nth_append less_Suc_eq split: if_splits)
  qed
  with ne head show "ipq_wf (drop_last (Some a) q)" by (simp add: ipq_wf_def drop_last_def ys)
qed

lemma move_last_frame:
  assumes wf: "ipq_wf q" and a: "map_of (indices q) (Some a) = Some i" and "i \<noteq> ipq_size q"
  shows "ipq_wf (move_last (Some a) i q)" and "ipq_elems (move_last (Some a) i q) = ipq_elems q - {a}"
    and "length (pq (move_last (Some a) i q)) = length (pq q) - 1"
    and "i < length (pq q) - 1"
    and "\<And>k. k < length (pq q) - 1 \<Longrightarrow> k \<noteq> i \<Longrightarrow> pq (move_last (Some a) i q) ! k = pq q ! k"
proof -
  note at = ipq_elems_split[OF wf a]
  obtain ys l where ys: "pq q = ys @ [l]"
    using wf by (metis append_butlast_last_id ipq_wf_def)
  have i: "i < length ys" using at(1) \<open>i \<noteq> ipq_size q\<close> by (simp add: ys ipq_size_def)
  then have yi: "ys ! i = Some a" using at(2) by (simp add: ys nth_append)
  have ml: "pq (move_last (Some a) i q) = ys[i := l]"
    "indices (move_last (Some a) i q) = AList.delete (Some a) (AList.update l i (indices q))"
    using i by (simp_all add: move_last_def ys list_update_append butlast_append)
  have d: "distinct (ys @ [l])" using ipq_wf_distinct[OF wf] by (simp add: ys)
  have la: "l \<noteq> Some a" using d i yi nth_mem by fastforce
  have "set (ys[i := l]) = insert l (set ys - {Some a})"
    using d i yi by (metis distinct.simps(2) distinct1_rotate rotate1.simps(2) set_update_distinct)
  with la show "ipq_elems (move_last (Some a) i q) = ipq_elems q - {a}"
    by (auto simp: ipq_elems_def ml ys)
  have "map_of (indices (move_last (Some a) i q)) x = Some k \<longleftrightarrow> k < length ys \<and> ys[i := l] ! k = x" for x k
  proof -
    have "map_of (indices q) x = Some k \<longleftrightarrow> k < Suc (length ys) \<and> (ys @ [l]) ! k = x"
      using wf by (simp add: ipq_wf_def ys)
    moreover have "ys ! k = Some a \<longleftrightarrow> k = i" if "k < length ys"
      using d i yi that nth_eq_iff_index_eq by fastforce
    moreover have "ys ! k \<noteq> l" if "k < length ys" using d that nth_mem by fastforce
    ultimately show ?thesis
      using la i by (auto simp: ml nth_append less_Suc_eq nth_list_update split: if_splits)
  qed
  moreover have "ys[i := l] ! 0 = None"
    using wf i at(3) by (auto simp: ipq_wf_def ys nth_append split: if_splits)
  ultimately show "ipq_wf (move_last (Some a) i q)" using i by (auto simp: ipq_wf_def ml)
  show "length (pq (move_last (Some a) i q)) = length (pq q) - 1" "i < length (pq q) - 1"
    and "\<And>k. k < length (pq q) - 1 \<Longrightarrow> k \<noteq> i \<Longrightarrow> pq (move_last (Some a) i q) ! k = pq q ! k"
    using i by (simp_all add: ml ys nth_append)
qed


lemma push_frame:
  assumes wf: "ipq_wf q" and new: "a \<notin> ipq_elems q"
  defines "q' \<equiv> \<lparr>pq = pq q @ [Some a], indices = AList.update (Some a) (length (pq q)) (indices q)\<rparr>"
  shows "ipq_wf q'" and "ipq_elems q' = insert a (ipq_elems q)"
proof -
  have n: "Some a \<notin> set (pq q)" using new by (simp add: ipq_elems_def)
  show "ipq_elems q' = insert a (ipq_elems q)" by (auto simp: ipq_elems_def q'_def)
  have "map_of (indices q') x = Some k \<longleftrightarrow> k < Suc (length (pq q)) \<and> (pq q @ [Some a]) ! k = x" for x k
  proof -
    have "map_of (indices q) x = Some k \<longleftrightarrow> k < length (pq q) \<and> pq q ! k = x"
      using wf by (simp add: ipq_wf_def)
    moreover have "k < length (pq q) \<Longrightarrow> pq q ! k \<noteq> Some a" using n by (metis nth_mem)
    ultimately show ?thesis
      by (auto simp: q'_def nth_append less_Suc_eq split: if_splits)
  qed
  moreover have "pq q \<noteq> []" "pq q ! 0 = None" using wf by (auto simp: ipq_wf_def)
  ultimately show "ipq_wf q'" by (simp add: ipq_wf_def q'_def nth_append)
qed

section \<open>The heap order\<close>

text \<open>The template parameter \<^verbatim>\<open>Comparator\<close>: a strict weak order.\<close>

locale comparator =
  fixes lt :: "'a \<Rightarrow> 'a \<Rightarrow> bool"
  assumes lt_asym: "lt a b \<Longrightarrow> \<not> lt b a"
    and lt_negtrans: "\<not> lt a b \<Longrightarrow> \<not> lt b c \<Longrightarrow> \<not> lt a c"

definition heap_ordered :: "('a \<Rightarrow> 'a \<Rightarrow> bool) \<Rightarrow> 'a ipq \<Rightarrow> bool" where
  "heap_ordered lt q \<longleftrightarrow> (\<forall>i \<ge> 2. \<not> higher lt q i (i div 2))"

definition transposed :: "nat \<Rightarrow> nat \<Rightarrow> nat \<Rightarrow> nat" where
  "transposed i j k = (if k = i then j else if k = j then i else k)"

lemma higher_swap:
  assumes "0 < i" "i < length (pq q)" "0 < j" "j < length (pq q)"
  shows "higher lt (swap_indices q i j) a b = higher lt q (transposed i j a) (transposed i j b)"
proof -
  have "pq (swap_indices q i j) ! k = pq q ! transposed i j k" for k
    using assms by (auto simp: swap_indices_def Let_def transposed_def nth_list_update nth_list_update_neq)
  moreover have "(0 < transposed i j k \<and> transposed i j k < length (pq q)) = (0 < k \<and> k < length (pq q))" for k
    using assms by (simp add: transposed_def)
  moreover have "higher lt q i j = ((0 < i \<and> i < length (pq q)) \<and> (0 < j \<and> j < length (pq q)) \<and>
      (case (pq q ! i, pq q ! j) of (Some a, Some b) \<Rightarrow> lt a b | _ \<Rightarrow> False))" for q :: "'a ipq" and i j
    by (auto simp: higher_def)
  ultimately show ?thesis by (simp only: length_swap_indices)
qed

lemma higher_range: "higher lt q i j \<Longrightarrow> 0 < i \<and> i < length (pq q) \<and> 0 < j \<and> j < length (pq q)"
  by (auto simp: higher_def split: if_splits)

context comparator
begin

lemma higher_asym: "higher lt q i j \<Longrightarrow> \<not> higher lt q j i"
  by (auto simp: higher_def lt_asym split: if_splits option.splits)

lemma higher_negtrans:
  assumes "ipq_wf q" "0 < j" "j < length (pq q)" "\<not> higher lt q i j" "\<not> higher lt q j k"
  shows "\<not> higher lt q i k"
proof
  assume h: "higher lt q i k"
  note r = higher_range[OF h]
  obtain a b c where "pq q ! i = Some a" "pq q ! j = Some b" "pq q ! k = Some c"
    using r assms ipq_wf_Some[of q] by metis
  with h r assms show False using lt_negtrans[of a b c] by (simp add: higher_def)
qed

text \<open>One upward swap at a place \<open>idx\<close> whose edges may be out of order, but whose children are
  in order with its parent: afterwards only the edge above the parent may be out of order.\<close>

lemma swap_up_edges:
  assumes wf: "ipq_wf q" and swap: "idx > 1" "higher lt q idx (idx div 2)"
    and edge: "\<And>i. 2 \<le> i \<Longrightarrow> i \<noteq> idx \<Longrightarrow> i div 2 \<noteq> idx \<Longrightarrow> \<not> higher lt q i (i div 2)"
    and child: "\<And>i. i div 2 = idx \<Longrightarrow> 2 \<le> idx \<Longrightarrow> \<not> higher lt q i (idx div 2)"
  defines "p \<equiv> idx div 2" and "q' \<equiv> swap_indices q idx (idx div 2)"
  shows "\<And>i. 2 \<le> i \<Longrightarrow> i \<noteq> p \<Longrightarrow> \<not> higher lt q' i (i div 2)"
    and "\<And>i. i div 2 = p \<Longrightarrow> 2 \<le> p \<Longrightarrow> \<not> higher lt q' i (p div 2)"
proof -
  have r: "0 < idx" "idx < length (pq q)" "0 < p" "p < length (pq q)" "p \<noteq> idx" "2 \<le> idx"
    using swap higher_range unfolding p_def by fastforce+
  note hs = higher_swap[OF r(1-4)[unfolded p_def]]
  have down: "\<not> higher lt q p idx" using swap higher_asym unfolding p_def by blast
  have sib: "\<not> higher lt q i k" if "i div 2 = p" "i \<noteq> idx" "\<not> higher lt q p k" for i k
    using higher_negtrans[OF wf r(3,4), of i k] edge[of i] that r by fastforce
  show "\<not> higher lt q' i (i div 2)" if "2 \<le> i" "i \<noteq> p" for i
    using down edge[of i] child[of i] sib[of i idx] that r
    unfolding q'_def hs by (auto simp: transposed_def p_def)
  show "\<not> higher lt q' i (p div 2)" if "i div 2 = p" "2 \<le> p" for i
  proof -
    have up: "\<not> higher lt q p (p div 2)" using edge[of p] that r p_def by simp
    have "p div 2 \<noteq> idx" "p div 2 \<noteq> p" "i \<noteq> p" using r that p_def by auto
    then show ?thesis
      using up sib[of i "p div 2"] that r unfolding q'_def hs by (simp add: transposed_def p_def)
  qed
qed

text \<open>Sifting up repairs the single edge above \<open>idx\<close>, sifting down the edges below it.\<close>

lemma sift_up_heap:
  assumes "ipq_wf q"
    and "\<And>i. 2 \<le> i \<Longrightarrow> i \<noteq> idx \<Longrightarrow> \<not> higher lt q i (i div 2)"
    and "\<And>i. i div 2 = idx \<Longrightarrow> 2 \<le> idx \<Longrightarrow> \<not> higher lt q i (idx div 2)"
  shows "heap_ordered lt (sift_up lt q idx)"
  using assms
proof (induction idx arbitrary: q rule: less_induct)
  case (less idx)
  show ?case
  proof (cases "idx > 1 \<and> higher lt q idx (idx div 2)")
    case True
    then have up: "sift_up lt q idx = sift_up lt (swap_indices q idx (idx div 2)) (idx div 2)"
      by (subst sift_up.simps) (simp add: Let_def)
    note edges = swap_up_edges[OF less.prems(1) conjunct1[OF True] conjunct2[OF True]
        less.prems(2) less.prems(3)]
    have "idx div 2 < idx" using True by simp
    then show ?thesis unfolding up by (rule less.IH[OF _ ipq_wf_swap[OF less.prems(1)] edges])
  next
    case False
    then have "sift_up lt q idx = q" by (subst sift_up.simps) (auto simp: Let_def)
    moreover have "\<not> higher lt q idx (idx div 2)" if "2 \<le> idx" using False that by auto
    ultimately show ?thesis using less.prems(2) by (metis heap_ordered_def)
  qed
qed

lemma higher_child_cases:
  assumes "ipq_wf q" "0 < idx" "2 * idx \<le> ipq_size q"
  defines "c \<equiv> higher_child lt q idx"
  shows "c div 2 = idx" and "c < length (pq q)" and "2 \<le> c"
    and "\<And>i. i div 2 = idx \<Longrightarrow> \<not> higher lt q i c"
proof -
  show c: "c div 2 = idx" "c < length (pq q)" "2 \<le> c"
    using assms by (auto simp: higher_child_def Let_def ipq_size_def)
  have refl: "\<not> higher lt q k k" for k using higher_asym by blast
  fix i assume "i div 2 = idx"
  then have i: "i = 2 * idx \<or> i = 2 * idx + 1" by linarith
  have out: "\<not> higher lt q (2 * idx + 1) (2 * idx)" if "\<not> 2 * idx < ipq_size q"
    using that assms(1) by (auto simp: higher_def ipq_size_def ipq_wf_def)
  show "\<not> higher lt q i c"
  proof (cases "2 * idx < ipq_size q \<and> higher lt q (2 * idx + 1) (2 * idx)")
    case True
    then have "c = 2 * idx + 1" by (simp add: c_def higher_child_def)
    with i True higher_asym refl show ?thesis by auto
  next
    case False
    then have "c = 2 * idx" by (auto simp: c_def higher_child_def Let_def)
    with i False out refl show ?thesis by auto
  qed
qed

lemma sift_down_heap:
  assumes "ipq_wf q" and "0 < idx"
    and "\<And>i. 2 \<le> i \<Longrightarrow> i div 2 \<noteq> idx \<Longrightarrow> \<not> higher lt q i (i div 2)"
    and "\<And>i. i div 2 = idx \<Longrightarrow> 2 \<le> idx \<Longrightarrow> \<not> higher lt q i (idx div 2)"
  shows "heap_ordered lt (sift_down lt q idx)"
  using assms
proof (induction "length (pq q) - idx" arbitrary: q idx rule: less_induct)
  case less
  let ?c = "higher_child lt q idx"
  show ?case
  proof (cases "2 * idx \<le> ipq_size q")
    case in_range: True
    note c = higher_child_cases[OF less.prems(1,2) in_range]
    show ?thesis
    proof (cases "higher lt q ?c idx")
      case True
      let ?q = "swap_indices q ?c idx"
      have r: "0 < ?c" "idx < length (pq q)" "?c \<noteq> idx" "idx < ?c"
        using c(1,3) True higher_range[OF True] less.prems(2) by auto
      have up: "\<not> higher lt q idx ?c" using True higher_asym by blast
      have edges: "\<not> higher lt ?q i (i div 2)" if "2 \<le> i" "i div 2 \<noteq> ?c" for i
        using up c(1,4) less.prems(2) less.prems(3)[of i] less.prems(4)[of ?c] that r
        by (auto simp: higher_swap c(2) transposed_def)
      have grand: "\<not> higher lt ?q i (?c div 2)" if "i div 2 = ?c" for i
        using less.prems(3)[of i] that r c(1,3)
        by (auto simp: higher_swap c(2) transposed_def less.prems(2))
      have m: "length (pq ?q) - ?c < length (pq q) - idx" using r c(2) by simp
      have "sift_down lt q idx = sift_down lt ?q ?c"
        by (subst sift_down.simps) (use in_range True in \<open>simp add: Let_def\<close>)
      with less.hyps[OF m ipq_wf_swap[OF less.prems(1)] r(1) edges grand] show ?thesis by simp
    next
      case False
      have "\<not> higher lt q i idx" if "i div 2 = idx" for i
        using higher_negtrans[OF less.prems(1) _ c(2) c(4)[OF that] False] c(3) by simp
      moreover have "sift_down lt q idx = q"
        by (subst sift_down.simps) (use False in \<open>simp add: Let_def\<close>)
      ultimately show ?thesis using less.prems(3) by (metis heap_ordered_def)
    qed
  next
    case False
    then have "sift_down lt q idx = q" by (subst sift_down.simps) simp
    moreover have "\<not> higher lt q i idx" if "i div 2 = idx" for i
      using False that higher_range[of lt q i idx] by (auto simp: ipq_size_def)
    ultimately show ?thesis using less.prems(3) by (metis heap_ordered_def)
  qed
qed


lemma move_last_hole:
  assumes "ipq_wf q" "heap_ordered lt q" "map_of (indices q) (Some a) = Some idx" "idx \<noteq> ipq_size q"
  defines "q' \<equiv> move_last (Some a) idx q"
  shows "\<And>i. 2 \<le> i \<Longrightarrow> i \<noteq> idx \<Longrightarrow> i div 2 \<noteq> idx \<Longrightarrow> \<not> higher lt q' i (i div 2)"
    and "\<And>i. i div 2 = idx \<Longrightarrow> 2 \<le> idx \<Longrightarrow> \<not> higher lt q' i (idx div 2)"
proof -
  note ml = move_last_frame[OF assms(1,3,4)]
  note at = ipq_elems_split[OF assms(1,3)]
  have same: "higher lt q i k" if "higher lt q' i k" "i \<noteq> idx" "k \<noteq> idx" for i k
    using that ml(3) ml(5)[of i] ml(5)[of k] unfolding q'_def higher_def by (auto split: if_splits)
  show "\<not> higher lt q' i (i div 2)" if "2 \<le> i" "i \<noteq> idx" "i div 2 \<noteq> idx" for i
    using same[of i "i div 2"] that assms(2) by (auto simp: heap_ordered_def)
  show "\<not> higher lt q' i (idx div 2)" if i: "i div 2 = idx" "2 \<le> idx" for i
  proof -
    have "2 \<le> i" "i \<noteq> idx" "idx div 2 \<noteq> idx" using i by auto
    moreover have "\<not> higher lt q i idx" "\<not> higher lt q idx (idx div 2)"
      using assms(2) i \<open>2 \<le> i\<close> unfolding heap_ordered_def by blast+
    ultimately show ?thesis
      using same[of i "idx div 2"] higher_negtrans[OF assms(1) at(3,1)] by blast
  qed
qed

lemma sift_down_heap_id: "heap_ordered lt q \<Longrightarrow> sift_down lt q idx = q"
proof (subst sift_down.simps, clarsimp simp: Let_def)
  assume h: "heap_ordered lt q" "higher lt q (higher_child lt q idx) idx"
  have "higher_child lt q idx div 2 = idx" by (auto simp: higher_child_def Let_def)
  moreover have "2 \<le> higher_child lt q idx"
    using calculation higher_range[OF h(2)] by (cases "higher_child lt q idx") (auto simp: higher_child_def Let_def)
  ultimately show "sift_down lt (swap_indices q (higher_child lt q idx) idx) (higher_child lt q idx) = q"
    using h by (metis heap_ordered_def)
qed

lemma sift_both_heap:
  assumes "ipq_wf q" "0 < idx"
    and "\<And>i. 2 \<le> i \<Longrightarrow> i \<noteq> idx \<Longrightarrow> i div 2 \<noteq> idx \<Longrightarrow> \<not> higher lt q i (i div 2)"
    and "\<And>i. i div 2 = idx \<Longrightarrow> 2 \<le> idx \<Longrightarrow> \<not> higher lt q i (idx div 2)"
  shows "heap_ordered lt (sift_down lt (sift_up lt q idx) idx)"
proof (cases "idx > 1 \<and> higher lt q idx (idx div 2)")
  case True
  then have up: "sift_up lt q idx = sift_up lt (swap_indices q idx (idx div 2)) (idx div 2)"
    by (subst sift_up.simps) (simp add: Let_def)
  note edges = swap_up_edges[OF assms(1) conjunct1[OF True] conjunct2[OF True] assms(3,4)]
  have "heap_ordered lt (sift_up lt q idx)"
    unfolding up by (rule sift_up_heap[OF ipq_wf_swap[OF assms(1)] edges])
  then show ?thesis by (simp add: sift_down_heap_id)
next
  case False
  then have "sift_up lt q idx = q" by (subst sift_up.simps) (auto simp: Let_def)
  moreover have "\<not> higher lt q i (i div 2)" if "2 \<le> i" "i div 2 \<noteq> idx" for i
    using False assms(3)[of i] that by fastforce
  ultimately show ?thesis using sift_down_heap[OF assms(1,2) _ assms(4)] by simp
qed


end

definition ipq_inv :: "('a \<Rightarrow> 'a \<Rightarrow> bool) \<Rightarrow> 'a ipq \<Rightarrow> bool" where
  "ipq_inv lt q \<longleftrightarrow> ipq_wf q \<and> heap_ordered lt q"

lemma ipq_remove_elim:
  assumes wf: "ipq_wf q" and a: "a \<in> ipq_elems q"
  obtains idx where "map_of (indices q) (Some a) = Some idx" "0 < idx"
    "ipq_remove lt (Some a) q =
       (if idx = ipq_size q then drop_last (Some a) q
        else sift_down lt (sift_up lt (move_last (Some a) idx q) idx) idx, True)"
proof -
  have "ipq_contains q (Some a)" using ipq_contains_iff[OF wf] a by blast
  moreover then obtain idx where i: "map_of (indices q) (Some a) = Some idx"
    by (auto simp: ipq_contains_def)
  moreover note ipq_elems_split[OF wf i]
  ultimately show ?thesis by (intro that[of idx]) (auto simp: ipq_remove_def Let_def)
qed

lemma ipq_remove_absent:
  "ipq_wf q \<Longrightarrow> a \<notin> ipq_elems q \<Longrightarrow> ipq_remove lt (Some a) q = (q, False)"
  by (simp add: ipq_remove_def ipq_contains_iff)

lemma higher_drop_last:
  "higher lt (drop_last a q) i j \<Longrightarrow> higher lt q i j"
  by (auto simp: higher_def drop_last_def nth_butlast split: if_splits)

lemma ipq_top_index:
  assumes "ipq_wf q" "ipq_top q = Some a"
  shows "map_of (indices q) (Some a) = Some 1"
  using assms by (auto simp: ipq_top_def ipq_wf_def ipq_empty_def ipq_size_def split: if_splits)

context comparator
begin

lemma inv_init: "ipq_inv lt ipq_init"
  using ipq_wf_init by (auto simp: ipq_inv_def heap_ordered_def higher_def ipq_init_def)

lemma inv_push: "ipq_inv lt q \<Longrightarrow> ipq_inv lt (ipq_push lt a q)"
proof (cases "a = None \<or> ipq_contains q a")
  case False
  assume inv: "ipq_inv lt q"
  then have wf: "ipq_wf q" and heap: "heap_ordered lt q" by (auto simp: ipq_inv_def)
  from False obtain x where x: "a = Some x" "x \<notin> ipq_elems q" by (cases a) (auto simp: ipq_contains_iff[OF wf])
  let ?q = "\<lparr>pq = pq q @ [Some x], indices = AList.update (Some x) (length (pq q)) (indices q)\<rparr>"
  have push: "ipq_push lt a q = sift_up lt ?q (length (pq q))"
    using False x by (simp add: ipq_push_def ipq_contains_def Let_def)
  have old: "higher lt q i j" if "higher lt ?q i j" "i \<noteq> length (pq q)" "j \<noteq> length (pq q)" for i j
    using that by (auto simp: higher_def nth_append split: if_splits)
  have "heap_ordered lt (sift_up lt ?q (length (pq q)))"
  proof (rule sift_up_heap[OF push_frame(1)[OF wf x(2)]])
    fix i :: nat
    show "\<not> higher lt ?q i (i div 2)" if "2 \<le> i" "i \<noteq> length (pq q)"
    proof
      assume h: "higher lt ?q i (i div 2)"
      then have "i < Suc (length (pq q))" using higher_range by fastforce
      then have "i div 2 \<noteq> length (pq q)" using that by linarith
      with old[OF h that(2)] heap that show False by (simp add: heap_ordered_def)
    qed
    show "\<not> higher lt ?q i (length (pq q) div 2)" if "i div 2 = length (pq q)" "2 \<le> length (pq q)"
      using that higher_range[of lt ?q i] by fastforce
  qed
  then show ?thesis using push_frame(1)[OF wf x(2)] push by (simp add: ipq_inv_def sift_wf)
qed (auto simp: ipq_push_def)

lemma inv_drop_last:
  "ipq_inv lt q \<Longrightarrow> map_of (indices q) (Some a) = Some (ipq_size q) \<Longrightarrow> ipq_inv lt (drop_last (Some a) q)"
  unfolding ipq_inv_def heap_ordered_def using drop_last_frame(1) higher_drop_last by metis

lemma inv_remove: "ipq_inv lt q \<Longrightarrow> ipq_inv lt (fst (ipq_remove lt a q))"
proof (cases "a = None \<or> \<not> ipq_contains q a")
  case False
  assume inv: "ipq_inv lt q"
  then have wf: "ipq_wf q" and heap: "heap_ordered lt q" by (auto simp: ipq_inv_def)
  from False obtain x where x: "a = Some x" "x \<in> ipq_elems q" by (cases a) (auto simp: ipq_contains_iff[OF wf])
  from ipq_remove_elim[OF wf x(2), of lt] obtain idx where
    i: "map_of (indices q) (Some x) = Some idx" "0 < idx"
    and rm: "ipq_remove lt (Some x) q = (if idx = ipq_size q then drop_last (Some x) q
        else sift_down lt (sift_up lt (move_last (Some x) idx q) idx) idx, True)" .
  show ?thesis
  proof (cases "idx = ipq_size q")
    case True
    then show ?thesis using inv_drop_last[OF inv] i rm x by simp
  next
    case False
    have "heap_ordered lt (sift_down lt (sift_up lt (move_last (Some x) idx q) idx) idx)"
      by (rule sift_both_heap[OF move_last_frame(1)[OF wf i(1) False] i(2)
            move_last_hole[OF wf heap i(1) False]])
    then show ?thesis
      using move_last_frame(1)[OF wf i(1) False] rm x False by (simp add: ipq_inv_def sift_wf)
  qed
qed (auto simp: ipq_remove_def)

lemma inv_pop: "ipq_inv lt q \<Longrightarrow> ipq_inv lt (ipq_pop lt q)"
proof (cases "ipq_top q")
  case (Some a)
  assume inv: "ipq_inv lt q"
  then have wf: "ipq_wf q" and heap: "heap_ordered lt q" by (auto simp: ipq_inv_def)
  note i = ipq_top_index[OF wf Some]
  show ?thesis
  proof (cases "1 = ipq_size q")
    case True
    then show ?thesis using inv_drop_last[OF inv] i Some by (simp add: ipq_pop_def)
  next
    case False
    note hole = move_last_hole[OF wf heap i] and mf = move_last_frame(1)[OF wf i]
    have "heap_ordered lt (sift_down lt (move_last (Some a) 1 q) 1)"
      by (rule sift_down_heap[OF mf]) (use False hole in \<open>auto simp: not_less_eq_eq\<close>)
    then show ?thesis using mf False Some by (simp add: ipq_inv_def ipq_pop_def sift_wf)
  qed
qed (auto simp: ipq_pop_def)

lemma root_is_min:
  "ipq_inv lt q \<Longrightarrow> 0 < i \<Longrightarrow> i < length (pq q) \<Longrightarrow> \<not> higher lt q i 1"
proof (induction i rule: less_induct)
  case (less i)
  show ?case
  proof (cases "i = 1")
    case True
    then show ?thesis using higher_asym by blast
  next
    case False
    then have p: "i div 2 < i" "0 < i div 2" "i div 2 < length (pq q)" "2 \<le> i" using less.prems by auto
    have "\<not> higher lt q i (i div 2)" using less.prems p by (auto simp: ipq_inv_def heap_ordered_def)
    with less.IH[OF p(1)] less.prems p show ?thesis
      using higher_negtrans[of q "i div 2" i 1] by (auto simp: ipq_inv_def)
  qed
qed

end

section \<open>The contract of the queue\<close>

locale min_queue =
  fixes inv :: "'q \<Rightarrow> bool" and elems :: "'q \<Rightarrow> 'a set" and before :: "'a \<Rightarrow> 'a \<Rightarrow> bool"
    and new :: 'q and push :: "'a option \<Rightarrow> 'q \<Rightarrow> 'q" and remove :: "'a option \<Rightarrow> 'q \<Rightarrow> 'q \<times> bool"
    and pop :: "'q \<Rightarrow> 'q" and top_of :: "'q \<Rightarrow> 'a option"
  assumes new: "inv new" "elems new = {}"
    and push_inv: "inv q \<Longrightarrow> inv (push x q)"
    and push_elems: "inv q \<Longrightarrow> elems (push (Some a) q) = insert a (elems q)"
    and remove_inv: "inv q \<Longrightarrow> inv (fst (remove x q))"
    and remove_elems: "inv q \<Longrightarrow> elems (fst (remove (Some a) q)) = elems q - {a}"
    and remove_found: "inv q \<Longrightarrow> snd (remove (Some a) q) = (a \<in> elems q)"
    and pop_inv: "inv q \<Longrightarrow> inv (pop q)"
    and pop_elems: "inv q \<Longrightarrow> elems (pop q) = elems q - set_option (top_of q)"
    and top_none: "inv q \<Longrightarrow> top_of q = None \<longleftrightarrow> elems q = {}"
    and top_some: "inv q \<Longrightarrow> top_of q = Some a \<Longrightarrow> a \<in> elems q \<and> (\<forall>b \<in> elems q. \<not> before b a)"
begin

lemma pop_is_remove_top:
  "inv q \<Longrightarrow> top_of q = Some a \<Longrightarrow> elems (pop q) = elems (fst (remove (top_of q) q))"
  by (simp add: pop_elems remove_elems)

lemma push_then_remove: "inv q \<Longrightarrow> a \<notin> elems q \<Longrightarrow> elems (fst (remove (Some a) (push (Some a) q))) = elems q"
  by (simp add: push_elems push_inv remove_elems)

lemma top_obtains:
  assumes "inv q" "elems q \<noteq> {}"
  obtains a where "top_of q = Some a" "a \<in> elems q" "\<forall>b \<in> elems q. \<not> before b a"
  using assms top_none top_some by (cases "top_of q") auto

lemma shrinking_never_sooner:
  assumes "inv q" "inv q'" "elems q' \<subseteq> elems q" "top_of q = Some a" "top_of q' = Some b"
  shows "\<not> before b a"
  using assms top_some[of q a] top_some[of q' b] by auto

end

lemma ipq_push_elems:
  assumes wf: "ipq_wf q"
  shows "ipq_elems (ipq_push lt (Some a) q) = insert a (ipq_elems q)"
proof (cases "a \<in> ipq_elems q")
  case True
  then show ?thesis by (simp add: ipq_push_def ipq_contains_iff[OF wf] insert_absorb)
next
  case False
  then have "map_of (indices q) (Some a) = None"
    using ipq_contains_iff[OF wf, of a] by (simp add: ipq_contains_def)
  then show ?thesis using push_frame(2)[OF wf False] by (simp add: ipq_push_def ipq_contains_def Let_def)
qed

lemma ipq_remove_elems:
  assumes wf: "ipq_wf q"
  shows "ipq_elems (fst (ipq_remove lt (Some a) q)) = ipq_elems q - {a} \<and>
    snd (ipq_remove lt (Some a) q) = (a \<in> ipq_elems q)"
proof (cases "a \<in> ipq_elems q")
  case True
  from ipq_remove_elim[OF wf True, of lt] obtain idx where
    i: "map_of (indices q) (Some a) = Some idx"
    and rm: "ipq_remove lt (Some a) q = (if idx = ipq_size q then drop_last (Some a) q
        else sift_down lt (sift_up lt (move_last (Some a) idx q) idx) idx, True)" .
  show ?thesis
    using True rm i drop_last_frame(2)[OF wf, of a] move_last_frame(2)[OF wf i] by auto
next
  case False
  then show ?thesis by (simp add: ipq_remove_absent[OF wf])
qed

lemma ipq_pop_elems:
  assumes wf: "ipq_wf q"
  shows "ipq_elems (ipq_pop lt q) = ipq_elems q - set_option (ipq_top q)"
proof (cases "ipq_top q")
  case (Some a)
  note i = ipq_top_index[OF wf Some]
  show ?thesis
    using Some i drop_last_frame(2)[OF wf, of a] move_last_frame(2)[OF wf i]
    by (auto simp: ipq_pop_def Let_def)
qed (simp add: ipq_pop_def)

lemma ipq_top_none: "ipq_wf q \<Longrightarrow> ipq_top q = None \<longleftrightarrow> ipq_elems q = {}"
  using ipq_empty_iff[of q] ipq_wf_Some[of q 1]
  by (auto simp: ipq_top_def ipq_empty_def ipq_size_def)

context comparator
begin

lemma ipq_top_some:
  assumes inv: "ipq_inv lt q" and a: "ipq_top q = Some a"
  shows "a \<in> ipq_elems q \<and> (\<forall>b \<in> ipq_elems q. \<not> lt b a)"
proof -
  have wf: "ipq_wf q" using inv by (simp add: ipq_inv_def)
  note at = ipq_elems_split[OF wf ipq_top_index[OF wf a]]
  have "\<not> lt b a" if "b \<in> ipq_elems q" for b
  proof -
    have "Some b \<in> set (pq q)" using that by (simp add: ipq_elems_def)
    then obtain j where j: "j < length (pq q)" "pq q ! j = Some b" by (metis in_set_conv_nth)
    then have "0 < j" using wf by (cases j) (auto simp: ipq_wf_def)
    with root_is_min[OF inv this j(1)] j at show ?thesis by (simp add: higher_def)
  qed
  with at show ?thesis by simp
qed

end

text \<open>Every comparator that is a strict weak order gives a min queue.\<close>

sublocale comparator < heap: min_queue "ipq_inv lt" ipq_elems lt ipq_init "ipq_push lt" "ipq_remove lt"
    "ipq_pop lt" ipq_top
  using inv_init inv_push inv_remove inv_pop ipq_top_some
  by unfold_locales
     (simp_all add: ipq_inv_def ipq_push_elems ipq_remove_elems ipq_pop_elems ipq_top_none)

end
