(* ===== verification/AlarmMonitor.thy ===== *)
theory AlarmMonitor
  imports AlarmQueue
begin

text \<open>
  \<^verbatim>\<open>bin/src/anomaly/AlarmMonitor.h\<close> and \<^verbatim>\<open>.cpp\<close>: the monitor keeps every pending alarm in the heap
  and tells the companion service about one time only, near the soonest. Every public operation
  holds \<^verbatim>\<open>mLock\<close> for its whole body, so a concurrent run is a sequence of \<open>monitor_step\<close>s.

  The two callbacks \<^verbatim>\<open>mUpdateAlarm\<close> and \<^verbatim>\<open>mCancelAlarm\<close> are binder calls; the model records each
  call with its arguments in \<open>calls\<close>, oldest first. Times are \<^verbatim>\<open>uint32_t\<close> seconds.
\<close>

section \<open>Definitions\<close>

text \<open>An alarm is an object compared by address, \<open>alarmId\<close>.\<close>

record internal_alarm =
  alarmId :: nat
  timestampSec :: u32

definition SmallerTimestamp :: "internal_alarm \<Rightarrow> internal_alarm \<Rightarrow> bool" where
  "SmallerTimestamp a b = (timestampSec a < timestampSec b)"

datatype companion_call =
    UpdateAlarm "nat option" int
  | CancelAlarm "nat option"

record alarm_monitor =
  mRegisteredAlarmTimeSec :: u32
  mPq :: "internal_alarm ipq"
  mStatsCompanionService :: "nat option"
  mMinUpdateTimeSec :: u32
  calls :: "companion_call list"

definition newAlarmMonitor :: "u32 \<Rightarrow> alarm_monitor" where
  "newAlarmMonitor minDiff =
     \<lparr>mRegisteredAlarmTimeSec = 0, mPq = ipq_init, mStatsCompanionService = None,
      mMinUpdateTimeSec = minDiff, calls = []\<rparr>"

definition secToMs :: "u32 \<Rightarrow> int" where
  "secToMs t = uint t * 1000"

definition updateRegisteredAlarmTime_l :: "u32 \<Rightarrow> alarm_monitor \<Rightarrow> alarm_monitor" where
  "updateRegisteredAlarmTime_l t m =
     m\<lparr>mRegisteredAlarmTimeSec := t,
       calls := calls m @ [UpdateAlarm (mStatsCompanionService m) (secToMs t)]\<rparr>"

definition cancelRegisteredAlarmTime_l :: "alarm_monitor \<Rightarrow> alarm_monitor" where
  "cancelRegisteredAlarmTime_l m =
     m\<lparr>mRegisteredAlarmTimeSec := 0,
       calls := calls m @ [CancelAlarm (mStatsCompanionService m)]\<rparr>"

definition setStatsCompanionService :: "nat option \<Rightarrow> alarm_monitor \<Rightarrow> alarm_monitor" where
  "setStatsCompanionService s m =
     (let m' = m\<lparr>mStatsCompanionService := s\<rparr>
      in if s = None then m'
         else case ipq_top (mPq m') of
                None \<Rightarrow> m'
              | Some t \<Rightarrow> updateRegisteredAlarmTime_l (timestampSec t) m')"

definition monitor_add :: "internal_alarm option \<Rightarrow> alarm_monitor \<Rightarrow> alarm_monitor" where
  "monitor_add alarm m =
     (case alarm of
        None \<Rightarrow> m
      | Some a \<Rightarrow>
          if timestampSec a < 1 then m
          else let m' = m\<lparr>mPq := ipq_push SmallerTimestamp alarm (mPq m)\<rparr>
               in if mRegisteredAlarmTimeSec m' < 1 \<or>
                     timestampSec a + mMinUpdateTimeSec m' < mRegisteredAlarmTimeSec m'
                  then updateRegisteredAlarmTime_l (timestampSec a) m'
                  else m')"

definition monitor_remove :: "internal_alarm option \<Rightarrow> alarm_monitor \<Rightarrow> alarm_monitor" where
  "monitor_remove alarm m =
     (case alarm of
        None \<Rightarrow> m
      | Some a \<Rightarrow>
          let (q, wasPresent) = ipq_remove SmallerTimestamp alarm (mPq m); m' = m\<lparr>mPq := q\<rparr>
          in if \<not> wasPresent then m'
             else if ipq_empty q then cancelRegisteredAlarmTime_l m'
             else (case ipq_top q of
                     None \<Rightarrow> m'
                   | Some t \<Rightarrow>
                       if timestampSec t > mRegisteredAlarmTimeSec m' + mMinUpdateTimeSec m'
                       then updateRegisteredAlarmTime_l (timestampSec t) m'
                       else m'))"

lemma length_ipq_pop: "ipq_top q = Some a \<Longrightarrow> length (pq (ipq_pop lt q)) < length (pq q)"
  by (auto simp: ipq_pop_def Let_def drop_last_def move_last_def sift_frames ipq_top_def ipq_empty_def
      ipq_size_def split: if_splits)

text \<open>The popping loop of \<^verbatim>\<open>popSoonerThan\<close>, returning the alarms popped and the queue left.\<close>

function popLoop :: "u32 \<Rightarrow> internal_alarm ipq \<Rightarrow> internal_alarm list \<Rightarrow> internal_alarm list \<times> internal_alarm ipq" where
  "popLoop t q oldAlarms =
     (case ipq_top q of
        None \<Rightarrow> (oldAlarms, q)
      | Some a \<Rightarrow> if timestampSec a \<le> t
                   then popLoop t (ipq_pop SmallerTimestamp q) (List.insert a oldAlarms)
                   else (oldAlarms, q))"
  by pat_completeness auto
termination by (relation "measure (\<lambda>(t, q, old). length (pq q))") (auto simp: length_ipq_pop)

declare popLoop.simps [simp del]

definition popSoonerThan :: "u32 \<Rightarrow> alarm_monitor \<Rightarrow> internal_alarm list \<times> alarm_monitor" where
  "popSoonerThan t m =
     (let (oldAlarms, q) = popLoop t (mPq m) []; m' = m\<lparr>mPq := q\<rparr>
      in (oldAlarms,
          if oldAlarms \<noteq> []
          then (if ipq_empty q then cancelRegisteredAlarmTime_l m'
                else (case ipq_top q of
                        None \<Rightarrow> m'
                      | Some a \<Rightarrow> updateRegisteredAlarmTime_l (timestampSec a) m'))
          else m'))"

text \<open>The operations under the lock, as steps.\<close>

inductive monitor_step :: "alarm_monitor \<Rightarrow> alarm_monitor \<Rightarrow> bool" where
  step_service: "monitor_step m (setStatsCompanionService s m)"
| step_add: "(case alarm of None \<Rightarrow> True
                | Some a \<Rightarrow> uint (timestampSec a) + uint (mMinUpdateTimeSec m) < 2 ^ 32) \<Longrightarrow>
     monitor_step m (monitor_add alarm m)"
| step_remove: "monitor_step m (monitor_remove alarm m)"
| step_pop: "monitor_step m (snd (popSoonerThan t m))"

inductive monitor_reachable :: "u32 \<Rightarrow> alarm_monitor \<Rightarrow> bool" for minDiff where
  reach_init: "monitor_reachable minDiff (newAlarmMonitor minDiff)"
| reach_step: "monitor_reachable minDiff m \<Longrightarrow> monitor_step m m' \<Longrightarrow> monitor_reachable minDiff m'"

section \<open>The queue of alarms\<close>

interpretation alarm_order: comparator SmallerTimestamp
  by unfold_locales (auto simp: SmallerTimestamp_def)

abbreviation alarms :: "alarm_monitor \<Rightarrow> internal_alarm set" where
  "alarms m \<equiv> ipq_elems (mPq m)"

abbreviation alarm_queue_ok :: "internal_alarm ipq \<Rightarrow> bool" where
  "alarm_queue_ok \<equiv> ipq_inv SmallerTimestamp"

lemma alarm_queue_empty: "alarm_queue_ok q \<Longrightarrow> ipq_empty q \<longleftrightarrow> ipq_elems q = {}"
  by (simp add: ipq_inv_def ipq_empty_iff)

lemma popLoop_spec:
  "alarm_queue_ok q \<Longrightarrow> popLoop t q old = (old', q') \<Longrightarrow>
     alarm_queue_ok q' \<and> set old' = set old \<union> {a \<in> ipq_elems q. timestampSec a \<le> t} \<and>
     ipq_elems q' = {a \<in> ipq_elems q. timestampSec a > t}"
proof (induction t q old rule: popLoop.induct)
  case (1 t q old)
  show ?case
  proof (cases "ipq_top q")
    case None
    with 1(2,3) alarm_order.heap.top_none[OF 1(2)] show ?thesis
      by (auto simp: popLoop.simps[of t q old])
  next
    case (Some a)
    note top = alarm_order.heap.top_some[OF 1(2) Some]
    show ?thesis
    proof (cases "timestampSec a \<le> t")
      case True
      with Some 1(3) have "popLoop t (ipq_pop SmallerTimestamp q) (List.insert a old) = (old', q')"
        by (simp add: popLoop.simps[of t q old])
      from 1(1)[OF Some True alarm_order.heap.pop_inv[OF 1(2)] this]
      show ?thesis using alarm_order.heap.pop_elems[OF 1(2)] Some top True by auto
    next
      case False
      with Some 1(3) have "old' = old" "q' = q" by (simp_all add: popLoop.simps[of t q old])
      moreover have "t < timestampSec b" if "b \<in> ipq_elems q" for b
        using top False that by (auto simp: SmallerTimestamp_def not_less not_le)
      ultimately show ?thesis using 1(2) by (auto dest: leD)
    qed
  qed
qed

section \<open>The invariant of the monitor\<close>

text \<open>The registered time is within the update slack of every state's soonest alarm; the last
  call to the companion service announced it.\<close>

definition near :: "u32 \<Rightarrow> u32 \<Rightarrow> u32 \<Rightarrow> bool" where
  "near d r s = (uint r \<le> uint s + uint d \<and> uint s \<le> uint r + uint d)"

definition announced :: "alarm_monitor \<Rightarrow> bool" where
  "announced m = (if calls m = [] then mRegisteredAlarmTimeSec m = 0
     else \<exists>s. last (calls m) = (if mRegisteredAlarmTimeSec m = 0 then CancelAlarm s
                               else UpdateAlarm s (secToMs (mRegisteredAlarmTimeSec m))))"

definition monitor_ok :: "alarm_monitor \<Rightarrow> bool" where
  "monitor_ok m \<longleftrightarrow> alarm_queue_ok (mPq m) \<and>
     (\<forall>a \<in> alarms m. 0 < timestampSec a \<and> uint (timestampSec a) + uint (mMinUpdateTimeSec m) < 2 ^ 32) \<and>
     (mRegisteredAlarmTimeSec m = 0 \<longleftrightarrow> alarms m = {}) \<and>
     uint (mRegisteredAlarmTimeSec m) + uint (mMinUpdateTimeSec m) < 2 ^ 32 \<and>
     (\<forall>a. ipq_top (mPq m) = Some a \<longrightarrow>
        near (mMinUpdateTimeSec m) (mRegisteredAlarmTimeSec m) (timestampSec a)) \<and>
     announced m"


lemma announced_frame [frame_simps, simp]:
  "announced (m\<lparr>mPq := q\<rparr>) = announced m" "announced (m\<lparr>mStatsCompanionService := s\<rparr>) = announced m"
  by (simp_all add: announced_def)

lemma mPq_monitor_ops [frame_simps]:
  "mPq (monitor_remove (Some a) m) = fst (ipq_remove SmallerTimestamp (Some a) (mPq m))"
  "timestampSec a \<noteq> 0 \<Longrightarrow> mPq (monitor_add (Some a) m) = ipq_push SmallerTimestamp (Some a) (mPq m)"
  by (auto simp: monitor_remove_def monitor_add_def updateRegisteredAlarmTime_l_def
      cancelRegisteredAlarmTime_l_def Let_def split: option.splits prod.splits)

lemma monitor_ok_new: "monitor_ok (newAlarmMonitor d)"
  using alarm_order.inv_init
  by (auto simp: monitor_ok_def newAlarmMonitor_def near_def uint_u32_less announced_def ipq_top_def ipq_empty_def
      ipq_size_def ipq_init_def ipq_elems_def)

text \<open>Re-registering at the soonest alarm, or cancelling when none is left, restores the
  invariant whatever was registered before.\<close>

lemma monitor_ok_update:
  assumes "alarm_queue_ok (mPq m)" "a \<in> alarms m"
    and "\<forall>a \<in> alarms m. 0 < timestampSec a \<and> uint (timestampSec a) + uint (mMinUpdateTimeSec m) < 2 ^ 32"
    and "\<forall>b \<in> alarms m. timestampSec a \<le> timestampSec b"
  shows "monitor_ok (updateRegisteredAlarmTime_l (timestampSec a) m)"
proof -
  have "timestampSec b = timestampSec a" if "ipq_top (mPq m) = Some b" for b
    using alarm_order.heap.top_some[OF assms(1) that] assms(2,4)
    by (simp add: SmallerTimestamp_def) (meson antisym not_le)
  then show ?thesis
    using assms by (auto simp: monitor_ok_def updateRegisteredAlarmTime_l_def announced_def near_def)
qed

lemma monitor_ok_cancel:
  assumes "alarm_queue_ok (mPq m)" "alarms m = {}"
  shows "monitor_ok (cancelRegisteredAlarmTime_l m)"
  using assms alarm_order.heap.top_none[OF assms(1)]
  by (auto simp: monitor_ok_def cancelRegisteredAlarmTime_l_def announced_def uint_u32_less)

lemma monitor_ok_top:
  assumes "monitor_ok m" "ipq_top (mPq m) = Some a" "b \<in> alarms m"
  shows "timestampSec a \<le> timestampSec b"
  using assms alarm_order.heap.top_some[of "mPq m" a]
  by (auto simp: monitor_ok_def SmallerTimestamp_def not_less)

lemma alarm_top_le: "alarm_queue_ok q \<Longrightarrow> ipq_top q = Some a \<Longrightarrow> b \<in> ipq_elems q \<Longrightarrow> timestampSec a \<le> timestampSec b"
  using alarm_order.heap.top_some[of q a] by (auto simp: SmallerTimestamp_def not_less)

lemma monitor_ok_service: "monitor_ok m \<Longrightarrow> monitor_ok (setStatsCompanionService s m)"
proof -
  assume ok: "monitor_ok m"
  let ?m = "m\<lparr>mStatsCompanionService := s\<rparr>"
  have "monitor_ok ?m" using ok by (simp add: monitor_ok_def)
  moreover have "monitor_ok (updateRegisteredAlarmTime_l (timestampSec a) ?m)" if "ipq_top (mPq ?m) = Some a" for a
    using ok that alarm_order.heap.top_some[of "mPq m" a] alarm_top_le[of "mPq m" a]
    by (intro monitor_ok_update) (auto simp: monitor_ok_def)
  ultimately show ?thesis by (auto simp: setStatsCompanionService_def Let_def split: option.splits)
qed

lemma monitor_ok_pop: "monitor_ok m \<Longrightarrow> monitor_ok (snd (popSoonerThan t m))"
proof -
  assume ok: "monitor_ok m"
  then have q: "alarm_queue_ok (mPq m)" by (simp add: monitor_ok_def)
  obtain old q' where loop: "popLoop t (mPq m) [] = (old, q')" by fastforce
  from popLoop_spec[OF q loop] have s: "alarm_queue_ok q'"
    "set old = {a \<in> alarms m. timestampSec a \<le> t}" "ipq_elems q' = {a \<in> alarms m. timestampSec a > t}" by auto
  let ?m = "m\<lparr>mPq := q'\<rparr>"
  consider (none) "old = []" | (cancel) "old \<noteq> []" "ipq_elems q' = {}"
    | (update) a where "old \<noteq> []" "ipq_elems q' \<noteq> {}" "ipq_top q' = Some a" "a \<in> ipq_elems q'"
    using alarm_order.heap.top_obtains[OF s(1)] by metis
  then show ?thesis
  proof cases
    case none
    then have "ipq_top (mPq m) = None \<or> (\<exists>a. ipq_top (mPq m) = Some a \<and> \<not> timestampSec a \<le> t)"
      using s(2) alarm_order.heap.top_some[OF q] by (cases "ipq_top (mPq m)") auto
    then have "popLoop t (mPq m) [] = ([], mPq m)"
      by (subst popLoop.simps) auto
    then show ?thesis using ok by (simp add: popSoonerThan_def)
  next
    case cancel
    then show ?thesis
      using monitor_ok_cancel[of ?m] s loop by (simp add: popSoonerThan_def alarm_queue_empty)
  next
    case update
    have "monitor_ok (updateRegisteredAlarmTime_l (timestampSec a) ?m)"
      using ok update s alarm_top_le[OF s(1)] by (intro monitor_ok_update) (auto simp: monitor_ok_def)
    then show ?thesis using update s(1) loop by (simp add: popSoonerThan_def alarm_queue_empty Let_def)
  qed
qed

lemma monitor_ok_same_registration:
  assumes "monitor_ok m" "alarm_queue_ok q" "ipq_elems q \<noteq> {}" "alarms m \<noteq> {}"
    and "\<forall>a \<in> ipq_elems q. 0 < timestampSec a \<and> uint (timestampSec a) + uint (mMinUpdateTimeSec m) < 2 ^ 32"
    and "\<And>a. ipq_top q = Some a \<Longrightarrow> near (mMinUpdateTimeSec m) (mRegisteredAlarmTimeSec m) (timestampSec a)"
  shows "monitor_ok (m\<lparr>mPq := q\<rparr>)"
  using assms by (simp add: monitor_ok_def)

lemma monitor_ok_add:
  assumes ok: "monitor_ok m"
    and fits: "case alarm of None \<Rightarrow> True
                | Some a \<Rightarrow> uint (timestampSec a) + uint (mMinUpdateTimeSec m) < 2 ^ 32"
  shows "monitor_ok (monitor_add alarm m)"
proof (cases "\<exists>a. alarm = Some a \<and> 0 < timestampSec a")
  case True
  then obtain a where a: "alarm = Some a" "0 < timestampSec a" by blast
  have q: "alarm_queue_ok (mPq m)" using ok by (simp add: monitor_ok_def)
  let ?q = "ipq_push SmallerTimestamp (Some a) (mPq m)" and ?m = "m\<lparr>mPq := ipq_push SmallerTimestamp (Some a) (mPq m)\<rparr>"
  note q' = alarm_order.heap.push_inv[OF q, of "Some a"] and el = alarm_order.heap.push_elems[OF q, of a]
  have all: "\<forall>b \<in> ipq_elems ?q. 0 < timestampSec b \<and> uint (timestampSec b) + uint (mMinUpdateTimeSec m) < 2 ^ 32"
    using ok fits a el by (auto simp: monitor_ok_def)
  have sum: "uint (timestampSec a + mMinUpdateTimeSec m) = uint (timestampSec a) + uint (mMinUpdateTimeSec m)"
    using fits a by (simp add: uint_add_no_wrap)
  obtain s where s: "ipq_top ?q = Some s" "s \<in> ipq_elems ?q" "\<forall>b \<in> ipq_elems ?q. timestampSec s \<le> timestampSec b"
    using alarm_order.heap.top_obtains[OF q'] el by (metis SmallerTimestamp_def insert_not_empty not_less)
  have near_t: "near (mMinUpdateTimeSec m) (mRegisteredAlarmTimeSec m) (timestampSec t)"
    if "ipq_top (mPq m) = Some t" for t using ok that by (simp add: monitor_ok_def)
  show ?thesis
  proof (cases "mRegisteredAlarmTimeSec m = 0 \<or> timestampSec a + mMinUpdateTimeSec m < mRegisteredAlarmTimeSec m")
    case True
    have "timestampSec a \<le> timestampSec b" if b: "b \<in> alarms m" for b
    proof -
      obtain t where t: "ipq_top (mPq m) = Some t" using alarm_order.heap.top_none[OF q] b by (cases "ipq_top (mPq m)") auto
      moreover have "mRegisteredAlarmTimeSec m \<noteq> 0" using ok b by (auto simp: monitor_ok_def)
      ultimately show ?thesis
        using True near_t[OF t] alarm_top_le[OF q t b] sum by (simp add: near_def word_less_def word_le_def)
    qed
    then have "monitor_ok (updateRegisteredAlarmTime_l (timestampSec a) ?m)"
      using q' el all by (intro monitor_ok_update) auto
    then show ?thesis using True a by (auto simp: monitor_add_def Let_def)
  next
    case False
    then have ne: "alarms m \<noteq> {}" using ok by (simp add: monitor_ok_def)
    then obtain t where t: "ipq_top (mPq m) = Some t" "t \<in> alarms m" using alarm_order.heap.top_obtains[OF q] by metis
    have "timestampSec s \<le> timestampSec t" using s t el by simp
    moreover have "s = a \<or> timestampSec t \<le> timestampSec s" using s(2) el alarm_top_le[OF q t(1)] by auto
    ultimately have "near (mMinUpdateTimeSec m) (mRegisteredAlarmTimeSec m) (timestampSec s)"
      using near_t[OF t(1)] False sum by (auto simp: near_def word_less_def word_le_def)
    then have "monitor_ok ?m"
      using s el all ne by (intro monitor_ok_same_registration[OF ok q']) auto
    then show ?thesis using False a by (auto simp: monitor_add_def Let_def)
  qed
next
  case False
  then show ?thesis using ok by (auto simp: monitor_add_def word_positive_iff split: option.splits)
qed


lemma monitor_ok_remove:
  assumes ok: "monitor_ok m"
  shows "monitor_ok (monitor_remove alarm m)"
proof (cases alarm)
  case (Some a)
  have q: "alarm_queue_ok (mPq m)" using ok by (simp add: monitor_ok_def)
  obtain q' found where rm: "ipq_remove SmallerTimestamp (Some a) (mPq m) = (q', found)" by fastforce
  have q': "alarm_queue_ok q'" and el: "ipq_elems q' = alarms m - {a}" and found: "found = (a \<in> alarms m)"
    using alarm_order.heap.remove_inv[OF q, of "Some a"] alarm_order.heap.remove_elems[OF q, of a]
      alarm_order.heap.remove_found[OF q, of a] rm by simp_all
  let ?m = "m\<lparr>mPq := q'\<rparr>"
  have all: "\<forall>b \<in> ipq_elems q'. 0 < timestampSec b \<and> uint (timestampSec b) + uint (mMinUpdateTimeSec m) < 2 ^ 32"
    using ok el by (auto simp: monitor_ok_def)
  consider (absent) "a \<notin> alarms m" | (cancel) "a \<in> alarms m" "ipq_elems q' = {}"
    | (left) s where "a \<in> alarms m" "ipq_top q' = Some s" "s \<in> ipq_elems q'"
    using alarm_order.heap.top_obtains[OF q'] by metis
  then show ?thesis
  proof cases
    case absent
    then have "q' = mPq m" using q rm ipq_remove_absent[of "mPq m" a] by (simp add: ipq_inv_def)
    with absent ok rm found Some show ?thesis by (simp add: monitor_remove_def)
  next
    case cancel
    then show ?thesis
      using monitor_ok_cancel[of ?m] q' rm found Some by (simp add: monitor_remove_def alarm_queue_empty)
  next
    case left
    have upd: "monitor_ok (updateRegisteredAlarmTime_l (timestampSec s) ?m)"
      using left q' all alarm_top_le[OF q' left(2)] by (intro monitor_ok_update) auto
    obtain t where t: "ipq_top (mPq m) = Some t" "t \<in> alarms m"
      using alarm_order.heap.top_obtains[OF q] left by (metis empty_iff)
    have "monitor_ok ?m" if "\<not> timestampSec s > mRegisteredAlarmTimeSec m + mMinUpdateTimeSec m"
    proof (rule monitor_ok_same_registration[OF ok q' _ _ all])
      have "timestampSec t \<le> timestampSec s" using alarm_top_le[OF q t(1)] left el by simp
      moreover have "near (mMinUpdateTimeSec m) (mRegisteredAlarmTimeSec m) (timestampSec t)"
        and "uint (mRegisteredAlarmTimeSec m) + uint (mMinUpdateTimeSec m) < 2 ^ 32"
        using ok t by (simp_all add: monitor_ok_def)
      ultimately show "near (mMinUpdateTimeSec m) (mRegisteredAlarmTimeSec m) (timestampSec b)" if "ipq_top q' = Some b" for b
        using that left \<open>\<not> _\<close> by (simp add: near_def word_less_def word_le_def uint_add_no_wrap not_less)
    qed (use left in auto)
    with upd left rm found Some q' show ?thesis
      by (auto simp: monitor_remove_def alarm_queue_empty Let_def)
  qed
qed (use ok in \<open>simp add: monitor_remove_def\<close>)

lemma monitor_ok_step: "monitor_step m m' \<Longrightarrow> monitor_ok m \<Longrightarrow> monitor_ok m'"
  by (induction rule: monitor_step.induct)
     (auto intro: monitor_ok_service monitor_ok_add monitor_ok_remove monitor_ok_pop)

lemma monitor_ok_reachable: "monitor_reachable d m \<Longrightarrow> monitor_ok m"
  by (induction rule: monitor_reachable.induct) (auto intro: monitor_ok_new monitor_ok_step)

lemma reachable_min: "monitor_reachable d m \<Longrightarrow> mMinUpdateTimeSec m = d"
proof (induction rule: monitor_reachable.induct)
  case (reach_step m m')
  from reach_step(2,3) show ?case
    by (induction rule: monitor_step.induct)
       (auto simp: setStatsCompanionService_def monitor_add_def monitor_remove_def popSoonerThan_def
         updateRegisteredAlarmTime_l_def cancelRegisteredAlarmTime_l_def Let_def
         split: option.splits prod.splits)
qed (simp add: newAlarmMonitor_def)


section \<open>Properties\<close>

text \<open>
  Property C36. The heap with its index map implements a set of alarms ordered by time: from any
  well-formed heap, \<^verbatim>\<open>push\<close> adds the alarm, \<^verbatim>\<open>remove\<close> takes out that very alarm and reports whether
  it was there, \<^verbatim>\<open>pop\<close> takes out the top, the top is a soonest alarm and is null only when the
  queue is empty, and each of them leaves a well-formed heap.
\<close>

theorem alarm_heap_refines_set:
  assumes "ipq_inv SmallerTimestamp q"
  shows "ipq_elems (ipq_push SmallerTimestamp (Some a) q) = insert a (ipq_elems q) \<and>
    ipq_elems (fst (ipq_remove SmallerTimestamp (Some a) q)) = ipq_elems q - {a} \<and>
    snd (ipq_remove SmallerTimestamp (Some a) q) = (a \<in> ipq_elems q) \<and>
    ipq_elems (ipq_pop SmallerTimestamp q) = ipq_elems q - set_option (ipq_top q) \<and>
    (ipq_top q = None \<longleftrightarrow> ipq_elems q = {}) \<and>
    (\<forall>s. ipq_top q = Some s \<longrightarrow> s \<in> ipq_elems q \<and> (\<forall>b \<in> ipq_elems q. timestampSec s \<le> timestampSec b)) \<and>
    ipq_inv SmallerTimestamp (ipq_push SmallerTimestamp (Some a) q) \<and>
    ipq_inv SmallerTimestamp (fst (ipq_remove SmallerTimestamp (Some a) q)) \<and>
    ipq_inv SmallerTimestamp (ipq_pop SmallerTimestamp q)"
  using alarm_order.heap.push_elems[OF assms] alarm_order.heap.remove_elems[OF assms]
    alarm_order.heap.remove_found[OF assms] alarm_order.heap.pop_elems[OF assms]
    alarm_order.heap.top_none[OF assms] alarm_order.heap.top_some[OF assms] alarm_top_le[OF assms]
    alarm_order.heap.push_inv[OF assms] alarm_order.heap.remove_inv[OF assms] alarm_order.heap.pop_inv[OF assms]
  by simp

theorem alarm_heap_refines_set_witness:
  "ipq_elems (ipq_push SmallerTimestamp (Some \<lparr>alarmId = 1, timestampSec = 7\<rparr>) ipq_init) =
     {\<lparr>alarmId = 1, timestampSec = 7\<rparr>}"
  using alarm_heap_refines_set[OF alarm_order.inv_init, of "\<lparr>alarmId = 1, timestampSec = 7\<rparr>"] by simp

text \<open>
  Fact. \<^verbatim>\<open>popSoonerThan\<close> returns, and removes, exactly the pending alarms due at or
  before the given time; the loop always ends.
\<close>

theorem popSoonerThan_exact:
  assumes "monitor_ok m"
  shows "set (fst (popSoonerThan t m)) = {a \<in> ipq_elems (mPq m). timestampSec a \<le> t} \<and>
    ipq_elems (mPq (snd (popSoonerThan t m))) = {a \<in> ipq_elems (mPq m). timestampSec a > t}"
proof -
  obtain old q' where loop: "popLoop t (mPq m) [] = (old, q')" by fastforce
  have "mPq (snd (popSoonerThan t m)) = q'" "fst (popSoonerThan t m) = old"
    using loop by (simp_all add: popSoonerThan_def Let_def updateRegisteredAlarmTime_l_def
        cancelRegisteredAlarmTime_l_def split: option.splits)
  with popLoop_spec[OF _ loop] assms show ?thesis by (simp add: monitor_ok_def)
qed

theorem popSoonerThan_exact_witness:
  "set (fst (popSoonerThan 9 (monitor_add (Some \<lparr>alarmId = 1, timestampSec = 7\<rparr>) (newAlarmMonitor 5)))) =
     {\<lparr>alarmId = 1, timestampSec = 7\<rparr>}"
proof -
  let ?a = "\<lparr>alarmId = 1, timestampSec = 7 :: u32\<rparr>"
  have "alarms (monitor_add (Some ?a) (newAlarmMonitor 5)) = {?a}"
    using alarm_order.heap.push_elems[OF alarm_order.inv_init, of ?a]
    by (simp add: monitor_add_def newAlarmMonitor_def updateRegisteredAlarmTime_l_def Let_def)
  moreover have "monitor_ok (monitor_add (Some ?a) (newAlarmMonitor 5))"
    by (rule monitor_ok_add[OF monitor_ok_new]) (simp add: newAlarmMonitor_def)
  ultimately show ?thesis using popSoonerThan_exact[of "monitor_add (Some ?a) (newAlarmMonitor 5)" 9] by auto
qed

text \<open>
  Property C35. In every reachable state, as long as alarm times plus the slack fit a
  \<^verbatim>\<open>uint32_t\<close>: an alarm is registered with the companion service exactly when one is pending,
  the registered time is within \<^verbatim>\<open>minDiffToUpdateRegisteredAlarmTimeSec\<close> of the soonest alarm,
  as the header promises, and the last callback announced that time in milliseconds.
\<close>

theorem registered_alarm_tracks_soonest:
  assumes "monitor_reachable d m"
  shows "(mRegisteredAlarmTimeSec m = 0 \<longleftrightarrow> ipq_elems (mPq m) = {}) \<and>
    (\<forall>a. ipq_top (mPq m) = Some a \<longrightarrow>
       (\<forall>b \<in> ipq_elems (mPq m). timestampSec a \<le> timestampSec b) \<and>
       \<bar>uint (mRegisteredAlarmTimeSec m) - uint (timestampSec a)\<bar> \<le> uint d \<and>
       (\<exists>s. last (calls m) = UpdateAlarm s (uint (mRegisteredAlarmTimeSec m) * 1000)))"
proof -
  have ok: "monitor_ok m" and d: "mMinUpdateTimeSec m = d"
    using assms monitor_ok_reachable reachable_min by auto
  then have q: "alarm_queue_ok (mPq m)" by (simp add: monitor_ok_def)
  have reg: "(mRegisteredAlarmTimeSec m = 0) = (alarms m = {})" using ok by (simp add: monitor_ok_def)
  have "(\<forall>b \<in> alarms m. timestampSec a \<le> timestampSec b) \<and>
       \<bar>uint (mRegisteredAlarmTimeSec m) - uint (timestampSec a)\<bar> \<le> uint d \<and>
       (\<exists>s. last (calls m) = UpdateAlarm s (uint (mRegisteredAlarmTimeSec m) * 1000))"
    if a: "ipq_top (mPq m) = Some a" for a
  proof (intro conjI)
    show "\<forall>b \<in> alarms m. timestampSec a \<le> timestampSec b" using alarm_top_le[OF q a] by simp
    show "\<bar>uint (mRegisteredAlarmTimeSec m) - uint (timestampSec a)\<bar> \<le> uint d"
      using ok a d by (auto simp: monitor_ok_def near_def)
    have "mRegisteredAlarmTimeSec m \<noteq> 0" using reg alarm_order.heap.top_some[OF q a] by auto
    then show "\<exists>s. last (calls m) = UpdateAlarm s (uint (mRegisteredAlarmTimeSec m) * 1000)"
      using ok by (auto simp: monitor_ok_def announced_def secToMs_def split: if_splits)
  qed
  with reg show ?thesis by blast
qed

theorem registered_alarm_tracks_soonest_witness:
  "mRegisteredAlarmTimeSec (monitor_remove (Some \<lparr>alarmId = 1, timestampSec = 7\<rparr>)
     (monitor_add (Some \<lparr>alarmId = 1, timestampSec = 7\<rparr>) (newAlarmMonitor 5))) = 0"
proof -
  let ?a = "\<lparr>alarmId = 1, timestampSec = 7 :: u32\<rparr>"
  let ?m = "monitor_remove (Some ?a) (monitor_add (Some ?a) (newAlarmMonitor 5))"
  have "monitor_reachable 5 (monitor_add (Some ?a) (newAlarmMonitor 5))"
    by (rule reach_step[OF reach_init step_add]) (simp add: newAlarmMonitor_def)
  then have "monitor_reachable 5 ?m" by (rule reach_step[OF _ step_remove])
  moreover have "alarms ?m = {}"
    using alarm_order.heap.push_elems[OF alarm_order.inv_init, of ?a] alarm_order.heap.push_inv[OF alarm_order.inv_init, of "Some ?a"]
      alarm_order.heap.remove_elems[of "ipq_push SmallerTimestamp (Some ?a) ipq_init" ?a]
    by (simp add: frame_simps newAlarmMonitor_def)
  ultimately show ?thesis using registered_alarm_tracks_soonest by blast
qed

end
