(* ===== verification/AlarmTrackers.thy ===== *)
theory AlarmTrackers
  imports AlarmMonitor AnomalyTracker
begin

text \<open>
  The two clients of the alarm monitor. \<^verbatim>\<open>bin/src/anomaly/DurationAnomalyTracker.cpp\<close> extends the
  anomaly tracker with one predicted alarm per dimension key; \<^verbatim>\<open>bin/src/anomaly/AlarmTracker.cpp\<close>
  keeps one periodic alarm of the configuration.

  The monitor is shared by all trackers of a config, so it is an explicit argument and result,
  \<open>None\<close> for the null pointer. \<^verbatim>\<open>new InternalAlarm\<close> takes its address as an argument. A set of fired
  alarms is a list.
\<close>

section \<open>Duration anomaly trackers\<close>

record 'k duration_anomaly_tracker =
  anomaly :: "'k anomaly_tracker"
  mAlarms :: "('k, internal_alarm) umap"

type_synonym monitor_ptr = "alarm_monitor option"

text \<open>Alarm times are whole seconds, rounded up.\<close>

definition alarmSecFor :: "int \<Rightarrow> u32" where
  "alarmSecFor timestampNs = word_of_int ((timestampNs - 1) div NS_PER_SEC) + 1"

definition startAlarm ::
  "'k \<Rightarrow> int \<Rightarrow> nat \<Rightarrow> 'k duration_anomaly_tracker \<Rightarrow> monitor_ptr \<Rightarrow> 'k duration_anomaly_tracker \<times> monitor_ptr" where
  "startAlarm dimensionKey timestampNs addr d mon =
     (let ts = alarmSecFor timestampNs
      in if isInRefractoryPeriod timestampNs dimensionKey (anomaly d) then (d, mon)
         else let mon1 = (case (map_of (mAlarms d) dimensionKey, mon) of
                            (Some old, Some m) \<Rightarrow> Some (monitor_remove (Some old) m)
                          | _ \<Rightarrow> mon);
                  alarm = \<lparr>alarmId = addr, timestampSec = ts\<rparr>
              in (d\<lparr>mAlarms := AList.update dimensionKey alarm (mAlarms d)\<rparr>,
                  map_option (monitor_add (Some alarm)) mon1))"

text \<open>The value reported with a late alarm: the threshold (a double) plus the seconds it is late by,
  converted back to an integer. The addition is in double arithmetic; it is exact here.\<close>

definition truncate_double :: "rat \<Rightarrow> int" where
  "truncate_double r = (if r < 0 then \<lceil>r\<rceil> else \<lfloor>r\<rfloor>)"

definition lateValue :: "'k anomaly_tracker \<Rightarrow> int \<Rightarrow> internal_alarm \<Rightarrow> int" where
  "lateValue t timestampNs alarm =
     truncate_double ((case trigger_if_sum_gt (mAlert t) of None \<Rightarrow> 0 | Some r \<Rightarrow> r) +
       rat_of_int (timestampNs div NS_PER_SEC) - rat_of_int (uint (timestampSec alarm)))"

definition stopAlarm ::
  "'k \<Rightarrow> int \<Rightarrow> 'k duration_anomaly_tracker \<Rightarrow> monitor_ptr \<Rightarrow> 'k duration_anomaly_tracker \<times> monitor_ptr" where
  "stopAlarm dimensionKey timestampNs d mon =
     (case map_of (mAlarms d) dimensionKey of
        None \<Rightarrow> (d, mon)
      | Some alarm \<Rightarrow>
          let a' = (if timestampNs \<ge> NS_PER_SEC * uint (timestampSec alarm)
                    then declareAnomaly timestampNs (metric_id (mAlert (anomaly d))) dimensionKey
                           (lateValue (anomaly d) timestampNs alarm) (anomaly d)
                    else anomaly d)
          in (d\<lparr>anomaly := a', mAlarms := AList.delete dimensionKey (mAlarms d)\<rparr>,
              map_option (monitor_remove (Some alarm)) mon))"

definition cancelAllAlarms ::
  "'k duration_anomaly_tracker \<Rightarrow> monitor_ptr \<Rightarrow> 'k duration_anomaly_tracker \<times> monitor_ptr" where
  "cancelAllAlarms d mon =
     (d\<lparr>mAlarms := []\<rparr>,
      map_option (\<lambda>m. foldl (\<lambda>m (k, alarm). monitor_remove (Some alarm) m) m (mAlarms d)) mon)"

definition informAlarmsFired ::
  "int \<Rightarrow> internal_alarm list \<Rightarrow> 'k duration_anomaly_tracker \<Rightarrow> 'k duration_anomaly_tracker \<times> internal_alarm list" where
  "informAlarmsFired timestampNs firedAlarms d =
     (if firedAlarms = [] \<or> mAlarms d = [] then (d, firedAlarms)
      else let matchedAlarms = filter (\<lambda>(k, alarm). alarm \<in> set firedAlarms) (mAlarms d)
           in foldl (\<lambda>(d, fired) (k, alarm).
                (d\<lparr>anomaly := declareAnomaly timestampNs (metric_id (mAlert (anomaly d))) k
                                (lateValue (anomaly d) timestampNs alarm) (anomaly d),
                   mAlarms := AList.delete k (mAlarms d)\<rparr>,
                 filter (\<lambda>a. a \<noteq> alarm) fired)) (d, firedAlarms) matchedAlarms)"

section \<open>Periodic alarms\<close>

record alarm_config =
  alarm_id :: int
  offset_millis :: int
  period_millis :: int

record alarm_tracker =
  mAlarmConfig :: alarm_config
  trackerSubscriptions :: "int list"
  mAlarmSec :: int
  mInternalAlarm :: internal_alarm
  triggered :: "int list"

definition findNextAlarmSec :: "alarm_config \<Rightarrow> int \<Rightarrow> int \<Rightarrow> int" where
  "findNextAlarmSec cfg alarmSec currentTimeSec =
     (if currentTimeSec < alarmSec then alarmSec
      else let periodsForward = ((currentTimeSec - alarmSec) * MS_PER_SEC) div period_millis cfg + 1
           in alarmSec + periodsForward * period_millis cfg div MS_PER_SEC)"

definition newAlarmTracker ::
  "int \<Rightarrow> int \<Rightarrow> alarm_config \<Rightarrow> nat \<Rightarrow> monitor_ptr \<Rightarrow> alarm_tracker \<times> monitor_ptr" where
  "newAlarmTracker startMillis currentMillis cfg addr mon =
     (let sec = findNextAlarmSec cfg ((startMillis + offset_millis cfg) div MS_PER_SEC) (currentMillis div MS_PER_SEC);
          alarm = \<lparr>alarmId = addr, timestampSec = word_of_int sec\<rparr>
      in (\<lparr>mAlarmConfig = cfg, trackerSubscriptions = [], mAlarmSec = sec, mInternalAlarm = alarm, triggered = []\<rparr>,
          map_option (monitor_add (Some alarm)) mon))"

definition destroyAlarmTracker :: "alarm_tracker \<Rightarrow> monitor_ptr \<Rightarrow> monitor_ptr" where
  "destroyAlarmTracker a mon = map_option (monitor_remove (Some (mInternalAlarm a))) mon"

definition addAlarmSubscription :: "int \<Rightarrow> alarm_tracker \<Rightarrow> alarm_tracker" where
  "addAlarmSubscription s a = a\<lparr>trackerSubscriptions := trackerSubscriptions a @ [s]\<rparr>"

definition alarmTracker_informAlarmsFired ::
  "int \<Rightarrow> internal_alarm list \<Rightarrow> nat \<Rightarrow> alarm_tracker \<Rightarrow> monitor_ptr \<Rightarrow>
   alarm_tracker \<times> internal_alarm list \<times> monitor_ptr" where
  "alarmTracker_informAlarmsFired timestampNs firedAlarms addr a mon =
     (if firedAlarms = [] \<or> mInternalAlarm a \<notin> set firedAlarms then (a, firedAlarms, mon)
      else let fired = filter (\<lambda>x. x \<noteq> mInternalAlarm a) firedAlarms;
               sec = findNextAlarmSec (mAlarmConfig a) (mAlarmSec a) ((timestampNs - 1) div NS_PER_SEC + 1);
               alarm = \<lparr>alarmId = addr, timestampSec = word_of_int sec\<rparr>
           in (a\<lparr>triggered := (if trackerSubscriptions a \<noteq> [] then triggered a @ [alarm_id (mAlarmConfig a)] else triggered a),
                 mAlarmSec := sec, mInternalAlarm := alarm\<rparr>,
               fired, map_option (monitor_add (Some alarm)) mon))"

section \<open>Facts\<close>

lemma alarmSecFor_bounds:
  assumes "1 \<le> ts" and "ts \<le> (2 ^ 32 - 1) * NS_PER_SEC"
  shows "ts \<le> uint (alarmSecFor ts) * NS_PER_SEC" and "(uint (alarmSecFor ts) - 1) * NS_PER_SEC < ts"
    and "0 < uint (alarmSecFor ts)"
proof -
  define q where "q = (ts - 1) div NS_PER_SEC"
  have P: "(0::int) < NS_PER_SEC" by (simp add: NS_PER_SEC_def)
  have q0: "0 \<le> q" unfolding q_def using assms(1) P by (simp add: pos_imp_zdiv_nonneg_iff)
  note b = div_mult_bounds[OF P, of "ts - 1", folded q_def]
  have "q < 2 ^ 32 - 1" using b(1) assms(2) P by (simp add: NS_PER_SEC_def)
  then have "uint (word_of_int q + 1 :: u32) = q + 1"
    using q0 uint_of_int_u32[of q] by (subst uint_add_no_wrap) auto
  then have e: "uint (alarmSecFor ts) = q + 1" by (simp add: alarmSecFor_def q_def)
  show "ts \<le> uint (alarmSecFor ts) * NS_PER_SEC" "(uint (alarmSecFor ts) - 1) * NS_PER_SEC < ts"
    using b by (simp_all add: e algebra_simps)
  show "0 < uint (alarmSecFor ts)" using q0 by (simp add: e)
qed

lemma informFold:
  "foldl (\<lambda>(d, fired) (k, alarm).
      (d\<lparr>anomaly := declareAnomaly ts (metric_id (mAlert (anomaly d))) k (lateValue (anomaly d) ts alarm) (anomaly d),
         mAlarms := AList.delete k (mAlarms d)\<rparr>, filter (\<lambda>a. a \<noteq> alarm) fired)) (d, fired) ms = (d', fired') \<Longrightarrow>
   fired' = filter (\<lambda>a. a \<notin> snd ` set ms) fired \<and>
   (\<forall>k. map_of (mAlarms d') k = (if k \<in> fst ` set ms then None else map_of (mAlarms d) k))"
proof (induction ms arbitrary: d fired)
  case (Cons kv ms)
  obtain k a where kv: "kv = (k, a)" by fastforce
  from Cons.IH[OF Cons.prems[unfolded foldl_Cons kv prod.case]] show ?case
    by (auto simp: kv intro!: filter_cong)
qed auto

section \<open>Properties\<close>

text \<open>
  Fact. Starting an alarm outside the refractory period replaces the key's previous alarm
  by one fresh alarm in the shared monitor and leaves all other pending alarms alone; the alarm's
  second is the first whole second not before the predicted time, so it never fires early.
\<close>

theorem startAlarm_replaces:
  assumes "monitor_ok m" and "\<not> isInRefractoryPeriod ts k (anomaly d)" and "1 \<le> ts"
    and "ts \<le> (2 ^ 32 - 1) * NS_PER_SEC"
  shows "\<exists>d' m' alarm. startAlarm k ts addr d (Some m) = (d', Some m') \<and>
    map_of (mAlarms d') k = Some alarm \<and> alarmId alarm = addr \<and>
    ipq_elems (mPq m') = insert alarm (ipq_elems (mPq m) - set_option (map_of (mAlarms d) k)) \<and>
    ts \<le> uint (timestampSec alarm) * NS_PER_SEC \<and> (uint (timestampSec alarm) - 1) * NS_PER_SEC < ts"
proof -
  let ?a = "\<lparr>alarmId = addr, timestampSec = alarmSecFor ts\<rparr>"
  let ?m1 = "case map_of (mAlarms d) k of Some old \<Rightarrow> monitor_remove (Some old) m | None \<Rightarrow> m"
  note b = alarmSecFor_bounds[OF assms(3,4)]
  have q: "alarm_queue_ok (mPq m)" using assms(1) by (simp add: monitor_ok_def)
  have q1: "alarm_queue_ok (mPq ?m1)"
    using q alarm_order.heap.remove_inv[OF q] by (simp add: frame_simps split: option.splits)
  have e1: "alarms ?m1 = alarms m - set_option (map_of (mAlarms d) k)"
    using alarm_order.heap.remove_elems[OF q] by (simp add: frame_simps split: option.splits)
  have "timestampSec ?a \<noteq> 0" using b(3) by auto
  then have "alarms (monitor_add (Some ?a) ?m1) = insert ?a (alarms ?m1)"
    using alarm_order.heap.push_elems[OF q1, of ?a] by (simp add: frame_simps)
  moreover have "startAlarm k ts addr d (Some m) =
      (d\<lparr>mAlarms := AList.update k ?a (mAlarms d)\<rparr>, Some (monitor_add (Some ?a) ?m1))"
    using assms(2) by (simp add: startAlarm_def Let_def split: option.splits)
  ultimately show ?thesis using e1 b by auto
qed

theorem startAlarm_replaces_witness:
  "\<exists>d' m'. startAlarm CHR ''k'' 1 7
      \<lparr>anomaly = newAnomalyTracker \<lparr>alert_id = 1, metric_id = 2, num_buckets = 1, refractory_period_secs = None,
          trigger_if_sum_gt = Some 4\<rparr>, mAlarms = []\<rparr> (Some (newAlarmMonitor 5)) = (d', Some m') \<and>
    ipq_elems (mPq m') \<noteq> {}"
  using startAlarm_replaces[OF monitor_ok_new, where k = "CHR ''k''" and ts = 1 and addr = 7
      and d = "\<lparr>anomaly = newAnomalyTracker \<lparr>alert_id = 1, metric_id = 2, num_buckets = 1,
        refractory_period_secs = None, trigger_if_sum_gt = Some 4\<rparr>, mAlarms = []\<rparr>" and d1 = 5]
  by (auto simp: isInRefractoryPeriod_def newAnomalyTracker_def resetStorage_def NS_PER_SEC_def)

text \<open>
  Fact. When alarms fire, the tracker takes over exactly its own: it forgets the keys whose
  alarm fired and keeps the others, and hands on exactly the fired alarms that are not its own.
\<close>

theorem informAlarmsFired_takes_own:
  assumes "umap_ok (mAlarms d)" and "informAlarmsFired ts fired d = (d', fired')"
  shows "set fired' = set fired - snd ` set (mAlarms d) \<and>
    map_of (mAlarms d') k = (case map_of (mAlarms d) k of
       Some alarm \<Rightarrow> if alarm \<in> set fired then None else Some alarm | None \<Rightarrow> None)"
proof (cases "fired = [] \<or> mAlarms d = []")
  case True
  then show ?thesis using assms by (auto simp: informAlarmsFired_def split: option.splits)
next
  case False
  let ?ms = "filter (\<lambda>(k, alarm). alarm \<in> set fired) (mAlarms d)"
  from informFold[of ts d fired ?ms d' fired'] False assms(2)
  have f: "fired' = filter (\<lambda>a. a \<notin> snd ` set ?ms) fired"
    and m: "\<And>k. map_of (mAlarms d') k = (if k \<in> fst ` set ?ms then None else map_of (mAlarms d) k)"
    by (auto simp: informAlarmsFired_def)
  have "set fired' = set fired - snd ` set (mAlarms d)" unfolding f by force
  moreover have "k \<in> fst ` set ?ms \<longleftrightarrow> (\<exists>a. map_of (mAlarms d) k = Some a \<and> a \<in> set fired)"
    using map_of_Some_iff_mem[OF assms(1), of k] by force
  ultimately show ?thesis using m[of k] by (auto split: option.splits)
qed

theorem informAlarmsFired_takes_own_witness:
  "\<exists>d' fired'. informAlarmsFired 9 [\<lparr>alarmId = 1, timestampSec = 7\<rparr>, \<lparr>alarmId = 2, timestampSec = 8\<rparr>]
      \<lparr>anomaly = newAnomalyTracker \<lparr>alert_id = 1, metric_id = 2, num_buckets = 1, refractory_period_secs = None,
          trigger_if_sum_gt = Some 4\<rparr>, mAlarms = [(CHR ''k'', \<lparr>alarmId = 1, timestampSec = 7\<rparr>)]\<rparr> = (d', fired') \<and>
    set fired' = {\<lparr>alarmId = 2, timestampSec = 8\<rparr>}"
proof -
  let ?d = "\<lparr>anomaly = newAnomalyTracker \<lparr>alert_id = 1, metric_id = 2, num_buckets = 1, refractory_period_secs = None,
          trigger_if_sum_gt = Some 4\<rparr>, mAlarms = [(CHR ''k'', \<lparr>alarmId = 1, timestampSec = 7\<rparr>)]\<rparr>"
  let ?f = "[\<lparr>alarmId = 1, timestampSec = 7\<rparr>, \<lparr>alarmId = 2, timestampSec = 8\<rparr>]"
  obtain d' fired' where e: "informAlarmsFired 9 ?f ?d = (d', fired')" by fastforce
  have "umap_ok (mAlarms ?d)" by (simp add: umap_ok_def)
  from informAlarmsFired_takes_own[OF this e] e show ?thesis by auto
qed

text \<open>
  Fact. The next periodic alarm: never before the current time and at most one period (in
  milliseconds) ahead; when the period is a whole number of seconds it is strictly in the future
  and a whole number of periods after the previous alarm.
\<close>

theorem findNextAlarmSec_bounds:
  assumes "0 < period_millis cfg" and "alarmSec \<le> now"
  shows "now \<le> findNextAlarmSec cfg alarmSec now \<and>
    (findNextAlarmSec cfg alarmSec now - now) * 1000 \<le> period_millis cfg \<and>
    (1000 dvd period_millis cfg \<longrightarrow> now < findNextAlarmSec cfg alarmSec now \<and>
       period_millis cfg div 1000 dvd findNextAlarmSec cfg alarmSec now - alarmSec)"
proof -
  define p where "p = period_millis cfg"
  define n where "n = (now - alarmSec) * 1000"
  define s where "s = (n div p + 1) * p"
  have p: "0 < p" using assms(1) by (simp add: p_def)
  have eq: "findNextAlarmSec cfg alarmSec now = alarmSec + s div 1000"
    using assms(2) by (simp add: findNextAlarmSec_def Let_def MS_PER_SEC_def s_def n_def p_def)
  have s: "n < s" "s \<le> n + p"
    using div_mult_bounds[OF p, of n] by (simp_all add: s_def algebra_simps)
  have d: "1000 * (s div 1000) \<le> s" "s < 1000 * (s div 1000) + 1000" using div_mult_bounds[of 1000 s] by auto
  have "now < alarmSec + s div 1000 \<and> p div 1000 dvd s div 1000" if "1000 dvd p"
  proof -
    from \<open>1000 dvd p\<close> obtain c where c: "p = 1000 * c" by (auto simp: dvd_def)
    then have "s div 1000 = (n div p + 1) * c" by (simp add: s_def)
    moreover have "1000 * (s div 1000) = s" using calculation c by (simp add: s_def)
    ultimately show ?thesis using c s(1) by (simp add: n_def)
  qed
  then show ?thesis using s d unfolding eq n_def p_def by (auto simp: algebra_simps)
qed

theorem findNextAlarmSec_bounds_witness:
  "findNextAlarmSec \<lparr>alarm_id = 1, offset_millis = 0, period_millis = 60000\<rparr> 100 160 = 220 \<and>
   160 < findNextAlarmSec \<lparr>alarm_id = 1, offset_millis = 0, period_millis = 60000\<rparr> 100 160"
  using findNextAlarmSec_bounds[of "\<lparr>alarm_id = 1, offset_millis = 0, period_millis = 60000\<rparr>" 100 160]
  by (simp add: findNextAlarmSec_def MS_PER_SEC_def)

end
