(* ===== verification/DurationTrackers.thy ===== *)
theory DurationTrackers
  imports MetricBase AlarmTrackers
begin

text \<open>
  The base class of the duration trackers, \<^verbatim>\<open>bin/src/metrics/duration_helper/DurationTracker.h\<close>. A tracker
  measures the time of one dimension in what.

  The anomaly trackers of a metric are shared by all its duration trackers, and the alarm monitor by all
  anomaly trackers, so both are an explicit store: \<open>aeTrackers\<close> holds the anomaly trackers, a duration
  tracker holds their positions in it (its \<^verbatim>\<open>sp\<close> pointers, which are never null), \<open>aeNextAddr\<close> is the address
  of the next \<^verbatim>\<open>new InternalAlarm\<close>. The virtual \<^verbatim>\<open>predictAnomalyTimestampNs\<close> is an argument of the base class's
  \<open>startAnomalyAlarm\<close>.
\<close>

datatype duration_state = kStopped | kStarted | kPaused

record duration_info =
  diState :: duration_state
  diStartCount :: int
  diLastStartTime :: ns
  diLastDuration :: ns
  diConditionKeys :: "(int, dim_key) umap"

definition newDurationInfo :: duration_info where
  "newDurationInfo = \<lparr>diState = kStopped, diStartCount = 0, diLastStartTime = 0, diLastDuration = 0, diConditionKeys = []\<rparr>"

record duration_bucket =
  dbBucketStartNs :: ns
  dbBucketEndNs :: ns
  dbDuration :: ns

record duration_values =
  dvDuration :: ns
  dvDurationFullBucket :: ns

record duration_tracker =
  dtTrackerId :: int
  dtEventKey :: metric_key
  dtConditionTrackerIndex :: int
  dtBucketSizeNs :: ns
  dtNested :: bool
  dtCurrentBucketStartTimeNs :: ns
  dtDuration :: ns
  dtStateKeyDurationMap :: "(dim_key, duration_values) umap"
  dtCurrentBucketNum :: int
  dtStartTimeNs :: ns
  dtConditionSliced :: bool
  dtHasLinksToAllConditionDimensionsInTracker :: bool
  dtAnomalyTrackers :: "nat list"

record anomaly_env =
  aeTrackers :: "metric_key duration_anomaly_tracker list"
  aeMonitor :: monitor_ptr
  aeNextAddr :: nat

type_synonym duration_output = "(metric_key, duration_bucket list) umap"

definition newDurationTracker ::
  "int \<Rightarrow> metric_key \<Rightarrow> int \<Rightarrow> bool \<Rightarrow> ns \<Rightarrow> int \<Rightarrow> ns \<Rightarrow> ns \<Rightarrow> bool \<Rightarrow> bool \<Rightarrow> nat list \<Rightarrow> duration_tracker" where
  "newDurationTracker i eventKey conditionIdx nesting currentBucketStartNs currentBucketNum startTimeNs bucketSizeNs
      conditionSliced fullLink anomalyTrackers =
     \<lparr>dtTrackerId = i, dtEventKey = eventKey, dtConditionTrackerIndex = conditionIdx, dtBucketSizeNs = bucketSizeNs,
      dtNested = nesting, dtCurrentBucketStartTimeNs = currentBucketStartNs, dtDuration = 0, dtStateKeyDurationMap = [],
      dtCurrentBucketNum = currentBucketNum, dtStartTimeNs = startTimeNs, dtConditionSliced = conditionSliced,
      dtHasLinksToAllConditionDimensionsInTracker = fullLink, dtAnomalyTrackers = anomalyTrackers\<rparr>"

definition duration_onConfigUpdated :: "int \<Rightarrow> 'a duration_tracker_scheme \<Rightarrow> 'a duration_tracker_scheme" where
  "duration_onConfigUpdated conditionTrackerIdx d = d\<lparr>dtConditionTrackerIndex := conditionTrackerIdx, dtAnomalyTrackers := []\<rparr>"

definition duration_addAnomalyTracker :: "nat \<Rightarrow> 'a duration_tracker_scheme \<Rightarrow> 'a duration_tracker_scheme" where
  "duration_addAnomalyTracker i d = d\<lparr>dtAnomalyTrackers := dtAnomalyTrackers d @ [i]\<rparr>"

definition dt_getCurrentBucketEndTimeNs :: "'a duration_tracker_scheme \<Rightarrow> ns" where
  "dt_getCurrentBucketEndTimeNs d = dtStartTimeNs d + (dtCurrentBucketNum d + 1) * dtBucketSizeNs d"

section \<open>Sums over the values of a map\<close>

lemma sum_values_update:
  fixes f :: "'v \<Rightarrow> int"
  assumes "umap_ok m"
  shows "sum_list (map (\<lambda>kv. f (snd kv)) (AList.update k v m)) =
    sum_list (map (\<lambda>kv. f (snd kv)) m) - (case map_of m k of None \<Rightarrow> 0 | Some x \<Rightarrow> f x) + f v"
  using assms
proof (induction m)
  case (Cons kv m)
  then show ?case by (cases kv) (auto simp: umap_ok_def dest: map_of_SomeD split: option.splits)
qed simp

lemma set_update_cases: "(k', x) \<in> set (AList.update k v m) \<Longrightarrow> umap_ok m \<Longrightarrow> (k', x) = (k, v) \<or> (k' \<noteq> k \<and> (k', x) \<in> set m)"
  by (metis map_of_Some_iff_mem map_of_update option.inject umap_ok_update)

section \<open>The shared anomaly trackers\<close>

definition getAnomalyThreshold :: "'k anomaly_tracker \<Rightarrow> int" where
  "getAnomalyThreshold t = truncate_double (case trigger_if_sum_gt (mAlert t) of None \<Rightarrow> 0 | Some r \<Rightarrow> r)"

definition startAlarmOf :: "metric_key \<Rightarrow> ns \<Rightarrow> nat \<Rightarrow> anomaly_env \<Rightarrow> anomaly_env" where
  "startAlarmOf key alarmTimestampNs i e =
     (case startAlarm key alarmTimestampNs (aeNextAddr e) (aeTrackers e ! i) (aeMonitor e) of
        (t, mon) \<Rightarrow> e\<lparr>aeTrackers := (aeTrackers e)[i := t], aeMonitor := mon, aeNextAddr := Suc (aeNextAddr e)\<rparr>)"

definition startAnomalyAlarm ::
  "(metric_key anomaly_tracker \<Rightarrow> ns \<Rightarrow> ns) \<Rightarrow> ns \<Rightarrow> 'a duration_tracker_scheme \<Rightarrow> anomaly_env \<Rightarrow> anomaly_env" where
  "startAnomalyAlarm predict eventTime d env =
     foldl (\<lambda>e i. let alarmTimestampNs = predict (anomaly (aeTrackers e ! i)) eventTime
                  in if alarmTimestampNs > 0 then startAlarmOf (dtEventKey d) alarmTimestampNs i e else e)
       env (dtAnomalyTrackers d)"

definition stopAnomalyAlarm :: "ns \<Rightarrow> 'a duration_tracker_scheme \<Rightarrow> anomaly_env \<Rightarrow> anomaly_env" where
  "stopAnomalyAlarm timestamp d env =
     foldl (\<lambda>e i. case stopAlarm (dtEventKey d) timestamp (aeTrackers e ! i) (aeMonitor e) of
                    (t, mon) \<Rightarrow> e\<lparr>aeTrackers := (aeTrackers e)[i := t], aeMonitor := mon\<rparr>)
       env (dtAnomalyTrackers d)"

definition onAnomalyTracker ::
  "(metric_key anomaly_tracker \<Rightarrow> metric_key anomaly_tracker) \<Rightarrow> nat \<Rightarrow> anomaly_env \<Rightarrow> anomaly_env" where
  "onAnomalyTracker f i e =
     e\<lparr>aeTrackers := (aeTrackers e)[i := (aeTrackers e ! i)\<lparr>anomaly := f (anomaly (aeTrackers e ! i))\<rparr>]\<rparr>"

definition addPastBucketToAnomalyTrackers ::
  "metric_key \<Rightarrow> ns \<Rightarrow> int \<Rightarrow> 'a duration_tracker_scheme \<Rightarrow> anomaly_env \<Rightarrow> anomaly_env" where
  "addPastBucketToAnomalyTrackers eventKey bucketValue bucketNum d env =
     foldl (\<lambda>e i. onAnomalyTracker (addPastBucketValue eventKey bucketValue bucketNum) i e) env (dtAnomalyTrackers d)"

definition duration_detectAndDeclareAnomaly ::
  "ns \<Rightarrow> int \<Rightarrow> ns \<Rightarrow> 'a duration_tracker_scheme \<Rightarrow> anomaly_env \<Rightarrow> anomaly_env" where
  "duration_detectAndDeclareAnomaly timestamp currBucketNum currentBucketValue d env =
     foldl (\<lambda>e i. onAnomalyTracker
                    (detectAndDeclareAnomaly timestamp currBucketNum (dtTrackerId d) (dtEventKey d) currentBucketValue) i e)
       env (dtAnomalyTrackers d)"

section \<open>Bucket times\<close>

text \<open>Both trackers compute the end of the bucket being flushed and the number of buckets to move on alike.
  \<^verbatim>\<open>numBucketsForward\<close> is a C++ \<^verbatim>\<open>int\<close>; the model keeps the mathematical number.\<close>

definition bucketsForward :: "ns \<Rightarrow> 'a duration_tracker_scheme \<Rightarrow> int" where
  "bucketsForward eventTimeNs d =
     (let fullBucketEnd = dt_getCurrentBucketEndTimeNs d
      in if eventTimeNs \<ge> fullBucketEnd then 1 + (eventTimeNs - fullBucketEnd) div dtBucketSizeNs d else 0)"

definition flushedBucketEnd :: "ns \<Rightarrow> 'a duration_tracker_scheme \<Rightarrow> ns" where
  "flushedBucketEnd eventTimeNs d =
     (let fullBucketEnd = dt_getCurrentBucketEndTimeNs d
      in if eventTimeNs \<ge> fullBucketEnd then fullBucketEnd else eventTimeNs)"

definition moveBucket :: "ns \<Rightarrow> 'a duration_tracker_scheme \<Rightarrow> 'a duration_tracker_scheme" where
  "moveBucket eventTimeNs d =
     (let n = bucketsForward eventTimeNs d
      in if n > 0
         then d\<lparr>dtCurrentBucketStartTimeNs := dt_getCurrentBucketEndTimeNs d + (n - 1) * dtBucketSizeNs d,
                dtCurrentBucketNum := dtCurrentBucketNum d + n\<rparr>
         else d\<lparr>dtCurrentBucketStartTimeNs := eventTimeNs\<rparr>)"

text \<open>A tracker's current bucket: it starts before the end of the full bucket it belongs to.\<close>

definition dt_ok :: "'a duration_tracker_scheme \<Rightarrow> bool" where
  "dt_ok d \<longleftrightarrow> 0 < dtBucketSizeNs d \<and> dtCurrentBucketStartTimeNs d < dt_getCurrentBucketEndTimeNs d \<and>
     dt_getCurrentBucketEndTimeNs d - dtBucketSizeNs d \<le> dtCurrentBucketStartTimeNs d"

lemma moveBucket_frame [simp]:
  "dtBucketSizeNs (moveBucket t d) = dtBucketSizeNs d" "dtStateKeyDurationMap (moveBucket t d) = dtStateKeyDurationMap d"
  "dtEventKey (moveBucket t d) = dtEventKey d" "dtNested (moveBucket t d) = dtNested d" "dtDuration (moveBucket t d) = dtDuration d"
  "dtConditionSliced (moveBucket t d) = dtConditionSliced d" "dtStartTimeNs (moveBucket t d) = dtStartTimeNs d"
  "duration_tracker.more (moveBucket t d) = duration_tracker.more d" "dtAnomalyTrackers (moveBucket t d) = dtAnomalyTrackers d"
  by (simp_all add: moveBucket_def Let_def)

lemma moveBucket_start:
  assumes "0 < dtBucketSizeNs d"
  shows "dtCurrentBucketStartTimeNs (moveBucket t d) \<le> t" "t < dt_getCurrentBucketEndTimeNs (moveBucket t d)"
    and "0 \<le> bucketsForward t d" "flushedBucketEnd t d \<le> t"
    and "dtCurrentBucketStartTimeNs (moveBucket t d) = flushedBucketEnd t d + (if bucketsForward t d > 0 then (bucketsForward t d - 1) * dtBucketSizeNs d else 0)"
  using assms next_bucket_bounds[OF assms, of "dt_getCurrentBucketEndTimeNs d" t]
  by (auto simp: moveBucket_def bucketsForward_def flushedBucketEnd_def Let_def dt_getCurrentBucketEndTimeNs_def algebra_simps)

lemma moveBucket_ok:
  assumes "dt_ok d" "dtCurrentBucketStartTimeNs d \<le> t"
  shows "dt_ok (moveBucket t d)"
proof -
  have s: "0 < dtBucketSizeNs d" using assms by (simp add: dt_ok_def)
  show ?thesis
    using assms next_bucket_bounds[OF s, of "dt_getCurrentBucketEndTimeNs d" t]
    by (auto simp: moveBucket_def bucketsForward_def Let_def dt_ok_def dt_getCurrentBucketEndTimeNs_def algebra_simps)
qed

section \<open>Sequences of operations\<close>

text \<open>The operations a tracker's owner performs when the condition is not sliced, for the statements about runs.\<close>

datatype duration_op =
    NoteStart dim_key
  | NoteStop dim_key bool
  | NoteStopAll
  | ConditionChanged bool
  | StateChanged i32 field_value
  | FlushCurrentBucket

fun conditionAfter :: "bool \<Rightarrow> duration_op \<Rightarrow> bool" where
  "conditionAfter condition (ConditionChanged c) = c"
| "conditionAfter condition _ = condition"

end
