(* ===== verification/OringDuration.thy ===== *)
theory OringDuration
  imports DurationTrackers
begin

text \<open>
  \<^verbatim>\<open>bin/src/metrics/duration_helper/OringDurationTracker.cpp\<close>: the time during which at least one internal
  dimension is started and not paused. Overlapping durations are counted once. Every operation takes and
  returns the tracker with the shared anomaly trackers. \<^verbatim>\<open>mWizard\<close> is the list of all conditions.
\<close>

section \<open>Definitions\<close>

record oring_tracker = duration_tracker +
  odStarted :: "(dim_key, int) umap"
  odPaused :: "(dim_key, int) umap"
  odLastStartTime :: ns
  odConditionKeyMap :: "(dim_key, (int, dim_key) umap) umap"

type_synonym oring_state = "oring_tracker \<times> anomaly_env"

definition newOringDurationTracker :: "duration_tracker \<Rightarrow> oring_tracker" where
  "newOringDurationTracker b = duration_tracker.extend b (oring_tracker.fields [] [] 0 [])"

definition oring_hitGuardRail :: "dim_key \<Rightarrow> oring_tracker \<Rightarrow> bool" where
  "oring_hitGuardRail newKey d = dimension_guardrail (odConditionKeyMap d) newKey"

definition stateValuesOf :: "'a duration_tracker_scheme \<Rightarrow> dim_key \<Rightarrow> duration_values" where
  "stateValuesOf d k = (case map_of (dtStateKeyDurationMap d) k of
     None \<Rightarrow> \<lparr>dvDuration = 0, dvDurationFullBucket = 0\<rparr> | Some v \<Rightarrow> v)"

definition getCurrentStateKeyDuration :: "oring_tracker \<Rightarrow> ns" where
  "getCurrentStateKeyDuration d = dvDuration (stateValuesOf d (mStateValuesKey (dtEventKey d)))"

definition getCurrentStateKeyFullBucketDuration :: "oring_tracker \<Rightarrow> ns" where
  "getCurrentStateKeyFullBucketDuration d = dvDurationFullBucket (stateValuesOf d (mStateValuesKey (dtEventKey d)))"

text \<open>\<^verbatim>\<open>mStateKeyDurationMap[mEventKey.getStateValuesKey()].mDuration += (timestamp - mLastStartTime)\<close>.\<close>

definition recordDuration :: "ns \<Rightarrow> oring_tracker \<Rightarrow> oring_tracker" where
  "recordDuration timestamp d =
     (let k = mStateValuesKey (dtEventKey d); v = stateValuesOf d k
      in d\<lparr>dtStateKeyDurationMap :=
             AList.update k (v\<lparr>dvDuration := dvDuration v + (timestamp - odLastStartTime d)\<rparr>) (dtStateKeyDurationMap d)\<rparr>)"

definition currentBucketDuration :: "oring_tracker \<Rightarrow> ns" where
  "currentBucketDuration d = getCurrentStateKeyDuration d + getCurrentStateKeyFullBucketDuration d"

definition oring_detect :: "ns \<Rightarrow> oring_tracker \<Rightarrow> anomaly_env \<Rightarrow> anomaly_env" where
  "oring_detect timestamp d = duration_detectAndDeclareAnomaly timestamp (dtCurrentBucketNum d) (currentBucketDuration d) d"

subsection \<open>Predicting an anomaly\<close>

text \<open>The loop over the future buckets; \<open>None\<close> when it ends without a result. \<open>past\<close> is \<^verbatim>\<open>pastNs\<close>.\<close>

fun predictFuture ::
  "(int \<Rightarrow> ns) \<Rightarrow> int \<Rightarrow> ns \<Rightarrow> ns \<Rightarrow> ns \<Rightarrow> ns \<Rightarrow> ns \<Rightarrow> int list \<Rightarrow> ns \<Rightarrow> ns option" where
  "predictFuture pastBucket numPast bucketSizeNs currentBucketEndNs thresholdNs refractoryEndNs currentPart [] past = None"
| "predictFuture pastBucket numPast bucketSizeNs currentBucketEndNs thresholdNs refractoryEndNs currentPart (i # is) past =
     (let bucketEndNs = currentBucketEndNs + i * bucketSizeNs;
          anomalyTimestampNs = max (bucketEndNs - bucketSizeNs + thresholdNs - past) refractoryEndNs
      in if anomalyTimestampNs \<le> bucketEndNs then Some anomalyTimestampNs
         else if numPast \<le> 0
              then predictFuture pastBucket numPast bucketSizeNs currentBucketEndNs thresholdNs refractoryEndNs currentPart is past
         else let past1 = past + bucketSizeNs;
                  past2 = (if i < numPast then past1 - pastBucket i
                           else if i = numPast then past1 - currentPart else past1)
              in predictFuture pastBucket numPast bucketSizeNs currentBucketEndNs thresholdNs refractoryEndNs currentPart is past2)"

definition oring_predictAnomalyTimestampNs :: "oring_tracker \<Rightarrow> metric_key anomaly_tracker \<Rightarrow> ns \<Rightarrow> ns" where
  "oring_predictAnomalyTimestampNs d tracker eventTimestampNs =
     (let thresholdNs = getAnomalyThreshold tracker;
          currentBucketEndNs = dt_getCurrentBucketEndTimeNs d;
          currentStateBucketPastNs = currentBucketDuration d;
          pastNs = currentStateBucketPastNs + getSumOverPastBuckets tracker (dtEventKey d);
          refractoryPeriodEndNs = uint (getRefractoryPeriodEndsSec (dtEventKey d) tracker) * NS_PER_SEC;
          anomalyTimestampNs = max (eventTimestampNs + thresholdNs - pastNs) refractoryPeriodEndNs;
          numPast = mNumOfPastBuckets tracker;
          bucketAt = (\<lambda>i. getPastBucketValue tracker (dtEventKey d) (dtCurrentBucketNum d - numPast + i))
      in if anomalyTimestampNs \<le> currentBucketEndNs then max eventTimestampNs anomalyTimestampNs
         else let pastNs1 = (if numPast > 0 then pastNs - bucketAt 0 + (currentBucketEndNs - eventTimestampNs) else 0)
              in case predictFuture bucketAt numPast (dtBucketSizeNs d) currentBucketEndNs thresholdNs refractoryPeriodEndNs
                        (currentStateBucketPastNs + (currentBucketEndNs - eventTimestampNs)) [1..numPast + 1] pastNs1 of
                   Some ts \<Rightarrow> ts
                 | None \<Rightarrow> max (eventTimestampNs + thresholdNs) refractoryPeriodEndNs)"

definition oring_startAnomalyAlarm :: "ns \<Rightarrow> oring_tracker \<Rightarrow> anomaly_env \<Rightarrow> anomaly_env" where
  "oring_startAnomalyAlarm eventTime d = startAnomalyAlarm (oring_predictAnomalyTimestampNs d) eventTime d"

subsection \<open>Events\<close>

definition bumpCount :: "dim_key \<Rightarrow> (dim_key, int) umap \<Rightarrow> (dim_key, int) umap" where
  "bumpCount key m = AList.update key (case map_of m key of None \<Rightarrow> 1 | Some n \<Rightarrow> n + 1) m"

definition oring_noteStart :: "dim_key \<Rightarrow> bool \<Rightarrow> ns \<Rightarrow> (int, dim_key) umap \<Rightarrow> oring_state \<Rightarrow> oring_state" where
  "oring_noteStart key condition eventTime conditionKey s =
     (case s of (d, e) \<Rightarrow>
        if oring_hitGuardRail key d then (d, e)
        else let (d1, e1) =
                   (if condition
                    then let (d', e') = (if length (odStarted d) = 0
                                         then let d' = d\<lparr>odLastStartTime := eventTime\<rparr>
                                              in (d', oring_startAnomalyAlarm eventTime d' e)
                                         else (d, e))
                         in (d'\<lparr>odStarted := bumpCount key (odStarted d')\<rparr>, e')
                    else (d\<lparr>odPaused := bumpCount key (odPaused d)\<rparr>, e))
             in (if dtConditionSliced d1 \<and> map_of (odConditionKeyMap d1) key = None
                 then d1\<lparr>odConditionKeyMap := AList.update key conditionKey (odConditionKeyMap d1)\<rparr> else d1,
                 e1))"

text \<open>Decrement the count of a key that is present, and erase it when it has stopped.\<close>

definition stopKey :: "bool \<Rightarrow> dim_key \<Rightarrow> int \<Rightarrow> (dim_key, int) umap \<Rightarrow> (dim_key, int) umap \<times> bool" where
  "stopKey force key n m =
     (if force \<or> n - 1 \<le> 0 then (AList.delete key m, True) else (AList.update key (n - 1) m, False))"

definition oring_noteStop :: "dim_key \<Rightarrow> ns \<Rightarrow> bool \<Rightarrow> oring_state \<Rightarrow> oring_state" where
  "oring_noteStop key timestamp stopAll s =
     (case s of (d, e) \<Rightarrow>
        let force = (stopAll \<or> \<not> dtNested d);
            (d1, e1) =
              (case map_of (odStarted d) key of
                 None \<Rightarrow> (d, e)
               | Some n \<Rightarrow>
                   let (started, erased) = stopKey force key n (odStarted d);
                       d' = d\<lparr>odStarted := started,
                              odConditionKeyMap := (if erased then AList.delete key (odConditionKeyMap d) else odConditionKeyMap d)\<rparr>
                   in if odStarted d' = []
                      then let d'' = recordDuration timestamp d' in (d'', oring_detect timestamp d'' e)
                      else (d', e));
            d2 =
              (case map_of (odPaused d1) key of
                 None \<Rightarrow> d1
               | Some n \<Rightarrow>
                   let (paused, erased) = stopKey force key n (odPaused d1)
                   in d1\<lparr>odPaused := paused,
                         odConditionKeyMap := (if erased then AList.delete key (odConditionKeyMap d1) else odConditionKeyMap d1)\<rparr>)
        in (d2, if odStarted d2 = [] then stopAnomalyAlarm timestamp d2 e1 else e1))"

definition oring_noteStopAll :: "ns \<Rightarrow> oring_state \<Rightarrow> oring_state" where
  "oring_noteStopAll timestamp s =
     (case s of (d, e) \<Rightarrow>
        let (d1, e1) = (if odStarted d \<noteq> []
                        then let d' = recordDuration timestamp d in (d', oring_detect timestamp d' e)
                        else (d, e))
        in (d1\<lparr>odStarted := [], odPaused := [], odConditionKeyMap := []\<rparr>, stopAnomalyAlarm timestamp d1 e1))"

subsection \<open>Flushing\<close>

type_synonym oring_flush = "oring_tracker \<times> duration_output \<times> anomaly_env"

definition flushStateKey :: "ns \<Rightarrow> ns \<Rightarrow> ns \<Rightarrow> oring_flush \<Rightarrow> dim_key \<Rightarrow> oring_flush" where
  "flushStateKey eventTimeNs fullBucketEnd endNs s stateKey =
     (case s of (d, out, e) \<Rightarrow>
        let v = stateValuesOf d stateKey;
            key = \<lparr>mDimensionKeyInWhat = mDimensionKeyInWhat (dtEventKey d), mStateValuesKey = stateKey\<rparr>;
            (v1, out1) =
              (if dvDuration v > 0
               then (v\<lparr>dvDurationFullBucket := dvDurationFullBucket v + dvDuration v\<rparr>,
                     pushBucket key \<lparr>dbBucketStartNs = dtCurrentBucketStartTimeNs d, dbBucketEndNs = endNs, dbDuration = dvDuration v\<rparr> out)
               else (v, out));
            d1 = d\<lparr>dtStateKeyDurationMap := AList.update stateKey v1 (dtStateKeyDurationMap d)\<rparr>;
            (v2, e1) =
              (if eventTimeNs > fullBucketEnd
               then (v1\<lparr>dvDurationFullBucket := 0\<rparr>,
                     addPastBucketToAnomalyTrackers key (getCurrentStateKeyFullBucketDuration d1) (dtCurrentBucketNum d1) d1 e)
               else (v1, e))
        in (d1\<lparr>dtStateKeyDurationMap := AList.update stateKey (v2\<lparr>dvDuration := 0\<rparr>) (dtStateKeyDurationMap d1)\<rparr>, out1, e1))"

definition fillBucket :: "ns \<Rightarrow> oring_tracker \<Rightarrow> duration_output \<times> anomaly_env \<Rightarrow> int \<Rightarrow> duration_output \<times> anomaly_env" where
  "fillBucket fullBucketEnd d s i =
     (case s of (out, e) \<Rightarrow>
        let start = fullBucketEnd + dtBucketSizeNs d * (i - 1)
        in (pushBucket (dtEventKey d)
              \<lparr>dbBucketStartNs = start, dbBucketEndNs = start + dtBucketSizeNs d, dbDuration = dtBucketSizeNs d\<rparr> out,
            addPastBucketToAnomalyTrackers (dtEventKey d) (dtBucketSizeNs d) (dtCurrentBucketNum d + i) d e))"

definition oring_flushCurrentBucket :: "ns \<Rightarrow> oring_flush \<Rightarrow> oring_flush \<times> bool" where
  "oring_flushCurrentBucket eventTimeNs s =
     (case s of (d0, out0, e0) \<Rightarrow>
        let numBucketsForward = bucketsForward eventTimeNs d0;
            fullBucketEnd = dt_getCurrentBucketEndTimeNs d0;
            currentBucketEndTimeNs = flushedBucketEnd eventTimeNs d0;
            d1 = (if length (odStarted d0) > 0 then recordDuration currentBucketEndTimeNs d0 else d0);
            (d2, out2, e2) = foldl (flushStateKey eventTimeNs fullBucketEnd currentBucketEndTimeNs) (d1, out0, e0)
                               (map fst (dtStateKeyDurationMap d1));
            (out3, e3) =
              (if length (odStarted d2) > 0
               then foldl (fillBucket fullBucketEnd d2) (out2, e2) [1..numBucketsForward - 1]
               else (out2, if numBucketsForward \<ge> 2
                           then addPastBucketToAnomalyTrackers (dtEventKey d2) 0 (dtCurrentBucketNum d2 + numBucketsForward - 1) d2 e2
                           else e2));
            d3 = moveBucket eventTimeNs d2;
            d4 = d3\<lparr>odLastStartTime := dtCurrentBucketStartTimeNs d3\<rparr>
        in ((d4, out3, e3), odStarted d4 = [] \<and> odPaused d4 = []))"

definition oring_flushIfNeeded :: "ns \<Rightarrow> oring_flush \<Rightarrow> oring_flush \<times> bool" where
  "oring_flushIfNeeded eventTimeNs s =
     (if eventTimeNs < dt_getCurrentBucketEndTimeNs (fst s) then (s, False) else oring_flushCurrentBucket eventTimeNs s)"

subsection \<open>Condition and state changes\<close>

text \<open>\<^verbatim>\<open>unordered_map::insert\<close> of a range: keys that are present keep their value.\<close>

definition insertAll :: "('k, 'v) umap \<Rightarrow> ('k, 'v) umap \<Rightarrow> ('k, 'v) umap" where
  "insertAll m kvs = foldl (\<lambda>m (k, v). if map_of m k = None then AList.update k v m else m) m kvs"

definition keyCondition :: "condition_tracker list \<Rightarrow> oring_tracker \<Rightarrow> dim_key \<Rightarrow> condition_state option" where
  "keyCondition conditions d key =
     (case map_of (odConditionKeyMap d) key of
        None \<Rightarrow> None
      | Some ck \<Rightarrow> wizard_query (length conditions) conditions (nat (dtConditionTrackerIndex d)) ck
                     (\<not> dtHasLinksToAllConditionDimensionsInTracker d))"

definition oring_onSlicedConditionMayChange :: "condition_tracker list \<Rightarrow> ns \<Rightarrow> oring_state \<Rightarrow> oring_state" where
  "oring_onSlicedConditionMayChange conditions timestamp s =
     (case s of (d, e) \<Rightarrow>
        let toPause = (\<lambda>(k, n). map_of (odConditionKeyMap d) k \<noteq> None \<and> keyCondition conditions d k \<noteq> Some kTrue);
            toStart = (\<lambda>(k, n). map_of (odConditionKeyMap d) k \<noteq> None \<and> keyCondition conditions d k = Some kTrue);
            startedToPaused = filter toPause (odStarted d);
            (d1, e1) =
              (if odStarted d \<noteq> []
               then let d' = d\<lparr>odStarted := filter (\<lambda>kn. \<not> toPause kn) (odStarted d)\<rparr>
                    in if odStarted d' = []
                       then let d'' = recordDuration timestamp d' in (d'', oring_detect timestamp d'' e)
                       else (d', e)
               else (d, e));
            pausedToStarted = filter toStart (odPaused d1);
            d2 =
              (if odPaused d1 \<noteq> []
               then let d' = d1\<lparr>odPaused := filter (\<lambda>kn. \<not> toStart kn) (odPaused d1)\<rparr>
                    in if odStarted d' = [] \<and> length pausedToStarted > 0 then d'\<lparr>odLastStartTime := timestamp\<rparr> else d'
               else d1);
            e2 = (if odStarted d2 = [] \<and> pausedToStarted \<noteq> [] then oring_startAnomalyAlarm timestamp d2 e1 else e1);
            d3 = d2\<lparr>odStarted := insertAll (odStarted d2) pausedToStarted\<rparr>;
            d4 = d3\<lparr>odPaused := insertAll (odPaused d3) startedToPaused\<rparr>
        in (d4, if odStarted d4 = [] then stopAnomalyAlarm timestamp d4 e2 else e2))"

definition oring_onConditionChanged :: "bool \<Rightarrow> ns \<Rightarrow> oring_state \<Rightarrow> oring_state" where
  "oring_onConditionChanged condition timestamp s =
     (case s of (d, e) \<Rightarrow>
        let (d1, e1) =
              (if condition
               then (if odPaused d \<noteq> []
                     then let d' = (if odStarted d = [] then d\<lparr>odLastStartTime := timestamp\<rparr> else d);
                              e' = (if odStarted d' = [] \<and> odPaused d' \<noteq> [] then oring_startAnomalyAlarm timestamp d' e else e)
                          in (d'\<lparr>odStarted := insertAll (odStarted d') (odPaused d'), odPaused := []\<rparr>, e')
                     else (d, e))
               else (if odStarted d \<noteq> []
                     then let d' = recordDuration timestamp d;
                              d'' = d'\<lparr>odPaused := insertAll (odPaused d') (odStarted d'), odStarted := []\<rparr>
                          in (d'', oring_detect timestamp d'' e)
                     else (d, e)))
        in (d1, if odStarted d1 = [] then stopAnomalyAlarm timestamp d1 e1 else e1))"

definition updateCurrentStateKey :: "i32 \<Rightarrow> field_value \<Rightarrow> oring_tracker \<Rightarrow> oring_tracker" where
  "updateCurrentStateKey atomId newState d =
     d\<lparr>dtEventKey := (dtEventKey d)\<lparr>mStateValuesKey :=
        map (\<lambda>(f, v). if mTag f = atomId then (f, fvValue newState) else (f, v)) (mStateValuesKey (dtEventKey d))\<rparr>\<rparr>"

definition oring_onStateChanged :: "ns \<Rightarrow> i32 \<Rightarrow> field_value \<Rightarrow> oring_state \<Rightarrow> oring_state" where
  "oring_onStateChanged timestamp atomId newState s =
     (case s of (d, e) \<Rightarrow>
        (if odStarted d = [] then updateCurrentStateKey atomId newState d
         else updateCurrentStateKey atomId newState ((recordDuration timestamp d)\<lparr>odLastStartTime := timestamp\<rparr>), e))"

section \<open>The prediction is exact\<close>

text \<open>
  The specification of the prediction: the time recorded in the window of buckets that ends with the
  bucket of time \<open>ts\<close>, if the tracker keeps running from time \<open>now\<close> on. \<open>p j\<close> is the \<open>j\<close>th of the \<open>numPast\<close> past
  buckets, \<open>cur\<close> what the current bucket, which ends at \<open>endNs\<close>, holds already. A time at the end of a bucket
  belongs to that bucket.
\<close>

definition pastAt :: "(int \<Rightarrow> ns) \<Rightarrow> int \<Rightarrow> ns \<Rightarrow> ns \<Rightarrow> int \<Rightarrow> ns" where
  "pastAt p numPast bucketSizeNs currentPart i =
     (\<Sum>j\<in>{i..<numPast}. p j) + (if i \<le> numPast then currentPart else 0) + min (i - 1) numPast * bucketSizeNs"

definition windowDuration :: "(int \<Rightarrow> ns) \<Rightarrow> int \<Rightarrow> ns \<Rightarrow> ns \<Rightarrow> ns \<Rightarrow> ns \<Rightarrow> ns \<Rightarrow> ns" where
  "windowDuration p numPast bucketSizeNs endNs now cur ts =
     (if ts \<le> endNs then (\<Sum>j\<in>{0..<numPast}. p j) + cur + (ts - now)
      else let i = 1 + (ts - endNs - 1) div bucketSizeNs
           in pastAt p numPast bucketSizeNs (cur + (endNs - now)) i + (ts - (endNs + (i - 1) * bucketSizeNs)))"

lemma windowDuration_bucket:
  assumes "0 < B" "1 \<le> i" "E + (i - 1) * B < ts" "ts \<le> E + i * B"
  shows "windowDuration p P B E now cur ts = pastAt p P B (cur + (E - now)) i + (ts - (E + (i - 1) * B))"
proof -
  have "(ts - E - 1) div B = i - 1"
    using assms by (intro int_div_pos_eq[where r = "ts - E - 1 - B * (i - 1)"]) (auto simp: algebra_simps)
  moreover have "0 \<le> (i - 1) * B" using assms by simp
  then have "\<not> ts \<le> E" using assms(3) by linarith
  ultimately show ?thesis by (simp add: windowDuration_def)
qed

lemma pastAt_step:
  assumes "1 \<le> i" "i \<le> P"
  shows "pastAt p P B c (i + 1) = pastAt p P B c i + B - (if i < P then p i else c)"
proof (cases "i < P")
  case True
  then have "{i..<P} = insert i {i + 1..<P}" by auto
  then have "(\<Sum>j\<in>{i..<P}. p j) = p i + (\<Sum>j\<in>{i + 1..<P}. p j)" by simp
  then show ?thesis using True assms by (simp add: pastAt_def min_def algebra_simps)
next
  case False
  then show ?thesis using assms by (simp add: pastAt_def min_def algebra_simps)
qed

lemma pastAt_last: "0 \<le> P \<Longrightarrow> pastAt p P B c (P + 1) = P * B"
  by (simp add: pastAt_def)

text \<open>What is already over when bucket \<open>i\<close> starts was already recorded at the end of the bucket before it.\<close>

lemma pastAt_le_window:
  assumes "0 < B" "0 \<le> P" "1 \<le> i" "i \<le> P + 1" "\<And>j. 0 \<le> p j" "0 \<le> cur" "now \<le> E"
  shows "pastAt p P B (cur + (E - now)) i \<le> windowDuration p P B E now cur (E + (i - 1) * B)"
proof (cases "i = 1")
  case True
  have "(\<Sum>j\<in>{1..<P}. p j) \<le> (\<Sum>j\<in>{0..<P}. p j)" using assms(5) by (intro sum_mono2) auto
  with assms True show ?thesis by (auto simp: windowDuration_def pastAt_def)
next
  case False
  define k where "k = i - 1"
  have k: "1 \<le> k" "k \<le> P" "i = k + 1" using False assms by (auto simp: k_def)
  have w: "windowDuration p P B E now cur (E + k * B) = pastAt p P B (cur + (E - now)) k + B"
    using k assms(1) by (subst windowDuration_bucket[where i = k]) (auto simp: algebra_simps)
  have "0 \<le> (if k < P then p k else cur + (E - now))" using assms by simp
  with pastAt_step[OF k(1,2), of p B "cur + (E - now)"] show ?thesis using w k(3) by simp
qed

lemma predictFuture_exact:
  assumes hyp: "0 < B" "0 \<le> P" "\<And>j. 0 \<le> p j" "0 \<le> cur" "now \<le> E" "thr \<le> (P + 1) * B" "refr \<le> E + (P + 1) * B"
    and good: "\<And>ts. good ts \<longleftrightarrow> thr \<le> windowDuration p P B E now cur ts \<and> refr \<le> ts"
    and i: "1 \<le> i" "i \<le> P + 1"
    and none: "\<forall>ts. now \<le> ts \<and> ts \<le> E + (i - 1) * B \<longrightarrow> \<not> good ts"
  shows "\<exists>ts. predictFuture p P B E thr refr (cur + (E - now)) [i..P + 1] (pastAt p P B (cur + (E - now)) i) = Some ts \<and>
    now \<le> ts \<and> good ts \<and> (\<forall>ts'. now \<le> ts' \<and> ts' < ts \<longrightarrow> \<not> good ts')"
  using i none
proof (induction "nat (P + 1 - i)" arbitrary: i rule: less_induct)
  case less
  let ?past = "pastAt p P B (cur + (E - now)) i" and ?start = "E + (i - 1) * B" and ?stop = "E + i * B"
  define a where "a = max (?stop - B + thr - ?past) refr"
  have up: "[i..P + 1] = i # [i + 1..P + 1]" using less.prems by (simp add: upto_rec1)
  have start: "now \<le> ?start" using hyp(1,5) less.prems(1) mult_nonneg_nonneg[of "i - 1" B] by linarith
  have inb: "good ts \<longleftrightarrow> a \<le> ts" if "?start < ts" "ts \<le> ?stop" for ts
    using windowDuration_bucket[OF hyp(1) less.prems(1) that, of p P now cur] by (auto simp: good a_def algebra_simps)
  have ngood: "\<not> good ?start" using less.prems(3) start by simp
  then have above: "?start < a"
    using pastAt_le_window[where p = p, OF hyp(1,2) less.prems(1,2) hyp(3-5)] by (auto simp: good a_def algebra_simps max_def split: if_splits)
  show ?case
  proof (cases "a \<le> ?stop")
    case True
    have "\<not> good ts'" if "now \<le> ts'" "ts' < a" for ts'
      using that less.prems(3) inb[of ts'] True by (cases "ts' \<le> ?start") auto
    then show ?thesis using True above inb[of a] start by (intro exI[of _ a]) (simp add: up Let_def a_def)
  next
    case False
    have iP: "i \<le> P"
    proof (rule ccontr)
      assume "\<not> i \<le> P"
      then have "i = P + 1" using less.prems(2) by simp
      then show False using False hyp(6,7) pastAt_last[OF hyp(2), of p B "cur + (E - now)"] by (simp add: a_def algebra_simps)
    qed
    have none': "\<forall>ts. now \<le> ts \<and> ts \<le> E + (i + 1 - 1) * B \<longrightarrow> \<not> good ts"
      using less.prems(3) inb False by (metis add_diff_cancel_right' linorder_not_less order.trans)
    have "predictFuture p P B E thr refr (cur + (E - now)) [i..P + 1] ?past =
       predictFuture p P B E thr refr (cur + (E - now)) [i + 1..P + 1] (pastAt p P B (cur + (E - now)) (i + 1))"
      using False iP less.prems(1) pastAt_step[OF less.prems(1) iP, of p B "cur + (E - now)"]
      unfolding up a_def by (cases "i < P") (simp_all only: predictFuture.simps Let_def if_True if_False, simp_all)
    with less.hyps[of "i + 1"] iP less.prems(1) none' show ?thesis by simp
  qed
qed



section \<open>Conservation of time\<close>

definition pendingOf :: "(dim_key, duration_values) umap \<Rightarrow> ns" where
  "pendingOf m = sum_list (map (\<lambda>kv. dvDuration (snd kv)) m)"

definition reported :: "duration_output \<Rightarrow> ns" where
  "reported out = sum_list (map (\<lambda>kb. sum_list (map dbDuration (snd kb))) out)"

text \<open>A bucket is not empty, and no longer than the time it covers.\<close>

definition duration_fits :: "duration_bucket \<Rightarrow> bool" where
  "duration_fits b \<longleftrightarrow> 0 < dbDuration b \<and> dbDuration b \<le> dbBucketEndNs b - dbBucketStartNs b"

definition output_ok :: "duration_output \<Rightarrow> bool" where
  "output_ok out \<longleftrightarrow> umap_ok out \<and> (\<forall>(k, bs) \<in> set out. \<forall>b \<in> set bs. duration_fits b)"

lemma reported_push: "umap_ok out \<Longrightarrow> reported (pushBucket k b out) = reported out + dbDuration b"
  unfolding reported_def pushBucket_def by (subst sum_values_update) (auto split: option.split)

lemma output_ok_push: "output_ok out \<Longrightarrow> duration_fits b \<Longrightarrow> output_ok (pushBucket k b out)"
  unfolding output_ok_def pushBucket_def
  by (auto dest!: set_update_cases split: option.splits) (fastforce dest: map_of_SomeD)

lemma pendingOf_nonneg: "(\<forall>(k, v) \<in> set m. 0 \<le> dvDuration v) \<Longrightarrow> 0 \<le> pendingOf m"
  unfolding pendingOf_def by (rule sum_list_nonneg_int) auto

lemma stateValues_le_pending:
  assumes "\<forall>(k, v) \<in> set (dtStateKeyDurationMap d). 0 \<le> dvDuration v"
  shows "0 \<le> dvDuration (stateValuesOf d k)" "dvDuration (stateValuesOf d k) \<le> pendingOf (dtStateKeyDurationMap d)"
proof -
  let ?m = "dtStateKeyDurationMap d"
  show "0 \<le> dvDuration (stateValuesOf d k)" using assms by (auto simp: stateValuesOf_def split: option.split dest!: map_of_SomeD)
  show "dvDuration (stateValuesOf d k) \<le> pendingOf ?m"
  proof (cases "map_of ?m k")
    case None
    then show ?thesis using pendingOf_nonneg[OF assms] by (simp add: stateValuesOf_def)
  next
    case (Some v)
    then obtain i where "i < length ?m" "?m ! i = (k, v)" by (metis in_set_conv_nth map_of_SomeD)
    then show ?thesis using nth_le_sum_list_int[of "map (\<lambda>kv. dvDuration (snd kv)) ?m" i] assms Some
      by (force simp: pendingOf_def stateValuesOf_def)
  qed
qed

lemma recordDuration_pending:
  assumes "umap_ok (dtStateKeyDurationMap d)"
  shows "pendingOf (dtStateKeyDurationMap (recordDuration t d)) = pendingOf (dtStateKeyDurationMap d) + (t - odLastStartTime d)"
  using assms unfolding recordDuration_def pendingOf_def Let_def
  by (simp add: sum_values_update stateValuesOf_def split: option.split)

definition values_ok :: "(dim_key, duration_values) umap \<Rightarrow> bool" where
  "values_ok m \<longleftrightarrow> umap_ok m \<and> (\<forall>(k, v) \<in> set m. 0 \<le> dvDuration v)"

lemma values_ok_update: "values_ok m \<Longrightarrow> 0 \<le> dvDuration v \<Longrightarrow> values_ok (AList.update k v m)"
  by (auto simp: values_ok_def dest!: set_update_cases)

lemma recordDuration_ok:
  assumes "values_ok (dtStateKeyDurationMap d)" "odLastStartTime d \<le> t"
  shows "values_ok (dtStateKeyDurationMap (recordDuration t d))"
  using assms stateValues_le_pending(1)[of d "mStateValuesKey (dtEventKey d)"] unfolding recordDuration_def Let_def
  by (auto simp: values_ok_def[of "dtStateKeyDurationMap d"] intro!: values_ok_update)

lemma recordDuration_frame [simp]:
  "odStarted (recordDuration t d) = odStarted d" "odPaused (recordDuration t d) = odPaused d"
  "odLastStartTime (recordDuration t d) = odLastStartTime d" "odConditionKeyMap (recordDuration t d) = odConditionKeyMap d"
  "dtBucketSizeNs (recordDuration t d) = dtBucketSizeNs d" "dtNested (recordDuration t d) = dtNested d"
  "dtCurrentBucketStartTimeNs (recordDuration t d) = dtCurrentBucketStartTimeNs d"
  "dt_getCurrentBucketEndTimeNs (recordDuration t d) = dt_getCurrentBucketEndTimeNs d"
  "dtConditionSliced (recordDuration t d) = dtConditionSliced d" "dt_ok (recordDuration t d) = dt_ok d"
  "dtEventKey (recordDuration t d) = dtEventKey d"
  by (simp_all add: recordDuration_def Let_def dt_getCurrentBucketEndTimeNs_def dt_ok_def)

text \<open>Flushing moves the recorded time of every state key into the output.\<close>

lemma flushStateKey_spec:
  assumes "values_ok (dtStateKeyDurationMap d)" "k \<in> fst ` set (dtStateKeyDurationMap d)" "output_ok out"
    and "pendingOf (dtStateKeyDurationMap d) \<le> endNs - dtCurrentBucketStartTimeNs d"
  shows "\<exists>m out' e'. flushStateKey t full endNs (d, out, e) k = (d\<lparr>dtStateKeyDurationMap := m\<rparr>, out', e') \<and>
    map fst m = map fst (dtStateKeyDurationMap d) \<and> values_ok m \<and> output_ok out' \<and>
    (\<forall>k'. dvDuration (stateValuesOf (d\<lparr>dtStateKeyDurationMap := m\<rparr>) k') = (if k' = k then 0 else dvDuration (stateValuesOf d k'))) \<and>
    pendingOf m = pendingOf (dtStateKeyDurationMap d) - dvDuration (stateValuesOf d k) \<and>
    reported out' = reported out + dvDuration (stateValuesOf d k)"
proof -
  let ?m = "dtStateKeyDurationMap d" and ?v = "stateValuesOf d k"
  let ?key = "\<lparr>mDimensionKeyInWhat = mDimensionKeyInWhat (dtEventKey d), mStateValuesKey = k\<rparr>"
  let ?b = "\<lparr>dbBucketStartNs = dtCurrentBucketStartTimeNs d, dbBucketEndNs = endNs, dbDuration = dvDuration ?v\<rparr>"
  let ?out = "if dvDuration ?v > 0 then pushBucket ?key ?b out else out"
  have v: "0 \<le> dvDuration ?v" "dvDuration ?v \<le> pendingOf ?m"
    using assms(1) stateValues_le_pending by (auto simp: values_ok_def)
  have u: "umap_ok ?m" using assms(1) by (simp add: values_ok_def)
  obtain v1 v2 e' where e: "flushStateKey t full endNs (d, out, e) k =
      (d\<lparr>dtStateKeyDurationMap := AList.update k v2 (AList.update k v1 ?m)\<rparr>, ?out, e')"
    and z: "dvDuration v1 = dvDuration ?v" "dvDuration v2 = 0"
    by (cases "dvDuration ?v > 0"; cases "t > full"; simp add: flushStateKey_def Let_def)
  let ?n = "AList.update k v2 (AList.update k v1 ?m)"
  obtain x where x: "map_of ?m k = Some x" using assms(2) by (metis map_of_eq_None_iff option.exhaust)
  have "pendingOf ?n = pendingOf ?m - dvDuration ?v"
    using u z x by (simp add: pendingOf_def sum_values_update stateValuesOf_def)
  moreover have "map fst ?n = map fst ?m" using assms(2) by (simp add: update_keys)
  moreover have "values_ok ?n" using assms(1) z v by (intro values_ok_update) auto
  moreover have "\<forall>k'. dvDuration (stateValuesOf (d\<lparr>dtStateKeyDurationMap := ?n\<rparr>) k') = (if k' = k then 0 else dvDuration (stateValuesOf d k'))"
    using z by (simp add: stateValuesOf_def)
  moreover have "output_ok ?out" using assms(3,4) v by (auto intro!: output_ok_push simp: duration_fits_def)
  moreover have "reported ?out = reported out + dvDuration ?v"
    using assms(3) v by (auto simp: reported_push output_ok_def)
  ultimately show ?thesis using e by blast
qed

lemma flushStateKeys_spec:
  assumes "values_ok (dtStateKeyDurationMap d)" "set ks \<subseteq> fst ` set (dtStateKeyDurationMap d)" "output_ok out"
    and "pendingOf (dtStateKeyDurationMap d) \<le> endNs - dtCurrentBucketStartTimeNs d"
  shows "\<exists>m out' e'. foldl (flushStateKey t full endNs) (d, out, e) ks = (d\<lparr>dtStateKeyDurationMap := m\<rparr>, out', e') \<and>
    map fst m = map fst (dtStateKeyDurationMap d) \<and> values_ok m \<and> output_ok out' \<and>
    (\<forall>k. dvDuration (stateValuesOf (d\<lparr>dtStateKeyDurationMap := m\<rparr>) k) = (if k \<in> set ks then 0 else dvDuration (stateValuesOf d k))) \<and>
    pendingOf m + reported out' = pendingOf (dtStateKeyDurationMap d) + reported out"
  using assms
proof (induction ks arbitrary: d out e)
  case (Cons k ks)
  let ?m0 = "dtStateKeyDurationMap d"
  have k: "k \<in> fst ` set ?m0" using Cons.prems by auto
  obtain m out1 e1 where f: "flushStateKey t full endNs (d, out, e) k = (d\<lparr>dtStateKeyDurationMap := m\<rparr>, out1, e1)"
    and m: "map fst m = map fst ?m0" "values_ok m" "output_ok out1"
    and z: "\<forall>k'. dvDuration (stateValuesOf (d\<lparr>dtStateKeyDurationMap := m\<rparr>) k') = (if k' = k then 0 else dvDuration (stateValuesOf d k'))"
    and p: "pendingOf m = pendingOf ?m0 - dvDuration (stateValuesOf d k)" "reported out1 = reported out + dvDuration (stateValuesOf d k)"
    using flushStateKey_spec[OF Cons.prems(1) k Cons.prems(3,4), of t full e] by blast
  let ?d1 = "d\<lparr>dtStateKeyDurationMap := m\<rparr>"
  have v: "0 \<le> dvDuration (stateValuesOf d k)" using Cons.prems(1) stateValues_le_pending(1) by (auto simp: values_ok_def)
  have keys: "fst ` set m = fst ` set ?m0" using m(1) by (metis list.set_map)
  obtain n out2 e2 where "foldl (flushStateKey t full endNs) (?d1, out1, e1) ks = (?d1\<lparr>dtStateKeyDurationMap := n\<rparr>, out2, e2)"
    "map fst n = map fst m" "values_ok n" "output_ok out2"
    "\<forall>k'. dvDuration (stateValuesOf (?d1\<lparr>dtStateKeyDurationMap := n\<rparr>) k') = (if k' \<in> set ks then 0 else dvDuration (stateValuesOf ?d1 k'))"
    "pendingOf n + reported out2 = pendingOf m + reported out1"
    using Cons.IH[of ?d1 out1 e1] m p(1) v Cons.prems keys by auto
  then show ?case using f m z p by (intro exI[of _ n] exI[of _ out2] exI[of _ e2]) auto
qed (auto intro!: exI[of _ "dtStateKeyDurationMap _"])

lemma pendingOf_zero:
  assumes "umap_ok m" "\<forall>k. dvDuration (stateValuesOf (d\<lparr>dtStateKeyDurationMap := m\<rparr>) k) = 0"
  shows "pendingOf m = 0"
proof -
  have "dvDuration v = 0" if "(k, v) \<in> set m" for k v
    using assms that by (auto simp: stateValuesOf_def dest: spec[of _ k] simp flip: map_of_Some_iff_mem[OF assms(1)])
  then have "map (\<lambda>kv. dvDuration (snd kv)) m = map (\<lambda>_. 0) m" by (intro map_cong) auto
  then show ?thesis by (simp only: pendingOf_def sum_list_0)
qed

lemma fillBuckets_spec:
  assumes "output_ok out" "0 < dtBucketSizeNs d"
  shows "\<exists>out' e'. foldl (fillBucket full d) (out, e) is = (out', e') \<and> output_ok out' \<and>
    reported out' = reported out + int (length is) * dtBucketSizeNs d"
  using assms
proof (induction "is" arbitrary: out e)
  case (Cons i "is")
  let ?b = "\<lparr>dbBucketStartNs = full + dtBucketSizeNs d * (i - 1), dbBucketEndNs = full + dtBucketSizeNs d * (i - 1) + dtBucketSizeNs d,
    dbDuration = dtBucketSizeNs d\<rparr>"
  have "output_ok (pushBucket (dtEventKey d) ?b out)" using Cons.prems by (intro output_ok_push) (auto simp: duration_fits_def)
  moreover have "reported (pushBucket (dtEventKey d) ?b out) = reported out + dtBucketSizeNs d"
    using Cons.prems by (simp add: reported_push output_ok_def)
  ultimately show ?case
    using Cons.IH[of "pushBucket (dtEventKey d) ?b out" "addPastBucketToAnomalyTrackers (dtEventKey d) (dtBucketSizeNs d) (dtCurrentBucketNum d + i) d e"] Cons.prems(2)
    by (auto simp: fillBucket_def Let_def algebra_simps)
qed auto

text \<open>
  The invariant of a tracker that was last told the time \<open>now\<close>, and the time it has measured so far: what it
  has reported, what it has recorded in the current bucket, and what is running.
\<close>

definition running :: "oring_tracker \<Rightarrow> ns \<Rightarrow> ns" where
  "running d now = (if odStarted d = [] then 0 else now - odLastStartTime d)"

definition measured :: "oring_tracker \<Rightarrow> duration_output \<Rightarrow> ns \<Rightarrow> ns" where
  "measured d out now = reported out + pendingOf (dtStateKeyDurationMap d) + running d now"

definition oring_ok :: "oring_tracker \<Rightarrow> ns \<Rightarrow> bool" where
  "oring_ok d now \<longleftrightarrow> dt_ok d \<and> dtCurrentBucketStartTimeNs d \<le> now \<and> values_ok (dtStateKeyDurationMap d) \<and>
     umap_ok (odStarted d) \<and> umap_ok (odPaused d) \<and> (odStarted d \<noteq> [] \<longrightarrow> odLastStartTime d \<le> now \<and>
     odLastStartTime d < dt_getCurrentBucketEndTimeNs d) \<and>
     pendingOf (dtStateKeyDurationMap d) \<le> (if odStarted d = [] then min now (dt_getCurrentBucketEndTimeNs d) else odLastStartTime d) - dtCurrentBucketStartTimeNs d"

lemma oring_flush_spec:
  assumes "oring_ok d now" "now \<le> t" "output_ok out"
  shows "\<exists>d' out' e'. oring_flushCurrentBucket t (d, out, e) = ((d', out', e'), odStarted d = [] \<and> odPaused d = []) \<and>
    oring_ok d' t \<and> output_ok out' \<and> measured d' out' t = measured d out t \<and> t < dt_getCurrentBucketEndTimeNs d' \<and>
    odStarted d' = odStarted d \<and> odPaused d' = odPaused d \<and> odConditionKeyMap d' = odConditionKeyMap d \<and>
    dtConditionSliced d' = dtConditionSliced d \<and> dtNested d' = dtNested d"
proof -
  let ?endNs = "flushedBucketEnd t d" and ?full = "dt_getCurrentBucketEndTimeNs d" and ?n = "bucketsForward t d"
  define d1 where "d1 = (if odStarted d \<noteq> [] then recordDuration ?endNs d else d)"
  have d1': "(if length (odStarted d) > 0 then recordDuration ?endNs d else d) = d1" by (simp add: d1_def)
  have ok: "dt_ok d" "values_ok (dtStateKeyDurationMap d)" "0 < dtBucketSizeNs d" using assms(1) by (auto simp: oring_ok_def dt_ok_def)
  have le: "odStarted d \<noteq> [] \<Longrightarrow> odLastStartTime d \<le> ?endNs"
    using assms(1,2) by (auto simp: oring_ok_def flushedBucketEnd_def Let_def)
  have v1: "values_ok (dtStateKeyDurationMap d1)" unfolding d1_def using ok le recordDuration_ok by auto
  have p1: "pendingOf (dtStateKeyDurationMap d1) = pendingOf (dtStateKeyDurationMap d) + running d ?endNs"
    using ok(2) recordDuration_pending[of d] by (auto simp: d1_def running_def values_ok_def)
  have fr: "odStarted d1 = odStarted d" "odPaused d1 = odPaused d" "dtCurrentBucketStartTimeNs d1 = dtCurrentBucketStartTimeNs d"
    "odConditionKeyMap d1 = odConditionKeyMap d" "dtConditionSliced d1 = dtConditionSliced d" "dtNested d1 = dtNested d"
    "dtBucketSizeNs d1 = dtBucketSizeNs d" "dt_ok d1 = dt_ok d"
    by (auto simp: d1_def)
  have "pendingOf (dtStateKeyDurationMap d1) \<le> ?endNs - dtCurrentBucketStartTimeNs d1"
    using assms(1,2) p1 fr(3) by (auto simp: oring_ok_def running_def flushedBucketEnd_def Let_def split: if_splits)
  from flushStateKeys_spec[OF v1 _ assms(3) this, of "map fst (dtStateKeyDurationMap d1)" t ?full e]
  obtain m out2 e2 where f: "foldl (flushStateKey t ?full ?endNs) (d1, out, e) (map fst (dtStateKeyDurationMap d1)) = (d1\<lparr>dtStateKeyDurationMap := m\<rparr>, out2, e2)"
    and m: "map fst m = map fst (dtStateKeyDurationMap d1)" "values_ok m" "output_ok out2"
    and z: "\<forall>k. dvDuration (stateValuesOf (d1\<lparr>dtStateKeyDurationMap := m\<rparr>) k) =
      (if k \<in> set (map fst (dtStateKeyDurationMap d1)) then 0 else dvDuration (stateValuesOf d1 k))"
    and c: "pendingOf m + reported out2 = pendingOf (dtStateKeyDurationMap d1) + reported out" by auto
  have "dvDuration (stateValuesOf d1 k) = 0" if "k \<notin> fst ` set (dtStateKeyDurationMap d1)" for k
    using that by (simp add: stateValuesOf_def map_of_eq_None_iff[THEN iffD2])
  then have pz: "pendingOf m = 0" using z m(2) by (intro pendingOf_zero[of _ d1]) (auto simp: values_ok_def)
  let ?d2 = "d1\<lparr>dtStateKeyDurationMap := m\<rparr>"
  obtain out3 e3 where g: "(if length (odStarted ?d2) > 0 then foldl (fillBucket ?full ?d2) (out2, e2) [1..?n - 1]
      else (out2, if ?n \<ge> 2 then addPastBucketToAnomalyTrackers (dtEventKey ?d2) 0 (dtCurrentBucketNum ?d2 + ?n - 1) ?d2 e2 else e2)) = (out3, e3)"
    and o3: "output_ok out3" "reported out3 = reported out2 + (if odStarted d = [] then 0 else max 0 (?n - 1) * dtBucketSizeNs d)"
    using fillBuckets_spec[of out2 ?d2 ?full e2 "[1..?n - 1]"] m(3) ok(3) fr by (cases "odStarted d = []") (auto simp: max_def)
  let ?d3 = "moveBucket t ?d2"
  let ?d4 = "?d3\<lparr>odLastStartTime := dtCurrentBucketStartTimeNs ?d3\<rparr>"
  have fl: "oring_flushCurrentBucket t (d, out, e) = ((?d4, out3, e3), odStarted ?d4 = [] \<and> odPaused ?d4 = [])"
    unfolding oring_flushCurrentBucket_def Let_def by (simp only: prod.case d1' f g)
  have b2: "bucketsForward t ?d2 = ?n" "flushedBucketEnd t ?d2 = ?endNs" "0 < dtBucketSizeNs ?d2" "dt_ok ?d2"
    using fr ok by (auto simp: bucketsForward_def flushedBucketEnd_def dt_getCurrentBucketEndTimeNs_def d1_def recordDuration_def Let_def dt_ok_def)
  note mv = moveBucket_start[OF b2(3), of t, unfolded b2]
  have mf: "odStarted ?d3 = odStarted d" "odPaused ?d3 = odPaused d" "odConditionKeyMap ?d3 = odConditionKeyMap d"
    "dtConditionSliced ?d3 = dtConditionSliced d" "dtNested ?d3 = dtNested d" "dtStateKeyDurationMap ?d3 = m"
    using fr by (simp_all add: moveBucket_def Let_def)
  have dt3: "dt_ok ?d3" using moveBucket_ok[OF b2(4)] assms(1,2) fr(3) by (simp add: oring_ok_def)
  have e4: "dt_getCurrentBucketEndTimeNs ?d4 = dt_getCurrentBucketEndTimeNs ?d3" "dt_ok ?d4 = dt_ok ?d3"
    by (simp_all add: dt_getCurrentBucketEndTimeNs_def dt_ok_def)
  have "oring_ok ?d4 t"
    using dt3 mv(1,2) mf m(2) pz assms(1) e4 by (auto simp: oring_ok_def dt_ok_def)
  moreover have "measured ?d4 out3 t = measured d out t"
    using mv(3,5) mf pz c p1 o3(2) fr(7) by (auto simp: measured_def running_def max_def)
  ultimately show ?thesis using fl mf o3(1) mv(2) e4(1) by auto
qed

section \<open>The union of the started intervals\<close>

text \<open>
  The operations of a tracker whose condition is not sliced. The tracker's owner flushes it before each
  event if its bucket is over, and passes the current condition with every start.
\<close>

definition withOutput :: "(oring_state \<Rightarrow> oring_state) \<Rightarrow> oring_flush \<Rightarrow> oring_flush" where
  "withOutput f s = (case s of (d, out, e) \<Rightarrow> case f (d, e) of (d', e') \<Rightarrow> (d', out, e'))"

fun oring_step :: "bool \<Rightarrow> duration_op \<Rightarrow> ns \<Rightarrow> oring_flush \<Rightarrow> oring_flush" where
  "oring_step condition (NoteStart key) t s = withOutput (oring_noteStart key condition t []) s"
| "oring_step condition (NoteStop key stopAll) t s = withOutput (oring_noteStop key t stopAll) s"
| "oring_step condition NoteStopAll t s = withOutput (oring_noteStopAll t) s"
| "oring_step condition (ConditionChanged c) t s = withOutput (oring_onConditionChanged c t) s"
| "oring_step condition (StateChanged atomId newState) t s = withOutput (oring_onStateChanged t atomId newState) s"
| "oring_step condition FlushCurrentBucket t s = fst (oring_flushCurrentBucket t s)"

fun oring_run :: "(duration_op \<times> ns) list \<Rightarrow> bool \<times> oring_flush \<Rightarrow> bool \<times> oring_flush" where
  "oring_run [] s = s"
| "oring_run ((op, t) # ops) (condition, s) =
     oring_run ops (conditionAfter condition op, oring_step condition op t (fst (oring_flushIfNeeded t s)))"

text \<open>
  The specification: how often each dimension is open, and the total time during which the condition holds
  and some dimension is open.
\<close>

type_synonym opens = "dim_key \<Rightarrow> int option"

fun opens_step :: "bool \<Rightarrow> duration_op \<Rightarrow> opens \<Rightarrow> opens" where
  "opens_step nested (NoteStart key) opn = opn(key \<mapsto> (case opn key of None \<Rightarrow> 1 | Some n \<Rightarrow> n + 1))"
| "opens_step nested (NoteStop key stopAll) opn =
     (case opn key of
        None \<Rightarrow> opn
      | Some n \<Rightarrow> if stopAll \<or> \<not> nested \<or> n - 1 \<le> 0 then opn(key := None) else opn(key \<mapsto> n - 1))"
| "opens_step nested NoteStopAll opn = Map.empty"
| "opens_step nested _ opn = opn"

fun union_run :: "bool \<Rightarrow> (duration_op \<times> ns) list \<Rightarrow> bool \<times> opens \<times> ns \<times> ns \<Rightarrow> bool \<times> opens \<times> ns \<times> ns" where
  "union_run nested [] s = s"
| "union_run nested ((op, t) # ops) (condition, opn, now, tot) =
     union_run nested ops (conditionAfter condition op, opens_step nested op opn, t,
       tot + (if condition \<and> opn \<noteq> Map.empty then t - now else 0))"

definition tracks :: "bool \<Rightarrow> opens \<Rightarrow> oring_tracker \<Rightarrow> bool" where
  "tracks condition opn d \<longleftrightarrow> \<not> dtConditionSliced d \<and> odConditionKeyMap d = [] \<and>
     (if condition then odPaused d = [] \<and> map_of (odStarted d) = opn else odStarted d = [] \<and> map_of (odPaused d) = opn)"

lemma map_of_insertAll [simp]: "map_of (insertAll m kvs) k = (case map_of m k of None \<Rightarrow> map_of kvs k | Some v \<Rightarrow> Some v)"
  by (induction kvs arbitrary: m) (auto simp: insertAll_def split: option.splits if_splits)

lemma umap_ok_insertAll: "umap_ok m \<Longrightarrow> umap_ok (insertAll m kvs)"
  by (induction kvs arbitrary: m) (auto simp: insertAll_def split: prod.splits)

lemma insertAll_Nil: "insertAll m [] = m"
  by (simp add: insertAll_def)

lemma map_of_empty_iff: "map_of m = Map.empty \<longleftrightarrow> m = []"
  by (cases m) (auto simp: fun_eq_iff)

lemma delete_update_ne [simp]: "AList.update k v m \<noteq> []"
  by (cases m) auto

lemma noteStart_tracks:
  assumes "oring_ok d t" "t < dt_getCurrentBucketEndTimeNs d" "tracks condition opn d"
    and "oring_noteStart key condition t [] (d, e) = (d', e')"
  shows "oring_ok d' t \<and> measured d' out t = measured d out t \<and> tracks condition (opens_step nested (NoteStart key) opn) d' \<and>
    dtNested d' = dtNested d"
proof -
  have g: "\<not> oring_hitGuardRail key d"
    using assms(3) by (simp add: oring_hitGuardRail_def dimension_guardrail_def tracks_def)
  have "d' = (if condition then d\<lparr>odLastStartTime := (if odStarted d = [] then t else odLastStartTime d), odStarted := bumpCount key (odStarted d)\<rparr>
      else d\<lparr>odPaused := bumpCount key (odPaused d)\<rparr>)"
    using assms(3,4) g by (auto simp: oring_noteStart_def Let_def tracks_def split: if_splits)
  then show ?thesis using assms(1-3)
    by (auto simp: oring_ok_def dt_ok_def dt_getCurrentBucketEndTimeNs_def measured_def running_def tracks_def bumpCount_def fun_eq_iff)
qed

lemma stop_record_ok:
  assumes "oring_ok d t" "t < dt_getCurrentBucketEndTimeNs d" "odStarted d \<noteq> []" "umap_ok p"
  shows "oring_ok ((recordDuration t d)\<lparr>odStarted := [], odPaused := p, odConditionKeyMap := c\<rparr>) t"
    and "measured ((recordDuration t d)\<lparr>odStarted := [], odPaused := p, odConditionKeyMap := c\<rparr>) out t = measured d out t"
  using assms recordDuration_ok[of d t] recordDuration_pending[of d t]
  by (auto simp: oring_ok_def measured_def running_def values_ok_def dt_ok_def dt_getCurrentBucketEndTimeNs_def recordDuration_def Let_def)

lemma stop_keep_ok:
  assumes "oring_ok d t" "umap_ok s" "umap_ok p" "s = [] \<longleftrightarrow> odStarted d = []"
  shows "oring_ok (d\<lparr>odStarted := s, odPaused := p, odConditionKeyMap := c\<rparr>) t"
    and "measured (d\<lparr>odStarted := s, odPaused := p, odConditionKeyMap := c\<rparr>) out t = measured d out t"
  using assms by (auto simp: oring_ok_def measured_def running_def dt_ok_def dt_getCurrentBucketEndTimeNs_def)

lemma stopKey_spec:
  assumes "stopKey force key n m = (m', erased)" "umap_ok m"
  shows "umap_ok m'" "map_of m' = (if force \<or> n - 1 \<le> 0 then (map_of m)(key := None) else (map_of m)(key \<mapsto> n - 1))"
  using assms by (auto simp: stopKey_def fun_eq_iff split: if_splits)

lemma noteStop_tracks:
  assumes ok: "oring_ok d t" and e: "t < dt_getCurrentBucketEndTimeNs d" and tr: "tracks condition opn d"
    and st: "oring_noteStop key t stopAll (d, e0) = (d', e')"
  shows "oring_ok d' t \<and> measured d' out t = measured d out t \<and>
    tracks condition (opens_step (dtNested d) (NoteStop key stopAll) opn) d' \<and> dtNested d' = dtNested d"
proof (cases "opn key")
  case None
  then have "map_of (odStarted d) key = None" "map_of (odPaused d) key = None" using tr by (auto simp: tracks_def split: if_splits)
  then have "d' = d" using st by (auto simp: oring_noteStop_def Let_def)
  then show ?thesis using assms None by simp
next
  case (Some n)
  let ?f = "stopAll \<or> \<not> dtNested d"
  show ?thesis
  proof (cases condition)
    case True
    have t: "map_of (odStarted d) = opn" "odPaused d = []" "odConditionKeyMap d = []" "\<not> dtConditionSliced d"
      using tr True by (auto simp: tracks_def)
    obtain s er where s: "stopKey ?f key n (odStarted d) = (s, er)" by fastforce
    note sk = stopKey_spec[OF s]
    have ne: "odStarted d \<noteq> []" and uo: "umap_ok (odStarted d)" using Some t ok by (auto simp: oring_ok_def)
    have d': "d' = (if s = [] then recordDuration t (d\<lparr>odStarted := s, odConditionKeyMap := []\<rparr>) else d\<lparr>odStarted := s, odConditionKeyMap := []\<rparr>)"
      using st Some t s by (auto simp: oring_noteStop_def Let_def split: if_splits)
    have r: "recordDuration t (d\<lparr>odStarted := s, odPaused := [], odConditionKeyMap := []\<rparr>) = (recordDuration t d)\<lparr>odStarted := s, odPaused := [], odConditionKeyMap := []\<rparr>"
      using t by (simp add: recordDuration_def Let_def stateValuesOf_def)
    have u: "d\<lparr>odStarted := s, odConditionKeyMap := []\<rparr> = d\<lparr>odStarted := s, odPaused := [], odConditionKeyMap := []\<rparr>" using t by simp
    have "tracks condition (opens_step (dtNested d) (NoteStop key stopAll) opn) d'"
    proof -
      have "map_of s = opens_step (dtNested d) (NoteStop key stopAll) opn" using sk[OF uo] t Some by auto
      then show ?thesis using True t unfolding d' by (auto simp: tracks_def)
    qed
    then show ?thesis
      using stop_record_ok(1)[OF ok e ne, of "[]" "[]"] stop_record_ok(2)[OF ok e ne, of "[]" "[]" out]
        stop_keep_ok(1)[OF ok, of s "[]" "[]"] stop_keep_ok(2)[OF ok, of s "[]" "[]" out] sk[OF uo] ne
      unfolding d' r u by (cases "s = []") auto
  next
    case False
    have t: "map_of (odPaused d) = opn" "odStarted d = []" "odConditionKeyMap d = []" "\<not> dtConditionSliced d"
      using tr False by (auto simp: tracks_def)
    obtain p er where p: "stopKey ?f key n (odPaused d) = (p, er)" by fastforce
    have uo: "umap_ok (odPaused d)" using ok by (simp add: oring_ok_def)
    note sk = stopKey_spec[OF p uo]
    have d': "d' = d\<lparr>odStarted := [], odPaused := p, odConditionKeyMap := []\<rparr>"
      using st Some t p by (auto simp: oring_noteStop_def Let_def split: if_splits)
    have "tracks condition (opens_step (dtNested d) (NoteStop key stopAll) opn) d'"
      using False t Some sk d' by (auto simp: tracks_def fun_eq_iff)
    then show ?thesis using stop_keep_ok(1)[OF ok, of "[]" p "[]"] stop_keep_ok(2)[OF ok, of "[]" p "[]" out] sk t d' by auto
  qed
qed

lemma noteStopAll_tracks:
  assumes "oring_ok d t" "t < dt_getCurrentBucketEndTimeNs d" "tracks condition opn d"
    and "oring_noteStopAll t (d, e0) = (d', e')"
  shows "oring_ok d' t \<and> measured d' out t = measured d out t \<and> tracks condition Map.empty d' \<and> dtNested d' = dtNested d"
proof -
  have "d' = (if odStarted d = [] then d else recordDuration t d)\<lparr>odStarted := [], odPaused := [], odConditionKeyMap := []\<rparr>"
    using assms(4) by (auto simp: oring_noteStopAll_def Let_def split: if_splits)
  then show ?thesis
    using stop_record_ok(1)[OF assms(1,2), of "[]" "[]"] stop_record_ok(2)[OF assms(1,2), of "[]" "[]" out]
      stop_keep_ok(1)[OF assms(1), of "[]" "[]" "[]"] stop_keep_ok(2)[OF assms(1), of "[]" "[]" "[]" out] assms(3)
    by (cases "odStarted d = []") (auto simp: tracks_def)
qed

lemma conditionChanged_tracks:
  assumes ok: "oring_ok d t" "t < dt_getCurrentBucketEndTimeNs d" "tracks condition opn d"
    and ch: "oring_onConditionChanged c t (d, e0) = (d', e')"
  shows "oring_ok d' t \<and> measured d' out t = measured d out t \<and> tracks c opn d' \<and> dtNested d' = dtNested d"
proof -
  have u: "umap_ok (odStarted d)" "umap_ok (odPaused d)" using ok(1) by (auto simp: oring_ok_def)
  show ?thesis
  proof (cases c)
    case True
    have d': "d' = (if odPaused d = [] then d
        else d\<lparr>odLastStartTime := (if odStarted d = [] then t else odLastStartTime d), odStarted := insertAll (odStarted d) (odPaused d), odPaused := []\<rparr>)"
      using ch True by (auto simp: oring_onConditionChanged_def Let_def split: if_splits)
    have "odPaused d \<noteq> [] \<Longrightarrow> odStarted d = []" using ok(3) by (auto simp: tracks_def split: if_splits)
    moreover have "insertAll (odStarted d) (odPaused d) \<noteq> []" if "odPaused d \<noteq> []"
      using that map_of_insertAll[of "odStarted d" "odPaused d"] by (metis map_of_empty_iff option.case_eq_if option.distinct(1))
    ultimately show ?thesis using ok True u unfolding d'
      by (auto simp: oring_ok_def measured_def running_def dt_ok_def dt_getCurrentBucketEndTimeNs_def tracks_def umap_ok_insertAll
          fun_eq_iff split: if_splits)
  next
    case False
    have up: "umap_ok (insertAll (odPaused d) (odStarted d))" using u by (simp add: umap_ok_insertAll)
    have d': "d' = (if odStarted d = [] then d
        else (recordDuration t d)\<lparr>odStarted := [], odPaused := insertAll (odPaused d) (odStarted d), odConditionKeyMap := odConditionKeyMap d\<rparr>)"
      using ch False by (auto simp: oring_onConditionChanged_def Let_def recordDuration_def split: if_splits)
    then show ?thesis
      using ok False stop_record_ok(1)[OF ok(1,2) _ up, of "odConditionKeyMap d"]
        stop_record_ok(2)[OF ok(1,2) _ up, of "odConditionKeyMap d" out] unfolding d'
      by (cases "odStarted d = []") (auto simp: tracks_def fun_eq_iff split: if_splits option.split)
  qed
qed

lemma updateCurrentStateKey_frame:
  "oring_ok (updateCurrentStateKey a v d) t = oring_ok d t" "measured (updateCurrentStateKey a v d) out t = measured d out t"
  "tracks condition opn (updateCurrentStateKey a v d) = tracks condition opn d" "dtNested (updateCurrentStateKey a v d) = dtNested d"
  unfolding updateCurrentStateKey_def
  by (simp_all add: oring_ok_def measured_def running_def dt_ok_def dt_getCurrentBucketEndTimeNs_def tracks_def)

lemma stateChanged_tracks:
  assumes "oring_ok d t" "t < dt_getCurrentBucketEndTimeNs d" "tracks condition opn d"
    and "oring_onStateChanged t atomId newState (d, e0) = (d', e')"
  shows "oring_ok d' t \<and> measured d' out t = measured d out t \<and> tracks condition opn d' \<and> dtNested d' = dtNested d"
proof -
  let ?d = "if odStarted d = [] then d else (recordDuration t d)\<lparr>odLastStartTime := t\<rparr>"
  have d': "d' = updateCurrentStateKey atomId newState ?d" using assms(4) by (auto simp: oring_onStateChanged_def)
  have "oring_ok ?d t \<and> measured ?d out t = measured d out t \<and> tracks condition opn ?d \<and> dtNested ?d = dtNested d"
    using assms(1-3) recordDuration_ok[of d t] recordDuration_pending[of d t]
    by (auto simp: oring_ok_def measured_def running_def values_ok_def dt_ok_def dt_getCurrentBucketEndTimeNs_def recordDuration_def
        tracks_def Let_def)
  then show ?thesis unfolding d' by (simp only: updateCurrentStateKey_frame)
qed

text \<open>One operation at time \<open>t\<close> of a tracker whose bucket is current.\<close>

lemma oring_step_tracks:
  assumes "oring_ok d t" "t < dt_getCurrentBucketEndTimeNs d" "tracks condition opn d" "output_ok out"
  shows "\<exists>d' out' e'. oring_step condition op t (d, out, e) = (d', out', e') \<and> oring_ok d' t \<and> output_ok out' \<and>
    measured d' out' t = measured d out t \<and> tracks (conditionAfter condition op) (opens_step (dtNested d) op opn) d' \<and>
    dtNested d' = dtNested d"
proof (cases op)
  case (NoteStart key)
  obtain d' e' where "oring_noteStart key condition t [] (d, e) = (d', e')" by fastforce
  then show ?thesis using noteStart_tracks[OF assms(1-3), of key e d' e'] assms(4) NoteStart by (simp add: withOutput_def)
next
  case (NoteStop key sa)
  obtain d' e' where "oring_noteStop key t sa (d, e) = (d', e')" by fastforce
  then show ?thesis using noteStop_tracks[OF assms(1-3), of key sa e d' e'] assms(4) NoteStop by (simp add: withOutput_def)
next
  case NoteStopAll
  obtain d' e' where "oring_noteStopAll t (d, e) = (d', e')" by fastforce
  then show ?thesis using noteStopAll_tracks[OF assms(1-3), of e d' e'] assms(4) NoteStopAll by (simp add: withOutput_def)
next
  case (ConditionChanged c)
  obtain d' e' where "oring_onConditionChanged c t (d, e) = (d', e')" by fastforce
  then show ?thesis using conditionChanged_tracks[OF assms(1-3), of c e d' e'] assms(4) ConditionChanged by (simp add: withOutput_def)
next
  case (StateChanged a v)
  obtain d' e' where "oring_onStateChanged t a v (d, e) = (d', e')" by fastforce
  then show ?thesis using stateChanged_tracks[OF assms(1-3), of a v e d' e'] assms(4) StateChanged by (simp add: withOutput_def)
next
  case FlushCurrentBucket
  then show ?thesis using oring_flush_spec[OF assms(1) order.refl assms(4), of e] assms(3) by (fastforce simp: tracks_def)
qed

lemma oring_advance:
  assumes "oring_ok d now" "now \<le> t" "output_ok out" "tracks condition opn d"
  shows "\<exists>d' out' e' b. oring_flushIfNeeded t (d, out, e) = ((d', out', e'), b) \<and> oring_ok d' t \<and>
    t < dt_getCurrentBucketEndTimeNs d' \<and> output_ok out' \<and> tracks condition opn d' \<and> dtNested d' = dtNested d \<and>
    measured d' out' t = measured d out now + (if condition \<and> opn \<noteq> Map.empty then t - now else 0)"
proof -
  have m: "measured d out t = measured d out now + (if condition \<and> opn \<noteq> Map.empty then t - now else 0)"
    using assms(4) by (auto simp: measured_def running_def tracks_def map_of_empty_iff split: if_splits)
  show ?thesis
  proof (cases "t < dt_getCurrentBucketEndTimeNs d")
    case True
    have "oring_ok d t" using assms(1,2) by (auto simp: oring_ok_def split: if_splits)
    then show ?thesis using True assms m by (auto simp: oring_flushIfNeeded_def)
  next
    case False
    then have "oring_flushIfNeeded t (d, out, e) = oring_flushCurrentBucket t (d, out, e)" by (simp add: oring_flushIfNeeded_def)
    then show ?thesis using oring_flush_spec[OF assms(1-3), of e] assms(4) m by (fastforce simp: tracks_def)
  qed
qed

lemma oring_run_tracks:
  assumes "oring_ok d now" "output_ok out" "tracks condition opn d" "sorted (now # map snd ops)"
    and "oring_run ops (condition, d, out, e) = (condition', d', out', e')"
    and "union_run (dtNested d) ops (condition, opn, now, measured d out now) = (condition'', opn', now', tot')"
  shows "condition'' = condition' \<and> oring_ok d' now' \<and> output_ok out' \<and> tracks condition' opn' d' \<and> measured d' out' now' = tot'"
  using assms
proof (induction ops arbitrary: condition d out e opn now)
  case (Cons x ops)
  obtain op t where x: "x = (op, t)" by fastforce
  have t: "now \<le> t" "sorted (t # map snd ops)" using Cons.prems(4) x by auto
  obtain d1 out1 e1 b where a: "oring_flushIfNeeded t (d, out, e) = ((d1, out1, e1), b)" "oring_ok d1 t"
    "t < dt_getCurrentBucketEndTimeNs d1" "output_ok out1" "tracks condition opn d1" "dtNested d1 = dtNested d"
    and m1: "measured d1 out1 t = measured d out now + (if condition \<and> opn \<noteq> Map.empty then t - now else 0)"
    using oring_advance[OF Cons.prems(1) t(1) Cons.prems(2,3), of e] by blast
  obtain d2 out2 e2 where s: "oring_step condition op t (d1, out1, e1) = (d2, out2, e2)" "oring_ok d2 t" "output_ok out2"
    "measured d2 out2 t = measured d1 out1 t" "tracks (conditionAfter condition op) (opens_step (dtNested d) op opn) d2" "dtNested d2 = dtNested d"
    using oring_step_tracks[OF a(2,3,5,4), of op e1] a(6) by auto
  show ?case
    using Cons.IH[OF s(2,3,5) t(2), of e2] Cons.prems(5,6) a(1) s(1,4,6) m1 x by simp
qed auto

text \<open>
  Property C10. The tracker measures the union of the started intervals: over any sequence of starts,
  stops, stop-alls, condition changes, state changes and flushes in the order of time, what it has reported,
  recorded and is running adds up to exactly the time during which the condition was true and some dimension
  was open, with overlaps counted once and nesting respected. No reported bucket is empty or longer
  than the time it covers.
\<close>

theorem oring_measures_union:
  assumes "0 < bucketSizeNs" "startTimeNs + bucketNum * bucketSizeNs \<le> bucketStartNs" "bucketStartNs \<le> t0"
    and "bucketStartNs < startTimeNs + (bucketNum + 1) * bucketSizeNs" "sorted (t0 # map snd ops)"
    and "oring_run ops (condition, newOringDurationTracker (newDurationTracker i key conditionIdx nesting bucketStartNs bucketNum
           startTimeNs bucketSizeNs False fullLink trackers), [], env) = (condition', d, out, env')"
    and "union_run nesting ops (condition, Map.empty, t0, 0) = (condition'', opn, now, tot)"
  shows "reported out + pendingOf (dtStateKeyDurationMap d) + running d now = tot \<and>
    (odStarted d \<noteq> [] \<longleftrightarrow> condition' \<and> opn \<noteq> Map.empty) \<and> output_ok out"
proof -
  let ?d = "newOringDurationTracker (newDurationTracker i key conditionIdx nesting bucketStartNs bucketNum startTimeNs bucketSizeNs False fullLink trackers)"
  note defs = newOringDurationTracker_def newDurationTracker_def duration_tracker.defs oring_tracker.defs
  have ok: "oring_ok ?d t0"
    using assms(1-4) by (auto simp: oring_ok_def dt_ok_def dt_getCurrentBucketEndTimeNs_def defs values_ok_def pendingOf_def algebra_simps)
  have tr: "tracks condition Map.empty ?d" "output_ok []" by (auto simp: tracks_def defs output_ok_def)
  have z: "measured ?d [] t0 = 0" "dtNested ?d = nesting" by (simp_all add: measured_def running_def reported_def pendingOf_def defs)
  from oring_run_tracks[OF ok tr(2,1) assms(5,6)] assms(7) z
  have "tracks condition' opn d" "measured d out now = tot" "output_ok out" by auto
  then show ?thesis by (auto simp: measured_def tracks_def map_of_empty_iff split: if_splits)
qed

text \<open>Two overlapping dimensions over a bucket boundary: from 5 to 25 with a pause from 12 to 15.\<close>

theorem oring_measures_union_witness:
  "\<exists>c d out env'. oring_run [(NoteStart [], 5), (NoteStart [(undefined, UNKNOWN)], 8), (NoteStop [] False, 10), (ConditionChanged False, 12),
        (ConditionChanged True, 15), (NoteStopAll, 25)]
      (True, newOringDurationTracker (newDurationTracker 1 DEFAULT_METRIC_DIMENSION_KEY (-1) True 0 0 0 10 False False []), [],
       \<lparr>aeTrackers = [], aeMonitor = None, aeNextAddr = 0\<rparr>) = (c, d, out, env') \<and>
    reported out + pendingOf (dtStateKeyDurationMap d) + running d 25 = 17"
proof -
  let ?ops = "[(NoteStart [], 5), (NoteStart [(undefined, UNKNOWN)], 8), (NoteStop [] False, 10), (ConditionChanged False, 12),
        (ConditionChanged True, 15), (NoteStopAll, 25 :: int)]"
  let ?s = "(True, newOringDurationTracker (newDurationTracker 1 DEFAULT_METRIC_DIMENSION_KEY (-1) True 0 0 0 10 False False []), [],
       \<lparr>aeTrackers = [], aeMonitor = None, aeNextAddr = 0\<rparr>)"
  obtain c d out e where r: "oring_run ?ops ?s = (c, d, out, e)" by (metis prod_cases4)
  have u: "union_run True ?ops (True, Map.empty, 0, 0) = (True, Map.empty, 25, 17)" by (auto simp: fun_eq_iff intro: exI[of _ "[]"])
  have "reported out + pendingOf (dtStateKeyDurationMap d) + running d 25 = 17"
    using oring_measures_union[OF _ _ _ _ _ r u] by simp
  with r show ?thesis by blast
qed

end
