(* ===== verification/MaxDuration.thy ===== *)
theory MaxDuration
  imports DurationTrackers
begin

text \<open>
  \<^verbatim>\<open>bin/src/metrics/duration_helper/MaxDurationTracker.cpp\<close>: the longest duration of any internal dimension that
  ended in a bucket. \<^verbatim>\<open>std::set\<close> order in \<^verbatim>\<open>noteStopAll\<close> and the iteration order of \<^verbatim>\<open>mInfos\<close> are the order of the
  association list; they matter only for the order in which alarms are set.
\<close>

section \<open>Definitions\<close>

record max_tracker = duration_tracker +
  mdInfos :: "(dim_key, duration_info) umap"

type_synonym max_state = "max_tracker \<times> anomaly_env"

definition newMaxDurationTracker :: "duration_tracker \<Rightarrow> max_tracker" where
  "newMaxDurationTracker b = duration_tracker.extend b (max_tracker.fields [])"

definition max_hitGuardRail :: "dim_key \<Rightarrow> max_tracker \<Rightarrow> bool" where
  "max_hitGuardRail newKey d = dimension_guardrail (mdInfos d) newKey"

definition anyStarted :: "max_tracker \<Rightarrow> bool" where
  "anyStarted d = list_ex (\<lambda>(k, i). diState i = kStarted) (mdInfos d)"

definition max_predictAnomalyTimestampNs :: "max_tracker \<Rightarrow> metric_key anomaly_tracker \<Rightarrow> ns \<Rightarrow> ns" where
  "max_predictAnomalyTimestampNs d tracker currentTimestamp =
     (let maxElapsed = foldl (\<lambda>m (k, i).
            if diState i = kStarted
            then let duration = diLastDuration i + (currentTimestamp - diLastStartTime i)
                 in if duration > m then duration else m
            else m) 0 (mdInfos d);
          anomalyTimeNs = currentTimestamp + getAnomalyThreshold tracker - maxElapsed;
          refractoryEndNs = uint (getRefractoryPeriodEndsSec (dtEventKey d) tracker) * NS_PER_SEC
      in max anomalyTimeNs refractoryEndNs)"

definition max_startAnomalyAlarm :: "ns \<Rightarrow> max_tracker \<Rightarrow> anomaly_env \<Rightarrow> anomaly_env" where
  "max_startAnomalyAlarm eventTime d = startAnomalyAlarm (max_predictAnomalyTimestampNs d) eventTime d"

definition setInfo :: "dim_key \<Rightarrow> duration_info \<Rightarrow> max_tracker \<Rightarrow> max_tracker" where
  "setInfo key i d = d\<lparr>mdInfos := AList.update key i (mdInfos d)\<rparr>"

definition infoOf :: "dim_key \<Rightarrow> max_tracker \<Rightarrow> duration_info" where
  "infoOf key d = (case map_of (mdInfos d) key of None \<Rightarrow> newDurationInfo | Some i \<Rightarrow> i)"

definition max_noteStart :: "dim_key \<Rightarrow> bool \<Rightarrow> ns \<Rightarrow> (int, dim_key) umap \<Rightarrow> max_state \<Rightarrow> max_state" where
  "max_noteStart key condition eventTime conditionKey s =
     (case s of (d, e) \<Rightarrow>
        if max_hitGuardRail key d then (d, e)
        else let i0 = infoOf key d;
                 i = (if dtConditionSliced d then i0\<lparr>diConditionKeys := conditionKey\<rparr> else i0)
             in case diState i of
                  kStarted \<Rightarrow> (setInfo key (i\<lparr>diStartCount := diStartCount i + 1\<rparr>) d, e)
                | kPaused \<Rightarrow> (setInfo key (i\<lparr>diStartCount := diStartCount i + 1\<rparr>) d, e)
                | kStopped \<Rightarrow>
                    if \<not> condition
                    then (setInfo key (i\<lparr>diState := kPaused, diStartCount := 1\<rparr>) d, e)
                    else let i1 = i\<lparr>diState := kStarted, diLastStartTime := eventTime\<rparr>
                         in (setInfo key (i1\<lparr>diStartCount := 1\<rparr>) d,
                             max_startAnomalyAlarm eventTime (setInfo key i1 d) e))"

text \<open>The end of \<^verbatim>\<open>noteStop\<close>: remember the longest duration and forget a stopped dimension.\<close>

definition finishStop :: "dim_key \<Rightarrow> max_tracker \<Rightarrow> max_tracker" where
  "finishStop key d =
     (let i = infoOf key d;
          d1 = (if diLastDuration i > dtDuration d then d\<lparr>dtDuration := diLastDuration i\<rparr> else d)
      in if diState i = kStopped then d1\<lparr>mdInfos := AList.delete key (mdInfos d1)\<rparr> else d1)"

definition max_noteStop :: "dim_key \<Rightarrow> ns \<Rightarrow> bool \<Rightarrow> max_state \<Rightarrow> max_state" where
  "max_noteStop key eventTime forceStop s =
     (case s of (d, e) \<Rightarrow>
        case map_of (mdInfos d) key of
          None \<Rightarrow> (d, e)
        | Some i0 \<Rightarrow>
            let i = i0\<lparr>diStartCount := diStartCount i0 - 1\<rparr>;
                stop = (forceStop \<or> \<not> dtNested d \<or> diStartCount i \<le> 0);
                (d1, e1) =
                  (case diState i0 of
                     kStopped \<Rightarrow> (d, e)
                   | kStarted \<Rightarrow>
                       if stop
                       then let e' = stopAnomalyAlarm eventTime d e;
                                d' = setInfo key (i\<lparr>diState := kStopped,
                                       diLastDuration := diLastDuration i + (eventTime - diLastStartTime i)\<rparr>) d
                            in (d', if anyStarted d' then max_startAnomalyAlarm eventTime d' e' else e')
                       else (setInfo key i d, e)
                   | kPaused \<Rightarrow> (setInfo key (if stop then i\<lparr>diState := kStopped\<rparr> else i) d, e))
            in (finishStop key d1, e1))"

definition max_noteStopAll :: "ns \<Rightarrow> max_state \<Rightarrow> max_state" where
  "max_noteStopAll eventTime s = foldl (\<lambda>s key. max_noteStop key eventTime True s) s (map fst (mdInfos (fst s)))"

definition max_flushCurrentBucket :: "ns \<Rightarrow> max_tracker \<times> duration_output \<Rightarrow> (max_tracker \<times> duration_output) \<times> bool" where
  "max_flushCurrentBucket eventTimeNs s =
     (case s of (d, out) \<Rightarrow>
        let currentBucketEndTimeNs = flushedBucketEnd eventTimeNs d;
            infos = filter (\<lambda>(k, i). diState i \<noteq> kStopped) (mdInfos d);
            hasPendingEvent = (infos \<noteq> []);
            out1 = (if dtDuration d \<noteq> 0
                    then pushBucket (dtEventKey d) \<lparr>dbBucketStartNs = dtCurrentBucketStartTimeNs d,
                           dbBucketEndNs = currentBucketEndTimeNs, dbDuration = dtDuration d\<rparr> out
                    else out);
            d1 = (moveBucket eventTimeNs (d\<lparr>mdInfos := infos\<rparr>))\<lparr>dtDuration := 0\<rparr>
        in ((d1, out1), \<not> hasPendingEvent))"

definition max_flushIfNeeded :: "ns \<Rightarrow> max_tracker \<times> duration_output \<Rightarrow> (max_tracker \<times> duration_output) \<times> bool" where
  "max_flushIfNeeded eventTimeNs s =
     (if eventTimeNs < dt_getCurrentBucketEndTimeNs (fst s) then (s, False) else max_flushCurrentBucket eventTimeNs s)"

definition noteConditionChanged :: "bool \<Rightarrow> ns \<Rightarrow> max_state \<Rightarrow> dim_key \<Rightarrow> max_state" where
  "noteConditionChanged conditionMet timestamp s key =
     (case s of (d, e) \<Rightarrow>
        case map_of (mdInfos d) key of
          None \<Rightarrow> (d, e)
        | Some i \<Rightarrow>
            (case diState i of
               kStarted \<Rightarrow>
                 if \<not> conditionMet
                 then let e' = stopAnomalyAlarm timestamp d e;
                          d' = setInfo key (i\<lparr>diState := kPaused,
                                 diLastDuration := diLastDuration i + (timestamp - diLastStartTime i)\<rparr>) d
                      in (d', if anyStarted d' then max_startAnomalyAlarm timestamp d' e' else e')
                 else (d, e)
             | kStopped \<Rightarrow> (d, e)
             | kPaused \<Rightarrow>
                 if conditionMet
                 then let d' = setInfo key (i\<lparr>diState := kStarted, diLastStartTime := timestamp\<rparr>) d
                      in (d', max_startAnomalyAlarm timestamp d' e)
                 else (d, e)))"

definition max_onConditionChanged :: "bool \<Rightarrow> ns \<Rightarrow> max_state \<Rightarrow> max_state" where
  "max_onConditionChanged condition timestamp s =
     foldl (noteConditionChanged condition timestamp) s (map fst (mdInfos (fst s)))"

definition max_onSlicedConditionMayChange :: "condition_tracker list \<Rightarrow> ns \<Rightarrow> max_state \<Rightarrow> max_state" where
  "max_onSlicedConditionMayChange conditions timestamp s =
     foldl (\<lambda>s key.
        let d = fst s; i = infoOf key d
        in if diState i = kStopped then s
           else let conditionState = wizard_query (length conditions) conditions (nat (dtConditionTrackerIndex d)) (diConditionKeys i)
                      (\<not> dtHasLinksToAllConditionDimensionsInTracker d)
                in noteConditionChanged (conditionState = Some kTrue) timestamp s key)
       s (map fst (mdInfos (fst s)))"

text \<open>\<^verbatim>\<open>onStateChanged\<close> only logs an error.\<close>

definition max_onStateChanged :: "max_state \<Rightarrow> max_state" where
  "max_onStateChanged s = s"

section \<open>Every dimension has its own stopwatch\<close>

text \<open>
  The specification keeps an eager stopwatch per open dimension: how often it is open and how long it has
  been open while the condition was true. When it closes, the longest closed time of the bucket is
  updated; when the bucket ends, that time is reported unless it is 0.
\<close>

record stopwatches =
  swOpen :: "dim_key \<Rightarrow> (int \<times> ns) option"
  swNow :: ns
  swLongest :: ns
  swReports :: "ns list"
  swEnd :: ns

definition sw_advance :: "bool \<Rightarrow> ns \<Rightarrow> stopwatches \<Rightarrow> stopwatches" where
  "sw_advance condition t s =
     s\<lparr>swOpen := \<lambda>k. map_option (\<lambda>(n, a). (n, if condition then a + (t - swNow s) else a)) (swOpen s k), swNow := t\<rparr>"

definition sw_flush :: "ns \<Rightarrow> stopwatches \<Rightarrow> stopwatches" where
  "sw_flush sz s =
     s\<lparr>swReports := swReports s @ (if swLongest s \<noteq> 0 then [swLongest s] else []), swLongest := 0,
       swEnd := (if swNow s \<ge> swEnd s then swEnd s + ((swNow s - swEnd s) div sz + 1) * sz else swEnd s)\<rparr>"

fun sw_step :: "bool \<Rightarrow> ns \<Rightarrow> duration_op \<Rightarrow> stopwatches \<Rightarrow> stopwatches" where
  "sw_step nested sz (NoteStart k) s =
     (case swOpen s k of
        Some (n, a) \<Rightarrow> s\<lparr>swOpen := (swOpen s)(k \<mapsto> (n + 1, a))\<rparr>
      | None \<Rightarrow> if card (dom (swOpen s)) \<ge> kDimensionKeySizeHardLimit then s
                else s\<lparr>swOpen := (swOpen s)(k \<mapsto> (1, 0))\<rparr>)"
| "sw_step nested sz (NoteStop k stopAll) s =
     (case swOpen s k of
        None \<Rightarrow> s
      | Some (n, a) \<Rightarrow>
          if stopAll \<or> \<not> nested \<or> n - 1 \<le> 0
          then s\<lparr>swOpen := (swOpen s)(k := None), swLongest := max (swLongest s) a\<rparr>
          else s\<lparr>swOpen := (swOpen s)(k \<mapsto> (n - 1, a))\<rparr>)"
| "sw_step nested sz NoteStopAll s =
     s\<lparr>swOpen := Map.empty, swLongest := Max (insert (swLongest s) (snd ` ran (swOpen s)))\<rparr>"
| "sw_step nested sz FlushCurrentBucket s = sw_flush sz s"
| "sw_step nested sz _ s = s"

fun sw_run :: "bool \<Rightarrow> ns \<Rightarrow> (duration_op \<times> ns) list \<Rightarrow> bool \<times> stopwatches \<Rightarrow> bool \<times> stopwatches" where
  "sw_run nested sz [] s = s"
| "sw_run nested sz ((op, t) # ops) (condition, s) =
     sw_run nested sz ops (conditionAfter condition op,
       let s1 = sw_advance condition t s
       in sw_step nested sz op (if t \<ge> swEnd s1 then sw_flush sz s1 else s1))"

text \<open>The same runs of the tracker.\<close>

type_synonym max_run_state = "max_tracker \<times> duration_output \<times> anomaly_env"

definition onState :: "(max_state \<Rightarrow> max_state) \<Rightarrow> max_run_state \<Rightarrow> max_run_state" where
  "onState f s = (case s of (d, out, e) \<Rightarrow> case f (d, e) of (d', e') \<Rightarrow> (d', out, e'))"

definition onOutput :: "(max_tracker \<times> duration_output \<Rightarrow> (max_tracker \<times> duration_output) \<times> bool) \<Rightarrow> max_run_state \<Rightarrow> max_run_state" where
  "onOutput f s = (case s of (d, out, e) \<Rightarrow> case f (d, out) of ((d', out'), b) \<Rightarrow> (d', out', e))"

fun max_step :: "bool \<Rightarrow> duration_op \<Rightarrow> ns \<Rightarrow> max_run_state \<Rightarrow> max_run_state" where
  "max_step condition (NoteStart k) t s = onState (max_noteStart k condition t []) s"
| "max_step condition (NoteStop k stopAll) t s = onState (max_noteStop k t stopAll) s"
| "max_step condition NoteStopAll t s = onState (max_noteStopAll t) s"
| "max_step condition (ConditionChanged c) t s = onState (max_onConditionChanged c t) s"
| "max_step condition (StateChanged atomId newState) t s = onState max_onStateChanged s"
| "max_step condition FlushCurrentBucket t s = onOutput (max_flushCurrentBucket t) s"

fun max_run :: "(duration_op \<times> ns) list \<Rightarrow> bool \<times> max_run_state \<Rightarrow> bool \<times> max_run_state" where
  "max_run [] s = s"
| "max_run ((op, t) # ops) (condition, s) =
     max_run ops (conditionAfter condition op, max_step condition op t (onOutput (max_flushIfNeeded t) s))"

definition reportsOf :: "metric_key \<Rightarrow> duration_output \<Rightarrow> ns list" where
  "reportsOf key out = (case map_of out key of None \<Rightarrow> [] | Some bs \<Rightarrow> map dbDuration bs)"

text \<open>The lazy stopwatch of a dimension stands for the eager one. With nesting the condition is fixed, so
  nothing was recorded while the dimension is open.\<close>

definition info_rel :: "bool \<Rightarrow> bool \<Rightarrow> ns \<Rightarrow> (int \<times> ns) option \<Rightarrow> duration_info option \<Rightarrow> bool" where
  "info_rel nested condition now w i =
     (case (w, i) of
        (None, None) \<Rightarrow> True
      | (Some (n, a), Some x) \<Rightarrow> diStartCount x = n \<and> diLastDuration x \<le> a \<and> 0 \<le> diLastDuration x \<and>
          (nested \<longrightarrow> diLastDuration x = 0) \<and>
          (if condition then diState x = kStarted \<and> a = diLastDuration x + (now - diLastStartTime x)
           else diState x = kPaused \<and> a = diLastDuration x)
      | _ \<Rightarrow> False)"

definition max_rel :: "bool \<Rightarrow> max_tracker \<Rightarrow> stopwatches \<Rightarrow> bool" where
  "max_rel condition d s \<longleftrightarrow> umap_ok (mdInfos d) \<and> dtDuration d = swLongest s \<and> 0 \<le> swLongest s \<and>
     dt_getCurrentBucketEndTimeNs d = swEnd s \<and> 0 < dtBucketSizeNs d \<and> \<not> dtConditionSliced d \<and>
     (\<forall>k. info_rel (dtNested d) condition (swNow s) (swOpen s k) (map_of (mdInfos d) k))"

lemma info_rel_simps [simp]:
  "info_rel nested c now w None \<longleftrightarrow> w = None" "info_rel nested c now None i \<longleftrightarrow> i = None"
  by (auto simp: info_rel_def split: option.splits)

lemma max_rel_dom: "max_rel c d s \<Longrightarrow> card (dom (swOpen s)) = length (mdInfos d)"
proof -
  assume r: "max_rel c d s"
  then have "swOpen s k = None \<longleftrightarrow> map_of (mdInfos d) k = None" for k
    unfolding max_rel_def by (metis info_rel_simps)
  then have "dom (swOpen s) = set (map fst (mdInfos d))" by (auto simp: dom_def map_of_eq_None_iff)
  then show ?thesis using r by (metis card_distinct distinct_card length_map max_rel_def umap_ok_def)
qed

lemma setInfo_frame [simp]:
  "dtDuration (setInfo k i d) = dtDuration d" "dtNested (setInfo k i d) = dtNested d" "dtConditionSliced (setInfo k i d) = dtConditionSliced d"
  "dt_getCurrentBucketEndTimeNs (setInfo k i d) = dt_getCurrentBucketEndTimeNs d" "mdInfos (setInfo k i d) = AList.update k i (mdInfos d)"
  "dtBucketSizeNs (setInfo k i d) = dtBucketSizeNs d" "dtEventKey (setInfo k i d) = dtEventKey d"
  by (simp_all add: setInfo_def dt_getCurrentBucketEndTimeNs_def)

lemma max_rel_setInfo:
  assumes "max_rel c d s" "info_rel (dtNested d) c (swNow s) w (Some i)"
  shows "max_rel c (setInfo k i d) (s\<lparr>swOpen := (swOpen s)(k := w)\<rparr>)"
  using assms by (auto simp: max_rel_def)

lemma noteStart_rel:
  assumes r: "max_rel c d s" and e: "max_noteStart k c (swNow s) [] (d, e) = (d', e')"
  shows "max_rel c d' (sw_step nested sz (NoteStart k) s)"
proof (cases "map_of (mdInfos d) k")
  case None
  then have w: "swOpen s k = None" using r by (auto simp: max_rel_def dest!: spec[of _ k])
  have g: "max_hitGuardRail k d \<longleftrightarrow> card (dom (swOpen s)) \<ge> kDimensionKeySizeHardLimit"
    using None max_rel_dom[OF r]
    by (auto simp: max_hitGuardRail_def dimension_guardrail_def kDimensionKeySizeSoftLimit_def kDimensionKeySizeHardLimit_def)
  show ?thesis
  proof (cases "max_hitGuardRail k d")
    case True
    then show ?thesis using e r w g by (simp add: max_noteStart_def)
  next
    case False
    then have "\<exists>i. d' = setInfo k i d \<and> info_rel (dtNested d) c (swNow s) (Some (1, 0)) (Some i)"
      using e r None by (auto simp: max_noteStart_def Let_def infoOf_def newDurationInfo_def max_rel_def info_rel_def split: if_splits)
    then show ?thesis using max_rel_setInfo[OF r] False g w by auto
  qed
next
  case (Some i)
  obtain n a where w: "swOpen s k = Some (n, a)" using Some r
    by (auto simp: max_rel_def info_rel_def dest!: spec[of _ k] split: option.splits)
  have ir: "info_rel (dtNested d) c (swNow s) (Some (n, a)) (Some i)" using r Some w by (auto simp: max_rel_def dest: spec[of _ k])
  have "\<not> max_hitGuardRail k d" using Some by (simp add: max_hitGuardRail_def dimension_guardrail_def)
  then have "d' = setInfo k (i\<lparr>diStartCount := diStartCount i + 1\<rparr>) d"
    using e ir Some r by (auto simp: max_noteStart_def Let_def infoOf_def info_rel_def max_rel_def split: if_splits)
  moreover have "info_rel (dtNested d) c (swNow s) (Some (n + 1, a)) (Some (i\<lparr>diStartCount := diStartCount i + 1\<rparr>))"
    using ir by (auto simp: info_rel_def)
  ultimately show ?thesis using max_rel_setInfo[OF r] w by simp
qed

lemma finishStop_stopped:
  assumes "diState i = kStopped"
  shows "finishStop k (setInfo k i d) = d\<lparr>mdInfos := AList.delete k (AList.update k i (mdInfos d)), dtDuration := max (dtDuration d) (diLastDuration i)\<rparr>"
  using assms by (auto simp: finishStop_def Let_def infoOf_def setInfo_def max_def)

lemma max_rel_remove:
  assumes "max_rel c d s"
  shows "max_rel c (d\<lparr>mdInfos := AList.delete k (AList.update k i (mdInfos d)), dtDuration := max (dtDuration d) a\<rparr>)
    (s\<lparr>swOpen := (swOpen s)(k := None), swLongest := max (swLongest s) a\<rparr>)"
  using assms by (auto simp: max_rel_def dt_getCurrentBucketEndTimeNs_def)

lemma noteStop_rel:
  assumes r: "max_rel c d s" and e: "max_noteStop k (swNow s) sa (d, e) = (d', e')"
  shows "max_rel c d' (sw_step (dtNested d) sz (NoteStop k sa) s) \<and> dtNested d' = dtNested d \<and>
    dtEventKey d' = dtEventKey d \<and> dtBucketSizeNs d' = dtBucketSizeNs d"
proof (cases "map_of (mdInfos d) k")
  case None
  then have "swOpen s k = None" using r by (auto simp: max_rel_def dest!: spec[of _ k])
  then show ?thesis using e r None by (simp add: max_noteStop_def)
next
  case (Some i)
  obtain n a where w: "swOpen s k = Some (n, a)" using Some r
    by (auto simp: max_rel_def info_rel_def dest!: spec[of _ k] split: option.splits)
  have ir: "info_rel (dtNested d) c (swNow s) (Some (n, a)) (Some i)" using r Some w by (auto simp: max_rel_def dest: spec[of _ k])
  let ?stop = "sa \<or> \<not> dtNested d \<or> n - 1 \<le> 0"
  show ?thesis
  proof (cases ?stop)
    case True
    obtain j where j: "diState j = kStopped" "diLastDuration j = a" "d' = finishStop k (setInfo k j d)"
    proof -
      let ?j = "if c then i\<lparr>diStartCount := diStartCount i - 1, diState := kStopped, diLastDuration := diLastDuration i + (swNow s - diLastStartTime i)\<rparr>
        else i\<lparr>diStartCount := diStartCount i - 1, diState := kStopped\<rparr>"
      show thesis by (rule that[of ?j]) (use e Some True ir in \<open>auto simp: max_noteStop_def Let_def info_rel_def split: if_splits\<close>)
    qed
    then show ?thesis using max_rel_remove[OF r, where k = k and i = j and a = a] True w by (auto simp: finishStop_stopped)
  next
    case False
    then have z: "diLastDuration i = 0" using ir by (auto simp: info_rel_def)
    have st: "diState i = (if c then kStarted else kPaused)" using ir by (auto simp: info_rel_def)
    let ?i = "i\<lparr>diStartCount := diStartCount i - 1\<rparr>"
    have n: "diStartCount i = n" using ir by (simp add: info_rel_def)
    have "finishStop k (setInfo k ?i d) = setInfo k ?i d"
      using z st r by (auto simp: finishStop_def Let_def infoOf_def max_rel_def)
    then have "d' = setInfo k ?i d" using e Some False st n by (auto simp: max_noteStop_def Let_def split: if_splits)
    moreover have "info_rel (dtNested d) c (swNow s) (Some (n - 1, a)) (Some ?i)" using ir by (auto simp: info_rel_def)
    ultimately show ?thesis using max_rel_setInfo[OF r] w False by simp
  qed
qed

lemma noteStops_rel:
  assumes "max_rel c d s" "foldl (\<lambda>s key. max_noteStop key t True s) (d, e) ks = (d', e')" "swNow s = t"
  shows "max_rel c d' (foldl (\<lambda>s key. sw_step (dtNested d) sz (NoteStop key True) s) s ks) \<and> dtNested d' = dtNested d \<and>
    dtEventKey d' = dtEventKey d \<and> dtBucketSizeNs d' = dtBucketSizeNs d"
  using assms
proof (induction ks arbitrary: d e s)
  case (Cons k ks)
  obtain d1 e1 where 1: "max_noteStop k t True (d, e) = (d1, e1)" by fastforce
  have "swNow (sw_step (dtNested d) sz (NoteStop k True) s) = t" using Cons.prems(3) by (auto split: option.split)
  then show ?case
    using Cons.IH[of d1 "sw_step (dtNested d) sz (NoteStop k True) s" e1] noteStop_rel[OF Cons.prems(1), of k True e d1 e1 sz] 1 Cons.prems by simp
qed auto

lemma Max_insert_insert: "finite A \<Longrightarrow> Max (insert (max x y) A) = Max (insert x (insert y A :: int set))"
  by (cases "A = {}") (auto simp: max.assoc)

lemma sw_stops:
  "foldl (\<lambda>s key. sw_step nested sz (NoteStop key True) s) s ks =
     s\<lparr>swOpen := \<lambda>k. if k \<in> set ks then None else swOpen s k,
       swLongest := Max (insert (swLongest s) {a. \<exists>k n. k \<in> set ks \<and> swOpen s k = Some (n, a)})\<rparr>"
proof (induction ks arbitrary: s)
  case (Cons k ks)
  let ?A = "\<lambda>s ks. {a. \<exists>k n. k \<in> set ks \<and> swOpen s k = Some (n, a)}"
  have fin: "finite (?A s ks)" for s ks
    by (rule finite_subset[of _ "(\<lambda>k. snd (the (swOpen s k))) ` set ks"]) (auto simp: image_iff, force)
  show ?case
  proof (cases "swOpen s k")
    case None
    then have "?A s (k # ks) = ?A s ks" by force
    then show ?thesis using Cons.IH[of s] None by (auto simp: fun_eq_iff)
  next
    case (Some na)
    obtain n a where na: "na = (n, a)" by fastforce
    let ?s = "s\<lparr>swOpen := (swOpen s)(k := None), swLongest := max (swLongest s) a\<rparr>"
    have "insert a (?A ?s ks) = ?A s (k # ks)" using Some na by (auto split: if_splits) (metis Pair_inject option.inject)+
    moreover have "Max (insert (max (swLongest s) a) (?A ?s ks)) = Max (insert (swLongest s) (insert a (?A ?s ks)))"
      by (rule Max_insert_insert[OF fin])
    ultimately show ?thesis using Cons.IH[of ?s] Some na by (auto simp: fun_eq_iff)
  qed
qed simp

lemma noteStopAll_rel:
  assumes r: "max_rel c d s" and e: "max_noteStopAll (swNow s) (d, e) = (d', e')"
  shows "max_rel c d' (sw_step (dtNested d) sz NoteStopAll s) \<and> dtNested d' = dtNested d \<and>
    dtEventKey d' = dtEventKey d \<and> dtBucketSizeNs d' = dtBucketSizeNs d"
proof -
  let ?ks = "map fst (mdInfos d)"
  have o: "swOpen s k = None" if "k \<notin> set ?ks" for k
    using r that by (auto simp: max_rel_def map_of_eq_None_iff[THEN iffD2] dest!: spec[of _ k])
  have "foldl (\<lambda>s key. sw_step (dtNested d) sz (NoteStop key True) s) s ?ks = sw_step (dtNested d) sz NoteStopAll s"
  proof -
    have "(\<lambda>k. if k \<in> set ?ks then None else swOpen s k) = Map.empty" using o by (auto simp: fun_eq_iff)
    moreover have "{a. \<exists>k n. k \<in> set ?ks \<and> swOpen s k = Some (n, a)} = snd ` ran (swOpen s)"
      using o by (force simp: ran_def image_iff)
    ultimately show ?thesis unfolding sw_stops by simp
  qed
  then show ?thesis using noteStops_rel[OF r, of "swNow s" e ?ks d' e' sz] e by (simp add: max_noteStopAll_def)
qed

lemma conditionChanges_spec:
  assumes "foldl (noteConditionChanged c t) (d, e) ks = (d', e')" "distinct ks" "umap_ok (mdInfos d)"
    and "\<forall>k i. map_of (mdInfos d) k = Some i \<longrightarrow> diState i = (if c0 then kStarted else kPaused)"
  shows "\<exists>m. d' = d\<lparr>mdInfos := m\<rparr> \<and> umap_ok m \<and>
    (\<forall>k. map_of m k = (if k \<in> set ks \<and> c \<noteq> c0
        then map_option (\<lambda>i. if c then i\<lparr>diState := kStarted, diLastStartTime := t\<rparr>
               else i\<lparr>diState := kPaused, diLastDuration := diLastDuration i + (t - diLastStartTime i)\<rparr>) (map_of (mdInfos d) k)
        else map_of (mdInfos d) k))"
  using assms
proof (induction ks arbitrary: d' e' rule: rev_induct)
  case (snoc k ks)
  let ?f = "\<lambda>i. if c then i\<lparr>diState := kStarted, diLastStartTime := t\<rparr>
               else i\<lparr>diState := kPaused, diLastDuration := diLastDuration i + (t - diLastStartTime i)\<rparr>"
  obtain d1 e1 where 1: "foldl (noteConditionChanged c t) (d, e) ks = (d1, e1)" by fastforce
  obtain m where m: "d1 = d\<lparr>mdInfos := m\<rparr>" "umap_ok m"
    and mo: "\<forall>k. map_of m k = (if k \<in> set ks \<and> c \<noteq> c0 then map_option ?f (map_of (mdInfos d) k) else map_of (mdInfos d) k)"
    using snoc.IH[OF 1] snoc.prems by auto
  have k: "map_of m k = map_of (mdInfos d) k" using mo snoc.prems(2) by auto
  have st: "noteConditionChanged c t (d1, e1) k = (d', e')" using snoc.prems(1) 1 by simp
  show ?case
  proof (cases "map_of (mdInfos d) k")
    case None
    then have "d' = d1" using st k m by (simp add: noteConditionChanged_def)
    then show ?thesis using m mo None by (intro exI[of _ m]) auto
  next
    case (Some i)
    then have s: "diState i = (if c0 then kStarted else kPaused)" using snoc.prems(4) by blast
    have "d' = (if c = c0 then d1 else setInfo k (?f i) d1)"
      using st Some k m s by (auto simp: noteConditionChanged_def Let_def split: if_splits)
    then show ?thesis using m mo Some snoc.prems(2)
      by (intro exI[of _ "if c = c0 then m else AList.update k (?f i) m"]) (auto simp: setInfo_def)
  qed
qed (auto intro!: exI[of _ "mdInfos d"])

lemma conditionChanged_rel:
  assumes r: "max_rel c0 d s" and e: "max_onConditionChanged c (swNow s) (d, e) = (d', e')" and nn: "\<not> dtNested d"
  shows "max_rel c d' s \<and> dtNested d' = dtNested d \<and> dtEventKey d' = dtEventKey d \<and> dtBucketSizeNs d' = dtBucketSizeNs d"
proof -
  have u: "umap_ok (mdInfos d)" using r by (simp add: max_rel_def)
  have st: "\<forall>k i. map_of (mdInfos d) k = Some i \<longrightarrow> diState i = (if c0 then kStarted else kPaused)"
  proof (intro allI impI)
    fix k i assume i: "map_of (mdInfos d) k = Some i"
    have "info_rel (dtNested d) c0 (swNow s) (swOpen s k) (map_of (mdInfos d) k)" using r by (simp add: max_rel_def)
    then show "diState i = (if c0 then kStarted else kPaused)" using i by (auto simp: info_rel_def split: option.splits)
  qed
  obtain m where m: "d' = d\<lparr>mdInfos := m\<rparr>" "umap_ok m"
    and mo: "\<forall>k. map_of m k = (if k \<in> set (map fst (mdInfos d)) \<and> c \<noteq> c0
        then map_option (\<lambda>i. if c then i\<lparr>diState := kStarted, diLastStartTime := swNow s\<rparr>
               else i\<lparr>diState := kPaused, diLastDuration := diLastDuration i + (swNow s - diLastStartTime i)\<rparr>) (map_of (mdInfos d) k)
        else map_of (mdInfos d) k)"
    using conditionChanges_spec[of c "swNow s" d e "map fst (mdInfos d)" d' e' c0] e u st
    by (auto simp: max_onConditionChanged_def umap_ok_def)
  have "info_rel (dtNested d) c (swNow s) (swOpen s k) (map_of m k)" for k
  proof (cases "map_of (mdInfos d) k")
    case None
    then show ?thesis using mo r by (auto simp: max_rel_def dest: spec[of _ k])
  next
    case (Some i)
    then have "k \<in> set (map fst (mdInfos d))" by (metis list.set_map map_of_eq_None_iff option.distinct(1))
    moreover have "info_rel (dtNested d) c0 (swNow s) (swOpen s k) (Some i)" using r Some by (auto simp: max_rel_def dest: spec[of _ k])
    ultimately show ?thesis using mo Some nn
      by (cases "c = c0") (auto simp: info_rel_def split: option.splits if_splits)
  qed
  then show ?thesis using r m by (auto simp: max_rel_def dt_getCurrentBucketEndTimeNs_def)
qed

lemma max_flush_rel:
  assumes r: "max_rel c d s" and e: "max_flushCurrentBucket (swNow s) (d, out) = ((d', out'), b)"
  shows "max_rel c d' (sw_flush (dtBucketSizeNs d) s) \<and> dtNested d' = dtNested d \<and> dtEventKey d' = dtEventKey d \<and>
    dtBucketSizeNs d' = dtBucketSizeNs d \<and>
    reportsOf (dtEventKey d) out' = reportsOf (dtEventKey d) out @ (if swLongest s \<noteq> 0 then [swLongest s] else [])"
proof -
  have "diState i \<noteq> kStopped" if "(k, i) \<in> set (mdInfos d)" for k i
  proof -
    have "map_of (mdInfos d) k = Some i" using r that by (simp add: max_rel_def map_of_Some_iff_mem)
    moreover have "info_rel (dtNested d) c (swNow s) (swOpen s k) (map_of (mdInfos d) k)" using r by (simp add: max_rel_def)
    ultimately show ?thesis by (auto simp: info_rel_def split: option.splits if_splits)
  qed
  then have "filter (\<lambda>(k, i). diState i \<noteq> kStopped) (mdInfos d) = mdInfos d" by (intro filter_True) auto
  then have d': "d' = (moveBucket (swNow s) d)\<lparr>dtDuration := 0\<rparr>"
    and out': "out' = (if dtDuration d \<noteq> 0 then pushBucket (dtEventKey d) \<lparr>dbBucketStartNs = dtCurrentBucketStartTimeNs d,
        dbBucketEndNs = flushedBucketEnd (swNow s) d, dbDuration = dtDuration d\<rparr> out else out)"
    using e by (auto simp: max_flushCurrentBucket_def Let_def)
  have en: "dt_getCurrentBucketEndTimeNs d' = swEnd (sw_flush (dtBucketSizeNs d) s)"
    using r next_bucket_bounds(1)[of "dtBucketSizeNs d" "swEnd s" "swNow s"] unfolding d'
    by (auto simp: max_rel_def moveBucket_def bucketsForward_def Let_def sw_flush_def dt_getCurrentBucketEndTimeNs_def algebra_simps)
  have "mdInfos d' = mdInfos d" "dtNested d' = dtNested d" "dtConditionSliced d' = dtConditionSliced d" "dtDuration d' = 0"
    "dtEventKey d' = dtEventKey d" "dtBucketSizeNs d' = dtBucketSizeNs d"
    unfolding d' by (simp_all add: moveBucket_def Let_def)
  then show ?thesis using r en out' by (auto simp: max_rel_def sw_flush_def reportsOf_def pushBucket_def split: option.split)
qed

text \<open>One operation, when the bucket is current.\<close>

fun changesCondition :: "duration_op \<Rightarrow> bool" where
  "changesCondition (ConditionChanged c) = True"
| "changesCondition _ = False"

definition max_same :: "max_tracker \<Rightarrow> max_tracker \<Rightarrow> bool" where
  "max_same d' d \<longleftrightarrow> dtNested d' = dtNested d \<and> dtEventKey d' = dtEventKey d \<and> dtBucketSizeNs d' = dtBucketSizeNs d"

lemma swNow_step: "swNow (sw_step nested sz op s) = swNow s"
  by (cases op) (auto simp: sw_flush_def split: option.split)

lemma sw_reports_keep: "swReports (sw_step nested sz (NoteStart k) s) = swReports s"
  by (auto split: option.split)

lemma max_step_rel:
  assumes r: "max_rel c d s" and n: "dtNested d \<longrightarrow> \<not> changesCondition op" and rep: "reportsOf (dtEventKey d) out = swReports s"
    and st: "max_step c op (swNow s) (d, out, e) = (d', out', e')"
  shows "max_rel (conditionAfter c op) d' (sw_step (dtNested d) (dtBucketSizeNs d) op s) \<and> max_same d' d \<and>
    reportsOf (dtEventKey d) out' = swReports (sw_step (dtNested d) (dtBucketSizeNs d) op s)"
proof (cases op)
  case (NoteStart k)
  have "max_noteStart k c (swNow s) [] (d, e) = (d', e')" "out' = out" using st NoteStart by (auto simp: onState_def split: prod.splits)
  moreover have "max_same (fst (max_noteStart k c t ck (d, e))) d" for t ck
    by (auto simp: max_noteStart_def Let_def max_same_def split: duration_state.split)
  then have "max_same d' d" using calculation(1) by (metis fst_conv)
  ultimately show ?thesis using noteStart_rel[OF r, of k e d' e'] rep
    unfolding NoteStart conditionAfter.simps sw_reports_keep by blast
next
  case (NoteStop k sa)
  then show ?thesis using noteStop_rel[OF r, of k sa e d' e' "dtBucketSizeNs d"] rep st
    by (auto simp: onState_def max_same_def split: prod.splits option.split)
next
  case NoteStopAll
  then show ?thesis using noteStopAll_rel[OF r, of e d' e' "dtBucketSizeNs d"] rep st
    by (auto simp: onState_def max_same_def split: prod.splits)
next
  case (ConditionChanged c')
  then show ?thesis using conditionChanged_rel[OF r, of c' e d' e'] rep st n
    by (auto simp: onState_def max_same_def split: prod.splits)
next
  case (StateChanged a v)
  then show ?thesis using r rep st by (simp add: onState_def max_onStateChanged_def max_same_def)
next
  case FlushCurrentBucket
  then show ?thesis using max_flush_rel[OF r, of out d' out'] rep st
    by (auto simp: onOutput_def max_same_def sw_flush_def split: prod.splits)
qed

lemma max_advance_rel:
  assumes r: "max_rel c d s" and t: "swNow s \<le> t" and rep: "reportsOf (dtEventKey d) out = swReports s"
    and st: "onOutput (max_flushIfNeeded t) (d, out, e) = (d', out', e')"
  defines "s1 \<equiv> sw_advance c t s"
  defines "s2 \<equiv> (if t \<ge> swEnd s1 then sw_flush (dtBucketSizeNs d) s1 else s1)"
  shows "max_rel c d' s2 \<and> max_same d' d \<and> reportsOf (dtEventKey d) out' = swReports s2 \<and> swNow s2 = t"
proof -
  have "info_rel (dtNested d) c t (swOpen s1 k) (map_of (mdInfos d) k)" for k
  proof -
    have "info_rel (dtNested d) c (swNow s) (swOpen s k) (map_of (mdInfos d) k)" using r by (simp add: max_rel_def)
    then show ?thesis using t by (auto simp: info_rel_def s1_def sw_advance_def split: option.splits if_splits)
  qed
  then have r1: "max_rel c d s1" using r by (simp add: max_rel_def s1_def sw_advance_def)
  have s1: "swNow s1 = t" "swReports s1 = swReports s" by (simp_all add: s1_def sw_advance_def)
  have en: "dt_getCurrentBucketEndTimeNs d = swEnd s1" using r1 by (simp add: max_rel_def)
  show ?thesis
  proof (cases "t \<ge> swEnd s1")
    case True
    then show ?thesis using max_flush_rel[OF r1, of out d' out'] s1 st rep en
      by (auto simp: s2_def onOutput_def max_flushIfNeeded_def max_same_def sw_flush_def split: prod.splits)
  next
    case False
    then show ?thesis using r1 s1 st rep en by (auto simp: s2_def onOutput_def max_flushIfNeeded_def max_same_def)
  qed
qed

lemma max_run_rel:
  assumes "max_rel c d s" "dtNested d \<longrightarrow> (\<forall>x \<in> set ops. \<not> changesCondition (fst x))" "reportsOf (dtEventKey d) out = swReports s"
    and "sorted (swNow s # map snd ops)" "max_run ops (c, d, out, e) = (c', d', out', e')"
    and "sw_run (dtNested d) (dtBucketSizeNs d) ops (c, s) = (c'', s')"
  shows "c'' = c' \<and> max_rel c' d' s' \<and> reportsOf (dtEventKey d) out' = swReports s'"
  using assms
proof (induction ops arbitrary: c d out e s)
  case (Cons x ops)
  obtain op t where x: "x = (op, t)" by fastforce
  obtain d1 out1 e1 where 1: "onOutput (max_flushIfNeeded t) (d, out, e) = (d1, out1, e1)" by (metis prod_cases3)
  obtain d2 out2 e2 where 2: "max_step c op t (d1, out1, e1) = (d2, out2, e2)" by (metis prod_cases3)
  let ?s1 = "sw_advance c t s"
  let ?s2 = "if t \<ge> swEnd ?s1 then sw_flush (dtBucketSizeNs d) ?s1 else ?s1"
  have t: "swNow s \<le> t" "sorted (t # map snd ops)" using Cons.prems(4) x by auto
  have a: "max_rel c d1 ?s2" "max_same d1 d" "reportsOf (dtEventKey d) out1 = swReports ?s2" "swNow ?s2 = t"
    using max_advance_rel[OF Cons.prems(1) t(1) Cons.prems(3) 1] by auto
  let ?s3 = "sw_step (dtNested d) (dtBucketSizeNs d) op ?s2"
  have b: "max_rel (conditionAfter c op) d2 ?s3" "max_same d2 d" "reportsOf (dtEventKey d) out2 = swReports ?s3"
    using max_step_rel[OF a(1), of op out1 e1 d2 out2 e2] a 2 Cons.prems(2) x by (auto simp: max_same_def)
  have "swNow ?s3 = t" using a(4) by (simp only: swNow_step)
  then show ?case
    using Cons.IH[OF b(1), of out2 e2] b Cons.prems(2,5,6) t(2) x 1 2 by (auto simp: max_same_def Let_def)
qed auto



text \<open>
  Fact. A nested dimension that is paused and then stopped once, but stays open, is reported although it has not
  ended: \<^verbatim>\<open>noteStop\<close> compares its recorded time with the maximum whether or not the dimension has stopped.
\<close>

theorem max_nested_stop_reports_open:
  "\<exists>d out e. max_run [(NoteStart [], 1), (NoteStart [], 2), (ConditionChanged False, 6), (NoteStop [] False, 7), (FlushCurrentBucket, 8)]
      (True, newMaxDurationTracker (newDurationTracker 1 DEFAULT_METRIC_DIMENSION_KEY (-1) True 0 0 0 10 False False []), [],
       \<lparr>aeTrackers = [], aeMonitor = None, aeNextAddr = 0\<rparr>) = (False, d, out, e) \<and>
    reportsOf DEFAULT_METRIC_DIMENSION_KEY out = [5] \<and> map_of (mdInfos d) [] \<noteq> None"
  by (simp add: newMaxDurationTracker_def newDurationTracker_def duration_tracker.defs max_tracker.defs onState_def onOutput_def
      max_flushIfNeeded_def dt_getCurrentBucketEndTimeNs_def max_noteStart_def max_hitGuardRail_def dimension_guardrail_def
      kDimensionKeySizeSoftLimit_def infoOf_def newDurationInfo_def setInfo_def max_startAnomalyAlarm_def startAnomalyAlarm_def
      stopAnomalyAlarm_def max_onConditionChanged_def noteConditionChanged_def anyStarted_def max_noteStop_def finishStop_def
      max_flushCurrentBucket_def flushedBucketEnd_def moveBucket_def bucketsForward_def pushBucket_def reportsOf_def Let_def)

end
