(* ===== verification/DurationMetric.thy ===== *)
theory DurationMetric
  imports OringDuration MaxDuration
begin

text \<open>
  \<^verbatim>\<open>bin/src/metrics/DurationMetricProducer.cpp\<close>: one duration tracker per dimension in what, created at the first
  start and removed at a bucket boundary once nothing is open. The state of an operation is the metric with the
  shared anomaly trackers. Iterations over \<^verbatim>\<open>mCurrentSlicedDurationTrackerMap\<close> follow the association list.
\<close>

section \<open>Trackers of either kind\<close>

datatype duration_tracker_ptr = OringTracker oring_tracker | MaxTracker max_tracker

type_synonym tracker_state = "duration_tracker_ptr \<times> anomaly_env"

fun onEither :: "(oring_state \<Rightarrow> oring_state) \<Rightarrow> (max_state \<Rightarrow> max_state) \<Rightarrow> tracker_state \<Rightarrow> tracker_state" where
  "onEither f g (OringTracker d, e) = (case f (d, e) of (d', e') \<Rightarrow> (OringTracker d', e'))"
| "onEither f g (MaxTracker d, e) = (case g (d, e) of (d', e') \<Rightarrow> (MaxTracker d', e'))"

definition tr_noteStart :: "dim_key \<Rightarrow> bool \<Rightarrow> ns \<Rightarrow> (int, dim_key) umap \<Rightarrow> tracker_state \<Rightarrow> tracker_state" where
  "tr_noteStart key condition t ck = onEither (oring_noteStart key condition t ck) (max_noteStart key condition t ck)"

definition tr_noteStop :: "dim_key \<Rightarrow> ns \<Rightarrow> bool \<Rightarrow> tracker_state \<Rightarrow> tracker_state" where
  "tr_noteStop key t stopAll = onEither (oring_noteStop key t stopAll) (max_noteStop key t stopAll)"

definition tr_noteStopAll :: "ns \<Rightarrow> tracker_state \<Rightarrow> tracker_state" where
  "tr_noteStopAll t = onEither (oring_noteStopAll t) (max_noteStopAll t)"

definition tr_onConditionChanged :: "bool \<Rightarrow> ns \<Rightarrow> tracker_state \<Rightarrow> tracker_state" where
  "tr_onConditionChanged c t = onEither (oring_onConditionChanged c t) (max_onConditionChanged c t)"

definition tr_onSlicedConditionMayChange :: "condition_tracker list \<Rightarrow> ns \<Rightarrow> tracker_state \<Rightarrow> tracker_state" where
  "tr_onSlicedConditionMayChange conditions t = onEither (oring_onSlicedConditionMayChange conditions t) (max_onSlicedConditionMayChange conditions t)"

definition tr_onStateChanged :: "ns \<Rightarrow> i32 \<Rightarrow> field_value \<Rightarrow> tracker_state \<Rightarrow> tracker_state" where
  "tr_onStateChanged t atomId newState = onEither (oring_onStateChanged t atomId newState) max_onStateChanged"

fun tr_flushCurrentBucket :: "ns \<Rightarrow> duration_tracker_ptr \<times> duration_output \<times> anomaly_env \<Rightarrow>
    (duration_tracker_ptr \<times> duration_output \<times> anomaly_env) \<times> bool" where
  "tr_flushCurrentBucket t (OringTracker d, out, e) =
     (case oring_flushCurrentBucket t (d, out, e) of ((d', out', e'), b) \<Rightarrow> ((OringTracker d', out', e'), b))"
| "tr_flushCurrentBucket t (MaxTracker d, out, e) =
     (case max_flushCurrentBucket t (d, out) of ((d', out'), b) \<Rightarrow> ((MaxTracker d', out', e), b))"

fun tr_base :: "(duration_tracker \<Rightarrow> duration_tracker) \<Rightarrow> duration_tracker_ptr \<Rightarrow> duration_tracker_ptr" where
  "tr_base f (OringTracker d) = OringTracker (duration_tracker.extend (f (duration_tracker.truncate d)) (duration_tracker.more d))"
| "tr_base f (MaxTracker d) = MaxTracker (duration_tracker.extend (f (duration_tracker.truncate d)) (duration_tracker.more d))"

section \<open>The metric\<close>

datatype aggregation_type = agg_SUM | agg_MAX_SPARSE

record duration_metric = metric_producer +
  dmAggregationType :: aggregation_type
  dmStartIndex :: int
  dmStopIndex :: int
  dmStopAllIndex :: int
  dmNested :: bool
  dmInternalDimensions :: "matcher list"
  dmUseWhatDimensionAsInternalDimension :: bool
  dmUnSlicedPartCondition :: condition_state
  dmPastBuckets :: duration_output
  dmTrackerMap :: "(dim_key, duration_tracker_ptr) umap"
  dmAnomalyTrackers :: "nat list"

type_synonym dm_state = "duration_metric \<times> anomaly_env"

definition createDurationTracker :: "metric_key \<Rightarrow> duration_metric \<Rightarrow> duration_tracker_ptr" where
  "createDurationTracker eventKey m =
     (let b = newDurationTracker (mpMetricId m) eventKey (mpConditionTrackerIndex m) (dmNested m) (mpCurrentBucketStartTimeNs m)
                (mpCurrentBucketNum m) (mpTimeBaseNs m) (mpBucketSizeNs m) (mpConditionSliced m)
                (mpHasLinksToAllConditionDimensionsInTracker m) (dmAnomalyTrackers m)
      in case dmAggregationType m of
           agg_SUM \<Rightarrow> OringTracker (newOringDurationTracker b)
         | agg_MAX_SPARSE \<Rightarrow> MaxTracker (newMaxDurationTracker b))"

text \<open>Call an operation of every tracker whose key satisfies a predicate.\<close>

definition forTracker :: "(dim_key \<Rightarrow> tracker_state \<Rightarrow> tracker_state) \<Rightarrow> dm_state \<Rightarrow> dim_key \<Rightarrow> dm_state" where
  "forTracker f s key =
     (case s of (m, e) \<Rightarrow>
        case map_of (dmTrackerMap m) key of
          None \<Rightarrow> (m, e)
        | Some tr \<Rightarrow> (case f key (tr, e) of (tr', e') \<Rightarrow> (m\<lparr>dmTrackerMap := AList.update key tr' (dmTrackerMap m)\<rparr>, e')))"

definition forTrackers :: "(dim_key \<Rightarrow> tracker_state \<Rightarrow> tracker_state) \<Rightarrow> dm_state \<Rightarrow> dm_state" where
  "forTrackers f s = foldl (forTracker f) s (map fst (dmTrackerMap (fst s)))"

subsection \<open>Buckets\<close>

definition flushTracker :: "ns \<Rightarrow> dm_state \<Rightarrow> dim_key \<Rightarrow> dm_state" where
  "flushTracker eventTimeNs s key =
     (case s of (m, e) \<Rightarrow>
        case map_of (dmTrackerMap m) key of
          None \<Rightarrow> (m, e)
        | Some tr \<Rightarrow>
            (case tr_flushCurrentBucket eventTimeNs (tr, dmPastBuckets m, e) of
               ((tr', out, e'), done) \<Rightarrow>
                 (m\<lparr>dmPastBuckets := out,
                    dmTrackerMap := (if done then AList.delete key (dmTrackerMap m) else AList.update key tr' (dmTrackerMap m))\<rparr>, e')))"

definition dm_flushCurrentBucketLocked :: "ns \<Rightarrow> ns \<Rightarrow> dm_state \<Rightarrow> dm_state" where
  "dm_flushCurrentBucketLocked eventTimeNs nextBucketStartTimeNs s =
     (case foldl (flushTracker eventTimeNs) s (map fst (dmTrackerMap (fst s))) of
        (m, e) \<Rightarrow> (m\<lparr>mpCurrentBucketStartTimeNs := nextBucketStartTimeNs\<rparr>, e))"

definition dm_flushIfNeededLocked :: "ns \<Rightarrow> dm_state \<Rightarrow> dm_state" where
  "dm_flushIfNeededLocked eventTimeNs s =
     (let currentBucketEndTimeNs = getCurrentBucketEndTimeNs (fst s)
      in if currentBucketEndTimeNs > eventTimeNs then s
         else let numBucketsForward = 1 + (eventTimeNs - currentBucketEndTimeNs) div mpBucketSizeNs (fst s);
                  nextBucketNs = currentBucketEndTimeNs + (numBucketsForward - 1) * mpBucketSizeNs (fst s)
              in case dm_flushCurrentBucketLocked eventTimeNs nextBucketNs s of
                   (m, e) \<Rightarrow> (m\<lparr>mpCurrentBucketNum := mpCurrentBucketNum m + numBucketsForward\<rparr>, e))"

definition dm_flushLocked :: "ns \<Rightarrow> dm_state \<Rightarrow> dm_state" where
  "dm_flushLocked eventTimeNs s = dm_flushCurrentBucketLocked eventTimeNs eventTimeNs (dm_flushIfNeededLocked eventTimeNs s)"

subsection \<open>Events\<close>

definition dm_hitGuardRailLocked :: "metric_key \<Rightarrow> duration_metric \<Rightarrow> bool" where
  "dm_hitGuardRailLocked newKey m = dimension_guardrail (dmTrackerMap m) (mDimensionKeyInWhat newKey)"

definition internalKey :: "duration_metric \<Rightarrow> dim_key \<Rightarrow> field_value list \<Rightarrow> dim_key" where
  "internalKey m whatKey vals =
     (if dmUseWhatDimensionAsInternalDimension m then whatKey
      else if dmInternalDimensions m = [] then DEFAULT_DIMENSION_KEY
      else key_of (fst (filterValues (dmInternalDimensions m) vals [])))"

definition handleStartEvent ::
  "metric_key \<Rightarrow> (int, dim_key) umap \<Rightarrow> bool \<Rightarrow> ns \<Rightarrow> field_value list \<Rightarrow> dm_state \<Rightarrow> dm_state" where
  "handleStartEvent eventKey conditionKeys condition eventTimeNs eventValues s =
     (case s of (m, e) \<Rightarrow>
        let whatKey = mDimensionKeyInWhat eventKey;
            start = (\<lambda>m. forTracker (\<lambda>_. tr_noteStart (internalKey m whatKey eventValues) condition eventTimeNs conditionKeys) (m, e) whatKey)
        in if map_of (dmTrackerMap m) whatKey = None
           then (if dm_hitGuardRailLocked eventKey m then (m, e)
                 else start (m\<lparr>dmTrackerMap := AList.update whatKey (createDurationTracker eventKey m) (dmTrackerMap m)\<rparr>))
           else start m)"

definition handleMatchedLogEventValuesLocked ::
  "condition_tracker list \<Rightarrow> 'l state_manager \<Rightarrow> int \<Rightarrow> field_value list \<Rightarrow> ns \<Rightarrow> dm_state \<Rightarrow> dm_state" where
  "handleMatchedLogEventValuesLocked conditions sm matcherIdx vals eventTimeNs s0 =
     (if eventTimeNs < mpTimeBaseNs (fst s0) then s0
      else let s = (if mIsActive (mpActivations (fst s0)) then dm_flushIfNeededLocked eventTimeNs s0 else s0);
               m = fst s
           in if matcherIdx = dmStopAllIndex m then forTrackers (\<lambda>_. tr_noteStopAll eventTimeNs) s
              else let dimensionInWhat = (if mpDimensionsInWhat m = [] then DEFAULT_DIMENSION_KEY
                                          else key_of (fst (filterValues (mpDimensionsInWhat m) vals [])));
                       statePrimaryKeys = statePrimaryKeysFor m vals;
                       stateValuesKey = key_of (stateValuesKeyFor sm m statePrimaryKeys)
                   in if matcherIdx = dmStopIndex m
                      then forTracker (\<lambda>_. tr_noteStop (internalKey m dimensionInWhat vals) eventTimeNs False) s dimensionInWhat
                      else let conditionKey = (if mpConditionSliced m then map_keys (conditionKeyFor m vals) else []);
                               condition = (if mpConditionSliced m
                                            then wizard_query (length conditions) conditions (nat (mpConditionTrackerIndex m)) conditionKey
                                                   (\<not> mpHasLinksToAllConditionDimensionsInTracker m) = Some kTrue
                                            else mpCondition m = kTrue)
                           in handleStartEvent \<lparr>mDimensionKeyInWhat = dimensionInWhat, mStateValuesKey = stateValuesKey\<rparr> conditionKey
                                (condition \<and> mIsActive (mpActivations m)) eventTimeNs vals s)"

definition dm_onMatchedLogEventLocked ::
  "condition_tracker list \<Rightarrow> 'l state_manager \<Rightarrow> int \<Rightarrow> state_event \<Rightarrow> dm_state \<Rightarrow> dm_state" where
  "dm_onMatchedLogEventLocked conditions sm matcherIdx ev =
     handleMatchedLogEventValuesLocked conditions sm matcherIdx (event_values ev) (elapsedTimestampNs ev)"

text \<open>The fields of a key as the values of an event.\<close>

definition keyValues :: "dim_key \<Rightarrow> field_value list" where
  "keyValues k = map (\<lambda>(f, v). mkFieldValue f v) k"

definition dm_onStateChanged :: "ns \<Rightarrow> i32 \<Rightarrow> dim_key \<Rightarrow> field_value \<Rightarrow> dm_state \<Rightarrow> dm_state" where
  "dm_onStateChanged eventTimeNs atomId primaryKey newState s0 =
     (let newStateCopy = mapStateValue (fst s0) atomId newState;
          s = dm_flushIfNeededLocked eventTimeNs s0
      in forTrackers (\<lambda>whatKey tr.
           if \<not> containsLinkedStateValues (keyValues whatKey) (keyValues primaryKey) (mpMetric2StateLinks (fst s)) atomId then tr
           else tr_onStateChanged eventTimeNs atomId newStateCopy tr) s)"

subsection \<open>Conditions and activation\<close>

definition linkedConditionKey :: "duration_metric \<Rightarrow> dim_key \<Rightarrow> dim_key" where
  "linkedConditionKey m whatKey = key_of (getDimensionForCondition (keyValues whatKey) (hd (mpMetric2ConditionLinks m)) [])"

definition onSlicedConditionMayChangeLocked_opt1 :: "condition_tracker list \<Rightarrow> ns \<Rightarrow> dm_state \<Rightarrow> dm_state" where
  "onSlicedConditionMayChangeLocked_opt1 conditions eventTime s =
     (case s of (m0, e) \<Rightarrow>
        let idx = mpConditionTrackerIndex m0; fuel = length conditions; simple = IsSimpleCondition conditions idx;
            unslicedPartState = getUnSlicedPartConditionState conditions idx
        in if length (mpMetric2ConditionLinks m0) \<noteq> 1 \<or> \<not> mpHasLinksToAllConditionDimensionsInTracker m0 then (m0, e)
           else if \<not> simple \<and> dmUnSlicedPartCondition m0 = kFalse \<and> unslicedPartState = kFalse then (m0, e)
           else let m = (if simple then m0 else m0\<lparr>dmUnSlicedPartCondition := unslicedPartState\<rparr>);
                    currentUnSlicedPartCondition = (if simple then True else state_code (dmUnSlicedPartCondition m) > 0);
                    changedToTrue = getChangedToTrueDimensions fuel conditions (nat idx);
                    changedToFalse = getChangedToFalseDimensions fuel conditions (nat idx)
                in if changedToTrue = None \<or> changedToFalse = None \<or> (changedToTrue = Some [] \<and> changedToFalse = Some [])
                   then let slicedConditionMap = (case getSlicedDimensionMap fuel conditions idx of None \<Rightarrow> [] | Some sm \<Rightarrow> sm)
                        in forTrackers (\<lambda>whatKey tr.
                             case map_of slicedConditionMap (linkedConditionKey m whatKey) of
                               Some n \<Rightarrow> if n > 0 then tr_onConditionChanged currentUnSlicedPartCondition eventTime tr else tr
                             | None \<Rightarrow> tr) (m, e)
                   else if currentUnSlicedPartCondition
                   then forTrackers (\<lambda>whatKey tr0.
                          let key = linkedConditionKey m whatKey;
                              tr1 = (if key \<in> set (the changedToTrue) then tr_onConditionChanged True eventTime tr0 else tr0)
                          in if key \<in> set (the changedToFalse) then tr_onConditionChanged False eventTime tr1 else tr1) (m, e)
                   else (m, e))"

definition onSlicedConditionMayChangeInternalLocked :: "condition_tracker list \<Rightarrow> ns \<Rightarrow> dm_state \<Rightarrow> dm_state" where
  "onSlicedConditionMayChangeInternalLocked conditions eventTimeNs s =
     (if IsChangedDimensionTrackable conditions (mpConditionTrackerIndex (fst s)) \<and> mpHasLinksToAllConditionDimensionsInTracker (fst s)
      then onSlicedConditionMayChangeLocked_opt1 conditions eventTimeNs s
      else forTrackers (\<lambda>_. tr_onSlicedConditionMayChange conditions eventTimeNs) s)"

definition dm_onSlicedConditionMayChangeLocked :: "condition_tracker list \<Rightarrow> ns \<Rightarrow> dm_state \<Rightarrow> dm_state" where
  "dm_onSlicedConditionMayChangeLocked conditions eventTime s =
     (if \<not> mIsActive (mpActivations (fst s)) then s
      else let s1 = dm_flushIfNeededLocked eventTime s
           in if \<not> mpConditionSliced (fst s1) then s1 else onSlicedConditionMayChangeInternalLocked conditions eventTime s1)"

definition dm_onActiveStateChangedLocked :: "condition_tracker list \<Rightarrow> ns \<Rightarrow> dm_state \<Rightarrow> dm_state" where
  "dm_onActiveStateChangedLocked conditions eventTimeNs s0 =
     (let active = mIsActive (mpActivations (fst s0));
          s = (if \<not> active then dm_flushLocked eventTimeNs s0 else s0)
      in if \<not> mpConditionSliced (fst s)
         then (if mpCondition (fst s) \<noteq> kTrue then s
               else forTrackers (\<lambda>_. tr_onConditionChanged active eventTimeNs)
                      (if active then dm_flushIfNeededLocked eventTimeNs s else s))
         else if active then onSlicedConditionMayChangeInternalLocked conditions eventTimeNs (dm_flushIfNeededLocked eventTimeNs s)
         else forTrackers (\<lambda>_. tr_onConditionChanged active eventTimeNs) s)"

definition dm_onConditionChangedLocked :: "bool \<Rightarrow> ns \<Rightarrow> dm_state \<Rightarrow> dm_state" where
  "dm_onConditionChangedLocked conditionMet eventTime s =
     (case s of (m0, e) \<Rightarrow>
        let m = m0\<lparr>mpCondition := (if conditionMet then kTrue else kFalse)\<rparr>
        in if \<not> mIsActive (mpActivations m) then (m, e)
           else forTrackers (\<lambda>_. tr_onConditionChanged conditionMet eventTime) (dm_flushIfNeededLocked eventTime (m, e)))"

definition dm_flushIfExpire :: "condition_tracker list \<Rightarrow> ns \<Rightarrow> dm_state \<Rightarrow> dm_state" where
  "dm_flushIfExpire conditions now s =
     (case s of (m, e) \<Rightarrow> case flushIfExpire now (mpActivations m) of
        (a, changed) \<Rightarrow> if changed then dm_onActiveStateChangedLocked conditions now (m\<lparr>mpActivations := a\<rparr>, e) else (m\<lparr>mpActivations := a\<rparr>, e))"

definition dm_activateLocked :: "condition_tracker list \<Rightarrow> int \<Rightarrow> ns \<Rightarrow> dm_state \<Rightarrow> dm_state" where
  "dm_activateLocked conditions i now s =
     (case s of (m, e) \<Rightarrow> case activateLocked i now (mpActivations m) of
        (a, changed) \<Rightarrow> if changed then dm_onActiveStateChangedLocked conditions now (m\<lparr>mpActivations := a\<rparr>, e) else (m\<lparr>mpActivations := a\<rparr>, e))"

subsection \<open>Reports and anomaly trackers\<close>

definition dm_dropDataLocked :: "ns \<Rightarrow> dm_state \<Rightarrow> dm_state" where
  "dm_dropDataLocked dropTimeNs s = (case dm_flushIfNeededLocked dropTimeNs s of (m, e) \<Rightarrow> (m\<lparr>dmPastBuckets := []\<rparr>, e))"

definition dm_clearPastBucketsLocked :: "ns \<Rightarrow> dm_state \<Rightarrow> dm_state" where
  "dm_clearPastBucketsLocked dumpTimeNs s = (case dm_flushIfNeededLocked dumpTimeNs s of (m, e) \<Rightarrow> (m\<lparr>dmPastBuckets := []\<rparr>, e))"

datatype duration_bucket_info = PartialDuration int int ns | FullDuration int ns

definition durationBucketInfo :: "duration_metric \<Rightarrow> duration_bucket \<Rightarrow> duration_bucket_info" where
  "durationBucketInfo m b =
     (if dbBucketEndNs b - dbBucketStartNs b \<noteq> mpBucketSizeNs m
      then PartialDuration (NanoToMillis (dbBucketStartNs b)) (NanoToMillis (dbBucketEndNs b)) (dbDuration b)
      else FullDuration (getBucketNumFromEndTimeNs m (dbBucketEndNs b)) (dbDuration b))"

definition dm_onDumpReportLocked ::
  "ns \<Rightarrow> bool \<Rightarrow> bool \<Rightarrow> dm_state \<Rightarrow> dm_state \<times> (metric_key \<times> duration_bucket_info list) list" where
  "dm_onDumpReportLocked dumpTimeNs include_current_partial_bucket erase_data s0 =
     (case (if include_current_partial_bucket then dm_flushLocked dumpTimeNs s0 else dm_flushIfNeededLocked dumpTimeNs s0) of
        (m, e) \<Rightarrow>
          if dmPastBuckets m = [] then ((m, e), [])
          else ((if erase_data then m\<lparr>dmPastBuckets := []\<rparr> else m, e),
                map (\<lambda>(k, bs). (k, map (durationBucketInfo m) bs)) (dmPastBuckets m)))"

definition dm_byteSizeLocked :: "int \<Rightarrow> duration_metric \<Rightarrow> int" where
  "dm_byteSizeLocked kBucketSize m = sum_list (map (\<lambda>(k, bs). int (length bs) * kBucketSize) (dmPastBuckets m))"

definition addAnomalyTrackerLocked :: "nat \<Rightarrow> duration_metric \<Rightarrow> duration_metric" where
  "addAnomalyTrackerLocked i m =
     m\<lparr>dmAnomalyTrackers := dmAnomalyTrackers m @ [i],
       dmTrackerMap := map (\<lambda>(k, tr). (k, tr_base (duration_addAnomalyTracker i) tr)) (dmTrackerMap m)\<rparr>"

text \<open>\<^verbatim>\<open>new DurationAnomalyTracker\<close> appends to the store; \<open>None\<close> for an alert that can never fire. The comparison
  is in doubles; it is exact here.\<close>

definition dm_addAnomalyTracker :: "alert \<Rightarrow> dm_state \<Rightarrow> dm_state \<times> nat option" where
  "dm_addAnomalyTracker al s =
     (case s of (m, e) \<Rightarrow>
        if dmAggregationType m = agg_SUM \<and>
           (case trigger_if_sum_gt al of None \<Rightarrow> 0 | Some r \<Rightarrow> r) > rat_of_int (num_buckets al * mpBucketSizeNs m)
        then ((m, e), None)
        else let i = length (aeTrackers e)
             in ((addAnomalyTrackerLocked i m, e\<lparr>aeTrackers := aeTrackers e @ [\<lparr>anomaly = newAnomalyTracker al, mAlarms = []\<rparr>]\<rparr>), Some i))"

subsection \<open>Construction\<close>

definition initTrueDimensions ::
  "condition_tracker list \<Rightarrow> 'l state_manager \<Rightarrow> int \<Rightarrow> ns \<Rightarrow> dm_state \<Rightarrow> dm_state" where
  "initTrueDimensions conditions sm whatIdx startTimeNs s =
     (if whatIdx = -1 then s
      else let slicedWhatMap = (case getSlicedDimensionMap (length conditions) conditions whatIdx of None \<Rightarrow> [] | Some mp \<Rightarrow> mp)
           in foldl (\<lambda>s (internalDimKey, count).
                 foldl (\<lambda>s _. handleMatchedLogEventValuesLocked conditions sm (dmStartIndex (fst s)) (keyValues internalDimKey) startTimeNs s)
                   s [1..count]) s slicedWhatMap)"

text \<open>The constructor, given the fields the base class and the configuration set.\<close>

definition newDurationMetricProducer ::
  "condition_tracker list \<Rightarrow> 'l state_manager \<Rightarrow> metric_producer \<Rightarrow> aggregation_type \<Rightarrow> int \<Rightarrow> int \<Rightarrow> int \<Rightarrow> int \<Rightarrow> bool \<Rightarrow>
   matcher list \<Rightarrow> ns \<Rightarrow> ns \<Rightarrow> ns \<Rightarrow> anomaly_env \<Rightarrow> dm_state" where
  "newDurationMetricProducer conditions sm b aggregation whatIdx startIdx stopIdx stopAllIdx nesting internalDims
      timeBaseNs bucketSizeNs startTimeNs e =
     (let m0 = metric_producer.extend
                 (b\<lparr>mpTimeBaseNs := timeBaseNs, mpCurrentBucketStartTimeNs := timeBaseNs, mpCurrentBucketNum := 0, mpBucketSizeNs := bucketSizeNs\<rparr>)
                 (duration_metric.fields aggregation startIdx stopIdx stopAllIdx nesting internalDims
                    (equalDimensions (mpDimensionsInWhat b) internalDims) kUnknown [] [] [])
      in case dm_flushIfNeededLocked startTimeNs (m0, e) of
           (m, e1) \<Rightarrow> initTrueDimensions conditions sm whatIdx startTimeNs (m\<lparr>mpCurrentBucketStartTimeNs := startTimeNs\<rparr>, e1))"

section \<open>Preservation by the tracker operations\<close>

definition same_bucket :: "'a duration_tracker_scheme \<Rightarrow> 'a duration_tracker_scheme \<Rightarrow> bool" where
  "same_bucket d' d \<longleftrightarrow> dtStartTimeNs d' = dtStartTimeNs d \<and> dtBucketSizeNs d' = dtBucketSizeNs d \<and>
     dtCurrentBucketNum d' = dtCurrentBucketNum d \<and> dtCurrentBucketStartTimeNs d' = dtCurrentBucketStartTimeNs d"

lemma same_bucket_refl [simp]: "same_bucket d d"
  by (simp add: same_bucket_def)

lemma same_bucket_trans: "same_bucket a b \<Longrightarrow> same_bucket b c \<Longrightarrow> same_bucket a c"
  by (simp add: same_bucket_def)

lemma same_bucket_record [simp]: "same_bucket (recordDuration t d) d' = same_bucket d d'"
  by (simp add: same_bucket_def recordDuration_def Let_def)

lemma recordDuration_frame2 [simp]:
  "dtStartTimeNs (recordDuration t d) = dtStartTimeNs d" "dtCurrentBucketNum (recordDuration t d) = dtCurrentBucketNum d"
  by (simp_all add: recordDuration_def Let_def)

lemma umap_ok_single: "umap_ok [(k, v)]"
  by (simp add: umap_ok_def)

lemma upd_paused: "odPaused d = p \<Longrightarrow> d\<lparr>odStarted := s, odPaused := p, odConditionKeyMap := c\<rparr> = d\<lparr>odStarted := s, odConditionKeyMap := c\<rparr>"
  by (cases d) simp

text \<open>An operation at time \<open>t\<close> keeps the invariant; only a running tracker has to be in its bucket.\<close>

lemma oring_noteStart_keeps:
  assumes "oring_ok d t" "condition \<longrightarrow> t < dt_getCurrentBucketEndTimeNs d"
  shows "case oring_noteStart key condition t ck (d, e) of (d', e') \<Rightarrow>
    oring_ok d' t \<and> same_bucket d' d \<and> (\<not> condition \<longrightarrow> odStarted d' = odStarted d)"
  using assms
  by (auto simp: oring_noteStart_def Let_def bumpCount_def same_bucket_def oring_ok_def dt_ok_def dt_getCurrentBucketEndTimeNs_def
      umap_ok_single split: if_splits)

lemma oring_record_keeps:
  assumes "oring_ok d t" "odStarted d \<noteq> [] \<longrightarrow> t < dt_getCurrentBucketEndTimeNs d" "umap_ok p"
  shows "oring_ok ((if odStarted d \<noteq> [] then recordDuration t d else d)\<lparr>odStarted := [], odPaused := p, odConditionKeyMap := c\<rparr>) t"
  using stop_record_ok(1)[OF assms(1) _ _ assms(3), of c] stop_keep_ok(1)[OF assms(1), of "[]" p c] assms by auto

lemma record_started: "recordDuration t (d\<lparr>odStarted := s, odConditionKeyMap := c\<rparr>) =
    (recordDuration t d)\<lparr>odStarted := s, odConditionKeyMap := c\<rparr>"
  by (simp add: recordDuration_def Let_def stateValuesOf_def)

lemma stopKey_umap: "umap_ok m \<Longrightarrow> umap_ok (fst (stopKey f k n m))"
  by (auto simp: stopKey_def)

lemma oring_noteStop_keeps:
  assumes ok: "oring_ok d t" and b: "odStarted d \<noteq> [] \<longrightarrow> t < dt_getCurrentBucketEndTimeNs d"
  shows "case oring_noteStop key t stopAll (d, e) of (d', e') \<Rightarrow>
    oring_ok d' t \<and> same_bucket d' d \<and> (odStarted d = [] \<longrightarrow> odStarted d' = [])"
proof -
  let ?f = "stopAll \<or> \<not> dtNested d"
  have u: "umap_ok (odStarted d)" "umap_ok (odPaused d)" using ok by (auto simp: oring_ok_def)
  obtain d1 e1 where s1: "(case map_of (odStarted d) key of None \<Rightarrow> (d, e)
      | Some n \<Rightarrow> let (started, erased) = stopKey ?f key n (odStarted d);
            d' = d\<lparr>odStarted := started, odConditionKeyMap := (if erased then AList.delete key (odConditionKeyMap d) else odConditionKeyMap d)\<rparr>
          in if odStarted d' = [] then let d'' = recordDuration t d' in (d'', oring_detect t d'' e) else (d', e)) = (d1, e1)" by fastforce
  have k: "oring_ok d1 t \<and> same_bucket d1 d \<and> (odStarted d = [] \<longrightarrow> odStarted d1 = []) \<and> dtNested d1 = dtNested d"
  proof (cases "map_of (odStarted d) key")
    case None
    then show ?thesis using s1 ok by simp
  next
    case (Some n)
    obtain s er where sk: "stopKey ?f key n (odStarted d) = (s, er)" by fastforce
    define c where "c = (if er then AList.delete key (odConditionKeyMap d) else odConditionKeyMap d)"
    have us: "umap_ok s" using stopKey_umap[OF u(1), of ?f key n] sk by simp
    have ne: "odStarted d \<noteq> []" using Some by auto
    have d1: "d1 = (if s = [] then (recordDuration t d)\<lparr>odStarted := s, odConditionKeyMap := c\<rparr> else d\<lparr>odStarted := s, odConditionKeyMap := c\<rparr>)"
      using s1 Some sk by (auto simp: Let_def record_started c_def split: if_splits)
    show ?thesis
    proof (cases "s = []")
      case True
      then show ?thesis using stop_record_ok(1)[OF ok _ ne u(2), of c] b ne unfolding d1 by (simp add: same_bucket_def upd_paused)
    next
      case False
      then show ?thesis using stop_keep_ok(1)[OF ok us u(2), of c] ne unfolding d1 by (simp add: same_bucket_def upd_paused)
    qed
  qed
  obtain d2 where s2: "(case map_of (odPaused d1) key of None \<Rightarrow> d1
      | Some n \<Rightarrow> let (paused, erased) = stopKey ?f key n (odPaused d1)
          in d1\<lparr>odPaused := paused, odConditionKeyMap := (if erased then AList.delete key (odConditionKeyMap d1) else odConditionKeyMap d1)\<rparr>) = d2" by simp
  have "oring_ok d2 t \<and> same_bucket d2 d1 \<and> odStarted d2 = odStarted d1"
  proof (cases "map_of (odPaused d1) key")
    case (Some n)
    obtain p er where sk: "stopKey ?f key n (odPaused d1) = (p, er)" by fastforce
    have up: "umap_ok p" "umap_ok (odStarted d1)" using stopKey_umap[of "odPaused d1" ?f key n] k sk by (auto simp: oring_ok_def)
    have kk: "oring_ok (d1\<lparr>odStarted := odStarted d1, odPaused := p, odConditionKeyMap := c\<rparr>) t" for c
      using stop_keep_ok(1)[OF _ up(2,1), of d1 t] k by blast
    then show ?thesis using Some s2 sk by (auto simp: same_bucket_def)
  qed (use s2 k in auto)
  moreover have "oring_noteStop key t stopAll (d, e) = (d2, if odStarted d2 = [] then stopAnomalyAlarm t d2 e1 else e1)"
    unfolding oring_noteStop_def Let_def prod.case by (simp only: s1[unfolded Let_def] s2[unfolded Let_def] prod.case)
  ultimately show ?thesis using k same_bucket_trans by auto
qed

lemma oring_noteStopAll_keeps:
  assumes "oring_ok d t" "odStarted d \<noteq> [] \<longrightarrow> t < dt_getCurrentBucketEndTimeNs d"
  shows "case oring_noteStopAll t (d, e) of (d', e') \<Rightarrow> oring_ok d' t \<and> same_bucket d' d \<and> odStarted d' = []"
  using oring_record_keeps[OF assms, of "[]" "[]"] by (auto simp: oring_noteStopAll_def Let_def same_bucket_def split: if_splits)

lemma insertAll_empty_iff: "insertAll m kvs = [] \<longleftrightarrow> m = [] \<and> kvs = []"
proof -
  have "insertAll m kvs = [] \<longleftrightarrow> (\<forall>k. map_of (insertAll m kvs) k = None)" by (simp flip: map_of_empty_iff add: fun_eq_iff)
  also have "\<dots> \<longleftrightarrow> (\<forall>k. map_of m k = None) \<and> (\<forall>k. map_of kvs k = None)" by (auto split: option.splits)
  also have "\<dots> \<longleftrightarrow> m = [] \<and> kvs = []" by (simp flip: map_of_empty_iff add: fun_eq_iff)
  finally show ?thesis .
qed

lemma oring_onConditionChanged_keeps:
  assumes ok: "oring_ok d t" and b: "c \<or> odStarted d \<noteq> [] \<longrightarrow> t < dt_getCurrentBucketEndTimeNs d"
  shows "case oring_onConditionChanged c t (d, e) of (d', e') \<Rightarrow> oring_ok d' t \<and> same_bucket d' d \<and> (\<not> c \<longrightarrow> odStarted d' = [])"
proof -
  have u: "umap_ok (odStarted d)" "umap_ok (odPaused d)" using ok by (auto simp: oring_ok_def)
  obtain d' e' where e: "oring_onConditionChanged c t (d, e) = (d', e')" by fastforce
  show ?thesis
  proof (cases c)
    case True
    have "d' = (if odPaused d = [] then d
        else d\<lparr>odLastStartTime := (if odStarted d = [] then t else odLastStartTime d), odStarted := insertAll (odStarted d) (odPaused d), odPaused := []\<rparr>)"
      using e True by (auto simp: oring_onConditionChanged_def Let_def split: if_splits)
    then show ?thesis using ok b True u e
      by (auto simp: oring_ok_def dt_ok_def dt_getCurrentBucketEndTimeNs_def same_bucket_def umap_ok_insertAll insertAll_empty_iff)
  next
    case False
    then have d': "d' = (if odStarted d = [] then d
        else (recordDuration t d)\<lparr>odStarted := [], odPaused := insertAll (odPaused d) (odStarted d), odConditionKeyMap := odConditionKeyMap d\<rparr>)"
      using e by (auto simp: oring_onConditionChanged_def Let_def recordDuration_def split: if_splits)
    then show ?thesis
      using oring_record_keeps[OF ok _ umap_ok_insertAll[OF u(2), of "odStarted d"], of "odConditionKeyMap d"] b ok e False
      by (cases "odStarted d = []") (auto simp: same_bucket_def)
  qed
qed

lemma oring_onStateChanged_keeps:
  assumes "oring_ok d t" "odStarted d \<noteq> [] \<longrightarrow> t < dt_getCurrentBucketEndTimeNs d"
  shows "case oring_onStateChanged t a v (d, e) of (d', e') \<Rightarrow> oring_ok d' t \<and> same_bucket d' d \<and> odStarted d' = odStarted d"
proof -
  have "oring_ok ((recordDuration t d)\<lparr>odLastStartTime := t\<rparr>) t" if "odStarted d \<noteq> []"
    using assms that recordDuration_ok[of d t] recordDuration_pending[of d t]
    by (auto simp: oring_ok_def values_ok_def dt_ok_def dt_getCurrentBucketEndTimeNs_def recordDuration_def Let_def)
  then show ?thesis using assms(1) unfolding oring_onStateChanged_def prod.case
    by (auto simp: updateCurrentStateKey_frame) (auto simp: updateCurrentStateKey_def same_bucket_def)
qed

lemma oring_sliced_keeps:
  assumes ok: "oring_ok d t" and b: "t < dt_getCurrentBucketEndTimeNs d"
  shows "case oring_onSlicedConditionMayChange conditions t (d, e) of (d', e') \<Rightarrow> oring_ok d' t \<and> same_bucket d' d"
proof -
  define toPause :: "dim_key \<times> int \<Rightarrow> bool" where "toPause = (\<lambda>(k, n). map_of (odConditionKeyMap d) k \<noteq> None \<and> keyCondition conditions d k \<noteq> Some kTrue)"
  define toStart :: "dim_key \<times> int \<Rightarrow> bool" where "toStart = (\<lambda>(k, n). map_of (odConditionKeyMap d) k \<noteq> None \<and> keyCondition conditions d k = Some kTrue)"
  let ?s = "filter (\<lambda>kn. \<not> toPause kn) (odStarted d)"
  let ?ps = "filter toStart (odPaused d)" and ?pk = "filter (\<lambda>kn. \<not> toStart kn) (odPaused d)"
  let ?c = "odConditionKeyMap d"
  have u: "umap_ok ?s" "umap_ok ?pk" "umap_ok (odPaused d)" "umap_ok (insertAll ?pk kvs)" "umap_ok (insertAll ?s kvs)" "umap_ok (insertAll [] kvs)" for kvs
    using ok by (auto simp: oring_ok_def umap_ok_filter umap_ok_insertAll)
  define d1 where "d1 = (if odStarted d \<noteq> [] \<and> ?s = [] then recordDuration t d else d)\<lparr>odStarted := ?s, odPaused := odPaused d, odConditionKeyMap := ?c\<rparr>"
  have "?s \<noteq> [] \<Longrightarrow> odStarted d \<noteq> []" by auto
  then have ok1: "oring_ok d1 t"
    using stop_record_ok(1)[OF ok b _ u(3), of ?c] stop_keep_ok(1)[OF ok u(1,3), of ?c] unfolding d1_def by auto
  have sb: "same_bucket d1 d" "dt_getCurrentBucketEndTimeNs d1 = dt_getCurrentBucketEndTimeNs d"
    by (simp_all add: d1_def same_bucket_def dt_getCurrentBucketEndTimeNs_def)
  have s1: "odStarted d1 = ?s" "odPaused d1 = odPaused d" by (simp_all add: d1_def)
  define d4 where "d4 = d1\<lparr>odLastStartTime := (if ?s = [] \<and> ?ps \<noteq> [] then t else odLastStartTime d1),
      odStarted := insertAll ?s ?ps, odPaused := insertAll ?pk (filter toPause (odStarted d))\<rparr>"
  have "fst (oring_onSlicedConditionMayChange conditions t (d, e)) = d4"
    unfolding oring_onSlicedConditionMayChange_def Let_def prod.case toPause_def[symmetric] toStart_def[symmetric] d4_def d1_def
    by (cases "odStarted d = []"; cases "?s = []"; cases "odPaused d = []"; cases "?ps = []") (simp_all add: recordDuration_def stateValuesOf_def Let_def insertAll_Nil)
  moreover have "oring_ok d4 t"
    using ok1 b sb(2) s1 u unfolding d4_def
    by (auto simp: oring_ok_def dt_ok_def dt_getCurrentBucketEndTimeNs_def insertAll_empty_iff)
  moreover have "same_bucket d4 d" using sb(1) by (simp add: d4_def same_bucket_def)
  ultimately show ?thesis by (auto split: prod.split)
qed

section \<open>The metric and its trackers move together\<close>

definition in_step :: "'a metric_producer_scheme \<Rightarrow> 'b duration_tracker_scheme \<Rightarrow> bool" where
  "in_step m d \<longleftrightarrow> dtStartTimeNs d = mpTimeBaseNs m \<and> dtBucketSizeNs d = mpBucketSizeNs m \<and>
     dtCurrentBucketNum d = mpCurrentBucketNum m \<and> dtCurrentBucketStartTimeNs d = mpCurrentBucketStartTimeNs m"

fun tracker_fits :: "duration_metric \<Rightarrow> ns \<Rightarrow> duration_tracker_ptr \<Rightarrow> bool" where
  "tracker_fits m now (OringTracker d) \<longleftrightarrow> in_step m d \<and> dmAggregationType m = agg_SUM \<and> oring_ok d now"
| "tracker_fits m now (MaxTracker d) \<longleftrightarrow> in_step m d \<and> dmAggregationType m = agg_MAX_SPARSE"

fun stopped :: "duration_tracker_ptr \<Rightarrow> bool" where
  "stopped (OringTracker d) \<longleftrightarrow> odStarted d = []"
| "stopped (MaxTracker d) \<longleftrightarrow> True"

definition all_trackers :: "(duration_tracker_ptr \<Rightarrow> bool) \<Rightarrow> duration_metric \<Rightarrow> bool" where
  "all_trackers P m \<longleftrightarrow> (\<forall>k tr. map_of (dmTrackerMap m) k = Some tr \<longrightarrow> P tr)"

definition dm_ok :: "duration_metric \<Rightarrow> ns \<Rightarrow> bool" where
  "dm_ok m now \<longleftrightarrow> bucket_times_ok m \<and> mpCurrentBucketStartTimeNs m \<le> now \<and> umap_ok (dmTrackerMap m) \<and>
     length (dmTrackerMap m) \<le> kDimensionKeySizeHardLimit \<and> all_trackers (tracker_fits m now) m \<and>
     (dmAggregationType m = agg_SUM \<longrightarrow> output_ok (dmPastBuckets m))"

text \<open>Time is being measured only while the metric is active and, for a condition that is not sliced, true.\<close>

definition dm_running :: "duration_metric \<Rightarrow> bool" where
  "dm_running m \<longleftrightarrow> mIsActive (mpActivations m) \<and> (mpConditionSliced m \<or> mpCondition m = kTrue)"

definition dm_inv :: "duration_metric \<Rightarrow> ns \<Rightarrow> bool" where
  "dm_inv m now \<longleftrightarrow> dm_ok m now \<and> (\<not> dm_running m \<longrightarrow> all_trackers stopped m)"

definition same_metric :: "duration_metric \<Rightarrow> duration_metric \<Rightarrow> bool" where
  "same_metric m' m \<longleftrightarrow> dmAggregationType m' = dmAggregationType m \<and> mpActivations m' = mpActivations m \<and>
     mpConditionSliced m' = mpConditionSliced m \<and> mpCondition m' = mpCondition m"

lemma same_metric_refl [simp]: "same_metric m m"
  by (simp add: same_metric_def)

lemma tracker_fits_cong:
  "tracker_fits (m\<lparr>dmTrackerMap := mp\<rparr>) t tr = tracker_fits m t tr" "tracker_fits (m\<lparr>dmPastBuckets := out\<rparr>) t tr = tracker_fits m t tr"
  "tracker_fits (m\<lparr>mpCondition := c\<rparr>) t tr = tracker_fits m t tr" "tracker_fits (m\<lparr>mpActivations := a\<rparr>) t tr = tracker_fits m t tr"
  "tracker_fits (m\<lparr>dmUnSlicedPartCondition := c\<rparr>) t tr = tracker_fits m t tr"
  by (cases tr; simp add: in_step_def)+

text \<open>Calling an operation of every tracker.\<close>

lemma forTracker_spec:
  assumes "umap_ok (dmTrackerMap m)" "forTracker f (m, e) k = (m', e')"
  shows "\<exists>mp. m' = m\<lparr>dmTrackerMap := mp\<rparr> \<and> umap_ok mp \<and> length mp = length (dmTrackerMap m) \<and>
    (\<forall>k'. map_of mp k' = (if k' = k then map_option (\<lambda>tr. fst (f k (tr, e))) (map_of (dmTrackerMap m) k) else map_of (dmTrackerMap m) k'))"
proof (cases "map_of (dmTrackerMap m) k")
  case None
  then show ?thesis using assms by (intro exI[of _ "dmTrackerMap m"]) (simp add: forTracker_def)
next
  case (Some tr)
  then show ?thesis using assms
    by (intro exI[of _ "AList.update k (fst (f k (tr, e))) (dmTrackerMap m)"])
       (auto simp: forTracker_def length_update_present split: prod.splits)
qed

lemma forTrackers_spec:
  assumes "umap_ok (dmTrackerMap m)" "all_trackers P m" "\<And>k tr e. P tr \<Longrightarrow> Q (fst (f k (tr, e)))"
    and "forTrackers f (m, e) = (m', e')"
  shows "\<exists>mp. m' = m\<lparr>dmTrackerMap := mp\<rparr> \<and> umap_ok mp \<and> length mp = length (dmTrackerMap m) \<and> all_trackers Q m'"
proof -
  have "\<exists>mp. m' = m\<lparr>dmTrackerMap := mp\<rparr> \<and> umap_ok mp \<and> length mp = length (dmTrackerMap m) \<and>
      (\<forall>k tr. map_of mp k = Some tr \<longrightarrow> (if k \<in> set ks then Q tr else P tr) \<and> k \<in> fst ` set (dmTrackerMap m))"
    if "foldl (forTracker f) (m, e) ks = (m', e')" "distinct ks" for ks m' e'
    using that
  proof (induction ks arbitrary: m' e' rule: rev_induct)
    case Nil
    then show ?case using assms(1,2)
      by (intro exI[of _ "dmTrackerMap m"]) (auto simp: all_trackers_def dest: map_of_SomeD intro: rev_image_eqI)
  next
    case (snoc k ks)
    obtain m1 e1 where 1: "foldl (forTracker f) (m, e) ks = (m1, e1)" by fastforce
    obtain mp where mp: "m1 = m\<lparr>dmTrackerMap := mp\<rparr>" "umap_ok mp" "length mp = length (dmTrackerMap m)"
      and q: "\<forall>k tr. map_of mp k = Some tr \<longrightarrow> (if k \<in> set ks then Q tr else P tr) \<and> k \<in> fst ` set (dmTrackerMap m)"
      using snoc.IH[OF 1] snoc.prems by auto
    have "forTracker f (m1, e1) k = (m', e')" using snoc.prems(1) 1 by simp
    from forTracker_spec[OF _ this] mp obtain mp' where mp': "m' = m\<lparr>dmTrackerMap := mp'\<rparr>" "umap_ok mp'" "length mp' = length (dmTrackerMap m)"
      and q': "\<forall>k'. map_of mp' k' = (if k' = k then map_option (\<lambda>tr. fst (f k (tr, e1))) (map_of mp k) else map_of mp k')" by auto
    have "(if k' \<in> set (ks @ [k]) then Q tr else P tr) \<and> k' \<in> fst ` set (dmTrackerMap m)" if kt: "map_of mp' k' = Some tr" for k' tr
    proof (cases "k' = k")
      case True
      then obtain tr0 where "map_of mp k = Some tr0" "tr = fst (f k (tr0, e1))" using kt q' by auto
      then show ?thesis using q snoc.prems(2) True assms(3) by (auto dest!: spec[of _ k])
    qed (use kt q q' in auto)
    then show ?case using mp' by blast
  qed
  from this[of "map fst (dmTrackerMap m)" m' e'] assms(1,4)
  obtain mp where "m' = m\<lparr>dmTrackerMap := mp\<rparr>" "umap_ok mp" "length mp = length (dmTrackerMap m)"
      "\<forall>k tr. map_of mp k = Some tr \<longrightarrow> (if k \<in> set (map fst (dmTrackerMap m)) then Q tr else P tr) \<and> k \<in> fst ` set (dmTrackerMap m)"
    by (auto simp: forTrackers_def umap_ok_def)
  then show ?thesis by (intro exI[of _ mp]) (auto simp: all_trackers_def)
qed

text \<open>Flushing moves every tracker to the bucket the metric moves to.\<close>

definition moved :: "'a metric_producer_scheme \<Rightarrow> ns \<Rightarrow> 'b duration_tracker_scheme \<Rightarrow> bool" where
  "moved m t d \<longleftrightarrow>
     (let e = getCurrentBucketEndTimeNs m; n = (if t \<ge> e then 1 + (t - e) div mpBucketSizeNs m else 0)
      in dtStartTimeNs d = mpTimeBaseNs m \<and> dtBucketSizeNs d = mpBucketSizeNs m \<and> dtCurrentBucketNum d = mpCurrentBucketNum m + n \<and>
         dtCurrentBucketStartTimeNs d = (if n > 0 then e + (n - 1) * mpBucketSizeNs m else t))"

lemma moveBucket_moved: "in_step m d \<Longrightarrow> 0 < mpBucketSizeNs m \<Longrightarrow> moved m t (moveBucket t d)"
  using next_bucket_bounds(1)[of "mpBucketSizeNs m" "getCurrentBucketEndTimeNs m" t]
  by (auto simp: moved_def in_step_def moveBucket_def bucketsForward_def dt_getCurrentBucketEndTimeNs_def getCurrentBucketEndTimeNs_def Let_def)

lemma flushStateKeys_step:
  "foldl (flushStateKey t full endNs) (d, out, e) ks = (d', out', e') \<Longrightarrow> in_step m d' = in_step m d"
proof (induction ks arbitrary: d out e)
  case (Cons k ks)
  obtain d1 out1 e1 where 1: "flushStateKey t full endNs (d, out, e) k = (d1, out1, e1)" by (metis prod_cases3)
  then have "in_step m d1 = in_step m d"
    by (auto simp: flushStateKey_def Let_def in_step_def split: if_splits prod.splits)
  then show ?case using Cons 1 by simp
qed simp

lemma oring_flush_moved:
  assumes "in_step m d" "oring_flushCurrentBucket t (d, out, e) = ((d', out', e'), b)" "0 < mpBucketSizeNs m"
  shows "moved m t d'"
proof -
  let ?en = "flushedBucketEnd t d" and ?full = "dt_getCurrentBucketEndTimeNs d"
  define d1 where "d1 = (if length (odStarted d) > 0 then recordDuration ?en d else d)"
  obtain d2 out2 e2 where f: "foldl (flushStateKey t ?full ?en) (d1, out, e) (map fst (dtStateKeyDurationMap d1)) = (d2, out2, e2)" by (metis prod_cases3)
  have "in_step m d1" using assms(1) by (simp add: d1_def in_step_def)
  then have s2: "in_step m d2" by (rule flushStateKeys_step[OF f, THEN iffD2])
  have "d' = (moveBucket t d2)\<lparr>odLastStartTime := dtCurrentBucketStartTimeNs (moveBucket t d2)\<rparr>"
    using assms(2) unfolding oring_flushCurrentBucket_def Let_def prod.case d1_def[symmetric] f by (simp split: prod.splits)
  then show ?thesis using moveBucket_moved[OF s2 assms(3), of t] by (simp add: moved_def Let_def)
qed

fun tracker_flushed :: "duration_metric \<Rightarrow> ns \<Rightarrow> duration_tracker_ptr \<Rightarrow> bool" where
  "tracker_flushed m t (OringTracker d) \<longleftrightarrow> moved m t d \<and> dmAggregationType m = agg_SUM \<and> oring_ok d t"
| "tracker_flushed m t (MaxTracker d) \<longleftrightarrow> moved m t d \<and> dmAggregationType m = agg_MAX_SPARSE"

lemma tr_flush_spec:
  assumes "tracker_fits m now tr" "now \<le> t" "dmAggregationType m = agg_SUM \<longrightarrow> output_ok out"
    and "tr_flushCurrentBucket t (tr, out, e) = ((tr', out', e'), b)" "0 < mpBucketSizeNs m"
  shows "tracker_flushed m t tr' \<and> (stopped tr \<longrightarrow> stopped tr') \<and> (dmAggregationType m = agg_SUM \<longrightarrow> output_ok out')"
proof (cases tr)
  case (OringTracker d)
  then have d: "in_step m d" "oring_ok d now" "output_ok out" "dmAggregationType m = agg_SUM" using assms(1,3) by auto
  obtain d' where f: "oring_flushCurrentBucket t (d, out, e) = ((d', out', e'), b)" "tr' = OringTracker d'"
    using assms(4) OringTracker by (auto split: prod.splits)
  then show ?thesis using oring_flush_spec[OF d(2) assms(2) d(3), of e] oring_flush_moved[OF d(1) f(1) assms(5)] OringTracker d(4) by auto
next
  case (MaxTracker d)
  then have d: "in_step m d" "dmAggregationType m = agg_MAX_SPARSE" using assms(1) by auto
  obtain d' where f: "max_flushCurrentBucket t (d, out) = ((d', out'), b)" "tr' = MaxTracker d'"
    using assms(4) MaxTracker by (auto split: prod.splits)
  have "in_step m (d\<lparr>mdInfos := x\<rparr>)" for x using d(1) by (simp add: in_step_def)
  from moveBucket_moved[OF this assms(5)] f have "moved m t d'"
    by (auto simp: max_flushCurrentBucket_def Let_def moved_def)
  then show ?thesis using f(2) d(2) MaxTracker by simp
qed

lemma flushTrackers_spec:
  assumes "dm_ok m now" "now \<le> t" "foldl (flushTracker t) (m, e) (map fst (dmTrackerMap m)) = (m', e')"
  shows "\<exists>mp out. m' = m\<lparr>dmPastBuckets := out, dmTrackerMap := mp\<rparr> \<and> umap_ok mp \<and> length mp \<le> length (dmTrackerMap m) \<and>
    all_trackers (tracker_flushed m t) m' \<and> (all_trackers stopped m \<longrightarrow> all_trackers stopped m') \<and>
    (dmAggregationType m = agg_SUM \<longrightarrow> output_ok out)"
proof -
  have B: "0 < mpBucketSizeNs m" using assms(1) by (simp add: dm_ok_def bucket_times_ok_def)
  have "\<exists>mp out. m' = m\<lparr>dmPastBuckets := out, dmTrackerMap := mp\<rparr> \<and> umap_ok mp \<and> length mp \<le> length (dmTrackerMap m) \<and>
      (\<forall>k tr. map_of mp k = Some tr \<longrightarrow> k \<in> fst ` set (dmTrackerMap m) \<and> (if k \<in> set ks then tracker_flushed m t tr else tracker_fits m now tr)
         \<and> (all_trackers stopped m \<longrightarrow> stopped tr)) \<and>
      (dmAggregationType m = agg_SUM \<longrightarrow> output_ok out)"
    if "foldl (flushTracker t) (m, e) ks = (m', e')" "distinct ks" for ks m' e'
    using that
  proof (induction ks arbitrary: m' e' rule: rev_induct)
    case Nil
    then show ?case using assms(1)
      by (intro exI[of _ "dmTrackerMap m"] exI[of _ "dmPastBuckets m"])
         (auto simp: dm_ok_def all_trackers_def dest: map_of_SomeD intro: rev_image_eqI)
  next
    case (snoc k ks)
    obtain m1 e1 where 1: "foldl (flushTracker t) (m, e) ks = (m1, e1)" by fastforce
    obtain mp out where m1: "m1 = m\<lparr>dmPastBuckets := out, dmTrackerMap := mp\<rparr>" "umap_ok mp" "length mp \<le> length (dmTrackerMap m)"
      and q: "\<forall>k tr. map_of mp k = Some tr \<longrightarrow> k \<in> fst ` set (dmTrackerMap m) \<and>
         (if k \<in> set ks then tracker_flushed m t tr else tracker_fits m now tr) \<and> (all_trackers stopped m \<longrightarrow> stopped tr)"
      and o: "dmAggregationType m = agg_SUM \<longrightarrow> output_ok out"
      using snoc.IH[OF 1] snoc.prems by auto
    have f: "flushTracker t (m1, e1) k = (m', e')" using snoc.prems(1) 1 by simp
    show ?case
    proof (cases "map_of mp k")
      case None
      then have "m' = m1" using f m1 by (simp add: flushTracker_def)
      moreover have "k' \<noteq> k" if "map_of mp k' = Some tr" for k' tr using None that by auto
      ultimately show ?thesis using m1 q o by (intro exI[of _ mp] exI[of _ out]) auto
    next
      case (Some tr)
      obtain tr' out' e2 b where tf: "tr_flushCurrentBucket t (tr, out, e1) = ((tr', out', e2), b)" by (metis prod.exhaust)
      have k: "k \<notin> set ks" using snoc.prems(2) by auto
      have fits: "tracker_fits m now tr" "all_trackers stopped m \<longrightarrow> stopped tr" "k \<in> fst ` set (dmTrackerMap m)" using q Some k by auto
      note sp = tr_flush_spec[OF fits(1) assms(2) o tf B]
      define mp' where "mp' = (if b then AList.delete k mp else AList.update k tr' mp)"
      have "m' = m\<lparr>dmPastBuckets := out', dmTrackerMap := mp'\<rparr>" using f Some tf unfolding m1(1) by (auto simp: flushTracker_def mp'_def)
      moreover have "umap_ok mp'" using m1(2) by (simp add: mp'_def)
      moreover have "length mp' \<le> length (dmTrackerMap m)" using m1(3) Some length_delete_le[of k mp]
        by (auto simp: mp'_def length_update_present)
      moreover have "map_of mp' k' = Some tr0 \<longrightarrow> k' \<in> fst ` set (dmTrackerMap m) \<and>
          (if k' \<in> set (ks @ [k]) then tracker_flushed m t tr0 else tracker_fits m now tr0) \<and> (all_trackers stopped m \<longrightarrow> stopped tr0)" for k' tr0
        using q sp fits by (auto simp: mp'_def split: if_splits)
      ultimately show ?thesis using sp by blast
    qed
  qed
  moreover have "distinct (map fst (dmTrackerMap m))" using assms(1) by (simp add: dm_ok_def umap_ok_def)
  ultimately obtain mp out where m': "m' = m\<lparr>dmPastBuckets := out, dmTrackerMap := mp\<rparr>" "umap_ok mp"
    "length mp \<le> length (dmTrackerMap m)" "dmAggregationType m = agg_SUM \<longrightarrow> output_ok out"
    and q: "\<forall>k tr. map_of mp k = Some tr \<longrightarrow> k \<in> fst ` set (dmTrackerMap m) \<and>
       (if k \<in> set (map fst (dmTrackerMap m)) then tracker_flushed m t tr else tracker_fits m now tr) \<and> (all_trackers stopped m \<longrightarrow> stopped tr)"
    using assms(3) by blast
  then show ?thesis by (intro exI[of _ mp] exI[of _ out]) (auto simp: all_trackers_def)
qed

lemma oring_ok_mono: "oring_ok d now \<Longrightarrow> now \<le> t \<Longrightarrow> oring_ok d t"
  by (auto simp: oring_ok_def split: if_splits)

lemma tracker_fits_mono: "tracker_fits m now tr \<Longrightarrow> now \<le> t \<Longrightarrow> tracker_fits m t tr"
  by (cases tr) (auto intro: oring_ok_mono)

lemma dm_ok_mono: "dm_ok m now \<Longrightarrow> now \<le> t \<Longrightarrow> dm_ok m t"
  by (auto simp: dm_ok_def all_trackers_def intro: tracker_fits_mono)

definition keeps_stopped :: "duration_metric \<Rightarrow> duration_metric \<Rightarrow> bool" where
  "keeps_stopped m' m \<longleftrightarrow> same_metric m' m \<and> (all_trackers stopped m \<longrightarrow> all_trackers stopped m')"

lemma keeps_stopped_trans: "keeps_stopped a b \<Longrightarrow> keeps_stopped b c \<Longrightarrow> keeps_stopped a c"
  by (auto simp: keeps_stopped_def same_metric_def)

lemma dm_flushCurrent_ok:
  assumes ok: "dm_ok m now" "now \<le> t"
    and f: "foldl (flushTracker t) (m, e) (map fst (dmTrackerMap m)) = (m1, e1)"
    and m': "m' = m1\<lparr>mpCurrentBucketStartTimeNs := (if n > 0 then en + (n - 1) * mpBucketSizeNs m else t), mpCurrentBucketNum := mpCurrentBucketNum m + n\<rparr>"
    and en: "en = getCurrentBucketEndTimeNs m" and n: "n = (if t \<ge> en then 1 + (t - en) div mpBucketSizeNs m else 0)"
  shows "dm_ok m' t \<and> t < getCurrentBucketEndTimeNs m' \<and> keeps_stopped m' m"
proof -
  obtain mp out where m1: "m1 = m\<lparr>dmPastBuckets := out, dmTrackerMap := mp\<rparr>" "umap_ok mp" "length mp \<le> length (dmTrackerMap m)"
    and q: "all_trackers (tracker_flushed m t) m1" "all_trackers stopped m \<longrightarrow> all_trackers stopped m1"
    and o: "dmAggregationType m = agg_SUM \<longrightarrow> output_ok out"
    using flushTrackers_spec[OF ok f] by blast
  have bt: "bucket_times_ok m" "0 < mpBucketSizeNs m" "mpCurrentBucketStartTimeNs m \<le> now" using ok(1) by (auto simp: dm_ok_def bucket_times_ok_def)
  have t': "bucket_times_ok m' \<and> mpCurrentBucketStartTimeNs m' \<le> t \<and> t < getCurrentBucketEndTimeNs m'"
    using next_bucket_bounds[OF bt(2), of en t] bt ok(2) n en
    by (auto simp: m' m1 bucket_times_ok_def getCurrentBucketEndTimeNs_def algebra_simps)
  have "tracker_fits m' t tr" if "tracker_flushed m t tr" for tr
    using that unfolding m' m1(1) by (cases tr) (auto simp: moved_def in_step_def n en Let_def)
  then have "all_trackers (tracker_fits m' t) m'" using q(1) by (auto simp: all_trackers_def m')
  moreover have "keeps_stopped m' m" using q(2) by (auto simp: keeps_stopped_def same_metric_def m' m1 all_trackers_def)
  ultimately show ?thesis using t' m1(2,3) o ok(1) by (auto simp: dm_ok_def m' m1(1))
qed

lemma dm_flushIfNeeded_ok:
  assumes "dm_ok m now" "now \<le> t" "dm_flushIfNeededLocked t (m, e) = (m', e')"
  shows "dm_ok m' t \<and> t < getCurrentBucketEndTimeNs m' \<and> keeps_stopped m' m"
proof (cases "getCurrentBucketEndTimeNs m > t")
  case True
  then show ?thesis using assms dm_ok_mono[OF assms(1,2)] by (auto simp: dm_flushIfNeededLocked_def keeps_stopped_def)
next
  case False
  let ?en = "getCurrentBucketEndTimeNs m"
  let ?n = "1 + (t - ?en) div mpBucketSizeNs m"
  obtain m1 e1 where f: "foldl (flushTracker t) (m, e) (map fst (dmTrackerMap m)) = (m1, e1)" by fastforce
  have sz: "0 < mpBucketSizeNs m" using assms(1) by (simp add: dm_ok_def bucket_times_ok_def)
  have n1: "?n > 0" using next_bucket_bounds(1)[OF sz, of ?en t] False by simp
  obtain mp out where "m1 = m\<lparr>dmPastBuckets := out, dmTrackerMap := mp\<rparr>" using flushTrackers_spec[OF assms(1,2) f] by blast
  then have num: "mpCurrentBucketNum m1 = mpCurrentBucketNum m" by simp
  have "m' = m1\<lparr>mpCurrentBucketStartTimeNs := (if ?n > 0 then ?en + (?n - 1) * mpBucketSizeNs m else t), mpCurrentBucketNum := mpCurrentBucketNum m + ?n\<rparr>"
    using assms(3) False f n1 num by (simp add: dm_flushIfNeededLocked_def dm_flushCurrentBucketLocked_def Let_def)
  then show ?thesis using dm_flushCurrent_ok[OF assms(1,2) f _ refl, of m' ?n] False by simp
qed

lemma dm_flush_ok:
  assumes "dm_ok m now" "now \<le> t" "dm_flushLocked t (m, e) = (m', e')"
  shows "dm_ok m' t \<and> t < getCurrentBucketEndTimeNs m' \<and> keeps_stopped m' m"
proof -
  obtain m1 e1 where 1: "dm_flushIfNeededLocked t (m, e) = (m1, e1)" by fastforce
  note a = dm_flushIfNeeded_ok[OF assms(1,2) 1]
  obtain m2 e2 where f: "foldl (flushTracker t) (m1, e1) (map fst (dmTrackerMap m1)) = (m2, e2)" by fastforce
  have ok1: "dm_ok m1 t" using a by simp
  obtain mp out where "m2 = m1\<lparr>dmPastBuckets := out, dmTrackerMap := mp\<rparr>" using flushTrackers_spec[OF ok1 order.refl f] by blast
  then have "m' = m2\<lparr>mpCurrentBucketStartTimeNs := (if (0::int) > 0 then getCurrentBucketEndTimeNs m1 + (0 - 1) * mpBucketSizeNs m1 else t),
      mpCurrentBucketNum := mpCurrentBucketNum m1 + 0\<rparr>"
    using assms(3) 1 f by (cases m1) (auto simp: dm_flushLocked_def dm_flushCurrentBucketLocked_def)
  from dm_flushCurrent_ok[OF ok1 order.refl f this refl] a show ?thesis using keeps_stopped_trans by auto
qed

section \<open>Every operation of the metric keeps the invariant\<close>

lemma max_ops_in_step:
  "in_step m (fst (max_noteStart k c t ck (d, e))) = in_step m d"
  "in_step m (fst (max_noteStop k t sa (d, e))) = in_step m d"
  "in_step m (fst (noteConditionChanged c t (d, e) k)) = in_step m d"
  by (auto simp: max_noteStart_def max_noteStop_def noteConditionChanged_def finishStop_def setInfo_def in_step_def Let_def
      split: duration_state.split option.split)

lemma max_folds_in_step:
  assumes "\<And>d e k. in_step m (fst (f (d, e) k)) = in_step m d"
  shows "in_step m (fst (foldl f (d, e) ks)) = in_step m (d :: max_tracker)"
proof (induction ks arbitrary: d e)
  case (Cons k ks)
  obtain d1 e1 where "f (d, e) k = (d1, e1)" by fastforce
  then show ?case using Cons.IH[of d1 e1] assms[of d e k] by simp
qed simp

lemma max_bulk_in_step:
  "in_step m (fst (max_noteStopAll t (d, e))) = in_step m d"
  "in_step m (fst (max_onConditionChanged c t (d, e))) = in_step m d"
  "in_step m (fst (max_onSlicedConditionMayChange conditions t (d, e))) = in_step m d"
  unfolding max_noteStopAll_def max_onConditionChanged_def max_onSlicedConditionMayChange_def
  by (rule max_folds_in_step; simp add: max_ops_in_step Let_def)+

text \<open>A tracker that may be told of an event at time \<open>t\<close>: it is in its bucket, or has nothing to measure.\<close>

definition ready :: "duration_metric \<Rightarrow> ns \<Rightarrow> duration_tracker_ptr \<Rightarrow> bool" where
  "ready m t tr \<longleftrightarrow> tracker_fits m t tr \<and> (t < getCurrentBucketEndTimeNs m \<or> stopped tr)"

lemma in_step_end: "in_step m d \<Longrightarrow> dt_getCurrentBucketEndTimeNs d = getCurrentBucketEndTimeNs m"
  by (simp add: in_step_def dt_getCurrentBucketEndTimeNs_def getCurrentBucketEndTimeNs_def)

lemma in_step_same: "same_bucket d' d \<Longrightarrow> in_step m d' = in_step m d"
  by (simp add: same_bucket_def in_step_def)

lemma onEither_ready:
  assumes r: "ready m t tr"
    and oring: "\<And>d. tr = OringTracker d \<Longrightarrow> in_step m d \<Longrightarrow> oring_ok d t \<Longrightarrow> (odStarted d \<noteq> [] \<longrightarrow> t < dt_getCurrentBucketEndTimeNs d) \<Longrightarrow>
      dt_getCurrentBucketEndTimeNs d = getCurrentBucketEndTimeNs m \<Longrightarrow>
      (case f (d, e) of (d', e') \<Rightarrow> oring_ok d' t \<and> same_bucket d' d \<and> Q (OringTracker d') \<and>
         (t < getCurrentBucketEndTimeNs m \<or> odStarted d' = []))"
    and maxt: "\<And>d. tr = MaxTracker d \<Longrightarrow> in_step m (fst (g (d, e))) = in_step m d" "\<And>d. Q (MaxTracker d)"
  shows "ready m t (fst (onEither f g (tr, e))) \<and> Q (fst (onEither f g (tr, e)))"
proof (cases tr)
  case (OringTracker d)
  then have d: "in_step m d" "oring_ok d t" "odStarted d \<noteq> [] \<longrightarrow> t < getCurrentBucketEndTimeNs m" "dmAggregationType m = agg_SUM"
    using r by (auto simp: ready_def)
  then show ?thesis using oring[OF OringTracker] in_step_end[OF d(1)] OringTracker
    by (auto simp: ready_def in_step_same split: prod.splits)
next
  case (MaxTracker d)
  then show ?thesis using r maxt by (auto simp: ready_def split: prod.splits)
qed

lemma tr_noteStart_ready:
  assumes "ready m t tr" "c \<longrightarrow> t < getCurrentBucketEndTimeNs m"
  shows "ready m t (fst (tr_noteStart k c t ck (tr, e))) \<and> (\<not> c \<and> stopped tr \<longrightarrow> stopped (fst (tr_noteStart k c t ck (tr, e))))"
  unfolding tr_noteStart_def
proof (rule onEither_ready[OF assms(1)])
  fix d assume d: "tr = OringTracker d" "oring_ok d t" "odStarted d \<noteq> [] \<longrightarrow> t < dt_getCurrentBucketEndTimeNs d"
    "dt_getCurrentBucketEndTimeNs d = getCurrentBucketEndTimeNs m"
  then show "case oring_noteStart k c t ck (d, e) of (d', e') \<Rightarrow> oring_ok d' t \<and> same_bucket d' d \<and>
      (\<not> c \<and> stopped tr \<longrightarrow> stopped (OringTracker d')) \<and> (t < getCurrentBucketEndTimeNs m \<or> odStarted d' = [])"
    using oring_noteStart_keeps[OF d(2), of c k ck e] assms(2) by auto
qed (simp_all add: max_ops_in_step)

lemma tr_noteStop_ready:
  assumes "ready m t tr"
  shows "ready m t (fst (tr_noteStop k t sa (tr, e))) \<and> (stopped tr \<longrightarrow> stopped (fst (tr_noteStop k t sa (tr, e))))"
  unfolding tr_noteStop_def
proof (rule onEither_ready[OF assms(1)])
  fix d assume d: "tr = OringTracker d" "oring_ok d t" "odStarted d \<noteq> [] \<longrightarrow> t < dt_getCurrentBucketEndTimeNs d"
    "dt_getCurrentBucketEndTimeNs d = getCurrentBucketEndTimeNs m"
  then show "case oring_noteStop k t sa (d, e) of (d', e') \<Rightarrow> oring_ok d' t \<and> same_bucket d' d \<and>
      (stopped tr \<longrightarrow> stopped (OringTracker d')) \<and> (t < getCurrentBucketEndTimeNs m \<or> odStarted d' = [])"
    using oring_noteStop_keeps[OF d(2,3), of k sa e] by auto
qed (simp_all add: max_ops_in_step)

lemma tr_noteStopAll_ready:
  assumes "ready m t tr"
  shows "ready m t (fst (tr_noteStopAll t (tr, e))) \<and> stopped (fst (tr_noteStopAll t (tr, e)))"
  unfolding tr_noteStopAll_def
proof (rule onEither_ready[OF assms(1)])
  fix d assume d: "oring_ok d t" "odStarted d \<noteq> [] \<longrightarrow> t < dt_getCurrentBucketEndTimeNs d"
  then show "case oring_noteStopAll t (d, e) of (d', e') \<Rightarrow> oring_ok d' t \<and> same_bucket d' d \<and>
      stopped (OringTracker d') \<and> (t < getCurrentBucketEndTimeNs m \<or> odStarted d' = [])"
    using oring_noteStopAll_keeps[OF d, of e] by auto
qed (simp_all add: max_bulk_in_step)

lemma tr_onConditionChanged_ready:
  assumes "ready m t tr" "c \<longrightarrow> t < getCurrentBucketEndTimeNs m"
  shows "ready m t (fst (tr_onConditionChanged c t (tr, e))) \<and> (\<not> c \<longrightarrow> stopped (fst (tr_onConditionChanged c t (tr, e))))"
  unfolding tr_onConditionChanged_def
proof (rule onEither_ready[OF assms(1)])
  fix d assume d: "oring_ok d t" "odStarted d \<noteq> [] \<longrightarrow> t < dt_getCurrentBucketEndTimeNs d"
    "dt_getCurrentBucketEndTimeNs d = getCurrentBucketEndTimeNs m"
  then show "case oring_onConditionChanged c t (d, e) of (d', e') \<Rightarrow> oring_ok d' t \<and> same_bucket d' d \<and>
      (\<not> c \<longrightarrow> stopped (OringTracker d')) \<and> (t < getCurrentBucketEndTimeNs m \<or> odStarted d' = [])"
    using oring_onConditionChanged_keeps[OF d(1), of c e] assms(2) by auto
qed (simp_all add: max_bulk_in_step)

lemma tr_onSliced_ready:
  assumes "ready m t tr" "t < getCurrentBucketEndTimeNs m"
  shows "ready m t (fst (tr_onSlicedConditionMayChange conditions t (tr, e))) \<and> True"
  unfolding tr_onSlicedConditionMayChange_def
proof (rule onEither_ready[OF assms(1)])
  fix d assume d: "oring_ok d t" "dt_getCurrentBucketEndTimeNs d = getCurrentBucketEndTimeNs m"
  then show "case oring_onSlicedConditionMayChange conditions t (d, e) of (d', e') \<Rightarrow> oring_ok d' t \<and> same_bucket d' d \<and>
      True \<and> (t < getCurrentBucketEndTimeNs m \<or> odStarted d' = [])"
    using oring_sliced_keeps[OF d(1), of conditions e] assms(2) by auto
qed (simp_all add: max_bulk_in_step)

lemma tr_onStateChanged_ready:
  assumes "ready m t tr"
  shows "ready m t (fst (tr_onStateChanged t a v (tr, e))) \<and> (stopped tr \<longrightarrow> stopped (fst (tr_onStateChanged t a v (tr, e))))"
  unfolding tr_onStateChanged_def
proof (rule onEither_ready[OF assms(1)])
  fix d assume d: "tr = OringTracker d" "oring_ok d t" "odStarted d \<noteq> [] \<longrightarrow> t < dt_getCurrentBucketEndTimeNs d"
    "dt_getCurrentBucketEndTimeNs d = getCurrentBucketEndTimeNs m"
  then show "case oring_onStateChanged t a v (d, e) of (d', e') \<Rightarrow> oring_ok d' t \<and> same_bucket d' d \<and>
      (stopped tr \<longrightarrow> stopped (OringTracker d')) \<and> (t < getCurrentBucketEndTimeNs m \<or> odStarted d' = [])"
    using oring_onStateChanged_keeps[OF d(2,3), of a v e] by auto
qed (simp_all add: max_onStateChanged_def)

lemma all_ready: "dm_ok m t \<Longrightarrow> t < getCurrentBucketEndTimeNs m \<or> all_trackers stopped m \<Longrightarrow> all_trackers (ready m t) m"
  by (auto simp: all_trackers_def ready_def dm_ok_def)

lemma dm_ok_trackers:
  assumes "dm_ok m t" "umap_ok mp" "length mp \<le> kDimensionKeySizeHardLimit" "\<forall>k tr. map_of mp k = Some tr \<longrightarrow> tracker_fits m t tr"
  shows "dm_ok (m\<lparr>dmTrackerMap := mp\<rparr>) t"
  using assms by (simp add: dm_ok_def all_trackers_def tracker_fits_cong bucket_times_ok_def getCurrentBucketEndTimeNs_def)

lemma forTrackers_ok:
  assumes ok: "dm_ok m t" and P: "all_trackers P m" and st: "\<And>k tr e. P tr \<Longrightarrow> ready m t (fst (f k (tr, e))) \<and> Q (fst (f k (tr, e)))"
    and f: "forTrackers f (m, e) = (m', e')"
  shows "dm_ok m' t \<and> same_metric m' m \<and> all_trackers Q m'"
proof -
  have "umap_ok (dmTrackerMap m)" using ok by (simp add: dm_ok_def)
  from forTrackers_spec[OF this P _ f, of "\<lambda>tr. ready m t tr \<and> Q tr"] st obtain mp where
    m': "m' = m\<lparr>dmTrackerMap := mp\<rparr>" "umap_ok mp" "length mp = length (dmTrackerMap m)" "all_trackers (\<lambda>tr. ready m t tr \<and> Q tr) m'"
    by blast
  have "dm_ok m' t" unfolding m'(1) using m' ok by (intro dm_ok_trackers) (auto simp: all_trackers_def ready_def dm_ok_def)
  then show ?thesis using m' by (auto simp: same_metric_def all_trackers_def)
qed

lemma dm_inv_keeps: "dm_inv m now \<Longrightarrow> dm_ok m' t \<Longrightarrow> keeps_stopped m' m \<Longrightarrow> dm_inv m' t"
  by (auto simp: dm_inv_def keeps_stopped_def same_metric_def dm_running_def)

lemma dm_condition_ok:
  assumes inv: "dm_inv m now" and t: "now \<le> t" and e: "dm_onConditionChangedLocked c t (m, e) = (m', e')"
  shows "dm_inv m' t"
proof -
  let ?m = "m\<lparr>mpCondition := (if c then kTrue else kFalse)\<rparr>"
  have ok: "dm_ok ?m now"
    using inv by (simp add: dm_inv_def dm_ok_def all_trackers_def tracker_fits_cong bucket_times_ok_def getCurrentBucketEndTimeNs_def)
  show ?thesis
  proof (cases "mIsActive (mpActivations m)")
    case False
    then have "m' = ?m" using e by (auto simp: dm_onConditionChangedLocked_def Let_def)
    moreover have "all_trackers stopped m" using inv False by (simp add: dm_inv_def dm_running_def)
    ultimately show ?thesis using dm_ok_mono[OF ok t] by (simp add: dm_inv_def all_trackers_def)
  next
    case True
    obtain m1 e1 where 1: "dm_flushIfNeededLocked t (?m, e) = (m1, e1)" by fastforce
    then have f: "forTrackers (\<lambda>_. tr_onConditionChanged c t) (m1, e1) = (m', e')"
      using e True by (simp add: dm_onConditionChangedLocked_def Let_def)
    note a = dm_flushIfNeeded_ok[OF ok t 1]
    have "all_trackers (ready m1 t) m1" using a all_ready by blast
    from forTrackers_ok[where Q = "\<lambda>tr. \<not> c \<longrightarrow> stopped tr", OF _ this _ f] tr_onConditionChanged_ready a
    have "dm_ok m' t \<and> same_metric m' m1 \<and> all_trackers (\<lambda>tr. \<not> c \<longrightarrow> stopped tr) m'" by blast
    then show ?thesis using a True by (auto simp: dm_inv_def dm_running_def keeps_stopped_def same_metric_def all_trackers_def)
  qed
qed

lemma dm_opt1_ok:
  assumes ok: "dm_ok m t" and b: "t < getCurrentBucketEndTimeNs m"
    and e: "onSlicedConditionMayChangeLocked_opt1 conditions t (m, e) = (m', e')"
  shows "dm_ok m' t \<and> same_metric m' m"
proof -
  have frame: "dm_ok (m\<lparr>dmUnSlicedPartCondition := c\<rparr>) t \<and> same_metric (m\<lparr>dmUnSlicedPartCondition := c\<rparr>) m \<and>
      t < getCurrentBucketEndTimeNs (m\<lparr>dmUnSlicedPartCondition := c\<rparr>)" for c
    using ok b by (simp add: dm_ok_def all_trackers_def tracker_fits_cong bucket_times_ok_def getCurrentBucketEndTimeNs_def same_metric_def)
  have step: "dm_ok m2 t \<and> same_metric m2 m"
    if m1: "dm_ok m1 t \<and> same_metric m1 m \<and> t < getCurrentBucketEndTimeNs m1"
      and f: "forTrackers f (m1, e) = (m2, e2)" and keeps: "\<And>k tr e. ready m1 t tr \<Longrightarrow> ready m1 t (fst (f k (tr, e)))" for m1 m2 f e2
  proof -
    have "all_trackers (ready m1 t) m1" using m1 all_ready by blast
    from forTrackers_ok[where Q = "\<lambda>_. True", OF _ this _ f] keeps m1 show ?thesis by (auto simp: same_metric_def)
  qed
  have cc: "ready m1 t (fst (tr_onConditionChanged c t tr))" if "ready m1 t (fst tr)" "t < getCurrentBucketEndTimeNs m1" for m1 c tr
    using tr_onConditionChanged_ready[of m1 t "fst tr" c "snd tr"] that by simp
  let ?idx = "mpConditionTrackerIndex m" and ?fuel = "length conditions"
  define simple where "simple = IsSimpleCondition conditions ?idx"
  define m1 where "m1 = (if simple then m else m\<lparr>dmUnSlicedPartCondition := getUnSlicedPartConditionState conditions ?idx\<rparr>)"
  define cur where "cur = (if simple then True else state_code (dmUnSlicedPartCondition m1) > 0)"
  define F where "F = (\<lambda>whatKey (tr :: tracker_state).
      case map_of (case getSlicedDimensionMap ?fuel conditions ?idx of None \<Rightarrow> [] | Some sm \<Rightarrow> sm) (linkedConditionKey m1 whatKey) of
        Some n \<Rightarrow> if n > 0 then tr_onConditionChanged cur t tr else tr | None \<Rightarrow> tr)"
  define G where "G = (\<lambda>whatKey (tr0 :: tracker_state).
      let key = linkedConditionKey m1 whatKey;
          tr1 = (if key \<in> set (the (getChangedToTrueDimensions ?fuel conditions (nat ?idx))) then tr_onConditionChanged True t tr0 else tr0)
      in if key \<in> set (the (getChangedToFalseDimensions ?fuel conditions (nat ?idx))) then tr_onConditionChanged False t tr1 else tr1)"
  have m1: "dm_ok m1 t \<and> same_metric m1 m \<and> t < getCurrentBucketEndTimeNs m1" using frame ok b by (simp add: m1_def)
  have "(m', e') = (m, e) \<or> (m', e') = (m1, e) \<or> forTrackers F (m1, e) = (m', e') \<or> forTrackers G (m1, e) = (m', e')"
    using e unfolding onSlicedConditionMayChangeLocked_opt1_def Let_def prod.case simple_def[symmetric] m1_def[symmetric] cur_def[symmetric]
    by (simp add: F_def G_def Let_def split: if_splits)
  then show ?thesis
  proof (elim disjE)
    assume "forTrackers F (m1, e) = (m', e')"
    then show ?thesis by (rule step[OF m1]) (use cc m1 in \<open>auto simp: F_def split: option.split\<close>)
  next
    assume "forTrackers G (m1, e) = (m', e')"
    then show ?thesis by (rule step[OF m1]) (use cc m1 in \<open>auto simp: G_def Let_def\<close>)
  qed (use ok m1 in auto)
qed

lemma dm_sliced_internal_ok:
  assumes ok: "dm_ok m t" and b: "t < getCurrentBucketEndTimeNs m"
    and e: "onSlicedConditionMayChangeInternalLocked conditions t (m, e) = (m', e')"
  shows "dm_ok m' t \<and> same_metric m' m"
proof (cases "IsChangedDimensionTrackable conditions (mpConditionTrackerIndex m) \<and> mpHasLinksToAllConditionDimensionsInTracker m")
  case True
  then show ?thesis using dm_opt1_ok[OF ok b] e by (simp add: onSlicedConditionMayChangeInternalLocked_def)
next
  case False
  then have f: "forTrackers (\<lambda>_. tr_onSlicedConditionMayChange conditions t) (m, e) = (m', e')"
    using e unfolding onSlicedConditionMayChangeInternalLocked_def fst_conv if_not_P[OF False] by blast
  have "all_trackers (ready m t) m" using ok b all_ready by blast
  from forTrackers_ok[where Q = "\<lambda>_. True", OF ok this _ f] tr_onSliced_ready b show ?thesis by blast
qed

lemma dm_sliced_ok:
  assumes inv: "dm_inv m now" and t: "now \<le> t" and e: "dm_onSlicedConditionMayChangeLocked conditions t (m, e) = (m', e')"
  shows "dm_inv m' t"
proof (cases "mIsActive (mpActivations m)")
  case False
  then show ?thesis using e inv dm_ok_mono[OF _ t] by (auto simp: dm_onSlicedConditionMayChangeLocked_def dm_inv_def)
next
  case True
  obtain m1 e1 where 1: "dm_flushIfNeededLocked t (m, e) = (m1, e1)" by fastforce
  have ok: "dm_ok m now" using inv by (simp add: dm_inv_def)
  note a = dm_flushIfNeeded_ok[OF ok t 1]
  show ?thesis
  proof (cases "mpConditionSliced m1")
    case False
    then have "m' = m1" using e True 1 by (simp add: dm_onSlicedConditionMayChangeLocked_def Let_def)
    then show ?thesis using dm_inv_keeps[OF inv] a by blast
  next
    case sl: True
    then have "onSlicedConditionMayChangeInternalLocked conditions t (m1, e1) = (m', e')"
      using e True 1 by (simp add: dm_onSlicedConditionMayChangeLocked_def Let_def)
    from dm_sliced_internal_ok[OF _ _ this] a sl True show ?thesis
      by (auto simp: dm_inv_def dm_running_def same_metric_def keeps_stopped_def)
  qed
qed

lemma dm_active_ok:
  assumes ok: "dm_ok m now" and t: "now \<le> t" and e: "dm_onActiveStateChangedLocked conditions t (m, e) = (m', e')"
    and st: "mIsActive (mpActivations m) \<or> \<not> (mpConditionSliced m \<or> mpCondition m = kTrue) \<longrightarrow> all_trackers stopped m"
  shows "dm_inv m' t"
proof -
  let ?active = "mIsActive (mpActivations m)"
  obtain m1 e1 where 1: "(if \<not> ?active then dm_flushLocked t (m, e) else (m, e)) = (m1, e1)" by fastforce
  have m1: "dm_ok m1 t \<and> keeps_stopped m1 m \<and> (\<not> ?active \<longrightarrow> t < getCurrentBucketEndTimeNs m1)"
    using dm_flush_ok[OF ok t, of e m1 e1] dm_ok_mono[OF ok t] 1 by (auto simp: keeps_stopped_def split: if_splits)
  obtain m2 e2 where 2: "(if ?active then dm_flushIfNeededLocked t (m1, e1) else (m1, e1)) = (m2, e2)" by fastforce
  have m2: "dm_ok m2 t \<and> keeps_stopped m2 m \<and> t < getCurrentBucketEndTimeNs m2"
  proof (cases ?active)
    case True
    have "dm_ok m1 t" using m1 by simp
    then show ?thesis using dm_flushIfNeeded_ok[of m1 t t e1 m2 e2] 2 True m1 keeps_stopped_trans by auto
  qed (use 2 m1 in auto)
  have fr: "mpConditionSliced m1 = mpConditionSliced m" "mpCondition m1 = mpCondition m" "mpActivations m1 = mpActivations m"
    "mpConditionSliced m2 = mpConditionSliced m" "mpCondition m2 = mpCondition m" "mpActivations m2 = mpActivations m"
    using m1 m2 by (auto simp: keeps_stopped_def same_metric_def)
  have U: "(if \<not> mpConditionSliced m
       then (if mpCondition m \<noteq> kTrue then (m1, e1)
             else forTrackers (\<lambda>_. tr_onConditionChanged ?active t) (m2, e2))
       else if ?active then onSlicedConditionMayChangeInternalLocked conditions t (dm_flushIfNeededLocked t (m1, e1))
       else forTrackers (\<lambda>_. tr_onConditionChanged ?active t) (m1, e1)) = (m', e')"
    using e unfolding dm_onActiveStateChangedLocked_def Let_def fst_conv 1 fr 2 .
  show ?thesis
  proof (cases "mpConditionSliced m \<or> mpCondition m = kTrue")
    case False
    then have "m' = m1" using U by simp
    then show ?thesis using m1 st False by (auto simp: dm_inv_def keeps_stopped_def)
  next
    case run: True
    show ?thesis
    proof (cases "mpConditionSliced m \<and> ?active")
      case True
      then have "onSlicedConditionMayChangeInternalLocked conditions t (m2, e2) = (m', e')"
        using U 2 by simp
      from dm_sliced_internal_ok[OF _ _ this] m2 True fr show ?thesis by (auto simp: dm_inv_def dm_running_def same_metric_def)
    next
      case False
      then have f: "forTrackers (\<lambda>_. tr_onConditionChanged ?active t) (m2, e2) = (m', e')"
        using U run 2 by (simp split: if_splits)
      have "all_trackers (ready m2 t) m2" using m2 all_ready by blast
      from forTrackers_ok[where Q = "\<lambda>tr. \<not> ?active \<longrightarrow> stopped tr", OF _ this _ f] tr_onConditionChanged_ready m2
      have r: "dm_ok m' t \<and> same_metric m' m2 \<and> all_trackers (\<lambda>tr. \<not> ?active \<longrightarrow> stopped tr) m'" by blast
      show ?thesis
      proof (cases ?active)
        case True
        then have "dm_running m'" using r fr run by (auto simp: dm_running_def same_metric_def)
        then show ?thesis using r by (simp add: dm_inv_def)
      next
        case False
        then show ?thesis using r by (auto simp: dm_inv_def all_trackers_def)
      qed
    qed
  qed
qed

lemma dm_ok_activations: "dm_ok (m\<lparr>mpActivations := a\<rparr>) t = dm_ok m t"
  by (simp add: dm_ok_def all_trackers_def tracker_fits_cong bucket_times_ok_def getCurrentBucketEndTimeNs_def)

lemma dm_expire_ok:
  assumes inv: "dm_inv m now" and t: "now \<le> t" and e: "dm_flushIfExpire conditions t (m, e) = (m', e')"
  shows "dm_inv m' t"
proof -
  obtain a ch where f: "flushIfExpire t (mpActivations m) = (a, ch)" by fastforce
  have ok: "dm_ok (m\<lparr>mpActivations := a\<rparr>) now" using inv by (simp add: dm_inv_def dm_ok_activations)
  show ?thesis
  proof (cases ch)
    case True
    then have x: "\<not> mIsActive a" "mIsActive (mpActivations m)" using f by (auto simp: flushIfExpire_def Let_def split: if_splits prod.splits)
    have "dm_onActiveStateChangedLocked conditions t (m\<lparr>mpActivations := a\<rparr>, e) = (m', e')" using e f True by (simp add: dm_flushIfExpire_def)
    from dm_active_ok[OF ok t this] x inv show ?thesis by (auto simp: dm_inv_def dm_running_def all_trackers_def)
  next
    case False
    then have x: "mIsActive a = mIsActive (mpActivations m)" using f by (auto simp: flushIfExpire_def Let_def split: if_splits prod.splits)
    have "m' = m\<lparr>mpActivations := a\<rparr>" using e f False by (simp add: dm_flushIfExpire_def)
    then show ?thesis using dm_ok_mono[OF ok t] x inv by (auto simp: dm_inv_def dm_running_def all_trackers_def)
  qed
qed

lemma dm_activate_ok:
  assumes inv: "dm_inv m now" and t: "now \<le> t" and e: "dm_activateLocked conditions i t (m, e) = (m', e')"
  shows "dm_inv m' t"
proof -
  obtain a ch where f: "activateLocked i t (mpActivations m) = (a, ch)" by fastforce
  have ok: "dm_ok (m\<lparr>mpActivations := a\<rparr>) now" using inv by (simp add: dm_inv_def dm_ok_activations)
  show ?thesis
  proof (cases ch)
    case True
    then have x: "mIsActive a" "\<not> mIsActive (mpActivations m)" using f by (auto simp: activateLocked_def Let_def split: if_splits option.splits)
    have "dm_onActiveStateChangedLocked conditions t (m\<lparr>mpActivations := a\<rparr>, e) = (m', e')" using e f True by (simp add: dm_activateLocked_def)
    from dm_active_ok[OF ok t this] x inv show ?thesis by (auto simp: dm_inv_def dm_running_def all_trackers_def)
  next
    case False
    then have x: "mIsActive a = mIsActive (mpActivations m)" using f by (auto simp: activateLocked_def Let_def split: if_splits option.splits)
    have "m' = m\<lparr>mpActivations := a\<rparr>" using e f False by (simp add: dm_activateLocked_def)
    then show ?thesis using dm_ok_mono[OF ok t] x inv by (auto simp: dm_inv_def dm_running_def all_trackers_def)
  qed
qed

lemma dm_state_ok:
  assumes inv: "dm_inv m now" and t: "now \<le> t" and e: "dm_onStateChanged t atomId pk v (m, e) = (m', e')"
  shows "dm_inv m' t"
proof -
  obtain m1 e1 where 1: "dm_flushIfNeededLocked t (m, e) = (m1, e1)" by fastforce
  have ok: "dm_ok m now" using inv by (simp add: dm_inv_def)
  note a = dm_flushIfNeeded_ok[OF ok t 1]
  let ?f = "\<lambda>whatKey tr. if \<not> containsLinkedStateValues (keyValues whatKey) (keyValues pk) (mpMetric2StateLinks m1) atomId then tr
           else tr_onStateChanged t atomId (mapStateValue m atomId v) tr"
  have f: "forTrackers ?f (m1, e1) = (m', e')" using e 1 by (simp add: dm_onStateChanged_def Let_def)
  define P where "P = (\<lambda>tr. ready m1 t tr \<and> (all_trackers stopped m1 \<longrightarrow> stopped tr))"
  have "all_trackers P m1" using a all_ready[of m1 t] by (auto simp: P_def all_trackers_def)
  moreover have "ready m1 t (fst (?f k (tr, e))) \<and> (all_trackers stopped m1 \<longrightarrow> stopped (fst (?f k (tr, e))))" if "P tr" for k tr e
    using that tr_onStateChanged_ready[of m1 t tr] by (auto simp: P_def)
  ultimately have "dm_ok m' t \<and> same_metric m' m1 \<and> all_trackers (\<lambda>tr. all_trackers stopped m1 \<longrightarrow> stopped tr) m'"
    using forTrackers_ok[where Q = "\<lambda>tr. all_trackers stopped m1 \<longrightarrow> stopped tr" and P = P, OF _ _ _ f] a by blast
  moreover have "dm_inv m1 t" using dm_inv_keeps[OF inv] a by blast
  ultimately show ?thesis by (auto simp: dm_inv_def dm_running_def same_metric_def all_trackers_def)
qed

lemma create_ready:
  assumes "dm_ok m t"
  shows "ready m t (createDurationTracker key m) \<and> stopped (createDurationTracker key m)"
  using assms
  by (cases "dmAggregationType m")
     (auto simp: createDurationTracker_def Let_def ready_def dm_ok_def bucket_times_ok_def in_step_def oring_ok_def dt_ok_def
       newOringDurationTracker_def newMaxDurationTracker_def newDurationTracker_def duration_tracker.defs oring_tracker.defs max_tracker.defs
       dt_getCurrentBucketEndTimeNs_def getCurrentBucketEndTimeNs_def values_ok_def pendingOf_def algebra_simps)

lemma forTracker_ok:
  assumes ok: "dm_ok m t" and all: "all_trackers (ready m t) m" and f: "forTracker f (m, e) k = (m', e')"
    and st: "\<And>tr. ready m t tr \<Longrightarrow> ready m t (fst (f k (tr, e))) \<and> (c \<and> stopped tr \<longrightarrow> stopped (fst (f k (tr, e))))"
  shows "dm_ok m' t \<and> same_metric m' m \<and> (c \<and> all_trackers stopped m \<longrightarrow> all_trackers stopped m')"
proof -
  have u: "umap_ok (dmTrackerMap m)" using ok by (simp add: dm_ok_def)
  obtain mp where m': "m' = m\<lparr>dmTrackerMap := mp\<rparr>" "umap_ok mp" "length mp = length (dmTrackerMap m)"
    and mo: "\<forall>k'. map_of mp k' = (if k' = k then map_option (\<lambda>tr. fst (f k (tr, e))) (map_of (dmTrackerMap m) k) else map_of (dmTrackerMap m) k')"
    using forTracker_spec[OF u f] by blast
  have fits: "tracker_fits m t tr" if "map_of mp k' = Some tr" for k' tr
    using that mo all st by (auto simp: all_trackers_def ready_def split: if_splits)
  have "dm_ok m' t" unfolding m'(1) using m' ok fits by (intro dm_ok_trackers) (auto simp: dm_ok_def)
  moreover have "all_trackers stopped m'" if "c" "all_trackers stopped m"
    using that mo all st by (auto simp: m'(1) all_trackers_def split: if_splits)
  ultimately show ?thesis using m'(1) by (simp add: same_metric_def)
qed

lemma handleStartEvent_ok:
  assumes ok: "dm_ok m t" and b: "t < getCurrentBucketEndTimeNs m \<or> all_trackers stopped m" and c: "condition \<longrightarrow> t < getCurrentBucketEndTimeNs m"
    and e: "handleStartEvent key ck condition t vals (m, e) = (m', e')"
  shows "dm_ok m' t \<and> same_metric m' m \<and> (\<not> condition \<and> all_trackers stopped m \<longrightarrow> all_trackers stopped m')"
proof -
  let ?k = "mDimensionKeyInWhat key"
  let ?f = "\<lambda>m (_ :: dim_key). tr_noteStart (internalKey m ?k vals) condition t ck"
  have rd: "all_trackers (ready m t) m" using ok b all_ready by blast
  have start: "dm_ok m2 t \<and> same_metric m2 m1 \<and> (\<not> condition \<and> all_trackers stopped m1 \<longrightarrow> all_trackers stopped m2)"
    if "dm_ok m1 t" "all_trackers (ready m1 t) m1" "forTracker (?f m1) (m1, e) ?k = (m2, e2)" "condition \<longrightarrow> t < getCurrentBucketEndTimeNs m1" for m1 m2 e2
    by (rule forTracker_ok[where c = "\<not> condition", OF that(1-3)]) (use tr_noteStart_ready that(4) in blast)
  show ?thesis
  proof (cases "map_of (dmTrackerMap m) ?k")
    case (Some tr)
    then have "forTracker (?f m) (m, e) ?k = (m', e')" using e by (simp add: handleStartEvent_def Let_def)
    then show ?thesis using start[OF ok rd] c by blast
  next
    case None
    show ?thesis
    proof (cases "dm_hitGuardRailLocked key m")
      case True
      then show ?thesis using None e ok by (simp add: handleStartEvent_def Let_def)
    next
      case False
      let ?m = "m\<lparr>dmTrackerMap := AList.update ?k (createDurationTracker key m) (dmTrackerMap m)\<rparr>"
      have f: "forTracker (?f ?m) (?m, e) ?k = (m', e')" using e None False by (simp add: handleStartEvent_def Let_def)
      have new: "ready m t (createDurationTracker key m)" "stopped (createDurationTracker key m)" using create_ready[OF ok] by auto
      have len: "length (AList.update ?k (createDurationTracker key m) (dmTrackerMap m)) \<le> kDimensionKeySizeHardLimit"
        using guardrail_update_bound[of "dmTrackerMap m" ?k] False ok by (simp add: dm_hitGuardRailLocked_def dm_ok_def)
      have ok': "dm_ok ?m t"
        using ok new(1) len by (intro dm_ok_trackers) (auto simp: dm_ok_def all_trackers_def ready_def split: if_splits)
      have en: "getCurrentBucketEndTimeNs ?m = getCurrentBucketEndTimeNs m" by (simp add: getCurrentBucketEndTimeNs_def)
      have "ready ?m t tr = ready m t tr" for tr by (simp add: ready_def tracker_fits_cong en)
      then have rd': "all_trackers (ready ?m t) ?m" using rd new(1) by (auto simp: all_trackers_def split: if_splits)
      have "all_trackers stopped m \<longrightarrow> all_trackers stopped ?m" using new(2) by (auto simp: all_trackers_def)
      then show ?thesis using start[OF ok' rd' f] c en by (auto simp: same_metric_def)
    qed
  qed
qed

lemma dm_event_ok:
  assumes inv: "dm_inv m now" and t: "now \<le> t" and e: "handleMatchedLogEventValuesLocked conditions sm idx vals t (m, e) = (m', e')"
  shows "dm_inv m' t"
proof (cases "t < mpTimeBaseNs m")
  case True
  then show ?thesis using e inv dm_ok_mono[OF _ t] by (auto simp: handleMatchedLogEventValuesLocked_def dm_inv_def)
next
  case False
  obtain m1 e1 where 1: "(if mIsActive (mpActivations m) then dm_flushIfNeededLocked t (m, e) else (m, e)) = (m1, e1)" by fastforce
  have ok: "dm_ok m now" using inv by (simp add: dm_inv_def)
  have a: "dm_ok m1 t \<and> keeps_stopped m1 m \<and> (t < getCurrentBucketEndTimeNs m1 \<or> all_trackers stopped m1) \<and>
      (mIsActive (mpActivations m1) \<longrightarrow> t < getCurrentBucketEndTimeNs m1)"
  proof (cases "mIsActive (mpActivations m)")
    case True
    then show ?thesis using dm_flushIfNeeded_ok[OF ok t, of e m1 e1] 1 by auto
  next
    case False
    then show ?thesis using 1 inv dm_ok_mono[OF ok t] by (auto simp: dm_inv_def dm_running_def keeps_stopped_def)
  qed
  have i1: "dm_inv m1 t" using dm_inv_keeps[OF inv] a by blast
  have rd: "all_trackers (ready m1 t) m1" using a all_ready by blast
  note e' = e[unfolded handleMatchedLogEventValuesLocked_def Let_def fst_conv 1 if_not_P[OF False]]
  show ?thesis
  proof (cases "idx = dmStopAllIndex m1")
    case True
    then have "forTrackers (\<lambda>_. tr_noteStopAll t) (m1, e1) = (m', e')" using e' by simp
    from forTrackers_ok[where Q = stopped, OF _ rd _ this] tr_noteStopAll_ready a show ?thesis by (auto simp: dm_inv_def)
  next
    case nsa: False
    let ?what = "if mpDimensionsInWhat m1 = [] then DEFAULT_DIMENSION_KEY else key_of (fst (filterValues (mpDimensionsInWhat m1) vals []))"
    show ?thesis
    proof (cases "idx = dmStopIndex m1")
      case True
      then have "forTracker (\<lambda>_. tr_noteStop (internalKey m1 ?what vals) t False) (m1, e1) ?what = (m', e')" using e' nsa by simp
      from forTracker_ok[where c = True, OF _ rd this] tr_noteStop_ready a
      have "dm_ok m' t \<and> same_metric m' m1 \<and> (all_trackers stopped m1 \<longrightarrow> all_trackers stopped m')" by blast
      then show ?thesis using dm_inv_keeps[OF i1] by (auto simp: keeps_stopped_def)
    next
      case ns: False
      obtain key ck cond where h: "handleStartEvent key ck (cond \<and> mIsActive (mpActivations m1)) t vals (m1, e1) = (m', e')"
        and cnd: "\<not> mpConditionSliced m1 \<longrightarrow> (cond \<longleftrightarrow> mpCondition m1 = kTrue)"
        by (rule that[OF e'[unfolded if_not_P[OF nsa] if_not_P[OF ns]]]) simp
      have "dm_ok m' t \<and> same_metric m' m1 \<and> (\<not> (cond \<and> mIsActive (mpActivations m1)) \<and> all_trackers stopped m1 \<longrightarrow> all_trackers stopped m')"
        using handleStartEvent_ok[OF _ _ _ h] a by blast
      moreover have "cond \<and> mIsActive (mpActivations m1) \<longrightarrow> dm_running m1" using cnd by (auto simp: dm_running_def)
      ultimately show ?thesis using i1 by (auto simp: dm_inv_def dm_running_def same_metric_def)
    qed
  qed
qed

section \<open>Runs\<close>

datatype 'l dm_op =
    DmEvent "condition_tracker list" "'l state_manager" int "field_value list"
  | DmConditionChanged bool
  | DmSlicedConditionMayChange "condition_tracker list"
  | DmStateChanged i32 dim_key field_value
  | DmFlushIfExpire "condition_tracker list"
  | DmActivate "condition_tracker list" int
  | DmNotifyAppUpgrade
  | DmDumpReport bool bool
  | DmDropData

fun dm_step :: "'l dm_op \<Rightarrow> ns \<Rightarrow> dm_state \<Rightarrow> dm_state" where
  "dm_step (DmEvent conditions sm matcherIdx vals) t s = handleMatchedLogEventValuesLocked conditions sm matcherIdx vals t s"
| "dm_step (DmConditionChanged c) t s = dm_onConditionChangedLocked c t s"
| "dm_step (DmSlicedConditionMayChange conditions) t s = dm_onSlicedConditionMayChangeLocked conditions t s"
| "dm_step (DmStateChanged atomId primaryKey newState) t s = dm_onStateChanged t atomId primaryKey newState s"
| "dm_step (DmFlushIfExpire conditions) t s = dm_flushIfExpire conditions t s"
| "dm_step (DmActivate conditions i) t s = dm_activateLocked conditions i t s"
| "dm_step DmNotifyAppUpgrade t s = dm_flushLocked t s"
| "dm_step (DmDumpReport partial_bucket erase) t s = fst (dm_onDumpReportLocked t partial_bucket erase s)"
| "dm_step DmDropData t s = dm_dropDataLocked t s"

lemma dm_inv_erase: "dm_inv m t \<Longrightarrow> dm_inv (m\<lparr>dmPastBuckets := []\<rparr>) t"
  by (auto simp: dm_inv_def dm_ok_def all_trackers_def tracker_fits_cong bucket_times_ok_def getCurrentBucketEndTimeNs_def dm_running_def output_ok_def)

lemma dm_step_ok:
  assumes inv: "dm_inv m now" and t: "now \<le> t" and e: "dm_step op t (m, e) = (m', e')"
  shows "dm_inv m' t"
proof -
  have ok: "dm_ok m now" using inv by (simp add: dm_inv_def)
  have fin: "dm_inv m1 t" if "dm_flushIfNeededLocked t (m, e) = (m1, e1)" for m1 e1
    using dm_flushIfNeeded_ok[OF ok t that] dm_inv_keeps[OF inv] by blast
  have fl: "dm_inv m1 t" if "dm_flushLocked t (m, e) = (m1, e1)" for m1 e1
    using dm_flush_ok[OF ok t that] dm_inv_keeps[OF inv] by blast
  show ?thesis
  proof (cases op)
    case (DmDumpReport p er)
    obtain m1 e1 where 1: "(if p then dm_flushLocked t (m, e) else dm_flushIfNeededLocked t (m, e)) = (m1, e1)" by fastforce
    then have "dm_inv m1 t" using fin fl by (auto split: if_splits)
    moreover have "m' = m1 \<or> m' = m1\<lparr>dmPastBuckets := []\<rparr>"
      using e DmDumpReport 1 by (auto simp: dm_onDumpReportLocked_def split: if_splits)
    ultimately show ?thesis using dm_inv_erase by auto
  next
    case DmDropData
    obtain m1 e1 where 1: "dm_flushIfNeededLocked t (m, e) = (m1, e1)" by fastforce
    then show ?thesis using e DmDropData dm_inv_erase[OF fin[OF 1]] by (simp add: dm_dropDataLocked_def)
  qed (use e fl dm_event_ok[OF inv t] dm_condition_ok[OF inv t] dm_sliced_ok[OF inv t] dm_state_ok[OF inv t]
      dm_expire_ok[OF inv t] dm_activate_ok[OF inv t] in auto)
qed

lemma dm_run_ok:
  assumes "dm_inv m now" "sorted (now # map snd ops)" "foldl (\<lambda>s (op, t). dm_step op t s) (m, e) ops = (m', e')"
  shows "dm_inv m' (last (now # map snd ops))"
  using assms
proof (induction ops arbitrary: m e now)
  case (Cons x ops)
  obtain op t where x: "x = (op, t)" by fastforce
  obtain m1 e1 where 1: "dm_step op t (m, e) = (m1, e1)" by fastforce
  have "dm_inv m1 t" using dm_step_ok[OF Cons.prems(1) _ 1] Cons.prems(2) x by simp
  then show ?case using Cons.IH[of m1 t e1] Cons.prems(2,3) x 1 by simp
qed simp


definition example_duration_metric :: duration_metric where
  "example_duration_metric = metric_producer.extend (example_base\<lparr>mpBucketSizeNs := 10\<rparr>)
     (duration_metric.fields agg_SUM 0 1 2 True [] True kUnknown [] [] [])"


end
