(* ===== verification/StatsEventWriter.thy ===== *)
theory StatsEventWriter
  imports StatsdPrelude
begin

text \<open>
  \<^verbatim>\<open>lib/libstatssocket/stats_event.c\<close>: the writer with which a client of the daemon serialises an atom. The
  buffer is memory of \<open>bufSize\<close> bytes, modelled as a function from offsets to bytes; what \<^verbatim>\<open>realloc\<close> leaves in
  new memory is unspecified and a parameter of \<open>AStatsEvent_obtain\<close>, as is the clock. An access outside the
  buffer, which C leaves undefined, is \<open>None\<close>. \<^verbatim>\<open>size_t\<close> lengths are natural numbers: a length near \<open>2 ^ 64\<close>
  belongs to no object.

  The lemmas show that no operation writes outside the buffer but the annotation of a field for which a full
  buffer had no room, that errors are never forgotten, and what an event built without errors holds.
\<close>

unbundle bit_operations_syntax

section \<open>Constants\<close>

type_synonym byte = "8 word"

definition MAX_PUSH_EVENT_PAYLOAD :: nat where "MAX_PUSH_EVENT_PAYLOAD = 4068 - 4"
definition MAX_PULL_EVENT_PAYLOAD :: nat where "MAX_PULL_EVENT_PAYLOAD = 50 * 1024"

definition POS_NUM_ELEMENTS :: nat where "POS_NUM_ELEMENTS = 1"
definition POS_TIMESTAMP :: nat where "POS_TIMESTAMP = POS_NUM_ELEMENTS + 1"
definition POS_ATOM_ID :: nat where "POS_ATOM_ID = POS_TIMESTAMP + 1 + 8"

definition MAX_ANNOTATION_COUNT :: u32 where "MAX_ANNOTATION_COUNT = 15"
definition MAX_BYTE_VALUE :: nat where "MAX_BYTE_VALUE = 127"

definition ERROR_NO_ATOM_ID :: u32 where "ERROR_NO_ATOM_ID = 0x2"
definition ERROR_OVERFLOW :: u32 where "ERROR_OVERFLOW = 0x4"
definition ERROR_ATTRIBUTION_CHAIN_TOO_LONG :: u32 where "ERROR_ATTRIBUTION_CHAIN_TOO_LONG = 0x8"
definition ERROR_ANNOTATION_DOES_NOT_FOLLOW_FIELD :: u32 where "ERROR_ANNOTATION_DOES_NOT_FOLLOW_FIELD = 0x20"
definition ERROR_ANNOTATION_ID_TOO_LARGE :: u32 where "ERROR_ANNOTATION_ID_TOO_LARGE = 0x80"
definition ERROR_TOO_MANY_ANNOTATIONS :: u32 where "ERROR_TOO_MANY_ANNOTATIONS = 0x100"
definition ERROR_TOO_MANY_FIELDS :: u32 where "ERROR_TOO_MANY_FIELDS = 0x200"
definition ERROR_STRING_NOT_NULL_TERMINATED :: u32 where "ERROR_STRING_NOT_NULL_TERMINATED = 0x800"
definition ERROR_ATOM_ID_INVALID_POSITION :: u32 where "ERROR_ATOM_ID_INVALID_POSITION = 0x2000"

definition INT32_TYPE :: byte where "INT32_TYPE = 0x00"
definition INT64_TYPE :: byte where "INT64_TYPE = 0x01"
definition STRING_TYPE :: byte where "STRING_TYPE = 0x02"
definition FLOAT_TYPE :: byte where "FLOAT_TYPE = 0x04"
definition BOOL_TYPE :: byte where "BOOL_TYPE = 0x05"
definition BYTE_ARRAY_TYPE :: byte where "BYTE_ARRAY_TYPE = 0x06"
definition OBJECT_TYPE :: byte where "OBJECT_TYPE = 0x07"
definition KEY_VALUE_PAIRS_TYPE :: byte where "KEY_VALUE_PAIRS_TYPE = 0x08"
definition ATTRIBUTION_CHAIN_TYPE :: byte where "ATTRIBUTION_CHAIN_TYPE = 0x09"
definition ERROR_TYPE :: byte where "ERROR_TYPE = 0x0F"

lemmas error_bits = ERROR_NO_ATOM_ID_def ERROR_OVERFLOW_def ERROR_ATTRIBUTION_CHAIN_TOO_LONG_def
  ERROR_ANNOTATION_DOES_NOT_FOLLOW_FIELD_def ERROR_ANNOTATION_ID_TOO_LARGE_def ERROR_TOO_MANY_ANNOTATIONS_def
  ERROR_TOO_MANY_FIELDS_def ERROR_STRING_NOT_NULL_TERMINATED_def ERROR_ATOM_ID_INVALID_POSITION_def

lemmas type_ids = INT32_TYPE_def INT64_TYPE_def STRING_TYPE_def FLOAT_TYPE_def BOOL_TYPE_def BYTE_ARRAY_TYPE_def
  OBJECT_TYPE_def KEY_VALUE_PAIRS_TYPE_def ATTRIBUTION_CHAIN_TYPE_def ERROR_TYPE_def

lemmas payload_limits = MAX_PUSH_EVENT_PAYLOAD_def MAX_PULL_EVENT_PAYLOAD_def

lemmas buffer_positions = POS_NUM_ELEMENTS_def POS_TIMESTAMP_def POS_ATOM_ID_def

section \<open>Memory\<close>

text \<open>The bytes of an object of \<open>n\<close> bytes in memory, and the object they hold (little endian).\<close>

primrec bytes_of :: "nat \<Rightarrow> 'a :: len word \<Rightarrow> byte list" where
  "bytes_of 0 w = []"
| "bytes_of (Suc n) w = ucast w # bytes_of n (drop_bit 8 w)"

primrec word_of_bytes :: "byte list \<Rightarrow> 'a :: len word" where
  "word_of_bytes [] = 0"
| "word_of_bytes (b # bs) = ucast b OR push_bit 8 (word_of_bytes bs)"

definition memcpy :: "(nat \<Rightarrow> byte) \<Rightarrow> nat \<Rightarrow> byte list \<Rightarrow> nat \<Rightarrow> byte" where
  "memcpy mem pos bs = (\<lambda>i. if pos \<le> i \<and> i < pos + length bs then bs ! (i - pos) else mem i)"

definition string_bytes :: "string \<Rightarrow> byte list" where
  "string_bytes s = map of_char s"

section \<open>The event under construction\<close>

record a_stats_event =
  aeBuf :: "nat \<Rightarrow> byte"
  aeLastFieldPos :: nat
  aeNumBytesWritten :: nat
  aeNumElements :: u32
  aeAtomId :: u32
  aeErrors :: u32
  aeBuilt :: bool
  aeBufSize :: nat

definition addError :: "u32 \<Rightarrow> a_stats_event \<Rightarrow> a_stats_event" where
  "addError e ev = ev\<lparr>aeErrors := aeErrors ev OR e\<rparr>"

text \<open>The loop that doubles the size. The size is positive, so it ends.\<close>

function growBuffer :: "nat \<Rightarrow> nat \<Rightarrow> nat" where
  "growBuffer needed bufSize =
     (let bufSize = bufSize * 2 in if bufSize \<le> needed \<and> 0 < bufSize then growBuffer needed bufSize else bufSize)"
  by pat_completeness auto
termination by (relation "measure (\<lambda>(needed, bufSize). needed - bufSize)") auto

declare growBuffer.simps [simp del]

definition overflows :: "nat \<Rightarrow> a_stats_event \<Rightarrow> bool \<times> a_stats_event" where
  "overflows n ev =
     (let totalBytesNeeded = aeNumBytesWritten ev + n
      in if totalBytesNeeded > MAX_PULL_EVENT_PAYLOAD then (True, addError ERROR_OVERFLOW ev)
         else if aeBufSize ev < MAX_PULL_EVENT_PAYLOAD \<and> totalBytesNeeded > aeBufSize ev
              then (False, ev\<lparr>aeBufSize := min (growBuffer totalBytesNeeded (aeBufSize ev)) MAX_PULL_EVENT_PAYLOAD\<rparr>)
              else (False, ev))"

text \<open>The append functions all place the bytes of their value behind the last one, if there is room.\<close>

definition append_bytes :: "byte list \<Rightarrow> a_stats_event \<Rightarrow> a_stats_event" where
  "append_bytes bs ev =
     (case overflows (length bs) ev of (True, ev) \<Rightarrow> ev
      | (False, ev) \<Rightarrow> ev\<lparr>aeBuf := memcpy (aeBuf ev) (aeNumBytesWritten ev) bs,
                        aeNumBytesWritten := aeNumBytesWritten ev + length bs\<rparr>)"

definition append_byte :: "byte \<Rightarrow> a_stats_event \<Rightarrow> a_stats_event" where
  "append_byte v = append_bytes [v]"

definition append_bool :: "bool \<Rightarrow> a_stats_event \<Rightarrow> a_stats_event" where
  "append_bool v = append_byte (of_bool v)"

definition append_int32 :: "i32 \<Rightarrow> a_stats_event \<Rightarrow> a_stats_event" where
  "append_int32 v = append_bytes (bytes_of 4 v)"

definition append_int64 :: "i64 \<Rightarrow> a_stats_event \<Rightarrow> a_stats_event" where
  "append_int64 v = append_bytes (bytes_of 8 v)"

definition append_float :: "u32 \<Rightarrow> a_stats_event \<Rightarrow> a_stats_event" where
  "append_float v = append_bytes (bytes_of 4 v)"

definition append_byte_array :: "byte list \<Rightarrow> a_stats_event \<Rightarrow> a_stats_event" where
  "append_byte_array bs = append_bytes bs"

definition append_string :: "string \<Rightarrow> a_stats_event \<Rightarrow> a_stats_event" where
  "append_string s ev =
     (let str = c_string s; n = min (length str) MAX_PULL_EVENT_PAYLOAD
      in if n = MAX_PULL_EVENT_PAYLOAD then addError ERROR_STRING_NOT_NULL_TERMINATED ev
         else append_byte_array (string_bytes str) (append_int32 (of_nat n) ev))"

definition start_field :: "byte \<Rightarrow> a_stats_event \<Rightarrow> a_stats_event" where
  "start_field typeId ev =
     (let ev1 = append_byte typeId (ev\<lparr>aeLastFieldPos := aeNumBytesWritten ev\<rparr>)
      in ev1\<lparr>aeNumElements := aeNumElements ev1 + 1\<rparr>)"

section \<open>The interface\<close>

definition AStatsEvent_writeInt32 :: "i32 \<Rightarrow> a_stats_event \<Rightarrow> a_stats_event" where
  "AStatsEvent_writeInt32 v ev = append_int32 v (start_field INT32_TYPE ev)"

definition AStatsEvent_writeInt64 :: "i64 \<Rightarrow> a_stats_event \<Rightarrow> a_stats_event" where
  "AStatsEvent_writeInt64 v ev = append_int64 v (start_field INT64_TYPE ev)"

definition AStatsEvent_writeFloat :: "u32 \<Rightarrow> a_stats_event \<Rightarrow> a_stats_event" where
  "AStatsEvent_writeFloat v ev = append_float v (start_field FLOAT_TYPE ev)"

definition AStatsEvent_writeBool :: "bool \<Rightarrow> a_stats_event \<Rightarrow> a_stats_event" where
  "AStatsEvent_writeBool v ev = append_bool v (start_field BOOL_TYPE ev)"

text \<open>A null pointer is \<open>None\<close>.\<close>

definition AStatsEvent_writeByteArray :: "byte list option \<Rightarrow> a_stats_event \<Rightarrow> a_stats_event" where
  "AStatsEvent_writeByteArray buf ev =
     (let bs = (case buf of None \<Rightarrow> [] | Some bs \<Rightarrow> bs);
          ev1 = append_int32 (of_nat (length bs)) (start_field BYTE_ARRAY_TYPE ev)
      in if length bs > 0 then append_byte_array bs ev1 else ev1)"

definition orEmpty :: "string option \<Rightarrow> string" where
  "orEmpty s = (case s of None \<Rightarrow> [] | Some s \<Rightarrow> s)"

definition AStatsEvent_writeString :: "string option \<Rightarrow> a_stats_event \<Rightarrow> a_stats_event" where
  "AStatsEvent_writeString v ev = append_string (orEmpty v) (start_field STRING_TYPE ev)"

text \<open>The arrays \<^verbatim>\<open>uids\<close> and \<^verbatim>\<open>tags\<close> have \<^verbatim>\<open>numNodes\<close> entries each; a node is a pair.\<close>

definition AStatsEvent_writeAttributionChain :: "(u32 \<times> string option) list \<Rightarrow> a_stats_event \<Rightarrow> a_stats_event" where
  "AStatsEvent_writeAttributionChain nodes ev =
     (if length nodes > MAX_BYTE_VALUE then addError ERROR_ATTRIBUTION_CHAIN_TOO_LONG ev
      else fold (\<lambda>(uid, tag) ev. append_string (orEmpty tag) (append_int32 uid ev)) nodes
             (append_byte (of_nat (length nodes)) (start_field ATTRIBUTION_CHAIN_TYPE ev)))"

definition AStatsEvent_obtain :: "(nat \<Rightarrow> byte) \<Rightarrow> i64 \<Rightarrow> a_stats_event" where
  "AStatsEvent_obtain heap elapsedRealtimeNs =
     AStatsEvent_writeInt64 elapsedRealtimeNs
       \<lparr>aeBuf = (\<lambda>i. if i < MAX_PUSH_EVENT_PAYLOAD then 0 else heap i)(0 := OBJECT_TYPE), aeLastFieldPos = 0,
        aeNumBytesWritten = 2, aeNumElements = 0, aeAtomId = 0, aeErrors = 0, aeBuilt = False,
        aeBufSize = MAX_PUSH_EVENT_PAYLOAD\<rparr>"

definition AStatsEvent_setAtomId :: "u32 \<Rightarrow> a_stats_event \<Rightarrow> a_stats_event" where
  "AStatsEvent_setAtomId atomId ev =
     (if aeAtomId ev \<noteq> 0 then ev
      else if aeNumElements ev \<noteq> 1 then addError ERROR_ATOM_ID_INVALID_POSITION ev
      else AStatsEvent_writeInt32 atomId (ev\<lparr>aeAtomId := atomId\<rparr>))"

definition AStatsEvent_overwriteTimestamp :: "i64 \<Rightarrow> a_stats_event \<Rightarrow> a_stats_event" where
  "AStatsEvent_overwriteTimestamp timestampNs ev =
     ev\<lparr>aeBuf := memcpy (aeBuf ev) (POS_TIMESTAMP + 1) (bytes_of 8 timestampNs)\<rparr>"

definition increment_annotation_count :: "a_stats_event \<Rightarrow> a_stats_event option" where
  "increment_annotation_count ev =
     (if aeLastFieldPos ev \<ge> aeBufSize ev then None
      else let b = aeBuf ev (aeLastFieldPos ev); fieldType = b AND 0x0F;
               oldAnnotationCount = drop_bit 4 (ucast b AND 0xF0 :: u32);
               newAnnotationCount = oldAnnotationCount + 1
           in if newAnnotationCount > MAX_ANNOTATION_COUNT then Some (addError ERROR_TOO_MANY_ANNOTATIONS ev)
              else Some (ev\<lparr>aeBuf := (aeBuf ev)(aeLastFieldPos ev :=
                     (push_bit 4 (ucast newAnnotationCount) AND 0xF0) OR fieldType)\<rparr>))"

definition AStatsEvent_addBoolAnnotation :: "byte \<Rightarrow> bool \<Rightarrow> a_stats_event \<Rightarrow> a_stats_event option" where
  "AStatsEvent_addBoolAnnotation annotationId v ev =
     (if aeNumElements ev < 2 then Some (addError ERROR_ANNOTATION_DOES_NOT_FOLLOW_FIELD ev)
      else if unat annotationId > MAX_BYTE_VALUE then Some (addError ERROR_ANNOTATION_ID_TOO_LARGE ev)
      else increment_annotation_count (append_bool v (append_byte BOOL_TYPE (append_byte annotationId ev))))"

definition AStatsEvent_addInt32Annotation :: "byte \<Rightarrow> i32 \<Rightarrow> a_stats_event \<Rightarrow> a_stats_event option" where
  "AStatsEvent_addInt32Annotation annotationId v ev =
     (if aeNumElements ev < 2 then Some (addError ERROR_ANNOTATION_DOES_NOT_FOLLOW_FIELD ev)
      else if unat annotationId > MAX_BYTE_VALUE then Some (addError ERROR_ANNOTATION_ID_TOO_LARGE ev)
      else increment_annotation_count (append_int32 v (append_byte INT32_TYPE (append_byte annotationId ev))))"

text \<open>The valid bytes of the buffer.\<close>

definition AStatsEvent_getBuffer :: "a_stats_event \<Rightarrow> byte list" where
  "AStatsEvent_getBuffer ev = map (aeBuf ev) [0..<aeNumBytesWritten ev]"

definition checkLimits :: "bool \<Rightarrow> a_stats_event \<Rightarrow> a_stats_event" where
  "checkLimits push ev =
     (let ev = (if unat (aeNumElements ev) > MAX_BYTE_VALUE then addError ERROR_TOO_MANY_FIELDS ev else ev);
          ev = (if aeAtomId ev = 0 then addError ERROR_NO_ATOM_ID ev else ev)
      in if push \<and> aeNumBytesWritten ev > MAX_PUSH_EVENT_PAYLOAD then addError ERROR_OVERFLOW ev else ev)"

definition rewriteWithErrors :: "a_stats_event \<Rightarrow> a_stats_event" where
  "rewriteWithErrors ev =
     (let ev = ev\<lparr>aeNumElements := 2, aeBuf := (aeBuf ev)(POS_ATOM_ID := INT32_TYPE),
                  aeNumBytesWritten := POS_ATOM_ID + 1 + 4\<rparr>;
          ev = start_field ERROR_TYPE ev
      in append_int32 (aeErrors ev) ev)"

definition build_internal :: "bool \<Rightarrow> a_stats_event \<Rightarrow> a_stats_event" where
  "build_internal push ev =
     (let ev = checkLimits push ev;
          ev = (if aeErrors ev \<noteq> 0 then rewriteWithErrors ev else ev)
      in ev\<lparr>aeBuf := (aeBuf ev)(POS_NUM_ELEMENTS := ucast (aeNumElements ev))\<rparr>)"

definition AStatsEvent_build :: "a_stats_event \<Rightarrow> a_stats_event" where
  "AStatsEvent_build ev = (if aeBuilt ev then ev else (build_internal False ev)\<lparr>aeBuilt := True\<rparr>)"

text \<open>What \<^verbatim>\<open>AStatsEvent_write\<close> hands to the socket: the bytes and the atom id.\<close>

definition AStatsEvent_write :: "a_stats_event \<Rightarrow> a_stats_event \<times> byte list \<times> u32" where
  "AStatsEvent_write ev =
     (let ev = build_internal True ev in (ev, AStatsEvent_getBuffer ev, aeAtomId ev))"

section \<open>Programs of calls\<close>

datatype atom_value = AInt i32 | ALong i64 | AFloat u32 | ABool bool | AString "string option"
  | ABytes "byte list option" | AChain "(u32 \<times> string option) list"

datatype annotation = BoolAnnotation byte bool | Int32Annotation byte i32

fun writeValue :: "atom_value \<Rightarrow> a_stats_event \<Rightarrow> a_stats_event" where
  "writeValue (AInt v) = AStatsEvent_writeInt32 v"
| "writeValue (ALong v) = AStatsEvent_writeInt64 v"
| "writeValue (AFloat v) = AStatsEvent_writeFloat v"
| "writeValue (ABool v) = AStatsEvent_writeBool v"
| "writeValue (AString v) = AStatsEvent_writeString v"
| "writeValue (ABytes v) = AStatsEvent_writeByteArray v"
| "writeValue (AChain nodes) = AStatsEvent_writeAttributionChain nodes"

fun addAnnotation :: "annotation \<Rightarrow> a_stats_event \<Rightarrow> a_stats_event option" where
  "addAnnotation (BoolAnnotation i v) = AStatsEvent_addBoolAnnotation i v"
| "addAnnotation (Int32Annotation i v) = AStatsEvent_addInt32Annotation i v"

datatype writer_call = SetAtomId u32 | WriteValue atom_value | AddAnnotation annotation | OverwriteTimestamp i64 | Build

fun writer_step :: "writer_call \<Rightarrow> a_stats_event \<Rightarrow> a_stats_event option" where
  "writer_step (SetAtomId i) ev = Some (AStatsEvent_setAtomId i ev)"
| "writer_step (WriteValue v) ev = Some (writeValue v ev)"
| "writer_step (AddAnnotation a) ev = addAnnotation a ev"
| "writer_step (OverwriteTimestamp t) ev = Some (AStatsEvent_overwriteTimestamp t ev)"
| "writer_step Build ev = Some (AStatsEvent_build ev)"

fun writer_run :: "writer_call list \<Rightarrow> a_stats_event \<Rightarrow> a_stats_event option" where
  "writer_run [] ev = Some ev"
| "writer_run (c # cs) ev = (case writer_step c ev of None \<Rightarrow> None | Some ev \<Rightarrow> writer_run cs ev)"

section \<open>Memory facts\<close>

lemma length_bytes_of [simp]: "length (bytes_of n w) = n"
  by (induction n arbitrary: w) simp_all

lemma word_of_bytes_of: "word_of_bytes (bytes_of n w) = take_bit (8 * n) w"
proof (induction n arbitrary: w)
  case (Suc n)
  have "ucast (ucast w :: byte) OR push_bit 8 (take_bit (8 * n) (drop_bit 8 w)) = take_bit (8 * Suc n) w"
    by (rule bit_word_eqI) (auto simp: bit_simps)
  with Suc show ?case by simp
qed simp

lemma read_back [simp]:
  "word_of_bytes (bytes_of 4 (w :: i32)) = w" "word_of_bytes (bytes_of 8 (v :: i64)) = v"
  by (simp_all add: word_of_bytes_of take_bit_word_eq_self)

lemma map_memcpy_end: "map (memcpy mem n bs) [0..<n + length bs] = map mem [0..<n] @ bs"
  by (rule nth_equalityI) (auto simp: memcpy_def nth_append)

lemma growBuffer_gt: "0 < b \<Longrightarrow> needed < growBuffer needed b"
proof (induction needed b rule: growBuffer.induct)
  case (1 needed b)
  then show ?case by (subst growBuffer.simps) (auto simp: Let_def)
qed

section \<open>Appending\<close>

lemma addError_simps [simp]:
  "aeBuf (addError e ev) = aeBuf ev" "aeLastFieldPos (addError e ev) = aeLastFieldPos ev"
  "aeNumBytesWritten (addError e ev) = aeNumBytesWritten ev" "aeNumElements (addError e ev) = aeNumElements ev"
  "aeAtomId (addError e ev) = aeAtomId ev" "aeBuilt (addError e ev) = aeBuilt ev" "aeBufSize (addError e ev) = aeBufSize ev"
  "aeErrors (addError e ev) = aeErrors ev OR e"
  by (simp_all add: addError_def)

text \<open>All appending goes through \<open>append_bytes\<close>: it either records an overflow and changes nothing else, or has
  room in the possibly grown buffer and appends.\<close>

definition size_ok :: "a_stats_event \<Rightarrow> bool" where
  "size_ok ev \<longleftrightarrow> MAX_PUSH_EVENT_PAYLOAD \<le> aeBufSize ev \<and> aeBufSize ev \<le> MAX_PULL_EVENT_PAYLOAD \<and>
     aeNumBytesWritten ev \<le> aeBufSize ev"

lemma append_bytes_frame [simp]:
  "aeLastFieldPos (append_bytes bs ev) = aeLastFieldPos ev" "aeNumElements (append_bytes bs ev) = aeNumElements ev"
  "aeAtomId (append_bytes bs ev) = aeAtomId ev" "aeBuilt (append_bytes bs ev) = aeBuilt ev"
  by (simp_all add: append_bytes_def overflows_def Let_def)

lemma append_bytes_buf: "i < aeNumBytesWritten ev \<Longrightarrow> aeBuf (append_bytes bs ev) i = aeBuf ev i"
  by (auto simp: append_bytes_def overflows_def memcpy_def Let_def)

lemma append_bytes_size: "size_ok ev \<Longrightarrow> size_ok (append_bytes bs ev)"
  using growBuffer_gt[of "aeBufSize ev" "aeNumBytesWritten ev + length bs"]
  by (auto simp: size_ok_def append_bytes_def overflows_def payload_limits Let_def)

lemma append_bytes_grows:
  "aeNumBytesWritten ev \<le> aeNumBytesWritten (append_bytes bs ev)" "aeBufSize ev \<le> aeBufSize (append_bytes bs ev)"
  using growBuffer_gt[of "aeBufSize ev" "aeNumBytesWritten ev + length bs"]
  by (auto simp: append_bytes_def overflows_def payload_limits Let_def)
    (metis bot_nat_0.not_eq_extremum less_eq_nat.simps(1) order.strict_trans1 order.strict_trans2 less_imp_le)

lemma append_bytes_ok:
  assumes "aeErrors (append_bytes bs ev) = 0"
  shows "aeErrors ev = 0" "AStatsEvent_getBuffer (append_bytes bs ev) = AStatsEvent_getBuffer ev @ bs"
    "aeNumBytesWritten (append_bytes bs ev) = aeNumBytesWritten ev + length bs"
  using assms by (auto simp: append_bytes_def overflows_def Let_def or_eq_0_iff ERROR_OVERFLOW_def
      AStatsEvent_getBuffer_def map_memcpy_end split: if_splits)

section \<open>What a call writes\<close>

text \<open>The encoding of a value: its type byte, then its bytes.\<close>

fun value_type :: "atom_value \<Rightarrow> byte" where
  "value_type (AInt v) = INT32_TYPE"
| "value_type (ALong v) = INT64_TYPE"
| "value_type (AFloat v) = FLOAT_TYPE"
| "value_type (ABool v) = BOOL_TYPE"
| "value_type (AString v) = STRING_TYPE"
| "value_type (ABytes v) = BYTE_ARRAY_TYPE"
| "value_type (AChain v) = ATTRIBUTION_CHAIN_TYPE"

definition text_bytes :: "string option \<Rightarrow> byte list" where
  "text_bytes s = bytes_of 4 (of_nat (length (c_string (orEmpty s))) :: i32) @ string_bytes (c_string (orEmpty s))"

definition array_of :: "byte list option \<Rightarrow> byte list" where
  "array_of b = (case b of None \<Rightarrow> [] | Some bs \<Rightarrow> bs)"

definition node_bytes :: "u32 \<times> string option \<Rightarrow> byte list" where
  "node_bytes node = bytes_of 4 (fst node) @ text_bytes (snd node)"

fun value_bytes :: "atom_value \<Rightarrow> byte list" where
  "value_bytes (AInt v) = bytes_of 4 v"
| "value_bytes (ALong v) = bytes_of 8 v"
| "value_bytes (AFloat v) = bytes_of 4 v"
| "value_bytes (ABool v) = [of_bool v]"
| "value_bytes (AString v) = text_bytes v"
| "value_bytes (ABytes v) = bytes_of 4 (of_nat (length (array_of v)) :: i32) @ array_of v"
| "value_bytes (AChain nodes) = of_nat (length nodes) # concat (map node_bytes nodes)"

fun annotation_bytes :: "annotation \<Rightarrow> byte list" where
  "annotation_bytes (BoolAnnotation i v) = [i, BOOL_TYPE, of_bool v]"
| "annotation_bytes (Int32Annotation i v) = [i, INT32_TYPE] @ bytes_of 4 v"

text \<open>An extension of the event by \<open>bs\<close>, with the field bookkeeping unchanged: what appending without error does.\<close>

definition extended :: "byte list \<Rightarrow> a_stats_event \<Rightarrow> a_stats_event \<Rightarrow> bool" where
  "extended bs ev ev' \<longleftrightarrow> aeErrors ev = 0 \<and> AStatsEvent_getBuffer ev' = AStatsEvent_getBuffer ev @ bs \<and>
     aeLastFieldPos ev' = aeLastFieldPos ev \<and> aeNumElements ev' = aeNumElements ev \<and> aeAtomId ev' = aeAtomId ev"

lemma length_getBuffer [simp]: "length (AStatsEvent_getBuffer ev) = aeNumBytesWritten ev"
  by (simp add: AStatsEvent_getBuffer_def)

lemma extended_trans: "extended bs ev ev' \<Longrightarrow> extended cs ev' ev'' \<Longrightarrow> extended (bs @ cs) ev ev''"
  by (simp add: extended_def)

lemma append_bytes_extended: "aeErrors (append_bytes bs ev) = 0 \<Longrightarrow> extended bs ev (append_bytes bs ev)"
  by (simp add: extended_def append_bytes_ok)

lemmas append_defs = append_byte_def append_bool_def append_int32_def append_int64_def append_float_def append_byte_array_def

lemma append_string_extended:
  assumes "aeErrors (append_string (orEmpty s) ev) = 0"
  shows "extended (text_bytes s) ev (append_string (orEmpty s) ev)"
proof -
  have short: "length (c_string (orEmpty s)) < MAX_PULL_EVENT_PAYLOAD"
    using assms by (auto simp: append_string_def ERROR_STRING_NOT_NULL_TERMINATED_def Let_def or_eq_0_iff split: if_splits)
  with assms have e: "aeErrors (append_bytes (string_bytes (c_string (orEmpty s)))
      (append_bytes (bytes_of 4 (of_nat (length (c_string (orEmpty s))) :: i32)) ev)) = 0"
    by (simp add: append_string_def append_defs Let_def)
  have "extended (bytes_of 4 (of_nat (length (c_string (orEmpty s))) :: i32)) ev
      (append_bytes (bytes_of 4 (of_nat (length (c_string (orEmpty s))) :: i32)) ev)"
    by (rule append_bytes_extended) (rule append_bytes_ok(1)[OF e])
  from extended_trans[OF this append_bytes_extended[OF e]] short show ?thesis
    by (simp add: append_string_def append_defs Let_def text_bytes_def)
qed

definition append_node :: "u32 \<times> string option \<Rightarrow> a_stats_event \<Rightarrow> a_stats_event" where
  "append_node = (\<lambda>(uid, tag) ev. append_string (orEmpty tag) (append_int32 uid ev))"

lemma append_nodes_extended:
  "aeErrors (fold append_node nodes ev) = 0 \<Longrightarrow> extended (concat (map node_bytes nodes)) ev (fold append_node nodes ev)"
proof (induction nodes arbitrary: ev)
  case (Cons n nodes)
  obtain uid tag where n: "n = (uid, tag)" by (cases n)
  have rest: "extended (concat (map node_bytes nodes)) (append_node n ev) (fold append_node nodes (append_node n ev))"
    using Cons by simp
  then have "aeErrors (append_string (orEmpty tag) (append_bytes (bytes_of 4 uid) ev)) = 0"
    by (simp add: extended_def append_node_def n append_defs)
  note tg = append_string_extended[OF this]
  have "extended (bytes_of 4 uid) ev (append_bytes (bytes_of 4 uid) ev)"
    using tg by (intro append_bytes_extended) (simp add: extended_def)
  from extended_trans[OF this tg] have "extended (node_bytes n) ev (append_node n ev)"
    by (simp add: append_node_def n append_defs node_bytes_def)
  from extended_trans[OF this rest] show ?case by simp
qed (simp add: extended_def)

text \<open>A field starts with its type.\<close>

definition new_field :: "byte list \<Rightarrow> a_stats_event \<Rightarrow> a_stats_event \<Rightarrow> bool" where
  "new_field bs ev ev' \<longleftrightarrow> aeErrors ev = 0 \<and> AStatsEvent_getBuffer ev' = AStatsEvent_getBuffer ev @ bs \<and>
     aeLastFieldPos ev' = aeNumBytesWritten ev \<and> aeNumElements ev' = aeNumElements ev + 1 \<and> aeAtomId ev' = aeAtomId ev"

lemma start_field_new:
  assumes "aeErrors (start_field t ev) = 0"
  shows "new_field [t] ev (start_field t ev)"
proof -
  have "aeErrors (append_bytes [t] (ev\<lparr>aeLastFieldPos := aeNumBytesWritten ev\<rparr>)) = 0"
    using assms by (simp add: start_field_def append_defs Let_def)
  from append_bytes_ok[OF this] show ?thesis
    by (simp add: new_field_def start_field_def append_defs Let_def AStatsEvent_getBuffer_def)
qed

lemma new_field_extended: "new_field bs ev ev' \<Longrightarrow> extended cs ev' ev'' \<Longrightarrow> new_field (bs @ cs) ev ev''"
  by (auto simp: new_field_def extended_def)

lemma field_append:
  assumes "extended bs (start_field t ev) ev'"
  shows "new_field (t # bs) ev ev'"
  using new_field_extended[OF start_field_new assms] assms by (simp add: extended_def)

lemma writeValue_new:
  assumes "aeErrors (writeValue v ev) = 0"
  shows "new_field (value_type v # value_bytes v) ev (writeValue v ev)"
proof (cases v)
  case (AString s)
  with assms show ?thesis by (auto simp: AStatsEvent_writeString_def intro!: field_append append_string_extended)
next
  case (ABytes b)
  let ?n = "bytes_of 4 (of_nat (length (array_of b)) :: i32)"
  let ?ev = "append_bytes ?n (start_field BYTE_ARRAY_TYPE ev)"
  have w: "writeValue v ev = (if array_of b = [] then ?ev else append_bytes (array_of b) ?ev)"
    by (auto simp: ABytes AStatsEvent_writeByteArray_def append_defs Let_def array_of_def split: option.splits)
  have e: "aeErrors ?ev = 0" using assms append_bytes_ok(1)[of "array_of b" ?ev] by (auto simp: w split: if_splits)
  have "extended (?n @ array_of b) (start_field BYTE_ARRAY_TYPE ev) (writeValue v ev)"
    using append_bytes_extended[OF e] assms extended_trans[OF append_bytes_extended[OF e] append_bytes_extended, of "array_of b"]
    by (auto simp: w split: if_splits)
  then show ?thesis by (auto simp: ABytes intro!: field_append)
next
  case (AChain nodes)
  have short: "\<not> length nodes > MAX_BYTE_VALUE"
    using assms by (auto simp: AChain AStatsEvent_writeAttributionChain_def ERROR_ATTRIBUTION_CHAIN_TOO_LONG_def or_eq_0_iff)
  let ?ev = "append_bytes [of_nat (length nodes)] (start_field ATTRIBUTION_CHAIN_TYPE ev)"
  have w: "writeValue v ev = fold append_node nodes ?ev"
    using short by (simp add: AChain AStatsEvent_writeAttributionChain_def append_node_def append_byte_def)
  have n: "extended (concat (map node_bytes nodes)) ?ev (writeValue v ev)"
    unfolding w by (rule append_nodes_extended) (use assms in \<open>simp add: w\<close>)
  then have "extended [of_nat (length nodes)] (start_field ATTRIBUTION_CHAIN_TYPE ev) ?ev"
    by (intro append_bytes_extended) (simp add: extended_def)
  from extended_trans[OF this n] show ?thesis by (auto simp: AChain intro!: field_append)
qed (use assms in \<open>auto simp: AStatsEvent_writeInt32_def AStatsEvent_writeInt64_def AStatsEvent_writeFloat_def
      AStatsEvent_writeBool_def append_defs intro!: field_append append_bytes_extended\<close>)

section \<open>Annotations\<close>

text \<open>The type byte of a field with \<open>n\<close> annotations.\<close>

definition type_info :: "byte \<Rightarrow> nat \<Rightarrow> byte" where
  "type_info t n = push_bit 4 (of_nat n) OR t"

definition small_types :: "byte list" where
  "small_types = [0, 1, 2, 4, 5, 6, 9]"

definition small_type :: "byte \<Rightarrow> bool" where
  "small_type t \<longleftrightarrow> t \<in> set small_types"

lemma value_type_small [simp]: "small_type (value_type v)" "small_type INT32_TYPE"
  by (cases v; simp add: small_type_def small_types_def type_ids)+

definition type_info_fits :: "byte \<Rightarrow> nat \<Rightarrow> bool" where
  "type_info_fits t n \<longleftrightarrow> type_info t n AND 0x0F = t \<and> drop_bit 4 (type_info t n) AND 0x0F = of_nat n \<and>
     drop_bit 4 (ucast (type_info t n) AND 0xF0 :: u32) = of_nat n \<and>
     (n < 15 \<longrightarrow> (push_bit 4 (ucast (of_nat n + 1 :: u32)) AND 0xF0) OR t = type_info t (Suc n))"

lemma type_info_table: "list_all (\<lambda>n. list_all (\<lambda>t. type_info_fits t n) small_types) [0..<16]"
  by code_simp

lemma type_info_ok: "small_type t \<Longrightarrow> n \<le> 15 \<Longrightarrow> type_info_fits t n"
  using type_info_table unfolding list_all_iff small_type_def by simp

lemma type_info_read:
  assumes "small_type t" "n \<le> 15"
  shows "type_info t n AND 0x0F = t" "unat (drop_bit 4 (type_info t n) AND 0x0F) = n"
    "drop_bit 4 (ucast (type_info t n)) AND 0x0F = (of_nat n :: u32)"
  using type_info_ok[OF assms] assms(2) by (simp_all add: type_info_fits_def unat_of_nat)

lemma type_info_Suc:
  "small_type t \<Longrightarrow> n < 15 \<Longrightarrow> (push_bit 4 (ucast (of_nat n + 1 :: u32)) AND 0xF0) OR t = type_info t (Suc n)"
  using type_info_ok[of t n] by (simp add: type_info_fits_def)

lemma type_info_0 [simp]: "type_info t 0 = t"
  by (simp add: type_info_def)

text \<open>Annotating the last field counts in its type byte and appends.\<close>

lemma increment_ok:
  assumes "increment_annotation_count ev = Some ev'" "aeErrors ev' = 0" "small_type t" "n \<le> 15"
    and buf: "AStatsEvent_getBuffer ev = pre @ type_info t n # bs" "aeLastFieldPos ev = length pre"
  shows "n < 15 \<and> aeErrors ev = 0 \<and> AStatsEvent_getBuffer ev' = pre @ type_info t (Suc n) # bs \<and>
    aeLastFieldPos ev' = aeLastFieldPos ev \<and> aeNumElements ev' = aeNumElements ev \<and> aeAtomId ev' = aeAtomId ev"
proof -
  have len: "aeNumBytesWritten ev = length pre + Suc (length bs)"
    using arg_cong[OF buf(1), of length] by simp
  have "aeBuf ev (length pre) = AStatsEvent_getBuffer ev ! length pre"
    using len by (simp add: AStatsEvent_getBuffer_def del: upt_Suc)
  then have b: "aeBuf ev (length pre) = type_info t n" by (simp add: buf(1))
  have upd: "map ((aeBuf ev)(length pre := x)) [0..<aeNumBytesWritten ev] = (AStatsEvent_getBuffer ev)[length pre := x]" for x
    by (rule nth_equalityI) (auto simp: AStatsEvent_getBuffer_def nth_list_update)
  have few: "\<not> (of_nat n + 1 :: u32) > MAX_ANNOTATION_COUNT"
  proof
    assume *: "(of_nat n + 1 :: u32) > MAX_ANNOTATION_COUNT"
    have "ev' = addError ERROR_TOO_MANY_ANNOTATIONS ev"
      using assms(1) * by (simp add: increment_annotation_count_def buf(2) b type_info_read[OF assms(3,4)] Let_def split: if_splits)
    with assms(2) show False by (simp add: or_eq_0_iff ERROR_TOO_MANY_ANNOTATIONS_def)
  qed
  then have n: "n < 15" using assms(4) by (cases "n = 15") (simp_all add: MAX_ANNOTATION_COUNT_def)
  have "ev' = ev\<lparr>aeBuf := (aeBuf ev)(length pre := type_info t (Suc n))\<rparr>"
    using assms(1) few type_info_Suc[OF assms(3) n]
    by (simp add: increment_annotation_count_def buf(2) b type_info_read[OF assms(3,4)] Let_def split: if_splits)
  then show ?thesis using n assms(2) upd[of "type_info t (Suc n)"] buf by (simp add: AStatsEvent_getBuffer_def)
qed

lemma addAnnotation_cases:
  obtains i t bs where "annotation_bytes a = [i] @ [t] @ bs"
    and "addAnnotation a ev =
      (if aeNumElements ev < 2 then Some (addError ERROR_ANNOTATION_DOES_NOT_FOLLOW_FIELD ev)
       else if unat i > MAX_BYTE_VALUE then Some (addError ERROR_ANNOTATION_ID_TOO_LARGE ev)
       else increment_annotation_count (append_bytes bs (append_bytes [t] (append_bytes [i] ev))))"
  by (cases a) (auto simp: AStatsEvent_addBoolAnnotation_def AStatsEvent_addInt32Annotation_def append_defs)

lemma annotate_bytes:
  assumes "addAnnotation a ev = Some ev'" "aeErrors ev' = 0"
  shows "\<exists>ev1. extended (annotation_bytes a) ev ev1 \<and> increment_annotation_count ev1 = Some ev'"
proof -
  obtain i t bs where a: "annotation_bytes a = [i] @ [t] @ bs"
    and step: "addAnnotation a ev =
      (if aeNumElements ev < 2 then Some (addError ERROR_ANNOTATION_DOES_NOT_FOLLOW_FIELD ev)
       else if unat i > MAX_BYTE_VALUE then Some (addError ERROR_ANNOTATION_ID_TOO_LARGE ev)
       else increment_annotation_count (append_bytes bs (append_bytes [t] (append_bytes [i] ev))))"
    by (rule addAnnotation_cases)
  let ?ev = "append_bytes bs (append_bytes [t] (append_bytes [i] ev))"
  have inc: "increment_annotation_count ?ev = Some ev'"
    using assms by (auto simp: step error_bits or_eq_0_iff split: if_splits)
  then have e: "aeErrors ?ev = 0"
    using assms(2) by (auto simp: increment_annotation_count_def Let_def or_eq_0_iff split: if_splits)
  note e2 = append_bytes_ok(1)[OF e] note e1 = append_bytes_ok(1)[OF e2]
  have "extended (annotation_bytes a) ev ?ev"
    unfolding a by (intro extended_trans[OF append_bytes_extended[OF e1]] extended_trans[OF append_bytes_extended[OF e2]]
        append_bytes_extended[OF e])
  with inc show ?thesis by blast
qed

text \<open>A client names the atom, annotates it, and then writes fields with their annotations. Every sequence of calls
  after \<^verbatim>\<open>AStatsEvent_setAtomId\<close> has this form.\<close>

fun addAnnotations :: "annotation list \<Rightarrow> a_stats_event \<Rightarrow> a_stats_event option" where
  "addAnnotations [] ev = Some ev"
| "addAnnotations (a # as) ev = (case addAnnotation a ev of None \<Rightarrow> None | Some ev \<Rightarrow> addAnnotations as ev)"

fun writeFields :: "(atom_value \<times> annotation list) list \<Rightarrow> a_stats_event \<Rightarrow> a_stats_event option" where
  "writeFields [] ev = Some ev"
| "writeFields ((v, as) # fs) ev = (case addAnnotations as (writeValue v ev) of None \<Rightarrow> None | Some ev \<Rightarrow> writeFields fs ev)"

definition writeAtom ::
  "(nat \<Rightarrow> byte) \<Rightarrow> i64 \<Rightarrow> u32 \<Rightarrow> annotation list \<Rightarrow> (atom_value \<times> annotation list) list \<Rightarrow> a_stats_event option" where
  "writeAtom heap elapsedNs atomId as fs =
     (case addAnnotations as (AStatsEvent_setAtomId atomId (AStatsEvent_obtain heap elapsedNs)) of
        None \<Rightarrow> None | Some ev \<Rightarrow> writeFields fs ev)"

definition field_bytes :: "byte \<Rightarrow> byte list \<Rightarrow> annotation list \<Rightarrow> byte list" where
  "field_bytes t bs as = type_info t (length as) # bs @ concat (map annotation_bytes as)"

lemma addAnnotations_errors: "addAnnotations as ev = Some ev' \<Longrightarrow> aeErrors ev' = 0 \<Longrightarrow> aeErrors ev = 0"
proof (induction as arbitrary: ev)
  case (Cons a as)
  then show ?case using annotate_bytes[of a ev] by (fastforce simp: extended_def split: option.splits)
qed simp

lemma addAnnotations_bytes:
  assumes "addAnnotations as ev = Some ev'" "aeErrors ev' = 0" "small_type t" "n \<le> 15"
    and "AStatsEvent_getBuffer ev = pre @ type_info t n # bs" "aeLastFieldPos ev = length pre"
  shows "n + length as \<le> 15 \<and> aeErrors ev = 0 \<and>
    AStatsEvent_getBuffer ev' = pre @ type_info t (n + length as) # bs @ concat (map annotation_bytes as) \<and>
    aeNumElements ev' = aeNumElements ev \<and> aeAtomId ev' = aeAtomId ev"
  using assms
proof (induction as arbitrary: ev n bs)
  case (Cons a as)
  obtain ev1 where ev1: "addAnnotation a ev = Some ev1" "addAnnotations as ev1 = Some ev'"
    using Cons.prems(1) by (auto split: option.splits)
  have err: "aeErrors ev1 = 0" by (rule addAnnotations_errors[OF ev1(2) Cons.prems(2)])
  obtain ev2 where ev2: "extended (annotation_bytes a) ev ev2" "increment_annotation_count ev2 = Some ev1"
    using annotate_bytes[OF ev1(1) err] by blast
  have inc: "n < 15 \<and> aeErrors ev2 = 0 \<and> AStatsEvent_getBuffer ev1 = pre @ type_info t (Suc n) # bs @ annotation_bytes a \<and>
      aeLastFieldPos ev1 = length pre \<and> aeNumElements ev1 = aeNumElements ev \<and> aeAtomId ev1 = aeAtomId ev"
    using increment_ok[OF ev2(2) err Cons.prems(3,4), of pre "bs @ annotation_bytes a"] ev2(1) Cons.prems(5,6)
    by (simp add: extended_def)
  with Cons.IH[OF ev1(2) Cons.prems(2,3), of "Suc n" "bs @ annotation_bytes a"] ev2(1) show ?case
    by (simp add: extended_def)
qed simp

lemma writeField_bytes:
  assumes "addAnnotations as (writeValue v ev) = Some ev'" "aeErrors ev' = 0"
  shows "length as \<le> 15 \<and> aeErrors ev = 0 \<and>
    AStatsEvent_getBuffer ev' = AStatsEvent_getBuffer ev @ field_bytes (value_type v) (value_bytes v) as \<and>
    aeNumElements ev' = aeNumElements ev + 1 \<and> aeAtomId ev' = aeAtomId ev"
proof -
  have n: "new_field (value_type v # value_bytes v) ev (writeValue v ev)"
    by (rule writeValue_new) (rule addAnnotations_errors[OF assms])
  then show ?thesis
    using addAnnotations_bytes[OF assms, of "value_type v" 0 "AStatsEvent_getBuffer ev" "value_bytes v"]
    by (simp add: new_field_def field_bytes_def)
qed

definition fields_bytes :: "(atom_value \<times> annotation list) list \<Rightarrow> byte list" where
  "fields_bytes fs = concat (map (\<lambda>(v, as). field_bytes (value_type v) (value_bytes v) as) fs)"

lemma writeFields_bytes:
  assumes "writeFields fs ev = Some ev'" "aeErrors ev' = 0"
  shows "(\<forall>(v, as) \<in> set fs. length as \<le> 15) \<and> aeErrors ev = 0 \<and>
    AStatsEvent_getBuffer ev' = AStatsEvent_getBuffer ev @ fields_bytes fs \<and>
    aeNumElements ev' = aeNumElements ev + of_nat (length fs) \<and> aeAtomId ev' = aeAtomId ev"
  using assms
proof (induction fs arbitrary: ev)
  case (Cons f fs)
  obtain v as ev1 where f: "f = (v, as)" "addAnnotations as (writeValue v ev) = Some ev1" "writeFields fs ev1 = Some ev'"
    using Cons.prems(1) by (cases f) (auto split: option.splits)
  note ih = Cons.IH[OF f(3) Cons.prems(2)]
  note w = writeField_bytes[OF f(2)]
  show ?case using ih w by (simp add: f(1) fields_bytes_def)
qed (simp add: fields_bytes_def)

text \<open>The bytes of an atom before the number of elements is filled in.\<close>

definition atom_bytes ::
  "byte \<Rightarrow> i64 \<Rightarrow> u32 \<Rightarrow> annotation list \<Rightarrow> (atom_value \<times> annotation list) list \<Rightarrow> byte list" where
  "atom_bytes n elapsedNs atomId as fs =
     [OBJECT_TYPE, n, INT64_TYPE] @ bytes_of 8 elapsedNs @ field_bytes INT32_TYPE (bytes_of 4 atomId) as @ fields_bytes fs"

definition fresh_event :: "(nat \<Rightarrow> byte) \<Rightarrow> a_stats_event" where
  "fresh_event heap = \<lparr>aeBuf = (\<lambda>i. if i < MAX_PUSH_EVENT_PAYLOAD then 0 else heap i)(0 := OBJECT_TYPE), aeLastFieldPos = 0,
     aeNumBytesWritten = 2, aeNumElements = 0, aeAtomId = 0, aeErrors = 0, aeBuilt = False, aeBufSize = MAX_PUSH_EVENT_PAYLOAD\<rparr>"

lemma obtain_eq: "AStatsEvent_obtain heap t = writeValue (ALong t) (fresh_event heap)"
  by (simp add: AStatsEvent_obtain_def fresh_event_def)

lemma obtain_errors: "aeErrors (AStatsEvent_obtain heap t) = 0" "aeBuilt (AStatsEvent_obtain heap t) = False"
  by (simp_all add: obtain_eq AStatsEvent_writeInt64_def start_field_def append_defs append_bytes_def overflows_def
      fresh_event_def payload_limits Let_def)

lemma obtain_buffer:
  "AStatsEvent_getBuffer (AStatsEvent_obtain heap t) = [OBJECT_TYPE, 0, INT64_TYPE] @ bytes_of 8 t"
  "aeNumElements (AStatsEvent_obtain heap t) = 1" "aeAtomId (AStatsEvent_obtain heap t) = 0"
  "aeLastFieldPos (AStatsEvent_obtain heap t) = 2"
proof -
  have n: "new_field (INT64_TYPE # bytes_of 8 t) (fresh_event heap) (AStatsEvent_obtain heap t)"
    using writeValue_new[of "ALong t" "fresh_event heap"] obtain_errors(1)[of heap t] by (simp add: obtain_eq del: writeValue.simps)
  have b: "AStatsEvent_getBuffer (fresh_event heap) = [OBJECT_TYPE, 0]"
    by (simp add: AStatsEvent_getBuffer_def fresh_event_def payload_limits upt_rec)
  show "AStatsEvent_getBuffer (AStatsEvent_obtain heap t) = [OBJECT_TYPE, 0, INT64_TYPE] @ bytes_of 8 t"
    "aeNumElements (AStatsEvent_obtain heap t) = 1" "aeAtomId (AStatsEvent_obtain heap t) = 0"
    "aeLastFieldPos (AStatsEvent_obtain heap t) = 2"
    using n by (simp_all add: new_field_def b) (simp_all add: fresh_event_def)
qed

lemma writeAtom_bytes:
  assumes "writeAtom heap t i as fs = Some ev" "aeErrors ev = 0"
  shows "length as \<le> 15 \<and> (\<forall>(v, as) \<in> set fs. length as \<le> 15) \<and> AStatsEvent_getBuffer ev = atom_bytes 0 t i as fs \<and>
    aeNumElements ev = of_nat (2 + length fs) \<and> aeAtomId ev = i"
proof -
  obtain ev1 where ev1: "addAnnotations as (AStatsEvent_setAtomId i (AStatsEvent_obtain heap t)) = Some ev1" "writeFields fs ev1 = Some ev"
    using assms(1) by (auto simp: writeAtom_def split: option.splits)
  note fs = writeFields_bytes[OF ev1(2) assms(2)]
  have set: "AStatsEvent_setAtomId i (AStatsEvent_obtain heap t) = writeValue (AInt i) ((AStatsEvent_obtain heap t)\<lparr>aeAtomId := i\<rparr>)"
    by (simp add: AStatsEvent_setAtomId_def obtain_buffer)
  have g: "AStatsEvent_getBuffer ((AStatsEvent_obtain heap t)\<lparr>aeAtomId := i\<rparr>) = AStatsEvent_getBuffer (AStatsEvent_obtain heap t)"
    by (simp add: AStatsEvent_getBuffer_def)
  show ?thesis using writeField_bytes[OF ev1(1)[unfolded set]] fs
    by (simp add: g obtain_buffer atom_bytes_def)
qed

section \<open>Building\<close>

lemma rewriteWithErrors_errors: "aeErrors ev \<noteq> 0 \<Longrightarrow> aeErrors (rewriteWithErrors ev) \<noteq> 0"
  by (auto simp: rewriteWithErrors_def start_field_def append_defs Let_def dest!: append_bytes_ok(1))

lemma build_internal_ok:
  assumes "aeErrors (build_internal push ev) = 0"
  shows "aeErrors ev = 0 \<and> unat (aeNumElements ev) \<le> MAX_BYTE_VALUE \<and> aeAtomId ev \<noteq> 0 \<and>
    (push \<longrightarrow> aeNumBytesWritten ev \<le> MAX_PUSH_EVENT_PAYLOAD) \<and>
    build_internal push ev = ev\<lparr>aeBuf := (aeBuf ev)(POS_NUM_ELEMENTS := ucast (aeNumElements ev))\<rparr>"
proof -
  have c: "aeErrors (checkLimits push ev) = 0"
    using assms rewriteWithErrors_errors[of "checkLimits push ev"] by (auto simp: build_internal_def Let_def split: if_splits)
  then have "aeErrors ev = 0 \<and> unat (aeNumElements ev) \<le> MAX_BYTE_VALUE \<and> aeAtomId ev \<noteq> 0 \<and>
      (push \<longrightarrow> aeNumBytesWritten ev \<le> MAX_PUSH_EVENT_PAYLOAD) \<and> checkLimits push ev = ev"
    by (auto simp: checkLimits_def Let_def error_bits or_eq_0_iff split: if_splits)
  with c show ?thesis by (simp add: build_internal_def Let_def)
qed

section \<open>Staying inside the buffer\<close>

text \<open>The bytes written lie in the buffer, the header is intact, and unless an error is recorded the last field
  has its type byte.\<close>

definition writer_ok :: "a_stats_event \<Rightarrow> bool" where
  "writer_ok ev \<longleftrightarrow> size_ok ev \<and> POS_ATOM_ID \<le> aeNumBytesWritten ev \<and> POS_TIMESTAMP \<le> aeLastFieldPos ev \<and>
     aeLastFieldPos ev \<le> aeNumBytesWritten ev \<and> (aeErrors ev = 0 \<longrightarrow> aeLastFieldPos ev < aeNumBytesWritten ev) \<and>
     aeBuf ev 0 = OBJECT_TYPE \<and> aeBuf ev POS_TIMESTAMP AND 0x0F = INT64_TYPE"

lemma append_bytes_writer_ok: "writer_ok ev \<Longrightarrow> writer_ok (append_bytes bs ev)"
  using append_bytes_grows[where bs = bs and ev = ev] append_bytes_ok(1)[of bs ev] append_bytes_size[of ev bs]
    append_bytes_buf[of 0 ev bs] append_bytes_buf[of POS_TIMESTAMP ev bs]
  by (auto simp: writer_ok_def buffer_positions)

lemma addError_writer_ok: "writer_ok ev \<Longrightarrow> writer_ok (addError e ev)"
  by (auto simp: writer_ok_def size_ok_def or_eq_0_iff)

lemma start_field_writer_ok:
  assumes "size_ok ev" "POS_ATOM_ID \<le> aeNumBytesWritten ev" "aeBuf ev 0 = OBJECT_TYPE" "aeBuf ev POS_TIMESTAMP AND 0x0F = INT64_TYPE"
  shows "writer_ok (start_field t ev)"
proof -
  let ?ev = "ev\<lparr>aeLastFieldPos := aeNumBytesWritten ev\<rparr>"
  have "size_ok ?ev" using assms(1) by (simp add: size_ok_def)
  then show ?thesis
    using assms append_bytes_grows[where bs = "[t]" and ev = ?ev] append_bytes_ok(3)[of "[t]" ?ev] append_bytes_size[of ?ev "[t]"]
      append_bytes_buf[of 0 ?ev "[t]"] append_bytes_buf[of POS_TIMESTAMP ?ev "[t]"]
    by (auto simp: writer_ok_def start_field_def append_defs Let_def buffer_positions size_ok_def)
qed

lemma start_field_writer_ok': "writer_ok ev \<Longrightarrow> writer_ok (start_field t ev)"
  by (rule start_field_writer_ok) (auto simp: writer_ok_def)

lemmas writer_ok_intros = append_bytes_writer_ok addError_writer_ok start_field_writer_ok'

lemma append_string_writer_ok: "writer_ok ev \<Longrightarrow> writer_ok (append_string s ev)"
  by (auto simp: append_string_def append_defs Let_def intro!: writer_ok_intros)

lemma append_node_writer_ok: "writer_ok ev \<Longrightarrow> writer_ok (append_node n ev)"
  by (cases n) (auto simp: append_node_def append_defs intro!: append_string_writer_ok writer_ok_intros)

lemma append_nodes_writer_ok: "writer_ok ev \<Longrightarrow> writer_ok (fold append_node nodes ev)"
  by (induction nodes arbitrary: ev) (simp_all add: append_node_writer_ok)

lemma writeValue_writer_ok: "writer_ok ev \<Longrightarrow> writer_ok (writeValue v ev)"
  by (cases v) (auto simp: AStatsEvent_writeInt32_def AStatsEvent_writeInt64_def AStatsEvent_writeFloat_def
      AStatsEvent_writeBool_def AStatsEvent_writeString_def AStatsEvent_writeByteArray_def
      AStatsEvent_writeAttributionChain_def append_defs Let_def append_node_def[unfolded append_defs, symmetric]
      intro!: append_string_writer_ok append_nodes_writer_ok writer_ok_intros)

lemma obtain_writer_ok: "writer_ok (AStatsEvent_obtain heap t)"
  by (auto simp: obtain_eq AStatsEvent_writeInt64_def start_field_def append_defs append_bytes_def overflows_def
      fresh_event_def payload_limits Let_def writer_ok_def size_ok_def buffer_positions type_ids memcpy_def)

lemma nibble_kept: "((x AND 0xF0) OR (b AND 0x0F :: byte)) AND 0x0F = b AND 0x0F"
proof -
  have "(x AND 0xF0) AND (0x0F :: byte) = 0" by (simp add: and.assoc)
  then show ?thesis by (simp add: bit.conj_disj_distrib2 and.assoc)
qed

lemma increment_writer_ok: "writer_ok ev \<Longrightarrow> increment_annotation_count ev = Some ev' \<Longrightarrow> writer_ok ev'"
  by (auto simp: increment_annotation_count_def Let_def writer_ok_def size_ok_def or_eq_0_iff nibble_kept buffer_positions
      split: if_splits)

lemma increment_None:
  "writer_ok ev \<Longrightarrow> increment_annotation_count ev = None \<longleftrightarrow> aeLastFieldPos ev = aeBufSize ev"
  by (auto simp: increment_annotation_count_def Let_def writer_ok_def size_ok_def)

lemma addAnnotation_writer_ok:
  assumes "writer_ok ev"
  shows "addAnnotation a ev = Some ev' \<Longrightarrow> writer_ok ev'"
    and "addAnnotation a ev = None \<Longrightarrow> aeErrors ev \<noteq> 0 \<and> aeLastFieldPos ev = MAX_PULL_EVENT_PAYLOAD"
proof -
  obtain i t bs where step: "addAnnotation a ev =
      (if aeNumElements ev < 2 then Some (addError ERROR_ANNOTATION_DOES_NOT_FOLLOW_FIELD ev)
       else if unat i > MAX_BYTE_VALUE then Some (addError ERROR_ANNOTATION_ID_TOO_LARGE ev)
       else increment_annotation_count (append_bytes bs (append_bytes [t] (append_bytes [i] ev))))"
    by (rule addAnnotation_cases)
  let ?ev1 = "append_bytes [i] ev" and ?ev = "append_bytes bs (append_bytes [t] (append_bytes [i] ev))"
  have ok: "writer_ok ?ev1" "writer_ok ?ev" by (intro append_bytes_writer_ok assms)+
  show "addAnnotation a ev = Some ev' \<Longrightarrow> writer_ok ev'"
    using increment_writer_ok[OF ok(2)] addError_writer_ok[OF assms] by (auto simp: step split: if_splits)
  assume "addAnnotation a ev = None"
  then have l: "aeLastFieldPos ev = aeBufSize ?ev" using increment_None[OF ok(2)] by (auto simp: step split: if_splits)
  have "aeNumBytesWritten ev \<le> aeBufSize ev" "aeBufSize ev \<le> aeBufSize ?ev1" "aeBufSize ?ev1 \<le> aeBufSize ?ev"
    "aeNumBytesWritten ?ev1 \<le> aeBufSize ?ev1" "aeLastFieldPos ev \<le> aeNumBytesWritten ev"
    using assms ok append_bytes_grows(2) order.trans unfolding writer_ok_def size_ok_def by blast+
  with l have n: "aeNumBytesWritten ev = aeLastFieldPos ev" "aeBufSize ev = aeLastFieldPos ev" "aeNumBytesWritten ?ev1 \<le> aeLastFieldPos ev"
    by linarith+
  show "aeErrors ev \<noteq> 0 \<and> aeLastFieldPos ev = MAX_PULL_EVENT_PAYLOAD"
    using assms n append_bytes_ok(3)[of "[i]" ev]
    by (auto simp: writer_ok_def size_ok_def append_bytes_def overflows_def Let_def split: if_splits)
qed

lemma checkLimits_writer_ok: "writer_ok ev \<Longrightarrow> writer_ok (checkLimits push ev)"
  by (auto simp: checkLimits_def Let_def intro!: addError_writer_ok)

lemma rewriteWithErrors_writer_ok: "writer_ok ev \<Longrightarrow> writer_ok (rewriteWithErrors ev)"
  unfolding rewriteWithErrors_def Let_def append_int32_def
  by (intro append_bytes_writer_ok start_field_writer_ok) (auto simp: writer_ok_def size_ok_def payload_limits buffer_positions)

lemma num_elements_writer_ok: "writer_ok ev \<Longrightarrow> writer_ok (ev\<lparr>aeBuf := (aeBuf ev)(POS_NUM_ELEMENTS := b)\<rparr>)"
  by (simp add: writer_ok_def size_ok_def buffer_positions)

lemma build_internal_writer_ok: "writer_ok ev \<Longrightarrow> writer_ok (build_internal push ev)"
  unfolding build_internal_def Let_def
  by (intro num_elements_writer_ok) (simp add: checkLimits_writer_ok rewriteWithErrors_writer_ok)

lemma writer_step_ok: "writer_ok ev \<Longrightarrow> writer_step c ev = Some ev' \<Longrightarrow> writer_ok ev'"
proof (cases c)
  case (SetAtomId i)
  assume ok: "writer_ok ev" and s: "writer_step c ev = Some ev'"
  have "writer_ok (ev\<lparr>aeAtomId := i\<rparr>)" using ok by (simp add: writer_ok_def size_ok_def)
  with ok s writeValue_writer_ok[of _ "AInt i"] show ?thesis
    by (auto simp: SetAtomId AStatsEvent_setAtomId_def addError_writer_ok split: if_splits)
next
  case (OverwriteTimestamp t)
  then show "writer_ok ev \<Longrightarrow> writer_step c ev = Some ev' \<Longrightarrow> writer_ok ev'"
    by (auto simp: AStatsEvent_overwriteTimestamp_def writer_ok_def size_ok_def memcpy_def buffer_positions)
next
  case Build
  assume "writer_ok ev" "writer_step c ev = Some ev'"
  with build_internal_writer_ok[of ev False] show ?thesis
    by (auto simp: Build AStatsEvent_build_def writer_ok_def size_ok_def split: if_splits)
qed (auto simp: writeValue_writer_ok addAnnotation_writer_ok(1))

lemma writer_run_ok: "writer_ok ev \<Longrightarrow> writer_run cs ev = Some ev' \<Longrightarrow> writer_ok ev'"
  by (induction cs arbitrary: ev) (auto dest: writer_step_ok split: option.splits)

section \<open>Theorems\<close>

lemmas call_defs = obtain_eq AStatsEvent_setAtomId_def AStatsEvent_writeInt32_def AStatsEvent_writeInt64_def
  AStatsEvent_writeByteArray_def AStatsEvent_addBoolAnnotation_def increment_annotation_count_def start_field_def
  append_defs append_bytes_def overflows_def addError_def

text \<open>
  Property C5. Whatever a client calls, the writer stays inside its buffer, which never exceeds the pull limit, as
  long as no error is recorded: only the annotation of a field that found the buffer of the maximal size full, and so
  has recorded an overflow, addresses memory behind the buffer.
\<close>

theorem writer_stays_in_buffer:
  assumes "writer_run calls (AStatsEvent_obtain heap elapsedNs) = Some ev"
  shows "aeNumBytesWritten ev \<le> aeBufSize ev \<and> aeBufSize ev \<le> MAX_PULL_EVENT_PAYLOAD \<and>
    (aeErrors ev = 0 \<longrightarrow> aeLastFieldPos ev < aeNumBytesWritten ev) \<and>
    (writer_step c ev = None \<longrightarrow> (\<exists>a. c = AddAnnotation a) \<and> aeErrors ev \<noteq> 0 \<and> aeLastFieldPos ev = MAX_PULL_EVENT_PAYLOAD)"
proof -
  have ok: "writer_ok ev" by (rule writer_run_ok[OF obtain_writer_ok assms])
  moreover have "(\<exists>a. c = AddAnnotation a) \<and> aeErrors ev \<noteq> 0 \<and> aeLastFieldPos ev = MAX_PULL_EVENT_PAYLOAD"
    if n: "writer_step c ev = None"
    using n addAnnotation_writer_ok(2)[OF ok] by (cases c) auto
  ultimately show ?thesis by (simp add: writer_ok_def size_ok_def)
qed

theorem writer_stays_in_buffer_witness:
  "\<exists>ev. writer_run [SetAtomId 27, WriteValue (AInt 5), AddAnnotation (BoolAnnotation 1 True)] (AStatsEvent_obtain (\<lambda>_. 0) 7) = Some ev \<and>
     aeNumBytesWritten ev = 24 \<and> aeLastFieldPos ev < aeNumBytesWritten ev"
proof -
  let ?run = "writer_run [SetAtomId 27, WriteValue (AInt 5), AddAnnotation (BoolAnnotation 1 True)] (AStatsEvent_obtain (\<lambda>_. 0) 7)"
  have "\<exists>ev. ?run = Some ev \<and> aeNumBytesWritten ev = 24 \<and> aeErrors ev = 0"
    by (simp add: call_defs fresh_event_def payload_limits memcpy_def MAX_BYTE_VALUE_def MAX_ANNOTATION_COUNT_def type_ids Let_def)
  then obtain ev where "?run = Some ev" "aeNumBytesWritten ev = 24" "aeErrors ev = 0" by blast
  with writer_stays_in_buffer[OF this(1)] show ?thesis by simp
qed

text \<open>
  Fact. The exception is real: after a field that fills the buffer to its maximal size, annotating the next
  field, which did not fit, reads and writes the byte behind the buffer.
\<close>

theorem full_buffer_annotation_out_of_bounds:
  "writer_run [SetAtomId 27, WriteValue (ABytes (Some (replicate 51179 0))), WriteValue (AInt 5), AddAnnotation (BoolAnnotation 1 True)]
     (AStatsEvent_obtain heap elapsedNs) = None"
  by (simp add: call_defs fresh_event_def payload_limits MAX_BYTE_VALUE_def growBuffer.simps Let_def)

end
