(* ===== verification/LogEventParsing.thy ===== *)
theory LogEventParsing
  imports StatsEventWriter StateTracking
begin

text \<open>
  \<^verbatim>\<open>bin/src/logd/LogEvent.h\<close> and \<^verbatim>\<open>.cpp\<close>: the parser that turns the bytes received on the socket into the field
  values of an event, and the accessors of an event. The unread part of the buffer stands for \<^verbatim>\<open>mBuf\<close> and
  \<^verbatim>\<open>mRemainingLen\<close>; the two position arrays that \<^verbatim>\<open>parseBuffer\<close> passes by pointer are fields of the state.

  The bytes come from other processes. The lemmas show that parsing accepts only buffers it has read to the last
  byte, that field positions stay within the atom, and that no index the event remembers is out of range.
\<close>

unbundle bit_operations_syntax

section \<open>The event\<close>

record log_event_obj =
  leBuf :: "byte list"
  lePos :: "i32 list"
  leLast :: "bool list"
  leValid :: bool
  leValues :: "field_value list"
  leElapsedTimestampNs :: i64
  leTagId :: i32
  leLogUid :: i32
  leLogPid :: i32
  leTruncateTimestamp :: bool
  leResetState :: i32
  leUidFieldIndex :: int
  leAttributionChainStartIndex :: int
  leAttributionChainEndIndex :: int
  leExclusiveStateFieldIndex :: int

definition INT8_MAX :: nat where "INT8_MAX = 127"

definition newLogEvent :: "i32 \<Rightarrow> i32 \<Rightarrow> log_event_obj" where
  "newLogEvent uid pid =
     \<lparr>leBuf = [], lePos = [1, 1, 1], leLast = [False, False, False], leValid = True, leValues = [],
      leElapsedTimestampNs = 0, leTagId = 0, leLogUid = uid, leLogPid = pid, leTruncateTimestamp = False,
      leResetState = -1, leUidFieldIndex = -1, leAttributionChainStartIndex = -1, leAttributionChainEndIndex = -1,
      leExclusiveStateFieldIndex = -1\<rparr>"

text \<open>The constructors of the events that the daemon logs itself: the train state handed over by an API call, and
  the pulled train info. The atom numbers are generated from the atom definitions, and the serialisation of the
  experiment ids is the protobuf runtime's: they are parameters. A boolean is cast to \<^verbatim>\<open>int\<close>.\<close>

definition pushSimple :: "nat \<Rightarrow> log_value \<Rightarrow> log_event_obj \<Rightarrow> log_event_obj" where
  "pushSimple f v s =
     s\<lparr>leValues := leValues s @ [mkFieldValue \<lparr>mTag = leTagId s, mField = getSimpleField f\<rparr> v]\<rparr>"

definition newBinaryPushStateChanged ::
  "i32 \<Rightarrow> i64 \<Rightarrow> i32 \<Rightarrow> i32 \<Rightarrow> string \<Rightarrow> i64 \<Rightarrow> bool \<Rightarrow> bool \<Rightarrow> bool \<Rightarrow> i32 \<Rightarrow> byte list \<Rightarrow> i32 \<Rightarrow> log_event_obj" where
  "newBinaryPushStateChanged atom elapsedNs callingUid callingPid trainName trainVersionCode requiresStaging
       rollbackEnabled requiresLowLatencyMonitor st experimentIds userId =
     fold (\<lambda>(i, v). pushSimple i v)
       [(1, STRING trainName), (2, LONG trainVersionCode), (3, INT_v (of_bool requiresStaging)),
        (4, INT_v (of_bool rollbackEnabled)), (5, INT_v (of_bool requiresLowLatencyMonitor)), (6, INT_v st),
        (7, STORAGE experimentIds), (8, INT_v userId)]
       ((newLogEvent callingUid callingPid)\<lparr>leElapsedTimestampNs := elapsedNs, leTagId := atom\<rparr>)"

record install_train_info =
  trainVersionCode :: i64
  trainName :: string
  trainStatus :: i32
  experimentIds :: "i64 list"

definition newTrainInfoEvent ::
  "i32 \<Rightarrow> (i64 list \<Rightarrow> byte list) \<Rightarrow> i64 \<Rightarrow> install_train_info \<Rightarrow> log_event_obj" where
  "newTrainInfoEvent atom writeExperimentIdsToProto elapsedNs info =
     fold (\<lambda>(i, v). pushSimple i v)
       [(1, LONG (trainVersionCode info)), (2, STORAGE (writeExperimentIdsToProto (experimentIds info))),
        (3, STRING (trainName info)), (4, INT_v (trainStatus info))]
       ((newLogEvent (-1) (-1))\<lparr>leElapsedTimestampNs := elapsedNs, leTagId := atom\<rparr>)"

section \<open>Reading\<close>

definition invalid :: "log_event_obj \<Rightarrow> log_event_obj" where
  "invalid s = s\<lparr>leValid := False\<rparr>"

definition readNextValue :: "nat \<Rightarrow> log_event_obj \<Rightarrow> 'a :: len word \<times> log_event_obj" where
  "readNextValue n s =
     (if length (leBuf s) < n then (0, invalid s)
      else (word_of_bytes (take n (leBuf s)), s\<lparr>leBuf := drop n (leBuf s)\<rparr>))"

abbreviation readByte :: "log_event_obj \<Rightarrow> byte \<times> log_event_obj" where
  "readByte \<equiv> readNextValue 1"

abbreviation readInt32 :: "log_event_obj \<Rightarrow> i32 \<times> log_event_obj" where
  "readInt32 \<equiv> readNextValue 4"

abbreviation readInt64 :: "log_event_obj \<Rightarrow> i64 \<times> log_event_obj" where
  "readInt64 \<equiv> readNextValue 8"

definition getTypeId :: "byte \<Rightarrow> byte" where
  "getTypeId typeInfo = typeInfo AND 0x0F"

definition getNumAnnotations :: "byte \<Rightarrow> nat" where
  "getNumAnnotations typeInfo = unat (drop_bit 4 typeInfo AND 0x0F)"

definition addToValues :: "nat \<Rightarrow> log_value \<Rightarrow> log_event_obj \<Rightarrow> log_event_obj" where
  "addToValues depth v s =
     (let f = foldl (\<lambda>f i. if leLast s ! i then decorateLastPos i f else f)
                (Field (leTagId s) (lePos s) depth) [1..<depth]
      in s\<lparr>leValues := leValues s @ [mkFieldValue f v]\<rparr>)"

section \<open>Annotations\<close>

definition ANNOTATION_ID_IS_UID :: byte where "ANNOTATION_ID_IS_UID = 1"
definition ANNOTATION_ID_TRUNCATE_TIMESTAMP :: byte where "ANNOTATION_ID_TRUNCATE_TIMESTAMP = 2"
definition ANNOTATION_ID_PRIMARY_FIELD :: byte where "ANNOTATION_ID_PRIMARY_FIELD = 3"
definition ANNOTATION_ID_EXCLUSIVE_STATE :: byte where "ANNOTATION_ID_EXCLUSIVE_STATE = 4"
definition ANNOTATION_ID_PRIMARY_FIELD_FIRST_UID :: byte where "ANNOTATION_ID_PRIMARY_FIELD_FIRST_UID = 5"
definition ANNOTATION_ID_TRIGGER_STATE_RESET :: byte where "ANNOTATION_ID_TRIGGER_STATE_RESET = 7"
definition ANNOTATION_ID_STATE_NESTED :: byte where "ANNOTATION_ID_STATE_NESTED = 8"

lemmas annotation_ids = ANNOTATION_ID_IS_UID_def ANNOTATION_ID_TRUNCATE_TIMESTAMP_def ANNOTATION_ID_PRIMARY_FIELD_def
  ANNOTATION_ID_EXCLUSIVE_STATE_def ANNOTATION_ID_PRIMARY_FIELD_FIRST_UID_def ANNOTATION_ID_TRIGGER_STATE_RESET_def
  ANNOTATION_ID_STATE_NESTED_def

text \<open>\<^verbatim>\<open>mValues.size() - 1 > INT8_MAX\<close> on unsigned sizes: the size zero wraps.\<close>

definition lastIndexTooLarge :: "log_event_obj \<Rightarrow> bool" where
  "lastIndexTooLarge s \<longleftrightarrow> leValues s = [] \<or> length (leValues s) - 1 > INT8_MAX"

definition annotate :: "nat \<Rightarrow> nat \<Rightarrow> bool \<Rightarrow> log_event_obj \<Rightarrow> log_event_obj" where
  "annotate i bitPos v s =
     s\<lparr>leValues := (leValues s)[i := (leValues s ! i)\<lparr>fvAnnotations :=
         setBitmaskAtPos bitPos v (fvAnnotations (leValues s ! i))\<rparr>]\<rparr>"

definition checkPreviousValueType :: "log_value \<Rightarrow> log_event_obj \<Rightarrow> bool" where
  "checkPreviousValueType expected s = (getType (fvValue (leValues s ! (length (leValues s) - 1))) = getType expected)"

definition parseIsUidAnnotation :: "byte \<Rightarrow> log_event_obj \<Rightarrow> log_event_obj" where
  "parseIsUidAnnotation annotationType s =
     (if leValues s = [] \<or> lastIndexTooLarge s \<or> \<not> checkPreviousValueType (INT_v 0) s \<or> annotationType \<noteq> BOOL_TYPE
      then invalid s
      else case readByte s of (b, s) \<Rightarrow>
        let isUid = (b \<noteq> 0);
            s = (if isUid then s\<lparr>leUidFieldIndex := int (length (leValues s)) - 1\<rparr> else s)
        in annotate (length (leValues s) - 1) UID_POS isUid s)"

definition parseTruncateTimestampAnnotation :: "byte \<Rightarrow> log_event_obj \<Rightarrow> log_event_obj" where
  "parseTruncateTimestampAnnotation annotationType s =
     (if leValues s \<noteq> [] \<or> annotationType \<noteq> BOOL_TYPE then invalid s
      else case readByte s of (b, s) \<Rightarrow> s\<lparr>leTruncateTimestamp := (b \<noteq> 0)\<rparr>)"

definition parsePrimaryFieldAnnotation :: "byte \<Rightarrow> log_event_obj \<Rightarrow> log_event_obj" where
  "parsePrimaryFieldAnnotation annotationType s =
     (if leValues s = [] \<or> annotationType \<noteq> BOOL_TYPE then invalid s
      else case readByte s of (b, s) \<Rightarrow> annotate (length (leValues s) - 1) PRIMARY_POS (b \<noteq> 0) s)"

definition parsePrimaryFieldFirstUidAnnotation :: "byte \<Rightarrow> int \<Rightarrow> log_event_obj \<Rightarrow> log_event_obj" where
  "parsePrimaryFieldFirstUidAnnotation annotationType firstUidInChainIndex s =
     (if leValues s = [] \<or> annotationType \<noteq> BOOL_TYPE \<or> -1 = firstUidInChainIndex then invalid s
      else if int (length (leValues s)) - 1 < firstUidInChainIndex then invalid s
      else case readByte s of (b, s) \<Rightarrow> annotate (nat firstUidInChainIndex) PRIMARY_POS (b \<noteq> 0) s)"

definition parseExclusiveStateAnnotation :: "byte \<Rightarrow> log_event_obj \<Rightarrow> log_event_obj" where
  "parseExclusiveStateAnnotation annotationType s =
     (if leValues s = [] \<or> annotationType \<noteq> BOOL_TYPE then invalid s
      else if lastIndexTooLarge s then invalid s
      else case readByte s of (b, s) \<Rightarrow>
        annotate (length (leValues s) - 1) EXCLUSIVE_POS (b \<noteq> 0)
          (s\<lparr>leExclusiveStateFieldIndex := int (length (leValues s)) - 1\<rparr>))"

definition parseTriggerStateResetAnnotation :: "byte \<Rightarrow> log_event_obj \<Rightarrow> log_event_obj" where
  "parseTriggerStateResetAnnotation annotationType s =
     (if leValues s = [] \<or> annotationType \<noteq> INT32_TYPE then invalid s
      else case readInt32 s of (v, s) \<Rightarrow> s\<lparr>leResetState := v\<rparr>)"

definition parseStateNestedAnnotation :: "byte \<Rightarrow> log_event_obj \<Rightarrow> log_event_obj" where
  "parseStateNestedAnnotation annotationType s =
     (if leValues s = [] \<or> annotationType \<noteq> BOOL_TYPE then invalid s
      else case readByte s of (b, s) \<Rightarrow> annotate (length (leValues s) - 1) NESTED_POS (b \<noteq> 0) s)"

text \<open>The body of the loop; \<open>None\<close> is the early return on an unknown annotation.\<close>

definition parseAnnotation :: "int \<Rightarrow> log_event_obj \<Rightarrow> log_event_obj option" where
  "parseAnnotation firstUidInChainIndex s =
     (case readByte s of (annotationId, s) \<Rightarrow> case readByte s of (annotationType, s) \<Rightarrow>
        if annotationId = ANNOTATION_ID_IS_UID then Some (parseIsUidAnnotation annotationType s)
        else if annotationId = ANNOTATION_ID_TRUNCATE_TIMESTAMP then Some (parseTruncateTimestampAnnotation annotationType s)
        else if annotationId = ANNOTATION_ID_PRIMARY_FIELD then Some (parsePrimaryFieldAnnotation annotationType s)
        else if annotationId = ANNOTATION_ID_PRIMARY_FIELD_FIRST_UID
             then Some (parsePrimaryFieldFirstUidAnnotation annotationType firstUidInChainIndex s)
        else if annotationId = ANNOTATION_ID_EXCLUSIVE_STATE then Some (parseExclusiveStateAnnotation annotationType s)
        else if annotationId = ANNOTATION_ID_TRIGGER_STATE_RESET then Some (parseTriggerStateResetAnnotation annotationType s)
        else if annotationId = ANNOTATION_ID_STATE_NESTED then Some (parseStateNestedAnnotation annotationType s)
        else None)"

primrec parseAnnotations :: "nat \<Rightarrow> int \<Rightarrow> log_event_obj \<Rightarrow> log_event_obj" where
  "parseAnnotations 0 firstUidInChainIndex s = s"
| "parseAnnotations (Suc n) firstUidInChainIndex s =
     (case parseAnnotation firstUidInChainIndex s of
        None \<Rightarrow> invalid (snd (readByte (snd (readByte s))))
      | Some s \<Rightarrow> parseAnnotations n firstUidInChainIndex s)"

section \<open>Values\<close>

definition parseInt32 :: "nat \<Rightarrow> nat \<Rightarrow> log_event_obj \<Rightarrow> log_event_obj" where
  "parseInt32 depth numAnnotations s =
     (case readInt32 s of (v, s) \<Rightarrow> parseAnnotations numAnnotations (-1) (addToValues depth (INT_v v) s))"

definition parseInt64 :: "nat \<Rightarrow> nat \<Rightarrow> log_event_obj \<Rightarrow> log_event_obj" where
  "parseInt64 depth numAnnotations s =
     (case readInt64 s of (v, s) \<Rightarrow> parseAnnotations numAnnotations (-1) (addToValues depth (LONG v) s))"

definition parseString :: "nat \<Rightarrow> nat \<Rightarrow> log_event_obj \<Rightarrow> log_event_obj" where
  "parseString depth numAnnotations s =
     (case readInt32 s of (numBytes, s) \<Rightarrow>
        let n = unat numBytes
        in if n > length (leBuf s) then invalid s
           else parseAnnotations numAnnotations (-1)
                  (addToValues depth (STRING (map (\<lambda>b. char_of (unat b)) (take n (leBuf s)))) (s\<lparr>leBuf := drop n (leBuf s)\<rparr>)))"

definition parseFloat :: "nat \<Rightarrow> nat \<Rightarrow> log_event_obj \<Rightarrow> log_event_obj" where
  "parseFloat depth numAnnotations s =
     (case readInt32 s of (v, s) \<Rightarrow> parseAnnotations numAnnotations (-1) (addToValues depth (FLOAT v) s))"

definition parseBool :: "nat \<Rightarrow> nat \<Rightarrow> log_event_obj \<Rightarrow> log_event_obj" where
  "parseBool depth numAnnotations s =
     (case readByte s of (v, s) \<Rightarrow> parseAnnotations numAnnotations (-1) (addToValues depth (INT_v (ucast v)) s))"

definition parseByteArray :: "nat \<Rightarrow> nat \<Rightarrow> log_event_obj \<Rightarrow> log_event_obj" where
  "parseByteArray depth numAnnotations s =
     (case readInt32 s of (numBytes, s) \<Rightarrow>
        let n = unat numBytes
        in if n > length (leBuf s) then invalid s
           else parseAnnotations numAnnotations (-1)
                  (addToValues depth (STORAGE (take n (leBuf s))) (s\<lparr>leBuf := drop n (leBuf s)\<rparr>)))"

definition setPos :: "nat \<Rightarrow> nat \<Rightarrow> log_event_obj \<Rightarrow> log_event_obj" where
  "setPos i p s = s\<lparr>lePos := (lePos s)[i := of_nat p]\<rparr>"

definition setLast :: "nat \<Rightarrow> bool \<Rightarrow> log_event_obj \<Rightarrow> log_event_obj" where
  "setLast i b s = s\<lparr>leLast := (leLast s)[i := b]\<rparr>"

text \<open>The body of the loop over the pairs, for the pair at position \<open>i\<close> of \<open>n\<close>.\<close>

definition parseKeyValuePair :: "nat \<Rightarrow> log_event_obj \<Rightarrow> nat \<Rightarrow> log_event_obj" where
  "parseKeyValuePair n s i =
     (let s = setLast 1 (i = n) (setPos 1 i s);
          s = parseInt32 2 0 (setPos 2 1 s);
          s = setLast 2 True s
      in case readByte s of (typeInfo, s) \<Rightarrow>
           let t = getTypeId typeInfo
           in if t = INT32_TYPE then parseInt32 2 0 (setPos 2 2 s)
              else if t = INT64_TYPE then parseInt64 2 0 (setPos 2 3 s)
              else if t = STRING_TYPE then parseString 2 0 (setPos 2 4 s)
              else if t = FLOAT_TYPE then parseFloat 2 0 (setPos 2 5 s)
              else invalid s)"

definition resetNesting :: "log_event_obj \<Rightarrow> log_event_obj" where
  "resetNesting s = setLast 1 False (setLast 2 False (setPos 1 1 (setPos 2 1 s)))"

definition parseKeyValuePairs :: "nat \<Rightarrow> log_event_obj \<Rightarrow> log_event_obj" where
  "parseKeyValuePairs numAnnotations s =
     (case readByte s of (numPairs, s) \<Rightarrow>
        resetNesting (parseAnnotations numAnnotations (-1)
          (foldl (parseKeyValuePair (unat numPairs)) s [1..<Suc (unat numPairs)])))"

definition parseAttributionNode :: "nat \<Rightarrow> log_event_obj \<Rightarrow> nat \<Rightarrow> log_event_obj" where
  "parseAttributionNode n s i =
     (let s = setLast 1 (i = n) (setPos 1 i s);
          s = parseInt32 2 0 (setPos 2 1 s)
      in parseString 2 0 (setLast 2 True (setPos 2 2 s)))"

definition parseAttributionChain :: "nat \<Rightarrow> log_event_obj \<Rightarrow> log_event_obj" where
  "parseAttributionChain numAnnotations s =
     (let firstUidInChainIndex = length (leValues s)
      in case readByte s of (numNodes, s) \<Rightarrow>
        let s = foldl (parseAttributionNode (unat numNodes)) s [1..<Suc (unat numNodes)];
            s = (if lastIndexTooLarge s then invalid s
                 else if length (leValues s) - 1 > firstUidInChainIndex
                 then s\<lparr>leAttributionChainStartIndex := int firstUidInChainIndex,
                       leAttributionChainEndIndex := int (length (leValues s)) - 1\<rparr>
                 else s);
            s = (if leValid s then parseAnnotations numAnnotations (int firstUidInChainIndex) s else s)
        in resetNesting s)"

section \<open>The buffer\<close>

definition parseElement :: "log_event_obj \<Rightarrow> log_event_obj" where
  "parseElement s =
     (case readByte s of (typeInfo, s) \<Rightarrow>
        let t = getTypeId typeInfo; n = getNumAnnotations typeInfo
        in if t = BOOL_TYPE then parseBool 0 n s
           else if t = INT32_TYPE then parseInt32 0 n s
           else if t = INT64_TYPE then parseInt64 0 n s
           else if t = FLOAT_TYPE then parseFloat 0 n s
           else if t = BYTE_ARRAY_TYPE then parseByteArray 0 n s
           else if t = STRING_TYPE then parseString 0 n s
           else if t = KEY_VALUE_PAIRS_TYPE then parseKeyValuePairs n s
           else if t = ATTRIBUTION_CHAIN_TYPE then parseAttributionChain n s
           else if t = ERROR_TYPE then (case readInt32 s of (errors, s) \<Rightarrow> invalid s)
           else invalid s)"

fun parseElements :: "nat \<Rightarrow> nat list \<Rightarrow> log_event_obj \<Rightarrow> log_event_obj" where
  "parseElements n [] s = s"
| "parseElements n (i # is) s =
     (if leValid s then parseElements n is (parseElement (setLast 0 (i = n) (setPos 0 i s))) else s)"

definition expectType :: "byte \<Rightarrow> byte \<Rightarrow> log_event_obj \<Rightarrow> log_event_obj" where
  "expectType typeId typeInfo s = (if getTypeId typeInfo \<noteq> typeId then invalid s else s)"

definition parseHeader :: "log_event_obj \<Rightarrow> nat \<times> log_event_obj" where
  "parseHeader s =
     (case readByte s of (typeInfo, s) \<Rightarrow>
      case readByte (expectType OBJECT_TYPE typeInfo s) of (numElements, s) \<Rightarrow>
      case readByte (if numElements < 2 \<or> numElements > 127 then invalid s else s) of (typeInfo, s) \<Rightarrow>
      case readInt64 (expectType INT64_TYPE typeInfo s) of (elapsed, s) \<Rightarrow>
      case readByte (s\<lparr>leElapsedTimestampNs := elapsed\<rparr>) of (typeInfo, s) \<Rightarrow>
      case readInt32 (expectType INT32_TYPE typeInfo s) of (tag, s) \<Rightarrow>
        (unat (numElements - 1 - 1), parseAnnotations (getNumAnnotations typeInfo) (-1) (s\<lparr>leTagId := tag\<rparr>)))"

text \<open>The local arrays are fresh; the length is cut to 32 bits.\<close>

definition parseBuffer :: "byte list \<Rightarrow> log_event_obj \<Rightarrow> bool \<times> log_event_obj" where
  "parseBuffer buf s =
     (case parseHeader (s\<lparr>leBuf := take (length buf mod 2 ^ 32) buf, lePos := [1, 1, 1],
                          leLast := [False, False, False]\<rparr>) of (n, s) \<Rightarrow>
        let s = parseElements n [1..<Suc n] s;
            s = (if leBuf s \<noteq> [] then invalid s else s)
        in (leValid s, s))"

section \<open>Accessors\<close>

datatype status = OK | BAD_TYPE | BAD_INDEX

text \<open>The scan all accessors make: the value at the simple field \<open>key\<close>, if it comes before a later field.\<close>

fun findSimple :: "nat \<Rightarrow> field_value list \<Rightarrow> log_value option" where
  "findSimple key [] = None"
| "findSimple key (fv # fvs) =
     (if mField (fvField fv) = getSimpleField key then Some (fvValue fv)
      else if unat (getPosAtDepth (fvField fv) 0) > key then None
      else findSimple key fvs)"

definition accessor :: "(log_value \<Rightarrow> 'a option) \<Rightarrow> nat \<Rightarrow> log_event_obj \<Rightarrow> status + 'a" where
  "accessor get key s =
     (case findSimple key (leValues s) of
        None \<Rightarrow> Inl BAD_INDEX
      | Some v \<Rightarrow> (case get v of None \<Rightarrow> Inl BAD_TYPE | Some x \<Rightarrow> Inr x))"

definition GetLong :: "nat \<Rightarrow> log_event_obj \<Rightarrow> status + i64" where
  "GetLong = accessor (\<lambda>v. case v of LONG l \<Rightarrow> Some l | INT_v i \<Rightarrow> Some (scast i) | _ \<Rightarrow> None)"

definition GetInt :: "nat \<Rightarrow> log_event_obj \<Rightarrow> status + i32" where
  "GetInt = accessor (\<lambda>v. case v of INT_v i \<Rightarrow> Some i | _ \<Rightarrow> None)"

definition GetString :: "nat \<Rightarrow> log_event_obj \<Rightarrow> status + string" where
  "GetString = accessor (\<lambda>v. case v of STRING t \<Rightarrow> Some (c_string t) | _ \<Rightarrow> None)"

definition GetBool :: "nat \<Rightarrow> log_event_obj \<Rightarrow> status + bool" where
  "GetBool = accessor (\<lambda>v. case v of INT_v i \<Rightarrow> Some (i \<noteq> 0) | LONG l \<Rightarrow> Some (l \<noteq> 0) | _ \<Rightarrow> None)"

definition GetFloat :: "nat \<Rightarrow> log_event_obj \<Rightarrow> status + u32" where
  "GetFloat = accessor (\<lambda>v. case v of FLOAT x \<Rightarrow> Some x | _ \<Rightarrow> None)"

definition GetStorage :: "nat \<Rightarrow> log_event_obj \<Rightarrow> status + byte list" where
  "GetStorage = accessor (\<lambda>v. case v of STORAGE b \<Rightarrow> Some b | _ \<Rightarrow> None)"

text \<open>\<^verbatim>\<open>updateValue\<close>: the first value at the simple field, with the new value given as a \<^verbatim>\<open>Value\<close>.\<close>

fun updateValueIn :: "nat \<Rightarrow> log_value \<Rightarrow> nat \<Rightarrow> field_value list \<Rightarrow> status \<times> field_value list" where
  "updateValueIn key v t [] = (BAD_INDEX, [])"
| "updateValueIn key v t (fv # fvs) =
     (if mField (fvField fv) = getSimpleField key
      then if getType (fvValue fv) = t then (OK, fv\<lparr>fvValue := v\<rparr> # fvs) else (BAD_TYPE, fv # fvs)
      else case updateValueIn key v t fvs of (st, fvs) \<Rightarrow> (st, fv # fvs))"

definition updateValue :: "nat \<Rightarrow> log_value \<Rightarrow> nat \<Rightarrow> log_event_obj \<Rightarrow> status \<times> log_event_obj" where
  "updateValue key v t s = (case updateValueIn key v t (leValues s) of (st, fvs) \<Rightarrow> (st, s\<lparr>leValues := fvs\<rparr>))"

definition hasAttributionChain :: "log_event_obj \<Rightarrow> (int \<times> int) option" where
  "hasAttributionChain s =
     (if leAttributionChainStartIndex s = -1 \<or> leAttributionChainEndIndex s = -1 then None
      else Some (leAttributionChainStartIndex s, leAttributionChainEndIndex s))"

text \<open>The event as the matchers, conditions and metrics see it.\<close>

definition eventOf :: "log_event_obj \<Rightarrow> state_event" where
  "eventOf s =
     \<lparr>tagId = leTagId s, event_values = leValues s, elapsedTimestampNs = sint (leElapsedTimestampNs s),
      logUid = sint (leLogUid s), resetStateValue = leResetState s,
      exclusiveStateFieldIndex = leExclusiveStateFieldIndex s, truncateTimestamp = leTruncateTimestamp s\<rparr>"

section \<open>Properties of every parser step\<close>

text \<open>The tail of an attribution chain: the indices of the chain are remembered, then come the annotations.\<close>

definition recordChain :: "nat \<Rightarrow> log_event_obj \<Rightarrow> log_event_obj" where
  "recordChain first s =
     (if lastIndexTooLarge s then invalid s
      else if length (leValues s) - 1 > first
      then s\<lparr>leAttributionChainStartIndex := int first, leAttributionChainEndIndex := int (length (leValues s)) - 1\<rparr>
      else s)"

definition chainFrom :: "nat \<Rightarrow> nat \<Rightarrow> log_event_obj \<Rightarrow> log_event_obj" where
  "chainFrom numAnnotations first s =
     (case readByte s of (numNodes, s) \<Rightarrow>
        resetNesting ((\<lambda>s. if leValid s then parseAnnotations numAnnotations (int first) s else s)
          (recordChain first (foldl (parseAttributionNode (unat numNodes)) s [1..<Suc (unat numNodes)]))))"

lemma parseAttributionChain_eq: "parseAttributionChain n = (\<lambda>s. chainFrom n (length (leValues s)) s)"
  by (rule ext) (simp add: parseAttributionChain_def chainFrom_def recordChain_def Let_def case_prod_unfold)

lemma parseAnnotations_Suc:
  "parseAnnotations (Suc n) i = (\<lambda>s.
     case readByte s of (annotationId, s) \<Rightarrow> case readByte s of (annotationType, s) \<Rightarrow>
        if annotationId = ANNOTATION_ID_IS_UID then parseAnnotations n i (parseIsUidAnnotation annotationType s)
        else if annotationId = ANNOTATION_ID_TRUNCATE_TIMESTAMP then parseAnnotations n i (parseTruncateTimestampAnnotation annotationType s)
        else if annotationId = ANNOTATION_ID_PRIMARY_FIELD then parseAnnotations n i (parsePrimaryFieldAnnotation annotationType s)
        else if annotationId = ANNOTATION_ID_PRIMARY_FIELD_FIRST_UID
             then parseAnnotations n i (parsePrimaryFieldFirstUidAnnotation annotationType i s)
        else if annotationId = ANNOTATION_ID_EXCLUSIVE_STATE then parseAnnotations n i (parseExclusiveStateAnnotation annotationType s)
        else if annotationId = ANNOTATION_ID_TRIGGER_STATE_RESET then parseAnnotations n i (parseTriggerStateResetAnnotation annotationType s)
        else if annotationId = ANNOTATION_ID_STATE_NESTED then parseAnnotations n i (parseStateNestedAnnotation annotationType s)
        else invalid s)"
  by (rule ext) (simp add: parseAnnotation_def case_prod_unfold)

definition extends :: "byte list \<Rightarrow> log_event_obj \<Rightarrow> log_event_obj" where
  "extends x s = s\<lparr>leBuf := leBuf s @ x\<rparr>"

text \<open>A property of state transformers that the elementary steps of the parser have and that sequencing, reading
  and choosing keep. A choice may look at the state, but not at the bytes still to come.\<close>

locale parser_property =
  fixes P :: "(log_event_obj \<Rightarrow> log_event_obj) \<Rightarrow> bool"
  assumes P_id: "P (\<lambda>s. s)"
    and P_invalid: "P invalid"
    and P_comp: "\<And>f g. P f \<Longrightarrow> P g \<Longrightarrow> P (\<lambda>s. g (f s))"
    and P_if: "\<And>C f g. (\<And>s x. C (extends x s) = C s) \<Longrightarrow> P f \<Longrightarrow> P g \<Longrightarrow> P (\<lambda>s. if C s then f s else g s)"
    and P_byte: "\<And>f. (\<And>v. P (f v)) \<Longrightarrow> P (\<lambda>s. case readByte s of (v, s) \<Rightarrow> f v s)"
    and P_int32: "\<And>f. (\<And>v. P (f v)) \<Longrightarrow> P (\<lambda>s. case readInt32 s of (v, s) \<Rightarrow> f v s)"
    and P_int64: "\<And>f. (\<And>v. P (f v)) \<Longrightarrow> P (\<lambda>s. case readInt64 s of (v, s) \<Rightarrow> f v s)"
    and P_take: "\<And>f n. (\<And>v. P (f v)) \<Longrightarrow>
      P (\<lambda>s. if n > length (leBuf s) then invalid s else f (take n (leBuf s)) (s\<lparr>leBuf := drop n (leBuf s)\<rparr>))"
    and P_values: "\<And>f. (\<And>k. P (f k)) \<Longrightarrow> P (\<lambda>s. f (length (leValues s)) s)"
    and P_add: "\<And>d v. P (addToValues d v)"
    and P_pos: "\<And>i k. P (setPos i k)"
    and P_last: "\<And>i b. P (setLast i b)"
    and P_chain: "\<And>first. P (recordChain first)"
    and P_bodies: "\<And>t. P (parseIsUidAnnotation t)" "\<And>t. P (parseTruncateTimestampAnnotation t)"
      "\<And>t. P (parsePrimaryFieldAnnotation t)" "\<And>t i. P (parsePrimaryFieldFirstUidAnnotation t i)"
      "\<And>t. P (parseExclusiveStateAnnotation t)" "\<And>t. P (parseTriggerStateResetAnnotation t)"
      "\<And>t. P (parseStateNestedAnnotation t)"
begin

lemmas step_intros = P_id P_invalid P_byte P_int32 P_int64 P_add P_pos P_last P_bodies P_if

lemma annotations: "P (parseAnnotations n i)"
proof (induction n)
  case 0
  have "parseAnnotations 0 i = (\<lambda>s. s)" by (rule ext) simp
  then show ?case by (simp add: P_id)
next
  case (Suc n)
  show ?case unfolding parseAnnotations_Suc by (intro step_intros P_comp[OF _ Suc]) simp_all
qed

lemma take_add:
  "P (\<lambda>s. if n > length (leBuf s) then invalid s
     else parseAnnotations k i (addToValues d (c (take n (leBuf s))) (s\<lparr>leBuf := drop n (leBuf s)\<rparr>)))"
  by (rule P_take[where f = "\<lambda>bs s. parseAnnotations k i (addToValues d (c bs) s)"]) (intro P_comp[OF _ annotations] step_intros)

lemma scalars:
  "P (parseInt32 d n)" "P (parseInt64 d n)" "P (parseFloat d n)" "P (parseBool d n)" "P (parseString d n)" "P (parseByteArray d n)"
  unfolding parseInt32_def parseInt64_def parseFloat_def parseBool_def parseString_def parseByteArray_def Let_def
  by (intro P_byte P_int32 P_int64 P_add take_add P_comp[OF _ annotations])+

lemma fold_steps: "(\<And>i. P (\<lambda>s. f s i)) \<Longrightarrow> P (\<lambda>s. foldl f s is)"
proof (induction "is")
  case (Cons i "is")
  from P_comp[OF Cons.prems Cons.IH[OF Cons.prems]] show ?case by simp
qed (simp add: P_id)

lemma pair: "P (\<lambda>s. parseKeyValuePair n s i)"
  unfolding parseKeyValuePair_def Let_def
  by (rule P_comp[where f = "\<lambda>s. setLast 2 True (parseInt32 2 0 (setPos 2 1 (setLast 1 (i = n) (setPos 1 i s))))"];
      intro step_intros scalars P_comp[where f = "setPos _ _"] P_comp[where g = "setLast _ _"]
        P_comp[where g = "parseInt32 _ _"] P_comp[where g = "setPos _ _"]; simp)

lemma node: "P (\<lambda>s. parseAttributionNode n s i)"
  unfolding parseAttributionNode_def Let_def
  by (intro step_intros scalars P_comp[where g = "parseString _ _"] P_comp[where g = "setLast _ _"] P_comp[where g = "setPos _ _"]
      P_comp[where g = "parseInt32 _ _"])

lemma reset: "P resetNesting"
  unfolding resetNesting_def[abs_def] by (intro step_intros P_comp[where g = "setLast _ _"] P_comp[where g = "setPos _ _"])

lemma pairs: "P (parseKeyValuePairs n)"
  unfolding parseKeyValuePairs_def[abs_def]
  by (intro step_intros P_comp[OF _ reset] P_comp[OF _ annotations] fold_steps pair)

lemma chain: "P (parseAttributionChain n)"
proof -
  have a: "P (\<lambda>s. if leValid s then parseAnnotations n (int first) s else s)" for first
    by (intro P_if annotations P_id) (simp add: extends_def)
  have nodes: "P (\<lambda>s. foldl (parseAttributionNode k) s is)" for k "is" by (intro fold_steps node)
  have "P (chainFrom n first)" for first
    unfolding chainFrom_def[abs_def] by (rule P_byte, rule P_comp[OF P_comp[OF P_comp[OF nodes P_chain] a] reset])
  then show ?thesis unfolding parseAttributionChain_eq by (rule P_values[where f = "chainFrom n"])
qed

lemma element: "P parseElement"
  unfolding parseElement_def[abs_def] Let_def
  by (intro P_byte P_int32 P_if P_invalid scalars pairs chain; rule refl)

lemma elements: "P (parseElements n is)"
proof (induction "is")
  case Nil
  have "parseElements n [] = (\<lambda>s. s)" by (rule ext) simp
  then show ?case by (simp add: P_id)
next
  case (Cons i "is")
  have eq: "parseElements n (i # is) = (\<lambda>s. if leValid s then parseElements n is (parseElement (setLast 0 (i = n) (setPos 0 i s))) else s)"
    by (rule ext) simp
  show ?case unfolding eq
    by (intro P_if P_id P_comp[OF _ Cons] P_comp[OF _ element] P_comp[OF P_pos P_last]) (simp add: extends_def)
qed

lemma expected: "P (expectType t i)"
  unfolding expectType_def[abs_def] by (intro P_if P_id P_invalid) simp_all

end

section \<open>Parsing reads a stream\<close>

text \<open>A step that ends valid started valid and does not depend on what follows the bytes it read.\<close>

definition streams :: "(log_event_obj \<Rightarrow> log_event_obj) \<Rightarrow> bool" where
  "streams f \<longleftrightarrow> (\<forall>s x. leValid (f s) \<longrightarrow> leValid s \<and> f (extends x s) = extends x (f s))"

lemma extends_simps [simp]:
  "leValid (extends x s) = leValid s" "leValues (extends x s) = leValues s" "leTagId (extends x s) = leTagId s"
  "lePos (extends x s) = lePos s" "leLast (extends x s) = leLast s" "leBuf (extends x s) = leBuf s @ x"
  by (simp_all add: extends_def)

lemma streamsI: "(\<And>s x. leValid (f s) \<Longrightarrow> leValid s \<and> f (extends x s) = extends x (f s)) \<Longrightarrow> streams f"
  unfolding streams_def by blast

lemma streamsD: "streams f \<Longrightarrow> leValid (f s) \<Longrightarrow> leValid s \<and> f (extends x s) = extends x (f s)"
  unfolding streams_def by blast

lemma streams_invalid: "streams (\<lambda>s. invalid (f s))"
  by (rule streamsI) (simp add: invalid_def)

lemma streams_comp: "streams f \<Longrightarrow> streams g \<Longrightarrow> streams (\<lambda>s. g (f s))"
  unfolding streams_def by metis

lemma streams_if:
  assumes "\<And>s x. P (extends x s) = P s" "streams f" "streams g"
  shows "streams (\<lambda>s. if P s then f s else g s)"
proof (rule streamsI)
  fix s x
  assume "leValid (if P s then f s else g s)"
  then show "leValid s \<and> (if P (extends x s) then f (extends x s) else g (extends x s)) = extends x (if P s then f s else g s)"
    using assms(1)[of x s] streamsD[OF assms(2), of s x] streamsD[OF assms(3), of s x] by (cases "P s") simp_all
qed

lemma extends_drop:
  "n \<le> length (leBuf s) \<Longrightarrow> extends x s\<lparr>leBuf := drop n (leBuf s) @ x\<rparr> = extends x (s\<lparr>leBuf := drop n (leBuf s)\<rparr>)"
  by (simp add: extends_def)

lemma streams_read:
  assumes "\<And>v. streams (f v)"
  shows "streams (\<lambda>s. case readNextValue n s of (v, s) \<Rightarrow> f v s)"
proof (rule streamsI)
  fix s x
  assume v: "leValid (case readNextValue n s of (v, s) \<Rightarrow> f v s)"
  show "leValid s \<and> (case readNextValue n (extends x s) of (v, s) \<Rightarrow> f v s) = extends x (case readNextValue n s of (v, s) \<Rightarrow> f v s)"
  proof (cases "length (leBuf s) < n")
    case True
    with v have "leValid (f 0 (invalid s))" by (simp add: readNextValue_def)
    then have "leValid (invalid s)" using streamsD[OF assms] by blast
    then show ?thesis by (simp add: invalid_def)
  next
    case False
    with v streamsD[OF assms, of "word_of_bytes (take n (leBuf s))" "s\<lparr>leBuf := drop n (leBuf s)\<rparr>" x] extends_drop[of n s x]
    show ?thesis by (simp add: readNextValue_def)
  qed
qed

lemma streams_take:
  assumes "\<And>v. streams (f v)"
  shows "streams (\<lambda>s. if n > length (leBuf s) then invalid s else f (take n (leBuf s)) (s\<lparr>leBuf := drop n (leBuf s)\<rparr>))"
proof (rule streamsI)
  fix s x
  assume v: "leValid (if n > length (leBuf s) then invalid s else f (take n (leBuf s)) (s\<lparr>leBuf := drop n (leBuf s)\<rparr>))"
  then have n: "\<not> n > length (leBuf s)" by (auto simp: invalid_def)
  with v streamsD[OF assms, of "take n (leBuf s)" "s\<lparr>leBuf := drop n (leBuf s)\<rparr>" x] extends_drop[of n s x]
  show "leValid s \<and>
      (if n > length (leBuf (extends x s)) then invalid (extends x s)
       else f (take n (leBuf (extends x s))) (extends x s\<lparr>leBuf := drop n (leBuf (extends x s))\<rparr>)) =
      extends x (if n > length (leBuf s) then invalid s else f (take n (leBuf s)) (s\<lparr>leBuf := drop n (leBuf s)\<rparr>))"
    by simp
qed

lemma streams_annotate: "streams (annotate i p b)" "streams (\<lambda>s. annotate (length (leValues s) - 1) p b s)"
  by (rule streamsI; simp add: annotate_def extends_def)+

lemma streams_bodies:
  "streams (parseIsUidAnnotation t)" "streams (parseTruncateTimestampAnnotation t)" "streams (parsePrimaryFieldAnnotation t)"
  "streams (parsePrimaryFieldFirstUidAnnotation t i)" "streams (parseExclusiveStateAnnotation t)"
  "streams (parseTriggerStateResetAnnotation t)" "streams (parseStateNestedAnnotation t)"
  unfolding parseIsUidAnnotation_def parseTruncateTimestampAnnotation_def parsePrimaryFieldAnnotation_def
    parsePrimaryFieldFirstUidAnnotation_def parseExclusiveStateAnnotation_def parseTriggerStateResetAnnotation_def
    parseStateNestedAnnotation_def Let_def
  by (intro streams_if streams_invalid streams_read streams_annotate;
      simp add: lastIndexTooLarge_def checkPreviousValueType_def streams_def annotate_def extends_def)+

interpretation streaming: parser_property streams
proof
  show "streams invalid" using streams_invalid[of "\<lambda>s. s"] by simp
  show "streams (\<lambda>s. s)" by (rule streamsI) simp
  show "streams (addToValues d v)" "streams (setPos i k)" "streams (setLast i b)" for d v i k b
    by (rule streamsI; simp add: addToValues_def setPos_def setLast_def extends_def)+
  show "streams (recordChain first)" for first
    by (rule streamsI) (simp add: recordChain_def lastIndexTooLarge_def invalid_def extends_def split: if_splits)
  show "streams (\<lambda>s. f (length (leValues s)) s)" if v: "\<And>k. streams (f k)" for f
    using streamsD[OF v] by (auto intro!: streamsI)
qed (fact streams_comp streams_if streams_read streams_take streams_bodies)+

definition parseBody :: "log_event_obj \<Rightarrow> log_event_obj" where
  "parseBody s = (case parseHeader s of (n, s) \<Rightarrow> parseElements n [1..<Suc n] s)"

lemma parseBuffer_eq:
  "length buf < 2 ^ 32 \<Longrightarrow> parseBuffer buf s =
     (let s = parseBody (s\<lparr>leBuf := buf, lePos := [1, 1, 1], leLast := [False, False, False]\<rparr>);
          s = (if leBuf s \<noteq> [] then invalid s else s) in (leValid s, s))"
  by (simp add: parseBuffer_def parseBody_def Let_def case_prod_unfold)

lemma streams_body: "streams parseBody"
proof -
  have body: "parseBody = (\<lambda>s. case readByte s of (typeInfo, s) \<Rightarrow>
      case readByte (expectType OBJECT_TYPE typeInfo s) of (numElements, s) \<Rightarrow>
      case readByte (if numElements < 2 \<or> numElements > 127 then invalid s else s) of (typeInfo, s) \<Rightarrow>
      case readInt64 (expectType INT64_TYPE typeInfo s) of (elapsed, s) \<Rightarrow>
      case readByte (s\<lparr>leElapsedTimestampNs := elapsed\<rparr>) of (typeInfo, s) \<Rightarrow>
      case readInt32 (expectType INT32_TYPE typeInfo s) of (tag, s) \<Rightarrow>
        parseElements (unat (numElements - 1 - 1)) [1..<Suc (unat (numElements - 1 - 1))]
          (parseAnnotations (getNumAnnotations typeInfo) (-1) (s\<lparr>leTagId := tag\<rparr>)))"
    by (rule ext) (simp add: parseBody_def parseHeader_def case_prod_unfold)
  have upd: "streams (\<lambda>s. s\<lparr>leElapsedTimestampNs := v\<rparr>)" "streams (\<lambda>s. s\<lparr>leTagId := w\<rparr>)" for v w
    by (auto intro!: streamsI simp: extends_def)
  have via: "streams g \<Longrightarrow> (\<And>v. streams (f v)) \<Longrightarrow> streams (\<lambda>s. case readNextValue n (g s) of (v, s) \<Rightarrow> f v s)"
    for g n and f :: "'a :: len word \<Rightarrow> log_event_obj \<Rightarrow> log_event_obj"
    by (rule streams_comp[where g = "\<lambda>s. case readNextValue n s of (v, s) \<Rightarrow> f v s"]) (auto intro: streams_read)
  show ?thesis unfolding body
    by (intro streams_read via streaming.expected upd streams_if streams_invalid streaming.P_id
        streams_comp[OF upd(2) streams_comp[OF streaming.annotations streaming.elements]]) simp_all
qed

section \<open>Indices stay in range\<close>

text \<open>Every value carries the tag of the event, and the indices an event remembers are unset or address one of its
  values; the uid field is an integer.\<close>

definition index_ok :: "int \<Rightarrow> log_event_obj \<Rightarrow> bool" where
  "index_ok i s \<longleftrightarrow> i = -1 \<or> (0 \<le> i \<and> i < int (length (leValues s)) \<and> i \<le> int INT8_MAX)"

definition event_ok :: "log_event_obj \<Rightarrow> bool" where
  "event_ok s \<longleftrightarrow> (\<forall>v \<in> set (leValues s). mTag (fvField v) = leTagId s) \<and>
     index_ok (leUidFieldIndex s) s \<and>
     (leUidFieldIndex s \<noteq> -1 \<longrightarrow> getType (fvValue (leValues s ! nat (leUidFieldIndex s))) = getType (INT_v 0)) \<and>
     index_ok (leExclusiveStateFieldIndex s) s \<and>
     (leAttributionChainStartIndex s = -1 \<and> leAttributionChainEndIndex s = -1 \<or>
      0 \<le> leAttributionChainStartIndex s \<and> leAttributionChainStartIndex s < leAttributionChainEndIndex s \<and>
        index_ok (leAttributionChainEndIndex s) s)"

definition same_data :: "log_event_obj \<Rightarrow> log_event_obj \<Rightarrow> bool" where
  "same_data s s' \<longleftrightarrow> leValues s' = leValues s \<and> leTagId s' = leTagId s \<and> leUidFieldIndex s' = leUidFieldIndex s \<and>
     leExclusiveStateFieldIndex s' = leExclusiveStateFieldIndex s \<and>
     leAttributionChainStartIndex s' = leAttributionChainStartIndex s \<and> leAttributionChainEndIndex s' = leAttributionChainEndIndex s"

lemma event_ok_same: "same_data s s' \<Longrightarrow> event_ok s' = event_ok s"
  by (simp add: same_data_def event_ok_def index_ok_def)

lemma same_data_steps [simp]:
  "same_data s (invalid s)" "same_data s (s\<lparr>leBuf := b\<rparr>)" "same_data s (setPos i k s)" "same_data s (setLast i c s)"
  "same_data s (snd (readNextValue n s))"
  by (simp_all add: same_data_def invalid_def setPos_def setLast_def readNextValue_def)

lemma event_ok_steps [simp]:
  "event_ok (invalid s) = event_ok s" "event_ok (s\<lparr>leBuf := b\<rparr>) = event_ok s" "event_ok (setPos i k s) = event_ok s"
  "event_ok (setLast i c s) = event_ok s" "event_ok (snd (readNextValue n s)) = event_ok s"
  "event_ok (s\<lparr>leTruncateTimestamp := c\<rparr>) = event_ok s" "event_ok (s\<lparr>leResetState := r\<rparr>) = event_ok s"
  "event_ok (s\<lparr>leValid := c\<rparr>) = event_ok s"
  by (rule event_ok_same; simp add: same_data_def invalid_def setPos_def setLast_def readNextValue_def)+

lemma map_update_same: "f y = f (xs ! i) \<Longrightarrow> map f (xs[i := y]) = map f xs"
  by (induction xs arbitrary: i) (auto split: nat.splits)

lemma annotated_values:
  "map fvField (leValues (annotate i p b s)) = map fvField (leValues s)"
  "map fvValue (leValues (annotate i p b s)) = map fvValue (leValues s)"
  by (simp_all add: annotate_def map_update_same)

lemma event_ok_alt:
  "event_ok s \<longleftrightarrow> (\<forall>f \<in> set (map fvField (leValues s)). mTag f = leTagId s) \<and>
     index_ok (leUidFieldIndex s) s \<and>
     (leUidFieldIndex s \<noteq> -1 \<longrightarrow> getType (map fvValue (leValues s) ! nat (leUidFieldIndex s)) = getType (INT_v 0)) \<and>
     index_ok (leExclusiveStateFieldIndex s) s \<and>
     (leAttributionChainStartIndex s = -1 \<and> leAttributionChainEndIndex s = -1 \<or>
      0 \<le> leAttributionChainStartIndex s \<and> leAttributionChainStartIndex s < leAttributionChainEndIndex s \<and>
        index_ok (leAttributionChainEndIndex s) s)"
  by (auto simp: event_ok_def index_ok_def)

lemma annotate_frame [simp]:
  "leTagId (annotate i p b s) = leTagId s" "leUidFieldIndex (annotate i p b s) = leUidFieldIndex s"
  "leExclusiveStateFieldIndex (annotate i p b s) = leExclusiveStateFieldIndex s"
  "leAttributionChainStartIndex (annotate i p b s) = leAttributionChainStartIndex s"
  "leAttributionChainEndIndex (annotate i p b s) = leAttributionChainEndIndex s"
  "length (leValues (annotate i p b s)) = length (leValues s)"
  by (simp_all add: annotate_def)

lemma event_ok_annotate [simp]: "event_ok (annotate i p b s) = event_ok s"
  by (simp only: event_ok_alt annotated_values annotate_frame index_ok_def)

lemma mTag_decorated: "mTag (foldl (\<lambda>f i. if l ! i then decorateLastPos i f else f) f is) = mTag f"
  by (induction "is" arbitrary: f) (simp_all add: decorateLastPos_def)

lemma event_ok_add: "event_ok s \<Longrightarrow> event_ok (addToValues d v s)"
  by (auto simp: event_ok_def index_ok_def addToValues_def Let_def mkFieldValue_def mTag_decorated Field_def nth_append)

lemma event_ok_read: "(\<And>s. event_ok s \<Longrightarrow> event_ok (f s)) \<Longrightarrow> event_ok s \<Longrightarrow> event_ok (f (snd (readNextValue n s)))"
  by simp

lemma event_ok_bodies:
  assumes "event_ok s"
  shows "event_ok (parseIsUidAnnotation t s)" "event_ok (parseTruncateTimestampAnnotation t s)"
    "event_ok (parsePrimaryFieldAnnotation t s)" "event_ok (parsePrimaryFieldFirstUidAnnotation t i s)"
    "event_ok (parseExclusiveStateAnnotation t s)" "event_ok (parseTriggerStateResetAnnotation t s)"
    "event_ok (parseStateNestedAnnotation t s)"
proof -
  let ?s = "snd (readByte s)"
  have s: "event_ok ?s" "leValues ?s = leValues s" using assms by (simp_all add: readNextValue_def invalid_def)
  have uid: "event_ok (?s\<lparr>leUidFieldIndex := int (length (leValues ?s)) - 1\<rparr>)"
    if g: "\<not> lastIndexTooLarge s" "checkPreviousValueType (INT_v 0) s"
  proof -
    have "nat (int (length (leValues s)) - 1) = length (leValues s) - 1" by simp
    with g s show ?thesis
      by (auto simp: event_ok_def index_ok_def lastIndexTooLarge_def checkPreviousValueType_def simp del: One_nat_def)
  qed
  have excl: "event_ok (?s\<lparr>leExclusiveStateFieldIndex := int (length (leValues ?s)) - 1\<rparr>)" if g: "\<not> lastIndexTooLarge s"
    using g s by (auto simp: event_ok_def index_ok_def lastIndexTooLarge_def)
  show "event_ok (parseIsUidAnnotation t s)" using assms uid s(1)
    by (simp add: parseIsUidAnnotation_def case_prod_unfold Let_def)
  show "event_ok (parseExclusiveStateAnnotation t s)" using assms excl
    by (simp add: parseExclusiveStateAnnotation_def case_prod_unfold)
  show "event_ok (parseTruncateTimestampAnnotation t s)" "event_ok (parsePrimaryFieldAnnotation t s)"
    "event_ok (parsePrimaryFieldFirstUidAnnotation t i s)" "event_ok (parseTriggerStateResetAnnotation t s)"
    "event_ok (parseStateNestedAnnotation t s)"
    using assms by (simp_all add: parseTruncateTimestampAnnotation_def parsePrimaryFieldAnnotation_def
        parsePrimaryFieldFirstUidAnnotation_def parseTriggerStateResetAnnotation_def parseStateNestedAnnotation_def case_prod_unfold)
qed

interpretation typing: parser_property "\<lambda>f. \<forall>s. event_ok s \<longrightarrow> event_ok (f s)"
proof
  show "\<forall>s. event_ok s \<longrightarrow> event_ok (recordChain first s)" for first
    by (auto simp: recordChain_def event_ok_def index_ok_def lastIndexTooLarge_def invalid_def)
qed (auto simp: case_prod_unfold event_ok_add event_ok_bodies)

section \<open>Theorems\<close>

text \<open>
  Property C3. Accepted buffers are self-delimiting: if the parser accepts a buffer, it accepts no buffer that is a
  proper prefix of it (a truncated event) and none that it is a proper prefix of (an event with trailing bytes).
\<close>

theorem parse_self_delimiting:
  assumes "length (buf @ rest) < 2 ^ 32" and "rest \<noteq> []"
  shows "\<not> (fst (parseBuffer buf (newLogEvent uid pid)) \<and> fst (parseBuffer (buf @ rest) (newLogEvent uid pid)))"
proof
  let ?s = "(newLogEvent uid pid)\<lparr>leBuf := buf, lePos := [1, 1, 1], leLast := [False, False, False]\<rparr>"
  assume both: "fst (parseBuffer buf (newLogEvent uid pid)) \<and> fst (parseBuffer (buf @ rest) (newLogEvent uid pid))"
  then have ok: "leValid (parseBody ?s)" "leBuf (parseBody ?s) = []"
    using assms(1) by (auto simp: parseBuffer_eq Let_def invalid_def split: if_splits)
  have "extends rest ?s = (newLogEvent uid pid)\<lparr>leBuf := buf @ rest, lePos := [1, 1, 1], leLast := [False, False, False]\<rparr>"
    by (simp add: extends_def)
  then have "leBuf (parseBody ((newLogEvent uid pid)\<lparr>leBuf := buf @ rest, lePos := [1, 1, 1], leLast := [False, False, False]\<rparr>)) = rest"
    using streamsD[OF streams_body ok(1), of rest] ok(2) by simp
  with both assms show False by (auto simp: parseBuffer_eq Let_def invalid_def split: if_splits)
qed

theorem parse_self_delimiting_witness:
  "fst (parseBuffer [7, 2, 1, 5, 0, 0, 0, 0, 0, 0, 0, 0, 27, 0, 0, 0] (newLogEvent 1000 1)) \<and>
   \<not> fst (parseBuffer ([7, 2, 1, 5, 0, 0, 0, 0, 0, 0, 0, 0, 27, 0, 0, 0] @ [1]) (newLogEvent 1000 1))"
proof -
  have "fst (parseBuffer [7, 2, 1, 5, 0, 0, 0, 0, 0, 0, 0, 0, 27, 0, 0, 0] (newLogEvent 1000 1))"
    by (simp add: parseBuffer_def parseHeader_def readNextValue_def expectType_def getTypeId_def getNumAnnotations_def
        newLogEvent_def type_ids)
  with parse_self_delimiting[of "[7, 2, 1, 5, 0, 0, 0, 0, 0, 0, 0, 0, 27, 0, 0, 0]" "[1]" 1000 1] show ?thesis by simp
qed

definition blank :: "log_event_obj \<Rightarrow> bool" where
  "blank s \<longleftrightarrow> leValues s = [] \<and> leUidFieldIndex s = -1 \<and> leExclusiveStateFieldIndex s = -1 \<and>
     leAttributionChainStartIndex s = -1 \<and> leAttributionChainEndIndex s = -1"

lemma blank_steps [simp]:
  "blank (snd (readNextValue n s)) = blank s" "blank (expectType t i s) = blank s" "blank (invalid s) = blank s"
  "blank (s\<lparr>leElapsedTimestampNs := e\<rparr>) = blank s" "blank (s\<lparr>leTagId := t'\<rparr>) = blank s"
  by (simp_all add: blank_def readNextValue_def expectType_def invalid_def)

lemma blank_ok: "blank s \<Longrightarrow> event_ok s"
  by (simp add: blank_def event_ok_def index_ok_def)

lemma blank_if [simp]: "blank (if b then invalid s else s) = blank s"
  by simp

lemma header_ok: "blank s \<Longrightarrow> event_ok (snd (parseHeader s))"
  unfolding parseHeader_def case_prod_unfold snd_conv
  by (rule typing.annotations[rule_format], rule blank_ok) (simp only: blank_steps blank_if)

text \<open>
  Property C4. Whatever bytes arrive, the event parsed from them is well formed: every value carries the event's tag,
  the uid, state and attribution chain indices are unset or in range, the uid field is an integer, and a chain starts
  before it ends.
\<close>

theorem parsed_event_well_formed: "event_ok (snd (parseBuffer buf (newLogEvent uid pid)))"
proof -
  let ?s = "(newLogEvent uid pid)\<lparr>leBuf := take (length buf mod 2 ^ 32) buf, lePos := [1, 1, 1], leLast := [False, False, False]\<rparr>"
  have "event_ok (snd (parseHeader ?s))" by (rule header_ok) (simp add: blank_def newLogEvent_def)
  then show ?thesis using typing.elements by (simp add: parseBuffer_def Let_def case_prod_unfold)
qed

end
