(* ===== verification/EventCodec.thy ===== *)
theory EventCodec
  imports LogEventParsing
begin

text \<open>
  The two ends of the socket together: what the parser of the daemon (\<^verbatim>\<open>LogEvent::parseBuffer\<close>) makes of the bytes
  that the client library (\<^verbatim>\<open>stats_event.c\<close>) wrote. The specification \<open>deliverAtom\<close> says, without bytes, which
  event a sequence of client calls describes: a value per field, numbered from one, the uid and the tag of every
  attribution node, and the annotations applied to the value before them. An annotation that makes no sense where it
  stands spoils the event.
\<close>

section \<open>What the client means\<close>

definition markLast :: "bool \<Rightarrow> field \<Rightarrow> field" where
  "markLast l f = (if l then decorateLastPos 1 f else f)"

definition simpleLeaf :: "i32 \<Rightarrow> nat \<Rightarrow> log_value \<Rightarrow> field_value" where
  "simpleLeaf tag i v = mkFieldValue (Field tag [of_nat i, 1, 1] 0) v"

definition nodeLeaves :: "i32 \<Rightarrow> nat \<Rightarrow> nat \<Rightarrow> nat \<Rightarrow> u32 \<times> string option \<Rightarrow> field_value list" where
  "nodeLeaves tag i n j node =
     [mkFieldValue (markLast (j = n) (Field tag [of_nat i, of_nat j, 1] 2)) (INT_v (fst node)),
      mkFieldValue (markLast (j = n) (Field tag [of_nat i, of_nat j, 2] 2)) (STRING (c_string (orEmpty (snd node))))]"

fun nodesLeaves :: "i32 \<Rightarrow> nat \<Rightarrow> nat \<Rightarrow> nat \<Rightarrow> (u32 \<times> string option) list \<Rightarrow> field_value list" where
  "nodesLeaves tag i n j [] = []"
| "nodesLeaves tag i n j (node # nodes) = nodeLeaves tag i n j node @ nodesLeaves tag i n (Suc j) nodes"

fun leaves :: "i32 \<Rightarrow> nat \<Rightarrow> atom_value \<Rightarrow> field_value list" where
  "leaves tag i (AInt v) = [simpleLeaf tag i (INT_v v)]"
| "leaves tag i (ALong v) = [simpleLeaf tag i (LONG v)]"
| "leaves tag i (AFloat v) = [simpleLeaf tag i (FLOAT v)]"
| "leaves tag i (ABool v) = [simpleLeaf tag i (INT_v (of_bool v))]"
| "leaves tag i (AString v) = [simpleLeaf tag i (STRING (c_string (orEmpty v)))]"
| "leaves tag i (ABytes v) = [simpleLeaf tag i (STORAGE (array_of v))]"
| "leaves tag i (AChain nodes) = nodesLeaves tag i (length nodes) 1 nodes"

definition lastIndex :: "log_event_obj \<Rightarrow> nat" where
  "lastIndex s = length (leValues s) - 1"

text \<open>The index of the last value fits into seven bits.\<close>

definition smallIndex :: "log_event_obj \<Rightarrow> bool" where
  "smallIndex s \<longleftrightarrow> leValues s \<noteq> [] \<and> length (leValues s) \<le> 128"

fun deliverAnnotation :: "int \<Rightarrow> annotation \<Rightarrow> log_event_obj \<Rightarrow> log_event_obj option" where
  "deliverAnnotation first (BoolAnnotation i b) s =
     (if i = ANNOTATION_ID_IS_UID \<and> smallIndex s \<and> (\<exists>v. fvValue (leValues s ! lastIndex s) = INT_v v)
      then Some (annotate (lastIndex s) UID_POS b (if b then s\<lparr>leUidFieldIndex := int (lastIndex s)\<rparr> else s))
      else if i = ANNOTATION_ID_TRUNCATE_TIMESTAMP \<and> leValues s = [] then Some (s\<lparr>leTruncateTimestamp := b\<rparr>)
      else if i = ANNOTATION_ID_PRIMARY_FIELD \<and> leValues s \<noteq> [] then Some (annotate (lastIndex s) PRIMARY_POS b s)
      else if i = ANNOTATION_ID_PRIMARY_FIELD_FIRST_UID \<and> leValues s \<noteq> [] \<and> first \<noteq> -1 \<and> first \<le> int (lastIndex s)
      then Some (annotate (nat first) PRIMARY_POS b s)
      else if i = ANNOTATION_ID_EXCLUSIVE_STATE \<and> smallIndex s
      then Some (annotate (lastIndex s) EXCLUSIVE_POS b (s\<lparr>leExclusiveStateFieldIndex := int (lastIndex s)\<rparr>))
      else if i = ANNOTATION_ID_STATE_NESTED \<and> leValues s \<noteq> [] then Some (annotate (lastIndex s) NESTED_POS b s)
      else None)"
| "deliverAnnotation first (Int32Annotation i v) s =
     (if i = ANNOTATION_ID_TRIGGER_STATE_RESET \<and> leValues s \<noteq> [] then Some (s\<lparr>leResetState := v\<rparr>) else None)"

fun deliverAnnotations :: "int \<Rightarrow> annotation list \<Rightarrow> log_event_obj \<Rightarrow> log_event_obj option" where
  "deliverAnnotations first [] s = Some s"
| "deliverAnnotations first (a # as) s =
     (case deliverAnnotation first a s of None \<Rightarrow> None | Some s \<Rightarrow> deliverAnnotations first as s)"

definition addLeaves :: "nat \<Rightarrow> atom_value \<Rightarrow> log_event_obj \<Rightarrow> log_event_obj" where
  "addLeaves i v s = s\<lparr>leValues := leValues s @ leaves (leTagId s) i v\<rparr>"

text \<open>A chain is located in the event; it must not reach past index 127.\<close>

definition deliverField :: "nat \<Rightarrow> atom_value \<Rightarrow> annotation list \<Rightarrow> log_event_obj \<Rightarrow> log_event_obj option" where
  "deliverField i v as s =
     (let s1 = addLeaves i v s
      in case v of
           AChain nodes \<Rightarrow>
             (if \<not> smallIndex s1 then None
              else deliverAnnotations (int (length (leValues s))) as
                     (if nodes = [] then s1
                      else s1\<lparr>leAttributionChainStartIndex := int (length (leValues s)),
                              leAttributionChainEndIndex := int (lastIndex s1)\<rparr>))
         | _ \<Rightarrow> deliverAnnotations (-1) as s1)"

fun deliverFields :: "nat \<Rightarrow> (atom_value \<times> annotation list) list \<Rightarrow> log_event_obj \<Rightarrow> log_event_obj option" where
  "deliverFields i [] s = Some s"
| "deliverFields i ((v, as) # fs) s =
     (case deliverField i v as s of None \<Rightarrow> None | Some s \<Rightarrow> deliverFields (Suc i) fs s)"

definition deliverAtom ::
  "i32 \<Rightarrow> i32 \<Rightarrow> i64 \<Rightarrow> i32 \<Rightarrow> annotation list \<Rightarrow> (atom_value \<times> annotation list) list \<Rightarrow> log_event_obj option" where
  "deliverAtom uid pid elapsedNs tag as fs =
     (case deliverAnnotations (-1) as ((newLogEvent uid pid)\<lparr>leElapsedTimestampNs := elapsedNs, leTagId := tag\<rparr>) of
        None \<Rightarrow> None | Some s \<Rightarrow> deliverFields 1 fs s)"

section \<open>Reading back\<close>

text \<open>A parser state: the event so far, the bytes left and the two position arrays.\<close>

definition reading :: "byte list \<Rightarrow> i32 list \<Rightarrow> bool list \<Rightarrow> log_event_obj \<Rightarrow> log_event_obj" where
  "reading bs p l s = s\<lparr>leBuf := bs, lePos := p, leLast := l\<rparr>"

lemma reading_simps [simp]:
  "leBuf (reading bs p l s) = bs" "lePos (reading bs p l s) = p" "leLast (reading bs p l s) = l"
  "leValid (reading bs p l s) = leValid s" "leValues (reading bs p l s) = leValues s" "leTagId (reading bs p l s) = leTagId s"
  "(reading bs p l s)\<lparr>leBuf := bs'\<rparr> = reading bs' p l s" "setPos i k (reading bs p l s) = reading bs (p[i := of_nat k]) l s"
  "setLast i b (reading bs p l s) = reading bs p (l[i := b]) s"
  "(reading bs p l s)\<lparr>leTruncateTimestamp := c\<rparr> = reading bs p l (s\<lparr>leTruncateTimestamp := c\<rparr>)"
  "(reading bs p l s)\<lparr>leResetState := r\<rparr> = reading bs p l (s\<lparr>leResetState := r\<rparr>)"
  "(reading bs p l s)\<lparr>leUidFieldIndex := i'\<rparr> = reading bs p l (s\<lparr>leUidFieldIndex := i'\<rparr>)"
  "(reading bs p l s)\<lparr>leExclusiveStateFieldIndex := i'\<rparr> = reading bs p l (s\<lparr>leExclusiveStateFieldIndex := i'\<rparr>)"
  "(reading bs p l s)\<lparr>leAttributionChainStartIndex := i'\<rparr> = reading bs p l (s\<lparr>leAttributionChainStartIndex := i'\<rparr>)"
  "(reading bs p l s)\<lparr>leAttributionChainEndIndex := i'\<rparr> = reading bs p l (s\<lparr>leAttributionChainEndIndex := i'\<rparr>)"
  "(reading bs p l s)\<lparr>leElapsedTimestampNs := t\<rparr> = reading bs p l (s\<lparr>leElapsedTimestampNs := t\<rparr>)"
  "(reading bs p l s)\<lparr>leTagId := g\<rparr> = reading bs p l (s\<lparr>leTagId := g\<rparr>)"
  "annotate j q b (reading bs p l s) = reading bs p l (annotate j q b s)"
  by (simp_all add: reading_def setPos_def setLast_def annotate_def)

lemma read_scalars [simp]:
  "readByte (reading (b # r) p l s) = (b, reading r p l s)"
  "readInt32 (reading (bytes_of 4 w @ r) p l s) = (w, reading r p l s)"
  "readInt64 (reading (bytes_of 8 v @ r) p l s) = (v, reading r p l s)"
  "readNextValue (Suc 0) (reading (b # r) p l s) = (b, reading r p l s)"
  by (simp_all add: readNextValue_def)

lemma still_invalid: "\<not> leValid s \<Longrightarrow> \<not> leValid (parseAnnotations n i s)"
  using streamsD[OF streaming.annotations] by blast

lemma getType_int: "getType v = getType (INT_v 0) \<longleftrightarrow> (\<exists>i. v = INT_v i)"
  by (cases v) simp_all

lemma smallIndex_iff: "smallIndex s \<longleftrightarrow> \<not> lastIndexTooLarge s"
  by (auto simp: smallIndex_def lastIndexTooLarge_def INT8_MAX_def)

lemma lastIndex_int: "leValues s \<noteq> [] \<Longrightarrow> int (length (leValues s)) - 1 = int (lastIndex s)"
  by (cases "leValues s") (simp_all add: lastIndex_def)

lemma lastIndexTooLarge_reading [simp]: "lastIndexTooLarge (reading bs p l s) = lastIndexTooLarge s"
  by (simp add: lastIndexTooLarge_def)

lemma bool_byte [simp]: "(of_bool b :: byte) \<noteq> 0 \<longleftrightarrow> b" "(of_bool b :: byte) = 0 \<longleftrightarrow> \<not> b"
  by (cases b; simp)+

lemma body_read:
  "parseIsUidAnnotation BOOL_TYPE (reading (of_bool b # r) p l s) =
    (if smallIndex s \<and> (\<exists>v. fvValue (leValues s ! lastIndex s) = INT_v v)
     then reading r p l (annotate (lastIndex s) UID_POS b (if b then s\<lparr>leUidFieldIndex := int (lastIndex s)\<rparr> else s))
     else invalid (reading (of_bool b # r) p l s))"
  "parseTruncateTimestampAnnotation BOOL_TYPE (reading (of_bool b # r) p l s) =
    (if leValues s = [] then reading r p l (s\<lparr>leTruncateTimestamp := b\<rparr>) else invalid (reading (of_bool b # r) p l s))"
  "parsePrimaryFieldAnnotation BOOL_TYPE (reading (of_bool b # r) p l s) =
    (if leValues s \<noteq> [] then reading r p l (annotate (lastIndex s) PRIMARY_POS b s) else invalid (reading (of_bool b # r) p l s))"
  "parsePrimaryFieldFirstUidAnnotation BOOL_TYPE first (reading (of_bool b # r) p l s) =
    (if leValues s \<noteq> [] \<and> first \<noteq> -1 \<and> first \<le> int (lastIndex s)
     then reading r p l (annotate (nat first) PRIMARY_POS b s) else invalid (reading (of_bool b # r) p l s))"
  "parseExclusiveStateAnnotation BOOL_TYPE (reading (of_bool b # r) p l s) =
    (if smallIndex s then reading r p l (annotate (lastIndex s) EXCLUSIVE_POS b (s\<lparr>leExclusiveStateFieldIndex := int (lastIndex s)\<rparr>))
     else invalid (reading (of_bool b # r) p l s))"
  "parseStateNestedAnnotation BOOL_TYPE (reading (of_bool b # r) p l s) =
    (if leValues s \<noteq> [] then reading r p l (annotate (lastIndex s) NESTED_POS b s) else invalid (reading (of_bool b # r) p l s))"
  "parseTriggerStateResetAnnotation INT32_TYPE (reading (bytes_of 4 v @ r) p l s) =
    (if leValues s \<noteq> [] then reading r p l (s\<lparr>leResetState := v\<rparr>) else invalid (reading (bytes_of 4 v @ r) p l s))"
proof -
  have too: "lastIndexTooLarge s \<longleftrightarrow> \<not> smallIndex s" by (simp add: smallIndex_iff)
  have ne: "smallIndex s \<Longrightarrow> leValues s \<noteq> []" by (simp add: smallIndex_def)
  have chk: "checkPreviousValueType (INT_v 0) (reading bs p l s) \<longleftrightarrow> (\<exists>v. fvValue (leValues s ! lastIndex s) = INT_v v)" for bs
    unfolding checkPreviousValueType_def getType_int by (simp add: lastIndex_def)
  show "parseIsUidAnnotation BOOL_TYPE (reading (of_bool b # r) p l s) =
    (if smallIndex s \<and> (\<exists>v. fvValue (leValues s ! lastIndex s) = INT_v v)
     then reading r p l (annotate (lastIndex s) UID_POS b (if b then s\<lparr>leUidFieldIndex := int (lastIndex s)\<rparr> else s))
     else invalid (reading (of_bool b # r) p l s))"
    using ne lastIndex_int[of s] by (simp add: parseIsUidAnnotation_def too chk Let_def lastIndex_def)
  show "parseExclusiveStateAnnotation BOOL_TYPE (reading (of_bool b # r) p l s) =
    (if smallIndex s then reading r p l (annotate (lastIndex s) EXCLUSIVE_POS b (s\<lparr>leExclusiveStateFieldIndex := int (lastIndex s)\<rparr>))
     else invalid (reading (of_bool b # r) p l s))"
    using ne lastIndex_int[of s] by (simp add: parseExclusiveStateAnnotation_def too Let_def lastIndex_def)
  show "parsePrimaryFieldFirstUidAnnotation BOOL_TYPE first (reading (of_bool b # r) p l s) =
    (if leValues s \<noteq> [] \<and> first \<noteq> -1 \<and> first \<le> int (lastIndex s)
     then reading r p l (annotate (nat first) PRIMARY_POS b s) else invalid (reading (of_bool b # r) p l s))"
    using lastIndex_int[of s] by (auto simp: parsePrimaryFieldFirstUidAnnotation_def Let_def)
qed (simp_all add: parseTruncateTimestampAnnotation_def parsePrimaryFieldAnnotation_def parseStateNestedAnnotation_def
    parseTriggerStateResetAnnotation_def lastIndex_def)

lemma body_wrong_type:
  "parseIsUidAnnotation INT32_TYPE s = invalid s" "parseTruncateTimestampAnnotation INT32_TYPE s = invalid s"
  "parsePrimaryFieldAnnotation INT32_TYPE s = invalid s" "parsePrimaryFieldFirstUidAnnotation INT32_TYPE i s = invalid s"
  "parseExclusiveStateAnnotation INT32_TYPE s = invalid s" "parseStateNestedAnnotation INT32_TYPE s = invalid s"
  "parseTriggerStateResetAnnotation BOOL_TYPE s = invalid s"
  by (simp_all add: parseIsUidAnnotation_def parseTruncateTimestampAnnotation_def parsePrimaryFieldAnnotation_def
      parsePrimaryFieldFirstUidAnnotation_def parseExclusiveStateAnnotation_def parseTriggerStateResetAnnotation_def
      parseStateNestedAnnotation_def type_ids)

lemma parseAnnotation_reading:
  "parseAnnotation first (reading (i # t # r) p l s) =
    (let s = reading r p l s
     in if i = 1 then Some (parseIsUidAnnotation t s) else if i = 2 then Some (parseTruncateTimestampAnnotation t s)
        else if i = 3 then Some (parsePrimaryFieldAnnotation t s) else if i = 5 then Some (parsePrimaryFieldFirstUidAnnotation t first s)
        else if i = 4 then Some (parseExclusiveStateAnnotation t s) else if i = 7 then Some (parseTriggerStateResetAnnotation t s)
        else if i = 8 then Some (parseStateNestedAnnotation t s) else None)"
  by (simp add: parseAnnotation_def annotation_ids)

lemma leValid_invalid [simp]: "\<not> leValid (invalid s)"
  by (simp add: invalid_def)

lemma bool_annotation_parse:
  "parseAnnotation first (reading (i # BOOL_TYPE # of_bool b # r) p l s) =
    (case deliverAnnotation first (BoolAnnotation i b) s of Some s' \<Rightarrow> Some (reading r p l s')
     | None \<Rightarrow> if i \<in> {1, 2, 3, 4, 5, 7, 8} then Some (invalid (reading (of_bool b # r) p l s)) else None)"
proof -
  consider "i = 1" | "i = 2" | "i = 3" | "i = 4" | "i = 5" | "i = 7" | "i = 8" | "i \<notin> {1, 2, 3, 4, 5, 7, 8}" by blast
  then show ?thesis
  proof cases
    case 1
    show ?thesis
      unfolding 1 by (cases "smallIndex s \<and> (\<exists>v. fvValue (leValues s ! lastIndex s) = INT_v v)")
        (simp_all only: parseAnnotation_reading body_read deliverAnnotation.simps annotation_ids Let_def simp_thms if_True if_False option.case insert_iff, simp_all)
  qed (simp_all only: parseAnnotation_reading body_read body_wrong_type deliverAnnotation.simps annotation_ids Let_def, simp_all)
qed

lemma int_annotation_parse:
  "parseAnnotation first (reading (i # INT32_TYPE # bytes_of 4 v @ r) p l s) =
    (case deliverAnnotation first (Int32Annotation i v) s of Some s' \<Rightarrow> Some (reading r p l s')
     | None \<Rightarrow> if i \<in> {1, 2, 3, 4, 5, 7, 8} then Some (invalid (reading (bytes_of 4 v @ r) p l s)) else None)"
proof -
  consider "i = 1" | "i = 2" | "i = 3" | "i = 4" | "i = 5" | "i = 7" | "i = 8" | "i \<notin> {1, 2, 3, 4, 5, 7, 8}" by blast
  then show ?thesis
    by cases (simp_all only: parseAnnotation_reading body_read(7) body_wrong_type deliverAnnotation.simps annotation_ids Let_def, simp_all)
qed

lemma annotation_read:
  "deliverAnnotation first a s = Some s' \<Longrightarrow>
     parseAnnotation first (reading (annotation_bytes a @ r) p l s) = Some (reading r p l s')"
  by (cases a) (simp_all add: bool_annotation_parse int_annotation_parse del: deliverAnnotation.simps)

lemma annotation_rejected:
  "deliverAnnotation first a s = None \<Longrightarrow> parseAnnotation first (reading (annotation_bytes a @ r) p l s) = Some t \<Longrightarrow> \<not> leValid t"
  by (cases a) (auto simp: bool_annotation_parse int_annotation_parse simp del: deliverAnnotation.simps split: if_splits)

lemma annotations_read:
  "deliverAnnotations first as s = Some s' \<Longrightarrow>
     parseAnnotations (length as) first (reading (concat (map annotation_bytes as) @ r) p l s) = reading r p l s'"
proof (induction as arbitrary: s)
  case (Cons a as)
  then obtain s1 where "deliverAnnotation first a s = Some s1" "deliverAnnotations first as s1 = Some s'"
    by (auto split: option.splits)
  with Cons.IH annotation_read[of first a s s1 "concat (map annotation_bytes as) @ r" p l] show ?case by simp
qed simp

lemma annotations_rejected:
  "deliverAnnotations first as s = None \<Longrightarrow>
     \<not> leValid (parseAnnotations (length as) first (reading (concat (map annotation_bytes as) @ r) p l s))"
proof (induction as arbitrary: s)
  case (Cons a as)
  let ?r = "concat (map annotation_bytes as) @ r"
  show ?case
  proof (cases "deliverAnnotation first a s")
    case None
    then show ?thesis
      using annotation_rejected[OF None, of ?r p l] still_invalid[of _ "length as" first]
      by (auto split: option.splits)
  next
    case (Some s1)
    with Cons annotation_read[OF Some, of ?r p l] show ?thesis by simp
  qed
qed simp

section \<open>Fields\<close>

text \<open>Lengths that their four and one byte prefixes hold.\<close>

fun value_fits :: "atom_value \<Rightarrow> bool" where
  "value_fits (AString t) = (length (c_string (orEmpty t)) < 2 ^ 32)"
| "value_fits (ABytes b) = (length (array_of b) < 2 ^ 32)"
| "value_fits (AChain nodes) = (length nodes \<le> 127 \<and> (\<forall>n \<in> set nodes. length (c_string (orEmpty (snd n))) < 2 ^ 32))"
| "value_fits _ = True"

lemma add_reading [simp]:
  "addToValues 0 v (reading bs [of_nat i, 1, 1] l s) = reading bs [of_nat i, 1, 1] l (s\<lparr>leValues := leValues s @ [simpleLeaf (leTagId s) i v]\<rparr>)"
  "addToValues 2 v (reading bs p l s) =
     reading bs p l (s\<lparr>leValues := leValues s @ [mkFieldValue (markLast (l ! 1) (Field (leTagId s) p 2)) v]\<rparr>)"
  by (simp_all add: addToValues_def reading_def simpleLeaf_def markLast_def upt_rec)

lemma char_of_byte [simp]: "char_of (unat (of_char c :: byte)) = c"
proof -
  have "unat (of_nat (of_char c) :: byte) = of_char c" by (simp add: unat_of_nat del: of_nat_of_char)
  then show ?thesis by (simp add: of_nat_of_char)
qed

lemma text_read:
  assumes "length (c_string (orEmpty t)) < 2 ^ 32"
  shows "parseString d n (reading (text_bytes t @ r) p l s) =
    parseAnnotations n (-1) (addToValues d (STRING (c_string (orEmpty t))) (reading r p l s))"
  using assms by (simp add: parseString_def text_bytes_def string_bytes_def unat_of_nat Let_def comp_def)

lemma array_read:
  assumes "length (array_of b) < 2 ^ 32"
  shows "parseByteArray d n (reading (bytes_of 4 (of_nat (length (array_of b)) :: i32) @ array_of b @ r) p l s) =
    parseAnnotations n (-1) (addToValues d (STORAGE (array_of b)) (reading r p l s))"
  using assms by (simp add: parseByteArray_def unat_of_nat Let_def)

lemma node_read:
  assumes "length (c_string (orEmpty (snd node))) < 2 ^ 32"
  shows "parseAttributionNode n (reading (node_bytes node @ r) [i, a, b] [l0, l1, l2] s) j =
    reading r [i, of_nat j, 2] [l0, j = n, True]
      (s\<lparr>leValues := leValues s @
        [mkFieldValue (markLast (j = n) (Field (leTagId s) [i, of_nat j, 1] 2)) (INT_v (fst node)),
         mkFieldValue (markLast (j = n) (Field (leTagId s) [i, of_nat j, 2] 2)) (STRING (c_string (orEmpty (snd node))))]\<rparr>)"
  using assms by (simp add: parseAttributionNode_def parseInt32_def node_bytes_def text_read numeral_2_eq_2[symmetric])

lemma nodes_read:
  assumes "\<forall>n \<in> set nodes. length (c_string (orEmpty (snd n))) < 2 ^ 32"
  shows "\<exists>a' b' l1' l2'. foldl (parseAttributionNode n) (reading (concat (map node_bytes nodes) @ r) [of_nat i, a, b] [l0, l1, l2] s) [j..<j + length nodes] =
    reading r [of_nat i, a', b'] [l0, l1', l2'] (s\<lparr>leValues := leValues s @ nodesLeaves (leTagId s) i n j nodes\<rparr>)"
  using assms
proof (induction nodes arbitrary: s j a b l1 l2)
  case (Cons node nodes)
  let ?s = "s\<lparr>leValues := leValues s @ nodeLeaves (leTagId s) i n j node\<rparr>"
  have u: "[j..<j + length (node # nodes)] = j # [Suc j..<Suc j + length nodes]"
    using upt_conv_Cons[of j "j + length (node # nodes)"] by (simp del: upt_Suc)
  have n: "parseAttributionNode n (reading (concat (map node_bytes (node # nodes)) @ r) [of_nat i, a, b] [l0, l1, l2] s) j =
      reading (concat (map node_bytes nodes) @ r) [of_nat i, of_nat j, 2] [l0, j = n, True] ?s"
    using node_read[of node n "concat (map node_bytes nodes) @ r" "of_nat i" a b l0 l1 l2 s j] Cons.prems
    by (simp add: nodeLeaves_def)
  show ?case
    unfolding u foldl.simps n
    using Cons.IH[where s = ?s and j = "Suc j" and a = "of_nat j" and b = 2 and ?l1.0 = "j = n" and ?l2.0 = True] Cons.prems
    by (simp del: upt_Suc)
qed (auto simp: reading_def)

lemma reset_reading [simp]:
  "resetNesting (reading bs [i, a, b] [l0, l1, l2] s) = reading bs [i, 1, 1] [l0, False, False] s"
  by (simp add: resetNesting_def numeral_2_eq_2)

lemma leValid_reset [simp]: "leValid (resetNesting s) = leValid s"
  by (simp add: resetNesting_def setPos_def setLast_def)

text \<open>Reading a field gives what the client meant, or spoils the event.\<close>

definition reads_as :: "log_event_obj \<Rightarrow> log_event_obj option \<Rightarrow> byte list \<Rightarrow> i32 list \<Rightarrow> bool list \<Rightarrow> bool" where
  "reads_as t meant r p l \<longleftrightarrow> (case meant of Some s' \<Rightarrow> t = reading r p l s' | None \<Rightarrow> \<not> leValid t)"

lemma annotations_reads_as:
  "reads_as (parseAnnotations (length as) first (reading (concat (map annotation_bytes as) @ r) p l s))
     (deliverAnnotations first as s) r p l"
  using annotations_read[of first as s] annotations_rejected[of first as s]
  by (cases "deliverAnnotations first as s") (auto simp: reads_as_def)

lemma length_nodesLeaves [simp]: "length (nodesLeaves tag i n j nodes) = 2 * length nodes"
  by (induction nodes arbitrary: j) (simp_all add: nodeLeaves_def)

lemma lastIndex_Suc: "length (leValues s) - Suc 0 = lastIndex s"
  by (simp add: lastIndex_def)

lemma recordChain_reading:
  "recordChain first (reading bs p l s) =
    (if \<not> smallIndex s then invalid (reading bs p l s)
     else reading bs p l (if first < lastIndex s
       then s\<lparr>leAttributionChainStartIndex := int first, leAttributionChainEndIndex := int (lastIndex s)\<rparr> else s))"
proof (cases "lastIndexTooLarge s")
  case False
  then have "leValues s \<noteq> []" by (simp add: lastIndexTooLarge_def)
  from lastIndex_int[OF this] False show ?thesis by (simp add: recordChain_def smallIndex_iff lastIndex_Suc)
qed (simp add: recordChain_def smallIndex_iff)

lemma chain_reads_as:
  assumes "value_fits (AChain nodes)" and valid: "leValid s"
  shows "reads_as (parseAttributionChain (length as) (reading (value_bytes (AChain nodes) @ concat (map annotation_bytes as) @ r)
      [of_nat i, 1, 1] [l0, False, False] s)) (deliverField i (AChain nodes) as s) r [of_nat i, 1, 1] [l0, False, False]"
proof -
  let ?first = "length (leValues s)" and ?s1 = "addLeaves i (AChain nodes) s"
  let ?s2 = "if nodes = [] then ?s1 else ?s1\<lparr>leAttributionChainStartIndex := int ?first, leAttributionChainEndIndex := int (lastIndex ?s1)\<rparr>"
  have n: "unat (of_nat (length nodes) :: byte) = length nodes" using assms by (simp add: unat_of_nat)
  obtain a b l1 l2 where fold: "foldl (parseAttributionNode (length nodes))
      (reading (concat (map node_bytes nodes) @ concat (map annotation_bytes as) @ r) [of_nat i, 1, 1] [l0, False, False] s) [1..<1 + length nodes] =
      reading (concat (map annotation_bytes as) @ r) [of_nat i, a, b] [l0, l1, l2] ?s1"
    using nodes_read[of nodes "length nodes" "concat (map annotation_bytes as) @ r" i 1 1 l0 False False s 1] assms
    by (auto simp: addLeaves_def)
  have rc: "smallIndex ?s1 \<Longrightarrow> recordChain ?first (reading bs p l ?s1) = reading bs p l ?s2" for bs p l
    by (cases nodes) (auto simp: recordChain_reading lastIndex_def addLeaves_def smallIndex_def nodeLeaves_def)
  have eq: "parseAttributionChain (length as) (reading (value_bytes (AChain nodes) @ concat (map annotation_bytes as) @ r)
      [of_nat i, 1, 1] [l0, False, False] s) =
    resetNesting ((\<lambda>s. if leValid s then parseAnnotations (length as) (int ?first) s else s)
      (recordChain ?first (reading (concat (map annotation_bytes as) @ r) [of_nat i, a, b] [l0, l1, l2] ?s1)))"
    using fold by (simp add: parseAttributionChain_eq chainFrom_def n del: upt_Suc)
  show ?thesis
  proof (cases "smallIndex ?s1")
    case True
    have "leValid ?s2" using valid by (simp add: addLeaves_def)
    then have p: "parseAttributionChain (length as) (reading (value_bytes (AChain nodes) @ concat (map annotation_bytes as) @ r)
        [of_nat i, 1, 1] [l0, False, False] s) =
      resetNesting (parseAnnotations (length as) (int ?first) (reading (concat (map annotation_bytes as) @ r) [of_nat i, a, b] [l0, l1, l2] ?s2))"
      unfolding eq rc[OF True] by (simp only: reading_simps if_True)
    show ?thesis
      using annotations_reads_as[of as "int ?first" r "[of_nat i, a, b]" "[l0, l1, l2]" ?s2] True
      unfolding p deliverField_def Let_def atom_value.case
      by (cases "deliverAnnotations (int ?first) as ?s2") (simp_all add: reads_as_def)
  next
    case False
    then have "\<not> leValid (parseAttributionChain (length as) (reading (value_bytes (AChain nodes) @ concat (map annotation_bytes as) @ r)
        [of_nat i, 1, 1] [l0, False, False] s))" unfolding eq by (simp add: recordChain_reading)
    with False show ?thesis unfolding reads_as_def deliverField_def Let_def atom_value.case by simp
  qed
qed

lemma element_reads_as:
  assumes "value_fits v" "length as \<le> 15" and valid: "leValid s"
  shows "reads_as (parseElement (reading (field_bytes (value_type v) (value_bytes v) as @ r) [of_nat i, 1, 1] [l0, False, False] s))
    (deliverField i v as s) r [of_nat i, 1, 1] [l0, False, False]"
proof -
  have t: "getTypeId (type_info (value_type v) (length as)) = value_type v"
    "getNumAnnotations (type_info (value_type v) (length as)) = length as"
    using type_info_read[OF value_type_small(1) assms(2)] by (simp_all add: getTypeId_def getNumAnnotations_def)
  note ann = annotations_reads_as[of as _ r "[of_nat i, 1, 1]" "[l0, False, False]"]
  show ?thesis
  proof (cases "\<exists>nodes. v = AChain nodes")
    case True
    then obtain nodes where v: "v = AChain nodes" by blast
    have "parseElement (reading (field_bytes (value_type v) (value_bytes v) as @ r) [of_nat i, 1, 1] [l0, False, False] s) =
        parseAttributionChain (length as) (reading (value_bytes v @ concat (map annotation_bytes as) @ r) [of_nat i, 1, 1] [l0, False, False] s)"
      using t by (simp add: field_bytes_def parseElement_def Let_def v type_ids)
    with chain_reads_as[of nodes s as r i l0] assms(1) valid show ?thesis by (simp add: v)
  next
    case False
    then show ?thesis
      using assms(1) ann t
      by (cases v) (simp_all add: field_bytes_def parseElement_def Let_def deliverField_def addLeaves_def type_ids text_read array_read
          parseInt32_def parseInt64_def parseFloat_def parseBool_def)
  qed
qed

lemma deliverAnnotation_valid: "deliverAnnotation first a s = Some s' \<Longrightarrow> leValid s' = leValid s"
  by (cases a) (auto simp: annotate_def split: if_splits)

lemma deliverAnnotations_valid: "deliverAnnotations first as s = Some s' \<Longrightarrow> leValid s' = leValid s"
  by (induction as arbitrary: s) (auto simp: deliverAnnotation_valid split: option.splits)

lemma deliverField_valid: "deliverField i v as s = Some s' \<Longrightarrow> leValid s' = leValid s"
  by (cases v) (auto simp: deliverField_def addLeaves_def Let_def dest!: deliverAnnotations_valid split: if_splits)

lemma elements_read:
  assumes "\<forall>(v, as) \<in> set fs. value_fits v \<and> length as \<le> 15" "leValid s" "Suc n = k + length fs"
  shows "case deliverFields k fs s of
      Some s' \<Rightarrow> \<exists>p l. parseElements n [k..<Suc n] (reading (fields_bytes fs) [p0, 1, 1] [l0, False, False] s) = reading [] p l s' \<and> leValid s'
    | None \<Rightarrow> \<not> leValid (parseElements n [k..<Suc n] (reading (fields_bytes fs) [p0, 1, 1] [l0, False, False] s))"
  using assms
proof (induction fs arbitrary: k s p0 l0)
  case Nil
  then show ?case by (auto simp: fields_bytes_def)
next
  case (Cons f fs)
  obtain v as where f: "f = (v, as)" by (cases f)
  have u: "[k..<Suc n] = k # [Suc k..<Suc n]" using Cons.prems(3) by (simp add: upt_conv_Cons del: upt_Suc)
  let ?e = "parseElement (reading (field_bytes (value_type v) (value_bytes v) as @ fields_bytes fs) [of_nat k, 1, 1] [k = n, False, False] s)"
  have e: "reads_as ?e (deliverField k v as s) (fields_bytes fs) [of_nat k, 1, 1] [k = n, False, False]"
    using Cons.prems by (intro element_reads_as) (auto simp: f)
  have p: "parseElements n [k..<Suc n] (reading (fields_bytes (f # fs)) [p0, 1, 1] [l0, False, False] s) = parseElements n [Suc k..<Suc n] ?e"
    using Cons.prems(2) by (simp add: u f fields_bytes_def del: upt_Suc)
  show ?case
  proof (cases "deliverField k v as s")
    case None
    with e have "\<not> leValid ?e" by (simp add: reads_as_def)
    then have "\<not> leValid (parseElements n [Suc k..<Suc n] ?e)" using streamsD[OF streaming.elements] by blast
    with None show ?thesis unfolding p by (simp add: f del: upt_Suc)
  next
    case (Some s1)
    with e have e1: "?e = reading (fields_bytes fs) [of_nat k, 1, 1] [k = n, False, False] s1" by (simp add: reads_as_def)
    have "leValid s1" using deliverField_valid[OF Some] Cons.prems(2) by simp
    then show ?thesis
      using Cons.IH[where k = "Suc k" and s = s1 and ?p0.0 = "of_nat k" and ?l0.0 = "k = n"] Cons.prems Some
      unfolding p e1 by (simp add: f del: upt_Suc)
  qed
qed

lemma element_count:
  assumes "k \<le> 125"
  shows "\<not> ((of_nat (2 + k) :: byte) < 2 \<or> of_nat (2 + k) > (127 :: byte))" "unat (of_nat (2 + k) - 1 - 1 :: byte) = k"
proof -
  have "unat (of_nat (2 + k) :: byte) = 2 + k" by (subst unat_of_nat) (use assms in simp)
  then show "\<not> ((of_nat (2 + k) :: byte) < 2 \<or> of_nat (2 + k) > (127 :: byte))"
    using assms by (simp only: word_less_nat_alt) simp
  have "of_nat (2 + k) - 1 - 1 = (of_nat k :: byte)" by simp
  then show "unat (of_nat (2 + k) - 1 - 1 :: byte) = k" using assms by (simp only:) (simp add: unat_of_nat)
qed

lemma header_read:
  assumes "length as \<le> 15" "length fs \<le> 125"
  shows "parseHeader (reading (atom_bytes (of_nat (2 + length fs)) t i as fs) p l s) =
    (length fs, parseAnnotations (length as) (-1)
       (reading (concat (map annotation_bytes as) @ fields_bytes fs) p l (s\<lparr>leElapsedTimestampNs := t, leTagId := i\<rparr>)))"
proof -
  have ti: "getTypeId OBJECT_TYPE = OBJECT_TYPE" "getTypeId INT64_TYPE = INT64_TYPE"
    "getTypeId (type_info INT32_TYPE (length as)) = INT32_TYPE" "getNumAnnotations (type_info INT32_TYPE (length as)) = length as"
    using type_info_read[OF value_type_small(2) assms(1)] by (simp_all add: getTypeId_def getNumAnnotations_def type_ids)
  define n where "n = (of_nat (2 + length fs) :: byte)"
  have "\<not> (n < 2 \<or> n > 127) \<and> unat (n - 1 - 1) = length fs" using element_count[OF assms(2)] unfolding n_def by blast
  moreover have "n - 1 - 1 = n - 2" by simp
  ultimately have n: "\<not> n < 2" "\<not> 127 < n" "unat (n - 2) = length fs" by simp_all
  show ?thesis
    unfolding n_def[symmetric] by (simp add: parseHeader_def atom_bytes_def field_bytes_def expectType_def ti n)
qed

section \<open>Both ends\<close>

lemma writeValue_short:
  assumes "aeErrors (writeValue v ev) = 0"
  shows "case v of AChain nodes \<Rightarrow> length nodes \<le> 127 | _ \<Rightarrow> True"
  using assms
  by (auto simp: AStatsEvent_writeAttributionChain_def ERROR_ATTRIBUTION_CHAIN_TOO_LONG_def MAX_BYTE_VALUE_def or_eq_0_iff
      split: atom_value.splits if_splits)

lemma text_fits: "length (text_bytes t) < 2 ^ 32 \<Longrightarrow> length (c_string (orEmpty t)) < 2 ^ 32"
  by (simp add: text_bytes_def string_bytes_def)

lemma length_concat_member: "x \<in> set xs \<Longrightarrow> length (f x) \<le> length (concat (map f xs))"
  by (induction xs) auto

lemma value_fits_short:
  assumes "case v of AChain nodes \<Rightarrow> length nodes \<le> 127 | _ \<Rightarrow> True" "length (value_bytes v) < 2 ^ 32"
  shows "value_fits v"
proof (cases v)
  case (AChain nodes)
  have "length (c_string (orEmpty (snd n))) < 2 ^ 32" if n: "n \<in> set nodes" for n
    using length_concat_member[OF n, of node_bytes] assms(2) by (intro text_fits) (simp add: AChain node_bytes_def)
  with assms(1) AChain show ?thesis by simp
qed (use assms in \<open>auto simp: text_bytes_def string_bytes_def\<close>)

lemma writeFields_fits:
  assumes "writeFields fs ev = Some ev'" "aeErrors ev' = 0" "length (fields_bytes fs) < 2 ^ 32"
  shows "\<forall>(v, as) \<in> set fs. value_fits v \<and> length as \<le> 15"
  using assms
proof (induction fs arbitrary: ev)
  case (Cons f fs)
  obtain v as ev1 where f: "f = (v, as)" "addAnnotations as (writeValue v ev) = Some ev1" "writeFields fs ev1 = Some ev'"
    using Cons.prems(1) by (cases f) (auto split: option.splits)
  have e: "aeErrors ev1 = 0" using writeFields_bytes[OF f(3) Cons.prems(2)] by simp
  have "value_fits v"
    by (rule value_fits_short[OF writeValue_short[OF addAnnotations_errors[OF f(2) e]]])
      (use Cons.prems(3) in \<open>simp add: f fields_bytes_def field_bytes_def\<close>)
  moreover have "length as \<le> 15" using writeField_bytes[OF f(2) e] by simp
  moreover have "\<forall>(v, as) \<in> set fs. value_fits v \<and> length as \<le> 15"
    by (rule Cons.IH[OF f(3) Cons.prems(2)]) (use Cons.prems(3) in \<open>simp add: f fields_bytes_def\<close>)
  ultimately show ?case by (simp add: f)
qed simp

lemma addAnnotations_writer_ok: "writer_ok ev \<Longrightarrow> addAnnotations as ev = Some ev' \<Longrightarrow> writer_ok ev'"
  by (induction as arbitrary: ev) (auto dest: addAnnotation_writer_ok(1) split: option.splits)

lemma writeFields_writer_ok: "writer_ok ev \<Longrightarrow> writeFields fs ev = Some ev' \<Longrightarrow> writer_ok ev'"
proof (induction fs arbitrary: ev)
  case (Cons f fs)
  then show ?case
    by (cases f) (auto dest: addAnnotations_writer_ok[OF writeValue_writer_ok] split: option.splits)
qed simp

lemma writeAtom_writer_ok:
  assumes "writeAtom heap t i as fs = Some ev"
  shows "writer_ok ev"
proof -
  obtain ev1 where ev1: "addAnnotations as (AStatsEvent_setAtomId i (AStatsEvent_obtain heap t)) = Some ev1" "writeFields fs ev1 = Some ev"
    using assms by (auto simp: writeAtom_def split: option.splits)
  have "writer_ok (AStatsEvent_setAtomId i (AStatsEvent_obtain heap t))"
    using writer_step_ok[OF obtain_writer_ok, of "SetAtomId i"] by simp
  from writeFields_writer_ok[OF addAnnotations_writer_ok[OF this ev1(1)] ev1(2)] show ?thesis .
qed

lemma length_fields: "length fs \<le> length (fields_bytes fs)"
  by (induction fs) (auto simp: fields_bytes_def field_bytes_def)

lemma built_bytes:
  assumes "writeAtom heap t i as fs = Some ev" "aeErrors (build_internal push ev) = 0"
  shows "AStatsEvent_getBuffer (build_internal push ev) = atom_bytes (of_nat (2 + length fs)) t i as fs"
    "length as \<le> 15" "length fs \<le> 125" "\<forall>(v, as) \<in> set fs. value_fits v \<and> length as \<le> 15"
    "length (AStatsEvent_getBuffer (build_internal push ev)) < 2 ^ 32"
proof -
  note b = build_internal_ok[OF assms(2)]
  have w: "length as \<le> 15" "AStatsEvent_getBuffer ev = atom_bytes 0 t i as fs" "aeNumElements ev = of_nat (2 + length fs)"
    using writeAtom_bytes[OF assms(1)] b by auto
  have n: "aeNumBytesWritten ev \<le> MAX_PULL_EVENT_PAYLOAD"
    using writeAtom_writer_ok[OF assms(1)] by (simp add: writer_ok_def size_ok_def)
  have len: "aeNumBytesWritten ev = 16 + length (concat (map annotation_bytes as)) + length (fields_bytes fs)"
    using arg_cong[OF w(2), of length] by (simp add: atom_bytes_def field_bytes_def)
  then have small: "length (fields_bytes fs) < 2 ^ 32" "length fs < 2 ^ 16"
    using n length_fields[of fs] by (simp_all add: payload_limits)
  then have "unat (aeNumElements ev) = 2 + length fs" unfolding w(3) by (subst unat_of_nat) simp
  then show fs: "length fs \<le> 125" using b by (simp add: MAX_BYTE_VALUE_def)
  show "length as \<le> 15" by (rule w(1))
  obtain ev1 where "writeFields fs ev1 = Some ev" using assms(1) by (auto simp: writeAtom_def split: option.splits)
  from writeFields_fits[OF this _ small(1)] b show "\<forall>(v, as) \<in> set fs. value_fits v \<and> length as \<le> 15" by simp
  have u: "ucast (aeNumElements ev) = (of_nat (2 + length fs) :: byte)"
    unfolding w(3) by (subst unsigned_of_nat) (use fs in \<open>simp add: take_bit_nat_eq_self\<close>)
  have "AStatsEvent_getBuffer (build_internal push ev) = (AStatsEvent_getBuffer ev)[1 := of_nat (2 + length fs)]"
    using b len by (intro nth_equalityI) (auto simp: AStatsEvent_getBuffer_def POS_NUM_ELEMENTS_def u nth_list_update)
  then show "AStatsEvent_getBuffer (build_internal push ev) = atom_bytes (of_nat (2 + length fs)) t i as fs"
    unfolding w(2) by (simp add: atom_bytes_def)
  show "length (AStatsEvent_getBuffer (build_internal push ev)) < 2 ^ 32" using b n by (simp add: payload_limits)
qed

section \<open>Positions\<close>

lemma small_and: "k < 128 \<Longrightarrow> (of_nat k :: i32) AND 0x7f = of_nat k"
proof -
  assume k: "k < 128"
  have "(of_nat k :: i32) AND mask 7 = take_bit 7 (of_nat k)" by (simp add: take_bit_eq_mask)
  also have "\<dots> = of_nat k" using k by (simp add: take_bit_of_nat take_bit_nat_eq_self)
  finally show ?thesis by (simp add: mask_eq_exp_minus_1)
qed

lemma not_bit_0x7f_7: "\<not> bit (0x7f :: i32) 7"
  by simp

lemma small_i32: "k < 256 \<Longrightarrow> (of_nat k :: i32) < 256" "k < 128 \<Longrightarrow> sint (of_nat k :: i32) = int k"
  by (simp_all add: word_less_nat_alt unat_of_nat signed_of_nat signed_take_bit_int_eq_self)

lemma field_positions:
  fixes tag :: i32
  assumes "i < 128" "j < 128" "k < 128"
  defines "f \<equiv> Field tag [of_nat i, of_nat j, of_nat k] 2" and "g \<equiv> Field tag [of_nat i, 1, 1] 0"
  shows "sint (getPosAtDepth f 0) = int i" "sint (getPosAtDepth f 1) = int j" "sint (getPosAtDepth f 2) = int k"
    "\<not> isLastPos f 1" "sint (getPosAtDepth g 0) = int i" "sint (getPosAtDepth g 1) = 0" "sint (getPosAtDepth g 2) = 0"
proof -
  have p: "[of_nat i, of_nat j, of_nat k :: i32] ! d < 256" if "d \<le> 2" for d
    using that assms(1-3) by (cases d; cases "d - 1"; auto simp: small_i32 nth_Cons split: nat.splits)
  have q: "[of_nat i, 1, 1 :: i32] ! d < 256" if "d \<le> 0" for d using that assms(1) by (simp add: small_i32)
  note f = encode_decode[OF order.refl p, of tag, folded f_def] and g = encode_decode[OF le0 q, of tag, folded g_def]
  have raw: "getRawPosAtDepth f 0 = of_nat i" "getRawPosAtDepth f 1 = of_nat j" "getRawPosAtDepth f 2 = of_nat k"
    "getRawPosAtDepth g 0 = of_nat i" "getRawPosAtDepth g 1 = 0" "getRawPosAtDepth g 2 = 0"
    using f g by auto
  note s = small_and[OF assms(1)] small_and[OF assms(2)] small_and[OF assms(3)]
    small_i32(2)[OF assms(1)] small_i32(2)[OF assms(2)] small_i32(2)[OF assms(3)]
  show "sint (getPosAtDepth f 0) = int i" "sint (getPosAtDepth f 1) = int j" "sint (getPosAtDepth f 2) = int k"
    "sint (getPosAtDepth g 0) = int i" "sint (getPosAtDepth g 1) = 0" "sint (getPosAtDepth g 2) = 0"
    unfolding getPosAtDepth_def raw kClearLastBitDeco_def by (simp_all add: s)
  have "byte_at 1 (mField f) = of_nat j" using raw(2) by (simp add: getRawPosAtDepth_def rawSegment_byte)
  moreover have "\<not> bit (of_nat j :: i32) 7" using s(2) by (metis bit_and_iff not_bit_0x7f_7)
  ultimately show "\<not> isLastPos f 1" by (simp add: isLastPos_bit)
qed

definition pos_key :: "field_value \<Rightarrow> int \<times> int \<times> int" where
  "pos_key v = (pos_sint 0 v, pos_sint 1 v, pos_sint 2 v)"

lemma simpleLeaf_key: "i < 128 \<Longrightarrow> pos_key (simpleLeaf tag i v) = (int i, 0, 0)"
  using field_positions(5-7)[of i 1 1 tag] by (simp add: pos_key_def pos_sint_def simpleLeaf_def mkFieldValue_def)

lemma node_key:
  assumes "i < 128" "j < 128" "k < 128"
  shows "pos_key (mkFieldValue (markLast l (Field tag [of_nat i, of_nat j, of_nat k] 2)) v) = (int i, int j, int k)"
    "isLastPos (fvField (mkFieldValue (markLast l (Field tag [of_nat i, of_nat j, of_nat k] 2)) v)) 1 = l"
  using decorateLastPos_marks[of 1 _ "Field tag [of_nat i, of_nat j, of_nat k] 2"] field_positions(1-4)[OF assms, of tag]
  by (simp_all add: pos_key_def pos_sint_def mkFieldValue_def markLast_def)

text \<open>The leaves of a chain: in order, and marked as last exactly in the last node.\<close>

lemma nodesLeaves_keys:
  assumes "i < 128" "n < 128" "j + length nodes = Suc n" "1 \<le> j"
  shows "sorted (map pos_key (nodesLeaves tag i n j nodes)) \<and>
    (\<forall>v \<in> set (nodesLeaves tag i n j nodes). pos_sint 0 v = int i \<and> int j \<le> pos_sint 1 v \<and> pos_sint 1 v \<le> int n \<and>
       (isLastPos (fvField v) 1 \<longleftrightarrow> pos_sint 1 v = int n))"
  using assms(3,4)
proof (induction nodes arbitrary: j)
  case (Cons node nodes)
  let ?a = "mkFieldValue (markLast (j = n) (Field tag [of_nat i, of_nat j, 1] 2)) (INT_v (fst node))"
  let ?b = "mkFieldValue (markLast (j = n) (Field tag [of_nat i, of_nat j, 2] 2)) (STRING (c_string (orEmpty (snd node))))"
  have j: "j < 128" "j \<le> n" using Cons.prems assms(2) by simp_all
  have a: "pos_key ?a = (int i, int j, 1)" "isLastPos (fvField ?a) 1 = (j = n)"
    using node_key[OF assms(1) j(1), of 1] by simp_all
  have b: "pos_key ?b = (int i, int j, 2)" "isLastPos (fvField ?b) 1 = (j = n)"
    using node_key[OF assms(1) j(1), of 2] by simp_all
  have ih: "sorted (map pos_key (nodesLeaves tag i n (Suc j) nodes)) \<and>
    (\<forall>v \<in> set (nodesLeaves tag i n (Suc j) nodes). pos_sint 0 v = int i \<and> int (Suc j) \<le> pos_sint 1 v \<and> pos_sint 1 v \<le> int n \<and>
       (isLastPos (fvField v) 1 \<longleftrightarrow> pos_sint 1 v = int n))"
    using Cons.prems by (intro Cons.IH) simp_all
  have later: "(int i, int j, c) \<le> pos_key v" if "v \<in> set (nodesLeaves tag i n (Suc j) nodes)" for v c
    using ih that by (auto simp: pos_key_def)
  have s: "sorted (map pos_key ([?a, ?b] @ nodesLeaves tag i n (Suc j) nodes))"
    using ih later by (auto simp: a b)
  have "\<forall>v \<in> {?a, ?b}. pos_sint 0 v = int i \<and> pos_sint 1 v = int j \<and> isLastPos (fvField v) 1 = (j = n)"
    using a b by (simp add: pos_key_def)
  with s ih j show ?case by (auto simp: nodeLeaves_def)
qed simp

lemma dfs_leaves:
  assumes "i < 128" "value_fits v"
  shows "dfs_values (leaves tag i v) \<and> (\<forall>w \<in> set (leaves tag i v). pos_sint 0 w = int i)"
proof (cases "\<exists>nodes. v = AChain nodes")
  case True
  then obtain nodes where v: "v = AChain nodes" by blast
  have n: "length nodes < 128" using assms(2) v by simp
  show ?thesis using nodesLeaves_keys[OF assms(1) n, of 1 nodes tag]
    by (auto simp: v dfs_values_def pos_key_def[abs_def])
next
  case False
  then have "\<exists>x. leaves tag i v = [simpleLeaf tag i x]" by (cases v) auto
  then show ?thesis using simpleLeaf_key[OF assms(1), of tag] by (auto simp: dfs_values_def pos_key_def)
qed

definition last_marks_ok :: "field_value \<Rightarrow> field_value \<Rightarrow> bool" where
  "last_marks_ok v w \<longleftrightarrow> (pos_sint 0 v = pos_sint 0 w \<and> isLastPos (fvField v) 1 \<longrightarrow>
     pos_sint 1 w \<le> pos_sint 1 v \<and> (isLastPos (fvField w) 1 \<longleftrightarrow> pos_sint 1 w = pos_sint 1 v))"

lemma dfs_values_alt: "dfs_values vs \<longleftrightarrow> sorted (map pos_key vs) \<and> (\<forall>v \<in> set vs. \<forall>w \<in> set vs. last_marks_ok v w)"
  by (simp add: dfs_values_def pos_key_def[abs_def] last_marks_ok_def)

lemma dfs_append:
  assumes "dfs_values xs" "dfs_values ys" "\<And>x y. x \<in> set xs \<Longrightarrow> y \<in> set ys \<Longrightarrow> pos_sint 0 x < pos_sint 0 y"
  shows "dfs_values (xs @ ys)"
proof -
  have "pos_key x \<le> pos_key y" if "x \<in> set xs" "y \<in> set ys" for x y using assms(3)[OF that] by (simp add: pos_key_def)
  then have "sorted (map pos_key (xs @ ys))" using assms(1,2) by (auto simp: dfs_values_alt sorted_append)
  moreover have "last_marks_ok v w" if "v \<in> set xs \<and> w \<in> set ys \<or> v \<in> set ys \<and> w \<in> set xs" for v w
    using that assms(3)[of v w] assms(3)[of w v] by (auto simp: last_marks_ok_def)
  ultimately show ?thesis using assms(1,2) unfolding dfs_values_alt set_append by blast
qed

text \<open>Annotations leave the fields alone, so the fields of a delivered event are those of its leaves.\<close>

lemma deliverAnnotations_fields:
  "deliverAnnotations first as s = Some s' \<Longrightarrow> map fvField (leValues s') = map fvField (leValues s) \<and> leTagId s' = leTagId s"
proof (induction as arbitrary: s)
  case (Cons a as)
  then obtain s1 where s1: "deliverAnnotation first a s = Some s1" "deliverAnnotations first as s1 = Some s'"
    by (auto split: option.splits)
  have "map fvField (leValues s1) = map fvField (leValues s) \<and> leTagId s1 = leTagId s"
    using s1(1) by (cases a) (auto simp: annotated_values split: if_splits)
  with Cons.IH[OF s1(2)] show ?case by simp
qed simp

lemma deliverField_fields:
  "deliverField i v as s = Some s' \<Longrightarrow>
     map fvField (leValues s') = map fvField (leValues s @ leaves (leTagId s) i v) \<and> leTagId s' = leTagId s"
  by (cases v) (auto simp: deliverField_def addLeaves_def Let_def dest!: deliverAnnotations_fields split: if_splits)

lemma dfs_fields_cong: "map fvField vs = map fvField ws \<Longrightarrow> dfs_values vs = dfs_values ws"
proof -
  assume eq: "map fvField vs = map fvField ws"
  let ?key = "\<lambda>f. (sint (getPosAtDepth f 0), sint (getPosAtDepth f 1), sint (getPosAtDepth f 2))"
  have k: "map pos_key vs = map ?key (map fvField vs)" for vs by (simp add: pos_key_def pos_sint_def comp_def)
  let ?ok = "\<lambda>f g. sint (getPosAtDepth f 0) = sint (getPosAtDepth g 0) \<and> isLastPos f 1 \<longrightarrow>
     sint (getPosAtDepth g 1) \<le> sint (getPosAtDepth f 1) \<and> (isLastPos g 1 \<longleftrightarrow> sint (getPosAtDepth g 1) = sint (getPosAtDepth f 1))"
  have o: "(\<forall>v \<in> set vs. \<forall>w \<in> set vs. last_marks_ok v w) = (\<forall>f \<in> set (map fvField vs). \<forall>g \<in> set (map fvField vs). ?ok f g)" for vs
    by (simp add: last_marks_ok_def pos_sint_def)
  show ?thesis unfolding dfs_values_alt o k eq ..
qed

lemma deliverFields_dfs:
  assumes "deliverFields k fs s = Some s'" "\<forall>(v, as) \<in> set fs. value_fits v" "k + length fs \<le> 128"
    "dfs_values (leValues s)" "\<forall>w \<in> set (leValues s). pos_sint 0 w < int k"
  shows "dfs_values (leValues s')"
  using assms
proof (induction fs arbitrary: k s)
  case (Cons f fs)
  obtain v as s1 where f: "f = (v, as)" "deliverField k v as s = Some s1" "deliverFields (Suc k) fs s1 = Some s'"
    using Cons.prems(1) by (cases f) (auto split: option.splits)
  have l: "dfs_values (leaves (leTagId s) k v) \<and> (\<forall>w \<in> set (leaves (leTagId s) k v). pos_sint 0 w = int k)"
    using Cons.prems(2,3) by (intro dfs_leaves) (auto simp: f(1))
  note eq = deliverField_fields[OF f(2), THEN conjunct1]
  have "dfs_values (leValues s @ leaves (leTagId s) k v)" using Cons.prems(4,5) l by (intro dfs_append) auto
  then have "dfs_values (leValues s1)" using dfs_fields_cong[OF eq] by simp
  moreover have "pos_sint 0 w < int (Suc k)" if "w \<in> set (leValues s1)" for w
  proof -
    have "fvField w \<in> set (map fvField (leValues s @ leaves (leTagId s) k v))" using that unfolding eq[symmetric] by simp
    then obtain u where "u \<in> set (leValues s @ leaves (leTagId s) k v)" "fvField w = fvField u"
      unfolding set_map by blast
    with Cons.prems(5) l show ?thesis by (auto simp: pos_sint_def)
  qed
  ultimately show ?case using Cons.IH[OF f(3)] Cons.prems(2,3) by (auto simp: f(1))
qed simp

lemma write_parse:
  assumes "writeAtom heap elapsedNs atomId as fs = Some ev" and "aeErrors (build_internal push ev) = 0"
  shows "case deliverAtom uid pid elapsedNs atomId as fs of
      Some s \<Rightarrow> \<exists>p l. parseBuffer (AStatsEvent_getBuffer (build_internal push ev)) (newLogEvent uid pid) = (True, s\<lparr>leBuf := [], lePos := p, leLast := l\<rparr>)
    | None \<Rightarrow> \<not> fst (parseBuffer (AStatsEvent_getBuffer (build_internal push ev)) (newLogEvent uid pid))"
proof -
  note b = built_bytes[OF assms]
  let ?r = "reading (atom_bytes (of_nat (2 + length fs)) elapsedNs atomId as fs) [1, 1, 1] [False, False, False] (newLogEvent uid pid)"
  let ?n = "(newLogEvent uid pid)\<lparr>leElapsedTimestampNs := elapsedNs, leTagId := atomId\<rparr>"
  let ?t = "parseAnnotations (length as) (-1) (reading (concat (map annotation_bytes as) @ fields_bytes fs) [1, 1, 1] [False, False, False] ?n)"
  have pb: "parseBuffer (AStatsEvent_getBuffer (build_internal push ev)) (newLogEvent uid pid) =
      (let s = parseElements (length fs) [1..<Suc (length fs)] ?t; s = (if leBuf s \<noteq> [] then invalid s else s) in (leValid s, s))"
    using header_read[OF b(2,3), of elapsedNs atomId "[1, 1, 1]" "[False, False, False]" "newLogEvent uid pid"]
    unfolding b(1) parseBuffer_eq[OF b(5)[unfolded b(1)]] parseBody_def reading_def[symmetric] by (simp only: prod.case)
  have t: "reads_as ?t (deliverAnnotations (-1) as ?n) (fields_bytes fs) [1, 1, 1] [False, False, False]"
    by (rule annotations_reads_as)
  show ?thesis
  proof (cases "deliverAnnotations (-1) as ?n")
    case None
    then have "\<not> leValid ?t" using t by (simp add: reads_as_def)
    then have "\<not> leValid (parseElements (length fs) [1..<Suc (length fs)] ?t)" using streamsD[OF streaming.elements] by blast
    then show ?thesis using None unfolding pb by (simp add: deliverAtom_def Let_def del: upt_Suc)
  next
    case (Some s1)
    then have e: "?t = reading (fields_bytes fs) [1, 1, 1] [False, False, False] s1" using t by (simp add: reads_as_def)
    have "leValid s1" using deliverAnnotations_valid[OF Some] by (simp add: newLogEvent_def)
    from elements_read[OF b(4) this, of "length fs" 1 1 False] show ?thesis
      unfolding pb e deliverAtom_def Some
      by (cases "deliverFields 1 fs s1") (auto simp: Let_def reading_def simp del: upt_Suc)
  qed
qed

section \<open>Theorems\<close>



lemma read_block: "length bs = n \<Longrightarrow> readNextValue n (reading (bs @ r) p l s) = (word_of_bytes bs, reading r p l s)"
  by (auto simp: readNextValue_def)

lemma error_buffer_rejected:
  assumes "length t = 8" "length i = 4" "length e = 4"
    and buf: "buf = [OBJECT_TYPE, 3, x] @ t @ [INT32_TYPE] @ i @ [ERROR_TYPE] @ e" and x: "x AND 0x0F = INT64_TYPE"
  shows "\<not> fst (parseBuffer buf s)"
proof -
  have ti: "getTypeId OBJECT_TYPE = OBJECT_TYPE" "getTypeId x = INT64_TYPE" "getTypeId INT32_TYPE = INT32_TYPE"
    "getTypeId ERROR_TYPE = ERROR_TYPE" "getNumAnnotations INT32_TYPE = 0"
    using x by (simp_all add: getTypeId_def getNumAnnotations_def type_ids)
  have h: "parseHeader (reading buf p l s) =
      (1, reading (ERROR_TYPE # e) p l (s\<lparr>leElapsedTimestampNs := word_of_bytes t, leTagId := word_of_bytes i\<rparr>))" for p l
    using assms(1,2) by (simp add: buf parseHeader_def expectType_def ti read_block)
  have "parseElement (reading (ERROR_TYPE # e) p l s) = invalid (reading [] p l s)" for p l s
    using read_block[OF assms(3), of "[]" p l s, where 'a = 32] by (simp add: parseElement_def getTypeId_def type_ids Let_def)
  moreover have "length buf < 2 ^ 32" using assms by simp
  ultimately show ?thesis
    by (simp add: parseBuffer_eq parseBody_def h reading_def[symmetric] Let_def)
qed

lemma rewritten_buffer:
  assumes "writer_ok ev"
  shows "\<exists>t i e x. length t = 8 \<and> length i = 4 \<and> length e = 4 \<and> x AND 0x0F = INT64_TYPE \<and>
    AStatsEvent_getBuffer ((rewriteWithErrors ev)\<lparr>aeBuf := (aeBuf (rewriteWithErrors ev))(POS_NUM_ELEMENTS := ucast (aeNumElements (rewriteWithErrors ev)))\<rparr>) =
      [OBJECT_TYPE, 3, x] @ t @ [INT32_TYPE] @ i @ [ERROR_TYPE] @ e"
proof -
  define ev' where "ev' = (rewriteWithErrors ev)\<lparr>aeBuf := (aeBuf (rewriteWithErrors ev))(POS_NUM_ELEMENTS := ucast (aeNumElements (rewriteWithErrors ev)))\<rparr>"
  have size: "MAX_PUSH_EVENT_PAYLOAD \<le> aeBufSize ev" using assms by (simp add: writer_ok_def size_ok_def)
  have r: "rewriteWithErrors ev = ev\<lparr>aeNumElements := 3, aeLastFieldPos := 16, aeNumBytesWritten := 21,
      aeBuf := memcpy (memcpy ((aeBuf ev)(11 := INT32_TYPE)) 16 [ERROR_TYPE]) 17 (bytes_of 4 (aeErrors ev))\<rparr>"
    using size by (simp add: rewriteWithErrors_def start_field_def append_defs append_bytes_def overflows_def payload_limits buffer_positions Let_def)
  have f: "aeBuf ev' 0 = OBJECT_TYPE" "aeBuf ev' 1 = 3" "aeBuf ev' 2 = aeBuf ev 2" "aeBuf ev' 11 = INT32_TYPE" "aeBuf ev' 16 = ERROR_TYPE"
    "aeNumBytesWritten ev' = 21"
    using assms unfolding ev'_def r by (simp_all add: memcpy_def writer_ok_def buffer_positions)
  have "[0..<21] = [0, 1, 2] @ [3..<11] @ [11] @ [12..<16] @ [16] @ [17..<21 :: nat]" by (simp add: upt_rec)
  then have "AStatsEvent_getBuffer ev' = [OBJECT_TYPE, 3, aeBuf ev 2] @ map (aeBuf ev') [3..<11] @ [INT32_TYPE] @ map (aeBuf ev') [12..<16] @
      [ERROR_TYPE] @ map (aeBuf ev') [17..<21]"
    unfolding AStatsEvent_getBuffer_def f(6) by (simp only: map_append list.map f)
  moreover have "aeBuf ev 2 AND 0x0F = INT64_TYPE" using assms by (simp add: writer_ok_def buffer_positions numeral_2_eq_2)
  moreover have "length (map (aeBuf ev') [3..<11]) = 8" "length (map (aeBuf ev') [12..<16]) = 4" "length (map (aeBuf ev') [17..<21]) = 4" by simp_all
  ultimately show ?thesis unfolding ev'_def[symmetric] by blast
qed

text \<open>
  Property C2. An event in which the client library recorded an error, whatever was called on it, reaches the daemon
  only as an error report: the buffer it is rewritten to is rejected by the parser.
\<close>

theorem writer_errors_rejected:
  assumes "writer_run calls (AStatsEvent_obtain heap elapsedNs) = Some ev" and "aeErrors (build_internal push ev) \<noteq> 0"
  shows "\<not> fst (parseBuffer (AStatsEvent_getBuffer (build_internal push ev)) (newLogEvent uid pid))"
proof -
  have ok: "writer_ok (checkLimits push ev)" by (rule checkLimits_writer_ok[OF writer_run_ok[OF obtain_writer_ok assms(1)]])
  have "aeErrors (checkLimits push ev) \<noteq> 0" using assms(2) by (auto simp: build_internal_def Let_def split: if_splits)
  then have b: "build_internal push ev = (rewriteWithErrors (checkLimits push ev))\<lparr>aeBuf :=
      (aeBuf (rewriteWithErrors (checkLimits push ev)))(POS_NUM_ELEMENTS := ucast (aeNumElements (rewriteWithErrors (checkLimits push ev))))\<rparr>"
    by (simp add: build_internal_def Let_def)
  from rewritten_buffer[OF ok] show ?thesis unfolding b using error_buffer_rejected by blast
qed

theorem writer_errors_rejected_witness:
  "\<exists>ev. writer_run [WriteValue (AInt 5)] (AStatsEvent_obtain (\<lambda>_. 0) 7) = Some ev \<and> aeErrors (build_internal True ev) \<noteq> 0 \<and>
     \<not> fst (parseBuffer (AStatsEvent_getBuffer (build_internal True ev)) (newLogEvent 1000 1))"
proof -
  let ?w = "writer_run [WriteValue (AInt 5)] (AStatsEvent_obtain (\<lambda>_. 0) 7)"
  have "\<exists>ev. ?w = Some ev \<and> aeAtomId ev = 0"
    by (simp add: call_defs fresh_event_def payload_limits Let_def)
  then obtain ev where w: "?w = Some ev" "aeAtomId ev = 0" by blast
  then have "aeErrors (build_internal True ev) \<noteq> 0" using build_internal_ok[of True ev] by blast
  with writer_errors_rejected[OF w(1) this, of 1000 1] w(1) show ?thesis by blast
qed

text \<open>
  Fact. The values of an event that the client library wrote and the parser accepted are in depth-first order,
  with exactly the items of the last node of a chain marked as last. This is the order on which the range search of
  the atom matchers relies.
\<close>

theorem parsed_event_in_dfs_order:
  assumes "writeAtom heap elapsedNs atomId as fs = Some ev" and "aeErrors (build_internal push ev) = 0"
    and "parseBuffer (AStatsEvent_getBuffer (build_internal push ev)) (newLogEvent uid pid) = (True, s)"
  shows "dfs_values (event_values (eventOf s))"
proof -
  note b = built_bytes[OF assms(1,2)]
  obtain t where t: "deliverAtom uid pid elapsedNs atomId as fs = Some t" "leValues s = leValues t"
    using write_parse[OF assms(1,2), of uid pid] assms(3) by (auto split: option.splits)
  then obtain s1 where s1: "deliverAnnotations (-1) as ((newLogEvent uid pid)\<lparr>leElapsedTimestampNs := elapsedNs, leTagId := atomId\<rparr>) = Some s1"
      "deliverFields 1 fs s1 = Some t" by (auto simp: deliverAtom_def split: option.splits)
  have "leValues s1 = []" using deliverAnnotations_fields[OF s1(1)] by (simp add: newLogEvent_def)
  with deliverFields_dfs[OF s1(2)] b(3,4) have "dfs_values (leValues t)" by (auto simp: dfs_values_def)
  then show ?thesis by (simp add: t(2) eventOf_def)
qed

theorem parsed_event_in_dfs_order_witness:
  "\<exists>ev s. parseBuffer (AStatsEvent_getBuffer (build_internal True ev)) (newLogEvent 1000 1) = (True, s) \<and>
     event_values (eventOf s) \<noteq> [] \<and> dfs_values (event_values (eventOf s))"
proof -
  let ?w = "writeAtom (\<lambda>_. 0) 7 27 [] [(AInt 5, [])]"
  have "\<exists>ev. ?w = Some ev \<and> aeErrors (build_internal True ev) = 0"
    by (simp add: writeAtom_def call_defs fresh_event_def payload_limits memcpy_def MAX_BYTE_VALUE_def MAX_ANNOTATION_COUNT_def
        type_ids build_internal_def checkLimits_def Let_def)
  then obtain ev where w: "?w = Some ev" "aeErrors (build_internal True ev) = 0" by blast
  have "\<exists>s. deliverAtom 1000 1 7 27 [] [(AInt 5, [])] = Some s \<and> leValues s \<noteq> []"
    by (simp add: deliverAtom_def deliverField_def addLeaves_def newLogEvent_def Let_def)
  with write_parse[OF w, of 1000 1] obtain s where
    s: "parseBuffer (AStatsEvent_getBuffer (build_internal True ev)) (newLogEvent 1000 1) = (True, s)" "leValues s \<noteq> []" by fastforce
  have "event_values (eventOf s) \<noteq> []" using s(2) by (simp add: eventOf_def)
  with parsed_event_in_dfs_order[OF w s(1)] s(1) show ?thesis by blast
qed

end
