(* ===== verification/PulledMetricBase.thy ===== *)
theory PulledMetricBase
  imports MetricBase MatchingTrackers
begin

text \<open>
  What value and gauge metrics share beyond \<^verbatim>\<open>MetricBase\<close>: the skipped buckets of
  \<^verbatim>\<open>bin/src/metrics/MetricProducer.h\<close>, bucket sizes (\<^verbatim>\<open>bin/src/stats_log_util.cpp\<close>), the dimension limits
  per atom and \<^verbatim>\<open>EventMatcherWizard\<close>. A handler of a pulled metric may call the puller manager, which
  asks other processes, and reads the clock; the answers are in the \<open>pull_env\<close> of the call, with the
  matchers, conditions and states it sees.
\<close>

section \<open>Definitions\<close>

datatype bucket_drop_reason =
    DUMP_REPORT_REQUESTED | EVENT_IN_WRONG_BUCKET | CONDITION_UNKNOWN | PULL_FAILED | PULL_DELAYED
  | DIMENSION_GUARDRAIL_REACHED | MULTIPLE_BUCKETS_SKIPPED | BUCKET_TOO_SMALL | NO_DATA

record drop_event =
  deReason :: bucket_drop_reason
  deDropTimeNs :: ns

record skipped_bucket =
  skBucketStartTimeNs :: ns
  skBucketEndTimeNs :: ns
  skDropEvents :: "drop_event list"

text \<open>\<^verbatim>\<open>SkippedBucket::reset\<close>; a new \<^verbatim>\<open>SkippedBucket\<close> has no drop events either.\<close>

definition emptySkippedBucket :: skipped_bucket where
  "emptySkippedBucket = \<lparr>skBucketStartTimeNs = 0, skBucketEndTimeNs = 0, skDropEvents = []\<rparr>"

definition kMaxLoggedBucketDropEvents :: nat where
  "kMaxLoggedBucketDropEvents = 10"

definition buildDropEvent :: "ns \<Rightarrow> bucket_drop_reason \<Rightarrow> drop_event" where
  "buildDropEvent dropTimeNs reason = \<lparr>deReason = reason, deDropTimeNs = dropTimeNs\<rparr>"

definition maxDropEventsReached :: "skipped_bucket \<Rightarrow> bool" where
  "maxDropEventsReached b = (length (skDropEvents b) \<ge> kMaxLoggedBucketDropEvents)"

definition addDropEvent :: "ns \<Rightarrow> bucket_drop_reason \<Rightarrow> skipped_bucket \<Rightarrow> skipped_bucket" where
  "addDropEvent dropTimeNs reason b =
     (if maxDropEventsReached b then b else b\<lparr>skDropEvents := skDropEvents b @ [buildDropEvent dropTimeNs reason]\<rparr>)"

datatype time_unit =
    TIME_UNIT_UNSPECIFIED | ONE_MINUTE | FIVE_MINUTES | TEN_MINUTES | THIRTY_MINUTES | ONE_HOUR
  | THREE_HOURS | SIX_HOURS | TWELVE_HOURS | ONE_DAY | ONE_WEEK | CTS

fun TimeUnitToBucketSizeInMillis :: "time_unit \<Rightarrow> int" where
  "TimeUnitToBucketSizeInMillis ONE_MINUTE = 60 * 1000"
| "TimeUnitToBucketSizeInMillis FIVE_MINUTES = 5 * 60 * 1000"
| "TimeUnitToBucketSizeInMillis TEN_MINUTES = 10 * 60 * 1000"
| "TimeUnitToBucketSizeInMillis THIRTY_MINUTES = 30 * 60 * 1000"
| "TimeUnitToBucketSizeInMillis ONE_HOUR = 60 * 60 * 1000"
| "TimeUnitToBucketSizeInMillis THREE_HOURS = 3 * 60 * 60 * 1000"
| "TimeUnitToBucketSizeInMillis SIX_HOURS = 6 * 60 * 60 * 1000"
| "TimeUnitToBucketSizeInMillis TWELVE_HOURS = 12 * 60 * 60 * 1000"
| "TimeUnitToBucketSizeInMillis ONE_DAY = 24 * 60 * 60 * 1000"
| "TimeUnitToBucketSizeInMillis ONE_WEEK = 7 * 24 * 60 * 60 * 1000"
| "TimeUnitToBucketSizeInMillis CTS = 1000"
| "TimeUnitToBucketSizeInMillis TIME_UNIT_UNSPECIFIED = -1"

text \<open>\<^verbatim>\<open>AID_ROOT\<close> and \<^verbatim>\<open>AID_SHELL\<close> are the fixed uids 0 and 2000 of the platform.\<close>

definition TimeUnitToBucketSizeInMillisGuardrailed :: "int \<Rightarrow> time_unit \<Rightarrow> int" where
  "TimeUnitToBucketSizeInMillisGuardrailed uid unit =
     (let bucketSizeMillis = TimeUnitToBucketSizeInMillis unit
      in if bucketSizeMillis > 1000 \<and> bucketSizeMillis < 5 * 60 * 1000 \<and> uid \<noteq> 2000 \<and> uid \<noteq> 0 then 5 * 60 * 1000 else bucketSizeMillis)"

text \<open>The choice of the bucket size in the constructors.\<close>

definition bucketSizeNsFor :: "int \<Rightarrow> time_unit option \<Rightarrow> ns" where
  "bucketSizeNsFor uid bucket =
     (case bucket of Some u \<Rightarrow> TimeUnitToBucketSizeInMillisGuardrailed uid u
                   | None \<Rightarrow> TimeUnitToBucketSizeInMillis ONE_HOUR) * 1000000"

text \<open>\<^verbatim>\<open>StatsdStats::kAtomDimensionKeySizeLimitMap\<close>; the atom ids come from generated code.\<close>

definition kAtomDimensionKeySizeLimitMap :: "int \<Rightarrow> int \<Rightarrow> int \<Rightarrow> (int, nat \<times> nat) umap" where
  "kAtomDimensionKeySizeLimitMap BINDER_CALLS LOOPER_STATS CPU_TIME_PER_UID_FREQ =
     [(BINDER_CALLS, (6000, 10000)), (LOOPER_STATS, (1500, 2500)), (CPU_TIME_PER_UID_FREQ, (6000, 10000))]"

definition dimensionLimitsFor :: "(int, nat \<times> nat) umap \<Rightarrow> int \<Rightarrow> nat \<times> nat" where
  "dimensionLimitsFor limits pullTagId =
     (case map_of limits pullTagId of Some p \<Rightarrow> p | None \<Rightarrow> (kDimensionKeySizeSoftLimit, kDimensionKeySizeHardLimit))"

definition kPullMaxDelayNs :: ns where
  "kPullMaxDelayNs = 30 * NS_PER_SEC"

definition maxPullDelayNsFor :: "int \<Rightarrow> ns" where
  "maxPullDelayNsFor max_pull_delay_sec = (if max_pull_delay_sec > 0 then max_pull_delay_sec * NS_PER_SEC else kPullMaxDelayNs)"

record 'l pull_env =
  peUids :: uid_env
  peMatchers :: "matching_tracker list"
  peConditions :: "condition_tracker list"
  peStates :: "'l state_manager"
  pePull :: "ns \<Rightarrow> state_event list option"
  peElapsedRealtimeNs :: ns

text \<open>\<^verbatim>\<open>EventMatcherWizard::matchLogEvent\<close>. The fuel is the number of matchers, which is enough for the graphs
  that \<^verbatim>\<open>initAtomMatchingTrackers\<close> accepts.\<close>

definition matchLogEvent :: "'l pull_env \<Rightarrow> log_event \<Rightarrow> int \<Rightarrow> matching_state" where
  "matchLogEvent env ev matcher_index =
     (let ts = peMatchers env
      in if matcher_index < 0 \<or> matcher_index \<ge> int (length ts) then kNotComputed
         else case tracker_onLogEvent (length ts) (peUids env) ts ev (nat matcher_index) (replicate (length ts) kNotComputed) of
                None \<Rightarrow> kNotComputed
              | Some cache \<Rightarrow> cache ! nat matcher_index)"

section \<open>Lemmas\<close>

lemma addDropEvent_events:
  "skDropEvents (addDropEvent t r b) \<noteq> []"
  "length (skDropEvents b) \<le> kMaxLoggedBucketDropEvents \<Longrightarrow> length (skDropEvents (addDropEvent t r b)) \<le> kMaxLoggedBucketDropEvents"
  by (auto simp: addDropEvent_def maxDropEventsReached_def kMaxLoggedBucketDropEvents_def)

lemma emptySkippedBucket_events [simp]: "skDropEvents emptySkippedBucket = []"
  by (simp add: emptySkippedBucket_def)

text \<open>A configured bucket size is a positive whole number of seconds; only shell and root get less than
  five minutes, apart from the one-second unit of the tests.\<close>

lemma bucketSizeNs_pos: "bucket \<noteq> Some TIME_UNIT_UNSPECIFIED \<Longrightarrow> 0 < bucketSizeNsFor uid bucket"
  by (cases bucket; cases "the bucket") (auto simp: bucketSizeNsFor_def TimeUnitToBucketSizeInMillisGuardrailed_def Let_def)

text \<open>With enough matchers for the graph, the wizard answers what the evaluation of all matchers would.\<close>

lemma matchLogEvent_sem:
  assumes "graph_ok rank (peMatchers env)" "i < length (peMatchers env)"
  shows "matchLogEvent env ev (int i) = state_of_bool (event_matches (peUids env) (peMatchers env) ev i)"
proof -
  let ?ts = "peMatchers env"
  have "cache_ok (peUids env) ?ts ev (replicate (length ?ts) kNotComputed)" by (simp add: cache_ok_def)
  moreover have "rank i < length ?ts" using assms by (simp add: graph_ok_def)
  ultimately show ?thesis
    using onLogEvent_works[OF assms(1), of "peUids env" ev _ i "length ?ts"] assms(2)
    by (fastforce simp: matchLogEvent_def Let_def eval_good_def cache_ok_def computed_def)
qed

end
