(* ===== verification/ValueMetric.thy ===== *)
theory ValueMetric
  imports PulledMetricBase
begin

text \<open>
  \<^verbatim>\<open>bin/src/metrics/ValueMetricProducer.h\<close> and \<^verbatim>\<open>.cpp\<close>: aggregating the numeric fields of pushed or pulled
  atoms per dimension key, state and time bucket. The members that never change after construction are in
  the record \<open>value_params\<close>. Calls of \<^verbatim>\<open>StatsdStats\<close> only count and are not modelled.
\<close>

section \<open>Data\<close>

datatype value_aggregation = va_SUM | va_MIN | va_MAX | va_AVG
datatype value_direction = UNKNOWN_DIRECTION | INCREASING | DECREASING | ANY_DIRECTION

record value_params =
  vpWhatMatcherIndex :: int
  vpFieldMatchers :: "matcher list"
  vpPullTagId :: int
  vpIsPulled :: bool
  vpMinBucketSizeNs :: ns
  vpDimensionSoftLimit :: nat
  vpDimensionHardLimit :: nat
  vpUseAbsoluteValueOnReset :: bool
  vpAggregationType :: value_aggregation
  vpUseDiff :: bool
  vpValueDirection :: value_direction
  vpSkipZeroDiffOutput :: bool
  vpUseZeroDefaultBase :: bool
  vpMaxPullDelayNs :: ns
  vpSplitBucketForAppUpgrade :: bool

record interval =
  ivValueIndex :: int
  ivValue :: log_value
  ivSampleSize :: int
  ivHasValue :: bool
  ivSeenNewData :: bool

record base_info =
  biBase :: log_value
  biHasBase :: bool
  biCurrentState :: dim_key
  biHasCurrentState :: bool

text \<open>\<^verbatim>\<open>resize\<close> value-initialises the new elements.\<close>

definition newInterval :: interval where
  "newInterval = \<lparr>ivValueIndex = 0, ivValue = UNKNOWN, ivSampleSize = 0, ivHasValue = False, ivSeenNewData = False\<rparr>"

definition newBaseInfo :: base_info where
  "newBaseInfo = \<lparr>biBase = UNKNOWN, biHasBase = False, biCurrentState = [], biHasCurrentState = False\<rparr>"

definition growTo :: "nat \<Rightarrow> 'a \<Rightarrow> 'a list \<Rightarrow> 'a list" where
  "growTo n x xs = xs @ replicate (n - length xs) x"

record value_bucket =
  vbBucketStartNs :: ns
  vbBucketEndNs :: ns
  vbValueIndex :: "int list"
  vbValues :: "log_value list"
  vbConditionTrueNs :: ns

record value_metric = metric_producer +
  vmParams :: value_params
  vmMatchedMetricDimensionKeys :: "dim_key list"
  vmStateChangePrimaryKey :: "i32 \<times> dim_key"
  vmCurrentSlicedBucket :: "(metric_key, interval list) umap"
  vmCurrentBaseInfo :: "(dim_key, base_info list) umap"
  vmCurrentFullBucket :: "(metric_key, int) umap"
  vmPastBuckets :: "(metric_key, value_bucket list) umap"
  vmHasGlobalBase :: bool
  vmCurrentBucketIsSkipped :: bool
  vmConditionTimer :: condition_timer
  vmCurrentSkippedBucket :: skipped_bucket
  vmSkippedBuckets :: "skipped_bucket list"

section \<open>Values\<close>

text \<open>Reading the \<^verbatim>\<open>long_value\<close> member of the union whatever the type, as \<^const>\<open>int_value\<close> does for its member.\<close>

fun long_value :: "log_value \<Rightarrow> i64" where
  "long_value (INT_v v) = ucast v"
| "long_value (LONG v) = v"
| "long_value (FLOAT v) = ucast v"
| "long_value (DOUBLE v) = v"
| "long_value _ = 0"

fun getDoubleOrLong :: "field_value list \<Rightarrow> matcher \<Rightarrow> log_value option" where
  "getDoubleOrLong [] matcher = None"
| "getDoubleOrLong (fv # fvs) matcher =
     (if matches (fvField fv) matcher
      then case fvValue fv of
             INT_v v \<Rightarrow> Some (LONG (scast v))
           | LONG v \<Rightarrow> Some (LONG v)
           | FLOAT v \<Rightarrow> Some (DOUBLE (f32_to_f64 v))
           | DOUBLE v \<Rightarrow> Some (DOUBLE v)
           | _ \<Rightarrow> None
      else getDoubleOrLong fvs matcher)"

text \<open>IEEE division of a \<^verbatim>\<open>double\<close> by a positive \<^verbatim>\<open>int\<close>, for the average: the exact quotient rounded to nearest even.\<close>

definition fp_round_ratio :: "nat \<Rightarrow> nat \<Rightarrow> nat \<Rightarrow> nat \<Rightarrow> nat" where
  "fp_round_ratio p w n d =
     (let k = bit_length (n div d) - (p + 1); D = d * 2 ^ k;
          q = n div D; r = n mod D;
          q' = (if 2 * r > D \<or> (2 * r = D \<and> odd q) then q + 1 else q)
      in min (fp_inf p w) (k * 2 ^ p + q'))"

definition f64_div_int :: "64 word \<Rightarrow> int \<Rightarrow> 64 word" where
  "f64_div_int b n =
     (if f64 fp_isnan (unat b) then of_nat (f64 fp_qnan)
      else if f64 fp_abs (unat b) = f64 fp_inf then b
      else of_nat ((if f64 fp_sign (unat b) then 2 ^ 63 else 0) + f64 fp_round_ratio (f64 fp_magnitude (unat b)) (nat n)))"

text \<open>The difference to the base; \<open>None\<close> where the value moved in the wrong direction.\<close>

definition diffOf :: "value_params \<Rightarrow> log_value \<Rightarrow> log_value \<Rightarrow> log_value option" where
  "diffOf p v base =
     (case vpValueDirection p of
        INCREASING \<Rightarrow> if value_ge v base then Some (value_minus v base)
                      else if vpUseAbsoluteValueOnReset p then Some v else None
      | DECREASING \<Rightarrow> if value_ge base v then Some (value_minus base v)
                      else if vpUseAbsoluteValueOnReset p then Some v else None
      | ANY_DIRECTION \<Rightarrow> Some (value_minus v base)
      | UNKNOWN_DIRECTION \<Rightarrow> Some UNKNOWN)"

text \<open>\<^verbatim>\<open>std::min(a, b)\<close> is \<open>b\<close> if \<open>b < a\<close> and otherwise \<open>a\<close>; \<^verbatim>\<open>std::max(a, b)\<close> is \<open>b\<close> if \<open>a < b\<close> and otherwise \<open>a\<close>.\<close>

definition aggregate :: "value_params \<Rightarrow> log_value \<Rightarrow> interval \<Rightarrow> interval" where
  "aggregate p v iv =
     (let iv1 = (if ivHasValue iv
                 then iv\<lparr>ivValue := (case vpAggregationType p of
                          va_SUM \<Rightarrow> value_plus (ivValue iv) v
                        | va_AVG \<Rightarrow> value_plus (ivValue iv) v
                        | va_MIN \<Rightarrow> if value_less (ivValue iv) v then ivValue iv else v
                        | va_MAX \<Rightarrow> if value_less v (ivValue iv) then ivValue iv else v)\<rparr>
                 else iv\<lparr>ivValue := v, ivHasValue := True\<rparr>)
      in iv1\<lparr>ivSampleSize := ivSampleSize iv1 + 1\<rparr>)"

text \<open>One round of the loop over the value fields, once the value has been read; the Boolean is false where the
  source clears \<^verbatim>\<open>useAnomalyDetection\<close> and continues. \<^verbatim>\<open>ZERO_LONG\<close> and \<^verbatim>\<open>ZERO_DOUBLE\<close> are both \<^verbatim>\<open>LONG\<close> zeros.\<close>

definition updateField :: "value_params \<Rightarrow> bool \<Rightarrow> log_value \<Rightarrow> base_info \<Rightarrow> interval \<Rightarrow> base_info \<times> interval \<times> bool" where
  "updateField p hasGlobalBase v bi iv =
     (if \<not> vpUseDiff p then (bi, aggregate p v iv, True)
      else if \<not> biHasBase bi \<and> \<not> (hasGlobalBase \<and> vpUseZeroDefaultBase p)
      then (bi\<lparr>biBase := v, biHasBase := True\<rparr>, iv, False)
      else let bi1 = (if biHasBase bi then bi else bi\<lparr>biBase := LONG 0, biHasBase := True\<rparr>)
           in case diffOf p v (biBase bi1) of
                None \<Rightarrow> (bi1\<lparr>biBase := v\<rparr>, iv, False)
              | Some diff \<Rightarrow> (bi1\<lparr>biBase := v\<rparr>, aggregate p diff iv, True))"

text \<open>The loop. Its last result is \<open>None\<close> when a value has the wrong type and the handler returns at once.\<close>

fun updateFields :: "value_params \<Rightarrow> bool \<Rightarrow> dim_key \<Rightarrow> field_value list \<Rightarrow> int \<Rightarrow> matcher list \<Rightarrow> base_info list \<Rightarrow> interval list \<Rightarrow>
    bool \<Rightarrow> base_info list \<times> interval list \<times> bool option" where
  "updateFields p hasGlobalBase stateKey vals i (mt # mts) (bi # bis) (iv # ivs) useAnomalyDetection =
     (let bi1 = bi\<lparr>biHasCurrentState := True, biCurrentState := stateKey\<rparr>; iv1 = iv\<lparr>ivValueIndex := i\<rparr>
      in case getDoubleOrLong vals mt of
           None \<Rightarrow> (bi1 # bis, iv1 # ivs, None)
         | Some v \<Rightarrow>
             (case updateField p hasGlobalBase v bi1 (iv1\<lparr>ivSeenNewData := True\<rparr>) of (bi2, iv2, ok) \<Rightarrow>
                (case updateFields p hasGlobalBase stateKey vals (i + 1) mts bis ivs (useAnomalyDetection \<and> ok) of
                   (bis', ivs', r) \<Rightarrow> (bi2 # bis', iv2 # ivs', r))))"
| "updateFields p hasGlobalBase stateKey vals i mts bis ivs useAnomalyDetection = (bis, ivs, Some useAnomalyDetection)"

section \<open>Buckets\<close>

definition calcBucketsForwardCount :: "ns \<Rightarrow> 'a metric_producer_scheme \<Rightarrow> int" where
  "calcBucketsForwardCount eventTimeNs m =
     (let currentBucketEndTimeNs = getCurrentBucketEndTimeNs m
      in if eventTimeNs < currentBucketEndTimeNs then 0 else 1 + (eventTimeNs - currentBucketEndTimeNs) div mpBucketSizeNs m)"

definition multipleBucketsSkipped :: "int \<Rightarrow> value_metric \<Rightarrow> bool" where
  "multipleBucketsSkipped numBucketsForward m =
     (numBucketsForward > 1 \<and> (vpIsPulled (vmParams m) \<or> vpUseDiff (vmParams m)))"

definition skipCurrentBucket :: "ns \<Rightarrow> bucket_drop_reason \<Rightarrow> value_metric \<Rightarrow> value_metric" where
  "skipCurrentBucket dropTimeNs reason m =
     m\<lparr>vmCurrentSkippedBucket := addDropEvent dropTimeNs reason (vmCurrentSkippedBucket m), vmCurrentBucketIsSkipped := True\<rparr>"

text \<open>\<^verbatim>\<open>invalidateCurrentBucketWithoutResetBase\<close> only counts beyond \<^verbatim>\<open>skipCurrentBucket\<close>.\<close>

definition invalidateCurrentBucketWithoutResetBase :: "ns \<Rightarrow> bucket_drop_reason \<Rightarrow> value_metric \<Rightarrow> value_metric" where
  "invalidateCurrentBucketWithoutResetBase dropTimeNs reason m = skipCurrentBucket dropTimeNs reason m"

definition resetBase :: "value_metric \<Rightarrow> value_metric" where
  "resetBase m =
     m\<lparr>vmCurrentBaseInfo := map (\<lambda>(k, bis). (k, map (\<lambda>bi. bi\<lparr>biHasBase := False\<rparr>) bis)) (vmCurrentBaseInfo m), vmHasGlobalBase := False\<rparr>"

definition invalidateCurrentBucket :: "ns \<Rightarrow> bucket_drop_reason \<Rightarrow> value_metric \<Rightarrow> value_metric" where
  "invalidateCurrentBucket dropTimeNs reason m = resetBase (invalidateCurrentBucketWithoutResetBase dropTimeNs reason m)"

definition reportedValue :: "value_params \<Rightarrow> interval \<Rightarrow> log_value" where
  "reportedValue p iv =
     (if vpAggregationType p \<noteq> va_AVG then ivValue iv
      else let s = (case ivValue iv of LONG v \<Rightarrow> int_to_f64 (sint v) | other \<Rightarrow> long_value other)
           in DOUBLE (f64_div_int s (ivSampleSize iv)))"

definition buildPartialBucket :: "ns \<Rightarrow> interval list \<Rightarrow> value_metric \<Rightarrow> value_bucket" where
  "buildPartialBucket endNs intervals m =
     (let p = vmParams m;
          kept = filter (\<lambda>iv. ivHasValue iv \<and> \<not> (vpSkipZeroDiffOutput p \<and> vpUseDiff p \<and> isZero (ivValue iv))) intervals
      in \<lparr>vbBucketStartNs = mpCurrentBucketStartTimeNs m, vbBucketEndNs = endNs,
          vbValueIndex = map ivValueIndex kept, vbValues = map (reportedValue p) kept, vbConditionTrueNs = 0\<rparr>)"

text \<open>Cleaning up one slice; an obsolete slice is erased.\<close>

definition clearInterval :: "interval \<Rightarrow> interval" where
  "clearInterval iv = iv\<lparr>ivHasValue := False, ivSampleSize := 0, ivSeenNewData := False\<rparr>"

definition initCurrentSlicedBucket :: "ns \<Rightarrow> value_metric \<Rightarrow> value_metric" where
  "initCurrentSlicedBucket nextBucketStartTimeNs m =
     (let live = filter (\<lambda>(k, ivs). list_ex ivSeenNewData ivs) (vmCurrentSlicedBucket m);
          m1 = m\<lparr>vmCurrentSlicedBucket := map (\<lambda>(k, ivs). (k, map clearInterval ivs)) live,
                 vmCurrentBucketIsSkipped := False, vmCurrentSkippedBucket := emptySkippedBucket\<rparr>;
          m2 = (if vpUseDiff (vmParams m1) \<and> \<not> vmHasGlobalBase m1 \<and> state_code (mpCondition m1) \<noteq> 0
                then m1\<lparr>vmCurrentBucketIsSkipped := False\<rparr> else m1)
      in m2\<lparr>mpCurrentBucketStartTimeNs := nextBucketStartTimeNs\<rparr>)"

definition hitFullBucketGuardRailLocked :: "value_params \<Rightarrow> (metric_key, int) umap \<Rightarrow> metric_key \<Rightarrow> bool" where
  "hitFullBucketGuardRailLocked p full newKey =
     (if map_of full newKey \<noteq> None then False
      else if length full > vpDimensionSoftLimit p - 1 then length full + 1 > vpDimensionHardLimit p else False)"

definition firstLong :: "interval list \<Rightarrow> int" where
  "firstLong ivs = sint (long_value (ivValue (hd ivs)))"

definition appendToFullBucket :: "bool \<Rightarrow> value_metric \<Rightarrow> value_metric" where
  "appendToFullBucket isFullBucketReached m =
     (if vmCurrentBucketIsSkipped m
      then (if isFullBucketReached then m\<lparr>vmCurrentFullBucket := []\<rparr> else m)
      else if isFullBucketReached
      then (if length (vmCurrentFullBucket m) > 0
            then let full = foldl (\<lambda>full (k, ivs).
                       if hitFullBucketGuardRailLocked (vmParams m) full k then full
                       else if ivHasValue (hd ivs) then addValue k (firstLong ivs) full else full)
                     (vmCurrentFullBucket m) (vmCurrentSlicedBucket m)
                 in m\<lparr>mpAnomalyTrackers := map (\<lambda>t. foldl (\<lambda>t (k, v). addPastBucketValue k v (mpCurrentBucketNum m) t) t full)
                        (mpAnomalyTrackers m), vmCurrentFullBucket := []\<rparr>
            else m\<lparr>mpAnomalyTrackers := map (\<lambda>t. foldl (\<lambda>t (k, ivs).
                       if ivHasValue (hd ivs) then addPastBucketValue k (firstLong ivs) (mpCurrentBucketNum m) t else t)
                     t (vmCurrentSlicedBucket m)) (mpAnomalyTrackers m)\<rparr>)
      else m\<lparr>vmCurrentFullBucket := foldl (\<lambda>full (k, ivs).
                 if ivHasValue (hd ivs) then addValue k (firstLong ivs) full else full)
               (vmCurrentFullBucket m) (vmCurrentSlicedBucket m)\<rparr>)"

text \<open>Pushing the partial buckets of all slices; the Boolean is \<^verbatim>\<open>bucketHasData\<close>.\<close>

definition pushPartialBuckets :: "ns \<Rightarrow> ns \<Rightarrow> value_metric \<Rightarrow> (metric_key, value_bucket list) umap \<times> bool" where
  "pushPartialBuckets endNs conditionTrueDuration m =
     foldl (\<lambda>(past, bucketHasData) (k, ivs).
        let b = (buildPartialBucket endNs ivs m)\<lparr>vbConditionTrueNs := conditionTrueDuration\<rparr>
        in if length (vbValueIndex b) > 0 then (pushBucket k b past, True) else (past, bucketHasData))
       (vmPastBuckets m, False) (vmCurrentSlicedBucket m)"

text \<open>The function in its four parts: the marks of an unknown condition and of skipped buckets, the end of the bucket,
  the closing of the bucket, and the gap up to the next one.\<close>

definition markBeforeFlush :: "ns \<Rightarrow> value_metric \<Rightarrow> value_metric" where
  "markBeforeFlush eventTimeNs m0 =
     (let m1 = (if mpCondition m0 = kUnknown then invalidateCurrentBucketWithoutResetBase eventTimeNs CONDITION_UNKNOWN m0 else m0)
      in if multipleBucketsSkipped (calcBucketsForwardCount eventTimeNs m1) m1
         then invalidateCurrentBucketWithoutResetBase eventTimeNs MULTIPLE_BUCKETS_SKIPPED m1 else m1)"

definition bucketEndTimeFor :: "ns \<Rightarrow> ns \<Rightarrow> value_metric \<Rightarrow> ns" where
  "bucketEndTimeFor eventTimeNs nextBucketStartTimeNs m =
     (if multipleBucketsSkipped (calcBucketsForwardCount eventTimeNs m) m then nextBucketStartTimeNs
      else if eventTimeNs < getCurrentBucketEndTimeNs m then eventTimeNs else getCurrentBucketEndTimeNs m)"

text \<open>Keep the bucket if it is large enough, valid and has data; otherwise it is a skipped bucket.\<close>

definition keepBucket :: "ns \<Rightarrow> ns \<Rightarrow> ns \<Rightarrow> value_metric \<Rightarrow> value_metric" where
  "keepBucket eventTimeNs endNs conditionTrueDuration m =
     (let m1 = (if endNs - mpCurrentBucketStartTimeNs m \<ge> vpMinBucketSizeNs (vmParams m) then m
                else skipCurrentBucket eventTimeNs BUCKET_TOO_SMALL m)
      in if vmCurrentBucketIsSkipped m1 then m1
         else let (past, bucketHasData) = pushPartialBuckets endNs conditionTrueDuration m1;
                  m' = m1\<lparr>vmPastBuckets := past\<rparr>
              in if bucketHasData then m' else skipCurrentBucket eventTimeNs NO_DATA m')"

definition recordSkipped :: "ns \<Rightarrow> value_metric \<Rightarrow> value_metric" where
  "recordSkipped endNs m =
     (if vmCurrentBucketIsSkipped m
      then let b = (vmCurrentSkippedBucket m)\<lparr>skBucketStartTimeNs := mpCurrentBucketStartTimeNs m, skBucketEndTimeNs := endNs\<rparr>
           in m\<lparr>vmCurrentSkippedBucket := b, vmSkippedBuckets := vmSkippedBuckets m @ [b]\<rparr>
      else m)"

definition recordGap :: "ns \<Rightarrow> ns \<Rightarrow> ns \<Rightarrow> value_metric \<Rightarrow> value_metric" where
  "recordGap eventTimeNs endNs nextBucketStartTimeNs m =
     (if endNs < nextBucketStartTimeNs
      then m\<lparr>vmSkippedBuckets := vmSkippedBuckets m @
               [\<lparr>skBucketStartTimeNs = endNs, skBucketEndTimeNs = nextBucketStartTimeNs,
                 skDropEvents = [buildDropEvent eventTimeNs NO_DATA]\<rparr>]\<rparr>
      else m)"

definition value_flushCurrentBucketLocked :: "ns \<Rightarrow> ns \<Rightarrow> value_metric \<Rightarrow> value_metric" where
  "value_flushCurrentBucketLocked eventTimeNs nextBucketStartTimeNs m0 =
     (let m1 = markBeforeFlush eventTimeNs m0;
          fullBucketEndTimeNs = getCurrentBucketEndTimeNs m1;
          numBucketsForward = calcBucketsForwardCount eventTimeNs m1;
          endNs = bucketEndTimeFor eventTimeNs nextBucketStartTimeNs m1;
          (timer, conditionTrueDuration) = newBucketStart endNs (vmConditionTimer m1);
          m2 = keepBucket eventTimeNs endNs conditionTrueDuration (m1\<lparr>vmConditionTimer := timer\<rparr>);
          m3 = recordGap eventTimeNs endNs nextBucketStartTimeNs (recordSkipped endNs m2);
          m4 = initCurrentSlicedBucket nextBucketStartTimeNs (appendToFullBucket (eventTimeNs > fullBucketEndTimeNs) m3)
      in m4\<lparr>vmConditionTimer := fst (newBucketStart nextBucketStartTimeNs (vmConditionTimer m4)),
            mpCurrentBucketNum := mpCurrentBucketNum m4 + numBucketsForward\<rparr>)"

definition value_flushIfNeededLocked :: "ns \<Rightarrow> value_metric \<Rightarrow> value_metric" where
  "value_flushIfNeededLocked eventTimeNs m =
     (let currentBucketEndTimeNs = getCurrentBucketEndTimeNs m
      in if eventTimeNs < currentBucketEndTimeNs then m
         else value_flushCurrentBucketLocked eventTimeNs
                (currentBucketEndTimeNs + (calcBucketsForwardCount eventTimeNs m - 1) * mpBucketSizeNs m) m)"

text \<open>\<^verbatim>\<open>MetricProducer::flushLocked\<close>.\<close>

definition value_flushLocked :: "ns \<Rightarrow> value_metric \<Rightarrow> value_metric" where
  "value_flushLocked eventTimeNs m = value_flushCurrentBucketLocked eventTimeNs eventTimeNs (value_flushIfNeededLocked eventTimeNs m)"

section \<open>Events\<close>

definition hasReachedGuardRailLimit :: "value_metric \<Rightarrow> bool" where
  "hasReachedGuardRailLimit m = (length (vmCurrentSlicedBucket m) \<ge> vpDimensionHardLimit (vmParams m))"

definition value_hitGuardRailLocked :: "metric_key \<Rightarrow> value_metric \<Rightarrow> bool" where
  "value_hitGuardRailLocked newKey m =
     (if map_of (vmCurrentSlicedBucket m) newKey \<noteq> None then False
      else if length (vmCurrentSlicedBucket m) > vpDimensionSoftLimit (vmParams m) - 1 then hasReachedGuardRailLimit m else False)"

text \<open>The entries of both maps for an event, created or grown; a key that is new starts in the unknown state.\<close>

definition baseInfosFor :: "dim_key \<Rightarrow> value_metric \<Rightarrow> base_info list" where
  "baseInfosFor whatKey m =
     map (\<lambda>bi. if biHasCurrentState bi then bi
               else bi\<lparr>biCurrentState := key_of (getUnknownStateKey m), biHasCurrentState := True\<rparr>)
       (growTo (length (vpFieldMatchers (vmParams m))) newBaseInfo (case map_of (vmCurrentBaseInfo m) whatKey of None \<Rightarrow> [] | Some bis \<Rightarrow> bis))"

definition intervalsFor :: "metric_key \<Rightarrow> value_metric \<Rightarrow> interval list" where
  "intervalsFor k m =
     growTo (length (vpFieldMatchers (vmParams m))) newInterval (case map_of (vmCurrentSlicedBucket m) k of None \<Rightarrow> [] | Some ivs \<Rightarrow> ivs)"

definition oldKeyFor :: "dim_key \<Rightarrow> value_metric \<Rightarrow> metric_key" where
  "oldKeyFor whatKey m = \<lparr>mDimensionKeyInWhat = whatKey, mStateValuesKey = biCurrentState (hd (baseInfosFor whatKey m))\<rparr>"

text \<open>The handler after its early returns: the fields are processed against the base of the key and the intervals of its
  old state, and the anomaly trackers see the first field. \<open>vals\<close> are the values of the event.\<close>

definition value_recordEvent :: "matched_event \<Rightarrow> field_value list \<Rightarrow> value_metric \<Rightarrow> value_metric" where
  "value_recordEvent me vals m =
     (let p = vmParams m; eventKey = meKey me; whatKey = mDimensionKeyInWhat eventKey; oldKey = oldKeyFor whatKey m;
          (baseInfos, intervals, useAnomalyDetection) =
             updateFields p (vmHasGlobalBase m) (mStateValuesKey eventKey) vals 0 (vpFieldMatchers p)
               (baseInfosFor whatKey m) (intervalsFor oldKey m) True;
          m1 = m\<lparr>vmCurrentBaseInfo := AList.update whatKey baseInfos (vmCurrentBaseInfo m),
                 vmCurrentSlicedBucket := AList.update oldKey intervals (vmCurrentSlicedBucket m)\<rparr>
      in if useAnomalyDetection = Some True \<and> \<not> multipleBucketsSkipped (calcBucketsForwardCount (meTimeNs me) m1) m1
         then let wholeBucketVal = firstLong intervals +
                    (case map_of (vmCurrentFullBucket m1) eventKey of None \<Rightarrow> 0 | Some prev \<Rightarrow> prev)
              in m1\<lparr>mpAnomalyTrackers := map (detectAndDeclareAnomaly (meTimeNs me) (mpCurrentBucketNum m1) (mpMetricId m1) eventKey wholeBucketVal)
                      (mpAnomalyTrackers m1)\<rparr>
         else m1)"

definition value_onMatchedLogEventInternalLocked :: "matched_event \<Rightarrow> field_value list \<Rightarrow> value_metric \<Rightarrow> value_metric" where
  "value_onMatchedLogEventInternalLocked me vals m0 =
     (let p = vmParams m0; (changedAtom, changedKey) = vmStateChangePrimaryKey m0
      in if (case map_of (meStatePrimaryKeys me) changedAtom of None \<Rightarrow> False | Some k \<Rightarrow> k \<noteq> changedKey) then m0
         else if meTimeNs me < mpCurrentBucketStartTimeNs m0 then m0
         else let m1 = m0\<lparr>vmMatchedMetricDimensionKeys := List.insert (mDimensionKeyInWhat (meKey me)) (vmMatchedMetricDimensionKeys m0)\<rparr>;
                  m = (if vpIsPulled p then m1 else value_flushIfNeededLocked (meTimeNs me) m1)
              in if (\<not> vpIsPulled p \<and> \<not> meCondition me) \<or> (vpIsPulled p \<and> \<not> vpUseDiff p \<and> mpCondition m \<noteq> kTrue) then m
                 else if value_hitGuardRailLocked (meKey me) m then m
                 else value_recordEvent me vals m)"

definition value_onMatchedLogEvent :: "'l pull_env \<Rightarrow> state_event \<Rightarrow> value_metric \<Rightarrow> value_metric" where
  "value_onMatchedLogEvent env ev m =
     (case onMatchedLogEventLocked (peConditions env) (peStates env) ev m of
        None \<Rightarrow> m
      | Some me \<Rightarrow> value_onMatchedLogEventInternalLocked me (event_values ev) m)"

section \<open>Pulls\<close>

definition matchPulled :: "'l pull_env \<Rightarrow> ns \<Rightarrow> state_event list \<Rightarrow> value_metric \<Rightarrow> value_metric" where
  "matchPulled env eventElapsedTimeNs allData m =
     foldl (\<lambda>m ev. if matchLogEvent env (log_event.truncate ev) (vpWhatMatcherIndex (vmParams m)) = kMatched
                   then value_onMatchedLogEvent env (ev\<lparr>elapsedTimestampNs := eventElapsedTimeNs\<rparr>) m else m)
       m allData"

text \<open>The keys of the current bucket that the pull did not return lose their base.\<close>

definition resetMissingBases :: "value_metric \<Rightarrow> value_metric" where
  "resetMissingBases m =
     m\<lparr>vmCurrentBaseInfo := foldl (\<lambda>bases (k, _).
          let whatKey = mDimensionKeyInWhat k
          in if whatKey \<notin> set (vmMatchedMetricDimensionKeys m) \<and> dim_contains whatKey (snd (vmStateChangePrimaryKey m))
             then map (\<lambda>(w, bis). (w, if w = whatKey then map (\<lambda>bi. bi\<lparr>biHasBase := False\<rparr>) bis else bis)) bases
             else bases)
        (vmCurrentBaseInfo m) (vmCurrentSlicedBucket m)\<rparr>"

definition accumulateEvents :: "'l pull_env \<Rightarrow> state_event list \<Rightarrow> ns \<Rightarrow> ns \<Rightarrow> value_metric \<Rightarrow> value_metric" where
  "accumulateEvents env allData originalPullTimeNs eventElapsedTimeNs m0 =
     (if eventElapsedTimeNs < mpCurrentBucketStartTimeNs m0
      then invalidateCurrentBucket eventElapsedTimeNs EVENT_IN_WRONG_BUCKET m0
      else if peElapsedRealtimeNs env - originalPullTimeNs > vpMaxPullDelayNs (vmParams m0)
      then invalidateCurrentBucket eventElapsedTimeNs PULL_DELAYED m0
      else let m1 = matchPulled env eventElapsedTimeNs allData (m0\<lparr>vmMatchedMetricDimensionKeys := []\<rparr>);
               m2 = (resetMissingBases m1)\<lparr>vmMatchedMetricDimensionKeys := [], vmHasGlobalBase := True\<rparr>
           in if hasReachedGuardRailLimit m2
              then (invalidateCurrentBucket eventElapsedTimeNs DIMENSION_GUARDRAIL_REACHED m2)\<lparr>vmCurrentSlicedBucket := []\<rparr>
              else m2)"

definition value_pullAndMatchEventsLocked :: "'l pull_env \<Rightarrow> ns \<Rightarrow> value_metric \<Rightarrow> value_metric" where
  "value_pullAndMatchEventsLocked env timestampNs m =
     (case pePull env timestampNs of
        None \<Rightarrow> invalidateCurrentBucket timestampNs PULL_FAILED m
      | Some allData \<Rightarrow> accumulateEvents env allData timestampNs timestampNs m)"

text \<open>C++ division truncates; the argument is not before the time base when the handler calls this.\<close>

definition calcPreviousBucketEndTime :: "ns \<Rightarrow> 'a metric_producer_scheme \<Rightarrow> ns" where
  "calcPreviousBucketEndTime currentTimeNs m =
     mpTimeBaseNs m + ((currentTimeNs - mpTimeBaseNs m) div mpBucketSizeNs m) * mpBucketSizeNs m"

definition value_onDataPulled :: "'l pull_env \<Rightarrow> state_event list \<Rightarrow> bool \<Rightarrow> ns \<Rightarrow> value_metric \<Rightarrow> value_metric" where
  "value_onDataPulled env allData pullSuccess originalPullTimeNs m =
     value_flushIfNeededLocked originalPullTimeNs
       (if mpCondition m = kTrue
        then if \<not> pullSuccess then invalidateCurrentBucket originalPullTimeNs PULL_FAILED m
             else if originalPullTimeNs < getCurrentBucketEndTimeNs m
             then accumulateEvents env allData originalPullTimeNs originalPullTimeNs m
             else accumulateEvents env allData originalPullTimeNs (calcPreviousBucketEndTime originalPullTimeNs m - 1) m
        else m)"

definition value_prepareFirstBucketLocked :: "'l pull_env \<Rightarrow> value_metric \<Rightarrow> value_metric" where
  "value_prepareFirstBucketLocked env m =
     (if mIsActive (mpActivations m) \<and> vpIsPulled (vmParams m) \<and> mpCondition m = kTrue \<and> vpUseDiff (vmParams m)
      then value_pullAndMatchEventsLocked env (mpCurrentBucketStartTimeNs m) m else m)"

section \<open>Conditions, states, activations\<close>

definition value_onConditionChangedLocked :: "'l pull_env \<Rightarrow> bool \<Rightarrow> ns \<Rightarrow> value_metric \<Rightarrow> value_metric" where
  "value_onConditionChangedLocked env condition eventTimeNs m0 =
     (let newCondition = (if condition then kTrue else kFalse);
          isEventTooLate = eventTimeNs < mpCurrentBucketStartTimeNs m0
      in if \<not> mIsActive (mpActivations m0) then m0\<lparr>mpCondition := (if isEventTooLate then kUnknown else newCondition)\<rparr>
         else if isEventTooLate
         then let m1 = (invalidateCurrentBucket eventTimeNs EVENT_IN_WRONG_BUCKET m0)\<lparr>mpCondition := kUnknown\<rparr>
              in m1\<lparr>vmConditionTimer := timer_onConditionChanged (state_code (mpCondition m1) \<noteq> 0) eventTimeNs (vmConditionTimer m1)\<rparr>
         else let m1 = (if mpCondition m0 = kUnknown then invalidateCurrentBucket eventTimeNs CONDITION_UNKNOWN m0 else m0);
                  m2 = (if vpIsPulled (vmParams m1) \<and> (newCondition = kTrue \<or> mpCondition m1 = kTrue)
                        then value_pullAndMatchEventsLocked env eventTimeNs m1 else m1);
                  m3 = (if vpUseDiff (vmParams m2) \<and> mpCondition m2 = kTrue \<and> newCondition = kFalse then resetBase m2 else m2);
                  m4 = value_flushIfNeededLocked eventTimeNs (m3\<lparr>mpCondition := newCondition\<rparr>)
              in m4\<lparr>vmConditionTimer := timer_onConditionChanged (state_code (mpCondition m4) \<noteq> 0) eventTimeNs (vmConditionTimer m4)\<rparr>)"

text \<open>\<^verbatim>\<open>onSlicedConditionMayChangeLocked\<close> does nothing.\<close>

definition value_onSlicedConditionMayChangeLocked :: "bool \<Rightarrow> ns \<Rightarrow> value_metric \<Rightarrow> value_metric" where
  "value_onSlicedConditionMayChangeLocked overallCondition eventTime m = m"

text \<open>The part after the call of the parent's method, and the whole.\<close>

definition pullOnActiveStateChange :: "'l pull_env \<Rightarrow> bool \<Rightarrow> ns \<Rightarrow> value_metric \<Rightarrow> value_metric" where
  "pullOnActiveStateChange env isEventTooLate eventTimeNs m0 =
     (if mpCondition m0 \<noteq> kTrue then m0
      else let m1 = (if isEventTooLate then m0
                     else let m' = (if vpIsPulled (vmParams m0) then value_pullAndMatchEventsLocked env eventTimeNs m0 else m0)
                          in if vpUseDiff (vmParams m') \<and> \<not> mIsActive (mpActivations m') then resetBase m' else m');
               m2 = value_flushIfNeededLocked eventTimeNs m1
           in m2\<lparr>vmConditionTimer := timer_onConditionChanged (mIsActive (mpActivations m2)) eventTimeNs (vmConditionTimer m2)\<rparr>)"

definition value_onActiveStateChangedLocked :: "'l pull_env \<Rightarrow> ns \<Rightarrow> value_metric \<Rightarrow> value_metric" where
  "value_onActiveStateChangedLocked env eventTimeNs m0 =
     (let isEventTooLate = eventTimeNs < mpCurrentBucketStartTimeNs m0;
          m1 = (if isEventTooLate then invalidateCurrentBucket eventTimeNs EVENT_IN_WRONG_BUCKET m0 else m0);
          m2 = (if mIsActive (mpActivations m1) then m1 else value_flushLocked eventTimeNs m1)
      in pullOnActiveStateChange env isEventTooLate eventTimeNs m2)"

definition value_flushIfExpire :: "'l pull_env \<Rightarrow> ns \<Rightarrow> value_metric \<Rightarrow> value_metric" where
  "value_flushIfExpire env now m =
     (let (a, changed) = flushIfExpire now (mpActivations m); m1 = m\<lparr>mpActivations := a\<rparr>
      in if changed then value_onActiveStateChangedLocked env now m1 else m1)"

definition value_activateLocked :: "'l pull_env \<Rightarrow> int \<Rightarrow> ns \<Rightarrow> value_metric \<Rightarrow> value_metric" where
  "value_activateLocked env i now m =
     (let (a, changed) = activateLocked i now (mpActivations m); m1 = m\<lparr>mpActivations := a\<rparr>
      in if changed then value_onActiveStateChangedLocked env now m1 else m1)"

definition value_onStateChanged :: "'l pull_env \<Rightarrow> ns \<Rightarrow> i32 \<Rightarrow> dim_key \<Rightarrow> field_value \<Rightarrow> field_value \<Rightarrow> value_metric \<Rightarrow> value_metric" where
  "value_onStateChanged env eventTimeNs atomId primaryKey oldState newState m =
     (if fv_eq (mapStateValue m atomId oldState) (mapStateValue m atomId newState) then m
      else if mpCondition m \<noteq> kTrue \<or> \<not> mIsActive (mpActivations m) then m
      else if eventTimeNs < mpCurrentBucketStartTimeNs m then invalidateCurrentBucket eventTimeNs EVENT_IN_WRONG_BUCKET m
      else let m1 = m\<lparr>vmStateChangePrimaryKey := (atomId, primaryKey)\<rparr>;
               m2 = (if vpIsPulled (vmParams m1) then value_pullAndMatchEventsLocked env eventTimeNs m1 else m1)
           in value_flushIfNeededLocked eventTimeNs (m2\<lparr>vmStateChangePrimaryKey := (0, DEFAULT_DIMENSION_KEY)\<rparr>))"

section \<open>Splits, reports, construction\<close>

text \<open>\<^verbatim>\<open>onStatsdInitCompleted\<close>, and \<^verbatim>\<open>notifyAppUpgrade\<close>, which does the same when it is not disabled.\<close>

definition value_onStatsdInitCompleted :: "'l pull_env \<Rightarrow> ns \<Rightarrow> value_metric \<Rightarrow> value_metric" where
  "value_onStatsdInitCompleted env eventTimeNs m =
     value_flushCurrentBucketLocked eventTimeNs eventTimeNs
       (if vpIsPulled (vmParams m) \<and> mpCondition m = kTrue then value_pullAndMatchEventsLocked env eventTimeNs m else m)"

definition value_notifyAppUpgrade :: "'l pull_env \<Rightarrow> ns \<Rightarrow> value_metric \<Rightarrow> value_metric" where
  "value_notifyAppUpgrade env eventTimeNs m =
     (if \<not> vpSplitBucketForAppUpgrade (vmParams m) then m
      else value_flushCurrentBucketLocked eventTimeNs eventTimeNs
             (if vpIsPulled (vmParams m) \<and> mpCondition m = kTrue then value_pullAndMatchEventsLocked env eventTimeNs m else m))"

datatype dump_latency = FAST | NO_TIME_CONSTRAINTS

type_synonym value_report = "skipped_bucket list \<times> (metric_key, value_bucket list) umap"

definition value_clearPastBucketsLocked :: "value_metric \<Rightarrow> value_metric" where
  "value_clearPastBucketsLocked m = m\<lparr>vmPastBuckets := [], vmSkippedBuckets := []\<rparr>"

definition value_dropDataLocked :: "ns \<Rightarrow> value_metric \<Rightarrow> value_metric" where
  "value_dropDataLocked dropTimeNs m = value_clearPastBucketsLocked (value_flushIfNeededLocked dropTimeNs m)"

text \<open>\<^verbatim>\<open>onDumpReportLocked\<close>; the report is the content of both containers, which the source writes to the stream in this order.\<close>

definition value_flushForDump :: "'l pull_env \<Rightarrow> ns \<Rightarrow> dump_latency \<Rightarrow> value_metric \<Rightarrow> value_metric" where
  "value_flushForDump env dumpTimeNs dumpLatency m =
     value_flushCurrentBucketLocked dumpTimeNs dumpTimeNs
       (if vpIsPulled (vmParams m) \<and> mpCondition m = kTrue
        then case dumpLatency of
               FAST \<Rightarrow> invalidateCurrentBucket dumpTimeNs DUMP_REPORT_REQUESTED m
             | NO_TIME_CONSTRAINTS \<Rightarrow> value_pullAndMatchEventsLocked env dumpTimeNs m
        else m)"

definition value_onDumpReportLocked :: "'l pull_env \<Rightarrow> ns \<Rightarrow> bool \<Rightarrow> bool \<Rightarrow> dump_latency \<Rightarrow> value_metric \<Rightarrow> value_metric \<times> value_report" where
  "value_onDumpReportLocked env dumpTimeNs include_current_partial_bucket erase_data dumpLatency m0 =
     (let m = (if include_current_partial_bucket then value_flushForDump env dumpTimeNs dumpLatency m0 else m0)
      in if vmPastBuckets m = [] \<and> vmSkippedBuckets m = [] then (m, ([], []))
         else (if erase_data then m\<lparr>vmPastBuckets := [], vmSkippedBuckets := []\<rparr> else m, (vmSkippedBuckets m, vmPastBuckets m)))"

definition value_byteSizeLocked :: "int \<Rightarrow> value_metric \<Rightarrow> int" where
  "value_byteSizeLocked kBucketSize m = sum_list (map (\<lambda>(k, bs). int (length bs) * kBucketSize) (vmPastBuckets m))"

text \<open>The configuration message, less what sets the fields of the base class.\<close>

record value_config =
  vcMinBucketSizeNanos :: ns
  vcUseAbsoluteValueOnReset :: bool
  vcAggregationType :: value_aggregation
  vcUseDiff :: "bool option"
  vcValueDirection :: value_direction
  vcSkipZeroDiffOutput :: bool
  vcUseZeroDefaultBase :: bool
  vcMaxPullDelaySec :: int
  vcSplitBucketForAppUpgrade :: bool
  vcBucket :: "time_unit option"
  vcValueField :: field_matcher

definition valueParamsFor :: "(int, nat \<times> nat) umap \<Rightarrow> value_config \<Rightarrow> int \<Rightarrow> int \<Rightarrow> value_params" where
  "valueParamsFor limits c whatMatcherIndex pullTagId =
     (let isPulled = (pullTagId \<noteq> -1); (soft, hard) = dimensionLimitsFor limits pullTagId
      in \<lparr>vpWhatMatcherIndex = whatMatcherIndex, vpFieldMatchers = translateFieldMatcher (vcValueField c),
          vpPullTagId = pullTagId, vpIsPulled = isPulled, vpMinBucketSizeNs = vcMinBucketSizeNanos c,
          vpDimensionSoftLimit = soft, vpDimensionHardLimit = hard,
          vpUseAbsoluteValueOnReset = vcUseAbsoluteValueOnReset c, vpAggregationType = vcAggregationType c,
          vpUseDiff = (case vcUseDiff c of Some b \<Rightarrow> b | None \<Rightarrow> isPulled), vpValueDirection = vcValueDirection c,
          vpSkipZeroDiffOutput = vcSkipZeroDiffOutput c, vpUseZeroDefaultBase = vcUseZeroDefaultBase c,
          vpMaxPullDelayNs = maxPullDelayNsFor (vcMaxPullDelaySec c), vpSplitBucketForAppUpgrade = vcSplitBucketForAppUpgrade c\<rparr>)"

text \<open>The constructor, given the fields the base class sets. The receiver it registers at the puller manager is not part of the state.\<close>

definition newValueMetricProducer :: "(int, nat \<times> nat) umap \<Rightarrow> metric_producer \<Rightarrow> value_config \<Rightarrow> int \<Rightarrow> int \<Rightarrow> int \<Rightarrow> ns \<Rightarrow> ns \<Rightarrow> value_metric" where
  "newValueMetricProducer limits b c uid whatMatcherIndex pullTagId timeBaseNs startTimeNs =
     (let m0 = metric_producer.extend
            (b\<lparr>mpTimeBaseNs := timeBaseNs, mpCurrentBucketStartTimeNs := timeBaseNs, mpCurrentBucketNum := 0,
               mpBucketSizeNs := bucketSizeNsFor uid (vcBucket c)\<rparr>)
            (value_metric.fields (valueParamsFor limits c whatMatcherIndex pullTagId) [] (0, DEFAULT_DIMENSION_KEY) [] [] [] [] False False
               (newConditionTimer False timeBaseNs) emptySkippedBucket []);
          m1 = m0\<lparr>mpCurrentBucketNum := mpCurrentBucketNum m0 + calcBucketsForwardCount startTimeNs m0\<rparr>;
          m2 = (value_flushIfNeededLocked startTimeNs m1)\<lparr>mpCurrentBucketStartTimeNs := startTimeNs\<rparr>;
          m3 = m2\<lparr>vmConditionTimer := fst (newBucketStart startTimeNs (vmConditionTimer m2))\<rparr>
      in m3\<lparr>vmConditionTimer := timer_onConditionChanged (mIsActive (mpActivations m3) \<and> mpCondition m3 = kTrue) startTimeNs (vmConditionTimer m3)\<rparr>)"

end
