(* ===== verification/ValueBuckets.thy ===== *)
theory ValueBuckets
  imports ValueMetric
begin

text \<open>
  What every handler of a value metric keeps. The locale \<open>value_keeps\<close> states what a property has to survive: the
  few primitive changes all handlers are made of. Inside it, each handler and every run of a metric are
  shown to keep the property. It is interpreted twice: for the account of time, which says that reported and
  skipped buckets tile the life of the metric without gap or overlap, and for the shape of the maps, which
  says that no handler reads outside a vector, follows a missing iterator or divides by zero.
\<close>

section \<open>Frames\<close>

lemma skip_frame [frame_simps]:
  "vmParams (skipCurrentBucket t r m) = vmParams m"
  "mpCurrentBucketStartTimeNs (skipCurrentBucket t r m) = mpCurrentBucketStartTimeNs m"
  "mpCurrentBucketNum (skipCurrentBucket t r m) = mpCurrentBucketNum m"
  "mpBucketSizeNs (skipCurrentBucket t r m) = mpBucketSizeNs m"
  "mpTimeBaseNs (skipCurrentBucket t r m) = mpTimeBaseNs m"
  "mpCondition (skipCurrentBucket t r m) = mpCondition m"
  "mpActivations (skipCurrentBucket t r m) = mpActivations m"
  "vmConditionTimer (skipCurrentBucket t r m) = vmConditionTimer m"
  "vmPastBuckets (skipCurrentBucket t r m) = vmPastBuckets m"
  "vmSkippedBuckets (skipCurrentBucket t r m) = vmSkippedBuckets m"
  "vmCurrentSlicedBucket (skipCurrentBucket t r m) = vmCurrentSlicedBucket m"
  "vmCurrentBaseInfo (skipCurrentBucket t r m) = vmCurrentBaseInfo m"
  "vmCurrentFullBucket (skipCurrentBucket t r m) = vmCurrentFullBucket m"
  "mpSlicedStateAtoms (skipCurrentBucket t r m) = mpSlicedStateAtoms m"
  "vmCurrentBucketIsSkipped (skipCurrentBucket t r m)"
  by (simp_all add: skipCurrentBucket_def)

lemma append_frame [frame_simps]:
  "mpSlicedStateAtoms (appendToFullBucket b m) = mpSlicedStateAtoms m"
  "vmParams (appendToFullBucket b m) = vmParams m"
  "mpCurrentBucketStartTimeNs (appendToFullBucket b m) = mpCurrentBucketStartTimeNs m"
  "mpCurrentBucketNum (appendToFullBucket b m) = mpCurrentBucketNum m"
  "mpBucketSizeNs (appendToFullBucket b m) = mpBucketSizeNs m"
  "mpTimeBaseNs (appendToFullBucket b m) = mpTimeBaseNs m"
  "mpCondition (appendToFullBucket b m) = mpCondition m"
  "mpActivations (appendToFullBucket b m) = mpActivations m"
  "vmPastBuckets (appendToFullBucket b m) = vmPastBuckets m"
  "vmSkippedBuckets (appendToFullBucket b m) = vmSkippedBuckets m"
  "vmCurrentSlicedBucket (appendToFullBucket b m) = vmCurrentSlicedBucket m"
  "vmCurrentBaseInfo (appendToFullBucket b m) = vmCurrentBaseInfo m"
  by (simp_all add: appendToFullBucket_def Let_def)

lemma init_frame [frame_simps]:
  "mpSlicedStateAtoms (initCurrentSlicedBucket t m) = mpSlicedStateAtoms m"
  "vmParams (initCurrentSlicedBucket t m) = vmParams m"
  "mpCurrentBucketStartTimeNs (initCurrentSlicedBucket t m) = t"
  "mpCurrentBucketNum (initCurrentSlicedBucket t m) = mpCurrentBucketNum m"
  "mpBucketSizeNs (initCurrentSlicedBucket t m) = mpBucketSizeNs m"
  "mpTimeBaseNs (initCurrentSlicedBucket t m) = mpTimeBaseNs m"
  "mpCondition (initCurrentSlicedBucket t m) = mpCondition m"
  "mpActivations (initCurrentSlicedBucket t m) = mpActivations m"
  "vmPastBuckets (initCurrentSlicedBucket t m) = vmPastBuckets m"
  "vmSkippedBuckets (initCurrentSlicedBucket t m) = vmSkippedBuckets m"
  "vmCurrentBaseInfo (initCurrentSlicedBucket t m) = vmCurrentBaseInfo m"
  "\<not> vmCurrentBucketIsSkipped (initCurrentSlicedBucket t m)"
  "vmCurrentSkippedBucket (initCurrentSlicedBucket t m) = emptySkippedBucket"
  "vmCurrentSlicedBucket (initCurrentSlicedBucket t m) =
     map (\<lambda>(k, ivs). (k, map clearInterval ivs)) (filter (\<lambda>(k, ivs). list_ex ivSeenNewData ivs) (vmCurrentSlicedBucket m))"
  by (simp_all add: initCurrentSlicedBucket_def Let_def)

lemma mark_frame [frame_simps]:
  "vmParams (markBeforeFlush t m) = vmParams m"
  "mpCurrentBucketStartTimeNs (markBeforeFlush t m) = mpCurrentBucketStartTimeNs m"
  "mpCurrentBucketNum (markBeforeFlush t m) = mpCurrentBucketNum m"
  "mpBucketSizeNs (markBeforeFlush t m) = mpBucketSizeNs m"
  "mpTimeBaseNs (markBeforeFlush t m) = mpTimeBaseNs m"
  "mpCondition (markBeforeFlush t m) = mpCondition m"
  "mpActivations (markBeforeFlush t m) = mpActivations m"
  "vmCurrentSlicedBucket (markBeforeFlush t m) = vmCurrentSlicedBucket m"
  "vmCurrentBaseInfo (markBeforeFlush t m) = vmCurrentBaseInfo m"
  "mpSlicedStateAtoms (markBeforeFlush t m) = mpSlicedStateAtoms m"
  "vmPastBuckets (markBeforeFlush t m) = vmPastBuckets m"
  "vmSkippedBuckets (markBeforeFlush t m) = vmSkippedBuckets m"
  "vmConditionTimer (markBeforeFlush t m) = vmConditionTimer m"
  by (simp_all add: markBeforeFlush_def Let_def frame_simps invalidateCurrentBucketWithoutResetBase_def)

lemma keep_frame [frame_simps]:
  "vmParams (keepBucket t e d m) = vmParams m"
  "mpCurrentBucketStartTimeNs (keepBucket t e d m) = mpCurrentBucketStartTimeNs m"
  "mpCurrentBucketNum (keepBucket t e d m) = mpCurrentBucketNum m"
  "mpBucketSizeNs (keepBucket t e d m) = mpBucketSizeNs m"
  "mpTimeBaseNs (keepBucket t e d m) = mpTimeBaseNs m"
  "mpCondition (keepBucket t e d m) = mpCondition m"
  "mpActivations (keepBucket t e d m) = mpActivations m"
  "vmCurrentSlicedBucket (keepBucket t e d m) = vmCurrentSlicedBucket m"
  "vmCurrentBaseInfo (keepBucket t e d m) = vmCurrentBaseInfo m"
  "mpSlicedStateAtoms (keepBucket t e d m) = mpSlicedStateAtoms m"
  "vmSkippedBuckets (keepBucket t e d m) = vmSkippedBuckets m"
  "vmConditionTimer (keepBucket t e d m) = vmConditionTimer m"
  by (simp_all add: keepBucket_def Let_def frame_simps split: prod.split)

lemma recordSkipped_frame [frame_simps]:
  "vmParams (recordSkipped e m) = vmParams m"
  "mpCurrentBucketStartTimeNs (recordSkipped e m) = mpCurrentBucketStartTimeNs m"
  "mpCurrentBucketNum (recordSkipped e m) = mpCurrentBucketNum m"
  "mpBucketSizeNs (recordSkipped e m) = mpBucketSizeNs m"
  "mpTimeBaseNs (recordSkipped e m) = mpTimeBaseNs m"
  "mpCondition (recordSkipped e m) = mpCondition m"
  "mpActivations (recordSkipped e m) = mpActivations m"
  "vmCurrentSlicedBucket (recordSkipped e m) = vmCurrentSlicedBucket m"
  "vmCurrentBaseInfo (recordSkipped e m) = vmCurrentBaseInfo m"
  "mpSlicedStateAtoms (recordSkipped e m) = mpSlicedStateAtoms m"
  "vmPastBuckets (recordSkipped e m) = vmPastBuckets m"
  by (simp_all add: recordSkipped_def Let_def)

lemma gap_frame [frame_simps]:
  "vmParams (recordGap t e nb m) = vmParams m"
  "mpCurrentBucketStartTimeNs (recordGap t e nb m) = mpCurrentBucketStartTimeNs m"
  "mpCurrentBucketNum (recordGap t e nb m) = mpCurrentBucketNum m"
  "mpBucketSizeNs (recordGap t e nb m) = mpBucketSizeNs m"
  "mpTimeBaseNs (recordGap t e nb m) = mpTimeBaseNs m"
  "mpCondition (recordGap t e nb m) = mpCondition m"
  "mpActivations (recordGap t e nb m) = mpActivations m"
  "vmCurrentSlicedBucket (recordGap t e nb m) = vmCurrentSlicedBucket m"
  "vmCurrentBaseInfo (recordGap t e nb m) = vmCurrentBaseInfo m"
  "mpSlicedStateAtoms (recordGap t e nb m) = mpSlicedStateAtoms m"
  "vmPastBuckets (recordGap t e nb m) = vmPastBuckets m"
  by (simp_all add: recordGap_def)

lemma calc_cong:
  "mpTimeBaseNs m' = mpTimeBaseNs m \<Longrightarrow> mpCurrentBucketNum m' = mpCurrentBucketNum m \<Longrightarrow> mpBucketSizeNs m' = mpBucketSizeNs m \<Longrightarrow>
     getCurrentBucketEndTimeNs m' = getCurrentBucketEndTimeNs m \<and> calcBucketsForwardCount t m' = calcBucketsForwardCount t m"
  by (simp add: calcBucketsForwardCount_def getCurrentBucketEndTimeNs_def Let_def)

lemma mark_calc [simp]:
  "getCurrentBucketEndTimeNs (markBeforeFlush t m) = getCurrentBucketEndTimeNs m"
  "calcBucketsForwardCount t' (markBeforeFlush t m) = calcBucketsForwardCount t' m"
  using calc_cong[of "markBeforeFlush t m" m] by (simp_all add: frame_simps)

lemma flush_frame [frame_simps]:
  "mpSlicedStateAtoms (value_flushCurrentBucketLocked t nb m) = mpSlicedStateAtoms m"
  "vmParams (value_flushCurrentBucketLocked t nb m) = vmParams m"
  "mpCurrentBucketStartTimeNs (value_flushCurrentBucketLocked t nb m) = nb"
  "mpBucketSizeNs (value_flushCurrentBucketLocked t nb m) = mpBucketSizeNs m"
  "mpTimeBaseNs (value_flushCurrentBucketLocked t nb m) = mpTimeBaseNs m"
  "mpCondition (value_flushCurrentBucketLocked t nb m) = mpCondition m"
  "mpActivations (value_flushCurrentBucketLocked t nb m) = mpActivations m"
  "mpCurrentBucketNum (value_flushCurrentBucketLocked t nb m) = mpCurrentBucketNum m + calcBucketsForwardCount t m"
  "\<not> vmCurrentBucketIsSkipped (value_flushCurrentBucketLocked t nb m)"
  "vmCurrentSkippedBucket (value_flushCurrentBucketLocked t nb m) = emptySkippedBucket"
  "vmCurrentBaseInfo (value_flushCurrentBucketLocked t nb m) = vmCurrentBaseInfo m"
  "vmCurrentSlicedBucket (value_flushCurrentBucketLocked t nb m) =
     map (\<lambda>(k, ivs). (k, map clearInterval ivs)) (filter (\<lambda>(k, ivs). list_ex ivSeenNewData ivs) (vmCurrentSlicedBucket m))"
  by (simp_all add: value_flushCurrentBucketLocked_def Let_def frame_simps split: prod.split)

section \<open>Tiling\<close>

text \<open>Adjacent intervals from \<open>s\<close> to \<open>e\<close>, each marked with whether it was reported.\<close>

fun contiguous :: "ns \<Rightarrow> (ns \<times> ns \<times> bool) list \<Rightarrow> ns \<Rightarrow> bool" where
  "contiguous s [] e = (s = e)"
| "contiguous s ((a, b, _) # is) e = (a = s \<and> a \<le> b \<and> contiguous b is e)"

lemma contiguous_append: "contiguous s (xs @ ys) e \<longleftrightarrow> (\<exists>x. contiguous s xs x \<and> contiguous x ys e)"
  by (induction s xs e rule: contiguous.induct) auto

definition skippedIn :: "(ns \<times> ns \<times> bool) list \<Rightarrow> (ns \<times> ns) list" where
  "skippedIn is = map (\<lambda>(a, b, _). (a, b)) (filter (\<lambda>(_, _, r). \<not> r) is)"

definition reportedIn :: "(ns \<times> ns \<times> bool) list \<Rightarrow> (ns \<times> ns) set" where
  "reportedIn is = {(a, b). (a, b, True) \<in> set is}"

definition pastIntervals :: "(metric_key, value_bucket list) umap \<Rightarrow> (ns \<times> ns) set" where
  "pastIntervals pb = {(vbBucketStartNs b, vbBucketEndNs b) | b k bs. (k, bs) \<in> set pb \<and> b \<in> set bs}"

definition skippedIntervals :: "skipped_bucket list \<Rightarrow> (ns \<times> ns) list" where
  "skippedIntervals sk = map (\<lambda>b. (skBucketStartTimeNs b, skBucketEndTimeNs b)) sk"

text \<open>The content of a report accounts for the time from \<open>s\<close> to \<open>e\<close>: its skipped buckets and the times of its reported
  buckets are together a list of adjacent intervals, and every skipped bucket gives one to ten reasons.\<close>

definition accounts :: "ns \<Rightarrow> value_report \<Rightarrow> ns \<Rightarrow> bool" where
  "accounts s r e \<longleftrightarrow>
     (\<exists>is. contiguous s is e \<and> skippedIntervals (fst r) = skippedIn is \<and> pastIntervals (snd r) = reportedIn is) \<and>
     (\<forall>b \<in> set (fst r). skDropEvents b \<noteq> [] \<and> length (skDropEvents b) \<le> kMaxLoggedBucketDropEvents)"

definition contentOf :: "value_metric \<Rightarrow> value_report" where
  "contentOf m = (vmSkippedBuckets m, vmPastBuckets m)"

definition value_tiles :: "ns \<Rightarrow> value_metric \<Rightarrow> bool" where
  "value_tiles s m \<longleftrightarrow> bucket_times_ok m \<and> accounts s (contentOf m) (mpCurrentBucketStartTimeNs m) \<and>
     (vmCurrentBucketIsSkipped m \<longleftrightarrow> skDropEvents (vmCurrentSkippedBucket m) \<noteq> []) \<and>
     length (skDropEvents (vmCurrentSkippedBucket m)) \<le> kMaxLoggedBucketDropEvents"

lemma skippedIn_append: "skippedIn (xs @ ys) = skippedIn xs @ skippedIn ys"
  by (simp add: skippedIn_def)

lemma reportedIn_append: "reportedIn (xs @ ys) = reportedIn xs \<union> reportedIn ys"
  by (auto simp: reportedIn_def)

lemma pastIntervals_append: "pastIntervals (xs @ ys) = pastIntervals xs \<union> pastIntervals ys"
  by (auto simp: pastIntervals_def)

lemma accounts_Nil: "accounts s ([], []) s"
  by (auto simp: accounts_def skippedIntervals_def pastIntervals_def skippedIn_def reportedIn_def intro!: exI[of _ "[]"])

lemma accounts_append:
  assumes "accounts s r x" "accounts x q e"
  shows "accounts s (fst r @ fst q, snd r @ snd q) e"
proof -
  obtain is1 is2 where "contiguous s is1 x" "skippedIntervals (fst r) = skippedIn is1" "pastIntervals (snd r) = reportedIn is1"
    "contiguous x is2 e" "skippedIntervals (fst q) = skippedIn is2" "pastIntervals (snd q) = reportedIn is2"
    using assms by (auto simp: accounts_def)
  then show ?thesis using assms
    by (auto simp: accounts_def contiguous_append skippedIn_append reportedIn_append pastIntervals_append skippedIntervals_def
      intro!: exI[of _ "is1 @ is2"])
qed

text \<open>Adding one interval, skipped or reported, and the gap after it.\<close>

lemma accounts_skip:
  assumes "accounts s (sk, pb) a" "a \<le> e" "skBucketStartTimeNs b = a" "skBucketEndTimeNs b = e"
    "skDropEvents b \<noteq> []" "length (skDropEvents b) \<le> kMaxLoggedBucketDropEvents"
  shows "accounts s (sk @ [b], pb) e"
proof -
  have "accounts a ([b], []) e" using assms(2-)
    by (auto simp: accounts_def skippedIntervals_def pastIntervals_def skippedIn_def reportedIn_def intro!: exI[of _ "[(a, e, False)]"])
  from accounts_append[OF assms(1) this] show ?thesis by simp
qed

lemma accounts_report:
  assumes "accounts s (sk, pb) a" "a \<le> e" "pastIntervals pb' = insert (a, e) (pastIntervals pb)"
  shows "accounts s (sk, pb') e"
proof -
  obtain "is" where i: "contiguous s is a" "skippedIntervals sk = skippedIn is" "pastIntervals pb = reportedIn is"
    using assms(1) by (auto simp: accounts_def)
  then show ?thesis using assms
    by (auto simp: accounts_def contiguous_append skippedIn_def reportedIn_append intro!: exI[of _ "is @ [(a, e, True)]"])
      (auto simp: reportedIn_def)
qed

lemma pastIntervals_Cons: "pastIntervals ((k, bs) # pb) = (\<lambda>b. (vbBucketStartNs b, vbBucketEndNs b)) ` set bs \<union> pastIntervals pb"
  by (auto simp: pastIntervals_def)

lemma pastIntervals_push: "pastIntervals (pushBucket k b pb) = insert (vbBucketStartNs b, vbBucketEndNs b) (pastIntervals pb)"
  unfolding pushBucket_def
proof (induction pb)
  case (Cons x pb)
  then show ?case by (cases x) (auto simp: pastIntervals_Cons split: option.split if_splits)
qed (simp add: pastIntervals_Cons)

lemma pushPartial_intervals:
  assumes "pushPartialBuckets e d m = (past, hasData)"
  shows "pastIntervals past = (if hasData then insert (mpCurrentBucketStartTimeNs m, e) (pastIntervals (vmPastBuckets m)) else pastIntervals (vmPastBuckets m))"
    "\<not> hasData \<Longrightarrow> past = vmPastBuckets m"
proof -
  let ?f = "\<lambda>(past, bucketHasData) (k, ivs).
        let b = (buildPartialBucket e ivs m)\<lparr>vbConditionTrueNs := d\<rparr>
        in if length (vbValueIndex b) > 0 then (pushBucket k b past, True) else (past, bucketHasData)"
  have "(pastIntervals (fst (foldl ?f (p, h) xs)) = (if snd (foldl ?f (p, h) xs)
      then insert (mpCurrentBucketStartTimeNs m, e) (pastIntervals p0) else pastIntervals p0)) \<and>
      (\<not> snd (foldl ?f (p, h) xs) \<longrightarrow> fst (foldl ?f (p, h) xs) = p0)"
    if "pastIntervals p = (if h then insert (mpCurrentBucketStartTimeNs m, e) (pastIntervals p0) else pastIntervals p0)" "\<not> h \<longrightarrow> p = p0"
    for p h p0 xs
    using that
  proof (induction xs arbitrary: p h)
    case (Cons x xs)
    obtain k ivs where x: "x = (k, ivs)" by fastforce
    show ?case
      using Cons.IH[of "pushBucket k ((buildPartialBucket e ivs m)\<lparr>vbConditionTrueNs := d\<rparr>) p" True] Cons.IH[of p h] Cons.prems
      by (simp add: x pastIntervals_push buildPartialBucket_def Let_def)
  qed simp
  from this[of "vmPastBuckets m" False "vmPastBuckets m" "vmCurrentSlicedBucket m"] assms
  show "pastIntervals past = (if hasData then insert (mpCurrentBucketStartTimeNs m, e) (pastIntervals (vmPastBuckets m)) else pastIntervals (vmPastBuckets m))"
    "\<not> hasData \<Longrightarrow> past = vmPastBuckets m"
    by (auto simp: pushPartialBuckets_def)
qed

definition drops_ok :: "value_metric \<Rightarrow> bool" where
  "drops_ok m \<longleftrightarrow> (vmCurrentBucketIsSkipped m \<longleftrightarrow> skDropEvents (vmCurrentSkippedBucket m) \<noteq> []) \<and>
     length (skDropEvents (vmCurrentSkippedBucket m)) \<le> kMaxLoggedBucketDropEvents"

lemma drops_ok_skip: "drops_ok m \<Longrightarrow> drops_ok (skipCurrentBucket t r m)"
  by (simp add: drops_ok_def skipCurrentBucket_def addDropEvent_events)

lemma drops_ok_mark: "drops_ok m \<Longrightarrow> drops_ok (markBeforeFlush t m)"
  by (simp add: markBeforeFlush_def Let_def invalidateCurrentBucketWithoutResetBase_def drops_ok_skip)

text \<open>Closing a bucket adds its interval to the account.\<close>

lemma keep_accounts:
  assumes "accounts s (contentOf m) a" "a = mpCurrentBucketStartTimeNs m" "a \<le> e" "drops_ok m"
  shows "accounts s (contentOf (recordSkipped e (keepBucket t e d m))) e"
proof -
  have skip: "accounts s (contentOf (recordSkipped e n)) e"
    if "contentOf n = contentOf m" "mpCurrentBucketStartTimeNs n = a" "drops_ok n" "vmCurrentBucketIsSkipped n" for n
    using that assms(1,3) by (auto simp: recordSkipped_def contentOf_def Let_def drops_ok_def intro!: accounts_skip[of s _ _ a e])
  define n where "n = (if e - mpCurrentBucketStartTimeNs m \<ge> vpMinBucketSizeNs (vmParams m) then m else skipCurrentBucket t BUCKET_TOO_SMALL m)"
  have n: "contentOf n = contentOf m" "mpCurrentBucketStartTimeNs n = a" "drops_ok n"
    using assms(2,4) by (auto simp: n_def contentOf_def frame_simps drops_ok_skip)
  obtain past h where p: "pushPartialBuckets e d n = (past, h)" by fastforce
  note pi = pushPartial_intervals[OF p]
  have k: "keepBucket t e d m = (if vmCurrentBucketIsSkipped n then n
      else if h then n\<lparr>vmPastBuckets := past\<rparr> else skipCurrentBucket t NO_DATA (n\<lparr>vmPastBuckets := past\<rparr>))"
    by (simp add: keepBucket_def Let_def n_def[symmetric] p)
  consider "vmCurrentBucketIsSkipped n" | "\<not> vmCurrentBucketIsSkipped n" h | "\<not> vmCurrentBucketIsSkipped n" "\<not> h" by blast
  then show ?thesis
  proof cases
    case 1
    then show ?thesis using skip[OF n] by (simp add: k)
  next
    case 2
    then show ?thesis using assms(1,3) n(1,2) pi(1)
      by (auto simp: k recordSkipped_def contentOf_def intro!: accounts_report[of s _ "vmPastBuckets m" a e])
  next
    case 3
    then have "n\<lparr>vmPastBuckets := past\<rparr> = n" using pi(2) by simp
    then show ?thesis using 3 skip[of "skipCurrentBucket t NO_DATA n"] n
      by (simp add: k drops_ok_skip frame_simps contentOf_def)
  qed
qed

text \<open>The next start a flush may be given: inside the aligned bucket of the event, and the time of the event itself
  while that is still in the current one.\<close>

definition next_ok :: "ns \<Rightarrow> ns \<Rightarrow> value_metric \<Rightarrow> bool" where
  "next_ok t nb m \<longleftrightarrow> mpCurrentBucketStartTimeNs m \<le> nb \<and> nb \<le> t \<and>
     mpTimeBaseNs m + (mpCurrentBucketNum m + calcBucketsForwardCount t m) * mpBucketSizeNs m \<le> nb \<and>
     (t < getCurrentBucketEndTimeNs m \<longrightarrow> nb = t)"

lemma calc_bounds:
  assumes "bucket_times_ok m"
  shows "t < getCurrentBucketEndTimeNs m \<Longrightarrow> calcBucketsForwardCount t m = 0"
    "getCurrentBucketEndTimeNs m \<le> t \<Longrightarrow> 1 \<le> calcBucketsForwardCount t m"
    "getCurrentBucketEndTimeNs m \<le> t \<Longrightarrow> getCurrentBucketEndTimeNs m + (calcBucketsForwardCount t m - 1) * mpBucketSizeNs m \<le> t"
    "t < mpTimeBaseNs m + (mpCurrentBucketNum m + calcBucketsForwardCount t m + 1) * mpBucketSizeNs m"
proof -
  let ?e = "getCurrentBucketEndTimeNs m" and ?s = "mpBucketSizeNs m"
  have s: "0 < ?s" using assms by (simp add: bucket_times_ok_def)
  have n: "calcBucketsForwardCount t m = 1 + (t - ?e) div ?s" if "?e \<le> t" using that by (simp add: calcBucketsForwardCount_def Let_def)
  show z: "t < ?e \<Longrightarrow> calcBucketsForwardCount t m = 0" by (simp add: calcBucketsForwardCount_def Let_def)
  show "?e \<le> t \<Longrightarrow> 1 \<le> calcBucketsForwardCount t m" "?e \<le> t \<Longrightarrow> ?e + (calcBucketsForwardCount t m - 1) * ?s \<le> t"
    using next_bucket_bounds[OF s, of ?e t] n by simp_all
  show "t < mpTimeBaseNs m + (mpCurrentBucketNum m + calcBucketsForwardCount t m + 1) * ?s"
    using next_bucket_bounds(3)[OF s, of ?e t] n z
    by (cases "t < ?e") (simp_all add: getCurrentBucketEndTimeNs_def algebra_simps)
qed

lemma next_ok_forced: "bucket_times_ok m \<Longrightarrow> mpCurrentBucketStartTimeNs m \<le> t \<Longrightarrow> next_ok t t m"
  using calc_bounds[of m t] unfolding next_ok_def bucket_times_ok_def
  by (cases "t < getCurrentBucketEndTimeNs m") (auto simp: getCurrentBucketEndTimeNs_def algebra_simps)

lemma next_ok_aligned:
  assumes "bucket_times_ok m" "getCurrentBucketEndTimeNs m \<le> t"
  shows "next_ok t (getCurrentBucketEndTimeNs m + (calcBucketsForwardCount t m - 1) * mpBucketSizeNs m) m"
proof -
  have "0 \<le> (calcBucketsForwardCount t m - 1) * mpBucketSizeNs m"
    using calc_bounds(2)[OF assms] assms(1) by (simp add: bucket_times_ok_def)
  then show ?thesis using calc_bounds(3)[OF assms] assms
    by (auto simp: next_ok_def bucket_times_ok_def) (auto simp: getCurrentBucketEndTimeNs_def algebra_simps)
qed

lemma flush_times_ok: "bucket_times_ok m \<Longrightarrow> next_ok t nb m \<Longrightarrow> bucket_times_ok (value_flushCurrentBucketLocked t nb m)"
  using calc_bounds(4)[of m t] by (auto simp: bucket_times_ok_def next_ok_def frame_simps getCurrentBucketEndTimeNs_def)

lemma endTime_bounds:
  assumes "bucket_times_ok m" "next_ok t nb m"
  shows "mpCurrentBucketStartTimeNs m \<le> bucketEndTimeFor t nb m" "bucketEndTimeFor t nb m \<le> nb"
proof -
  have "getCurrentBucketEndTimeNs m \<le> nb" if "getCurrentBucketEndTimeNs m \<le> t"
  proof -
    have "1 * mpBucketSizeNs m \<le> calcBucketsForwardCount t m * mpBucketSizeNs m"
      using calc_bounds(2)[OF assms(1) that] assms(1) by (intro mult_right_mono) (auto simp: bucket_times_ok_def)
    then show ?thesis using assms(2) by (simp add: next_ok_def getCurrentBucketEndTimeNs_def algebra_simps)
  qed
  then show "mpCurrentBucketStartTimeNs m \<le> bucketEndTimeFor t nb m" "bucketEndTimeFor t nb m \<le> nb"
    using assms by (auto simp: bucketEndTimeFor_def next_ok_def bucket_times_ok_def)
qed

lemma flush_content:
  "\<exists>d timer. contentOf (value_flushCurrentBucketLocked t nb m) =
     contentOf (recordGap t (bucketEndTimeFor t nb m) nb (recordSkipped (bucketEndTimeFor t nb m)
       (keepBucket t (bucketEndTimeFor t nb m) d ((markBeforeFlush t m)\<lparr>vmConditionTimer := timer\<rparr>))))"
  unfolding value_flushCurrentBucketLocked_def Let_def contentOf_def
  by (auto simp: frame_simps bucketEndTimeFor_def multipleBucketsSkipped_def split: prod.split)

lemma accounts_gap:
  assumes "accounts s (contentOf m) e" "e \<le> nb"
  shows "accounts s (contentOf (recordGap t e nb m)) nb"
  using assms by (cases "e = nb")
    (auto simp: recordGap_def contentOf_def buildDropEvent_def kMaxLoggedBucketDropEvents_def intro!: accounts_skip[of s _ _ e])

lemma flush_tiles:
  assumes "value_tiles s m" "next_ok t nb m"
  shows "value_tiles s (value_flushCurrentBucketLocked t nb m)"
proof -
  have b: "bucket_times_ok m" and acc: "accounts s (contentOf m) (mpCurrentBucketStartTimeNs m)" and d: "drops_ok m"
    using assms(1) by (auto simp: value_tiles_def drops_ok_def)
  obtain d timer where c: "contentOf (value_flushCurrentBucketLocked t nb m) =
     contentOf (recordGap t (bucketEndTimeFor t nb m) nb (recordSkipped (bucketEndTimeFor t nb m)
       (keepBucket t (bucketEndTimeFor t nb m) d ((markBeforeFlush t m)\<lparr>vmConditionTimer := timer\<rparr>))))"
    using flush_content by blast
  note e = endTime_bounds[OF b assms(2)]
  have "accounts s (contentOf (value_flushCurrentBucketLocked t nb m)) nb"
    unfolding c using acc drops_ok_mark[OF d, of t]
    by (intro accounts_gap[OF keep_accounts e(2)]) (auto simp: contentOf_def frame_simps drops_ok_def intro: e(1))
  then show ?thesis using flush_times_ok[OF b assms(2)] by (simp add: value_tiles_def frame_simps)
qed

section \<open>What the handlers keep\<close>

text \<open>A pull leaves the clock, the condition and the activations of a pulled metric alone.\<close>

definition same_clock :: "value_metric \<Rightarrow> value_metric \<Rightarrow> bool" where
  "same_clock m' m \<longleftrightarrow> vmParams m' = vmParams m \<and> mpCurrentBucketStartTimeNs m' = mpCurrentBucketStartTimeNs m \<and>
     mpCurrentBucketNum m' = mpCurrentBucketNum m \<and> mpBucketSizeNs m' = mpBucketSizeNs m \<and> mpTimeBaseNs m' = mpTimeBaseNs m \<and>
     mpCondition m' = mpCondition m \<and> mpActivations m' = mpActivations m"

lemma same_clock_refl [simp]: "same_clock m m"
  by (simp add: same_clock_def)

lemma same_clock_trans: "same_clock m2 m1 \<Longrightarrow> same_clock m1 m \<Longrightarrow> same_clock m2 m"
  by (simp add: same_clock_def)

lemma same_clock_invalidate: "same_clock (invalidateCurrentBucket t r m) m"
  by (simp add: same_clock_def invalidateCurrentBucket_def invalidateCurrentBucketWithoutResetBase_def resetBase_def frame_simps)

lemma same_clock_record: "same_clock (value_recordEvent me vals m) m"
  by (simp add: same_clock_def value_recordEvent_def Let_def split: prod.split)

lemma same_clock_internal:
  "vpIsPulled (vmParams m) \<Longrightarrow> same_clock (value_onMatchedLogEventInternalLocked me vals m) m"
  unfolding value_onMatchedLogEventInternalLocked_def Let_def
  using same_clock_trans[OF same_clock_record, of _ m me vals]
  by (auto simp: same_clock_def split: prod.split)

lemma same_clock_event: "vpIsPulled (vmParams m) \<Longrightarrow> same_clock (value_onMatchedLogEvent env ev m) m"
  by (auto simp: value_onMatchedLogEvent_def same_clock_internal split: option.split)

lemma same_clock_matchPulled: "vpIsPulled (vmParams m) \<Longrightarrow> same_clock (matchPulled env t evs m) m"
proof (induction evs arbitrary: m)
  case (Cons ev evs)
  let ?m = "if matchLogEvent env (log_event.truncate ev) (vpWhatMatcherIndex (vmParams m)) = kMatched
     then value_onMatchedLogEvent env (ev\<lparr>elapsedTimestampNs := t\<rparr>) m else m"
  have "same_clock ?m m" using Cons.prems by (simp add: same_clock_event)
  moreover from this have "same_clock (matchPulled env t evs ?m) ?m" using Cons.IH[of ?m] Cons.prems by (simp add: same_clock_def)
  moreover have "matchPulled env t (ev # evs) m = matchPulled env t evs ?m" by (simp add: matchPulled_def)
  ultimately show ?case using same_clock_trans by metis
qed (simp add: matchPulled_def)

lemma same_clock_accumulate: "vpIsPulled (vmParams m) \<Longrightarrow> same_clock (accumulateEvents env evs t0 t m) m"
  using same_clock_matchPulled[of "m\<lparr>vmMatchedMetricDimensionKeys := []\<rparr>" env t evs]
  by (simp add: accumulateEvents_def Let_def same_clock_invalidate)
    (simp add: same_clock_def resetMissingBases_def invalidateCurrentBucket_def invalidateCurrentBucketWithoutResetBase_def resetBase_def frame_simps)

lemma same_clock_pull: "vpIsPulled (vmParams m) \<Longrightarrow> same_clock (value_pullAndMatchEventsLocked env t m) m"
  by (simp add: value_pullAndMatchEventsLocked_def same_clock_invalidate same_clock_accumulate split: option.split)

text \<open>Everything that changes a value metric, with the answers it got from outside.\<close>

datatype value_input =
    VEvent state_event
  | VDataPulled "state_event list" bool ns
  | VConditionChanged bool ns
  | VSlicedConditionMayChange bool ns
  | VStateChanged ns i32 dim_key field_value field_value
  | VFlushIfExpire ns
  | VActivate int ns
  | VCancelActivation int
  | VLoadActiveMetric "active_event_activation list" ns
  | VAppUpgrade ns
  | VInitCompleted ns
  | VPrepareFirstBucket
  | VDump ns bool bool dump_latency
  | VDropData ns
  | VClearPastBuckets

text \<open>The handler up to the erasure of the report, and whether it erases.\<close>

fun value_handle :: "'l pull_env \<Rightarrow> value_input \<Rightarrow> value_metric \<Rightarrow> value_metric" where
  "value_handle env (VEvent ev) m = value_onMatchedLogEvent env ev m"
| "value_handle env (VDataPulled evs ok t) m = (if vpIsPulled (vmParams m) then value_onDataPulled env evs ok t m else m)"
| "value_handle env (VConditionChanged c t) m = value_onConditionChangedLocked env c t m"
| "value_handle env (VSlicedConditionMayChange c t) m = value_onSlicedConditionMayChangeLocked c t m"
| "value_handle env (VStateChanged t a k v w) m = value_onStateChanged env t a k v w m"
| "value_handle env (VFlushIfExpire t) m = value_flushIfExpire env t m"
| "value_handle env (VActivate i t) m = value_activateLocked env i t m"
| "value_handle env (VCancelActivation i) m = m\<lparr>mpActivations := cancelEventActivationLocked i (mpActivations m)\<rparr>"
| "value_handle env (VLoadActiveMetric as t) m = m\<lparr>mpActivations := loadActiveMetricLocked as t (mpActivations m)\<rparr>"
| "value_handle env (VAppUpgrade t) m = value_notifyAppUpgrade env t m"
| "value_handle env (VInitCompleted t) m = value_onStatsdInitCompleted env t m"
| "value_handle env VPrepareFirstBucket m = value_prepareFirstBucketLocked env m"
| "value_handle env (VDump t incl erase lat) m = (if incl then value_flushForDump env t lat m else m)"
| "value_handle env (VDropData t) m = value_flushIfNeededLocked t m"
| "value_handle env VClearPastBuckets m = m"

fun erases :: "value_input \<Rightarrow> bool" where
  "erases (VDump t incl erase lat) = erase"
| "erases (VDropData t) = True"
| "erases VClearPastBuckets = True"
| "erases _ = False"

text \<open>One input; the second result is what is erased. A registered receiver is a pulled metric.\<close>

fun value_step :: "'l pull_env \<times> value_input \<Rightarrow> value_metric \<Rightarrow> value_metric \<times> value_report" where
  "value_step (env, i) m =
     (case i of
        VDump t incl erase lat \<Rightarrow> (case value_onDumpReportLocked env t incl erase lat m of (m', r) \<Rightarrow> (m', if erase then r else ([], [])))
      | VDropData t \<Rightarrow> (value_dropDataLocked t m, contentOf (value_flushIfNeededLocked t m))
      | VClearPastBuckets \<Rightarrow> (value_clearPastBucketsLocked m, contentOf m)
      | _ \<Rightarrow> (value_handle env i m, ([], [])))"

text \<open>Requests that cut the current bucket come in the order of time.\<close>

fun input_in_time :: "value_input \<Rightarrow> value_metric \<Rightarrow> bool" where
  "input_in_time (VFlushIfExpire t) m = (mpCurrentBucketStartTimeNs m \<le> t)"
| "input_in_time (VAppUpgrade t) m = (mpCurrentBucketStartTimeNs m \<le> t)"
| "input_in_time (VInitCompleted t) m = (mpCurrentBucketStartTimeNs m \<le> t)"
| "input_in_time (VDump t incl erase lat) m = (incl \<longrightarrow> mpCurrentBucketStartTimeNs m \<le> t)"
| "input_in_time _ m = True"

fun value_run :: "('l pull_env \<times> value_input) list \<Rightarrow> value_metric \<Rightarrow> value_metric \<times> value_report" where
  "value_run [] m = (m, ([], []))"
| "value_run (x # xs) m =
     (case value_step x m of (m1, r) \<Rightarrow> case value_run xs m1 of (m2, q) \<Rightarrow> (m2, (fst r @ fst q, snd r @ snd q)))"

fun run_in_time :: "('l pull_env \<times> value_input) list \<Rightarrow> value_metric \<Rightarrow> bool" where
  "run_in_time [] m = True"
| "run_in_time (x # xs) m = (input_in_time (snd x) m \<and> run_in_time xs (fst (value_step x m)))"

lemma step_erase:
  "value_step (env, i) m = (let m' = value_handle env i m
     in if erases i then (m'\<lparr>vmPastBuckets := [], vmSkippedBuckets := []\<rparr>, contentOf m') else (m', ([], [])))"
  by (cases i) (auto simp: value_onDumpReportLocked_def value_dropDataLocked_def value_clearPastBucketsLocked_def contentOf_def Let_def)

locale value_keeps =
  fixes I :: "value_metric \<Rightarrow> bool"
  assumes times: "I m \<Longrightarrow> bucket_times_ok m"
    and skips: "I m \<Longrightarrow> I (skipCurrentBucket t r m)"
    and control: "I m \<Longrightarrow> I (m\<lparr>mpCondition := c, mpActivations := a, vmConditionTimer := timer, vmHasGlobalBase := g,
          vmStateChangePrimaryKey := k, vmMatchedMetricDimensionKeys := ks\<rparr>)"
    and rebases: "I m \<Longrightarrow> I (m\<lparr>vmCurrentBaseInfo := map (\<lambda>(w, bis). (w, if P w then map (\<lambda>bi. bi\<lparr>biHasBase := False\<rparr>) bis else bis))
          (vmCurrentBaseInfo m)\<rparr>)"
    and records: "I m \<Longrightarrow> \<not> value_hitGuardRailLocked (meKey me) m \<Longrightarrow> I (value_recordEvent me vals m)"
    and empties: "I m \<Longrightarrow> I (m\<lparr>vmCurrentSlicedBucket := []\<rparr>)"
    and flushes: "I m \<Longrightarrow> next_ok t nb m \<Longrightarrow> I (value_flushCurrentBucketLocked t nb m)"
begin

lemma conditions: "I m \<Longrightarrow> I (m\<lparr>mpCondition := c\<rparr>)"
  using control[where m = m and c = c and a = "mpActivations m" and timer = "vmConditionTimer m" and g = "vmHasGlobalBase m" and k = "vmStateChangePrimaryKey m" and ks = "vmMatchedMetricDimensionKeys m"] by simp

lemma activations: "I m \<Longrightarrow> I (m\<lparr>mpActivations := a\<rparr>)"
  using control[where m = m and c = "mpCondition m" and a = a and timer = "vmConditionTimer m" and g = "vmHasGlobalBase m" and k = "vmStateChangePrimaryKey m" and ks = "vmMatchedMetricDimensionKeys m"] by simp

lemma timers: "I m \<Longrightarrow> I (m\<lparr>vmConditionTimer := timer\<rparr>)"
  using control[where m = m and c = "mpCondition m" and a = "mpActivations m" and timer = timer and g = "vmHasGlobalBase m" and k = "vmStateChangePrimaryKey m" and ks = "vmMatchedMetricDimensionKeys m"] by simp

lemma state_keys: "I m \<Longrightarrow> I (m\<lparr>vmStateChangePrimaryKey := k\<rparr>)"
  using control[where m = m and c = "mpCondition m" and a = "mpActivations m" and timer = "vmConditionTimer m" and g = "vmHasGlobalBase m" and k = k and ks = "vmMatchedMetricDimensionKeys m"] by simp

lemma matched_keys: "I m \<Longrightarrow> I (m\<lparr>vmMatchedMetricDimensionKeys := ks\<rparr>)"
  using control[where m = m and c = "mpCondition m" and a = "mpActivations m" and timer = "vmConditionTimer m" and g = "vmHasGlobalBase m" and k = "vmStateChangePrimaryKey m" and ks = ks] by simp

lemma global_bases: "I m \<Longrightarrow> I (m\<lparr>vmHasGlobalBase := g\<rparr>)"
  using control[where m = m and c = "mpCondition m" and a = "mpActivations m" and timer = "vmConditionTimer m" and g = g and k = "vmStateChangePrimaryKey m" and ks = "vmMatchedMetricDimensionKeys m"] by simp

lemma resets: "I m \<Longrightarrow> I (resetBase m)"
  using global_bases[OF rebases[of m "\<lambda>_. True"], of False] by (simp add: resetBase_def)

lemma invalidates: "I m \<Longrightarrow> I (invalidateCurrentBucket t r m)"
  by (simp add: invalidateCurrentBucket_def invalidateCurrentBucketWithoutResetBase_def resets skips)

lemma flushIfNeeded: "I m \<Longrightarrow> I (value_flushIfNeededLocked t m)"
  using flushes[OF _ next_ok_aligned[OF times]] by (simp add: value_flushIfNeededLocked_def Let_def)

lemma flush_forced: "I m \<Longrightarrow> mpCurrentBucketStartTimeNs m \<le> t \<Longrightarrow> I (value_flushCurrentBucketLocked t t m)"
  by (intro flushes next_ok_forced times)

lemma flushIfNeeded_start: "I m \<Longrightarrow> mpCurrentBucketStartTimeNs m \<le> t \<Longrightarrow> mpCurrentBucketStartTimeNs (value_flushIfNeededLocked t m) \<le> t"
  using next_ok_aligned[OF times, of m t] by (simp add: value_flushIfNeededLocked_def Let_def frame_simps next_ok_def)

lemma flushLocked: "I m \<Longrightarrow> mpCurrentBucketStartTimeNs m \<le> t \<Longrightarrow> I (value_flushLocked t m)"
  by (simp add: value_flushLocked_def flush_forced flushIfNeeded flushIfNeeded_start)

lemma event_internal: "I m \<Longrightarrow> I (value_onMatchedLogEventInternalLocked me vals m)"
  unfolding value_onMatchedLogEventInternalLocked_def Let_def
  by (auto simp: matched_keys flushIfNeeded records split: prod.split)

lemma event: "I m \<Longrightarrow> I (value_onMatchedLogEvent env ev m)"
  by (auto simp: value_onMatchedLogEvent_def event_internal split: option.split)

lemma pulled_events: "I m \<Longrightarrow> I (matchPulled env t evs m)"
  unfolding matchPulled_def by (induction evs arbitrary: m) (auto simp: event)

lemma missing_bases: "I m \<Longrightarrow> I (resetMissingBases m)"
proof -
  let ?f = "\<lambda>bases (k, _). let whatKey = mDimensionKeyInWhat k
          in if whatKey \<notin> set (vmMatchedMetricDimensionKeys m) \<and> dim_contains whatKey (snd (vmStateChangePrimaryKey m))
             then map (\<lambda>(w, bis). (w, if w = whatKey then map (\<lambda>bi. bi\<lparr>biHasBase := False\<rparr>) bis else bis)) bases
             else bases"
  have "I (m\<lparr>vmCurrentBaseInfo := foldl ?f bases xs\<rparr>)" if "I (m\<lparr>vmCurrentBaseInfo := bases\<rparr>)" for bases xs
    using that
  proof (induction xs arbitrary: bases)
    case (Cons x xs)
    have "I (m\<lparr>vmCurrentBaseInfo := ?f bases x\<rparr>)"
      using Cons.prems rebases[OF Cons.prems, of "\<lambda>w. w = mDimensionKeyInWhat (fst x)"] by (cases x) (simp add: Let_def)
    then show ?case using Cons.IH by simp
  qed simp
  from this[of "vmCurrentBaseInfo m" "vmCurrentSlicedBucket m"] show "I m \<Longrightarrow> I (resetMissingBases m)" by (simp add: resetMissingBases_def)
qed

lemma accumulates: "I m \<Longrightarrow> I (accumulateEvents env evs t0 t m)"
  by (simp add: accumulateEvents_def Let_def invalidates empties global_bases matched_keys missing_bases pulled_events)

lemma pulls: "I m \<Longrightarrow> I (value_pullAndMatchEventsLocked env t m)"
  by (auto simp: value_pullAndMatchEventsLocked_def invalidates accumulates split: option.split)

lemma pulls_start:
  "vpIsPulled (vmParams m) \<Longrightarrow> mpCurrentBucketStartTimeNs (value_pullAndMatchEventsLocked env t m) = mpCurrentBucketStartTimeNs m"
  using same_clock_pull by (auto simp: same_clock_def)

lemma pulled_flush: "I m \<Longrightarrow> mpCurrentBucketStartTimeNs m \<le> t \<Longrightarrow>
    I (value_flushCurrentBucketLocked t t (if vpIsPulled (vmParams m) \<and> P then value_pullAndMatchEventsLocked env t m else m))"
  by (auto simp: pulls_start intro!: flush_forced pulls)

lemma data_pulled: "I m \<Longrightarrow> I (value_onDataPulled env evs ok t m)"
  by (simp add: value_onDataPulled_def flushIfNeeded invalidates accumulates)

lemma prepares: "I m \<Longrightarrow> I (value_prepareFirstBucketLocked env m)"
  by (simp add: value_prepareFirstBucketLocked_def pulls)

lemma condition_changed: "I m \<Longrightarrow> I (value_onConditionChangedLocked env c t m)"
  unfolding value_onConditionChangedLocked_def Let_def
  by (simp add: conditions timers invalidates flushIfNeeded resets pulls)

lemma state_changed: "I m \<Longrightarrow> I (value_onStateChanged env t a k v w m)"
  unfolding value_onStateChanged_def Let_def
  by (simp add: invalidates state_keys pulls flushIfNeeded)

lemma active_pull: "I m \<Longrightarrow> I (pullOnActiveStateChange env late t m)"
  unfolding pullOnActiveStateChange_def Let_def by (simp add: timers flushIfNeeded resets pulls)

lemma active_changed:
  assumes "I m" "\<not> mIsActive (mpActivations m) \<longrightarrow> mpCurrentBucketStartTimeNs m \<le> t"
  shows "I (value_onActiveStateChangedLocked env t m)"
proof -
  let ?m = "if t < mpCurrentBucketStartTimeNs m then invalidateCurrentBucket t EVENT_IN_WRONG_BUCKET m else m"
  have "I ?m" using assms(1) by (simp add: invalidates)
  moreover have "mIsActive (mpActivations ?m) = mIsActive (mpActivations m)" "mpCurrentBucketStartTimeNs ?m = mpCurrentBucketStartTimeNs m"
    using same_clock_invalidate[of t EVENT_IN_WRONG_BUCKET m] by (auto simp: same_clock_def)
  ultimately have "I (if mIsActive (mpActivations ?m) then ?m else value_flushLocked t ?m)"
    using assms(2) by (simp add: flushLocked)
  then show ?thesis unfolding value_onActiveStateChangedLocked_def Let_def by (rule active_pull)
qed

lemma expires: "I m \<Longrightarrow> mpCurrentBucketStartTimeNs m \<le> t \<Longrightarrow> I (value_flushIfExpire env t m)"
  by (auto simp: value_flushIfExpire_def Let_def activations intro!: active_changed split: prod.split)

lemma activates: "I m \<Longrightarrow> I (value_activateLocked env i t m)"
proof -
  assume m: "I m"
  obtain a changed where a: "activateLocked i t (mpActivations m) = (a, changed)" by fastforce
  have "changed \<Longrightarrow> mIsActive a"
    using a by (auto simp: activateLocked_def Let_def split: option.splits if_splits)
  then show ?thesis using m by (simp add: value_activateLocked_def Let_def a activations active_changed)
qed

lemma dump_flush: "I m \<Longrightarrow> mpCurrentBucketStartTimeNs m \<le> t \<Longrightarrow> I (value_flushForDump env t lat m)"
  using same_clock_invalidate[of t DUMP_REPORT_REQUESTED m]
  by (cases lat) (auto simp: value_flushForDump_def pulls_start same_clock_def intro!: flush_forced pulls invalidates)

lemma init_completed: "I m \<Longrightarrow> mpCurrentBucketStartTimeNs m \<le> t \<Longrightarrow> I (value_onStatsdInitCompleted env t m)"
  using pulled_flush[of m t "mpCondition m = kTrue" env] by (simp add: value_onStatsdInitCompleted_def)

lemma upgrades: "I m \<Longrightarrow> mpCurrentBucketStartTimeNs m \<le> t \<Longrightarrow> I (value_notifyAppUpgrade env t m)"
  using pulled_flush[of m t "mpCondition m = kTrue" env] by (simp add: value_notifyAppUpgrade_def)

lemma handles: "I m \<Longrightarrow> input_in_time i m \<Longrightarrow> I (value_handle env i m)"
  by (cases i) (auto simp: event data_pulled condition_changed value_onSlicedConditionMayChangeLocked_def state_changed expires activates
      activations upgrades init_completed prepares dump_flush flushIfNeeded)

end

section \<open>The account of time\<close>

lemma record_content:
  "contentOf (value_recordEvent me vals m) = contentOf m"
  "vmCurrentBucketIsSkipped (value_recordEvent me vals m) = vmCurrentBucketIsSkipped m"
  "vmCurrentSkippedBucket (value_recordEvent me vals m) = vmCurrentSkippedBucket m"
  by (simp_all add: contentOf_def value_recordEvent_def Let_def split: prod.split)

lemma times_ok_same: "same_clock m' m \<Longrightarrow> bucket_times_ok m' = bucket_times_ok m"
  using calc_cong[of m' m] by (simp add: same_clock_def bucket_times_ok_def)

lemma tiles_frame:
  assumes "value_tiles s m" "same_clock m' m" "contentOf m' = contentOf m" "drops_ok m'"
  shows "value_tiles s m'"
  using assms times_ok_same[OF assms(2)] by (simp add: value_tiles_def drops_ok_def same_clock_def)

lemma tiles_drops: "value_tiles s m \<Longrightarrow> drops_ok m"
  by (simp add: value_tiles_def drops_ok_def)

interpretation tiling: value_keeps "value_tiles s" for s
proof
  fix m and t nb :: ns and r me vals c a timer g k ks P
  assume m: "value_tiles s m"
  show "bucket_times_ok m" using m by (simp add: value_tiles_def)
  show "value_tiles s (skipCurrentBucket t r m)"
    by (rule tiles_frame[OF m]) (simp_all add: same_clock_def contentOf_def frame_simps drops_ok_skip tiles_drops[OF m])
  show "value_tiles s (m\<lparr>mpCondition := c, mpActivations := a, vmConditionTimer := timer, vmHasGlobalBase := g,
          vmStateChangePrimaryKey := k, vmMatchedMetricDimensionKeys := ks\<rparr>)"
    using m by (simp add: value_tiles_def contentOf_def bucket_times_ok_def getCurrentBucketEndTimeNs_def)
  show "value_tiles s (m\<lparr>vmCurrentBaseInfo := map (\<lambda>(w, bis). (w, if P w then map (\<lambda>bi. bi\<lparr>biHasBase := False\<rparr>) bis else bis))
          (vmCurrentBaseInfo m)\<rparr>)"
    using m by (simp add: value_tiles_def contentOf_def bucket_times_ok_def getCurrentBucketEndTimeNs_def)
  show "value_tiles s (m\<lparr>vmCurrentSlicedBucket := []\<rparr>)"
    using m by (simp add: value_tiles_def contentOf_def bucket_times_ok_def getCurrentBucketEndTimeNs_def)
  show "value_tiles s (value_recordEvent me vals m)"
    by (rule tiles_frame[OF m same_clock_record]) (use tiles_drops[OF m] in \<open>simp_all add: record_content drops_ok_def\<close>)
  show "next_ok t nb m \<Longrightarrow> value_tiles s (value_flushCurrentBucketLocked t nb m)" by (rule flush_tiles[OF m])
qed

lemma tiles_erase: "value_tiles s m \<Longrightarrow> value_tiles (mpCurrentBucketStartTimeNs m) (m\<lparr>vmPastBuckets := [], vmSkippedBuckets := []\<rparr>)"
  by (simp add: value_tiles_def contentOf_def accounts_Nil bucket_times_ok_def getCurrentBucketEndTimeNs_def)

lemma run_accounts:
  assumes "value_tiles s m" "run_in_time xs m" "value_run xs m = (m', r)"
  shows "accounts s (fst r @ vmSkippedBuckets m', snd r @ vmPastBuckets m') (mpCurrentBucketStartTimeNs m')"
  using assms
proof (induction xs arbitrary: s m r)
  case Nil
  then show ?case by (auto simp: value_tiles_def contentOf_def)
next
  case (Cons x xs)
  obtain env i where x: "x = (env, i)" by fastforce
  let ?h = "value_handle env i m"
  have h: "value_tiles s ?h" using tiling.handles[of s m i env] Cons.prems(1,2) by (simp add: x)
  obtain m1 r1 q where st: "value_step x m = (m1, r1)" "value_run xs m1 = (m', q)" "r = (fst r1 @ fst q, snd r1 @ snd q)"
    using Cons.prems(3) by (auto split: prod.splits)
  show ?case
  proof (cases "erases i")
    case True
    then have m1: "m1 = ?h\<lparr>vmPastBuckets := [], vmSkippedBuckets := []\<rparr>" "r1 = contentOf ?h"
      using st(1) unfolding x step_erase by (simp_all add: Let_def)
    have "accounts (mpCurrentBucketStartTimeNs ?h) (fst q @ vmSkippedBuckets m', snd q @ vmPastBuckets m') (mpCurrentBucketStartTimeNs m')"
      using Cons.IH[OF tiles_erase[OF h], of q] Cons.prems(2) st by (simp add: m1)
    moreover have "accounts s r1 (mpCurrentBucketStartTimeNs ?h)" using h by (simp add: value_tiles_def m1)
    ultimately show ?thesis using accounts_append by (fastforce simp: st(3))
  next
    case False
    then have m1: "m1 = ?h" "r1 = ([], [])" using st(1) unfolding x step_erase by (simp_all add: Let_def)
    then show ?thesis using Cons.IH[OF h, of q] Cons.prems(2) st by simp
  qed
qed

lemma new_tiles:
  assumes "0 < bucketSizeNsFor uid (vcBucket c)" "timeBaseNs \<le> startTimeNs"
  shows "value_tiles startTimeNs (newValueMetricProducer limits b c uid what tag timeBaseNs startTimeNs)"
proof -
  let ?m0 = "metric_producer.extend
            (b\<lparr>mpTimeBaseNs := timeBaseNs, mpCurrentBucketStartTimeNs := timeBaseNs, mpCurrentBucketNum := 0,
               mpBucketSizeNs := bucketSizeNsFor uid (vcBucket c)\<rparr>)
            (value_metric.fields (valueParamsFor limits c what tag) [] (0, DEFAULT_DIMENSION_KEY) [] [] [] [] False False
               (newConditionTimer False timeBaseNs) emptySkippedBucket [])"
  let ?n = "calcBucketsForwardCount startTimeNs ?m0" and ?size = "bucketSizeNsFor uid (vcBucket c)"
  have f: "mpTimeBaseNs ?m0 = timeBaseNs" "mpCurrentBucketNum ?m0 = 0" "mpBucketSizeNs ?m0 = ?size" "mpCurrentBucketStartTimeNs ?m0 = timeBaseNs"
    by (simp_all add: metric_producer.defs value_metric.defs)
  have m0: "bucket_times_ok ?m0" using assms(1) f by (simp add: bucket_times_ok_def getCurrentBucketEndTimeNs_def)
  have e: "getCurrentBucketEndTimeNs ?m0 = timeBaseNs + ?size" using f by (simp add: getCurrentBucketEndTimeNs_def)
  have up: "startTimeNs < timeBaseNs + (?n + 1) * ?size" using calc_bounds(4)[OF m0, of startTimeNs] f by simp
  have low: "timeBaseNs + ?n * ?size \<le> startTimeNs"
    using calc_bounds(1,3)[OF m0, of startTimeNs] assms(2) unfolding e f by (cases "startTimeNs < timeBaseNs + ?size") (auto simp: algebra_simps)
  have stay: "value_flushIfNeededLocked startTimeNs (?m0\<lparr>mpCurrentBucketNum := mpCurrentBucketNum ?m0 + ?n\<rparr>) = ?m0\<lparr>mpCurrentBucketNum := ?n\<rparr>"
    using up f by (simp add: value_flushIfNeededLocked_def getCurrentBucketEndTimeNs_def)
  have z: "vmPastBuckets ?m0 = []" "vmSkippedBuckets ?m0 = []" "\<not> vmCurrentBucketIsSkipped ?m0" "vmCurrentSkippedBucket ?m0 = emptySkippedBucket"
    by (simp_all add: metric_producer.defs value_metric.defs)
  show ?thesis unfolding newValueMetricProducer_def Let_def stay
    using up low assms(1) f z by (simp add: value_tiles_def bucket_times_ok_def getCurrentBucketEndTimeNs_def contentOf_def accounts_Nil)
qed

text \<open>
  Property C17. The reported and skipped buckets of a value metric account for all time since it was created,
  whatever events, pulls, condition, state and activation changes, upgrades, dumps and drops it went through:
  what was erased by dumps and drops, followed by what is still kept, is one list of adjacent intervals from
  the creation to the start of the current bucket, so no moment is lost or told twice, and every skipped
  bucket says why it was skipped.
\<close>

theorem value_time_accounted:
  assumes "0 < bucketSizeNsFor uid (vcBucket c)" and "timeBaseNs \<le> startTimeNs"
    and "run_in_time xs (newValueMetricProducer limits b c uid what tag timeBaseNs startTimeNs)"
    and "value_run xs (newValueMetricProducer limits b c uid what tag timeBaseNs startTimeNs) = (m, r)"
  shows "accounts startTimeNs (fst r @ vmSkippedBuckets m, snd r @ vmPastBuckets m) (mpCurrentBucketStartTimeNs m)"
  by (rule run_accounts[OF new_tiles[OF assms(1,2)] assms(3,4)])

definition example_value_config :: value_config where
  "example_value_config = \<lparr>vcMinBucketSizeNanos = 0, vcUseAbsoluteValueOnReset = False, vcAggregationType = va_SUM, vcUseDiff = None,
     vcValueDirection = INCREASING, vcSkipZeroDiffOutput = True, vcUseZeroDefaultBase = False, vcMaxPullDelaySec = 30,
     vcSplitBucketForAppUpgrade = True, vcBucket = None, vcValueField = FieldMatcher 10 None [FieldMatcher 1 None []]\<rparr>"

definition example_value_metric :: value_metric where
  "example_value_metric = newValueMetricProducer [] example_base example_value_config 1000 0 (-1) 0 5"

definition example_pull_env :: "nat pull_env" where
  "example_pull_env = \<lparr>peUids = \<lparr>sAidToUidMapping = [], getAppNamesFromUid = (\<lambda>u. [])\<rparr>, peMatchers = [], peConditions = [],
     peStates = newStateManager, pePull = (\<lambda>t. None), peElapsedRealtimeNs = 0\<rparr>"

definition example_value_event :: "ns \<Rightarrow> i64 \<Rightarrow> state_event" where
  "example_value_event t v = \<lparr>tagId = 10, event_values = [mkFieldValue (Field 10 [1] 0) (LONG v)], elapsedTimestampNs = t, logUid = 0,
     resetStateValue = 0, exclusiveStateFieldIndex = -1, truncateTimestamp = False\<rparr>"

definition example_value_run :: "(nat pull_env \<times> value_input) list" where
  "example_value_run = [(example_pull_env, VEvent (example_value_event 7 42)), (example_pull_env, VAppUpgrade 20),
     (example_pull_env, VDump 30 True True FAST)]"

lemma example_run_in_time: "run_in_time example_value_run example_value_metric"
  by code_simp

theorem value_time_accounted_witness:
  "\<exists>m r. value_run example_value_run example_value_metric = (m, r) \<and>
     accounts 5 (fst r @ vmSkippedBuckets m, snd r @ vmPastBuckets m) (mpCurrentBucketStartTimeNs m) \<and>
     skippedIntervals (fst r) = [(20, 30)] \<and> map (map vbValues \<circ> snd) (snd r) = [[[LONG 42]]] \<and> mpCurrentBucketStartTimeNs m = 30"
proof -
  obtain m r where r: "value_run example_value_run example_value_metric = (m, r)" by (metis surj_pair)
  have "case value_run example_value_run example_value_metric of (m, r) \<Rightarrow> skippedIntervals (fst r) = [(20, 30)] \<and>
      map (map vbValues \<circ> snd) (snd r) = [[[LONG 42]]] \<and> mpCurrentBucketStartTimeNs m = 30" by code_simp
  moreover have "0 < bucketSizeNsFor 1000 (vcBucket example_value_config)" by code_simp
  ultimately show ?thesis
    using value_time_accounted[of 1000 example_value_config 0 5 example_value_run "[]" example_base 0 "-1" m r] r example_run_in_time
    by (simp add: example_value_metric_def)
qed

section \<open>The shape of the maps\<close>

definition interval_ok :: "interval \<Rightarrow> bool" where
  "interval_ok iv \<longleftrightarrow> 0 \<le> ivSampleSize iv \<and> (ivHasValue iv \<longrightarrow> 1 \<le> ivSampleSize iv)"

definition value_shape :: "value_metric \<Rightarrow> bool" where
  "value_shape m \<longleftrightarrow> bucket_times_ok m \<and> umap_ok (vmCurrentSlicedBucket m) \<and> umap_ok (vmCurrentBaseInfo m) \<and>
     0 < length (vpFieldMatchers (vmParams m)) \<and>
     (\<forall>k ivs. map_of (vmCurrentSlicedBucket m) k = Some ivs \<longrightarrow> length ivs = length (vpFieldMatchers (vmParams m)) \<and>
        (\<forall>iv \<in> set ivs. interval_ok iv) \<and> map_of (vmCurrentBaseInfo m) (mDimensionKeyInWhat k) \<noteq> None) \<and>
     (\<forall>w bis. map_of (vmCurrentBaseInfo m) w = Some bis \<longrightarrow> length bis = length (vpFieldMatchers (vmParams m)))"

lemma aggregate_ok: "interval_ok iv \<Longrightarrow> interval_ok (aggregate p v iv)"
  by (auto simp: interval_ok_def aggregate_def Let_def)

lemma updateField_ok: "interval_ok iv \<Longrightarrow> updateField p g v bi iv = (bi', iv', ok) \<Longrightarrow> interval_ok iv'"
  by (auto simp: updateField_def Let_def aggregate_ok split: if_splits option.splits)

lemma updateFields_ok:
  assumes "updateFields p g sk vals i mts bis ivs u = (bis', ivs', r)" "\<forall>iv \<in> set ivs. interval_ok iv"
  shows "length bis' = length bis \<and> length ivs' = length ivs \<and> (\<forall>iv \<in> set ivs'. interval_ok iv)"
  using assms
proof (induction p g sk vals i mts bis ivs u arbitrary: bis' ivs' r rule: updateFields.induct)
  case (1 p g sk vals i mt mts bi bis iv ivs u)
  show ?case
  proof (cases "getDoubleOrLong vals mt")
    case None
    then show ?thesis using 1(2,3) by (auto simp: interval_ok_def)
  next
    case (Some v)
    obtain bi2 iv2 ok where f: "updateField p g v (bi\<lparr>biHasCurrentState := True, biCurrentState := sk\<rparr>) (iv\<lparr>ivValueIndex := i, ivSeenNewData := True\<rparr>) = (bi2, iv2, ok)"
      by (rule prod_cases3)
    obtain bs js q where t: "updateFields p g sk vals (i + 1) mts bis ivs (u \<and> ok) = (bs, js, q)" by (rule prod_cases3)
    have "interval_ok iv2" using updateField_ok[OF _ f] 1(3) by (simp add: interval_ok_def)
    moreover have "length bs = length bis \<and> length js = length ivs \<and> (\<forall>iv \<in> set js. interval_ok iv)"
      by (rule 1(1)[OF refl refl Some _ refl t]) (use f 1(3) in simp_all)
    ultimately show ?thesis using 1(2) by (auto simp: Some f t)
  qed
qed auto

lemma growTo_length: "length xs \<le> n \<Longrightarrow> length (growTo n x xs) = n"
  by (simp add: growTo_def)

lemma growTo_ok: "(\<forall>iv \<in> set ivs. interval_ok iv) \<Longrightarrow> (\<forall>iv \<in> set (growTo n newInterval ivs). interval_ok iv)"
  by (auto simp: growTo_def newInterval_def interval_ok_def)

lemma eventEntries_ok:
  assumes "value_shape m"
  shows "length (intervalsFor k m) = length (vpFieldMatchers (vmParams m))" "\<forall>iv \<in> set (intervalsFor k m). interval_ok iv"
    "length (baseInfosFor w m) = length (vpFieldMatchers (vmParams m))"
  using assms growTo_ok[of "[]" "length (vpFieldMatchers (vmParams m))"]
    growTo_ok[of "the (map_of (vmCurrentSlicedBucket m) k)" "length (vpFieldMatchers (vmParams m))"]
  by (auto simp: intervalsFor_def baseInfosFor_def value_shape_def growTo_length split: option.split)

text \<open>What an event does to the two maps.\<close>

lemma record_maps:
  assumes "updateFields (vmParams m) (vmHasGlobalBase m) (mStateValuesKey (meKey me)) vals 0 (vpFieldMatchers (vmParams m))
      (baseInfosFor (mDimensionKeyInWhat (meKey me)) m) (intervalsFor (oldKeyFor (mDimensionKeyInWhat (meKey me)) m) m) True = (bis, ivs, u)"
  shows "vmCurrentBaseInfo (value_recordEvent me vals m) = AList.update (mDimensionKeyInWhat (meKey me)) bis (vmCurrentBaseInfo m)"
    "vmCurrentSlicedBucket (value_recordEvent me vals m) = AList.update (oldKeyFor (mDimensionKeyInWhat (meKey me)) m) ivs (vmCurrentSlicedBucket m)"
  by (simp_all add: value_recordEvent_def Let_def assms)

lemma record_shape:
  assumes "value_shape m"
  shows "value_shape (value_recordEvent me vals m)"
proof -
  let ?w = "mDimensionKeyInWhat (meKey me)"
  obtain bis ivs u where u: "updateFields (vmParams m) (vmHasGlobalBase m) (mStateValuesKey (meKey me)) vals 0 (vpFieldMatchers (vmParams m))
      (baseInfosFor ?w m) (intervalsFor (oldKeyFor ?w m) m) True = (bis, ivs, u)"
    by (rule prod_cases3)
  note r = record_maps[OF u] updateFields_ok[OF u eventEntries_ok(2)[OF assms]]
  have k: "mDimensionKeyInWhat (oldKeyFor ?w m) = ?w" by (simp add: oldKeyFor_def)
  have "vmParams (value_recordEvent me vals m) = vmParams m" "bucket_times_ok (value_recordEvent me vals m)"
    using same_clock_record[of me vals m] times_ok_same[OF same_clock_record] assms by (auto simp: same_clock_def value_shape_def)
  then show ?thesis using assms r(3) eventEntries_ok[OF assms] by (auto simp: value_shape_def r(1,2) k split: if_splits)
qed

lemma flush_shape:
  assumes "value_shape m" "next_ok t nb m"
  shows "value_shape (value_flushCurrentBucketLocked t nb m)"
proof -
  have "length ivs = length (vpFieldMatchers (vmParams m)) \<and> (\<forall>iv \<in> set ivs. interval_ok iv) \<and>
      map_of (vmCurrentBaseInfo m) (mDimensionKeyInWhat k) \<noteq> None"
    if lk: "map_of (map (\<lambda>(k, ivs). (k, map clearInterval ivs)) (filter (\<lambda>(k, ivs). list_ex ivSeenNewData ivs) (vmCurrentSlicedBucket m))) k = Some ivs"
    for k ivs
  proof -
    obtain jvs where "(k, jvs) \<in> set (vmCurrentSlicedBucket m)" "ivs = map clearInterval jvs"
      using map_of_SomeD[OF lk] by auto
    moreover from this have "map_of (vmCurrentSlicedBucket m) k = Some jvs" using assms(1) by (simp add: value_shape_def umap_ok_def)
    ultimately show ?thesis using assms(1) by (auto simp: value_shape_def clearInterval_def interval_ok_def)
  qed
  moreover have "umap_ok (map (\<lambda>(k, ivs). (k, map clearInterval ivs)) (filter (\<lambda>(k, ivs). list_ex ivSeenNewData ivs) (vmCurrentSlicedBucket m)))"
    using assms(1) by (auto simp: value_shape_def umap_ok_def comp_def split_def intro: distinct_map_filter)
  ultimately show ?thesis using assms flush_times_ok[OF _ assms(2)] by (simp add: value_shape_def frame_simps)
qed

lemma map_of_rebase:
  "map_of (map (\<lambda>(w, bis). (w, if P w then f bis else bis)) xs) k = map_option (\<lambda>bis. if P k then f bis else bis) (map_of xs k)"
  by (induction xs) auto

interpretation shape: value_keeps value_shape
proof
  fix m and t nb :: ns and r me vals c a timer g k ks and P :: "dim_key \<Rightarrow> bool"
  assume m: "value_shape m"
  show "bucket_times_ok m" using m by (simp add: value_shape_def)
  have times: "bucket_times_ok (skipCurrentBucket t r m)"
    using m times_ok_same[of "skipCurrentBucket t r m" m] by (simp add: value_shape_def same_clock_def frame_simps)
  then show "value_shape (skipCurrentBucket t r m)" using m by (simp add: value_shape_def frame_simps)
  show "value_shape (m\<lparr>mpCondition := c, mpActivations := a, vmConditionTimer := timer, vmHasGlobalBase := g,
          vmStateChangePrimaryKey := k, vmMatchedMetricDimensionKeys := ks\<rparr>)"
    using m by (simp add: value_shape_def bucket_times_ok_def getCurrentBucketEndTimeNs_def)
  show "value_shape (m\<lparr>vmCurrentSlicedBucket := []\<rparr>)"
    using m by (simp add: value_shape_def bucket_times_ok_def getCurrentBucketEndTimeNs_def)
  have "umap_ok (map (\<lambda>(w, bis). (w, if P w then map (\<lambda>bi. bi\<lparr>biHasBase := False\<rparr>) bis else bis)) (vmCurrentBaseInfo m))"
    using m by (simp add: value_shape_def umap_ok_def comp_def split_def)
  then show "value_shape (m\<lparr>vmCurrentBaseInfo := map (\<lambda>(w, bis). (w, if P w then map (\<lambda>bi. bi\<lparr>biHasBase := False\<rparr>) bis else bis))
          (vmCurrentBaseInfo m)\<rparr>)"
    using m by (auto simp: value_shape_def bucket_times_ok_def getCurrentBucketEndTimeNs_def map_of_rebase)
  show "value_shape (value_recordEvent me vals m)" by (rule record_shape[OF m])
  show "next_ok t nb m \<Longrightarrow> value_shape (value_flushCurrentBucketLocked t nb m)" by (rule flush_shape[OF m])
qed

lemma run_shape:
  assumes "value_shape m" "run_in_time xs m"
  shows "value_shape (fst (value_run xs m))"
  using assms
proof (induction xs arbitrary: m)
  case (Cons x xs)
  obtain env i where x: "x = (env, i)" by fastforce
  have "value_shape (value_handle env i m)" using shape.handles[of m i env] Cons.prems by (simp add: x)
  then have "value_shape (fst (value_step x m))"
    unfolding x step_erase by (auto simp: Let_def value_shape_def bucket_times_ok_def getCurrentBucketEndTimeNs_def)
  then have "value_shape (fst (value_run xs (fst (value_step x m))))" using Cons by simp
  then show ?case by (auto split: prod.split)
qed simp

lemma new_shape:
  assumes "0 < bucketSizeNsFor uid (vcBucket c)" "timeBaseNs \<le> startTimeNs" "translateFieldMatcher (vcValueField c) \<noteq> []"
  shows "value_shape (newValueMetricProducer limits b c uid what tag timeBaseNs startTimeNs)"
proof -
  let ?m = "newValueMetricProducer limits b c uid what tag timeBaseNs startTimeNs"
  have t: "bucket_times_ok ?m" using new_tiles[OF assms(1,2)] by (simp add: value_tiles_def)
  have f: "vmParams (value_flushIfNeededLocked t m) = vmParams m"
    "vmCurrentSlicedBucket m = [] \<Longrightarrow> vmCurrentSlicedBucket (value_flushIfNeededLocked t m) = []"
    "vmCurrentBaseInfo (value_flushIfNeededLocked t m) = vmCurrentBaseInfo m" for t m
    by (simp_all add: value_flushIfNeededLocked_def Let_def frame_simps)
  have "vmCurrentSlicedBucket ?m = []" "vmCurrentBaseInfo ?m = []" "vmParams ?m = valueParamsFor limits c what tag"
    by (simp_all add: newValueMetricProducer_def Let_def f metric_producer.defs value_metric.defs)
  then show ?thesis using t assms(3) by (simp add: value_shape_def valueParamsFor_def Let_def split: prod.split)
qed

text \<open>
  Property C18. The unchecked accesses of the value metric are safe in every state a run can reach: every slice of the
  current bucket and every base vector has one entry per value field (there is at least one), so the first
  element that the state key and the anomaly values are read from exists; every key of the bucket has a base
  entry, so the iterator that the pull handler follows without a test is valid; and an interval with
  a value has a positive sample count, so the average does not divide by zero.
\<close>

theorem value_accesses_safe:
  assumes "0 < bucketSizeNsFor uid (vcBucket c)" and "timeBaseNs \<le> startTimeNs" and "translateFieldMatcher (vcValueField c) \<noteq> []"
    and "run_in_time xs (newValueMetricProducer limits b c uid what tag timeBaseNs startTimeNs)"
    and "m = fst (value_run xs (newValueMetricProducer limits b c uid what tag timeBaseNs startTimeNs))"
  shows "(\<forall>(k, ivs) \<in> set (vmCurrentSlicedBucket m). ivs \<noteq> [] \<and> length ivs = length (vpFieldMatchers (vmParams m)) \<and>
      map_of (vmCurrentBaseInfo m) (mDimensionKeyInWhat k) \<noteq> None \<and> (\<forall>iv \<in> set ivs. ivHasValue iv \<longrightarrow> 0 < ivSampleSize iv)) \<and>
    (\<forall>(w, bis) \<in> set (vmCurrentBaseInfo m). bis \<noteq> [] \<and> length bis = length (vpFieldMatchers (vmParams m)))"
proof -
  have m: "value_shape m" using run_shape[OF new_shape[OF assms(1-3)] assms(4)] by (simp add: assms(5))
  have "map_of (vmCurrentSlicedBucket m) k = Some ivs" if "(k, ivs) \<in> set (vmCurrentSlicedBucket m)" for k ivs
    using m that by (simp add: value_shape_def umap_ok_def)
  moreover have "map_of (vmCurrentBaseInfo m) w = Some bis" if "(w, bis) \<in> set (vmCurrentBaseInfo m)" for w bis
    using m that by (simp add: value_shape_def umap_ok_def)
  ultimately show ?thesis using m by (fastforce simp: value_shape_def interval_ok_def)
qed

theorem value_accesses_safe_witness:
  "\<exists>m. m = fst (value_run (take 1 example_value_run) example_value_metric) \<and> length (vmCurrentSlicedBucket m) = 1 \<and>
     (\<forall>(k, ivs) \<in> set (vmCurrentSlicedBucket m). ivs \<noteq> [] \<and> map_of (vmCurrentBaseInfo m) (mDimensionKeyInWhat k) \<noteq> None)"
proof -
  have "length (vmCurrentSlicedBucket (fst (value_run (take 1 example_value_run) example_value_metric))) = 1" by code_simp
  moreover have "0 < bucketSizeNsFor 1000 (vcBucket example_value_config)" by code_simp
  moreover have "translateFieldMatcher (vcValueField example_value_config) \<noteq> []" by code_simp
  moreover have "run_in_time (take 1 example_value_run) example_value_metric" by code_simp
  ultimately show ?thesis
    using value_accesses_safe[of 1000 example_value_config 0 5 "take 1 example_value_run" "[]" example_base 0 "-1", OF _ _ _ _ refl]
    unfolding example_value_metric_def[symmetric] by fastforce
qed

end
