(* ===== verification/ValueAggregation.thy ===== *)
theory ValueAggregation
  imports ValueBuckets
begin

text \<open>
  What a value metric computes: differences of consecutive samples add up to the difference of the last and the
  first one, split by the state in force; a pull that fails, comes late or overflows the dimensions
  invalidates the bucket and every base; and two errors of the source.
\<close>

section \<open>Sums over slices\<close>

lemma sum_list_update_group:
  fixes f :: "'k \<times> 'v \<Rightarrow> 'g :: ab_group_add"
  shows "sum_list (map f (AList.update k v xs)) = sum_list (map f xs) + f (k, v) - (case map_of xs k of None \<Rightarrow> 0 | Some u \<Rightarrow> f (k, u))"
  by (induction xs) (auto simp: algebra_simps)

text \<open>The value accumulated in the current bucket for a key in what, over all states, and its base.\<close>

definition sliceValue :: "interval list \<Rightarrow> i64" where
  "sliceValue ivs = (if ivs \<noteq> [] \<and> ivHasValue (hd ivs) then long_value (ivValue (hd ivs)) else 0)"

definition bucketTotal :: "value_metric \<Rightarrow> dim_key \<Rightarrow> i64" where
  "bucketTotal m w = sum_list (map (\<lambda>(k, ivs). if mDimensionKeyInWhat k = w then sliceValue ivs else 0) (vmCurrentSlicedBucket m))"

definition baseOf :: "value_metric \<Rightarrow> dim_key \<Rightarrow> log_value option" where
  "baseOf m w = (case map_of (vmCurrentBaseInfo m) w of Some (bi # _) \<Rightarrow> if biHasBase bi then Some (biBase bi) else None | _ \<Rightarrow> None)"

text \<open>One value field, and every value accumulated for the key is an integer.\<close>

definition long_slices :: "dim_key \<Rightarrow> value_metric \<Rightarrow> bool" where
  "long_slices w m \<longleftrightarrow> value_shape m \<and> length (vpFieldMatchers (vmParams m)) = 1 \<and>
     (\<forall>k ivs. map_of (vmCurrentSlicedBucket m) k = Some ivs \<longrightarrow> mDimensionKeyInWhat k = w \<longrightarrow> ivHasValue (hd ivs) \<longrightarrow>
        (\<exists>v. ivValue (hd ivs) = LONG v))"

lemma updateField_sum:
  assumes "vpUseDiff p" "vpAggregationType p = va_SUM" "biHasBase bi" "biBase bi = LONG b"
    and "vpValueDirection p = ANY_DIRECTION \<or> vpValueDirection p = INCREASING \<and> sint b \<le> sint v"
    and "ivHasValue iv \<Longrightarrow> \<exists>u. ivValue iv = LONG u"
    and "updateField p g (LONG v) bi iv = (bi', iv', ok)"
  shows "biHasBase bi' \<and> biBase bi' = LONG v \<and> biCurrentState bi' = biCurrentState bi \<and> biHasCurrentState bi' = biHasCurrentState bi \<and>
     ivHasValue iv' \<and> ivValue iv' = LONG ((if ivHasValue iv then long_value (ivValue iv) else 0) + (v - b))"
proof -
  have d: "diffOf p (LONG v) (LONG b) = Some (LONG (v - b))"
    using assms(5) by (auto simp: diffOf_def value_ge_def value_minus_def)
  have "iv' = aggregate p (LONG (v - b)) iv" "bi' = bi\<lparr>biBase := LONG v\<rparr>"
    using assms(1,3,4,7) d by (auto simp: updateField_def Let_def)
  then show ?thesis using assms(2,3,6) by (auto simp: aggregate_def Let_def value_plus_def)
qed

lemma record_other:
  assumes "mDimensionKeyInWhat (meKey me) \<noteq> w"
  shows "baseOf (value_recordEvent me vals m) w = baseOf m w" "bucketTotal (value_recordEvent me vals m) w = bucketTotal m w"
    "long_slices w m \<Longrightarrow> long_slices w (value_recordEvent me vals m)"
proof -
  let ?w = "mDimensionKeyInWhat (meKey me)"
  obtain bis ivs u where u: "updateFields (vmParams m) (vmHasGlobalBase m) (mStateValuesKey (meKey me)) vals 0 (vpFieldMatchers (vmParams m))
      (baseInfosFor ?w m) (intervalsFor (oldKeyFor ?w m) m) True = (bis, ivs, u)"
    by (rule prod_cases3)
  have k: "mDimensionKeyInWhat (oldKeyFor ?w m) = ?w" by (simp add: oldKeyFor_def)
  show "baseOf (value_recordEvent me vals m) w = baseOf m w" using assms by (simp add: baseOf_def record_maps(1)[OF u])
  show "bucketTotal (value_recordEvent me vals m) w = bucketTotal m w"
    using assms by (simp add: bucketTotal_def record_maps(2)[OF u] sum_list_update_group k split: option.split)
  have "vmParams (value_recordEvent me vals m) = vmParams m" using same_clock_record[of me vals m] by (simp add: same_clock_def)
  then show "long_slices w m \<Longrightarrow> long_slices w (value_recordEvent me vals m)"
    using assms record_shape[of m me vals] by (auto simp: long_slices_def record_maps(2)[OF u] k split: if_splits)
qed

lemma intervalsFor_single:
  assumes "long_slices w m" "mDimensionKeyInWhat k = w"
  obtains iv where "intervalsFor k m = [iv]" "ivHasValue iv \<Longrightarrow> \<exists>u. ivValue iv = LONG u"
    "(if ivHasValue iv then long_value (ivValue iv) else 0) = (case map_of (vmCurrentSlicedBucket m) k of None \<Rightarrow> 0 | Some ivs \<Rightarrow> sliceValue ivs)"
proof (cases "map_of (vmCurrentSlicedBucket m) k")
  case None
  then have "intervalsFor k m = [newInterval]" using assms(1) by (simp add: intervalsFor_def growTo_def long_slices_def)
  then show ?thesis using that[of newInterval] None by (simp add: newInterval_def)
next
  case (Some ivs)
  then have "length ivs = 1" using assms(1) by (simp add: long_slices_def value_shape_def)
  then obtain iv where iv: "ivs = [iv]" by (auto simp: length_Suc_conv)
  then have "intervalsFor k m = [iv]" using assms(1) Some by (simp add: intervalsFor_def growTo_def long_slices_def)
  moreover have "ivHasValue iv \<Longrightarrow> \<exists>u. ivValue iv = LONG u" using Some iv assms by (fastforce simp: long_slices_def)
  ultimately show ?thesis using that[of iv] Some iv by (simp add: sliceValue_def)
qed

lemma baseInfosFor_single:
  assumes "long_slices w m" "baseOf m w = Some (LONG b)"
  obtains bi where "baseInfosFor w m = [bi]" "biHasBase bi" "biBase bi = LONG b"
proof -
  obtain bi bis where bi: "map_of (vmCurrentBaseInfo m) w = Some (bi # bis)" "biHasBase bi" "biBase bi = LONG b"
    using assms(2) by (auto simp: baseOf_def split: option.splits list.splits if_splits)
  have "length (bi # bis) = 1" using assms(1) bi(1) unfolding long_slices_def value_shape_def by metis
  then have "bis = []" by simp
  then show ?thesis
    using that[of "if biHasCurrentState bi then bi else bi\<lparr>biCurrentState := key_of (getUnknownStateKey m), biHasCurrentState := True\<rparr>"]
      bi assms(1) by (simp add: baseInfosFor_def growTo_def long_slices_def)
qed

text \<open>An event of the key: either its value is unusable and nothing changes, or the new base and the total move together.\<close>

lemma record_same:
  assumes p: "vpUseDiff (vmParams m)" "vpAggregationType (vmParams m) = va_SUM" "vpFieldMatchers (vmParams m) = [mt]"
    and w: "mDimensionKeyInWhat (meKey me) = w" and m: "long_slices w m" "baseOf m w = Some (LONG b)"
    and v: "getDoubleOrLong vals mt = None \<or> getDoubleOrLong vals mt = Some (LONG v) \<and>
       (vpValueDirection (vmParams m) = ANY_DIRECTION \<or> vpValueDirection (vmParams m) = INCREASING \<and> sint b \<le> sint v)"
  defines "b' \<equiv> (if getDoubleOrLong vals mt = None then b else v)"
  shows "baseOf (value_recordEvent me vals m) w = Some (LONG b') \<and> bucketTotal (value_recordEvent me vals m) w = bucketTotal m w + (b' - b) \<and>
     long_slices w (value_recordEvent me vals m)"
proof -
  have k: "mDimensionKeyInWhat (oldKeyFor w m) = w" by (simp add: oldKeyFor_def)
  obtain iv where iv: "intervalsFor (oldKeyFor w m) m = [iv]" "ivHasValue iv \<Longrightarrow> \<exists>u. ivValue iv = LONG u"
    "(if ivHasValue iv then long_value (ivValue iv) else 0) =
       (case map_of (vmCurrentSlicedBucket m) (oldKeyFor w m) of None \<Rightarrow> 0 | Some ivs \<Rightarrow> sliceValue ivs)"
    using intervalsFor_single[OF m(1) k] by metis
  obtain bi where bi: "baseInfosFor w m = [bi]" "biHasBase bi" "biBase bi = LONG b" using baseInfosFor_single[OF m] by metis
  obtain bis ivs u where u: "updateFields (vmParams m) (vmHasGlobalBase m) (mStateValuesKey (meKey me)) vals 0 [mt] [bi] [iv] True = (bis, ivs, u)"
    by (rule prod_cases3)
  obtain bi' iv' where r: "bis = [bi']" "ivs = [iv']" "biHasBase bi'" "biBase bi' = LONG b'"
    "(if ivHasValue iv' then long_value (ivValue iv') else 0) = (if ivHasValue iv then long_value (ivValue iv) else 0) + (b' - b)"
    "ivHasValue iv' \<Longrightarrow> \<exists>u. ivValue iv' = LONG u"
  proof (cases "getDoubleOrLong vals mt")
    case None
    then show ?thesis
      using u that[of "bi\<lparr>biHasCurrentState := True, biCurrentState := mStateValuesKey (meKey me)\<rparr>" "iv\<lparr>ivValueIndex := 0\<rparr>"] bi(2,3) iv(2)
      by (simp add: b'_def)
  next
    case (Some x)
    let ?bi = "bi\<lparr>biHasCurrentState := True, biCurrentState := mStateValuesKey (meKey me)\<rparr>" and ?iv = "iv\<lparr>ivValueIndex := 0, ivSeenNewData := True\<rparr>"
    have x: "x = LONG v" "vpValueDirection (vmParams m) = ANY_DIRECTION \<or> vpValueDirection (vmParams m) = INCREASING \<and> sint b \<le> sint v"
      using v Some by auto
    obtain bi2 iv2 ok where f: "updateField (vmParams m) (vmHasGlobalBase m) (LONG v) ?bi ?iv = (bi2, iv2, ok)" by (rule prod_cases3)
    have "biHasBase bi2 \<and> biBase bi2 = LONG v \<and> biCurrentState bi2 = biCurrentState ?bi \<and> biHasCurrentState bi2 = biHasCurrentState ?bi \<and>
       ivHasValue iv2 \<and> ivValue iv2 = LONG ((if ivHasValue ?iv then long_value (ivValue ?iv) else 0) + (v - b))"
      by (rule updateField_sum[OF p(1,2) _ _ x(2) _ f]) (use bi(2,3) iv(2) in simp_all)
    moreover have "bis = [bi2]" "ivs = [iv2]" using u f by (simp_all add: Some x(1))
    ultimately show ?thesis using that[of bi2 iv2] by (simp add: b'_def Some)
  qed
  have u': "updateFields (vmParams m) (vmHasGlobalBase m) (mStateValuesKey (meKey me)) vals 0 (vpFieldMatchers (vmParams m))
      (baseInfosFor (mDimensionKeyInWhat (meKey me)) m) (intervalsFor (oldKeyFor (mDimensionKeyInWhat (meKey me)) m) m) True = (bis, ivs, u)"
    using u by (simp add: p(3) w bi(1) iv(1))
  note maps = record_maps[OF u', unfolded w r(1,2)]
  have "baseOf (value_recordEvent me vals m) w = Some (LONG b')" by (simp add: baseOf_def maps(1) r(3,4))
  moreover have "bucketTotal (value_recordEvent me vals m) w = bucketTotal m w + (b' - b)"
  proof -
    have "sliceValue [iv'] = (case map_of (vmCurrentSlicedBucket m) (oldKeyFor w m) of None \<Rightarrow> 0 | Some ivs \<Rightarrow> sliceValue ivs) + (b' - b)"
      unfolding iv(3)[symmetric] r(5)[symmetric] by (simp add: sliceValue_def)
    then show ?thesis
      by (cases "map_of (vmCurrentSlicedBucket m) (oldKeyFor w m)") (simp_all add: bucketTotal_def maps(2) sum_list_update_group k)
  qed
  moreover have "long_slices w (value_recordEvent me vals m)"
    using m(1) record_shape[of m me vals] same_clock_record[of me vals m] r(6)
    by (auto simp: long_slices_def maps(2) same_clock_def split: if_splits)
  ultimately show ?thesis by blast
qed

section \<open>Telescoping\<close>

text \<open>For a pulled metric an event is either ignored or recorded.\<close>

lemma internal_cases:
  assumes "vpIsPulled (vmParams m)"
  obtains n where "value_onMatchedLogEventInternalLocked me vals m = n \<or> value_onMatchedLogEventInternalLocked me vals m = value_recordEvent me vals n"
    "vmParams n = vmParams m" "vmCurrentSlicedBucket n = vmCurrentSlicedBucket m" "vmCurrentBaseInfo n = vmCurrentBaseInfo m"
    "value_shape m \<Longrightarrow> value_shape n"
proof -
  let ?n = "m\<lparr>vmMatchedMetricDimensionKeys := List.insert (mDimensionKeyInWhat (meKey me)) (vmMatchedMetricDimensionKeys m)\<rparr>"
  have n: "value_shape m \<Longrightarrow> value_shape ?n" by (rule shape.matched_keys)
  let ?r = "value_onMatchedLogEventInternalLocked me vals m"
  have "?r = m \<or> ?r = ?n \<or> ?r = value_recordEvent me vals ?n"
    using assms by (auto simp: value_onMatchedLogEventInternalLocked_def Let_def split: prod.split)
  then show ?thesis using that[of m] that[of ?n] n by auto
qed

text \<open>The integer samples of the key among the events.\<close>

definition samplesOf :: "matcher \<Rightarrow> dim_key \<Rightarrow> (matched_event \<times> field_value list) list \<Rightarrow> i64 list" where
  "samplesOf mt w es = List.map_filter (\<lambda>(me, vals). if mDimensionKeyInWhat (meKey me) = w then map_option long_value (getDoubleOrLong vals mt) else None) es"

definition integer_samples :: "matcher \<Rightarrow> dim_key \<Rightarrow> (matched_event \<times> field_value list) list \<Rightarrow> bool" where
  "integer_samples mt w es \<longleftrightarrow> (\<forall>(me, vals) \<in> set es. mDimensionKeyInWhat (meKey me) = w \<longrightarrow>
     (case getDoubleOrLong vals mt of None \<Rightarrow> True | Some v \<Rightarrow> \<exists>x. v = LONG x))"

definition value_events :: "(matched_event \<times> field_value list) list \<Rightarrow> value_metric \<Rightarrow> value_metric" where
  "value_events es m = foldl (\<lambda>m (me, vals). value_onMatchedLogEventInternalLocked me vals m) m es"

lemma events_telescope:
  assumes "vpIsPulled (vmParams m)" "vpUseDiff (vmParams m)" "vpAggregationType (vmParams m) = va_SUM" "vpFieldMatchers (vmParams m) = [mt]"
    and "vpValueDirection (vmParams m) = ANY_DIRECTION \<or>
         vpValueDirection (vmParams m) = INCREASING \<and> sorted (map sint (b # samplesOf mt w es))"
    and "integer_samples mt w es" "long_slices w m" "baseOf m w = Some (LONG b)"
  shows "\<exists>b'. baseOf (value_events es m) w = Some (LONG b') \<and> b' \<in> set (b # samplesOf mt w es) \<and>
     bucketTotal (value_events es m) w = bucketTotal m w + (b' - b)"
  using assms
proof (induction es arbitrary: m b)
  case Nil
  then show ?case by (simp add: value_events_def)
next
  case (Cons e es)
  obtain me vals where e: "e = (me, vals)" by fastforce
  obtain n where n: "value_onMatchedLogEventInternalLocked me vals m = n \<or> value_onMatchedLogEventInternalLocked me vals m = value_recordEvent me vals n"
    "vmParams n = vmParams m" "vmCurrentSlicedBucket n = vmCurrentSlicedBucket m" "vmCurrentBaseInfo n = vmCurrentBaseInfo m"
    "value_shape m \<Longrightarrow> value_shape n"
    using internal_cases[OF Cons.prems(1)] by metis
  have same: "baseOf n w = baseOf m w" "bucketTotal n w = bucketTotal m w" "long_slices w n"
    using n Cons.prems(7) by (simp_all add: baseOf_def bucketTotal_def long_slices_def)
  let ?m = "value_onMatchedLogEventInternalLocked me vals m"
  have params: "vmParams ?m = vmParams m" using same_clock_internal[OF Cons.prems(1), of me vals] by (simp add: same_clock_def)
  have "\<exists>c. baseOf ?m w = Some (LONG c) \<and> bucketTotal ?m w = bucketTotal m w + (c - b) \<and> long_slices w ?m \<and>
      (c = b \<or> samplesOf mt w (e # es) = c # samplesOf mt w es)"
  proof (cases "?m = n \<or> mDimensionKeyInWhat (meKey me) \<noteq> w")
    case True
    then show ?thesis using n(1) same Cons.prems(8) record_other[where me = me and w = w and vals = vals and m = n] by auto
  next
    case False
    then have r: "?m = value_recordEvent me vals n" and w: "mDimensionKeyInWhat (meKey me) = w" using n(1) by auto
    define v where "v = (case getDoubleOrLong vals mt of Some x \<Rightarrow> long_value x | None \<Rightarrow> b)"
    have x: "getDoubleOrLong vals mt = None \<or> getDoubleOrLong vals mt = Some (LONG v)"
      using Cons.prems(6) w by (auto simp: e integer_samples_def v_def split: option.splits)
    have dir: "getDoubleOrLong vals mt \<noteq> None \<Longrightarrow> vpValueDirection (vmParams n) = ANY_DIRECTION \<or>
        vpValueDirection (vmParams n) = INCREASING \<and> sint b \<le> sint v"
      using Cons.prems(5) w x by (auto simp: n(2) e samplesOf_def List.map_filter_simps)
    from record_same[where m = n and mt = mt and me = me and w = w and b = b and vals = vals and v = v] show ?thesis
      using Cons.prems(2-4,8) n(2) same w x dir by (auto simp: r e samplesOf_def List.map_filter_simps split: if_splits)
  qed
  then obtain c where c: "baseOf ?m w = Some (LONG c)" "bucketTotal ?m w = bucketTotal m w + (c - b)" "long_slices w ?m"
    "c = b \<or> samplesOf mt w (e # es) = c # samplesOf mt w es" by blast
  have suffix: "samplesOf mt w (e # es) = samplesOf mt w es \<or> (\<exists>x. samplesOf mt w (e # es) = x # samplesOf mt w es)"
    by (auto simp: samplesOf_def List.map_filter_simps split: option.splits)
  then have sub: "set (samplesOf mt w es) \<subseteq> set (samplesOf mt w (e # es))" by auto
  have sorted: "sorted (map sint (c # samplesOf mt w es))" if "sorted (map sint (b # samplesOf mt w (e # es)))"
    using that c(4) suffix by auto
  have "integer_samples mt w es" using Cons.prems(6) by (simp add: integer_samples_def)
  with Cons.IH[of ?m c] Cons.prems(1-5) c(1,3) sorted obtain b' where
    "baseOf (value_events es ?m) w = Some (LONG b')" "b' \<in> set (c # samplesOf mt w es)"
    "bucketTotal (value_events es ?m) w = bucketTotal ?m w + (b' - c)"
    by (auto simp: params)
  then show ?case using c(2,4) sub by (intro exI[of _ b']) (auto simp: value_events_def e)
qed


definition example_pulled_metric :: value_metric where
  "example_pulled_metric = newValueMetricProducer [] example_base example_value_config 1000 0 10 0 5"

definition example_matched :: "i64 \<Rightarrow> matched_event \<times> field_value list" where
  "example_matched v = (\<lparr>meTimeNs = 7, meKey = \<lparr>mDimensionKeyInWhat = [], mStateValuesKey = []\<rparr>, meConditionKey = [], meCondition = True,
     meStatePrimaryKeys = []\<rparr>, [mkFieldValue (Field 10 [1] 0) (LONG v)])"

lemma events_shape: "value_shape m \<Longrightarrow> value_shape (value_events es m)"
  unfolding value_events_def by (induction es arbitrary: m) (auto simp: shape.event_internal)


section \<open>Failed pulls\<close>

definition no_bases :: "value_metric \<Rightarrow> bool" where
  "no_bases m \<longleftrightarrow> \<not> vmHasGlobalBase m \<and> (\<forall>(w, bis) \<in> set (vmCurrentBaseInfo m). \<forall>bi \<in> set bis. \<not> biHasBase bi)"

lemma invalidate_effect:
  "vmCurrentBucketIsSkipped (invalidateCurrentBucket t r m)" "no_bases (invalidateCurrentBucket t r m)"
  "contentOf (invalidateCurrentBucket t r m) = contentOf m"
  "vmCurrentSlicedBucket (invalidateCurrentBucket t r m) = vmCurrentSlicedBucket m"
  by (auto simp: invalidateCurrentBucket_def invalidateCurrentBucketWithoutResetBase_def resetBase_def no_bases_def contentOf_def frame_simps)

text \<open>A skipped bucket is not reported.\<close>

lemma flush_skipped:
  assumes "vmCurrentBucketIsSkipped m"
  shows "vmPastBuckets (value_flushCurrentBucketLocked t nb m) = vmPastBuckets m"
proof -
  obtain d timer where "contentOf (value_flushCurrentBucketLocked t nb m) =
     contentOf (recordGap t (bucketEndTimeFor t nb m) nb (recordSkipped (bucketEndTimeFor t nb m)
       (keepBucket t (bucketEndTimeFor t nb m) d ((markBeforeFlush t m)\<lparr>vmConditionTimer := timer\<rparr>))))"
    using flush_content by blast
  moreover have "vmCurrentBucketIsSkipped (markBeforeFlush t m)"
    using assms by (simp add: markBeforeFlush_def Let_def invalidateCurrentBucketWithoutResetBase_def frame_simps)
  ultimately show ?thesis by (simp add: contentOf_def frame_simps keepBucket_def Let_def)
qed

text \<open>Without a base, the next sample of a field only sets the base.\<close>

lemma no_base_no_value:
  "vpUseDiff p \<Longrightarrow> \<not> biHasBase bi \<Longrightarrow> updateField p False v bi iv = (bi\<lparr>biBase := v, biHasBase := True\<rparr>, iv, False)"
  by (simp add: updateField_def)

lemma accumulate_small:
  assumes "length (vmCurrentSlicedBucket m) < vpDimensionHardLimit (vmParams m)" "vpIsPulled (vmParams m)"
  shows "length (vmCurrentSlicedBucket (accumulateEvents env evs t0 t m)) < vpDimensionHardLimit (vmParams m)"
proof -
  let ?n = "(resetMissingBases (matchPulled env t evs (m\<lparr>vmMatchedMetricDimensionKeys := []\<rparr>)))\<lparr>vmMatchedMetricDimensionKeys := [], vmHasGlobalBase := True\<rparr>"
  have "vmParams ?n = vmParams m"
    using same_clock_matchPulled[of "m\<lparr>vmMatchedMetricDimensionKeys := []\<rparr>" env t evs] assms(2)
    by (simp add: same_clock_def resetMissingBases_def)
  then show ?thesis using assms(1)
    by (auto simp: accumulateEvents_def Let_def invalidate_effect hasReachedGuardRailLimit_def)
qed

definition pull_fails :: "'l pull_env \<Rightarrow> ns \<Rightarrow> value_metric \<Rightarrow> bool" where
  "pull_fails env t m \<longleftrightarrow> pePull env t = None \<or> t < mpCurrentBucketStartTimeNs m \<or>
     peElapsedRealtimeNs env - t > vpMaxPullDelayNs (vmParams m)"



section \<open>Two errors\<close>

text \<open>
  Property C22. An error in the source: \<^verbatim>\<open>ZERO_DOUBLE\<close> is constructed from an \<^verbatim>\<open>int64_t\<close> and so is an integer value. With
  \<^verbatim>\<open>use_zero_default_base\<close>, the first sample of a new key with floating point values is therefore compared with a value of another
  type, its difference has no type, and the whole bucket of the key is lost: every further sample of the bucket leaves the
  sum without a type, and the report has no number for it.
\<close>

theorem zero_default_base_loses_doubles:
  assumes "vpUseDiff p" and "vpUseZeroDefaultBase p" and "vpAggregationType p = va_SUM"
    and "vpValueDirection p = INCREASING \<or> vpValueDirection p = ANY_DIRECTION" and "\<not> biHasBase bi" and "\<not> ivHasValue iv"
  shows "let iv1 = fst (snd (updateField p True (DOUBLE x) bi iv))
     in ivHasValue iv1 \<and> ivValue iv1 = UNKNOWN \<and> reportedValue p iv1 = UNKNOWN \<and>
        (\<forall>vs. ivValue (foldl (\<lambda>iv v. aggregate p v iv) iv1 vs) = UNKNOWN)"
proof -
  have "diffOf p (DOUBLE x) (LONG 0) = Some UNKNOWN" using assms(4) by (auto simp: diffOf_def value_ge_def value_minus_def)
  then have i: "fst (snd (updateField p True (DOUBLE x) bi iv)) = aggregate p UNKNOWN iv"
    using assms by (simp add: updateField_def Let_def)
  have "ivHasValue iv1 \<Longrightarrow> ivValue iv1 = UNKNOWN \<Longrightarrow> ivValue (foldl (\<lambda>iv v. aggregate p v iv) iv1 vs) = UNKNOWN" for iv1 vs
    by (induction vs arbitrary: iv1) (auto simp: aggregate_def Let_def assms(3) value_plus_def)
  then show ?thesis using assms(3,6) by (simp add: i Let_def aggregate_def reportedValue_def)
qed

theorem zero_default_base_loses_doubles_witness:
  "ivValue (fst (snd (updateField (valueParamsFor [] (example_value_config\<lparr>vcUseZeroDefaultBase := True\<rparr>) 0 10) True (DOUBLE 4607182418800017408) newBaseInfo newInterval))) = UNKNOWN"
  using zero_default_base_loses_doubles[of "valueParamsFor [] (example_value_config\<lparr>vcUseZeroDefaultBase := True\<rparr>) 0 10" newBaseInfo newInterval 4607182418800017408]
  by (simp add: valueParamsFor_def example_value_config_def newBaseInfo_def newInterval_def Let_def split: prod.split)

text \<open>
  Fact. Another error: an activation that expires with an event older than the current bucket invalidates the bucket, but the
  parent's handler then cuts the bucket at that old time. The metric records a skipped bucket that ends before it starts,
  and the next bucket starts in the past.
\<close>

theorem late_expiry_moves_time_back:
  assumes "t < mpCurrentBucketStartTimeNs m" and "bucket_times_ok m" and "\<not> mIsActive (mpActivations m)" and "mpCondition m \<noteq> kTrue"
  shows "mpCurrentBucketStartTimeNs (value_onActiveStateChangedLocked env t m) = t \<and>
    skippedIntervals (vmSkippedBuckets (value_onActiveStateChangedLocked env t m)) =
      skippedIntervals (vmSkippedBuckets m) @ [(mpCurrentBucketStartTimeNs m, t)]"
proof -
  let ?m = "invalidateCurrentBucket t EVENT_IN_WRONG_BUCKET m"
  note c = same_clock_invalidate[of t EVENT_IN_WRONG_BUCKET m, unfolded same_clock_def] 
  have e: "t < getCurrentBucketEndTimeNs ?m" using assms(1,2) c by (auto simp: bucket_times_ok_def getCurrentBucketEndTimeNs_def)
  have f: "value_flushLocked t ?m = value_flushCurrentBucketLocked t t ?m" using e by (simp add: value_flushLocked_def value_flushIfNeededLocked_def)
  have en: "bucketEndTimeFor t t ?m = t" using e by (simp add: bucketEndTimeFor_def)
  obtain d timer where g: "contentOf (value_flushCurrentBucketLocked t t ?m) =
     contentOf (recordGap t t t (recordSkipped t (keepBucket t t d ((markBeforeFlush t ?m)\<lparr>vmConditionTimer := timer\<rparr>))))"
    using flush_content[of t t ?m] unfolding en by blast
  have sk: "vmCurrentBucketIsSkipped (markBeforeFlush t ?m)"
    using invalidate_effect(1) by (simp add: markBeforeFlush_def Let_def invalidateCurrentBucketWithoutResetBase_def frame_simps)
  have "skippedIntervals (vmSkippedBuckets (value_flushCurrentBucketLocked t t ?m)) = skippedIntervals (vmSkippedBuckets m) @ [(mpCurrentBucketStartTimeNs m, t)]"
    using g sk c invalidate_effect(3)[of t EVENT_IN_WRONG_BUCKET m]
    by (simp add: contentOf_def recordGap_def recordSkipped_def keepBucket_def Let_def frame_simps skippedIntervals_def)
  then show ?thesis using assms c
    by (simp add: value_onActiveStateChangedLocked_def Let_def f pullOnActiveStateChange_def frame_simps)
qed

theorem late_expiry_moves_time_back_witness:
  "mpCurrentBucketStartTimeNs (value_onActiveStateChangedLocked example_pull_env 3
     (example_value_metric\<lparr>mpCondition := kFalse, mpActivations := newActivations [newActivation ACTIVATE_IMMEDIATELY 1] [(0, 0)] []\<rparr>)) = 3"
proof -
  let ?m = "example_value_metric\<lparr>mpCondition := kFalse, mpActivations := newActivations [newActivation ACTIVATE_IMMEDIATELY 1] [(0, 0)] []\<rparr>"
  have "mpCurrentBucketStartTimeNs ?m = 5 \<and> bucket_times_ok ?m \<and> \<not> mIsActive (mpActivations ?m) \<and> mpCondition ?m = kFalse" by code_simp
  then show ?thesis using late_expiry_moves_time_back[of 3 ?m example_pull_env] by simp
qed

end
