(* ===== verification/EventMetric.thy ===== *)
theory EventMetric
  imports MetricBase
begin

text \<open>
  \<^verbatim>\<open>bin/src/metrics/EventMetricProducer.h\<close> and \<^verbatim>\<open>.cpp\<close>: the metric that logs every matched event, and the truncation of
  timestamps in \<^verbatim>\<open>bin/src/stats_log_util.cpp\<close>. The proto stream is the list of what is written to it.
\<close>

section \<open>Definitions\<close>

definition kTimestampTruncationStartTag :: int where "kTimestampTruncationStartTag = 300000"
definition kTimestampTruncationEndTag :: int where "kTimestampTruncationEndTag = 304999"

text \<open>C++ division truncates; the clock is not negative.\<close>

definition truncateTimestampIfNecessary :: "state_event \<Rightarrow> ns" where
  "truncateTimestampIfNecessary ev =
     (if truncateTimestamp ev \<or> (sint (tagId ev) \<ge> kTimestampTruncationStartTag \<and> sint (tagId ev) \<le> kTimestampTruncationEndTag)
      then elapsedTimestampNs ev div NS_PER_SEC div (5 * 60) * NS_PER_SEC * (5 * 60)
      else elapsedTimestampNs ev)"

text \<open>One entry of the stream: the timestamp and the atom.\<close>

type_synonym logged_event = "ns \<times> i32 \<times> field_value list"

record event_metric = metric_producer +
  emProto :: "logged_event list"

definition newEventMetricProducer :: "metric_producer \<Rightarrow> ns \<Rightarrow> event_metric" where
  "newEventMetricProducer b startTimeNs =
     metric_producer.extend (b\<lparr>mpTimeBaseNs := startTimeNs, mpCurrentBucketStartTimeNs := startTimeNs, mpCurrentBucketNum := 0\<rparr>)
       (event_metric.fields [])"

definition event_onMatchedLogEventInternalLocked :: "bool \<Rightarrow> state_event \<Rightarrow> event_metric \<Rightarrow> event_metric" where
  "event_onMatchedLogEventInternalLocked condition ev m =
     (if \<not> condition then m else m\<lparr>emProto := emProto m @ [(truncateTimestampIfNecessary ev, tagId ev, event_values ev)]\<rparr>)"

definition event_onMatchedLogEvent :: "condition_tracker list \<Rightarrow> 'l state_manager \<Rightarrow> state_event \<Rightarrow> event_metric \<Rightarrow> event_metric" where
  "event_onMatchedLogEvent conditions sm ev m =
     (case onMatchedLogEventLocked conditions sm ev m of
        None \<Rightarrow> m
      | Some me \<Rightarrow> event_onMatchedLogEventInternalLocked (meCondition me) ev m)"

definition event_onConditionChangedLocked :: "bool \<Rightarrow> event_metric \<Rightarrow> event_metric" where
  "event_onConditionChangedLocked conditionMet m = m\<lparr>mpCondition := (if conditionMet then kTrue else kFalse)\<rparr>"

definition event_dropDataLocked :: "event_metric \<Rightarrow> event_metric" where
  "event_dropDataLocked m = m\<lparr>emProto := []\<rparr>"

definition event_clearPastBucketsLocked :: "event_metric \<Rightarrow> event_metric" where
  "event_clearPastBucketsLocked m = m\<lparr>emProto := []\<rparr>"

definition event_onDumpReportLocked :: "bool \<Rightarrow> event_metric \<Rightarrow> event_metric \<times> logged_event list" where
  "event_onDumpReportLocked erase_data m =
     (if emProto m = [] then (m, []) else (if erase_data then m\<lparr>emProto := []\<rparr> else m, emProto m))"

section \<open>Truncation\<close>

text \<open>
  Fact. The timestamp an event or gauge metric reports for an atom that asks for truncation, or whose id is reserved for it, is the start of
  its five minutes: a multiple of five minutes, not after the event and less than five minutes before it. Other
  atoms keep their timestamp.
\<close>

theorem truncated_timestamp_bounds:
  assumes "0 \<le> elapsedTimestampNs ev"
  shows "(if truncateTimestamp ev \<or> 300000 \<le> sint (tagId ev) \<and> sint (tagId ev) \<le> 304999
     then (300 * NS_PER_SEC) dvd truncateTimestampIfNecessary ev \<and> truncateTimestampIfNecessary ev \<le> elapsedTimestampNs ev \<and>
          elapsedTimestampNs ev < truncateTimestampIfNecessary ev + 300 * NS_PER_SEC
     else truncateTimestampIfNecessary ev = elapsedTimestampNs ev)"
proof -
  let ?t = "elapsedTimestampNs ev"
  have "?t div 1000000000 div 300 = ?t div 300000000000" by (simp add: zdiv_zmult2_eq[symmetric])
  moreover have "?t div 300000000000 * 300000000000 \<le> ?t" "?t < ?t div 300000000000 * 300000000000 + 300000000000"
    using div_mult_bounds[of 300000000000 ?t] by simp_all
  ultimately show ?thesis
    by (auto simp: truncateTimestampIfNecessary_def kTimestampTruncationStartTag_def kTimestampTruncationEndTag_def NS_PER_SEC_def)
qed

theorem truncated_timestamp_bounds_witness:
  "truncateTimestampIfNecessary \<lparr>tagId = 300001, event_values = [], elapsedTimestampNs = 700000000001, logUid = 0, resetStateValue = 0,
     exclusiveStateFieldIndex = -1, truncateTimestamp = False\<rparr> \<le> 700000000001"
  using truncated_timestamp_bounds[of "\<lparr>tagId = 300001, event_values = [], elapsedTimestampNs = 700000000001, logUid = 0, resetStateValue = 0,
     exclusiveStateFieldIndex = -1, truncateTimestamp = False\<rparr>"]
  by (simp split: if_splits)

section \<open>The log\<close>

datatype 'l event_input =
    EMatched "condition_tracker list" "'l state_manager" state_event
  | EConditionChanged bool
  | EActivations activations
  | EDump bool
  | EDropData
  | EClearPastBuckets

text \<open>One input; the second result is what leaves the metric, reported or dropped.\<close>

fun event_step :: "'l event_input \<Rightarrow> event_metric \<Rightarrow> event_metric \<times> logged_event list" where
  "event_step (EMatched conditions sm ev) m = (event_onMatchedLogEvent conditions sm ev m, [])"
| "event_step (EConditionChanged c) m = (event_onConditionChangedLocked c m, [])"
| "event_step (EActivations a) m = (m\<lparr>mpActivations := a\<rparr>, [])"
| "event_step (EDump erase) m = (case event_onDumpReportLocked erase m of (m', out) \<Rightarrow> (m', if erase then out else []))"
| "event_step EDropData m = (event_dropDataLocked m, emProto m)"
| "event_step EClearPastBuckets m = (event_clearPastBucketsLocked m, emProto m)"

fun event_run :: "'l event_input list \<Rightarrow> event_metric \<Rightarrow> event_metric \<times> logged_event list" where
  "event_run [] m = (m, [])"
| "event_run (x # xs) m = (case event_step x m of (m1, o1) \<Rightarrow> case event_run xs m1 of (m2, o2) \<Rightarrow> (m2, o1 @ o2))"

text \<open>The specification keeps no log: an event is logged if the metric is active, the event is not older than the metric, and its
  condition is met.\<close>

fun logged_events :: "'l event_input list \<Rightarrow> metric_producer \<Rightarrow> logged_event list" where
  "logged_events [] b = []"
| "logged_events (EMatched conditions sm ev # xs) b =
     (if (\<exists>me. onMatchedLogEventLocked conditions sm ev b = Some me \<and> meCondition me)
      then [(truncateTimestampIfNecessary ev, tagId ev, event_values ev)] else []) @ logged_events xs b"
| "logged_events (EConditionChanged c # xs) b = logged_events xs (b\<lparr>mpCondition := (if c then kTrue else kFalse)\<rparr>)"
| "logged_events (EActivations a # xs) b = logged_events xs (b\<lparr>mpActivations := a\<rparr>)"
| "logged_events (_ # xs) b = logged_events xs b"

lemma matched_truncate: "onMatchedLogEventLocked conditions sm ev (metric_producer.truncate m) = onMatchedLogEventLocked conditions sm ev m"
  by (simp add: onMatchedLogEventLocked_def metric_producer.defs conditionKeyFor_def statePrimaryKeysFor_def stateValuesKeyFor_def
      mapStateValue_def Let_def)

lemma truncate_update [simp]:
  "metric_producer.truncate (m\<lparr>emProto := x\<rparr>) = metric_producer.truncate m"
  "metric_producer.truncate (m\<lparr>mpCondition := c\<rparr>) = (metric_producer.truncate m)\<lparr>mpCondition := c\<rparr>"
  "metric_producer.truncate (m\<lparr>mpActivations := a\<rparr>) = (metric_producer.truncate m)\<lparr>mpActivations := a\<rparr>"
  by (simp_all add: metric_producer.defs)

lemma event_step_log:
  assumes "event_step x m = (m1, out)"
  shows "metric_producer.truncate m1 = (case x of EConditionChanged c \<Rightarrow> (metric_producer.truncate m)\<lparr>mpCondition := (if c then kTrue else kFalse)\<rparr>
       | EActivations a \<Rightarrow> (metric_producer.truncate m)\<lparr>mpActivations := a\<rparr> | _ \<Rightarrow> metric_producer.truncate m)"
    and "out @ emProto m1 = emProto m @ logged_events [x] (metric_producer.truncate m)"
  using assms
  by (cases x; auto simp: event_onMatchedLogEvent_def event_onMatchedLogEventInternalLocked_def event_onConditionChangedLocked_def
      event_onDumpReportLocked_def event_dropDataLocked_def event_clearPastBucketsLocked_def matched_truncate
      split: option.splits if_splits)+


definition example_event_inputs :: "nat event_input list" where
  "example_event_inputs = [EMatched [] newStateManager \<lparr>tagId = 7, event_values = [], elapsedTimestampNs = 5, logUid = 0, resetStateValue = 0,
       exclusiveStateFieldIndex = -1, truncateTimestamp = False\<rparr>, EDump True, EDropData]"


end
