(* ===== verification/GaugeMetric.thy ===== *)
theory GaugeMetric
  imports PulledMetricBase EventMetric
begin

text \<open>
  \<^verbatim>\<open>bin/src/metrics/GaugeMetricProducer.h\<close> and \<^verbatim>\<open>.cpp\<close>: sampling atoms per dimension key and bucket. An event of the trigger atom makes
  the handler pull, and the pulled atoms go through the same handler again. The recursion gets fuel: \<open>None\<close> means
  that it did not end. The members that never change are in \<open>gauge_params\<close>.
\<close>

section \<open>Data\<close>

datatype sampling_type = RANDOM_ONE_SAMPLE | ALL_CONDITION_CHANGES | CONDITION_CHANGE_TO_TRUE | FIRST_N_SAMPLES

record gauge_atom =
  gaFields :: "field_value list"
  gaElapsedTimestampNs :: ns

record gauge_bucket =
  gbBucketStartNs :: ns
  gbBucketEndNs :: ns
  gbGaugeAtoms :: "gauge_atom list"

record gauge_params =
  gpWhatMatcherIndex :: int
  gpPullTagId :: int
  gpTriggerAtomId :: int
  gpAtomId :: int
  gpIsPulled :: bool
  gpMinBucketSizeNs :: ns
  gpMaxPullDelayNs :: ns
  gpDimensionSoftLimit :: nat
  gpDimensionHardLimit :: nat
  gpGaugeAtomsPerDimensionLimit :: nat
  gpSplitBucketForAppUpgrade :: bool
  gpSamplingType :: sampling_type
  gpFieldMatchers :: "matcher list"

record gauge_metric = metric_producer +
  gmParams :: gauge_params
  gmPastBuckets :: "(metric_key, gauge_bucket list) umap"
  gmCurrentSlicedBucket :: "(metric_key, gauge_atom list) umap"
  gmCurrentSlicedBucketForAnomaly :: "(metric_key, int) umap"
  gmCurrentSkippedBucket :: skipped_bucket
  gmSkippedBuckets :: "skipped_bucket list"

section \<open>Buckets\<close>

text \<open>The number anomaly detection reads from a value.\<close>

definition gaugeVal :: "log_value \<Rightarrow> int" where
  "gaugeVal v = (case v of INT_v i \<Rightarrow> sint i | LONG l \<Rightarrow> sint l | _ \<Rightarrow> 0)"

text \<open>\<^verbatim>\<open>mFields->front()\<close> of an atom without fields is undefined; so is \<^const>\<open>hd\<close>.\<close>

definition updateCurrentSlicedBucketForAnomaly :: "gauge_metric \<Rightarrow> (metric_key, int) umap" where
  "updateCurrentSlicedBucketForAnomaly m =
     foldl (\<lambda>acc (k, atoms). if atoms = [] then acc else AList.update k (gaugeVal (fvValue (hd (gaFields (hd atoms))))) acc)
       (gmCurrentSlicedBucketForAnomaly m) (gmCurrentSlicedBucket m)"

definition gauge_flushCurrentBucketLocked :: "ns \<Rightarrow> ns \<Rightarrow> gauge_metric \<Rightarrow> gauge_metric" where
  "gauge_flushCurrentBucketLocked eventTimeNs nextBucketStartTimeNs m =
     (let fullBucketEndTimeNs = getCurrentBucketEndTimeNs m;
          endNs = (if eventTimeNs < fullBucketEndTimeNs then eventTimeNs else fullBucketEndTimeNs);
          m1 = (if endNs - mpCurrentBucketStartTimeNs m \<ge> gpMinBucketSizeNs (gmParams m)
                then m\<lparr>gmPastBuckets := foldl (\<lambda>pb (k, atoms).
                         pushBucket k \<lparr>gbBucketStartNs = mpCurrentBucketStartTimeNs m, gbBucketEndNs = endNs, gbGaugeAtoms = atoms\<rparr> pb)
                       (gmPastBuckets m) (gmCurrentSlicedBucket m)\<rparr>
                else let b = addDropEvent eventTimeNs BUCKET_TOO_SMALL
                             ((gmCurrentSkippedBucket m)\<lparr>skBucketStartTimeNs := mpCurrentBucketStartTimeNs m, skBucketEndTimeNs := endNs\<rparr>)
                     in m\<lparr>gmSkippedBuckets := gmSkippedBuckets m @ [b]\<rparr>);
          m2 = (if length (mpAnomalyTrackers m1) > 0
                then let full = updateCurrentSlicedBucketForAnomaly m1
                     in if eventTimeNs > fullBucketEndTimeNs
                        then m1\<lparr>mpAnomalyTrackers := map (addPastBucket (Some full) (mpCurrentBucketNum m1)) (mpAnomalyTrackers m1),
                                gmCurrentSlicedBucketForAnomaly := []\<rparr>
                        else m1\<lparr>gmCurrentSlicedBucketForAnomaly := full\<rparr>
                else m1)
      in m2\<lparr>gmCurrentSlicedBucket := [], mpCurrentBucketStartTimeNs := nextBucketStartTimeNs,
            gmCurrentSkippedBucket := emptySkippedBucket\<rparr>)"

definition gauge_flushIfNeededLocked :: "ns \<Rightarrow> gauge_metric \<Rightarrow> gauge_metric" where
  "gauge_flushIfNeededLocked eventTimeNs m =
     (let currentBucketEndTimeNs = getCurrentBucketEndTimeNs m
      in if eventTimeNs < currentBucketEndTimeNs then m
         else let numBucketsForward = 1 + (eventTimeNs - currentBucketEndTimeNs) div mpBucketSizeNs m;
                  m1 = gauge_flushCurrentBucketLocked eventTimeNs (currentBucketEndTimeNs + (numBucketsForward - 1) * mpBucketSizeNs m) m
              in m1\<lparr>mpCurrentBucketNum := mpCurrentBucketNum m1 + numBucketsForward\<rparr>)"

definition gauge_flushLocked :: "ns \<Rightarrow> gauge_metric \<Rightarrow> gauge_metric" where
  "gauge_flushLocked eventTimeNs m = gauge_flushCurrentBucketLocked eventTimeNs eventTimeNs (gauge_flushIfNeededLocked eventTimeNs m)"

section \<open>Events\<close>

text \<open>The loop erases every field that matches a dimension.\<close>

definition getGaugeFields :: "gauge_metric \<Rightarrow> field_value list \<Rightarrow> field_value list" where
  "getGaugeFields m vals =
     foldl (\<lambda>fields d. filter (\<lambda>fv. \<not> matches (fvField fv) d) fields)
       (if length (gpFieldMatchers (gmParams m)) > 0 then filterGaugeValues (gpFieldMatchers (gmParams m)) vals else vals)
       (mpDimensionsInWhat m)"

definition gauge_hitGuardRailLocked :: "metric_key \<Rightarrow> gauge_metric \<Rightarrow> bool" where
  "gauge_hitGuardRailLocked newKey m =
     (if map_of (gmCurrentSlicedBucket m) newKey \<noteq> None then False
      else if length (gmCurrentSlicedBucket m) > gpDimensionSoftLimit (gmParams m) - 1
           then length (gmCurrentSlicedBucket m) + 1 > gpDimensionHardLimit (gmParams m) else False)"

definition atomsOf :: "metric_key \<Rightarrow> gauge_metric \<Rightarrow> gauge_atom list" where
  "atomsOf k m = (case map_of (gmCurrentSlicedBucket m) k of None \<Rightarrow> [] | Some atoms \<Rightarrow> atoms)"

text \<open>The handler from the choice of the sample on; \<^verbatim>\<open>operator[]\<close> creates the entry even when the atom is not taken.\<close>

definition gauge_sample :: "metric_key \<Rightarrow> state_event \<Rightarrow> gauge_metric \<Rightarrow> gauge_metric" where
  "gauge_sample eventKey ev m =
     (if map_of (gmCurrentSlicedBucket m) eventKey \<noteq> None \<and> gpSamplingType (gmParams m) = RANDOM_ONE_SAMPLE then m
      else if gauge_hitGuardRailLocked eventKey m then m
      else if length (atomsOf eventKey m) \<ge> gpGaugeAtomsPerDimensionLimit (gmParams m)
      then m\<lparr>gmCurrentSlicedBucket := AList.update eventKey (atomsOf eventKey m) (gmCurrentSlicedBucket m)\<rparr>
      else let fields = getGaugeFields m (event_values ev);
               gaugeAtom = \<lparr>gaFields = fields, gaElapsedTimestampNs = truncateTimestampIfNecessary ev\<rparr>;
               m1 = m\<lparr>gmCurrentSlicedBucket := AList.update eventKey (atomsOf eventKey m @ [gaugeAtom]) (gmCurrentSlicedBucket m)\<rparr>
           in if length (mpAnomalyTrackers m1) > 0 \<and> length fields = 1
              then m1\<lparr>mpAnomalyTrackers :=
                     map (detectAndDeclareAnomaly (elapsedTimestampNs ev) (mpCurrentBucketNum m1) (mpMetricId m1) eventKey (gaugeVal (fvValue (hd fields))))
                       (mpAnomalyTrackers m1)\<rparr>
              else m1)"

fun foldEvents :: "('e \<Rightarrow> 'm \<Rightarrow> 'm option) \<Rightarrow> 'e list \<Rightarrow> 'm \<Rightarrow> 'm option" where
  "foldEvents f [] m = Some m"
| "foldEvents f (e # es) m = (case f e m of None \<Rightarrow> None | Some m1 \<Rightarrow> foldEvents f es m1)"

definition triggersPuller :: "gauge_metric \<Rightarrow> bool" where
  "triggersPuller m =
     (case gpSamplingType (gmParams m) of
        RANDOM_ONE_SAMPLE \<Rightarrow> mpCondition m = kTrue \<and> gmCurrentSlicedBucket m = []
      | CONDITION_CHANGE_TO_TRUE \<Rightarrow> mpCondition m = kTrue
      | FIRST_N_SAMPLES \<Rightarrow> mpCondition m = kTrue
      | ALL_CONDITION_CHANGES \<Rightarrow> False)"

text \<open>\<^verbatim>\<open>pullAndMatchEventsLocked\<close>, given the handler for the pulled atoms.\<close>

definition pullWith :: "(state_event \<Rightarrow> gauge_metric \<Rightarrow> gauge_metric option) \<Rightarrow> 'l pull_env \<Rightarrow> ns \<Rightarrow> gauge_metric \<Rightarrow> gauge_metric option" where
  "pullWith handler env timestampNs m =
     (if \<not> triggersPuller m then Some m
      else case pePull env timestampNs of
             None \<Rightarrow> Some m
           | Some allData \<Rightarrow>
               if peElapsedRealtimeNs env - timestampNs > gpMaxPullDelayNs (gmParams m) then Some m
               else foldEvents (\<lambda>ev m.
                      let localCopy = ev\<lparr>elapsedTimestampNs := timestampNs\<rparr>
                      in if matchLogEvent env (log_event.truncate localCopy) (gpWhatMatcherIndex (gmParams m)) = kMatched
                         then handler localCopy m else Some m) allData m)"

text \<open>\<^verbatim>\<open>onMatchedLogEventLocked\<close> with \<^verbatim>\<open>onMatchedLogEventInternalLocked\<close>, given what pulls.\<close>

definition gauge_event ::
  "(ns \<Rightarrow> gauge_metric \<Rightarrow> gauge_metric option) \<Rightarrow> 'l pull_env \<Rightarrow> state_event \<Rightarrow> gauge_metric \<Rightarrow> gauge_metric option" where
  "gauge_event pull env ev m =
     (case onMatchedLogEventLocked (peConditions env) (peStates env) ev m of
        None \<Rightarrow> Some m
      | Some me \<Rightarrow>
          if \<not> meCondition me then Some m
          else if meTimeNs me < mpCurrentBucketStartTimeNs m then Some m
          else let m1 = gauge_flushIfNeededLocked (meTimeNs me) m
               in if gpTriggerAtomId (gmParams m1) = sint (tagId ev) then pull (meTimeNs me) m1
                  else Some (gauge_sample (meKey me) ev m1))"

primrec gauge_onMatchedLogEvent :: "nat \<Rightarrow> 'l pull_env \<Rightarrow> state_event \<Rightarrow> gauge_metric \<Rightarrow> gauge_metric option" where
  "gauge_onMatchedLogEvent 0 env ev m = gauge_event (\<lambda>t m. None) env ev m"
| "gauge_onMatchedLogEvent (Suc n) env ev m = gauge_event (pullWith (gauge_onMatchedLogEvent n env) env) env ev m"

definition gauge_pullAndMatchEventsLocked :: "nat \<Rightarrow> 'l pull_env \<Rightarrow> ns \<Rightarrow> gauge_metric \<Rightarrow> gauge_metric option" where
  "gauge_pullAndMatchEventsLocked n env = pullWith (gauge_onMatchedLogEvent n env) env"

definition gauge_onDataPulled :: "nat \<Rightarrow> 'l pull_env \<Rightarrow> state_event list \<Rightarrow> bool \<Rightarrow> ns \<Rightarrow> gauge_metric \<Rightarrow> gauge_metric option" where
  "gauge_onDataPulled n env allData pullSuccess originalPullTimeNs m =
     (if \<not> pullSuccess \<or> allData = [] then Some m
      else if peElapsedRealtimeNs env - originalPullTimeNs > gpMaxPullDelayNs (gmParams m) then Some m
      else foldEvents (\<lambda>ev m. if matchLogEvent env (log_event.truncate ev) (gpWhatMatcherIndex (gmParams m)) = kMatched
                              then gauge_onMatchedLogEvent n env ev m else Some m) allData m)"

section \<open>Other handlers\<close>

definition gauge_prepareFirstBucketLocked :: "nat \<Rightarrow> 'l pull_env \<Rightarrow> gauge_metric \<Rightarrow> gauge_metric option" where
  "gauge_prepareFirstBucketLocked n env m =
     (if mIsActive (mpActivations m) \<and> gpIsPulled (gmParams m) \<and> gpSamplingType (gmParams m) = RANDOM_ONE_SAMPLE
      then gauge_pullAndMatchEventsLocked n env (mpCurrentBucketStartTimeNs m) m else Some m)"

definition gauge_onActiveStateChangedLocked :: "nat \<Rightarrow> 'l pull_env \<Rightarrow> ns \<Rightarrow> gauge_metric \<Rightarrow> gauge_metric option" where
  "gauge_onActiveStateChangedLocked n env eventTimeNs m0 =
     (let m = (if mIsActive (mpActivations m0) then m0 else gauge_flushLocked eventTimeNs m0); p = gmParams m
      in if mpCondition m \<noteq> kTrue \<or> \<not> gpIsPulled p then Some m
         else if gpTriggerAtomId p = -1 \<or> (mIsActive (mpActivations m) \<and> gpSamplingType p = RANDOM_ONE_SAMPLE)
         then gauge_pullAndMatchEventsLocked n env eventTimeNs m else Some m)"

text \<open>\<^verbatim>\<open>onConditionChangedLocked\<close> and \<^verbatim>\<open>onSlicedConditionMayChangeLocked\<close> have the same body.\<close>

definition gauge_onConditionChangedLocked :: "nat \<Rightarrow> 'l pull_env \<Rightarrow> bool \<Rightarrow> ns \<Rightarrow> gauge_metric \<Rightarrow> gauge_metric option" where
  "gauge_onConditionChangedLocked n env conditionMet eventTimeNs m0 =
     (let m = m0\<lparr>mpCondition := (if conditionMet then kTrue else kFalse)\<rparr>
      in if \<not> mIsActive (mpActivations m) then Some m
         else let m1 = gauge_flushIfNeededLocked eventTimeNs m
              in if gpIsPulled (gmParams m1) \<and> gpTriggerAtomId (gmParams m1) = -1
                 then gauge_pullAndMatchEventsLocked n env eventTimeNs m1 else Some m1)"

definition gauge_onSlicedConditionMayChangeLocked :: "nat \<Rightarrow> 'l pull_env \<Rightarrow> bool \<Rightarrow> ns \<Rightarrow> gauge_metric \<Rightarrow> gauge_metric option" where
  "gauge_onSlicedConditionMayChangeLocked n env overallCondition eventTimeNs m =
     gauge_onConditionChangedLocked n env overallCondition eventTimeNs m"

definition gauge_onStatsdInitCompleted :: "nat \<Rightarrow> 'l pull_env \<Rightarrow> ns \<Rightarrow> gauge_metric \<Rightarrow> gauge_metric option" where
  "gauge_onStatsdInitCompleted n env eventTimeNs m0 =
     (let m = gauge_flushLocked eventTimeNs m0
      in if gpIsPulled (gmParams m) \<and> gpSamplingType (gmParams m) = RANDOM_ONE_SAMPLE
         then gauge_pullAndMatchEventsLocked n env eventTimeNs m else Some m)"

definition gauge_notifyAppUpgrade :: "nat \<Rightarrow> 'l pull_env \<Rightarrow> ns \<Rightarrow> gauge_metric \<Rightarrow> gauge_metric option" where
  "gauge_notifyAppUpgrade n env eventTimeNs m =
     (if \<not> gpSplitBucketForAppUpgrade (gmParams m) then Some m else gauge_onStatsdInitCompleted n env eventTimeNs m)"

definition gauge_clearPastBucketsLocked :: "ns \<Rightarrow> gauge_metric \<Rightarrow> gauge_metric" where
  "gauge_clearPastBucketsLocked dumpTimeNs m = (gauge_flushIfNeededLocked dumpTimeNs m)\<lparr>gmPastBuckets := [], gmSkippedBuckets := []\<rparr>"

definition gauge_dropDataLocked :: "ns \<Rightarrow> gauge_metric \<Rightarrow> gauge_metric" where
  "gauge_dropDataLocked dropTimeNs m = (gauge_flushIfNeededLocked dropTimeNs m)\<lparr>gmPastBuckets := []\<rparr>"

definition gauge_onDumpReportLocked ::
  "ns \<Rightarrow> bool \<Rightarrow> bool \<Rightarrow> gauge_metric \<Rightarrow> gauge_metric \<times> skipped_bucket list \<times> (metric_key, gauge_bucket list) umap" where
  "gauge_onDumpReportLocked dumpTimeNs include_current_partial_bucket erase_data m0 =
     (let m = (if include_current_partial_bucket then gauge_flushLocked dumpTimeNs m0 else gauge_flushIfNeededLocked dumpTimeNs m0)
      in if gmPastBuckets m = [] \<and> gmSkippedBuckets m = [] then (m, [], [])
         else (if erase_data then m\<lparr>gmPastBuckets := [], gmSkippedBuckets := []\<rparr> else m, gmSkippedBuckets m, gmPastBuckets m))"

definition gauge_byteSizeLocked :: "int \<Rightarrow> int \<Rightarrow> gauge_metric \<Rightarrow> int" where
  "gauge_byteSizeLocked gaugeAtomSize fieldValueSize m =
     sum_list (map (\<lambda>(k, bs). sum_list (map (\<lambda>b. int (length (gbGaugeAtoms b)) * gaugeAtomSize +
       sum_list (map (\<lambda>a. int (length (gaFields a)) * fieldValueSize) (gbGaugeAtoms b))) bs)) (gmPastBuckets m))"

text \<open>The configuration message, less what sets the fields of the base class; \<^verbatim>\<open>None\<close> for the filter is \<^verbatim>\<open>include_all\<close>. The
  int64 limit becomes a \<^verbatim>\<open>size_t\<close>.\<close>

record gauge_config =
  gcMinBucketSizeNanos :: ns
  gcMaxPullDelaySec :: int
  gcMaxNumGaugeAtomsPerBucket :: i64
  gcSplitBucketForAppUpgrade :: bool
  gcBucket :: "time_unit option"
  gcSamplingType :: sampling_type
  gcGaugeFieldsFilter :: "field_matcher option"

definition gaugeParamsFor :: "(int, nat \<times> nat) umap \<Rightarrow> gauge_config \<Rightarrow> int \<Rightarrow> int \<Rightarrow> int \<Rightarrow> int \<Rightarrow> gauge_params" where
  "gaugeParamsFor limits c whatMatcherIndex pullTagId triggerAtomId atomId =
     (let (soft, hard) = dimensionLimitsFor limits pullTagId
      in \<lparr>gpWhatMatcherIndex = whatMatcherIndex, gpPullTagId = pullTagId, gpTriggerAtomId = triggerAtomId, gpAtomId = atomId,
          gpIsPulled = (pullTagId \<noteq> -1), gpMinBucketSizeNs = gcMinBucketSizeNanos c, gpMaxPullDelayNs = maxPullDelayNsFor (gcMaxPullDelaySec c),
          gpDimensionSoftLimit = soft, gpDimensionHardLimit = hard, gpGaugeAtomsPerDimensionLimit = unat (gcMaxNumGaugeAtomsPerBucket c),
          gpSplitBucketForAppUpgrade = gcSplitBucketForAppUpgrade c, gpSamplingType = gcSamplingType c,
          gpFieldMatchers = (case gcGaugeFieldsFilter c of None \<Rightarrow> [] | Some f \<Rightarrow> translateFieldMatcher f)\<rparr>)"

definition newGaugeMetricProducer ::
  "(int, nat \<times> nat) umap \<Rightarrow> metric_producer \<Rightarrow> gauge_config \<Rightarrow> int \<Rightarrow> int \<Rightarrow> int \<Rightarrow> int \<Rightarrow> int \<Rightarrow> ns \<Rightarrow> ns \<Rightarrow> gauge_metric" where
  "newGaugeMetricProducer limits b c uid whatMatcherIndex pullTagId triggerAtomId atomId timeBaseNs startTimeNs =
     (gauge_flushIfNeededLocked startTimeNs
        (metric_producer.extend
           (b\<lparr>mpTimeBaseNs := timeBaseNs, mpCurrentBucketStartTimeNs := timeBaseNs, mpCurrentBucketNum := 0,
              mpBucketSizeNs := bucketSizeNsFor uid (gcBucket c), mpSlicedStateAtoms := [], mpStateGroupMap := []\<rparr>)
           (gauge_metric.fields (gaugeParamsFor limits c whatMatcherIndex pullTagId triggerAtomId atomId) [] [] [] emptySkippedBucket [])))
     \<lparr>mpCurrentBucketStartTimeNs := startTimeNs\<rparr>"

end
