(* ===== verification/GaugeBuckets.thy ===== *)
theory GaugeBuckets
  imports GaugeMetric
begin

text \<open>
  The invariant of gauge metrics under all their handlers: bucket times, limits on keys and atoms, the reported and the skipped
  buckets; when the mutual recursion of the event handler and the pull ends; and which atoms a bucket samples.
\<close>

section \<open>The invariant\<close>

definition atoms_ok :: "gauge_params \<Rightarrow> ns \<Rightarrow> gauge_atom list \<Rightarrow> bool" where
  "atoms_ok p startNs atoms \<longleftrightarrow> (atoms = [] \<longrightarrow> gpGaugeAtomsPerDimensionLimit p = 0) \<and> length atoms \<le> gpGaugeAtomsPerDimensionLimit p \<and>
     (gpSamplingType p = RANDOM_ONE_SAMPLE \<longrightarrow> length atoms \<le> 1) \<and>
     (\<forall>a \<in> set atoms. startNs < gaElapsedTimestampNs a + 300 * NS_PER_SEC)"

text \<open>A reported bucket is a part of an aligned bucket and large enough, a skipped one is too small and says so.\<close>

definition gauge_bucket_ok :: "gauge_metric \<Rightarrow> gauge_bucket \<Rightarrow> bool" where
  "gauge_bucket_ok m b \<longleftrightarrow> gpMinBucketSizeNs (gmParams m) \<le> gbBucketEndNs b - gbBucketStartNs b \<and>
     atoms_ok (gmParams m) (gbBucketStartNs b) (gbGaugeAtoms b) \<and>
     (\<exists>n. mpTimeBaseNs m + n * mpBucketSizeNs m \<le> gbBucketStartNs b \<and> gbBucketEndNs b \<le> mpTimeBaseNs m + (n + 1) * mpBucketSizeNs m)"

definition gauge_skipped_ok :: "gauge_metric \<Rightarrow> skipped_bucket \<Rightarrow> bool" where
  "gauge_skipped_ok m b \<longleftrightarrow> skBucketStartTimeNs b \<le> skBucketEndTimeNs b \<and>
     skBucketEndTimeNs b - skBucketStartTimeNs b < gpMinBucketSizeNs (gmParams m) \<and> map deReason (skDropEvents b) = [BUCKET_TOO_SMALL]"

definition gauge_limits_ok :: "gauge_params \<Rightarrow> bool" where
  "gauge_limits_ok p \<longleftrightarrow> 0 < gpDimensionSoftLimit p \<and> gpDimensionSoftLimit p \<le> gpDimensionHardLimit p"

definition gauge_ok :: "gauge_metric \<Rightarrow> bool" where
  "gauge_ok m \<longleftrightarrow> bucket_times_ok m \<and> gauge_limits_ok (gmParams m) \<and> gmCurrentSkippedBucket m = emptySkippedBucket \<and>
     umap_ok (gmCurrentSlicedBucket m) \<and> length (gmCurrentSlicedBucket m) \<le> gpDimensionHardLimit (gmParams m) \<and>
     (\<forall>(k, atoms) \<in> set (gmCurrentSlicedBucket m). atoms_ok (gmParams m) (mpCurrentBucketStartTimeNs m) atoms) \<and>
     buckets_ok gbBucketStartNs gbBucketEndNs (gauge_bucket_ok m) (gmPastBuckets m) (mpCurrentBucketStartTimeNs m) \<and>
     list_all (gauge_skipped_ok m) (gmSkippedBuckets m)"

section \<open>Flushing\<close>

definition gauge_endNs :: "ns \<Rightarrow> gauge_metric \<Rightarrow> ns" where
  "gauge_endNs t m = (if t < getCurrentBucketEndTimeNs m then t else getCurrentBucketEndTimeNs m)"

named_theorems gauge_frame

lemma gauge_flushCurrent_fields [gauge_frame]:
  "mpTimeBaseNs (gauge_flushCurrentBucketLocked t nb m) = mpTimeBaseNs m"
  "mpBucketSizeNs (gauge_flushCurrentBucketLocked t nb m) = mpBucketSizeNs m"
  "mpCurrentBucketNum (gauge_flushCurrentBucketLocked t nb m) = mpCurrentBucketNum m"
  "mpCurrentBucketStartTimeNs (gauge_flushCurrentBucketLocked t nb m) = nb"
  "mpCondition (gauge_flushCurrentBucketLocked t nb m) = mpCondition m"
  "mpActivations (gauge_flushCurrentBucketLocked t nb m) = mpActivations m"
  "gmParams (gauge_flushCurrentBucketLocked t nb m) = gmParams m"
  "gmCurrentSlicedBucket (gauge_flushCurrentBucketLocked t nb m) = []"
  "gmCurrentSkippedBucket (gauge_flushCurrentBucketLocked t nb m) = emptySkippedBucket"
  by (simp_all add: gauge_flushCurrentBucketLocked_def Let_def)

lemma gauge_flushCurrent_buckets:
  "gmPastBuckets (gauge_flushCurrentBucketLocked t nb m) =
     (if gauge_endNs t m - mpCurrentBucketStartTimeNs m \<ge> gpMinBucketSizeNs (gmParams m)
      then foldl (\<lambda>pb (k, atoms). pushBucket k \<lparr>gbBucketStartNs = mpCurrentBucketStartTimeNs m, gbBucketEndNs = gauge_endNs t m, gbGaugeAtoms = atoms\<rparr> pb)
             (gmPastBuckets m) (gmCurrentSlicedBucket m)
      else gmPastBuckets m)"
  "gmSkippedBuckets (gauge_flushCurrentBucketLocked t nb m) =
     (if gauge_endNs t m - mpCurrentBucketStartTimeNs m \<ge> gpMinBucketSizeNs (gmParams m) then gmSkippedBuckets m
      else gmSkippedBuckets m @ [addDropEvent t BUCKET_TOO_SMALL
             ((gmCurrentSkippedBucket m)\<lparr>skBucketStartTimeNs := mpCurrentBucketStartTimeNs m, skBucketEndTimeNs := gauge_endNs t m\<rparr>)])"
  by (simp_all add: gauge_flushCurrentBucketLocked_def gauge_endNs_def Let_def)

lemma gauge_ok_cong:
  assumes "mpTimeBaseNs m' = mpTimeBaseNs m" "mpBucketSizeNs m' = mpBucketSizeNs m" "gmParams m' = gmParams m"
  shows "gauge_bucket_ok m' = gauge_bucket_ok m" "gauge_skipped_ok m' = gauge_skipped_ok m"
  using assms by (auto simp: fun_eq_iff gauge_bucket_ok_def gauge_skipped_ok_def)

lemma gauge_flushCurrent_ok:
  assumes "gauge_ok m" "mpCurrentBucketStartTimeNs m \<le> t" "gauge_endNs t m \<le> nb"
    and "m' = (gauge_flushCurrentBucketLocked t nb m)\<lparr>mpCurrentBucketNum := n\<rparr>" and "bucket_times_ok m'"
  shows "gauge_ok m'"
proof -
  let ?e = "gauge_endNs t m" and ?s = "mpCurrentBucketStartTimeNs m"
  have f: "mpTimeBaseNs m' = mpTimeBaseNs m" "mpBucketSizeNs m' = mpBucketSizeNs m" "gmParams m' = gmParams m"
    by (simp_all add: assms(4) gauge_frame)
  have s: "?s \<le> ?e" using assms(1,2) by (auto simp: gauge_endNs_def gauge_ok_def bucket_times_ok_def)
  have al: "mpTimeBaseNs m + mpCurrentBucketNum m * mpBucketSizeNs m \<le> ?s"
    "?e \<le> mpTimeBaseNs m + (mpCurrentBucketNum m + 1) * mpBucketSizeNs m"
    using assms(1) by (auto simp: gauge_endNs_def gauge_ok_def bucket_times_ok_def getCurrentBucketEndTimeNs_def)
  have p: "umap_ok (gmCurrentSlicedBucket m)" "buckets_ok gbBucketStartNs gbBucketEndNs (gauge_bucket_ok m) (gmPastBuckets m) ?s"
    using assms(1) by (simp_all add: gauge_ok_def)
  have a: "atoms_ok (gmParams m) ?s atoms" if "(k, atoms) \<in> set (gmCurrentSlicedBucket m)" for k atoms
    using assms(1) that by (auto simp: gauge_ok_def)
  have "buckets_ok gbBucketStartNs gbBucketEndNs (gauge_bucket_ok m)
     (foldl (\<lambda>pb (k, atoms). pushBucket k \<lparr>gbBucketStartNs = ?s, gbBucketEndNs = ?e, gbGaugeAtoms = atoms\<rparr> pb) (gmPastBuckets m) (gmCurrentSlicedBucket m)) ?e"
    if "?e - ?s \<ge> gpMinBucketSizeNs (gmParams m)"
    by (rule buckets_ok_push[OF p(2) s p(1)]) (use that a al in \<open>auto simp: gauge_bucket_ok_def\<close>)
  then have "buckets_ok gbBucketStartNs gbBucketEndNs (gauge_bucket_ok m) (gmPastBuckets m') nb"
    using buckets_ok_later[OF p(2)] s assms(3) by (auto simp: assms(4) gauge_flushCurrent_buckets intro: buckets_ok_later)
  moreover have "list_all (gauge_skipped_ok m) (gmSkippedBuckets m')"
    using assms(1) s by (auto simp: assms(4) gauge_flushCurrent_buckets gauge_ok_def gauge_skipped_ok_def addDropEvent_def
        maxDropEventsReached_def kMaxLoggedBucketDropEvents_def emptySkippedBucket_def buildDropEvent_def)
  ultimately show ?thesis
    using assms(1,5) by (simp add: gauge_ok_def gauge_ok_cong[OF f]) (simp add: assms(4) gauge_frame)
qed

lemma gauge_flushIfNeeded_ok:
  assumes "gauge_ok m"
  shows "gauge_ok (gauge_flushIfNeededLocked t m) \<and> t < getCurrentBucketEndTimeNs (gauge_flushIfNeededLocked t m) \<and>
    (mpCurrentBucketStartTimeNs m \<le> t \<longrightarrow> mpCurrentBucketStartTimeNs (gauge_flushIfNeededLocked t m) \<le> t)"
proof (cases "t < getCurrentBucketEndTimeNs m")
  case True
  then show ?thesis using assms by (simp add: gauge_flushIfNeededLocked_def)
next
  case False
  define e where "e = getCurrentBucketEndTimeNs m"
  define n where "n = 1 + (t - e) div mpBucketSizeNs m"
  let ?nb = "e + (n - 1) * mpBucketSizeNs m" and ?m = "gauge_flushIfNeededLocked t m"
  have bt: "bucket_times_ok m" using assms by (simp add: gauge_ok_def)
  have b: "1 \<le> n" "?nb \<le> t" "t < e + n * mpBucketSizeNs m"
    using next_bucket_bounds[of "mpBucketSizeNs m" e t] bt False by (simp_all add: bucket_times_ok_def e_def n_def)
  have e: "e = mpTimeBaseNs m + (mpCurrentBucketNum m + 1) * mpBucketSizeNs m" by (simp add: e_def getCurrentBucketEndTimeNs_def)
  have m: "?m = (gauge_flushCurrentBucketLocked t ?nb m)\<lparr>mpCurrentBucketNum := mpCurrentBucketNum m + n\<rparr>"
    using False by (simp add: gauge_flushIfNeededLocked_def Let_def gauge_frame e_def n_def)
  have t: "bucket_times_ok ?m" "t < getCurrentBucketEndTimeNs ?m" "mpCurrentBucketStartTimeNs ?m \<le> t"
    using b e bt by (simp_all add: m bucket_times_ok_def getCurrentBucketEndTimeNs_def gauge_frame algebra_simps)
  have "0 \<le> (n - 1) * mpBucketSizeNs m" using b(1) bt by (simp add: bucket_times_ok_def)
  then have "gauge_endNs t m \<le> ?nb" using False by (simp add: gauge_endNs_def e_def)
  moreover have "mpCurrentBucketStartTimeNs m \<le> t" using bt False by (simp add: bucket_times_ok_def)
  ultimately show ?thesis using gauge_flushCurrent_ok[OF assms _ _ m t(1)] t by simp
qed

lemma gauge_flush_ok:
  assumes "gauge_ok m" "mpCurrentBucketStartTimeNs m \<le> t"
  shows "gauge_ok (gauge_flushLocked t m) \<and> mpCurrentBucketStartTimeNs (gauge_flushLocked t m) = t"
proof -
  let ?n = "gauge_flushIfNeededLocked t m"
  note n = gauge_flushIfNeeded_ok[OF assms(1), of t]
  have t: "mpCurrentBucketStartTimeNs ?n \<le> t" "t < getCurrentBucketEndTimeNs ?n" using n assms(2) by simp_all
  have m: "gauge_flushLocked t m = (gauge_flushCurrentBucketLocked t t ?n)\<lparr>mpCurrentBucketNum := mpCurrentBucketNum ?n\<rparr>"
    using gauge_flushCurrent_fields(3)[of t t ?n, symmetric] by (simp add: gauge_flushLocked_def)
  have "bucket_times_ok (gauge_flushLocked t m)"
    using n t by (simp add: m gauge_ok_def bucket_times_ok_def getCurrentBucketEndTimeNs_def gauge_frame)
  then show ?thesis
    using gauge_flushCurrent_ok[OF _ t(1) _ m] n t by (simp add: gauge_endNs_def) (simp add: m gauge_frame)
qed


section \<open>Sampling\<close>

lemma truncated_close: "elapsedTimestampNs ev < truncateTimestampIfNecessary ev + 300 * NS_PER_SEC"
proof -
  let ?t = "elapsedTimestampNs ev"
  have "?t div 1000000000 div 300 = ?t div 300000000000" by (simp add: zdiv_zmult2_eq[symmetric])
  then show ?thesis using div_mult_bounds[of 300000000000 ?t] by (auto simp: truncateTimestampIfNecessary_def NS_PER_SEC_def)
qed

lemma gauge_sample_frame [gauge_frame]:
  "mpTimeBaseNs (gauge_sample k ev m) = mpTimeBaseNs m" "mpBucketSizeNs (gauge_sample k ev m) = mpBucketSizeNs m"
  "mpCurrentBucketNum (gauge_sample k ev m) = mpCurrentBucketNum m"
  "mpCurrentBucketStartTimeNs (gauge_sample k ev m) = mpCurrentBucketStartTimeNs m"
  "gmParams (gauge_sample k ev m) = gmParams m" "gmPastBuckets (gauge_sample k ev m) = gmPastBuckets m"
  "gmSkippedBuckets (gauge_sample k ev m) = gmSkippedBuckets m" "gmCurrentSkippedBucket (gauge_sample k ev m) = gmCurrentSkippedBucket m"
  by (simp_all add: gauge_sample_def Let_def)

text \<open>The slices after a sample: at most one entry changes, by at most one atom.\<close>

lemma gauge_sample_slices:
  obtains "gmCurrentSlicedBucket (gauge_sample k ev m) = gmCurrentSlicedBucket m"
  | atoms where "gmCurrentSlicedBucket (gauge_sample k ev m) = AList.update k atoms (gmCurrentSlicedBucket m)"
      "\<not> gauge_hitGuardRailLocked k m" "atoms = atomsOf k m \<and> gpGaugeAtomsPerDimensionLimit (gmParams m) \<le> length atoms \<or> length (atomsOf k m) < gpGaugeAtomsPerDimensionLimit (gmParams m) \<and>
        (gpSamplingType (gmParams m) = RANDOM_ONE_SAMPLE \<longrightarrow> atomsOf k m = []) \<and>
        (\<exists>fs. atoms = atomsOf k m @ [\<lparr>gaFields = fs, gaElapsedTimestampNs = truncateTimestampIfNecessary ev\<rparr>])"
proof -
  show thesis
  proof (cases "map_of (gmCurrentSlicedBucket m) k \<noteq> None \<and> gpSamplingType (gmParams m) = RANDOM_ONE_SAMPLE \<or> gauge_hitGuardRailLocked k m")
    case True
    then show ?thesis using that(1) by (auto simp: gauge_sample_def)
  next
    case False
    then have "gpSamplingType (gmParams m) = RANDOM_ONE_SAMPLE \<longrightarrow> atomsOf k m = []" by (auto simp: atomsOf_def)
    with False show ?thesis
      using that(2)[of "atomsOf k m"] that(2)[of "atomsOf k m @ [\<lparr>gaFields = getGaugeFields m (event_values ev), gaElapsedTimestampNs = truncateTimestampIfNecessary ev\<rparr>]"]
      by (cases "length (atomsOf k m) \<ge> gpGaugeAtomsPerDimensionLimit (gmParams m)") (auto simp: gauge_sample_def Let_def)
  qed
qed

lemma guard_room:
  assumes "\<not> gauge_hitGuardRailLocked k m" "gauge_limits_ok (gmParams m)"
    and "length (gmCurrentSlicedBucket m) \<le> gpDimensionHardLimit (gmParams m)"
  shows "length (AList.update k v (gmCurrentSlicedBucket m)) \<le> gpDimensionHardLimit (gmParams m)"
proof (cases "map_of (gmCurrentSlicedBucket m) k")
  case None
  then show ?thesis using assms length_update_absent[OF None, of v]
    by (auto simp: gauge_hitGuardRailLocked_def gauge_limits_ok_def split: if_splits)
next
  case (Some y)
  then show ?thesis using assms(3) length_update_present[of "gmCurrentSlicedBucket m" k v] by simp
qed

lemma gauge_sample_ok:
  assumes "gauge_ok m" "mpCurrentBucketStartTimeNs m \<le> elapsedTimestampNs ev"
  shows "gauge_ok (gauge_sample k ev m)"
proof (rule gauge_sample_slices[of k ev m])
  assume "gmCurrentSlicedBucket (gauge_sample k ev m) = gmCurrentSlicedBucket m"
  then show ?thesis using assms(1) gauge_ok_cong[of "gauge_sample k ev m" m]
    by (simp add: gauge_ok_def gauge_frame bucket_times_ok_def getCurrentBucketEndTimeNs_def)
next
  let ?p = "gmParams m" and ?s = "mpCurrentBucketStartTimeNs m"
  fix atoms assume u: "gmCurrentSlicedBucket (gauge_sample k ev m) = AList.update k atoms (gmCurrentSlicedBucket m)"
    and g: "\<not> gauge_hitGuardRailLocked k m"
    and a: "atoms = atomsOf k m \<and> gpGaugeAtomsPerDimensionLimit (gmParams m) \<le> length atoms \<or> length (atomsOf k m) < gpGaugeAtomsPerDimensionLimit ?p \<and>
        (gpSamplingType ?p = RANDOM_ONE_SAMPLE \<longrightarrow> atomsOf k m = []) \<and>
        (\<exists>fs. atoms = atomsOf k m @ [\<lparr>gaFields = fs, gaElapsedTimestampNs = truncateTimestampIfNecessary ev\<rparr>])"
  have "atomsOf k m = [] \<or> atoms_ok ?p ?s (atomsOf k m)"
    using assms(1) by (auto simp: atomsOf_def gauge_ok_def dest: map_of_SomeD split: option.split)
  then have "atoms_ok ?p ?s atoms" using a assms(2) truncated_close[of ev] by (auto simp: atoms_ok_def)
  moreover have "set (AList.update k atoms c) \<subseteq> insert (k, atoms) (set c)" for c by (induction c) auto
  ultimately have "\<forall>(k, atoms) \<in> set (AList.update k atoms (gmCurrentSlicedBucket m)). atoms_ok ?p ?s atoms"
    using assms(1) by (fastforce simp: gauge_ok_def)
  moreover have "length (AList.update k atoms (gmCurrentSlicedBucket m)) \<le> gpDimensionHardLimit ?p"
    by (rule guard_room[OF g]) (use assms(1) in \<open>simp_all add: gauge_ok_def\<close>)
  ultimately show ?thesis using assms(1) gauge_ok_cong[of "gauge_sample k ev m" m] u
    by (simp add: gauge_ok_def gauge_frame bucket_times_ok_def getCurrentBucketEndTimeNs_def)
qed

section \<open>Events and pulls\<close>

text \<open>The handlers return, with the invariant and the same parameters, when no pulled atom is the trigger atom.\<close>

definition gauge_good :: "gauge_params \<Rightarrow> gauge_metric \<Rightarrow> bool" where
  "gauge_good p m \<longleftrightarrow> gauge_ok m \<and> gmParams m = p"

definition returns :: "('m \<Rightarrow> bool) \<Rightarrow> 'm option \<Rightarrow> bool" where
  "returns P r \<longleftrightarrow> (case r of None \<Rightarrow> False | Some m \<Rightarrow> P m)"

lemma returns_Some [simp]: "returns P (Some m) = P m"
  by (simp add: returns_def)

definition quiet :: "'l pull_env \<Rightarrow> int \<Rightarrow> bool" where
  "quiet env trigger \<longleftrightarrow> (\<forall>t evs ev. pePull env t = Some evs \<longrightarrow> ev \<in> set evs \<longrightarrow> sint (tagId ev) \<noteq> trigger)"

lemma gauge_flush_params [gauge_frame]:
  "gmParams (gauge_flushIfNeededLocked t m) = gmParams m" "gmParams (gauge_flushLocked t m) = gmParams m"
  by (simp_all add: gauge_flushIfNeededLocked_def gauge_flushLocked_def Let_def gauge_frame)

lemma foldEvents_returns:
  assumes "\<And>e m. e \<in> set es \<Longrightarrow> P m \<Longrightarrow> returns P (f e m)" and "P m"
  shows "returns P (foldEvents f es m)"
  using assms
proof (induction es arbitrary: m)
  case (Cons e es)
  obtain m1 where "f e m = Some m1" "P m1" using Cons.prems(1)[of e, OF _ Cons.prems(2)] by (auto simp: returns_def split: option.splits)
  then show ?case using Cons.IH[of m1] Cons.prems(1) by simp
qed simp

lemma gauge_event_returns:
  assumes "gauge_good p m" and "sint (tagId ev) = gpTriggerAtomId p \<Longrightarrow> (\<And>t m. gauge_good p m \<Longrightarrow> returns (gauge_good p) (pull t m))"
  shows "returns (gauge_good p) (gauge_event pull env ev m)"
proof (cases "onMatchedLogEventLocked (peConditions env) (peStates env) ev m")
  case None
  then show ?thesis using assms(1) by (simp add: gauge_event_def)
next
  case (Some me)
  have t: "meTimeNs me = elapsedTimestampNs ev" using Some by (auto simp: onMatchedLogEventLocked_def Let_def split: if_splits)
  let ?m = "gauge_flushIfNeededLocked (meTimeNs me) m"
  have g: "gauge_good p ?m" using gauge_flushIfNeeded_ok[of m] assms(1) by (simp add: gauge_good_def gauge_frame)
  have "gauge_good p (gauge_sample (meKey me) ev ?m)" if "mpCurrentBucketStartTimeNs m \<le> meTimeNs me"
    using gauge_sample_ok[of ?m ev] gauge_flushIfNeeded_ok[of m "meTimeNs me"] assms(1) that t by (simp add: gauge_good_def gauge_frame)
  moreover have "gpTriggerAtomId (gmParams ?m) = gpTriggerAtomId p" using g by (simp add: gauge_good_def)
  ultimately show ?thesis using assms g by (auto simp: gauge_event_def Some Let_def)
qed

lemma gauge_onMatched_quiet:
  "gauge_good p m \<Longrightarrow> sint (tagId ev) \<noteq> gpTriggerAtomId p \<Longrightarrow> returns (gauge_good p) (gauge_onMatchedLogEvent n env ev m)"
  by (cases n) (auto intro: gauge_event_returns)

lemma gauge_pull_returns:
  assumes "gauge_good p m" "quiet env (gpTriggerAtomId p)"
  shows "returns (gauge_good p) (gauge_pullAndMatchEventsLocked n env t m)"
proof -
  have "returns (gauge_good p) (foldEvents (\<lambda>ev m. let localCopy = ev\<lparr>elapsedTimestampNs := t\<rparr>
          in if matchLogEvent env (log_event.truncate localCopy) (gpWhatMatcherIndex (gmParams m)) = kMatched
             then gauge_onMatchedLogEvent n env localCopy m else Some m) allData m)" if "pePull env t = Some allData" for allData
    by (rule foldEvents_returns[where P = "gauge_good p", OF _ assms(1)])
       (use that assms(2) in \<open>auto simp: Let_def quiet_def intro!: gauge_onMatched_quiet\<close>)
  then show ?thesis using assms(1) by (auto simp: gauge_pullAndMatchEventsLocked_def pullWith_def split: option.split)
qed

lemma gauge_onMatched_returns:
  assumes "gauge_good p m" "quiet env (gpTriggerAtomId p)"
  shows "returns (gauge_good p) (gauge_onMatchedLogEvent (Suc n) env ev m)"
  unfolding gauge_onMatchedLogEvent.simps
  by (rule gauge_event_returns[OF assms(1)]) (use gauge_pull_returns[OF _ assms(2), of _ n] in \<open>simp add: gauge_pullAndMatchEventsLocked_def\<close>)

lemma gauge_dataPulled_returns:
  assumes "gauge_good p m" "quiet env (gpTriggerAtomId p)"
  shows "returns (gauge_good p) (gauge_onDataPulled (Suc n) env allData ok t m)"
  using foldEvents_returns[of allData "gauge_good p" "\<lambda>ev m. if matchLogEvent env (log_event.truncate ev) (gpWhatMatcherIndex (gmParams m)) = kMatched
      then gauge_onMatchedLogEvent (Suc n) env ev m else Some m" m] assms gauge_onMatched_returns[OF _ assms(2), of _ n]
  by (auto simp: gauge_onDataPulled_def simp del: gauge_onMatchedLogEvent.simps)

section \<open>Runs\<close>

datatype 'l gauge_input =
    GMatched "'l pull_env" state_event
  | GDataPulled "'l pull_env" "state_event list" bool ns
  | GCondition "'l pull_env" bool ns
  | GActive "'l pull_env" activations ns
  | GPrepareFirstBucket "'l pull_env"
  | GInitCompleted "'l pull_env" ns
  | GAppUpgrade "'l pull_env" ns
  | GDump ns bool bool
  | GClear ns
  | GDropData ns

fun gauge_step :: "nat \<Rightarrow> 'l gauge_input \<Rightarrow> gauge_metric \<Rightarrow> gauge_metric option" where
  "gauge_step n (GMatched env ev) m = gauge_onMatchedLogEvent n env ev m"
| "gauge_step n (GDataPulled env evs ok t) m = gauge_onDataPulled n env evs ok t m"
| "gauge_step n (GCondition env c t) m = gauge_onConditionChangedLocked n env c t m"
| "gauge_step n (GActive env a t) m = gauge_onActiveStateChangedLocked n env t (m\<lparr>mpActivations := a\<rparr>)"
| "gauge_step n (GPrepareFirstBucket env) m = gauge_prepareFirstBucketLocked n env m"
| "gauge_step n (GInitCompleted env t) m = gauge_onStatsdInitCompleted n env t m"
| "gauge_step n (GAppUpgrade env t) m = gauge_notifyAppUpgrade n env t m"
| "gauge_step n (GDump t partial erase) m = Some (fst (gauge_onDumpReportLocked t partial erase m))"
| "gauge_step n (GClear t) m = Some (gauge_clearPastBucketsLocked t m)"
| "gauge_step n (GDropData t) m = Some (gauge_dropDataLocked t m)"

text \<open>Bucket splits are not asked for before the start of the current bucket, and no pulled atom is the trigger atom.\<close>

fun gauge_input_ok :: "'l gauge_input \<Rightarrow> gauge_metric \<Rightarrow> bool" where
  "gauge_input_ok (GMatched env ev) m = quiet env (gpTriggerAtomId (gmParams m))"
| "gauge_input_ok (GDataPulled env evs ok t) m = quiet env (gpTriggerAtomId (gmParams m))"
| "gauge_input_ok (GCondition env c t) m = quiet env (gpTriggerAtomId (gmParams m))"
| "gauge_input_ok (GActive env a t) m = (quiet env (gpTriggerAtomId (gmParams m)) \<and> (mIsActive a \<or> mpCurrentBucketStartTimeNs m \<le> t))"
| "gauge_input_ok (GPrepareFirstBucket env) m = quiet env (gpTriggerAtomId (gmParams m))"
| "gauge_input_ok (GInitCompleted env t) m = (quiet env (gpTriggerAtomId (gmParams m)) \<and> mpCurrentBucketStartTimeNs m \<le> t)"
| "gauge_input_ok (GAppUpgrade env t) m = (quiet env (gpTriggerAtomId (gmParams m)) \<and> mpCurrentBucketStartTimeNs m \<le> t)"
| "gauge_input_ok (GDump t partial erase) m = (partial \<longrightarrow> mpCurrentBucketStartTimeNs m \<le> t)"
| "gauge_input_ok (GClear t) m = True"
| "gauge_input_ok (GDropData t) m = True"

fun gauge_inputs_ok :: "'l gauge_input list \<Rightarrow> gauge_metric \<Rightarrow> bool" where
  "gauge_inputs_ok [] m = True"
| "gauge_inputs_ok (x # xs) m = (gauge_input_ok x m \<and> (case gauge_step 1 x m of None \<Rightarrow> True | Some m1 \<Rightarrow> gauge_inputs_ok xs m1))"

definition gauge_run :: "nat \<Rightarrow> 'l gauge_input list \<Rightarrow> gauge_metric \<Rightarrow> gauge_metric option" where
  "gauge_run n = foldEvents (gauge_step n)"

lemma gauge_ok_set:
  "gauge_ok m \<Longrightarrow> gauge_ok (m\<lparr>mpActivations := a\<rparr>)" "gauge_ok m \<Longrightarrow> gauge_ok (m\<lparr>mpCondition := c\<rparr>)"
  "gauge_ok m \<Longrightarrow> gauge_ok (m\<lparr>gmPastBuckets := []\<rparr>)" "gauge_ok m \<Longrightarrow> gauge_ok (m\<lparr>gmPastBuckets := [], gmSkippedBuckets := []\<rparr>)"
  using gauge_ok_cong[of "m\<lparr>mpActivations := a\<rparr>" m] gauge_ok_cong[of "m\<lparr>mpCondition := c\<rparr>" m]
    gauge_ok_cong[of "m\<lparr>gmPastBuckets := []\<rparr>" m] gauge_ok_cong[of "m\<lparr>gmPastBuckets := [], gmSkippedBuckets := []\<rparr>" m]
  by (simp_all add: gauge_ok_def bucket_times_ok_def getCurrentBucketEndTimeNs_def)

lemma gauge_step_returns:
  assumes "gauge_good p m" "gauge_input_ok x m"
  shows "returns (gauge_good p) (gauge_step 1 x m)"
proof -
  have p: "gmParams m = p" "gauge_ok m" using assms(1) by (simp_all add: gauge_good_def)
  have fl: "gauge_good p (gauge_flushIfNeededLocked t m')" if "gauge_good p m'" for t m'
    using gauge_flushIfNeeded_ok[of m' t] that by (simp add: gauge_good_def gauge_frame)
  have fs: "gauge_good p (gauge_flushLocked t m')" if "gauge_good p m'" "mpCurrentBucketStartTimeNs m' \<le> t" for t m'
    using gauge_flush_ok[of m' t] that by (simp add: gauge_good_def gauge_frame)
  have init: "returns (gauge_good p) (gauge_onStatsdInitCompleted 1 env t m)"
    if "quiet env (gpTriggerAtomId p)" "mpCurrentBucketStartTimeNs m \<le> t" for env :: "'a pull_env" and t
    using fs[OF assms(1) that(2)] gauge_pull_returns[OF _ that(1)] by (simp add: gauge_onStatsdInitCompleted_def Let_def)
  show ?thesis
  proof (cases x)
    case (GActive env a t)
    define m' where "m' = (let m0 = m\<lparr>mpActivations := a\<rparr> in if mIsActive a then m0 else gauge_flushLocked t m0)"
    have "gauge_good p m'" using fs[of "m\<lparr>mpActivations := a\<rparr>" t] assms(2) p gauge_ok_set(1)[of m a]
      by (auto simp: GActive m'_def Let_def gauge_good_def)
    then show ?thesis using gauge_pull_returns[of p m' env] assms(2) p
      by (simp add: GActive gauge_onActiveStateChangedLocked_def Let_def m'_def)
  next
    case (GCondition env c t)
    then show ?thesis using fl[of "m\<lparr>mpCondition := (if c then kTrue else kFalse)\<rparr>" t] assms(2) p gauge_ok_set(2)[of m]
        gauge_pull_returns[of p "gauge_flushIfNeededLocked t (m\<lparr>mpCondition := (if c then kTrue else kFalse)\<rparr>)" env]
      by (simp add: gauge_onConditionChangedLocked_def Let_def gauge_good_def gauge_frame)
  next
    case (GDump t partial erase)
    define m' where "m' = (if partial then gauge_flushLocked t m else gauge_flushIfNeededLocked t m)"
    have "gauge_good p m'" using fl[OF assms(1), of t] fs[OF assms(1), of t] assms(2) by (auto simp: GDump m'_def)
    then show ?thesis using gauge_ok_set(4)[of m'] by (simp add: GDump gauge_onDumpReportLocked_def Let_def m'_def[symmetric] gauge_good_def)
  next
    case (GMatched env ev)
    then show ?thesis using gauge_onMatched_returns[OF assms(1), of env 0 ev] assms(2) p by simp
  next
    case (GDataPulled env evs ok t)
    then show ?thesis using gauge_dataPulled_returns[OF assms(1), of env 0 evs ok t] assms(2) p by simp
  qed (use assms p fl[OF assms(1)] init gauge_pull_returns[OF assms(1)] gauge_ok_set(3,4) in
      \<open>auto simp: gauge_prepareFirstBucketLocked_def gauge_notifyAppUpgrade_def gauge_clearPastBucketsLocked_def gauge_dropDataLocked_def gauge_good_def\<close>)
qed

lemma gauge_run_returns:
  "gauge_good p m \<Longrightarrow> gauge_inputs_ok xs m \<Longrightarrow> returns (gauge_good p) (gauge_run 1 xs m)"
proof (induction xs arbitrary: m)
  case (Cons x xs)
  obtain m1 where "gauge_step 1 x m = Some m1" "gauge_good p m1"
    using gauge_step_returns[of p m x] Cons.prems by (auto simp: returns_def split: option.splits)
  then show ?case using Cons by (simp add: gauge_run_def)
qed (simp add: gauge_run_def)

lemma new_gauge_ok:
  assumes "0 < bucketSizeNsFor uid (gcBucket c)" "timeBaseNs \<le> startTimeNs"
    and "\<And>tag soft hard. (tag, soft, hard) \<in> set limits \<Longrightarrow> 0 < soft \<and> soft \<le> hard"
  shows "gauge_ok (newGaugeMetricProducer limits b c uid what tag trigger atom timeBaseNs startTimeNs)"
proof -
  define m0 where "m0 = metric_producer.extend
     (b\<lparr>mpTimeBaseNs := timeBaseNs, mpCurrentBucketStartTimeNs := timeBaseNs, mpCurrentBucketNum := 0,
        mpBucketSizeNs := bucketSizeNsFor uid (gcBucket c), mpSlicedStateAtoms := [], mpStateGroupMap := []\<rparr>)
     (gauge_metric.fields (gaugeParamsFor limits c what tag trigger atom) [] [] [] emptySkippedBucket [])"
  have "gauge_limits_ok (gaugeParamsFor limits c what tag trigger atom)"
    using assms(3) by (auto simp: gauge_limits_ok_def gaugeParamsFor_def dimensionLimitsFor_def Let_def
        kDimensionKeySizeSoftLimit_def kDimensionKeySizeHardLimit_def dest!: map_of_SomeD split: option.split)
  then have "gauge_ok m0"
    using assms(1) by (simp add: gauge_ok_def m0_def metric_producer.defs gauge_metric.defs bucket_times_ok_def getCurrentBucketEndTimeNs_def)
  moreover have "mpCurrentBucketStartTimeNs m0 \<le> startTimeNs" "gmCurrentSlicedBucket m0 = []"
    using assms(2) by (simp_all add: m0_def metric_producer.defs gauge_metric.defs)
  moreover define m1 where "m1 = gauge_flushIfNeededLocked startTimeNs m0"
  ultimately have m1: "gauge_ok m1" "startTimeNs < getCurrentBucketEndTimeNs m1" "mpCurrentBucketStartTimeNs m1 \<le> startTimeNs" "gmCurrentSlicedBucket m1 = []"
    using gauge_flushIfNeeded_ok[of m0 startTimeNs] by (simp_all add: gauge_flushIfNeededLocked_def Let_def gauge_frame)
  then have "gauge_ok (m1\<lparr>mpCurrentBucketStartTimeNs := startTimeNs\<rparr>)"
    using gauge_ok_cong[of "m1\<lparr>mpCurrentBucketStartTimeNs := startTimeNs\<rparr>" m1]
    by (auto simp: gauge_ok_def bucket_times_ok_def getCurrentBucketEndTimeNs_def intro: buckets_ok_later)
  then show ?thesis by (simp add: newGaugeMetricProducer_def m1_def m0_def)
qed

text \<open>
  Property C23. Every run of a gauge metric returns, one level of nested pulls being enough, when no pulled atom is the trigger atom. The metric
  then satisfies the invariant: the keys of the current bucket respect the hard limit and their atoms the limit per key (one atom
  when sampling randomly) and are not older than the bucket, up to the truncation of timestamps; the reported buckets of a key
  are disjoint and ordered, within aligned buckets and large enough; skipped buckets are the ones that are too small.
\<close>

theorem gauge_metric_invariant:
  assumes "0 < bucketSizeNsFor uid (gcBucket c)" and "timeBaseNs \<le> startTimeNs"
    and "\<And>tag soft hard. (tag, soft, hard) \<in> set limits \<Longrightarrow> 0 < soft \<and> soft \<le> hard"
    and "gauge_inputs_ok xs (newGaugeMetricProducer limits b c uid what tag trigger atom timeBaseNs startTimeNs)"
  shows "\<exists>m. gauge_run 1 xs (newGaugeMetricProducer limits b c uid what tag trigger atom timeBaseNs startTimeNs) = Some m \<and> gauge_ok m"
  using gauge_run_returns[OF _ assms(4)] new_gauge_ok[OF assms(1-3)] by (auto simp: gauge_good_def returns_def split: option.splits)

definition example_gauge_config :: gauge_config where
  "example_gauge_config = \<lparr>gcMinBucketSizeNanos = 10, gcMaxPullDelaySec = 30, gcMaxNumGaugeAtomsPerBucket = 10, gcSplitBucketForAppUpgrade = True,
     gcBucket = None, gcSamplingType = FIRST_N_SAMPLES, gcGaugeFieldsFilter = None\<rparr>"

definition example_gauge_event :: "i32 \<Rightarrow> state_event" where
  "example_gauge_event tag = \<lparr>tagId = tag, event_values = [], elapsedTimestampNs = 20, logUid = 0, resetStateValue = 0,
     exclusiveStateFieldIndex = -1, truncateTimestamp = False\<rparr>"

definition example_gauge_env :: "nat pull_env" where
  "example_gauge_env = \<lparr>peUids = \<lparr>sAidToUidMapping = [], getAppNamesFromUid = (\<lambda>u. [])\<rparr>,
     peMatchers = [newSimpleAtomMatchingTracker 1 0 \<lparr>atom_id = Some 10, field_value_matchers = []\<rparr>], peConditions = [],
     peStates = newStateManager, pePull = (\<lambda>t. Some [example_gauge_event 10]), peElapsedRealtimeNs = 20\<rparr>"

definition example_gauge_metric :: "int \<Rightarrow> gauge_metric" where
  "example_gauge_metric trigger = newGaugeMetricProducer [] example_base example_gauge_config 1000 0 10 trigger 10 0 5"

theorem gauge_metric_invariant_witness:
  "\<exists>m. gauge_run 1 [GMatched example_gauge_env (example_gauge_event 7), GDump 30 True False] (example_gauge_metric 7) = Some m \<and> gauge_ok m \<and>
     map (map gbGaugeAtoms \<circ> snd) (gmPastBuckets m) = [[[\<lparr>gaFields = [], gaElapsedTimestampNs = 20\<rparr>]]]"
proof -
  let ?xs = "[GMatched example_gauge_env (example_gauge_event 7), GDump 30 True False]"
  have "gpTriggerAtomId (gmParams (example_gauge_metric 7)) = 7" by code_simp
  then have q: "quiet example_gauge_env (gpTriggerAtomId (gmParams (example_gauge_metric 7)))"
    by (simp add: quiet_def example_gauge_env_def example_gauge_event_def)
  have "case gauge_step 1 (hd ?xs) (example_gauge_metric 7) of None \<Rightarrow> False | Some m \<Rightarrow> mpCurrentBucketStartTimeNs m = 5" by code_simp
  then have i: "gauge_inputs_ok ?xs (example_gauge_metric 7)" using q by (auto split: option.split)
  have "0 < bucketSizeNsFor 1000 (gcBucket example_gauge_config)" by code_simp
  then obtain m where m: "gauge_run 1 ?xs (example_gauge_metric 7) = Some m" "gauge_ok m"
    using gauge_metric_invariant[of 1000 example_gauge_config 0 5 "[]" ?xs example_base 0 10 7 10] i by (auto simp: example_gauge_metric_def)
  have "case gauge_run 1 ?xs (example_gauge_metric 7) of None \<Rightarrow> False
     | Some m \<Rightarrow> map (map gbGaugeAtoms \<circ> snd) (gmPastBuckets m) = [[[\<lparr>gaFields = [], gaElapsedTimestampNs = 20\<rparr>]]]" by code_simp
  with m show ?thesis by simp
qed

section \<open>Endless recursion\<close>

lemma gauge_flushIfNeeded_frame [gauge_frame]:
  "mpTimeBaseNs (gauge_flushIfNeededLocked t m) = mpTimeBaseNs m" "mpConditionSliced (gauge_flushIfNeededLocked t m) = mpConditionSliced m"
  "mpCondition (gauge_flushIfNeededLocked t m) = mpCondition m" "mpActivations (gauge_flushIfNeededLocked t m) = mpActivations m"
  by (simp_all add: gauge_flushIfNeededLocked_def gauge_flushCurrentBucketLocked_def Let_def)

lemma triggersPuller_flush: "triggersPuller m \<Longrightarrow> triggersPuller (gauge_flushIfNeededLocked t m)"
proof -
  assume a: "triggersPuller m"
  have "gmCurrentSlicedBucket (gauge_flushIfNeededLocked t m) \<in> {[], gmCurrentSlicedBucket m}"
    by (simp add: gauge_flushIfNeededLocked_def Let_def gauge_frame)
  then show ?thesis using a by (auto simp: triggersPuller_def gauge_frame split: sampling_type.splits)
qed

lemma trigger_diverges:
  assumes "sint (tagId ev) = gpTriggerAtomId p" "pePull env t = Some (ev' # evs)" "sint (tagId ev') = gpTriggerAtomId p"
    and "matchLogEvent env (log_event.truncate ev') (gpWhatMatcherIndex p) = kMatched" "peElapsedRealtimeNs env - t \<le> gpMaxPullDelayNs p"
    and "gauge_good p m" "mIsActive (mpActivations m)" "\<not> mpConditionSliced m" "triggersPuller m" "mpTimeBaseNs m \<le> t"
      "mpCurrentBucketStartTimeNs m \<le> t" "elapsedTimestampNs ev = t"
  shows "gauge_onMatchedLogEvent n env ev m = None"
  using assms(1,6-)
proof (induction n arbitrary: ev m)
  case (0 ev m)
  have "mpCondition m = kTrue" using "0.prems"(5) by (auto simp: triggersPuller_def split: sampling_type.splits)
  then show ?case using 0 by (auto simp: gauge_event_def onMatchedLogEventLocked_def Let_def gauge_good_def gauge_frame)
next
  case (Suc n ev m)
  let ?m = "gauge_flushIfNeededLocked t m" and ?ev = "ev'\<lparr>elapsedTimestampNs := t\<rparr>"
  have c: "mpCondition m = kTrue" using Suc.prems(5) by (auto simp: triggersPuller_def split: sampling_type.splits)
  have g: "gauge_good p ?m" "mpCurrentBucketStartTimeNs ?m \<le> t"
    using gauge_flushIfNeeded_ok[of m t] Suc.prems by (simp_all add: gauge_good_def gauge_frame)
  have "gauge_onMatchedLogEvent n env ?ev ?m = None"
    by (rule Suc.IH) (use Suc.prems g triggersPuller_flush[of m t] assms(3) in \<open>simp_all add: gauge_frame\<close>)
  then have "pullWith (gauge_onMatchedLogEvent n env) env t ?m = None"
    using triggersPuller_flush[OF Suc.prems(5), of t] assms(2,4,5) g
    by (simp add: pullWith_def gauge_good_def Let_def log_event.defs)
  then show ?case using Suc.prems c g by (simp add: gauge_event_def onMatchedLogEventLocked_def Let_def gauge_good_def gauge_frame)
qed



section \<open>What a bucket samples\<close>

definition sampleLimit :: "gauge_params \<Rightarrow> nat" where
  "sampleLimit p = (if gpSamplingType p = RANDOM_ONE_SAMPLE then min 1 (gpGaugeAtomsPerDimensionLimit p) else gpGaugeAtomsPerDimensionLimit p)"

text \<open>The gauge fields of an event: the configured fields, or all, without those that are dimensions.\<close>

definition gaugeAtomFor :: "gauge_metric \<Rightarrow> state_event \<Rightarrow> gauge_atom" where
  "gaugeAtomFor m ev =
     \<lparr>gaFields = filter (\<lambda>fv. \<forall>d \<in> set (mpDimensionsInWhat m). \<not> matches (fvField fv) d)
        (if gpFieldMatchers (gmParams m) = [] then event_values ev
         else concat (map (\<lambda>g. filter (\<lambda>v. matches (fvField v) g) (event_values ev)) (gpFieldMatchers (gmParams m)))),
      gaElapsedTimestampNs = truncateTimestampIfNecessary ev\<rparr>"

definition gaugeTakes :: "'l pull_env \<Rightarrow> gauge_metric \<Rightarrow> metric_key \<Rightarrow> state_event \<Rightarrow> bool" where
  "gaugeTakes env m k ev = (case onMatchedLogEventLocked (peConditions env) (peStates env) ev m of
     None \<Rightarrow> False | Some me \<Rightarrow> meCondition me \<and> mpCurrentBucketStartTimeNs m \<le> meTimeNs me \<and> meKey me = k)"

lemma getGaugeFields_eq: "\<lparr>gaFields = getGaugeFields m (event_values ev), gaElapsedTimestampNs = truncateTimestampIfNecessary ev\<rparr> = gaugeAtomFor m ev"
proof -
  have "foldl (\<lambda>fields d. filter (\<lambda>fv. \<not> matches (fvField fv) d) fields) vs ds = filter (\<lambda>fv. \<forall>d \<in> set ds. \<not> matches (fvField fv) d) vs"
    for vs :: "field_value list" and ds
    by (induction ds arbitrary: vs) (auto intro: filter_cong)
  then show ?thesis by (simp add: getGaugeFields_def gaugeAtomFor_def filterGaugeValues_eq)
qed

text \<open>A sample changes only the slices and the anomaly trackers, and nothing else depends on them.\<close>

lemma gauge_sample_shape: "gauge_sample k ev m =
    m\<lparr>gmCurrentSlicedBucket := gmCurrentSlicedBucket (gauge_sample k ev m), mpAnomalyTrackers := mpAnomalyTrackers (gauge_sample k ev m)\<rparr>"
  by (auto simp: gauge_sample_def Let_def)

lemma gauge_matched_update:
  "onMatchedLogEventLocked cs sm ev (m\<lparr>gmCurrentSlicedBucket := s, mpAnomalyTrackers := a\<rparr>) = onMatchedLogEventLocked cs sm ev m"
proof -
  let ?m = "m\<lparr>gmCurrentSlicedBucket := s, mpAnomalyTrackers := a\<rparr>"
  have "conditionKeyFor ?m = conditionKeyFor m" "statePrimaryKeysFor ?m = statePrimaryKeysFor m" "mapStateValue ?m = mapStateValue m"
    by (simp_all add: fun_eq_iff conditionKeyFor_def statePrimaryKeysFor_def mapStateValue_def)
  then show ?thesis by (simp add: onMatchedLogEventLocked_def stateValuesKeyFor_def Let_def)
qed

lemma gauge_sample_atoms:
  assumes "length (gmCurrentSlicedBucket m) < gpDimensionHardLimit (gmParams m)" "gauge_ok m"
  shows "atomsOf k' (gauge_sample k ev m) = take (sampleLimit (gmParams m)) (atomsOf k' m @ (if k' = k then [gaugeAtomFor m ev] else []))"
    and "length (gmCurrentSlicedBucket (gauge_sample k ev m)) \<le> Suc (length (gmCurrentSlicedBucket m))"
proof -
  have g: "\<not> gauge_hitGuardRailLocked k m" using assms(1) by (auto simp: gauge_hitGuardRailLocked_def)
  have l: "length (atomsOf k' m) \<le> sampleLimit (gmParams m)" for k'
    using assms(2) by (force simp: atomsOf_def gauge_ok_def atoms_ok_def sampleLimit_def dest: map_of_SomeD split: option.split)
  show "length (gmCurrentSlicedBucket (gauge_sample k ev m)) \<le> Suc (length (gmCurrentSlicedBucket m))"
    using length_update_absent[of "gmCurrentSlicedBucket m" k] length_update_present[of "gmCurrentSlicedBucket m" k]
    by (cases "map_of (gmCurrentSlicedBucket m) k") (auto simp: gauge_sample_def Let_def)
  have "atomsOf k' (gauge_sample k ev m) = (if k' = k then take (sampleLimit (gmParams m)) (atomsOf k m @ [gaugeAtomFor m ev]) else atomsOf k' m)"
  proof (cases "map_of (gmCurrentSlicedBucket m) k \<noteq> None \<and> gpSamplingType (gmParams m) = RANDOM_ONE_SAMPLE")
    case True
    then have "atoms_ok (gmParams m) (mpCurrentBucketStartTimeNs m) (atomsOf k m)"
      using assms(2) by (fastforce simp: atomsOf_def gauge_ok_def dest: map_of_SomeD)
    then show ?thesis using True by (cases "atomsOf k m") (auto simp: gauge_sample_def atoms_ok_def sampleLimit_def)
  next
    case False
    then show ?thesis using g l[of k] by (auto simp: gauge_sample_def getGaugeFields_eq Let_def atomsOf_def sampleLimit_def split: option.splits)
  qed
  then show "atomsOf k' (gauge_sample k ev m) = take (sampleLimit (gmParams m)) (atomsOf k' m @ (if k' = k then [gaugeAtomFor m ev] else []))"
    using l[of k'] by (cases "k' = k") simp_all
qed

lemma take_take_append: "take n (take n xs @ ys) = take n (xs @ ys)"
  by (cases "length xs \<le> n") simp_all

lemma gauge_event_sample:
  assumes "sint (tagId ev) \<noteq> gpTriggerAtomId (gmParams m)" "elapsedTimestampNs ev < getCurrentBucketEndTimeNs m"
  shows "gauge_onMatchedLogEvent n env ev m = Some m \<and> (\<forall>k. \<not> gaugeTakes env m k ev) \<or>
    (\<exists>k. gauge_onMatchedLogEvent n env ev m = Some (gauge_sample k ev m) \<and> (\<forall>k'. gaugeTakes env m k' ev = (k' = k)) \<and>
       mpCurrentBucketStartTimeNs m \<le> elapsedTimestampNs ev)"
proof (cases "onMatchedLogEventLocked (peConditions env) (peStates env) ev m")
  case None
  then show ?thesis by (cases n) (simp_all add: gauge_event_def gaugeTakes_def)
next
  case (Some me)
  have "meTimeNs me = elapsedTimestampNs ev" using Some by (auto simp: onMatchedLogEventLocked_def Let_def split: if_splits)
  moreover from this have "gauge_flushIfNeededLocked (meTimeNs me) m = m" using assms(2) by (simp add: gauge_flushIfNeededLocked_def)
  ultimately show ?thesis using assms Some by (cases n) (auto simp: gauge_event_def gaugeTakes_def Let_def)
qed

lemma gaugeTakes_sample: "gaugeTakes env (gauge_sample j ev m) k e = gaugeTakes env m k e"
  by (subst gauge_sample_shape) (simp add: gaugeTakes_def gauge_matched_update split: option.split)

lemma gaugeAtomFor_sample: "gaugeAtomFor (gauge_sample j ev m) e = gaugeAtomFor m e"
  by (subst gauge_sample_shape) (simp add: gaugeAtomFor_def)

text \<open>
  Property C24. While events arrive within the current bucket, and below the guard rail on keys, a gauge keeps for every key the first
  samples up to its limit, in order: the events that match while the metric is active and the condition holds, each
  with the configured fields that are not dimensions and its truncated timestamp.
\<close>

theorem gauge_keeps_first_samples:
  assumes "gauge_ok m" and "length (gmCurrentSlicedBucket m) + length evs \<le> gpDimensionHardLimit (gmParams m)"
    and "list_all (\<lambda>ev. sint (tagId ev) \<noteq> gpTriggerAtomId (gmParams m) \<and> elapsedTimestampNs ev < getCurrentBucketEndTimeNs m) evs"
  shows "\<exists>m'. foldEvents (gauge_onMatchedLogEvent n env) evs m = Some m' \<and>
    (\<forall>k. atomsOf k m' = take (sampleLimit (gmParams m)) (atomsOf k m @ map (gaugeAtomFor m) (filter (gaugeTakes env m k) evs)))"
  using assms
proof (induction evs arbitrary: m)
  case Nil
  have "length (atomsOf k m) \<le> sampleLimit (gmParams m)" for k
    using Nil(1) by (force simp: atomsOf_def gauge_ok_def atoms_ok_def sampleLimit_def dest: map_of_SomeD split: option.split)
  then show ?case by simp
next
  case (Cons ev evs)
  consider "gauge_onMatchedLogEvent n env ev m = Some m" "\<And>k. \<not> gaugeTakes env m k ev"
    | k where "gauge_onMatchedLogEvent n env ev m = Some (gauge_sample k ev m)" "\<And>k'. gaugeTakes env m k' ev = (k' = k)"
        "mpCurrentBucketStartTimeNs m \<le> elapsedTimestampNs ev"
    using gauge_event_sample[of ev m n env] Cons.prems(3) by auto
  then show ?case
  proof cases
    case 1
    then show ?thesis using Cons.IH[of m] Cons.prems by simp
  next
    case (2 k)
    let ?m = "gauge_sample k ev m"
    have s: "length (gmCurrentSlicedBucket m) < gpDimensionHardLimit (gmParams m)" using Cons.prems(2) by simp
    have "getCurrentBucketEndTimeNs ?m = getCurrentBucketEndTimeNs m" by (simp add: getCurrentBucketEndTimeNs_def gauge_frame)
    then obtain m' where m': "foldEvents (gauge_onMatchedLogEvent n env) evs ?m = Some m'"
      "\<And>k. atomsOf k m' = take (sampleLimit (gmParams m)) (atomsOf k ?m @ map (gaugeAtomFor m) (filter (gaugeTakes env m k) evs))"
      using Cons.IH[OF gauge_sample_ok[OF Cons.prems(1) 2(3), of k]] gauge_sample_atoms(2)[OF s Cons.prems(1), of k ev] Cons.prems(2,3)
      by (auto simp: gauge_frame gaugeTakes_sample[abs_def] gaugeAtomFor_sample[abs_def])
    have "atomsOf j m' = take (sampleLimit (gmParams m)) (atomsOf j m @ map (gaugeAtomFor m) (filter (gaugeTakes env m j) (ev # evs)))" for j
      using m'(2)[of j] gauge_sample_atoms(1)[OF s Cons.prems(1), of j k ev] 2(2)[of j] by (simp add: take_take_append del: take_append)
    then show ?thesis using m'(1) 2(1) by simp
  qed
qed

theorem gauge_keeps_first_samples_witness:
  "\<exists>m'. foldEvents (gauge_onMatchedLogEvent 0 example_gauge_env) [example_gauge_event 10, example_gauge_event 10] (example_gauge_metric 7) = Some m' \<and>
     atomsOf \<lparr>mDimensionKeyInWhat = [], mStateValuesKey = []\<rparr> m' = replicate 2 \<lparr>gaFields = [], gaElapsedTimestampNs = 20\<rparr>"
proof -
  let ?m = "example_gauge_metric 7" and ?evs = "[example_gauge_event 10, example_gauge_event 10]"
  let ?k = "\<lparr>mDimensionKeyInWhat = [], mStateValuesKey = []\<rparr>"
  have o: "gauge_ok ?m" unfolding example_gauge_metric_def by (rule new_gauge_ok) (code_simp, simp_all)
  have "length (gmCurrentSlicedBucket ?m) + length ?evs \<le> gpDimensionHardLimit (gmParams ?m) \<and>
     list_all (\<lambda>ev. sint (tagId ev) \<noteq> gpTriggerAtomId (gmParams ?m) \<and> elapsedTimestampNs ev < getCurrentBucketEndTimeNs ?m) ?evs \<and>
     take (sampleLimit (gmParams ?m)) (atomsOf ?k ?m @ map (gaugeAtomFor ?m) (filter (gaugeTakes example_gauge_env ?m ?k) ?evs)) =
       replicate 2 \<lparr>gaFields = [], gaElapsedTimestampNs = 20\<rparr>" by code_simp
  then show ?thesis using gauge_keeps_first_samples[OF o, of ?evs 0 example_gauge_env] by auto
qed

end
