(* ===== verification/MetricProducers.thy ===== *)
theory MetricProducers
  imports CountMetric DurationMetric EventMetric GaugeBuckets ValueBuckets
begin

text \<open>
  The virtual methods of \<^verbatim>\<open>MetricProducer\<close> as the metrics manager calls them: a producer is a metric of one of the five kinds, a call is one of the public methods
  of \<^verbatim>\<open>bin/src/metrics/MetricProducer.h\<close> with its arguments, and \<open>callProducer\<close> is the dynamic dispatch. The duration metrics of a configuration share their
  anomaly trackers, which are threaded through. A gauge may recurse forever, so the fuel of its handlers is an argument and
  \<open>None\<close> means that the call does not return.
\<close>

section \<open>Definitions\<close>

datatype producer =
    CountProducer count_metric
  | DurationProducer duration_metric
  | EventProducer event_metric
  | GaugeProducer gauge_metric
  | ValueProducer value_metric

fun producerBase :: "producer \<Rightarrow> metric_producer" where
  "producerBase (CountProducer m) = metric_producer.truncate m"
| "producerBase (DurationProducer m) = metric_producer.truncate m"
| "producerBase (EventProducer m) = metric_producer.truncate m"
| "producerBase (GaugeProducer m) = metric_producer.truncate m"
| "producerBase (ValueProducer m) = metric_producer.truncate m"

definition producerActivations :: "producer \<Rightarrow> activations" where
  "producerActivations p = mpActivations (producerBase p)"

definition producerIsActive :: "producer \<Rightarrow> bool" where
  "producerIsActive p = mIsActive (producerActivations p)"

definition isConditionSliced :: "producer \<Rightarrow> bool" where
  "isConditionSliced p = mpConditionSliced (producerBase p)"

definition getMetricId :: "producer \<Rightarrow> int" where
  "getMetricId p = mpMetricId (producerBase p)"

datatype metric_call =
    FlushIfExpire ns
  | CancelEventActivation int
  | Activate int ns
  | LoadActiveMetric "active_event_activation list" ns
  | ConditionChanged bool ns
  | SlicedConditionMayChange bool ns
  | MatchedLogEvent int state_event
  | NotifyAppUpgrade ns
  | StatsdInitCompleted ns
  | PrepareFirstBucket
  | DropData ns
  | ClearPastBuckets ns

text \<open>The activations of the base class, and what a handler does next when the active state changed.\<close>

definition gauge_flushIfExpire :: "nat \<Rightarrow> 'l pull_env \<Rightarrow> ns \<Rightarrow> gauge_metric \<Rightarrow> gauge_metric option" where
  "gauge_flushIfExpire n env now m =
     (let (a, changed) = flushIfExpire now (mpActivations m); m1 = m\<lparr>mpActivations := a\<rparr>
      in if changed then gauge_onActiveStateChangedLocked n env now m1 else Some m1)"

definition gauge_activateLocked :: "nat \<Rightarrow> 'l pull_env \<Rightarrow> int \<Rightarrow> ns \<Rightarrow> gauge_metric \<Rightarrow> gauge_metric option" where
  "gauge_activateLocked n env i now m =
     (let (a, changed) = activateLocked i now (mpActivations m); m1 = m\<lparr>mpActivations := a\<rparr>
      in if changed then gauge_onActiveStateChangedLocked n env now m1 else Some m1)"

text \<open>A count metric flushes when it becomes inactive and does nothing when it becomes active; an event metric has nothing to flush.\<close>

definition count_activateLocked :: "int \<Rightarrow> ns \<Rightarrow> count_metric \<Rightarrow> count_metric" where
  "count_activateLocked i now m = m\<lparr>mpActivations := fst (activateLocked i now (mpActivations m))\<rparr>"

fun count_call :: "'l pull_env \<Rightarrow> metric_call \<Rightarrow> count_metric \<Rightarrow> count_metric" where
  "count_call env (FlushIfExpire t) m = count_flushIfExpire t m"
| "count_call env (CancelEventActivation i) m = m\<lparr>mpActivations := cancelEventActivationLocked i (mpActivations m)\<rparr>"
| "count_call env (Activate i t) m = count_activateLocked i t m"
| "count_call env (LoadActiveMetric as t) m = m\<lparr>mpActivations := loadActiveMetricLocked as t (mpActivations m)\<rparr>"
| "count_call env (ConditionChanged c t) m = count_onConditionChangedLocked c m"
| "count_call env (SlicedConditionMayChange c t) m = m"
| "count_call env (MatchedLogEvent i ev) m = count_onMatchedLogEvent (peConditions env) (peStates env) ev m"
| "count_call env (NotifyAppUpgrade t) m = count_flushLocked t m"
| "count_call env (StatsdInitCompleted t) m = count_flushLocked t m"
| "count_call env PrepareFirstBucket m = m"
| "count_call env (DropData t) m = count_dropDataLocked t m"
| "count_call env (ClearPastBuckets t) m = count_clearPastBucketsLocked m"

fun duration_call :: "'l pull_env \<Rightarrow> metric_call \<Rightarrow> dm_state \<Rightarrow> dm_state" where
  "duration_call env (FlushIfExpire t) s = dm_flushIfExpire (peConditions env) t s"
| "duration_call env (CancelEventActivation i) s =
     (case s of (m, e) \<Rightarrow> (m\<lparr>mpActivations := cancelEventActivationLocked i (mpActivations m)\<rparr>, e))"
| "duration_call env (Activate i t) s = dm_activateLocked (peConditions env) i t s"
| "duration_call env (LoadActiveMetric as t) s =
     (case s of (m, e) \<Rightarrow> (m\<lparr>mpActivations := loadActiveMetricLocked as t (mpActivations m)\<rparr>, e))"
| "duration_call env (ConditionChanged c t) s = dm_onConditionChangedLocked c t s"
| "duration_call env (SlicedConditionMayChange c t) s = dm_onSlicedConditionMayChangeLocked (peConditions env) t s"
| "duration_call env (MatchedLogEvent i ev) s = dm_onMatchedLogEventLocked (peConditions env) (peStates env) i ev s"
| "duration_call env (NotifyAppUpgrade t) s = dm_flushLocked t s"
| "duration_call env (StatsdInitCompleted t) s = dm_flushLocked t s"
| "duration_call env PrepareFirstBucket s = s"
| "duration_call env (DropData t) s = dm_dropDataLocked t s"
| "duration_call env (ClearPastBuckets t) s = dm_clearPastBucketsLocked t s"

fun event_call :: "'l pull_env \<Rightarrow> metric_call \<Rightarrow> event_metric \<Rightarrow> event_metric" where
  "event_call env (FlushIfExpire t) m = m\<lparr>mpActivations := fst (flushIfExpire t (mpActivations m))\<rparr>"
| "event_call env (CancelEventActivation i) m = m\<lparr>mpActivations := cancelEventActivationLocked i (mpActivations m)\<rparr>"
| "event_call env (Activate i t) m = m\<lparr>mpActivations := fst (activateLocked i t (mpActivations m))\<rparr>"
| "event_call env (LoadActiveMetric as t) m = m\<lparr>mpActivations := loadActiveMetricLocked as t (mpActivations m)\<rparr>"
| "event_call env (ConditionChanged c t) m = event_onConditionChangedLocked c m"
| "event_call env (SlicedConditionMayChange c t) m = m"
| "event_call env (MatchedLogEvent i ev) m = event_onMatchedLogEvent (peConditions env) (peStates env) ev m"
| "event_call env (NotifyAppUpgrade t) m = m"
| "event_call env (StatsdInitCompleted t) m = m"
| "event_call env PrepareFirstBucket m = m"
| "event_call env (DropData t) m = event_dropDataLocked m"
| "event_call env (ClearPastBuckets t) m = event_clearPastBucketsLocked m"

fun gauge_call :: "nat \<Rightarrow> 'l pull_env \<Rightarrow> metric_call \<Rightarrow> gauge_metric \<Rightarrow> gauge_metric option" where
  "gauge_call n env (FlushIfExpire t) m = gauge_flushIfExpire n env t m"
| "gauge_call n env (CancelEventActivation i) m = Some (m\<lparr>mpActivations := cancelEventActivationLocked i (mpActivations m)\<rparr>)"
| "gauge_call n env (Activate i t) m = gauge_activateLocked n env i t m"
| "gauge_call n env (LoadActiveMetric as t) m = Some (m\<lparr>mpActivations := loadActiveMetricLocked as t (mpActivations m)\<rparr>)"
| "gauge_call n env (ConditionChanged c t) m = gauge_onConditionChangedLocked n env c t m"
| "gauge_call n env (SlicedConditionMayChange c t) m = gauge_onSlicedConditionMayChangeLocked n env c t m"
| "gauge_call n env (MatchedLogEvent i ev) m = gauge_onMatchedLogEvent n env ev m"
| "gauge_call n env (NotifyAppUpgrade t) m = gauge_notifyAppUpgrade n env t m"
| "gauge_call n env (StatsdInitCompleted t) m = gauge_onStatsdInitCompleted n env t m"
| "gauge_call n env PrepareFirstBucket m = gauge_prepareFirstBucketLocked n env m"
| "gauge_call n env (DropData t) m = Some (gauge_dropDataLocked t m)"
| "gauge_call n env (ClearPastBuckets t) m = Some (gauge_clearPastBucketsLocked t m)"

fun value_call :: "'l pull_env \<Rightarrow> metric_call \<Rightarrow> value_metric \<Rightarrow> value_metric" where
  "value_call env (FlushIfExpire t) m = value_flushIfExpire env t m"
| "value_call env (CancelEventActivation i) m = m\<lparr>mpActivations := cancelEventActivationLocked i (mpActivations m)\<rparr>"
| "value_call env (Activate i t) m = value_activateLocked env i t m"
| "value_call env (LoadActiveMetric as t) m = m\<lparr>mpActivations := loadActiveMetricLocked as t (mpActivations m)\<rparr>"
| "value_call env (ConditionChanged c t) m = value_onConditionChangedLocked env c t m"
| "value_call env (SlicedConditionMayChange c t) m = value_onSlicedConditionMayChangeLocked c t m"
| "value_call env (MatchedLogEvent i ev) m = value_onMatchedLogEvent env ev m"
| "value_call env (NotifyAppUpgrade t) m = value_notifyAppUpgrade env t m"
| "value_call env (StatsdInitCompleted t) m = value_onStatsdInitCompleted env t m"
| "value_call env PrepareFirstBucket m = value_prepareFirstBucketLocked env m"
| "value_call env (DropData t) m = value_dropDataLocked t m"
| "value_call env (ClearPastBuckets t) m = value_clearPastBucketsLocked m"

fun callProducer :: "nat \<Rightarrow> 'l pull_env \<Rightarrow> metric_call \<Rightarrow> producer \<times> anomaly_env \<Rightarrow> (producer \<times> anomaly_env) option" where
  "callProducer n env c (CountProducer m, e) = Some (CountProducer (count_call env c m), e)"
| "callProducer n env c (DurationProducer m, e) = Some (case duration_call env c (m, e) of (m', e') \<Rightarrow> (DurationProducer m', e'))"
| "callProducer n env c (EventProducer m, e) = Some (EventProducer (event_call env c m), e)"
| "callProducer n env c (GaugeProducer m, e) = map_option (\<lambda>m'. (GaugeProducer m', e)) (gauge_call n env c m)"
| "callProducer n env c (ValueProducer m, e) = Some (ValueProducer (value_call env c m), e)"

datatype metric_report =
    CountReport "(metric_key \<times> bucket_info list) list"
  | DurationReport "(metric_key \<times> duration_bucket_info list) list"
  | EventReport "logged_event list"
  | GaugeReport "skipped_bucket list" "(metric_key, gauge_bucket list) umap"
  | ValueReport value_report

fun dumpProducer :: "'l pull_env \<Rightarrow> ns \<Rightarrow> bool \<Rightarrow> bool \<Rightarrow> dump_latency \<Rightarrow> producer \<times> anomaly_env \<Rightarrow> (producer \<times> anomaly_env) \<times> metric_report" where
  "dumpProducer env t partial erase lat (CountProducer m, e) =
     (case count_onDumpReportLocked t partial erase m of (m', r) \<Rightarrow> ((CountProducer m', e), CountReport r))"
| "dumpProducer env t partial erase lat (DurationProducer m, e) =
     (case dm_onDumpReportLocked t partial erase (m, e) of ((m', e'), r) \<Rightarrow> ((DurationProducer m', e'), DurationReport r))"
| "dumpProducer env t partial erase lat (EventProducer m, e) =
     (case event_onDumpReportLocked erase m of (m', r) \<Rightarrow> ((EventProducer m', e), EventReport r))"
| "dumpProducer env t partial erase lat (GaugeProducer m, e) =
     (case gauge_onDumpReportLocked t partial erase m of (m', sk, past) \<Rightarrow> ((GaugeProducer m', e), GaugeReport sk past))"
| "dumpProducer env t partial erase lat (ValueProducer m, e) =
     (case value_onDumpReportLocked env t partial erase lat m of (m', r) \<Rightarrow> ((ValueProducer m', e), ValueReport r))"

section \<open>Calls and activations\<close>

text \<open>What a call does to the activations of the producer, whatever its kind.\<close>

fun actEffect :: "metric_call \<Rightarrow> activations \<Rightarrow> activations" where
  "actEffect (FlushIfExpire t) a = fst (flushIfExpire t a)"
| "actEffect (CancelEventActivation i) a = cancelEventActivationLocked i a"
| "actEffect (Activate i t) a = fst (activateLocked i t a)"
| "actEffect (LoadActiveMetric as t) a = loadActiveMetricLocked as t a"
| "actEffect c a = a"

named_theorems act_frame

subsection \<open>Count\<close>

lemma count_acts [act_frame]:
  "mpActivations (count_flushIfNeededLocked t m) = mpActivations m" "mpActivations (count_flushLocked t m) = mpActivations m"
  by (simp_all add: count_flushLocked_def count_flushIfNeededLocked_def count_flushCurrentBucketLocked_def Let_def)

lemma count_event_acts [act_frame]: "mpActivations (count_onMatchedLogEvent cs sm ev m) = mpActivations m"
  by (simp add: count_onMatchedLogEvent_def count_onMatchedLogEventInternalLocked_def Let_def act_frame split: option.split)

lemma count_call_acts: "mpActivations (count_call env c m) = actEffect c (mpActivations m)"
  by (cases c) (simp_all add: act_frame count_flushIfExpire_def count_activateLocked_def count_onConditionChangedLocked_def count_dropDataLocked_def
      count_clearPastBucketsLocked_def Let_def split: prod.split)

subsection \<open>Event\<close>

lemma event_call_acts: "mpActivations (event_call env c m) = actEffect c (mpActivations m)"
  by (cases c) (simp_all add: event_onConditionChangedLocked_def event_dropDataLocked_def event_clearPastBucketsLocked_def
      event_onMatchedLogEvent_def event_onMatchedLogEventInternalLocked_def split: option.split)

subsection \<open>Duration\<close>

lemma forTracker_acts: "mpActivations (fst (forTracker f s k)) = mpActivations (fst s)"
  by (simp add: forTracker_def split: prod.split option.split)

lemma forTrackers_acts [act_frame]: "mpActivations (fst (forTrackers f s)) = mpActivations (fst s)"
proof -
  have "mpActivations (fst (foldl (forTracker f) s ks)) = mpActivations (fst s)" for ks
    by (induction ks arbitrary: s) (simp_all add: forTracker_acts)
  then show ?thesis by (simp add: forTrackers_def)
qed

lemma dm_flushCurrent_acts [act_frame]: "mpActivations (fst (dm_flushCurrentBucketLocked t nb s)) = mpActivations (fst s)"
proof -
  have "mpActivations (fst (flushTracker t s k)) = mpActivations (fst s)" for s k
    by (simp add: flushTracker_def split: prod.split option.split)
  then have "mpActivations (fst (foldl (flushTracker t) s ks)) = mpActivations (fst s)" for ks
    by (induction ks arbitrary: s) simp_all
  then show ?thesis unfolding dm_flushCurrentBucketLocked_def by (simp split: prod.split) (metis fst_conv)
qed

lemma dm_flush_acts [act_frame]:
  "mpActivations (fst (dm_flushIfNeededLocked t s)) = mpActivations (fst s)" "mpActivations (fst (dm_flushLocked t s)) = mpActivations (fst s)"
proof -
  show n: "mpActivations (fst (dm_flushIfNeededLocked t s)) = mpActivations (fst s)" for s
    using dm_flushCurrent_acts[of t _ s] by (auto simp: dm_flushIfNeededLocked_def Let_def split: prod.split) (metis fst_conv)+
  show "mpActivations (fst (dm_flushLocked t s)) = mpActivations (fst s)" by (simp add: dm_flushLocked_def act_frame n)
qed

lemma dm_sliced_acts [act_frame]:
  "mpActivations (fst (onSlicedConditionMayChangeInternalLocked conditions t s)) = mpActivations (fst s)"
proof -
  have "mpActivations (fst (onSlicedConditionMayChangeLocked_opt1 conditions t s)) = mpActivations (fst s)"
    by (cases s) (simp add: onSlicedConditionMayChangeLocked_opt1_def Let_def act_frame)
  then show ?thesis by (simp add: onSlicedConditionMayChangeInternalLocked_def act_frame)
qed

lemma dm_active_acts [act_frame]: "mpActivations (fst (dm_onActiveStateChangedLocked conditions t s)) = mpActivations (fst s)"
  by (simp add: dm_onActiveStateChangedLocked_def Let_def act_frame)

lemma dm_start_acts [act_frame]: "mpActivations (fst (handleStartEvent k ck c t vals s)) = mpActivations (fst s)"
  by (cases s) (simp add: handleStartEvent_def Let_def forTracker_acts)

lemma dm_event_acts [act_frame]: "mpActivations (fst (dm_onMatchedLogEventLocked conditions sm i ev s)) = mpActivations (fst s)"
  by (simp add: dm_onMatchedLogEventLocked_def handleMatchedLogEventValuesLocked_def Let_def act_frame forTracker_acts)

lemma duration_call_acts: "mpActivations (fst (duration_call env c (m, e))) = actEffect c (mpActivations m)"
proof (cases c)
  case (FlushIfExpire t)
  then show ?thesis by (auto simp: dm_flushIfExpire_def act_frame split: prod.split)
next
  case (Activate i t)
  then show ?thesis by (auto simp: dm_activateLocked_def act_frame split: prod.split)
next
  case (DropData t)
  then show ?thesis using dm_flush_acts(1)[of t "(m, e)"] by (cases "dm_flushIfNeededLocked t (m, e)") (simp add: dm_dropDataLocked_def)
next
  case (ClearPastBuckets t)
  then show ?thesis using dm_flush_acts(1)[of t "(m, e)"] by (cases "dm_flushIfNeededLocked t (m, e)") (simp add: dm_clearPastBucketsLocked_def)
qed (simp_all add: act_frame dm_onConditionChangedLocked_def dm_onSlicedConditionMayChangeLocked_def Let_def)

subsection \<open>Value\<close>

lemma value_flush_acts [act_frame]:
  "mpActivations (value_flushIfNeededLocked t m) = mpActivations m" "mpActivations (value_flushLocked t m) = mpActivations m"
  by (simp_all add: value_flushIfNeededLocked_def value_flushLocked_def Let_def frame_simps)

lemma value_pull_acts [act_frame]: "vpIsPulled (vmParams m) \<Longrightarrow> mpActivations (value_pullAndMatchEventsLocked env t m) = mpActivations m"
  using same_clock_pull[of m env t] by (simp add: same_clock_def)

lemma value_invalidate_acts [act_frame]: "mpActivations (invalidateCurrentBucket t r m) = mpActivations m"
  "vmParams (invalidateCurrentBucket t r m) = vmParams m"
  using same_clock_invalidate[of t r m] by (simp_all add: same_clock_def)

lemma value_event_acts [act_frame]: "mpActivations (value_onMatchedLogEvent env ev m) = mpActivations m"
proof -
  have "mpActivations (value_recordEvent me vals m') = mpActivations m'" for me vals m'
    using same_clock_record[of me vals m'] by (simp add: same_clock_def)
  then show ?thesis
    by (simp add: value_onMatchedLogEvent_def value_onMatchedLogEventInternalLocked_def Let_def act_frame split: option.split prod.split)
qed

lemma value_resetBase_acts [act_frame]: "mpActivations (resetBase m) = mpActivations m" "vmParams (resetBase m) = vmParams m"
  by (simp_all add: resetBase_def)

lemma value_params_flush [act_frame]: "vmParams (value_flushIfNeededLocked t m) = vmParams m" "vmParams (value_flushLocked t m) = vmParams m"
  by (simp_all add: value_flushIfNeededLocked_def value_flushLocked_def Let_def frame_simps)

lemma value_active_acts [act_frame]: "mpActivations (value_onActiveStateChangedLocked env t m) = mpActivations m"
  by (simp add: value_onActiveStateChangedLocked_def pullOnActiveStateChange_def Let_def act_frame)

lemma value_condition_acts [act_frame]: "mpActivations (value_onConditionChangedLocked env c t m) = mpActivations m"
  by (simp add: value_onConditionChangedLocked_def Let_def act_frame)

lemma value_call_acts: "mpActivations (value_call env c m) = actEffect c (mpActivations m)"
  by (cases c) (simp_all add: act_frame value_flushIfExpire_def value_activateLocked_def value_onSlicedConditionMayChangeLocked_def
      value_notifyAppUpgrade_def value_onStatsdInitCompleted_def value_prepareFirstBucketLocked_def value_dropDataLocked_def
      value_clearPastBucketsLocked_def Let_def frame_simps split: prod.split)

subsection \<open>Gauge\<close>

text \<open>The handlers of a gauge return when no pulled atom is the trigger atom, and keep the activations and the parameters.\<close>

definition gauge_keeps :: "activations \<Rightarrow> gauge_params \<Rightarrow> gauge_metric \<Rightarrow> bool" where
  "gauge_keeps a p m \<longleftrightarrow> mpActivations m = a \<and> gmParams m = p"

definition keeps_if :: "('m \<Rightarrow> bool) \<Rightarrow> 'm option \<Rightarrow> bool" where
  "keeps_if P r \<longleftrightarrow> (\<forall>m. r = Some m \<longrightarrow> P m)"

lemma keeps_if_Some [simp]: "keeps_if P (Some m) = P m" "keeps_if P None"
  by (simp_all add: keeps_if_def)

lemma returns_keeps: "returns P r \<longleftrightarrow> keeps_if P r \<and> r \<noteq> None"
  by (cases r) (simp_all add: returns_def)

lemma foldEvents_keeps:
  "(\<And>e m. P m \<Longrightarrow> keeps_if P (f e m)) \<Longrightarrow> P m \<Longrightarrow> keeps_if P (foldEvents f es m)"
proof (induction es arbitrary: m)
  case (Cons e es)
  show ?case
  proof (cases "f e m")
    case (Some m1)
    then have "P m1" using Cons.prems(1)[OF Cons.prems(2), of e] by simp
    then show ?thesis using Cons.IH[OF Cons.prems(1)] Some by simp
  qed simp
qed simp

lemma gauge_flush_keeps: "gauge_keeps a p m \<Longrightarrow> gauge_keeps a p (gauge_flushIfNeededLocked t m) \<and> gauge_keeps a p (gauge_flushLocked t m)"
  by (simp add: gauge_keeps_def gauge_frame gauge_flushLocked_def)

lemma gauge_sample_keeps: "gauge_keeps a p m \<Longrightarrow> gauge_keeps a p (gauge_sample k ev m)"
  by (subst gauge_sample_shape) (simp add: gauge_keeps_def)

lemma gauge_event_keeps:
  assumes "gauge_keeps a p m" "\<And>t m. gauge_keeps a p m \<Longrightarrow> keeps_if (gauge_keeps a p) (pull t m)"
  shows "keeps_if (gauge_keeps a p) (gauge_event pull env ev m)"
  using assms gauge_flush_keeps[OF assms(1)] gauge_sample_keeps[of a p "gauge_flushIfNeededLocked t m" for t]
  by (simp add: gauge_event_def Let_def split: option.split)

lemma pullWith_keeps:
  assumes "\<And>ev m. gauge_keeps a p m \<Longrightarrow> keeps_if (gauge_keeps a p) (h ev m)" "gauge_keeps a p m"
  shows "keeps_if (gauge_keeps a p) (pullWith h env t m)"
  using assms by (auto simp: pullWith_def Let_def split: option.split intro!: foldEvents_keeps)

lemma gauge_onMatched_keeps: "gauge_keeps a p m \<Longrightarrow> keeps_if (gauge_keeps a p) (gauge_onMatchedLogEvent n env ev m)"
proof (induction n arbitrary: ev m)
  case 0
  then show ?case by (simp add: gauge_event_keeps)
next
  case (Suc n)
  show ?case unfolding gauge_onMatchedLogEvent.simps by (rule gauge_event_keeps[OF Suc.prems]) (rule pullWith_keeps[OF Suc.IH])
qed

lemma gauge_pull_keeps: "gauge_keeps a p m \<Longrightarrow> keeps_if (gauge_keeps a p) (gauge_pullAndMatchEventsLocked n env t m)"
  unfolding gauge_pullAndMatchEventsLocked_def by (rule pullWith_keeps[OF gauge_onMatched_keeps])

lemma gauge_active_keeps:
  assumes "gauge_keeps a p m"
  shows "keeps_if (gauge_keeps a p) (gauge_onActiveStateChangedLocked n env t m)"
  using assms gauge_flush_keeps[OF assms, of t] gauge_pull_keeps[of a p "gauge_flushLocked t m"] gauge_pull_keeps[OF assms]
  by (auto simp: gauge_onActiveStateChangedLocked_def Let_def)

lemma gauge_call_keeps: "keeps_if (gauge_keeps (actEffect c (mpActivations m)) (gmParams m)) (gauge_call n env c m)"
proof -
  have k: "gauge_keeps (mpActivations m) (gmParams m) m" by (simp add: gauge_keeps_def)
  have a: "gauge_keeps a (gmParams m) (m\<lparr>mpActivations := a\<rparr>)" for a by (simp add: gauge_keeps_def)
  have c: "gauge_keeps (mpActivations m) (gmParams m) (m\<lparr>mpCondition := x\<rparr>)" for x by (simp add: gauge_keeps_def)
  note f = gauge_flush_keeps[OF k] gauge_flush_keeps[OF c]
  have init: "keeps_if (gauge_keeps (mpActivations m) (gmParams m)) (gauge_onStatsdInitCompleted n env t m)" for t
    using f by (simp add: gauge_onStatsdInitCompleted_def Let_def gauge_pull_keeps)
  have cond: "keeps_if (gauge_keeps (mpActivations m) (gmParams m)) (gauge_onConditionChangedLocked n env b t m)" for b t
    using f c by (simp add: gauge_onConditionChangedLocked_def Let_def gauge_pull_keeps)
  show ?thesis
    by (cases c) (use f k a init cond in \<open>auto simp: gauge_pull_keeps gauge_onMatched_keeps[OF k] gauge_active_keeps[OF a] gauge_flushIfExpire_def gauge_activateLocked_def Let_def
        gauge_onSlicedConditionMayChangeLocked_def gauge_notifyAppUpgrade_def gauge_prepareFirstBucketLocked_def gauge_dropDataLocked_def
        gauge_clearPastBucketsLocked_def gauge_keeps_def gauge_frame split: prod.split\<close>)
qed

lemma callProducer_activations:
  assumes "callProducer n env c (p, e) = Some (p', e')"
  shows "producerActivations p' = actEffect c (producerActivations p)"
proof -
  have t: "mpActivations (metric_producer.truncate m) = mpActivations m" for m :: "'x metric_producer_scheme"
    by (simp add: metric_producer.defs)
  show ?thesis
  proof (cases p)
    case (DurationProducer m)
    then show ?thesis using assms duration_call_acts[of env c m e]
      by (cases "duration_call env c (m, e)") (auto simp: producerActivations_def t)
  next
    case (GaugeProducer m)
    then show ?thesis using assms gauge_call_keeps[of c m n env]
      by (auto simp: producerActivations_def keeps_if_def gauge_keeps_def t)
  qed (use assms in \<open>auto simp: producerActivations_def count_call_acts event_call_acts value_call_acts t\<close>)
qed

text \<open>Activity: a call other than the expiry never ends it.\<close>

lemma actEffect_active:
  "mIsActive a \<Longrightarrow> mIsActive (actEffect (Activate i t) a)" "mIsActive (actEffect (CancelEventActivation i) a) = mIsActive a"
  by (auto simp: activateLocked_def cancelEventActivationLocked_def Let_def split: option.split)

section \<open>Returning\<close>

definition producer_quiet :: "'l pull_env \<Rightarrow> producer \<Rightarrow> bool" where
  "producer_quiet env p = (case p of GaugeProducer m \<Rightarrow> quiet env (gpTriggerAtomId (gmParams m)) | _ \<Rightarrow> True)"

lemma gauge_event_ret:
  assumes "gauge_keeps a p m" "sint (tagId ev) = gpTriggerAtomId p \<Longrightarrow> (\<And>t m. gauge_keeps a p m \<Longrightarrow> returns (gauge_keeps a p) (pull t m))"
  shows "returns (gauge_keeps a p) (gauge_event pull env ev m)"
proof -
  have "gpTriggerAtomId (gmParams (gauge_flushIfNeededLocked t m)) = gpTriggerAtomId p" for t
    using gauge_flush_keeps[OF assms(1), of t] by (simp add: gauge_keeps_def)
  then show ?thesis using assms gauge_flush_keeps[OF assms(1)] gauge_sample_keeps[of a p "gauge_flushIfNeededLocked t m" for t]
    by (auto simp: gauge_event_def Let_def split: option.split)
qed

lemma gauge_quiet_ret:
  "gauge_keeps a p m \<Longrightarrow> sint (tagId ev) \<noteq> gpTriggerAtomId p \<Longrightarrow> returns (gauge_keeps a p) (gauge_onMatchedLogEvent n env ev m)"
  by (cases n) (auto intro: gauge_event_ret)

lemma gauge_pull_ret:
  assumes "gauge_keeps a p m" "quiet env (gpTriggerAtomId p)"
  shows "returns (gauge_keeps a p) (gauge_pullAndMatchEventsLocked n env t m)"
proof -
  have "returns (gauge_keeps a p) (foldEvents (\<lambda>ev m. let localCopy = ev\<lparr>elapsedTimestampNs := t\<rparr>
          in if matchLogEvent env (log_event.truncate localCopy) (gpWhatMatcherIndex (gmParams m)) = kMatched
             then gauge_onMatchedLogEvent n env localCopy m else Some m) allData m)" if "pePull env t = Some allData" for allData
    by (rule foldEvents_returns[where P = "gauge_keeps a p", OF _ assms(1)])
       (use that assms(2) in \<open>auto simp: Let_def quiet_def intro!: gauge_quiet_ret\<close>)
  then show ?thesis using assms(1) by (auto simp: gauge_pullAndMatchEventsLocked_def pullWith_def split: option.split)
qed

lemma gauge_call_ret:
  assumes "quiet env (gpTriggerAtomId (gmParams m))"
  shows "gauge_call (Suc n) env c m \<noteq> None"
proof -
  let ?p = "gmParams m"
  have r: "r \<noteq> None" if "returns P r" for P :: "gauge_metric \<Rightarrow> bool" and r using that by (simp add: returns_keeps)
  have pull: "gauge_pullAndMatchEventsLocked n' env t m' \<noteq> None" if "gmParams m' = ?p" for n' t m'
    by (rule r[of "gauge_keeps (mpActivations m') ?p"]) (rule gauge_pull_ret, use that assms in \<open>simp_all add: gauge_keeps_def\<close>)
  have ev: "gauge_onMatchedLogEvent (Suc n) env ev m \<noteq> None" for ev
    unfolding gauge_onMatchedLogEvent.simps
    by (rule r[of "gauge_keeps (mpActivations m) ?p"], rule gauge_event_ret)
       (use gauge_pull_ret[OF _ assms, of "mpActivations m" _ n] in \<open>simp_all add: gauge_keeps_def gauge_pullAndMatchEventsLocked_def\<close>)
  show ?thesis
    by (cases c) (use pull ev in \<open>auto simp: gauge_flushIfExpire_def gauge_activateLocked_def Let_def gauge_onActiveStateChangedLocked_def
        gauge_onConditionChangedLocked_def gauge_onStatsdInitCompleted_def gauge_frame
        gauge_onSlicedConditionMayChangeLocked_def gauge_notifyAppUpgrade_def gauge_prepareFirstBucketLocked_def
        simp del: gauge_onMatchedLogEvent.simps split: prod.split\<close>)
qed

lemma callProducer_returns:
  assumes "producer_quiet env p"
  shows "\<exists>p' e'. callProducer (Suc n) env c (p, e) = Some (p', e') \<and> producer_quiet env p'"
proof (cases p)
  case (GaugeProducer m)
  then obtain m' where "gauge_call (Suc n) env c m = Some m'" using gauge_call_ret[of env m n c] assms by (auto simp: producer_quiet_def)
  then show ?thesis using gauge_call_keeps[of c m "Suc n" env] assms by (simp add: GaugeProducer producer_quiet_def gauge_keeps_def)
qed (auto simp: producer_quiet_def split: prod.split)

end
