(* ===== verification/UidMap.thy ===== *)
theory UidMap
  imports FieldMatching
begin

text \<open>
  \<^verbatim>\<open>bin/src/packages/UidMap.h\<close> and \<^verbatim>\<open>.cpp\<close>: the installed apps by uid and package name, the changes
  that reports list, the deleted apps kept for a while, and the parents of isolated uids. A call of the listener
  is a value of \<open>package_notice\<close> in the result; \<^verbatim>\<open>mSubscriber\<close> is whether there is a listener. The size of a
  change record is the parameter \<open>recSize\<close>. The loop of \<^verbatim>\<open>ensureBytesUsedBelowLimit\<close> may not end: its value is then \<open>None\<close>.
\<close>

section \<open>Definitions\<close>

record app_data =
  adVersionCode :: i64
  adVersionString :: string
  adInstaller :: string
  adDeleted :: bool

definition AppData :: "i64 \<Rightarrow> string \<Rightarrow> string \<Rightarrow> app_data" where
  "AppData v versionString installer = \<lparr>adVersionCode = v, adVersionString = versionString, adInstaller = installer, adDeleted = False\<rparr>"

record change_record =
  crDeletion :: bool
  crTimestampNs :: ns
  crPackage :: string
  crUid :: int
  crVersion :: i64
  crPrevVersion :: i64
  crVersionString :: string
  crPrevVersionString :: string

record config_key =
  ckUid :: int
  ckId :: int

record uid_map =
  umMap :: "(int \<times> string, app_data) umap"
  umIsolatedUidMap :: "(int, int) umap"
  umChanges :: "change_record list"
  umDeletedApps :: "(int \<times> string) list"
  umSubscriber :: bool
  umLastUpdatePerConfigKey :: "(config_key, ns) umap"
  umMaxBytesOverride :: nat
  umBytesUsed :: nat

datatype package_notice =
    UidMapReceived ns
  | AppUpgrade ns string int i64
  | AppRemoved ns string int

definition newUidMap :: uid_map where
  "newUidMap = \<lparr>umMap = [], umIsolatedUidMap = [], umChanges = [], umDeletedApps = [], umSubscriber = False,
     umLastUpdatePerConfigKey = [], umMaxBytesOverride = 0, umBytesUsed = 0\<rparr>"

definition kMaxBytesUsedUidMap :: nat where
  "kMaxBytesUsedUidMap = 50 * 1024"

definition kMaxDeletedAppsInUidMap :: nat where
  "kMaxDeletedAppsInUidMap = 100"

definition hasApp :: "int \<Rightarrow> string \<Rightarrow> uid_map \<Rightarrow> bool" where
  "hasApp uid packageName m = (case map_of (umMap m) (uid, packageName) of None \<Rightarrow> False | Some d \<Rightarrow> \<not> adDeleted d)"

text \<open>\<^verbatim>\<open>tolower\<close> in the C locale.\<close>

definition tolower :: "char \<Rightarrow> char" where
  "tolower c = (if 65 \<le> (of_char c :: nat) \<and> (of_char c :: nat) \<le> 90 then char_of ((of_char c :: nat) + 32) else c)"

definition normalizeAppName :: "string \<Rightarrow> string" where
  "normalizeAppName appName = map tolower appName"

text \<open>The sets of names and uids are lists; their order and repetitions do not matter.\<close>

definition getAppNames :: "int \<Rightarrow> bool \<Rightarrow> uid_map \<Rightarrow> string list" where
  "getAppNames uid returnNormalized m =
     map (\<lambda>((u, name), d). if returnNormalized then normalizeAppName name else name)
       (filter (\<lambda>((u, name), d). u = uid \<and> \<not> adDeleted d) (umMap m))"

definition getAppVersion :: "int \<Rightarrow> string \<Rightarrow> uid_map \<Rightarrow> i64" where
  "getAppVersion uid packageName m =
     (case map_of (umMap m) (uid, packageName) of None \<Rightarrow> 0 | Some d \<Rightarrow> if adDeleted d then 0 else adVersionCode d)"

definition getAppUid :: "string \<Rightarrow> uid_map \<Rightarrow> int list" where
  "getAppUid package m = map (\<lambda>((u, name), d). u) (filter (\<lambda>((u, name), d). name = package \<and> \<not> adDeleted d) (umMap m))"

definition uidMapLimit :: "uid_map \<Rightarrow> nat" where
  "uidMapLimit m = (if umMaxBytesOverride m \<le> 0 then kMaxBytesUsedUidMap else umMaxBytesOverride m)"

partial_function (option) dropChanges :: "nat \<Rightarrow> nat \<Rightarrow> change_record list \<Rightarrow> nat \<Rightarrow> (change_record list \<times> nat) option" where
  "dropChanges recSize limit changes bytesUsed =
     (if bytesUsed > limit
      then case changes of
             [] \<Rightarrow> dropChanges recSize limit [] bytesUsed
           | c # cs \<Rightarrow> dropChanges recSize limit cs (bytesUsed - recSize)
      else Some (changes, bytesUsed))"

declare dropChanges.simps [code]

definition ensureBytesUsedBelowLimit :: "nat \<Rightarrow> uid_map \<Rightarrow> uid_map option" where
  "ensureBytesUsedBelowLimit recSize m =
     (case dropChanges recSize (uidMapLimit m) (umChanges m) (umBytesUsed m) of
        None \<Rightarrow> None
      | Some (changes, bytes) \<Rightarrow> Some (m\<lparr>umChanges := changes, umBytesUsed := bytes\<rparr>))"

text \<open>The deleted entries of the old map that come back over the new one. The five vectors of \<^verbatim>\<open>updateMap\<close> are
  one list.\<close>

definition updateMap ::
  "nat \<Rightarrow> ns \<Rightarrow> (int \<times> i64 \<times> string \<times> string \<times> string) list \<Rightarrow> uid_map \<Rightarrow> (uid_map \<times> package_notice list) option" where
  "updateMap recSize timestamp entries m =
     (let deletedApps = filter (\<lambda>(k, d). adDeleted d) (umMap m);
          mp = foldl (\<lambda>mp (uid, versionCode, versionString, packageName, installer).
                  AList.update (uid, packageName) (AppData versionCode versionString installer) mp) [] entries;
          mp1 = foldl (\<lambda>mp (k, d). if map_of mp k \<noteq> None then AList.update k d mp else mp) mp deletedApps
      in case ensureBytesUsedBelowLimit recSize (m\<lparr>umMap := mp1\<rparr>) of
           None \<Rightarrow> None
         | Some m1 \<Rightarrow> Some (m1, if umSubscriber m1 then [UidMapReceived timestamp] else []))"

text \<open>A record of a change is added and the oldest ones are dropped.\<close>

definition addChange :: "nat \<Rightarrow> change_record \<Rightarrow> uid_map \<Rightarrow> uid_map option" where
  "addChange recSize c m = ensureBytesUsedBelowLimit recSize (m\<lparr>umChanges := umChanges m @ [c], umBytesUsed := umBytesUsed m + recSize\<rparr>)"

text \<open>\<^verbatim>\<open>int32_t prevVersion\<close>: the old version code loses its upper half.\<close>

definition updateApp ::
  "nat \<Rightarrow> ns \<Rightarrow> string \<Rightarrow> int \<Rightarrow> i64 \<Rightarrow> string \<Rightarrow> string \<Rightarrow> uid_map \<Rightarrow> (uid_map \<times> package_notice list) option" where
  "updateApp recSize timestamp appName uid versionCode versionString installer m =
     (let old = map_of (umMap m) (uid, appName);
          prevVersion = (case old of None \<Rightarrow> 0 | Some d \<Rightarrow> (ucast (adVersionCode d) :: i32));
          prevVersionString = (case old of None \<Rightarrow> [] | Some d \<Rightarrow> adVersionString d);
          m1 = m\<lparr>umMap := AList.update (uid, appName) (AppData versionCode versionString installer) (umMap m)\<rparr>
      in case addChange recSize \<lparr>crDeletion = False, crTimestampNs = timestamp, crPackage = appName, crUid = uid, crVersion = versionCode,
               crPrevVersion = scast prevVersion, crVersionString = versionString, crPrevVersionString = prevVersionString\<rparr> m1 of
           None \<Rightarrow> None
         | Some m2 \<Rightarrow> Some (m2, if old \<noteq> None \<and> umSubscriber m2 then [AppUpgrade timestamp appName uid versionCode] else []))"

definition removeApp :: "nat \<Rightarrow> ns \<Rightarrow> string \<Rightarrow> int \<Rightarrow> uid_map \<Rightarrow> (uid_map \<times> package_notice list) option" where
  "removeApp recSize timestamp app uid m =
     (let (m1, prevVersion, prevVersionString) =
            (case map_of (umMap m) (uid, app) of
               None \<Rightarrow> (m, 0, [])
             | Some d \<Rightarrow> if adDeleted d then (m, 0, [])
                         else (m\<lparr>umMap := AList.update (uid, app) (d\<lparr>adDeleted := True\<rparr>) (umMap m), umDeletedApps := umDeletedApps m @ [(uid, app)]\<rparr>,
                               adVersionCode d, adVersionString d));
          m2 = (if length (umDeletedApps m1) > kMaxDeletedAppsInUidMap
                then m1\<lparr>umMap := AList.delete (hd (umDeletedApps m1)) (umMap m1), umDeletedApps := tl (umDeletedApps m1)\<rparr> else m1)
      in case addChange recSize \<lparr>crDeletion = True, crTimestampNs = timestamp, crPackage = app, crUid = uid, crVersion = 0,
               crPrevVersion = prevVersion, crVersionString = [], crPrevVersionString = prevVersionString\<rparr> m2 of
           None \<Rightarrow> None
         | Some m3 \<Rightarrow> Some (m3, if umSubscriber m3 then [AppRemoved timestamp app uid] else []))"

definition uidMap_setListener :: "bool \<Rightarrow> uid_map \<Rightarrow> uid_map" where
  "uidMap_setListener l m = m\<lparr>umSubscriber := l\<rparr>"

definition assignIsolatedUid :: "int \<Rightarrow> int \<Rightarrow> uid_map \<Rightarrow> uid_map" where
  "assignIsolatedUid isolatedUid parentUid m = m\<lparr>umIsolatedUidMap := AList.update isolatedUid parentUid (umIsolatedUidMap m)\<rparr>"

definition removeIsolatedUid :: "int \<Rightarrow> uid_map \<Rightarrow> uid_map" where
  "removeIsolatedUid isolatedUid m = m\<lparr>umIsolatedUidMap := AList.delete isolatedUid (umIsolatedUidMap m)\<rparr>"

definition getHostUidOrSelf :: "int \<Rightarrow> uid_map \<Rightarrow> int" where
  "getHostUidOrSelf uid m = (case map_of (umIsolatedUidMap m) uid of None \<Rightarrow> uid | Some parent \<Rightarrow> parent)"

definition uidMap_clearOutput :: "uid_map \<Rightarrow> uid_map" where
  "uidMap_clearOutput m = m\<lparr>umChanges := [], umBytesUsed := 0\<rparr>"

definition getMinimumTimestampNs :: "uid_map \<Rightarrow> ns" where
  "getMinimumTimestampNs m =
     foldl (\<lambda>acc (k, t). if acc = 0 then t else if t < acc then t else acc) 0 (umLastUpdatePerConfigKey m)"

text \<open>The snapshot: the entries handed to the proto writer, all of them for an empty set of uids.\<close>

definition writeUidMapSnapshot :: "int list \<Rightarrow> uid_map \<Rightarrow> ((int \<times> string) \<times> app_data) list" where
  "writeUidMapSnapshot interestingUids m =
     filter (\<lambda>((uid, name), d). interestingUids = [] \<or> uid \<in> set interestingUids) (umMap m)"

text \<open>The reading \<^verbatim>\<open>mLastUpdatePerConfigKey[key]\<close> in the loop creates an entry 0. The result is the changes and the
  snapshot handed to the proto writer.\<close>

definition appendUidMap ::
  "nat \<Rightarrow> ns \<Rightarrow> config_key \<Rightarrow> uid_map \<Rightarrow> uid_map \<times> change_record list \<times> ((int \<times> string) \<times> app_data) list" where
  "appendUidMap recSize timestamp key m =
     (let last = (case map_of (umLastUpdatePerConfigKey m) key of None \<Rightarrow> 0 | Some t \<Rightarrow> t);
          m1 = (if umChanges m \<noteq> [] \<and> map_of (umLastUpdatePerConfigKey m) key = None
                then m\<lparr>umLastUpdatePerConfigKey := AList.update key 0 (umLastUpdatePerConfigKey m)\<rparr> else m);
          written = filter (\<lambda>c. crTimestampNs c > last) (umChanges m1);
          snapshot = writeUidMapSnapshot [] m1;
          prevMin = getMinimumTimestampNs m1;
          m2 = m1\<lparr>umLastUpdatePerConfigKey := AList.update key timestamp (umLastUpdatePerConfigKey m1)\<rparr>;
          newMin = getMinimumTimestampNs m2;
          kept = filter (\<lambda>c. \<not> crTimestampNs c < newMin) (umChanges m2)
      in (if newMin > prevMin
          then m2\<lparr>umChanges := kept, umBytesUsed := umBytesUsed m2 - (length (umChanges m2) - length kept) * recSize\<rparr> else m2,
          written, snapshot))"

definition uidMap_OnConfigUpdated :: "config_key \<Rightarrow> uid_map \<Rightarrow> uid_map" where
  "uidMap_OnConfigUpdated key m = m\<lparr>umLastUpdatePerConfigKey := AList.update key (-1) (umLastUpdatePerConfigKey m)\<rparr>"

definition uidMap_OnConfigRemoved :: "config_key \<Rightarrow> uid_map \<Rightarrow> uid_map" where
  "uidMap_OnConfigRemoved key m = m\<lparr>umLastUpdatePerConfigKey := AList.delete key (umLastUpdatePerConfigKey m)\<rparr>"

definition aidToUidMapping :: "(string, int) umap" where
  "aidToUidMapping =
   [(''AID_ROOT'', 0), (''AID_SYSTEM'', 1000), (''AID_RADIO'', 1001), (''AID_BLUETOOTH'', 1002), (''AID_GRAPHICS'', 1003),
    (''AID_INPUT'', 1004), (''AID_AUDIO'', 1005), (''AID_CAMERA'', 1006), (''AID_LOG'', 1007), (''AID_COMPASS'', 1008),
    (''AID_MOUNT'', 1009), (''AID_WIFI'', 1010), (''AID_ADB'', 1011), (''AID_INSTALL'', 1012), (''AID_MEDIA'', 1013), (''AID_DHCP'', 1014),
    (''AID_SDCARD_RW'', 1015), (''AID_VPN'', 1016), (''AID_KEYSTORE'', 1017), (''AID_USB'', 1018), (''AID_DRM'', 1019),
    (''AID_MDNSR'', 1020), (''AID_GPS'', 1021), (''AID_MEDIA_RW'', 1023), (''AID_MTP'', 1024), (''AID_DRMRPC'', 1026), (''AID_NFC'', 1027),
    (''AID_SDCARD_R'', 1028), (''AID_CLAT'', 1029), (''AID_LOOP_RADIO'', 1030), (''AID_MEDIA_DRM'', 1031), (''AID_PACKAGE_INFO'', 1032),
    (''AID_SDCARD_PICS'', 1033), (''AID_SDCARD_AV'', 1034), (''AID_SDCARD_ALL'', 1035), (''AID_LOGD'', 1036), (''AID_SHARED_RELRO'', 1037),
    (''AID_DBUS'', 1038), (''AID_TLSDATE'', 1039), (''AID_MEDIA_EX'', 1040), (''AID_AUDIOSERVER'', 1041), (''AID_METRICS_COLL'', 1042),
    (''AID_METRICSD'', 1043), (''AID_WEBSERV'', 1044), (''AID_DEBUGGERD'', 1045), (''AID_MEDIA_CODEC'', 1046),
    (''AID_CAMERASERVER'', 1047), (''AID_FIREWALL'', 1048), (''AID_TRUNKS'', 1049), (''AID_NVRAM'', 1050), (''AID_DNS'', 1051),
    (''AID_DNS_TETHER'', 1052), (''AID_WEBVIEW_ZYGOTE'', 1053), (''AID_VEHICLE_NETWORK'', 1054), (''AID_MEDIA_AUDIO'', 1055),
    (''AID_MEDIA_VIDEO'', 1056), (''AID_MEDIA_IMAGE'', 1057), (''AID_TOMBSTONED'', 1058), (''AID_MEDIA_OBB'', 1059), (''AID_ESE'', 1060),
    (''AID_OTA_UPDATE'', 1061), (''AID_AUTOMOTIVE_EVS'', 1062), (''AID_LOWPAN'', 1063), (''AID_HSM'', 1064), (''AID_RESERVED_DISK'', 1065),
    (''AID_STATSD'', 1066), (''AID_INCIDENTD'', 1067), (''AID_SECURE_ELEMENT'', 1068), (''AID_LMKD'', 1069), (''AID_LLKD'', 1070),
    (''AID_IORAPD'', 1071), (''AID_GPU_SERVICE'', 1072), (''AID_NETWORK_STACK'', 1073), (''AID_GSID'', 1074),
    (''AID_FSVERITY_CERT'', 1075), (''AID_CREDSTORE'', 1076), (''AID_EXTERNAL_STORAGE'', 1077), (''AID_EXT_DATA_RW'', 1078),
    (''AID_EXT_OBB_RW'', 1079), (''AID_CONTEXT_HUB'', 1080), (''AID_SHELL'', 2000), (''AID_CACHE'', 2001), (''AID_DIAG'', 2002)]"

text \<open>What the matchers ask of the uid map.\<close>

definition uidEnvOf :: "uid_map \<Rightarrow> uid_env" where
  "uidEnvOf m = \<lparr>sAidToUidMapping = aidToUidMapping, getAppNamesFromUid = (\<lambda>uid. getAppNames uid True m)\<rparr>"

section \<open>Changes and bytes\<close>

text \<open>The loop ends and keeps the newest records that fit, if the bytes used are those of the records.\<close>

lemma dropChanges_newest:
  assumes "0 < recSize"
  shows "dropChanges recSize limit cs (recSize * length cs) =
    Some (drop (length cs - limit div recSize) cs, recSize * min (length cs) (limit div recSize))"
proof (induction cs)
  case Nil
  show ?case by (subst dropChanges.simps) simp
next
  case (Cons c cs)
  show ?case
  proof (cases "recSize * length (c # cs) > limit")
    case True
    then have "limit div recSize < length (c # cs)" using assms by (simp add: div_less_iff_less_mult mult.commute)
    then show ?thesis using Cons True by (subst dropChanges.simps) (simp add: Suc_diff_le min_def)
  next
    case False
    then have "length (c # cs) \<le> limit div recSize" using assms by (simp add: less_eq_div_iff_mult_less_eq mult.commute)
    then show ?thesis using False by (subst dropChanges.simps) (simp add: min_def)
  qed
qed

definition uid_bytes_ok :: "nat \<Rightarrow> uid_map \<Rightarrow> bool" where
  "uid_bytes_ok recSize m \<longleftrightarrow> umBytesUsed m = recSize * length (umChanges m)"

lemma ensure_returns:
  assumes "0 < recSize" "uid_bytes_ok recSize m"
  shows "\<exists>n. ensureBytesUsedBelowLimit recSize m = Some (m\<lparr>umChanges := drop n (umChanges m), umBytesUsed := recSize * (length (umChanges m) - n)\<rparr>) \<and>
     recSize * (length (umChanges m) - n) \<le> uidMapLimit m"
proof -
  let ?k = "uidMapLimit m div recSize" and ?l = "length (umChanges m)"
  have "recSize * (?l - (?l - ?k)) \<le> uidMapLimit m"
  proof -
    have "recSize * (?l - (?l - ?k)) \<le> recSize * ?k" by (rule mult_le_mono2) simp
    also have "\<dots> \<le> uidMapLimit m" by simp
    finally show ?thesis .
  qed
  moreover have "min ?l ?k = ?l - (?l - ?k)" by simp
  ultimately show ?thesis
    using dropChanges_newest[OF assms(1), of "uidMapLimit m" "umChanges m"] assms(2)
    by (intro exI[of _ "?l - ?k"]) (simp add: ensureBytesUsedBelowLimit_def uid_bytes_ok_def del: diff_diff_cancel)
qed

section \<open>The invariant\<close>

text \<open>The bytes are accounted for and bounded, at most a hundred deleted apps are kept, all on the list of deleted apps.\<close>

definition uid_inv :: "nat \<Rightarrow> uid_map \<Rightarrow> bool" where
  "uid_inv recSize m \<longleftrightarrow> uid_bytes_ok recSize m \<and> umBytesUsed m \<le> uidMapLimit m \<and> umap_ok (umMap m) \<and>
     length (umDeletedApps m) \<le> kMaxDeletedAppsInUidMap \<and>
     (\<forall>k d. map_of (umMap m) k = Some d \<longrightarrow> adDeleted d \<longrightarrow> k \<in> set (umDeletedApps m))"

datatype uid_op =
    UUpdateMap ns "(int \<times> i64 \<times> string \<times> string \<times> string) list"
  | UUpdateApp ns string int i64 string string
  | URemoveApp ns string int
  | USetListener bool
  | UAssignIsolated int int
  | URemoveIsolated int
  | UClearOutput
  | UAppend ns config_key
  | UConfigUpdated config_key
  | UConfigRemoved config_key

fun uid_step :: "nat \<Rightarrow> uid_op \<Rightarrow> uid_map \<Rightarrow> uid_map option" where
  "uid_step r (UUpdateMap t es) m = map_option fst (updateMap r t es m)"
| "uid_step r (UUpdateApp t app uid v vs inst) m = map_option fst (updateApp r t app uid v vs inst m)"
| "uid_step r (URemoveApp t app uid) m = map_option fst (removeApp r t app uid m)"
| "uid_step r (USetListener l) m = Some (uidMap_setListener l m)"
| "uid_step r (UAssignIsolated i p) m = Some (assignIsolatedUid i p m)"
| "uid_step r (URemoveIsolated i) m = Some (removeIsolatedUid i m)"
| "uid_step r UClearOutput m = Some (uidMap_clearOutput m)"
| "uid_step r (UAppend t k) m = Some (fst (appendUidMap r t k m))"
| "uid_step r (UConfigUpdated k) m = Some (uidMap_OnConfigUpdated k m)"
| "uid_step r (UConfigRemoved k) m = Some (uidMap_OnConfigRemoved k m)"

fun uid_run :: "nat \<Rightarrow> uid_op list \<Rightarrow> uid_map \<Rightarrow> uid_map option" where
  "uid_run r [] m = Some m"
| "uid_run r (x # xs) m = (case uid_step r x m of None \<Rightarrow> None | Some m1 \<Rightarrow> uid_run r xs m1)"

text \<open>The map after \<^verbatim>\<open>updateMap\<close>: the deleted entries of the old map overwrite the snapshot.\<close>

definition snapshotMap :: "(int \<times> i64 \<times> string \<times> string \<times> string) list \<Rightarrow> (int \<times> string, app_data) umap" where
  "snapshotMap entries = foldl (\<lambda>mp (uid, versionCode, versionString, packageName, installer).
     AList.update (uid, packageName) (AppData versionCode versionString installer) mp) [] entries"

definition withDeleted :: "(int \<times> string, app_data) umap \<Rightarrow> (int \<times> string, app_data) umap \<Rightarrow> (int \<times> string, app_data) umap" where
  "withDeleted dels mp = foldl (\<lambda>mp (k, d). if map_of mp k \<noteq> None then AList.update k d mp else mp) mp dels"

lemma map_of_withDeleted:
  "umap_ok dels \<Longrightarrow> map_of (withDeleted dels mp) k =
     (case map_of mp k of None \<Rightarrow> None | Some d \<Rightarrow> (case map_of dels k of None \<Rightarrow> Some d | Some d' \<Rightarrow> Some d'))"
proof (induction dels arbitrary: mp)
  case (Cons x dels)
  obtain k' d' where x: "x = (k', d')" by fastforce
  have "map_of dels k' = None" "umap_ok dels" using Cons.prems by (auto simp: x umap_ok_def map_of_eq_None_iff)
  then show ?case using Cons.IH[of "if map_of mp k' \<noteq> None then AList.update k' d' mp else mp"]
    by (auto simp: x withDeleted_def split: option.splits)
qed (simp add: withDeleted_def split: option.split)

lemma umap_ok_withDeleted: "umap_ok mp \<Longrightarrow> umap_ok (withDeleted dels mp)"
  unfolding withDeleted_def by (induction dels arbitrary: mp) auto

definition live_map :: "(int \<times> string, app_data) umap \<Rightarrow> bool" where
  "live_map mp \<longleftrightarrow> umap_ok mp \<and> (\<forall>k d. map_of mp k = Some d \<longrightarrow> \<not> adDeleted d)"

lemma live_map_update: "live_map mp \<Longrightarrow> live_map (AList.update k (AppData v vs inst) mp)"
  by (simp add: live_map_def AppData_def)

lemma snapshotMap_live: "live_map (snapshotMap es)"
proof -
  have "live_map mp \<Longrightarrow> live_map (foldl (\<lambda>mp (uid, v, vs, p, inst). AList.update (uid, p) (AppData v vs inst) mp) mp es)" for mp
    by (induction es arbitrary: mp) (simp_all add: live_map_update split: prod.split)
  from this[of "[]"] show ?thesis by (simp add: snapshotMap_def live_map_def)
qed

lemma map_of_filter_value: "umap_ok m \<Longrightarrow> map_of (filter (\<lambda>(k, d). P d) m) k = (case map_of m k of None \<Rightarrow> None | Some d \<Rightarrow> if P d then Some d else None)"
proof (induction m)
  case (Cons x m)
  obtain k' d' where x: "x = (k', d')" by fastforce
  have "map_of m k' = None" "umap_ok m" using Cons.prems by (auto simp: x umap_ok_def map_of_eq_None_iff)
  then show ?case using Cons.IH by (auto simp: x split: option.splits)
qed simp

lemma updateMap_map:
  assumes "0 < recSize" "uid_bytes_ok recSize m" "umap_ok (umMap m)"
  shows "\<exists>n. updateMap recSize t es m = Some (m\<lparr>umMap := withDeleted (filter (\<lambda>(k, d). adDeleted d) (umMap m)) (snapshotMap es),
       umChanges := drop n (umChanges m), umBytesUsed := recSize * (length (umChanges m) - n)\<rparr>, if umSubscriber m then [UidMapReceived t] else []) \<and>
     recSize * (length (umChanges m) - n) \<le> uidMapLimit m"
  using ensure_returns[of recSize "m\<lparr>umMap := withDeleted (filter (\<lambda>(k, d). adDeleted d) (umMap m)) (snapshotMap es)\<rparr>"] assms
  by (auto simp: updateMap_def Let_def withDeleted_def snapshotMap_def uid_bytes_ok_def uidMapLimit_def)

lemma addChange_returns:
  assumes "0 < recSize" "uid_bytes_ok recSize m"
  shows "\<exists>n. addChange recSize c m = Some (m\<lparr>umChanges := drop n (umChanges m @ [c]), umBytesUsed := recSize * (Suc (length (umChanges m)) - n)\<rparr>) \<and>
     recSize * (Suc (length (umChanges m)) - n) \<le> uidMapLimit m"
  using ensure_returns[of recSize "m\<lparr>umChanges := umChanges m @ [c], umBytesUsed := umBytesUsed m + recSize\<rparr>"] assms
  by (auto simp: addChange_def uid_bytes_ok_def uidMapLimit_def)

lemma uid_inv_deleted: "uid_inv recSize m \<Longrightarrow> map_of (umMap m) k = Some d \<Longrightarrow> adDeleted d \<Longrightarrow> k \<in> set (umDeletedApps m)"
  unfolding uid_inv_def by blast

lemma live_mapD: "live_map mp \<Longrightarrow> map_of mp k = Some d \<Longrightarrow> \<not> adDeleted d"
  unfolding live_map_def by blast

lemma uid_inv_add:
  assumes "uid_inv recSize m" "0 < recSize" "umap_ok mp" "length dels \<le> kMaxDeletedAppsInUidMap"
    and "\<And>k d. map_of mp k = Some d \<Longrightarrow> adDeleted d \<Longrightarrow> k \<in> set dels"
  shows "\<exists>m'. addChange recSize c (m\<lparr>umMap := mp, umDeletedApps := dels\<rparr>) = Some m' \<and> uid_inv recSize m' \<and> umMap m' = mp \<and> umSubscriber m' = umSubscriber m"
  using addChange_returns[of recSize "m\<lparr>umMap := mp, umDeletedApps := dels\<rparr>" c] assms
  by (auto simp: uid_inv_def uid_bytes_ok_def uidMapLimit_def)

lemma updateApp_ok:
  assumes "uid_inv recSize m" "0 < recSize"
  shows "\<exists>m' ns. updateApp recSize t app uid v vs inst m = Some (m', ns) \<and> uid_inv recSize m' \<and>
    umMap m' = AList.update (uid, app) (AppData v vs inst) (umMap m)"
proof -
  let ?mp = "AList.update (uid, app) (AppData v vs inst) (umMap m)"
  have e: "m\<lparr>umMap := ?mp\<rparr> = m\<lparr>umMap := ?mp, umDeletedApps := umDeletedApps m\<rparr>" by simp
  have "k \<in> set (umDeletedApps m)" if "map_of ?mp k = Some d" "adDeleted d" for k d
    using uid_inv_deleted[OF assms(1)] that by (auto simp: AppData_def split: if_splits)
  then have a: "\<exists>m'. addChange recSize c (m\<lparr>umMap := ?mp\<rparr>) = Some m' \<and> uid_inv recSize m' \<and> umMap m' = ?mp" for c
    using uid_inv_add[OF assms, of ?mp "umDeletedApps m" c, folded e] assms(1) by (auto simp: uid_inv_def)
  define c where "c = \<lparr>crDeletion = False, crTimestampNs = t, crPackage = app, crUid = uid, crVersion = v,
     crPrevVersion = scast (case map_of (umMap m) (uid, app) of None \<Rightarrow> 0 | Some d \<Rightarrow> (ucast (adVersionCode d) :: i32)), crVersionString = vs,
     crPrevVersionString = (case map_of (umMap m) (uid, app) of None \<Rightarrow> [] | Some d \<Rightarrow> adVersionString d)\<rparr>"
  have "updateApp recSize t app uid v vs inst m = (case addChange recSize c (m\<lparr>umMap := ?mp\<rparr>) of None \<Rightarrow> None
      | Some m2 \<Rightarrow> Some (m2, if map_of (umMap m) (uid, app) \<noteq> None \<and> umSubscriber m2 then [AppUpgrade t app uid v] else []))"
    by (simp add: updateApp_def Let_def c_def)
  with a[of c] show ?thesis by auto
qed

lemma removeApp_ok:
  assumes "uid_inv recSize m" "0 < recSize"
  shows "\<exists>m' ns mp dels. removeApp recSize t app uid m = Some (m', ns) \<and> uid_inv recSize m' \<and> umMap m' = (if length dels > kMaxDeletedAppsInUidMap then AList.delete (hd dels) mp else mp) \<and>
    (case map_of (umMap m) (uid, app) of
       Some d \<Rightarrow> if adDeleted d then mp = umMap m \<and> dels = umDeletedApps m
                 else mp = AList.update (uid, app) (d\<lparr>adDeleted := True\<rparr>) (umMap m) \<and> dels = umDeletedApps m @ [(uid, app)]
     | None \<Rightarrow> mp = umMap m \<and> dels = umDeletedApps m)"
proof -
  define live where "live = (case map_of (umMap m) (uid, app) of Some d \<Rightarrow> \<not> adDeleted d | None \<Rightarrow> False)"
  define mp where "mp = (if live then AList.update (uid, app) ((the (map_of (umMap m) (uid, app)))\<lparr>adDeleted := True\<rparr>) (umMap m) else umMap m)"
  define dels where "dels = (if live then umDeletedApps m @ [(uid, app)] else umDeletedApps m)"
  define pv where "pv = (if live then (adVersionCode (the (map_of (umMap m) (uid, app))), adVersionString (the (map_of (umMap m) (uid, app)))) else (0, []))"
  let ?over = "length dels > kMaxDeletedAppsInUidMap"
  let ?mp = "if ?over then AList.delete (hd dels) mp else mp" and ?dels = "if ?over then tl dels else dels"
  let ?c = "\<lparr>crDeletion = True, crTimestampNs = t, crPackage = app, crUid = uid, crVersion = 0,
               crPrevVersion = fst pv, crVersionString = [], crPrevVersionString = snd pv\<rparr>"
  have e: "removeApp recSize t app uid m = (case addChange recSize ?c (m\<lparr>umMap := ?mp, umDeletedApps := ?dels\<rparr>) of
      None \<Rightarrow> None | Some m3 \<Rightarrow> Some (m3, if umSubscriber m3 then [AppRemoved t app uid] else []))"
    by (cases "map_of (umMap m) (uid, app)") (auto simp: removeApp_def live_def mp_def dels_def pv_def Let_def)
  have k: "k \<in> set dels" if "map_of mp k = Some d" "adDeleted d" for k d
    using uid_inv_deleted[OF assms(1)] that by (auto simp: mp_def dels_def split: if_splits)
  have "k \<in> set ?dels" if "map_of ?mp k = Some d" "adDeleted d" for k d
    using k[of k d] that by (cases dels) (auto split: if_splits)
  moreover have "umap_ok ?mp" "length ?dels \<le> kMaxDeletedAppsInUidMap" using assms(1) by (auto simp: uid_inv_def mp_def dels_def)
  ultimately obtain m' where m': "addChange recSize ?c (m\<lparr>umMap := ?mp, umDeletedApps := ?dels\<rparr>) = Some m'" "uid_inv recSize m'" "umMap m' = ?mp"
    using uid_inv_add[OF assms, of ?mp ?dels ?c] by blast
  have "case map_of (umMap m) (uid, app) of
       Some d \<Rightarrow> if adDeleted d then mp = umMap m \<and> dels = umDeletedApps m
                 else mp = AList.update (uid, app) (d\<lparr>adDeleted := True\<rparr>) (umMap m) \<and> dels = umDeletedApps m @ [(uid, app)]
     | None \<Rightarrow> mp = umMap m \<and> dels = umDeletedApps m"
    by (simp add: mp_def dels_def live_def split: option.split)
  with m' show ?thesis
    unfolding e by (intro exI[of _ m'] exI[of _ "if umSubscriber m' then [AppRemoved t app uid] else []"] exI[of _ mp] exI[of _ dels]) simp
qed

lemma appendUidMap_shape:
  "\<exists>l P. fst (appendUidMap recSize t k m) = m\<lparr>umLastUpdatePerConfigKey := l\<rparr> \<or>
     fst (appendUidMap recSize t k m) = m\<lparr>umLastUpdatePerConfigKey := l, umChanges := filter P (umChanges m),
       umBytesUsed := umBytesUsed m - (length (umChanges m) - length (filter P (umChanges m))) * recSize\<rparr>"
  by (auto simp: appendUidMap_def Let_def)

lemma appendUidMap_ok:
  assumes "uid_inv recSize m"
  shows "uid_inv recSize (fst (appendUidMap recSize t k m))"
proof -
  have f: "recSize * length cs - (length cs - length (filter P cs)) * recSize = recSize * length (filter P cs)"
    "recSize * length (filter P cs) \<le> recSize * length cs" for cs :: "change_record list" and P
    using length_filter_le[of P cs] by (auto simp: diff_mult_distrib2 mult.commute)
  obtain l P where "fst (appendUidMap recSize t k m) = m\<lparr>umLastUpdatePerConfigKey := l\<rparr> \<or>
     fst (appendUidMap recSize t k m) = m\<lparr>umLastUpdatePerConfigKey := l, umChanges := filter P (umChanges m),
       umBytesUsed := umBytesUsed m - (length (umChanges m) - length (filter P (umChanges m))) * recSize\<rparr>"
    using appendUidMap_shape by blast
  moreover have "recSize * length (filter P (umChanges m)) \<le> uidMapLimit m"
    using le_trans[OF f(2)] assms by (simp add: uid_inv_def uid_bytes_ok_def)
  ultimately show ?thesis using assms f(1)[where P = P and cs = "umChanges m"]
    by (elim disjE) (simp_all add: uid_inv_def uid_bytes_ok_def uidMapLimit_def split: if_splits)
qed

lemma uid_step_ok:
  assumes "uid_inv recSize m" "0 < recSize"
  shows "\<exists>m'. uid_step recSize x m = Some m' \<and> uid_inv recSize m'"
proof (cases x)
  case (UUpdateMap t es)
  let ?dels = "filter (\<lambda>(k, d). adDeleted d) (umMap m)"
  have u: "umap_ok ?dels" "umap_ok (umMap m)" using assms(1) by (auto simp: uid_inv_def)
  obtain n where n: "updateMap recSize t es m = Some (m\<lparr>umMap := withDeleted ?dels (snapshotMap es),
       umChanges := drop n (umChanges m), umBytesUsed := recSize * (length (umChanges m) - n)\<rparr>, if umSubscriber m then [UidMapReceived t] else [])"
     "recSize * (length (umChanges m) - n) \<le> uidMapLimit m"
    using updateMap_map[OF assms(2), of m t es] assms(1) by (auto simp: uid_inv_def)
  have "\<exists>d'. map_of (umMap m) k = Some d' \<and> adDeleted d'" if "map_of (withDeleted ?dels (snapshotMap es)) k = Some d" "adDeleted d" for k d
    using that live_mapD[OF snapshotMap_live] map_of_withDeleted[OF u(1), of "snapshotMap es" k] map_of_filter_value[OF u(2), of adDeleted k]
    by (auto split: option.splits if_splits)
  then have "\<forall>k d. map_of (withDeleted ?dels (snapshotMap es)) k = Some d \<longrightarrow> adDeleted d \<longrightarrow> k \<in> set (umDeletedApps m)"
    using uid_inv_deleted[OF assms(1)] by blast
  then show ?thesis using n assms(1) umap_ok_withDeleted[of "snapshotMap es" ?dels] snapshotMap_live[of es]
    by (simp add: UUpdateMap uid_inv_def uid_bytes_ok_def uidMapLimit_def live_map_def split: if_splits)
next
  case (UUpdateApp t app uid v vs inst)
  then show ?thesis using updateApp_ok[OF assms, of t app uid v vs inst] by auto
next
  case (URemoveApp t app uid)
  then show ?thesis using removeApp_ok[OF assms, of t app uid] by auto
next
  case (UAppend t k)
  then show ?thesis using appendUidMap_ok[OF assms(1)] by simp
qed (use assms in \<open>auto simp: uid_inv_def uid_bytes_ok_def uidMapLimit_def uidMap_setListener_def assignIsolatedUid_def removeIsolatedUid_def
    uidMap_clearOutput_def uidMap_OnConfigUpdated_def uidMap_OnConfigRemoved_def\<close>)

lemma uid_run_ok:
  "uid_inv recSize m \<Longrightarrow> 0 < recSize \<Longrightarrow> \<exists>m'. uid_run recSize xs m = Some m' \<and> uid_inv recSize m'"
proof (induction xs arbitrary: m)
  case (Cons x xs)
  obtain m1 where "uid_step recSize x m = Some m1" "uid_inv recSize m1" using uid_step_ok[OF Cons.prems] by blast
  then show ?case using Cons.IH[of m1] Cons.prems(2) by simp
qed simp

lemma new_uid_inv: "uid_inv recSize newUidMap"
  by (simp add: uid_inv_def uid_bytes_ok_def newUidMap_def)

lemma deleted_bound:
  assumes "uid_inv recSize m"
  shows "length (filter (\<lambda>(k, d). adDeleted d) (umMap m)) \<le> kMaxDeletedAppsInUidMap"
proof -
  let ?f = "filter (\<lambda>(k, d). adDeleted d) (umMap m)"
  have u: "umap_ok (umMap m)" using assms by (simp add: uid_inv_def)
  then have "distinct (map fst ?f)" using umap_ok_filter[OF u] by (simp add: umap_ok_def)
  moreover have "set (map fst ?f) \<subseteq> set (umDeletedApps m)"
    using uid_inv_deleted[OF assms] map_of_Some_iff_mem[OF u] by (force split: prod.splits)
  ultimately have "length (map fst ?f) \<le> length (umDeletedApps m)"
    by (metis card_mono distinct_card finite_set card_length le_trans)
  then show ?thesis using assms by (simp add: uid_inv_def)
qed

text \<open>
  Property C26. Every operation of the uid map returns, in any order: the loop that drops change records always ends. The bytes in use
  are exactly those of the kept records and within the limit, and at most a hundred deleted apps are remembered.
\<close>

theorem uid_map_bounded:
  assumes "0 < recSize"
  shows "\<exists>m. uid_run recSize xs newUidMap = Some m \<and> umBytesUsed m = recSize * length (umChanges m) \<and> umBytesUsed m \<le> uidMapLimit m \<and>
    length (filter (\<lambda>(k, d). adDeleted d) (umMap m)) \<le> kMaxDeletedAppsInUidMap"
proof -
  obtain m where m: "uid_run recSize xs newUidMap = Some m" "uid_inv recSize m" using uid_run_ok[OF new_uid_inv assms] by blast
  with deleted_bound[OF m(2)] show ?thesis by (auto simp: uid_inv_def uid_bytes_ok_def)
qed

theorem uid_map_bounded_witness:
  "\<exists>m. uid_run 136 [UUpdateApp 1 ''a'' 10001 1 ''v1'' [], URemoveApp 2 ''a'' 10001] newUidMap = Some m \<and>
     umBytesUsed m = 136 * length (umChanges m) \<and> umBytesUsed m \<le> uidMapLimit m"
  using uid_map_bounded[of 136 "[UUpdateApp 1 ''a'' 10001 1 ''v1'' [], URemoveApp 2 ''a'' 10001]"] by auto

section \<open>Delivery of changes\<close>

lemma minimum_le:
  assumes "\<forall>(k, t) \<in> set xs. t \<noteq> (0 :: int)" "(k, t) \<in> set xs"
  shows "foldl (\<lambda>acc (k, t). if acc = 0 then t else if t < acc then t else acc) a xs \<le> t"
proof -
  have le: "foldl (\<lambda>acc (k, t). if acc = 0 then t else if t < acc then t else acc) a xs \<le> a"
    if "a \<noteq> 0" "\<forall>(k, t) \<in> set xs. t \<noteq> (0 :: int)" for a and xs :: "('a \<times> int) list"
    using that
  proof (induction xs arbitrary: a)
    case (Cons y ys)
    obtain k t where y: "y = (k, t)" by fastforce
    have "foldl (\<lambda>acc (k, t). if acc = 0 then t else if t < acc then t else acc) (if t < a then t else a) ys \<le> (if t < a then t else a)"
      by (rule Cons.IH) (use Cons.prems y in auto)
    then show ?case using Cons.prems(1) by (auto simp: y split: if_splits)
  qed simp
  show ?thesis using assms
  proof (induction xs arbitrary: a)
    case (Cons y ys)
    show ?case
    proof (cases "y = (k, t)")
      case True
      let ?b = "if a = 0 then t else if t < a then t else a"
      have "?b \<noteq> 0" "?b \<le> t" using Cons.prems(1) True by auto
      moreover have "\<forall>(k, t) \<in> set ys. t \<noteq> 0" using Cons.prems(1) by auto
      ultimately show ?thesis using le[of ?b ys] True by fastforce
    next
      case False
      then show ?thesis using Cons by auto
    qed
  qed simp
qed



section \<open>Installed apps\<close>

text \<open>
  Property C28. Two errors in the treatment of deleted apps. A new snapshot of all apps keeps the deleted mark of an app that is installed again, and
  forgets the deleted apps that it does not list: exactly the opposite of the comment at that place. And an app that was deleted and
  installed again is still on the list of deleted apps, so that the deletion of a hundred other apps removes it from the map although it is installed.
\<close>

theorem deleted_apps_come_back:
  assumes "uid_inv recSize m" and "0 < recSize" and "map_of (umMap m) (uid, app) = Some d"
  shows "(adDeleted d \<longrightarrow> (\<exists>m' ns. updateMap recSize t ((uid, v, vs, app, inst) # es) m = Some (m', ns) \<and> \<not> hasApp uid app m') \<and>
            ((uid, app) \<notin> (\<lambda>(u, v, vs, p, inst). (u, p)) ` set es \<longrightarrow>
              (\<exists>m' ns. updateMap recSize t es m = Some (m', ns) \<and> map_of (umMap m') (uid, app) = None))) \<and>
         (umDeletedApps m = (uid, app) # rest \<and> length rest = kMaxDeletedAppsInUidMap - 1 \<and> hasApp uid2 app2 m \<and> hasApp uid app m \<longrightarrow>
            (\<exists>m' ns. removeApp recSize t app2 uid2 m = Some (m', ns) \<and> \<not> hasApp uid app m'))"
proof (intro conjI impI)
  have u: "umap_ok (umMap m)" "uid_bytes_ok recSize m" using assms(1) by (simp_all add: uid_inv_def)
  let ?dels = "filter (\<lambda>(k, d). adDeleted d) (umMap m)"
  have ud: "umap_ok ?dels" using u(1) by auto
  have m: "map_of (withDeleted ?dels mp) (uid, app) = (case map_of mp (uid, app) of None \<Rightarrow> None | Some d' \<Rightarrow> Some d)" if "adDeleted d" for mp
    using map_of_withDeleted[OF ud, of mp "(uid, app)"] map_of_filter_value[OF u(1), of adDeleted "(uid, app)"] assms(3) that
    by (simp split: option.split)
  {
    assume d: "adDeleted d"
    let ?mp = "withDeleted ?dels (snapshotMap ((uid, v, vs, app, inst) # es))"
    have "\<not> (case map_of ?mp (uid, app) of None \<Rightarrow> False | Some d \<Rightarrow> \<not> adDeleted d)" using d m[OF d] by (simp split: option.split)
    then show "\<exists>m' ns. updateMap recSize t ((uid, v, vs, app, inst) # es) m = Some (m', ns) \<and> \<not> hasApp uid app m'"
      using updateMap_map[OF assms(2) u(2,1), of t "(uid, v, vs, app, inst) # es"] by (auto simp: hasApp_def)
  next
    assume d: "adDeleted d" and es: "(uid, app) \<notin> (\<lambda>(u, v, vs, p, inst). (u, p)) ` set es"
    have "map_of mp (uid, app) = None \<Longrightarrow> map_of (foldl (\<lambda>mp (uid, v, vs, p, inst). AList.update (uid, p) (AppData v vs inst) mp) mp es) (uid, app) = None" for mp
      using es by (induction es arbitrary: mp) (auto split: prod.splits)
    then have "map_of (snapshotMap es) (uid, app) = None" by (simp add: snapshotMap_def)
    then show "\<exists>m' ns. updateMap recSize t es m = Some (m', ns) \<and> map_of (umMap m') (uid, app) = None"
      using updateMap_map[OF assms(2) u(2,1), of t es] m[OF d, of "snapshotMap es"] by auto
  next
    assume a: "umDeletedApps m = (uid, app) # rest \<and> length rest = kMaxDeletedAppsInUidMap - 1 \<and> hasApp uid2 app2 m \<and> hasApp uid app m"
    then obtain d2 where d2: "map_of (umMap m) (uid2, app2) = Some d2" "\<not> adDeleted d2" by (auto simp: hasApp_def split: option.splits)
    obtain m' ns mp dels where r: "removeApp recSize t app2 uid2 m = Some (m', ns)"
      "umMap m' = (if length dels > kMaxDeletedAppsInUidMap then AList.delete (hd dels) mp else mp)" "dels = umDeletedApps m @ [(uid2, app2)]"
      using removeApp_ok[OF assms(1,2), of t app2 uid2] d2 by auto
    have "length dels > kMaxDeletedAppsInUidMap" "hd dels = (uid, app)" using a r(3) by (simp_all add: kMaxDeletedAppsInUidMap_def)
    then show "\<exists>m' ns. removeApp recSize t app2 uid2 m = Some (m', ns) \<and> \<not> hasApp uid app m'" using r by (simp add: hasApp_def)
  }
qed

definition example_uid_map :: uid_map where
  "example_uid_map = newUidMap\<lparr>umMap := [((10001, ''a''), AppData 1 [] []), ((10002, ''b''), AppData 1 [] [])],
     umDeletedApps := (10001, ''a'') # replicate 99 (10003, ''c'')\<rparr>"

theorem deleted_apps_come_back_witness:
  "hasApp 10001 ''a'' example_uid_map \<and> (\<exists>m' ns. removeApp 136 7 ''b'' 10002 example_uid_map = Some (m', ns) \<and> \<not> hasApp 10001 ''a'' m')"
proof -
  have "uid_inv 136 example_uid_map"
    by (auto simp: uid_inv_def uid_bytes_ok_def uidMapLimit_def example_uid_map_def newUidMap_def umap_ok_def kMaxDeletedAppsInUidMap_def AppData_def split: if_splits)
  then show ?thesis
    using deleted_apps_come_back[of 136 example_uid_map 10001 "''a''" "AppData 1 [] []" 7 0 "[]" "[]" "[]" "replicate 99 (10003, ''c'')" 10002 "''b''"]
    by (simp add: example_uid_map_def hasApp_def AppData_def kMaxDeletedAppsInUidMap_def)
qed

end
