(* ===== verification/MetricsManager.thy ===== *)
theory MetricsManager
  imports MetricProducers UidMap LogEventParsing
begin

text \<open>
  \<^verbatim>\<open>bin/src/metrics/MetricsManager.h\<close> and \<^verbatim>\<open>.cpp\<close>: one configuration with its matchers, conditions and metrics. \<open>metricsManager_onLogEvent\<close> is the composition of the
  daemon: credentials, expiry of activations, matching, cancelled and new activations, conditions, and the matched metrics. The uid map
  is an argument, and so is the \<open>pull_env\<close> with the states, the puller and the clock; its matchers and conditions are replaced
  by those of the manager. The trackers and maps are built by \<^verbatim>\<open>initStatsdConfig\<close>, whose result is an argument of the constructor.
\<close>

section \<open>Definitions\<close>

record metrics_manager =
  mgConfigKey :: config_key
  mgConfigValid :: bool
  mgTtlNs :: ns
  mgTtlEndNs :: ns
  mgLastReportTimeNs :: ns
  mgLastReportWallClockNs :: ns
  mgAllowedUid :: "int list"
  mgAllowedPkg :: "string list"
  mgAllowedLogSources :: "int list"
  mgWhitelistedAtomIds :: "i32 list"
  mgDefaultPullUids :: "int list"
  mgPullAtomUids :: "(int, int list) umap"
  mgPullAtomPackages :: "(int, string list) umap"
  mgCombinedPullAtomUids :: "(int, int list) umap"
  mgTagIds :: "i32 list"
  mgAllAtomMatchingTrackers :: "matching_tracker list"
  mgAllConditionTrackers :: "condition_tracker list"
  mgAllMetricProducers :: "producer list"
  mgAnomalyTrackers :: anomaly_env
  mgTrackerToMetricMap :: "(nat, nat list) umap"
  mgTrackerToConditionMap :: "(nat, nat list) umap"
  mgConditionToMetricMap :: "(nat, nat list) umap"
  mgActivationAtomTrackerToMetricMap :: "(nat, nat list) umap"
  mgDeactivationAtomTrackerToMetricMap :: "(nat, nat list) umap"
  mgMetricIndexesWithActivation :: "nat list"
  mgNoReportMetricIds :: "int list"
  mgIsActive :: bool
  mgIsAlwaysActive :: bool

definition refreshTtl :: "ns \<Rightarrow> metrics_manager \<Rightarrow> metrics_manager" where
  "refreshTtl currentTimestampNs mg = (if mgTtlNs mg > 0 then mg\<lparr>mgTtlEndNs := currentTimestampNs + mgTtlNs mg\<rparr> else mg)"

definition isInTtl :: "ns \<Rightarrow> metrics_manager \<Rightarrow> bool" where
  "isInTtl timestampNs mg \<longleftrightarrow> mgTtlNs mg \<le> 0 \<or> timestampNs < mgTtlEndNs mg"

subsection \<open>Log sources\<close>

text \<open>The sets of uids are lists.\<close>

definition initAllowedLogSources :: "uid_map \<Rightarrow> metrics_manager \<Rightarrow> metrics_manager" where
  "initAllowedLogSources um mg =
     mg\<lparr>mgAllowedLogSources := mgAllowedUid mg @ concat (map (\<lambda>pkg. getAppUid pkg um) (mgAllowedPkg mg))\<rparr>"

definition addUids :: "int \<Rightarrow> int list \<Rightarrow> (int, int list) umap \<Rightarrow> (int, int list) umap" where
  "addUids atomId uids mp = AList.update atomId ((case map_of mp atomId of None \<Rightarrow> [] | Some us \<Rightarrow> us) @ uids) mp"

definition initPullAtomSources :: "uid_map \<Rightarrow> metrics_manager \<Rightarrow> metrics_manager" where
  "initPullAtomSources um mg =
     (let fromUids = foldl (\<lambda>mp (atomId, uids). addUids atomId uids mp) [] (mgPullAtomUids mg);
          combined = foldl (\<lambda>mp (atomId, packages). foldl (\<lambda>mp pkg. addUids atomId (getAppUid pkg um) mp) mp packages) fromUids (mgPullAtomPackages mg)
      in mg\<lparr>mgCombinedPullAtomUids := combined\<rparr>)"

definition kMaxLogSourceCount :: nat where
  "kMaxLogSourceCount = 50"

definition kMaxPullAtomPackages :: nat where
  "kMaxPullAtomPackages = 100"

record log_source_config =
  lsAllowedLogSource :: "string list"
  lsDefaultPullPackages :: "string list"
  lsPullAtomPackages :: "(int \<times> string list) list"

text \<open>One allowed source goes to the uids when it is the name of a system uid, and to the packages otherwise.\<close>

definition allowedUidsOf :: "string list \<Rightarrow> int list" where
  "allowedUidsOf sources = List.map_filter (\<lambda>s. map_of aidToUidMapping s) sources"

definition allowedPkgsOf :: "string list \<Rightarrow> string list" where
  "allowedPkgsOf sources = filter (\<lambda>s. map_of aidToUidMapping s = None) sources"

definition createAllowedLogSources :: "log_source_config \<Rightarrow> uid_map \<Rightarrow> metrics_manager \<Rightarrow> metrics_manager" where
  "createAllowedLogSources c um mg =
     (if lsAllowedLogSource c = [] then mg\<lparr>mgConfigValid := False\<rparr>
      else let mg1 = mg\<lparr>mgAllowedUid := mgAllowedUid mg @ allowedUidsOf (lsAllowedLogSource c),
                        mgAllowedPkg := mgAllowedPkg mg @ allowedPkgsOf (lsAllowedLogSource c)\<rparr>
           in if length (mgAllowedUid mg1) + length (mgAllowedPkg mg1) > kMaxLogSourceCount then mg1\<lparr>mgConfigValid := False\<rparr>
              else initAllowedLogSources um mg1)"

definition addPullPackage :: "int \<Rightarrow> string \<Rightarrow> metrics_manager \<Rightarrow> metrics_manager" where
  "addPullPackage atomId pkg mg =
     (case map_of aidToUidMapping pkg of
        Some uid \<Rightarrow> mg\<lparr>mgPullAtomUids := addUids atomId [uid] (mgPullAtomUids mg)\<rparr>
      | None \<Rightarrow> mg\<lparr>mgPullAtomPackages := AList.update atomId
                    ((case map_of (mgPullAtomPackages mg) atomId of None \<Rightarrow> [] | Some ps \<Rightarrow> ps) @ [pkg]) (mgPullAtomPackages mg)\<rparr>)"

definition createAllLogSourcesFromConfig :: "log_source_config \<Rightarrow> uid_map \<Rightarrow> metrics_manager \<Rightarrow> metrics_manager" where
  "createAllLogSourcesFromConfig c um mg =
     (let mg1 = createAllowedLogSources c um mg;
          known = allowedUidsOf (lsDefaultPullPackages c);
          mg2 = mg1\<lparr>mgDefaultPullUids := mgDefaultPullUids mg1 @ known,
                    mgConfigValid := (mgConfigValid mg1 \<and> allowedPkgsOf (lsDefaultPullPackages c) = [])\<rparr>;
          numPullPackages = length known + sum_list (map (\<lambda>(a, ps). length ps) (lsPullAtomPackages c));
          mg3 = foldl (\<lambda>mg (atomId, pkgs). foldl (\<lambda>mg pkg. addPullPackage atomId pkg mg) mg pkgs) mg2 (lsPullAtomPackages c)
      in if numPullPackages > kMaxPullAtomPackages then mg3\<lparr>mgConfigValid := False\<rparr> else initPullAtomSources um mg3)"

definition getPullAtomUids :: "int \<Rightarrow> metrics_manager \<Rightarrow> int list" where
  "getPullAtomUids atomId mg =
     (case map_of (mgCombinedPullAtomUids mg) atomId of None \<Rightarrow> [] | Some us \<Rightarrow> us) @ mgDefaultPullUids mg"

definition verifyGuardrails :: "nat \<Rightarrow> metrics_manager \<Rightarrow> metrics_manager" where
  "verifyGuardrails alertCount mg =
     (if length (mgAllMetricProducers mg) > 1000 \<or> length (mgAllConditionTrackers mg) > 300 \<or> length (mgAllAtomMatchingTrackers mg) > 1200 \<or> alertCount > 100
      then mg\<lparr>mgConfigValid := False\<rparr> else mg)"

definition initializeConfigActiveStatus :: "metrics_manager \<Rightarrow> metrics_manager" where
  "initializeConfigActiveStatus mg =
     (let always = (length (mgMetricIndexesWithActivation mg) \<noteq> length (mgAllMetricProducers mg) \<or> length (mgAllMetricProducers mg) = 0)
      in mg\<lparr>mgIsAlwaysActive := always,
            mgIsActive := foldl (\<lambda>b i. b \<or> producerIsActive (mgAllMetricProducers mg ! i)) always (mgMetricIndexesWithActivation mg)\<rparr>)"

text \<open>The constructor after \<^verbatim>\<open>initStatsdConfig\<close>, which gave \<open>mg\<close> its trackers, producers and maps.\<close>

definition newMetricsManager :: "log_source_config \<Rightarrow> int option \<Rightarrow> nat \<Rightarrow> ns \<Rightarrow> ns \<Rightarrow> ns \<Rightarrow> uid_map \<Rightarrow> metrics_manager \<Rightarrow> metrics_manager" where
  "newMetricsManager c ttlSeconds alertCount timeBaseNs currentTimeNs wallClockNs um mg =
     initializeConfigActiveStatus (verifyGuardrails alertCount (createAllLogSourcesFromConfig c um
       (refreshTtl timeBaseNs
          (mg\<lparr>mgTtlNs := (case ttlSeconds of None \<Rightarrow> -1 | Some s \<Rightarrow> s * NS_PER_SEC), mgTtlEndNs := -1, mgLastReportTimeNs := currentTimeNs,
              mgLastReportWallClockNs := wallClockNs, mgAllowedUid := [], mgAllowedPkg := [], mgAllowedLogSources := [], mgDefaultPullUids := [],
              mgPullAtomUids := [], mgPullAtomPackages := [], mgCombinedPullAtomUids := []\<rparr>))))"

subsection \<open>Events\<close>

definition checkLogCredentials :: "state_event \<Rightarrow> metrics_manager \<Rightarrow> bool" where
  "checkLogCredentials ev mg \<longleftrightarrow> tagId ev \<in> set (mgWhitelistedAtomIds mg) \<or> logUid ev \<in> set (mgAllowedLogSources mg)"

text \<open>\<^verbatim>\<open>GetLong\<close> of an event; \<open>None\<close> stands for both errors.\<close>

definition eventLong :: "int \<Rightarrow> state_event \<Rightarrow> int option" where
  "eventLong key ev =
     (if key < 0 then None
      else case findSimple (nat key) (event_values ev) of
             Some (LONG l) \<Rightarrow> Some (sint l) | Some (INT_v i) \<Rightarrow> Some (sint i) | _ \<Rightarrow> None)"

text \<open>The two atom ids come from generated code; \<^verbatim>\<open>AID_STATSD\<close> is 1066.\<close>

definition eventSanityCheck :: "i32 \<Rightarrow> i32 \<Rightarrow> uid_map \<Rightarrow> state_event \<Rightarrow> bool" where
  "eventSanityCheck APP_BREADCRUMB_REPORTED DAVEY_OCCURRED um ev =
     (let sz = int (length (event_values ev))
      in if tagId ev = APP_BREADCRUMB_REPORTED
         then (case eventLong (sz - 2) ev of
                 None \<Rightarrow> False
               | Some appHookUid \<Rightarrow>
                   let loggerUid = getHostUidOrSelf (logUid ev) um
                   in if loggerUid \<noteq> appHookUid \<and> loggerUid \<noteq> 1066 then False
                      else (case eventLong sz ev of None \<Rightarrow> False | Some st \<Rightarrow> \<not> (st < 0 \<or> st > 3)))
         else if tagId ev = DAVEY_OCCURRED
         then (case eventLong 1 ev of
                 None \<Rightarrow> False
               | Some jankUid \<Rightarrow>
                   if logUid ev \<noteq> jankUid \<and> logUid ev \<noteq> 1066 then False
                   else (case eventLong sz ev of None \<Rightarrow> False | Some d \<Rightarrow> \<not> d > 100000))
         else True)"

type_synonym producers = "producer list \<times> anomaly_env"

definition callAt :: "nat \<Rightarrow> 'l pull_env \<Rightarrow> nat \<times> metric_call \<Rightarrow> producers \<Rightarrow> producers option" where
  "callAt n env ic s =
     (case ic of (i, c) \<Rightarrow> case s of (ps, e) \<Rightarrow>
        (case callProducer n env c (ps ! i, e) of None \<Rightarrow> None | Some (p, e') \<Rightarrow> Some (ps[i := p], e')))"

definition callMany :: "nat \<Rightarrow> 'l pull_env \<Rightarrow> (nat \<times> metric_call) list \<Rightarrow> producers \<Rightarrow> producers option" where
  "callMany n env = foldEvents (callAt n env)"

text \<open>The loop over the metrics with activations; it collects those that are active after the expiry.\<close>

fun expireMetrics :: "nat \<Rightarrow> 'l pull_env \<Rightarrow> ns \<Rightarrow> nat list \<Rightarrow> producers \<Rightarrow> nat list \<Rightarrow> (producers \<times> nat list) option" where
  "expireMetrics n env t [] s active = Some (s, active)"
| "expireMetrics n env t (i # is) s active =
     (case callAt n env (i, FlushIfExpire t) s of
        None \<Rightarrow> None
      | Some s1 \<Rightarrow> expireMetrics n env t is s1 (if producerIsActive (fst s1 ! i) then List.insert i active else active))"

text \<open>The cancellations of the matched deactivation events, and the metrics that got one.\<close>

definition metricsOfMatched :: "(nat, nat list) umap \<Rightarrow> matching_state list \<Rightarrow> (nat \<times> nat) list" where
  "metricsOfMatched mp cache = concat (map (\<lambda>(mi, metrics). if cache ! mi = kMatched then map (\<lambda>i. (mi, i)) metrics else []) mp)"

fun expireCanceled :: "nat \<Rightarrow> 'l pull_env \<Rightarrow> ns \<Rightarrow> nat list \<Rightarrow> producers \<Rightarrow> nat list \<Rightarrow> (producers \<times> nat list) option" where
  "expireCanceled n env t [] s active = Some (s, active)"
| "expireCanceled n env t (i # is) s active =
     (case callAt n env (i, FlushIfExpire t) s of
        None \<Rightarrow> None
      | Some s1 \<Rightarrow> expireCanceled n env t is s1 (if producerIsActive (fst s1 ! i) then active else filter (\<lambda>j. j \<noteq> i) active))"

fun activateMetrics :: "nat \<Rightarrow> 'l pull_env \<Rightarrow> ns \<Rightarrow> (nat \<times> nat) list \<Rightarrow> producers \<Rightarrow> bool \<Rightarrow> (producers \<times> bool) option" where
  "activateMetrics n env t [] s isActive = Some (s, isActive)"
| "activateMetrics n env t ((mi, i) # xs) s isActive =
     (case callAt n env (i, Activate (int mi) t) s of
        None \<Rightarrow> None
      | Some s1 \<Rightarrow> activateMetrics n env t xs s1 (isActive \<or> producerIsActive (fst s1 ! i)))"

definition conditionsToEvaluate :: "nat \<Rightarrow> (nat, nat list) umap \<Rightarrow> matching_state list \<Rightarrow> bool list" where
  "conditionsToEvaluate n mp cache =
     foldl (\<lambda>bs (mi, cs). if cache ! mi = kMatched then foldl (\<lambda>bs c. bs[c := True]) bs cs else bs) (replicate n False) mp"

text \<open>The calls for the conditions that changed: \<^verbatim>\<open>conditionCache[i]\<close> becomes a \<^verbatim>\<open>bool\<close>, so that unknown counts as true.\<close>

definition conditionCalls :: "(nat, nat list) umap \<Rightarrow> condition_state list \<Rightarrow> bool list \<Rightarrow> ns \<Rightarrow> producer list \<Rightarrow> nat list \<Rightarrow> (nat \<times> metric_call) list" where
  "conditionCalls mp cache changed t ps is =
     concat (map (\<lambda>i. if \<not> changed ! i then []
        else case map_of mp i of
               None \<Rightarrow> []
             | Some metrics \<Rightarrow> map (\<lambda>k. (k, let b = (state_code (cache ! i) \<noteq> 0)
                  in if \<not> isConditionSliced (ps ! k) then ConditionChanged b t else SlicedConditionMayChange b t)) metrics) is)"

definition matchedCalls :: "(nat, nat list) umap \<Rightarrow> matching_state list \<Rightarrow> state_event \<Rightarrow> nat list \<Rightarrow> (nat \<times> metric_call) list" where
  "matchedCalls mp cache ev is =
     concat (map (\<lambda>i. if cache ! i \<noteq> kMatched then []
        else case map_of mp i of None \<Rightarrow> [] | Some metrics \<Rightarrow> map (\<lambda>k. (k, MatchedLogEvent (int i) ev)) metrics) is)"

definition managerEnv :: "uid_map \<Rightarrow> 'l pull_env \<Rightarrow> metrics_manager \<Rightarrow> 'l pull_env" where
  "managerEnv um env mg = env\<lparr>peUids := uidEnvOf um, peMatchers := mgAllAtomMatchingTrackers mg, peConditions := mgAllConditionTrackers mg\<rparr>"

definition setProducers :: "producers \<Rightarrow> metrics_manager \<Rightarrow> metrics_manager" where
  "setProducers s mg = mg\<lparr>mgAllMetricProducers := fst s, mgAnomalyTrackers := snd s\<rparr>"

text \<open>The handler from the conditions on.\<close>

definition notifyConditionsAndMatches :: "nat \<Rightarrow> uid_map \<Rightarrow> 'l pull_env \<Rightarrow> state_event \<Rightarrow> matching_state list \<Rightarrow> metrics_manager \<Rightarrow> metrics_manager option" where
  "notifyConditionsAndMatches n um env ev cache mg =
     (let t = elapsedTimestampNs ev; nc = length (mgAllConditionTrackers mg)
      in case evaluateConditions nc (event_values ev) (map (\<lambda>st. st = kMatched) cache)
                (conditionsToEvaluate nc (mgTrackerToConditionMap mg) cache) (mgAllConditionTrackers mg) of
           None \<Rightarrow> None
         | Some (conds, condCache, changed) \<Rightarrow>
             let mg1 = mg\<lparr>mgAllConditionTrackers := conds\<rparr>; env1 = managerEnv um env mg1;
                 callList = conditionCalls (mgConditionToMetricMap mg) condCache changed t (mgAllMetricProducers mg) [0..<nc] @
                         matchedCalls (mgTrackerToMetricMap mg) cache ev [0..<length (mgAllAtomMatchingTrackers mg)]
             in map_option (\<lambda>s. setProducers s mg1) (callMany n env1 callList (mgAllMetricProducers mg, mgAnomalyTrackers mg)))"

text \<open>The handler from the matched events on.\<close>

definition handleMatchers :: "nat \<Rightarrow> uid_map \<Rightarrow> 'l pull_env \<Rightarrow> state_event \<Rightarrow> matching_state list \<Rightarrow> nat list \<Rightarrow> metrics_manager \<Rightarrow> metrics_manager option" where
  "handleMatchers n um env ev cache active mg =
     (let t = elapsedTimestampNs ev; env1 = managerEnv um env mg;
          canceled = metricsOfMatched (mgDeactivationAtomTrackerToMetricMap mg) cache
      in case callMany n env1 (map (\<lambda>(mi, i). (i, CancelEventActivation (int mi))) canceled) (mgAllMetricProducers mg, mgAnomalyTrackers mg) of
           None \<Rightarrow> None
         | Some s1 \<Rightarrow>
             (case expireCanceled n env1 t (remdups (map snd canceled)) s1 active of
                None \<Rightarrow> None
              | Some (s2, active2) \<Rightarrow>
                  (case activateMetrics n env1 t (metricsOfMatched (mgActivationAtomTrackerToMetricMap mg) cache) s2
                          (mgIsAlwaysActive mg \<or> active2 \<noteq> []) of
                     None \<Rightarrow> None
                   | Some (s3, isActive) \<Rightarrow> notifyConditionsAndMatches n um env ev cache ((setProducers s3 mg)\<lparr>mgIsActive := isActive\<rparr>))))"

definition metricsManager_onLogEvent :: "nat \<Rightarrow> i32 \<Rightarrow> i32 \<Rightarrow> uid_map \<Rightarrow> 'l pull_env \<Rightarrow> state_event \<Rightarrow> metrics_manager \<Rightarrow> metrics_manager option" where
  "metricsManager_onLogEvent n breadcrumb davey um env ev mg =
     (if \<not> mgConfigValid mg then Some mg
      else if \<not> checkLogCredentials ev mg then Some mg
      else if \<not> eventSanityCheck breadcrumb davey um ev then Some mg
      else case expireMetrics n (managerEnv um env mg) (elapsedTimestampNs ev) (mgMetricIndexesWithActivation mg)
                  (mgAllMetricProducers mg, mgAnomalyTrackers mg) [] of
             None \<Rightarrow> None
           | Some (s, active) \<Rightarrow>
               let mg1 = (setProducers s mg)\<lparr>mgIsActive := mgIsAlwaysActive mg \<or> active \<noteq> []\<rparr>
               in if tagId ev \<notin> set (mgTagIds mg) then Some mg1
                  else case evaluateAtomMatchers (length (mgAllAtomMatchingTrackers mg)) (uidEnvOf um) (mgAllAtomMatchingTrackers mg) (log_event.truncate ev) of
                         None \<Rightarrow> None
                       | Some cache \<Rightarrow> handleMatchers n um env ev cache active mg1)"

subsection \<open>Other operations\<close>

text \<open>A call to every producer, in order.\<close>

definition callAll :: "nat \<Rightarrow> uid_map \<Rightarrow> 'l pull_env \<Rightarrow> metric_call \<Rightarrow> metrics_manager \<Rightarrow> metrics_manager option" where
  "callAll n um env c mg =
     map_option (\<lambda>s. setProducers s mg)
       (callMany n (managerEnv um env mg) (map (\<lambda>i. (i, c)) [0..<length (mgAllMetricProducers mg)]) (mgAllMetricProducers mg, mgAnomalyTrackers mg))"

text \<open>The refreshing of the sources that \<^verbatim>\<open>notifyAppUpgrade\<close> and \<^verbatim>\<open>notifyAppRemoved\<close> share.\<close>

definition refreshSources :: "uid_map \<Rightarrow> string \<Rightarrow> metrics_manager \<Rightarrow> metrics_manager" where
  "refreshSources um apk mg =
     (let mg1 = (if apk \<in> set (mgAllowedPkg mg) then initAllowedLogSources um mg else mg)
      in if list_ex (\<lambda>(a, ps). apk \<in> set ps) (mgPullAtomPackages mg1) then initPullAtomSources um mg1 else mg1)"

definition manager_notifyAppUpgrade :: "nat \<Rightarrow> uid_map \<Rightarrow> 'l pull_env \<Rightarrow> ns \<Rightarrow> string \<Rightarrow> metrics_manager \<Rightarrow> metrics_manager option" where
  "manager_notifyAppUpgrade n um env t apk mg = map_option (refreshSources um apk) (callAll n um env (NotifyAppUpgrade t) mg)"

definition manager_notifyAppRemoved :: "nat \<Rightarrow> uid_map \<Rightarrow> 'l pull_env \<Rightarrow> ns \<Rightarrow> string \<Rightarrow> metrics_manager \<Rightarrow> metrics_manager option" where
  "manager_notifyAppRemoved n um env t apk mg = map_option (refreshSources um apk) (callAll n um env (NotifyAppUpgrade t) mg)"

definition manager_onUidMapReceived :: "uid_map \<Rightarrow> metrics_manager \<Rightarrow> metrics_manager" where
  "manager_onUidMapReceived um mg =
     (let mg1 = initPullAtomSources um mg in if length (mgAllowedPkg mg1) = 0 then mg1 else initAllowedLogSources um mg1)"

definition manager_onStatsdInitCompleted :: "nat \<Rightarrow> uid_map \<Rightarrow> 'l pull_env \<Rightarrow> ns \<Rightarrow> metrics_manager \<Rightarrow> metrics_manager option" where
  "manager_onStatsdInitCompleted n um env t = callAll n um env (StatsdInitCompleted t)"

definition manager_init :: "nat \<Rightarrow> uid_map \<Rightarrow> 'l pull_env \<Rightarrow> metrics_manager \<Rightarrow> metrics_manager option" where
  "manager_init n um env = callAll n um env PrepareFirstBucket"

definition manager_dropData :: "nat \<Rightarrow> uid_map \<Rightarrow> 'l pull_env \<Rightarrow> ns \<Rightarrow> metrics_manager \<Rightarrow> metrics_manager option" where
  "manager_dropData n um env t = callAll n um env (DropData t)"

text \<open>The reports of the producers that are reported; the others only clear their past buckets.\<close>

fun dumpAll :: "nat \<Rightarrow> 'l pull_env \<Rightarrow> ns \<Rightarrow> bool \<Rightarrow> bool \<Rightarrow> dump_latency \<Rightarrow> int list \<Rightarrow> nat list \<Rightarrow> producers \<Rightarrow> (producers \<times> (int \<times> metric_report) list) option" where
  "dumpAll n env t partial erase lat noReport [] s = Some (s, [])"
| "dumpAll n env t partial erase lat noReport (i # is) s =
     (let (ps, e) = s
      in if getMetricId (ps ! i) \<in> set noReport
         then case callAt n env (i, ClearPastBuckets t) s of None \<Rightarrow> None | Some s1 \<Rightarrow> dumpAll n env t partial erase lat noReport is s1
         else let ((p, e'), r) = dumpProducer env t partial erase lat (ps ! i, e)
              in map_option (\<lambda>(s', rs). (s', (getMetricId (ps ! i), r) # rs)) (dumpAll n env t partial erase lat noReport is (ps[i := p], e')))"

definition manager_onDumpReport ::
  "nat \<Rightarrow> uid_map \<Rightarrow> 'l pull_env \<Rightarrow> ns \<Rightarrow> bool \<Rightarrow> bool \<Rightarrow> dump_latency \<Rightarrow> ns \<Rightarrow> metrics_manager \<Rightarrow> (metrics_manager \<times> (int \<times> metric_report) list) option" where
  "manager_onDumpReport n um env t partial erase lat wallClockNs mg =
     (case dumpAll n (managerEnv um env mg) t partial erase lat (mgNoReportMetricIds mg) [0..<length (mgAllMetricProducers mg)]
             (mgAllMetricProducers mg, mgAnomalyTrackers mg) of
        None \<Rightarrow> None
      | Some (s, rs) \<Rightarrow>
          let mg1 = setProducers s mg
          in Some (if erase then mg1\<lparr>mgLastReportTimeNs := t, mgLastReportWallClockNs := wallClockNs\<rparr> else mg1, rs))"

text \<open>The saved activations by metric id.\<close>

fun loadMetric :: "nat \<Rightarrow> 'l pull_env \<Rightarrow> ns \<Rightarrow> int \<times> active_event_activation list \<Rightarrow> nat list \<Rightarrow> producers \<times> bool \<Rightarrow> (producers \<times> bool) option" where
  "loadMetric n env t am [] s = Some s"
| "loadMetric n env t am (i # is) s =
     (if getMetricId (fst (fst s) ! i) = fst am
      then case callAt n env (i, LoadActiveMetric (snd am) t) (fst s) of
             None \<Rightarrow> None
           | Some s1 \<Rightarrow> loadMetric n env t am is (s1, snd s \<or> producerIsActive (fst s1 ! i))
      else loadMetric n env t am is s)"

definition loadActiveConfig :: "nat \<Rightarrow> uid_map \<Rightarrow> 'l pull_env \<Rightarrow> (int \<times> active_event_activation list) list \<Rightarrow> ns \<Rightarrow> metrics_manager \<Rightarrow> metrics_manager option" where
  "loadActiveConfig n um env config t mg =
     (if config = [] then Some mg
      else map_option (\<lambda>(s, active). (setProducers s mg)\<lparr>mgIsActive := active\<rparr>)
             (foldEvents (\<lambda>am s. loadMetric n (managerEnv um env mg) t am (mgMetricIndexesWithActivation mg) s) config
                ((mgAllMetricProducers mg, mgAnomalyTrackers mg), mgIsActive mg)))"

definition writeActiveConfig :: "ns \<Rightarrow> dump_report_reason \<Rightarrow> metrics_manager \<Rightarrow> (int \<times> active_event_activation list) list" where
  "writeActiveConfig t reason mg =
     map (\<lambda>i. (getMetricId (mgAllMetricProducers mg ! i),
               writeActiveMetricToProtoOutputStream t reason (producerActivations (mgAllMetricProducers mg ! i)))) (mgMetricIndexesWithActivation mg)"

section \<open>Activity\<close>

text \<open>The maps of a configuration: indices are in range, and only metrics with activations are activated and cancelled.\<close>

definition manager_wf :: "metrics_manager \<Rightarrow> bool" where
  "manager_wf mg \<longleftrightarrow> distinct (mgMetricIndexesWithActivation mg) \<and> (\<forall>i \<in> set (mgMetricIndexesWithActivation mg). i < length (mgAllMetricProducers mg)) \<and>
     (\<forall>(mi, is) \<in> set (mgActivationAtomTrackerToMetricMap mg) \<union> set (mgDeactivationAtomTrackerToMetricMap mg).
        set is \<subseteq> set (mgMetricIndexesWithActivation mg)) \<and>
     (\<forall>(mi, is) \<in> set (mgTrackerToMetricMap mg) \<union> set (mgConditionToMetricMap mg). \<forall>i \<in> set is. i < length (mgAllMetricProducers mg))"

text \<open>The activations of all producers, and what a list of calls does to them.\<close>

definition actsOf :: "producers \<Rightarrow> activations list" where
  "actsOf s = map producerActivations (fst s)"

lemma actsOf_nth: "i < length (fst s) \<Longrightarrow> producerIsActive (fst s ! i) = mIsActive (actsOf s ! i)"
  by (simp add: actsOf_def producerIsActive_def)

lemma callAt_acts:
  assumes "callAt n env (i, c) s = Some s'"
  shows "actsOf s' = (actsOf s)[i := actEffect c (actsOf s ! i)] \<and> length (fst s') = length (fst s)"
proof -
  obtain ps e p e' where s: "s = (ps, e)" "callProducer n env c (ps ! i, e) = Some (p, e')" "s' = (ps[i := p], e')"
    using assms by (cases s) (auto simp: callAt_def split: option.splits)
  show ?thesis
  proof (cases "i < length ps")
    case True
    then show ?thesis using callProducer_activations[OF s(2)] by (simp add: s actsOf_def map_update)
  next
    case False
    then show ?thesis by (simp add: s actsOf_def list_update_beyond)
  qed
qed

lemma callAt_activity:
  assumes "callAt n env (i, c) s = Some s'"
  shows "length (actsOf s') = length (actsOf s)" "j \<noteq> i \<Longrightarrow> actsOf s' ! j = actsOf s ! j"
    "i < length (actsOf s) \<Longrightarrow> actsOf s' ! i = actEffect c (actsOf s ! i)"
    "\<And>k. k < length (actsOf s) \<Longrightarrow> producerIsActive (fst s' ! k) = mIsActive (actsOf s' ! k)"
  using callAt_acts[OF assms] actsOf_nth[of _ s'] by (auto simp: actsOf_def[of s])

lemma callMany_activity:
  assumes "\<And>a. list_all (\<lambda>(i, c). mIsActive (actEffect c a) = mIsActive a) cs" and "callMany n env cs s = Some s'"
  shows "map mIsActive (actsOf s') = map mIsActive (actsOf s)"
  using assms
proof (induction cs arbitrary: s)
  case (Cons x cs)
  obtain i c where x: "x = (i, c)" by fastforce
  obtain s1 where s1: "callAt n env (i, c) s = Some s1" "callMany n env cs s1 = Some s'"
    using Cons.prems(2) by (auto simp: callMany_def x split: option.splits)
  have "map mIsActive (actsOf s1) = map mIsActive (actsOf s)"
    using callAt_acts[OF s1(1)] Cons.prems(1) by (cases "i < length (actsOf s)") (auto simp: x map_update list_update_beyond intro: list_update_same_conv[THEN iffD2])
  then show ?case using Cons.IH[OF _ s1(2)] Cons.prems(1) by simp
qed (simp add: callMany_def)

lemma expireMetrics_acts:
  assumes "distinct is" "\<forall>i \<in> set is. i < length (actsOf s)" "expireMetrics n env t is s active = Some (s', active')"
  shows "length (actsOf s') = length (actsOf s) \<and> (\<forall>j. j \<notin> set is \<longrightarrow> actsOf s' ! j = actsOf s ! j) \<and>
    set active' = set active \<union> {j \<in> set is. mIsActive (actsOf s' ! j)}"
  using assms
proof (induction "is" arbitrary: s active)
  case (Cons i "is")
  obtain s1 where s1: "callAt n env (i, FlushIfExpire t) s = Some s1"
    "expireMetrics n env t is s1 (if producerIsActive (fst s1 ! i) then List.insert i active else active) = Some (s', active')"
    using Cons.prems(3) by (auto split: option.splits)
  note c = callAt_activity[OF s1(1)]
  have "\<forall>i \<in> set is. i < length (actsOf s1)" using Cons.prems(2) c(1) by simp
  from Cons.IH[OF _ this s1(2)] Cons.prems(1)
  have ih: "length (actsOf s') = length (actsOf s1)" "\<And>j. j \<notin> set is \<Longrightarrow> actsOf s' ! j = actsOf s1 ! j"
    "set active' = set (if producerIsActive (fst s1 ! i) then List.insert i active else active) \<union> {j \<in> set is. mIsActive (actsOf s' ! j)}" by auto
  have i: "i \<notin> set is" "producerIsActive (fst s1 ! i) = mIsActive (actsOf s' ! i)" using Cons.prems(1,2) ih(2)[of i] c(4)[of i] by auto
  show ?case using ih c(1,2) i Cons.prems(1) by (auto simp: set_insert)
qed simp

lemma flushIfExpire_active: "mIsActive (actEffect (FlushIfExpire t) a) \<Longrightarrow> mIsActive a"
  by (simp add: flushIfExpire_def split: if_splits)

lemma expireCanceled_acts:
  assumes "distinct is" "\<forall>i \<in> set is. i < length (actsOf s)" "expireCanceled n env t is s active = Some (s', active')"
  shows "length (actsOf s') = length (actsOf s) \<and> (\<forall>j. j \<notin> set is \<longrightarrow> actsOf s' ! j = actsOf s ! j) \<and>
    (\<forall>j. mIsActive (actsOf s' ! j) \<longrightarrow> mIsActive (actsOf s ! j)) \<and> set active' = {j \<in> set active. j \<in> set is \<longrightarrow> mIsActive (actsOf s' ! j)}"
  using assms
proof (induction "is" arbitrary: s active)
  case (Cons i "is")
  obtain s1 where s1: "callAt n env (i, FlushIfExpire t) s = Some s1"
    "expireCanceled n env t is s1 (if producerIsActive (fst s1 ! i) then active else filter (\<lambda>j. j \<noteq> i) active) = Some (s', active')"
    using Cons.prems(3) by (auto split: option.splits)
  note c = callAt_activity[OF s1(1)]
  have "\<forall>i \<in> set is. i < length (actsOf s1)" using Cons.prems(2) c(1) by simp
  from Cons.IH[OF _ this s1(2)] Cons.prems(1)
  have ih: "length (actsOf s') = length (actsOf s1)" "\<And>j. j \<notin> set is \<Longrightarrow> actsOf s' ! j = actsOf s1 ! j"
    "\<And>j. mIsActive (actsOf s' ! j) \<Longrightarrow> mIsActive (actsOf s1 ! j)"
    "set active' = {j \<in> set (if producerIsActive (fst s1 ! i) then active else filter (\<lambda>j. j \<noteq> i) active). j \<in> set is \<longrightarrow> mIsActive (actsOf s' ! j)}" by auto
  have i: "i \<notin> set is" "producerIsActive (fst s1 ! i) = mIsActive (actsOf s' ! i)" using Cons.prems(1,2) ih(2)[of i] c(4)[of i] by auto
  have m: "mIsActive (actsOf s1 ! j) \<Longrightarrow> mIsActive (actsOf s ! j)" for j
    using c(2)[of j] c(3) flushIfExpire_active Cons.prems(2) by (cases "j = i") auto
  show ?case using ih(1,2,4) c(1,2) i m ih(3) by (auto split: if_splits)
qed simp

lemma activateMetrics_acts:
  assumes "\<forall>(mi, i) \<in> set xs. i \<in> W" "\<forall>i \<in> W. i < length (actsOf s)" "activateMetrics n env t xs s b = Some (s', b')"
    and "b = (always \<or> (\<exists>i \<in> W. mIsActive (actsOf s ! i)))"
  shows "length (actsOf s') = length (actsOf s) \<and> b' = (always \<or> (\<exists>i \<in> W. mIsActive (actsOf s' ! i)))"
  using assms
proof (induction xs arbitrary: s b)
  case (Cons x xs)
  obtain mi i where x: "x = (mi, i)" by fastforce
  obtain s1 where s1: "callAt n env (i, Activate (int mi) t) s = Some s1" "activateMetrics n env t xs s1 (b \<or> producerIsActive (fst s1 ! i)) = Some (s', b')"
    using Cons.prems(3) by (auto simp: x split: option.splits)
  note c = callAt_activity[OF s1(1)]
  have i: "i \<in> W" "i < length (actsOf s)" using Cons.prems(1,2) by (auto simp: x)
  have "mIsActive (actsOf s ! j) \<Longrightarrow> mIsActive (actsOf s1 ! j)" for j
    using c(2)[of j] c(3)[OF i(2)] actEffect_active(1) by (cases "j = i") auto
  moreover have "mIsActive (actsOf s1 ! j) \<Longrightarrow> j \<noteq> i \<Longrightarrow> mIsActive (actsOf s ! j)" for j using c(2)[of j] by simp
  ultimately have "(b \<or> producerIsActive (fst s1 ! i)) = (always \<or> (\<exists>i \<in> W. mIsActive (actsOf s1 ! i)))"
    using Cons.prems(4) c(4)[OF i(2)] i(1) by metis
  from Cons.IH[OF _ _ s1(2) this] show ?case using Cons.prems(1,2) c(1) by simp
qed simp

lemma conditionCalls_quiet: "(i, c) \<in> set (conditionCalls mp cache changed t ps is) \<Longrightarrow> actEffect c a = a"
  by (auto simp: conditionCalls_def Let_def split: option.splits if_splits)

lemma matchedCalls_quiet: "(i, c) \<in> set (matchedCalls mp cache ev is) \<Longrightarrow> actEffect c a = a"
  by (auto simp: matchedCalls_def split: option.splits if_splits)

text \<open>What the handlers leave alone.\<close>

definition same_config :: "metrics_manager \<Rightarrow> metrics_manager \<Rightarrow> bool" where
  "same_config mg' mg \<longleftrightarrow> mgIsAlwaysActive mg' = mgIsAlwaysActive mg \<and> mgMetricIndexesWithActivation mg' = mgMetricIndexesWithActivation mg \<and>
     mgActivationAtomTrackerToMetricMap mg' = mgActivationAtomTrackerToMetricMap mg \<and>
     mgDeactivationAtomTrackerToMetricMap mg' = mgDeactivationAtomTrackerToMetricMap mg \<and> mgTrackerToMetricMap mg' = mgTrackerToMetricMap mg \<and>
     mgConditionToMetricMap mg' = mgConditionToMetricMap mg \<and> length (mgAllMetricProducers mg') = length (mgAllMetricProducers mg)"

lemma same_config_wf: "same_config mg' mg \<Longrightarrow> manager_wf mg \<Longrightarrow> manager_wf mg'"
  unfolding same_config_def manager_wf_def by simp

definition activity_exact :: "metrics_manager \<Rightarrow> bool" where
  "activity_exact mg \<longleftrightarrow> mgIsActive mg = (mgIsAlwaysActive mg \<or> (\<exists>i \<in> set (mgMetricIndexesWithActivation mg). producerIsActive (mgAllMetricProducers mg ! i)))"

definition mgActs :: "metrics_manager \<Rightarrow> activations list" where
  "mgActs mg = map producerActivations (mgAllMetricProducers mg)"

lemma activity_exact_acts:
  "manager_wf mg \<Longrightarrow> activity_exact mg \<longleftrightarrow> mgIsActive mg = (mgIsAlwaysActive mg \<or> (\<exists>i \<in> set (mgMetricIndexesWithActivation mg). mIsActive (mgActs mg ! i)))"
  by (auto simp: activity_exact_def manager_wf_def mgActs_def producerIsActive_def)

lemma notify_activity:
  assumes "notifyConditionsAndMatches n um env ev cache mg = Some mg'"
  shows "same_config mg' mg \<and> map mIsActive (mgActs mg') = map mIsActive (mgActs mg) \<and> mgIsActive mg' = mgIsActive mg"
proof -
  obtain conds condCache changed s cs where
    r: "mg' = setProducers s (mg\<lparr>mgAllConditionTrackers := conds\<rparr>)"
       "callMany n (managerEnv um env (mg\<lparr>mgAllConditionTrackers := conds\<rparr>)) cs (mgAllMetricProducers mg, mgAnomalyTrackers mg) = Some s"
    and cs: "cs = conditionCalls (mgConditionToMetricMap mg) condCache changed (elapsedTimestampNs ev) (mgAllMetricProducers mg) [0..<length (mgAllConditionTrackers mg)] @
         matchedCalls (mgTrackerToMetricMap mg) cache ev [0..<length (mgAllAtomMatchingTrackers mg)]"
    using assms by (auto simp: notifyConditionsAndMatches_def Let_def split: option.splits)
  have "list_all (\<lambda>(i, c). mIsActive (actEffect c a) = mIsActive a) cs" for a
    using conditionCalls_quiet matchedCalls_quiet unfolding cs list_all_iff by fastforce
  from callMany_activity[OF this r(2)] show ?thesis
    using map_eq_imp_length_eq[of mIsActive "actsOf s" mIsActive "actsOf (mgAllMetricProducers mg, mgAnomalyTrackers mg)"]
    by (simp add: r(1) setProducers_def same_config_def mgActs_def actsOf_def)
qed

lemma metricsOfMatched_mem: "(mi, i) \<in> set (metricsOfMatched mp cache) \<Longrightarrow> \<exists>is. (mi, is) \<in> set mp \<and> i \<in> set is"
  by (auto simp: metricsOfMatched_def split: if_splits)

lemma handleMatchers_activity:
  assumes wf: "manager_wf mg" and active: "set active = {j \<in> set (mgMetricIndexesWithActivation mg). mIsActive (mgActs mg ! j)}"
    and r: "handleMatchers n um env ev cache active mg = Some mg'"
  shows "same_config mg' mg \<and> activity_exact mg'"
proof -
  let ?W = "set (mgMetricIndexesWithActivation mg)" and ?env = "managerEnv um env mg" and ?t = "elapsedTimestampNs ev"
  let ?s = "(mgAllMetricProducers mg, mgAnomalyTrackers mg)" and ?canceled = "metricsOfMatched (mgDeactivationAtomTrackerToMetricMap mg) cache"
  obtain s1 s2 active2 s3 b where
    s1: "callMany n ?env (map (\<lambda>(mi, i). (i, CancelEventActivation (int mi))) ?canceled) ?s = Some s1" and
    s2: "expireCanceled n ?env ?t (remdups (map snd ?canceled)) s1 active = Some (s2, active2)" and
    s3: "activateMetrics n ?env ?t (metricsOfMatched (mgActivationAtomTrackerToMetricMap mg) cache) s2 (mgIsAlwaysActive mg \<or> active2 \<noteq> []) = Some (s3, b)" and
    m: "notifyConditionsAndMatches n um env ev cache ((setProducers s3 mg)\<lparr>mgIsActive := b\<rparr>) = Some mg'"
    using r by (auto simp: handleMatchers_def Let_def split: option.splits)
  have len: "length (actsOf ?s) = length (mgAllMetricProducers mg)" "mgActs mg = actsOf ?s" by (simp_all add: actsOf_def mgActs_def)
  have W: "i < length (actsOf ?s)" if "i \<in> ?W" for i using wf that by (auto simp: manager_wf_def len)
  have c: "i \<in> ?W" if "(mi, i) \<in> set ?canceled \<or> (mi, i) \<in> set (metricsOfMatched (mgActivationAtomTrackerToMetricMap mg) cache)" for mi i
    using metricsOfMatched_mem wf that by (fastforce simp: manager_wf_def)
  have a1: "map mIsActive (actsOf s1) = map mIsActive (actsOf ?s)"
    by (rule callMany_activity[OF _ s1]) (use actEffect_active(2) in \<open>auto simp: list_all_iff\<close>)
  then have a1': "length (actsOf s1) = length (actsOf ?s)" "\<And>j. j < length (actsOf ?s) \<Longrightarrow> mIsActive (actsOf s1 ! j) = mIsActive (actsOf ?s ! j)"
    using map_eq_imp_length_eq[OF a1] by (auto dest: nth_map[symmetric] simp: list_eq_iff_nth_eq)
  have a2: "length (actsOf s2) = length (actsOf s1)" "\<And>j. j \<notin> set (map snd ?canceled) \<Longrightarrow> actsOf s2 ! j = actsOf s1 ! j"
    "\<And>j. mIsActive (actsOf s2 ! j) \<Longrightarrow> mIsActive (actsOf s1 ! j)" "set active2 = {j \<in> set active. j \<in> set (map snd ?canceled) \<longrightarrow> mIsActive (actsOf s2 ! j)}"
  proof -
    have "\<forall>i \<in> set (remdups (map snd ?canceled)). i < length (actsOf s1)" using c W a1'(1) by fastforce
    from expireCanceled_acts[OF _ this s2]
    show "length (actsOf s2) = length (actsOf s1)" "\<And>j. j \<notin> set (map snd ?canceled) \<Longrightarrow> actsOf s2 ! j = actsOf s1 ! j"
      "\<And>j. mIsActive (actsOf s2 ! j) \<Longrightarrow> mIsActive (actsOf s1 ! j)"
      "set active2 = {j \<in> set active. j \<in> set (map snd ?canceled) \<longrightarrow> mIsActive (actsOf s2 ! j)}" by simp_all
  qed
  have "(mIsActive (actsOf ?s ! j) \<and> (j \<in> set (map snd ?canceled) \<longrightarrow> mIsActive (actsOf s2 ! j))) = mIsActive (actsOf s2 ! j)" if "j \<in> ?W" for j
    using a2(2)[of j] a2(3)[of j] a1'(2)[OF W[OF that]] by metis
  then have "set active2 = {j \<in> ?W. mIsActive (actsOf s2 ! j)}" unfolding a2(4) active len(2) by blast
  then have b0: "(mgIsAlwaysActive mg \<or> active2 \<noteq> []) = (mgIsAlwaysActive mg \<or> (\<exists>i \<in> ?W. mIsActive (actsOf s2 ! i)))" by (auto simp flip: set_empty)
  have "\<forall>(mi, i) \<in> set (metricsOfMatched (mgActivationAtomTrackerToMetricMap mg) cache). i \<in> ?W" "\<forall>i \<in> ?W. i < length (actsOf s2)"
    using c W a1'(1) a2(1) by auto
  from activateMetrics_acts[OF this s3 b0]
  have a3: "length (actsOf s3) = length (actsOf s2)" "b = (mgIsAlwaysActive mg \<or> (\<exists>i \<in> ?W. mIsActive (actsOf s3 ! i)))" by auto
  let ?mg = "(setProducers s3 mg)\<lparr>mgIsActive := b\<rparr>"
  have sc: "same_config ?mg mg" using a3(1) a2(1) a1'(1) len(1) by (simp add: same_config_def setProducers_def actsOf_def)
  have e: "activity_exact ?mg"
    using activity_exact_acts[OF same_config_wf[OF sc wf]] a3(2) by (simp add: setProducers_def mgActs_def actsOf_def)
  note na = notify_activity[OF m]
  have sc': "same_config mg' mg" using na sc by (simp add: same_config_def)
  have "mIsActive (mgActs mg' ! i) = mIsActive (mgActs ?mg ! i)" if "i \<in> ?W" for i
    using na W[OF that] sc len(1) nth_map[of i "mgActs mg'" mIsActive] nth_map[of i "mgActs ?mg" mIsActive]
      map_eq_imp_length_eq[of mIsActive "mgActs mg'" mIsActive "mgActs ?mg"] by (simp add: same_config_def mgActs_def)
  then have "activity_exact mg'"
    using e na sc unfolding activity_exact_acts[OF same_config_wf[OF sc' wf]] activity_exact_acts[OF same_config_wf[OF sc wf]]
    by (auto simp: same_config_def)
  with sc' show ?thesis ..
qed

lemma onLogEvent_activity:
  assumes wf: "manager_wf mg" and ex: "activity_exact mg" and r: "metricsManager_onLogEvent n bc dv um env ev mg = Some mg'"
  shows "same_config mg' mg \<and> activity_exact mg'"
proof (cases "mgConfigValid mg \<and> checkLogCredentials ev mg \<and> eventSanityCheck bc dv um ev")
  case False
  then have "mg' = mg" using r unfolding metricsManager_onLogEvent_def by (auto split: if_splits)
  then show ?thesis using ex by (simp add: same_config_def)
next
  case True
  let ?s = "(mgAllMetricProducers mg, mgAnomalyTrackers mg)" and ?W = "set (mgMetricIndexesWithActivation mg)"
  obtain s active where s: "expireMetrics n (managerEnv um env mg) (elapsedTimestampNs ev) (mgMetricIndexesWithActivation mg) ?s [] = Some (s, active)"
    using r True by (auto simp: metricsManager_onLogEvent_def split: option.splits)
  define mg1 where "mg1 = (setProducers s mg)\<lparr>mgIsActive := mgIsAlwaysActive mg \<or> active \<noteq> []\<rparr>"
  have len: "length (actsOf ?s) = length (mgAllMetricProducers mg)" by (simp add: actsOf_def)
  have e: "length (actsOf s) = length (actsOf ?s)" "set active = {j \<in> ?W. mIsActive (actsOf s ! j)}"
    using expireMetrics_acts[OF _ _ s] wf by (auto simp: manager_wf_def len)
  have sc: "same_config mg1 mg" using e(1) len by (simp add: mg1_def same_config_def setProducers_def actsOf_def)
  have wf1: "manager_wf mg1" by (rule same_config_wf[OF sc wf])
  have act: "mgActs mg1 = actsOf s" by (simp add: mgActs_def mg1_def setProducers_def actsOf_def)
  have a1: "set active = {j \<in> set (mgMetricIndexesWithActivation mg1). mIsActive (mgActs mg1 ! j)}" using e(2) by (simp add: act) (simp add: mg1_def setProducers_def)
  have ex1: "activity_exact mg1"
  proof -
    have "mgIsActive mg1 = (mgIsAlwaysActive mg1 \<or> set active \<noteq> {})" by (simp add: mg1_def setProducers_def)
    then show ?thesis unfolding activity_exact_acts[OF wf1] a1 by blast
  qed
  have "mg' = mg1 \<or> (\<exists>cache. handleMatchers n um env ev cache active mg1 = Some mg')"
    using r True s by (auto simp: metricsManager_onLogEvent_def Let_def mg1_def split: option.splits if_splits)
  then show ?thesis
  proof
    assume "\<exists>cache. handleMatchers n um env ev cache active mg1 = Some mg'"
    then obtain cache where "handleMatchers n um env ev cache active mg1 = Some mg'" ..
    from handleMatchers_activity[OF wf1 a1 this] sc show ?thesis by (simp add: same_config_def)
  qed (use sc ex1 in simp)
qed

lemma foldl_or: "foldl (\<lambda>b i. b \<or> P i) b xs = (b \<or> (\<exists>i \<in> set xs. P i))"
  by (induction xs arbitrary: b) auto

lemma init_activity: "activity_exact (initializeConfigActiveStatus mg)"
  by (simp add: initializeConfigActiveStatus_def activity_exact_def Let_def foldl_or)

lemma new_activity: "activity_exact (newMetricsManager c ttl alerts timeBaseNs currentTimeNs wall um mg)"
  unfolding newMetricsManager_def by (rule init_activity)

text \<open>The events of a configuration, each with the uid map and the answers of the other components at its time.\<close>

fun manager_events :: "nat \<Rightarrow> i32 \<Rightarrow> i32 \<Rightarrow> (uid_map \<times> 'l pull_env \<times> state_event) list \<Rightarrow> metrics_manager \<Rightarrow> metrics_manager option" where
  "manager_events n bc dv [] mg = Some mg"
| "manager_events n bc dv ((um, env, ev) # xs) mg =
     (case metricsManager_onLogEvent n bc dv um env ev mg of None \<Rightarrow> None | Some mg1 \<Rightarrow> manager_events n bc dv xs mg1)"

lemma events_activity:
  "manager_wf mg \<Longrightarrow> activity_exact mg \<Longrightarrow> manager_events n bc dv xs mg = Some mg' \<Longrightarrow> activity_exact mg' \<and> same_config mg' mg"
proof (induction xs arbitrary: mg)
  case (Cons x xs)
  obtain um env ev where x: "x = (um, env, ev)" by (rule prod_cases3)
  obtain mg1 where m: "metricsManager_onLogEvent n bc dv um env ev mg = Some mg1" "manager_events n bc dv xs mg1 = Some mg'"
    using Cons.prems(3) by (auto simp: x split: option.splits)
  have a: "same_config mg1 mg" "activity_exact mg1" using onLogEvent_activity[OF Cons.prems(1,2) m(1)] by simp_all
  from Cons.IH[OF same_config_wf[OF a(1) Cons.prems(1)] a(2) m(2)] a(1) show ?case by (simp add: same_config_def)
qed (simp add: same_config_def)

section \<open>Events are handled\<close>

definition manager_quiet :: "'l pull_env \<Rightarrow> producer list \<Rightarrow> bool" where
  "manager_quiet env ps = list_all (producer_quiet env) ps"

lemma quiet_env: "producer_quiet (managerEnv um env mg) p = producer_quiet env p"
  by (cases p) (simp_all add: producer_quiet_def quiet_def managerEnv_def)

lemma callAt_returns:
  assumes "list_all (producer_quiet env) (fst s)" "i < length (fst s)"
  shows "\<exists>s'. callAt (Suc n) env (i, c) s = Some s' \<and> list_all (producer_quiet env) (fst s') \<and> length (fst s') = length (fst s)"
proof -
  obtain ps e where s: "s = (ps, e)" by fastforce
  have "producer_quiet env (ps ! i)" using assms by (simp add: s list_all_length)
  then obtain p' e' where "callProducer (Suc n) env c (ps ! i, e) = Some (p', e')" "producer_quiet env p'" using callProducer_returns by blast
  then show ?thesis using assms by (auto simp: callAt_def s list_all_iff dest!: set_update_subset_insert[THEN subsetD])
qed

lemma callMany_returns:
  assumes "list_all (producer_quiet env) (fst s)" "\<forall>(i, c) \<in> set cs. i < length (fst s)"
  shows "\<exists>s'. callMany (Suc n) env cs s = Some s' \<and> list_all (producer_quiet env) (fst s') \<and> length (fst s') = length (fst s)"
  using assms
proof (induction cs arbitrary: s)
  case (Cons x cs)
  obtain i c where x: "x = (i, c)" by fastforce
  obtain s1 where s1: "callAt (Suc n) env (i, c) s = Some s1" "list_all (producer_quiet env) (fst s1)" "length (fst s1) = length (fst s)"
    using callAt_returns[OF Cons.prems(1), of i n c] Cons.prems(2) by (auto simp: x)
  show ?case using Cons.IH[OF s1(2)] Cons.prems(2) s1 by (auto simp: callMany_def x)
qed (simp add: callMany_def)

lemma expireMetrics_returns:
  assumes "list_all (producer_quiet env) (fst s)" "\<forall>i \<in> set is. i < length (fst s)"
  shows "\<exists>s' active'. expireMetrics (Suc n) env t is s active = Some (s', active') \<and> list_all (producer_quiet env) (fst s') \<and> length (fst s') = length (fst s)"
    "\<exists>s' active'. expireCanceled (Suc n) env t is s active = Some (s', active') \<and> list_all (producer_quiet env) (fst s') \<and> length (fst s') = length (fst s)"
proof -
  have step: "\<exists>s'. callAt (Suc n) env (i, FlushIfExpire t) s = Some s' \<and> list_all (producer_quiet env) (fst s') \<and> length (fst s') = length (fst s)"
    if "list_all (producer_quiet env) (fst s)" "i < length (fst s)" for i and s :: producers
    by (rule callAt_returns[OF that])
  show "\<exists>s' active'. expireMetrics (Suc n) env t is s active = Some (s', active') \<and> list_all (producer_quiet env) (fst s') \<and> length (fst s') = length (fst s)"
    using assms
  proof (induction "is" arbitrary: s active)
    case (Cons i "is")
    then obtain s1 where "callAt (Suc n) env (i, FlushIfExpire t) s = Some s1" "list_all (producer_quiet env) (fst s1)" "length (fst s1) = length (fst s)"
      using step[of s i] by auto
    then show ?case using Cons.IH[of s1] Cons.prems by simp
  qed simp
  show "\<exists>s' active'. expireCanceled (Suc n) env t is s active = Some (s', active') \<and> list_all (producer_quiet env) (fst s') \<and> length (fst s') = length (fst s)"
    using assms
  proof (induction "is" arbitrary: s active)
    case (Cons i "is")
    then obtain s1 where "callAt (Suc n) env (i, FlushIfExpire t) s = Some s1" "list_all (producer_quiet env) (fst s1)" "length (fst s1) = length (fst s)"
      using step[of s i] by auto
    then show ?case using Cons.IH[of s1] Cons.prems by simp
  qed simp
qed

lemma activateMetrics_returns:
  assumes "list_all (producer_quiet env) (fst s)" "\<forall>(mi, i) \<in> set xs. i < length (fst s)"
  shows "\<exists>s' b'. activateMetrics (Suc n) env t xs s b = Some (s', b') \<and> list_all (producer_quiet env) (fst s') \<and> length (fst s') = length (fst s)"
  using assms
proof (induction xs arbitrary: s b)
  case (Cons x xs)
  obtain mi i where x: "x = (mi, i)" by fastforce
  obtain s1 where "callAt (Suc n) env (i, Activate (int mi) t) s = Some s1" "list_all (producer_quiet env) (fst s1)" "length (fst s1) = length (fst s)"
    using callAt_returns[OF Cons.prems(1), of i n "Activate (int mi) t"] Cons.prems(2) by (auto simp: x)
  then show ?case using Cons.IH[of s1] Cons.prems by (simp add: x)
qed simp

lemma conditionCalls_mem: "(i, c) \<in> set (conditionCalls mp cache changed t ps js) \<Longrightarrow> \<exists>j is. (j, is) \<in> set mp \<and> i \<in> set is"
  by (auto simp: conditionCalls_def dest: map_of_SomeD[OF sym] split: option.splits if_splits)

lemma matchedCalls_mem: "(i, c) \<in> set (matchedCalls mp cache ev js) \<Longrightarrow> \<exists>j is. (j, is) \<in> set mp \<and> i \<in> set is"
  by (auto simp: matchedCalls_def dest: map_of_SomeD[OF sym] split: option.splits if_splits)

lemma eval_conditions_return:
  assumes "cgraph_ok rank ts" "length ts \<le> n"
  shows "\<exists>r. evaluateConditions n vals matched wanted ts = Some r"
proof -
  let ?c = "(rank, ts, vals, matched)" and ?s = "(ts, replicate (length ts) kNotEvaluated, replicate (length ts) False)"
  let ?is = "filter (\<lambda>i. wanted ! i) [0..<length ts]"
  have g: "cond_eval_good ?c ?s" by (simp add: cond_eval_good_def)
  have r: "\<forall>i \<in> set ?is. i < length ts \<and> rank i < n" using cgraph_rank[OF assms(1)] assms(2) by (auto intro: order.strict_trans2)
  show ?thesis
    using eval_graph.run_all[of ?c ?s ?is n, unfolded prod.case, OF assms(1) g r] evaluateSome_visit[OF assms g, of ?is]
    by (auto simp: evaluateConditions_def)
qed

lemma handleMatchers_returns:
  assumes wf: "manager_wf mg" and q: "list_all (producer_quiet env) (mgAllMetricProducers mg)" and g: "cgraph_ok rank (mgAllConditionTrackers mg)"
  shows "handleMatchers (Suc n) um env ev cache active mg \<noteq> None"
proof -
  let ?env = "managerEnv um env mg" and ?s = "(mgAllMetricProducers mg, mgAnomalyTrackers mg)" and ?t = "elapsedTimestampNs ev"
  let ?len = "length (mgAllMetricProducers mg)" and ?canceled = "metricsOfMatched (mgDeactivationAtomTrackerToMetricMap mg) cache"
  have qe: "list_all (producer_quiet (managerEnv um env m)) ps = list_all (producer_quiet env) ps" for m ps by (simp add: list_all_iff quiet_env)
  have W: "i < ?len" if "(mi, i) \<in> set ?canceled \<or> (mi, i) \<in> set (metricsOfMatched (mgActivationAtomTrackerToMetricMap mg) cache)" for mi i
    using metricsOfMatched_mem wf that by (fastforce simp: manager_wf_def)
  obtain s1 where s1: "callMany (Suc n) ?env (map (\<lambda>(mi, i). (i, CancelEventActivation (int mi))) ?canceled) ?s = Some s1"
    "list_all (producer_quiet ?env) (fst s1)" "length (fst s1) = ?len"
  proof -
    have "\<forall>(i, c) \<in> set (map (\<lambda>(mi, i). (i, CancelEventActivation (int mi))) ?canceled). i < length (fst ?s)" using W by fastforce
    then show ?thesis using callMany_returns[of ?env ?s "map (\<lambda>(mi, i). (i, CancelEventActivation (int mi))) ?canceled" n] q qe that by auto
  qed
  obtain s2 active2 where s2: "expireCanceled (Suc n) ?env ?t (remdups (map snd ?canceled)) s1 active = Some (s2, active2)"
    "list_all (producer_quiet ?env) (fst s2)" "length (fst s2) = ?len"
  proof -
    have "\<forall>i \<in> set (remdups (map snd ?canceled)). i < length (fst s1)" using W s1(3) by fastforce
    then show ?thesis using expireMetrics_returns(2)[OF s1(2), of "remdups (map snd ?canceled)" n ?t active] s1(3) that by auto
  qed
  obtain s3 b where s3: "activateMetrics (Suc n) ?env ?t (metricsOfMatched (mgActivationAtomTrackerToMetricMap mg) cache) s2 (mgIsAlwaysActive mg \<or> active2 \<noteq> []) = Some (s3, b)"
    "list_all (producer_quiet ?env) (fst s3)" "length (fst s3) = ?len"
    using activateMetrics_returns[OF s2(2), of "metricsOfMatched (mgActivationAtomTrackerToMetricMap mg) cache" n ?t] s2(3) W by fastforce
  let ?mg = "(setProducers s3 mg)\<lparr>mgIsActive := b\<rparr>" and ?nc = "length (mgAllConditionTrackers mg)"
  obtain conds condCache changed where e: "evaluateConditions ?nc (event_values ev) (map (\<lambda>st. st = kMatched) cache)
      (conditionsToEvaluate ?nc (mgTrackerToConditionMap mg) cache) (mgAllConditionTrackers mg) = Some (conds, condCache, changed)"
  proof -
    obtain r where "evaluateConditions ?nc (event_values ev) (map (\<lambda>st. st = kMatched) cache)
      (conditionsToEvaluate ?nc (mgTrackerToConditionMap mg) cache) (mgAllConditionTrackers mg) = Some r"
      using eval_conditions_return[OF g order_refl] by blast
    then show ?thesis using that by (cases r) auto
  qed
  have in1: "\<forall>(i, c) \<in> set (conditionCalls (mgConditionToMetricMap mg) condCache changed ?t (fst s3) [0..<?nc]). i < ?len"
    using wf unfolding manager_wf_def by (blast dest: conditionCalls_mem)
  have in2: "\<forall>(i, c) \<in> set (matchedCalls (mgTrackerToMetricMap mg) cache ev [0..<length (mgAllAtomMatchingTrackers mg)]). i < ?len"
    using wf unfolding manager_wf_def by (blast dest: matchedCalls_mem)
  let ?env2 = "managerEnv um env (?mg\<lparr>mgAllConditionTrackers := conds\<rparr>)"
  obtain s4 where "callMany (Suc n) ?env2
     (conditionCalls (mgConditionToMetricMap mg) condCache changed ?t (fst s3) [0..<?nc] @ matchedCalls (mgTrackerToMetricMap mg) cache ev [0..<length (mgAllAtomMatchingTrackers mg)]) s3 = Some s4"
  proof -
    let ?cs = "conditionCalls (mgConditionToMetricMap mg) condCache changed ?t (fst s3) [0..<?nc] @ matchedCalls (mgTrackerToMetricMap mg) cache ev [0..<length (mgAllAtomMatchingTrackers mg)]"
    have "\<forall>(i, c) \<in> set ?cs. i < length (fst s3)" using in1 in2 s3(3) by auto
    moreover have "list_all (producer_quiet ?env2) (fst s3)" using s3(2) by (simp only: qe)
    ultimately show ?thesis using callMany_returns[of ?env2 s3 ?cs n] that by blast
  qed
  then have "notifyConditionsAndMatches (Suc n) um env ev cache ?mg \<noteq> None"
    by (cases s3) (simp add: notifyConditionsAndMatches_def Let_def setProducers_def e)
  then show ?thesis using s1(1) s2(1) s3(1) by (simp add: handleMatchers_def Let_def)
qed

lemma eval_matchers_formula:
  assumes "graph_ok rank ts"
  shows "evaluateAtomMatchers (length ts) uids ts ev = Some (map (\<lambda>i. state_of_bool (event_matches uids ts ev i)) [0..<length ts])"
proof -
  have "cache_ok uids ts ev (replicate (length ts) kNotComputed)" by (simp add: cache_ok_def)
  from evalAll_works[OF assms order_refl this, of "[0..<length ts]"] obtain results where
    r: "evaluateAtomMatchers (length ts) uids ts ev = Some results" "cache_ok uids ts ev results" "{..<length ts} \<subseteq> computed results"
    by (auto simp: eval_good_def evaluateAtomMatchers_def lessThan_atLeast0)
  then have "results = map (\<lambda>i. state_of_bool (event_matches uids ts ev i)) [0..<length ts]"
    by (intro nth_equalityI) (auto simp: cache_ok_def computed_def subset_iff)
  with r show ?thesis by simp
qed

section \<open>What reaches a metric\<close>

text \<open>The calls of a list that go to one producer, run on it alone. Only duration metrics look at the shared anomaly trackers.\<close>

definition ownCalls :: "nat \<Rightarrow> (nat \<times> metric_call) list \<Rightarrow> metric_call list" where
  "ownCalls i cs = map snd (filter (\<lambda>(j, c). j = i) cs)"

definition isDuration :: "producer \<Rightarrow> bool" where
  "isDuration p = (case p of DurationProducer m \<Rightarrow> True | _ \<Rightarrow> False)"

definition callAlone :: "nat \<Rightarrow> 'l pull_env \<Rightarrow> metric_call \<Rightarrow> producer \<Rightarrow> producer option" where
  "callAlone n env c p =
     (case p of
        CountProducer m \<Rightarrow> Some (CountProducer (count_call env c m))
      | EventProducer m \<Rightarrow> Some (EventProducer (event_call env c m))
      | GaugeProducer m \<Rightarrow> map_option GaugeProducer (gauge_call n env c m)
      | ValueProducer m \<Rightarrow> Some (ValueProducer (value_call env c m))
      | DurationProducer m \<Rightarrow> None)"

lemma callProducer_alone:
  assumes "\<not> isDuration p" "callProducer n env c (p, e) = Some (p', e')"
  shows "callAlone n env c p = Some p' \<and> \<not> isDuration p'"
  using assms by (cases p) (auto simp: callAlone_def isDuration_def)

lemma callMany_alone:
  assumes "callMany n env cs s = Some s'" "\<not> isDuration (fst s ! i)" "i < length (fst s)"
  shows "foldEvents (callAlone n env) (ownCalls i cs) (fst s ! i) = Some (fst s' ! i) \<and> \<not> isDuration (fst s' ! i) \<and> length (fst s') = length (fst s)"
  using assms
proof (induction cs arbitrary: s)
  case (Cons x cs)
  obtain j c where x: "x = (j, c)" by fastforce
  obtain s1 where s1: "callAt n env (j, c) s = Some s1" "callMany n env cs s1 = Some s'"
    using Cons.prems(1) by (auto simp: callMany_def x split: option.splits)
  obtain ps e p e' where s: "s = (ps, e)" "callProducer n env c (ps ! j, e) = Some (p, e')" "s1 = (ps[j := p], e')"
    using s1(1) by (cases s) (auto simp: callAt_def split: option.splits)
  have i: "\<not> isDuration (fst s1 ! i) \<and> i < length (fst s1) \<and> (if j = i then callAlone n env c (ps ! i) = Some (fst s1 ! i) else fst s1 ! i = ps ! i)"
    using Cons.prems(2,3) callProducer_alone[OF _ s(2)] by (auto simp: s)
  from Cons.IH[OF s1(2)] i s(1,3) show ?case by (auto simp: x ownCalls_def split: if_splits)
qed (simp add: callMany_def ownCalls_def)

lemma expire_calls:
  "expireMetrics n env t is s active = Some (s', active') \<Longrightarrow> callMany n env (map (\<lambda>i. (i, FlushIfExpire t)) is) s = Some s'"
  "expireCanceled n env t is s active = Some (s', active') \<Longrightarrow> callMany n env (map (\<lambda>i. (i, FlushIfExpire t)) is) s = Some s'"
proof (induction "is" arbitrary: s active)
  case Nil
  { case 1 then show ?case by (simp add: callMany_def) next case 2 then show ?case by (simp add: callMany_def) }
next
  case (Cons i "is")
  { case 1 then show ?case using Cons.IH(1) by (auto simp: callMany_def split: option.splits)
  next case 2 then show ?case using Cons.IH(2) by (auto simp: callMany_def split: option.splits) }
qed

lemma activate_calls:
  "activateMetrics n env t xs s b = Some (s', b') \<Longrightarrow> callMany n env (map (\<lambda>(mi, i). (i, Activate (int mi) t)) xs) s = Some s'"
  by (induction xs arbitrary: s b) (auto simp: callMany_def split: option.splits)

lemma ownCalls_append [simp]: "ownCalls i (cs @ ds) = ownCalls i cs @ ownCalls i ds"
  by (simp add: ownCalls_def)

lemma ownCalls_condition_cong:
  assumes "ps ! i = ps' ! i"
  shows "ownCalls i (conditionCalls mp cache changed t ps js) = ownCalls i (conditionCalls mp cache changed t ps' js)"
proof (induction js)
  case (Cons j js)
  have "filter (\<lambda>(k, c). k = i) (map (\<lambda>k. (k, f (ps ! k))) ks) = filter (\<lambda>(k, c). k = i) (map (\<lambda>k. (k, f (ps' ! k))) ks)"
    for f :: "producer \<Rightarrow> metric_call" and ks
    using assms by (induction ks) auto
  from this[of "\<lambda>p. let b = (state_code (cache ! j) \<noteq> 0) in if \<not> isConditionSliced p then ConditionChanged b t else SlicedConditionMayChange b t"]
  show ?case using Cons by (simp add: conditionCalls_def ownCalls_def split: option.split)
qed (simp add: conditionCalls_def)

text \<open>The calls that one event causes for the activations of metric \<open>i\<close>, and afterwards for its conditions and matchers.\<close>

definition activationScript :: "matching_state list \<Rightarrow> ns \<Rightarrow> metrics_manager \<Rightarrow> nat \<Rightarrow> metric_call list" where
  "activationScript cache t mg i =
     (let canceled = metricsOfMatched (mgDeactivationAtomTrackerToMetricMap mg) cache
      in (if i \<in> set (mgMetricIndexesWithActivation mg) then [FlushIfExpire t] else []) @
         map (\<lambda>(mi, k). CancelEventActivation (int mi)) (filter (\<lambda>(mi, k). k = i) canceled) @
         (if i \<in> set (map snd canceled) then [FlushIfExpire t] else []) @
         map (\<lambda>(mi, k). Activate (int mi) t) (filter (\<lambda>(mi, k). k = i) (metricsOfMatched (mgActivationAtomTrackerToMetricMap mg) cache)))"

definition eventScript :: "matching_state list \<Rightarrow> condition_state list \<Rightarrow> bool list \<Rightarrow> state_event \<Rightarrow> producer list \<Rightarrow> metrics_manager \<Rightarrow> nat \<Rightarrow> metric_call list" where
  "eventScript cache condCache changed ev ps mg i =
     ownCalls i (conditionCalls (mgConditionToMetricMap mg) condCache changed (elapsedTimestampNs ev) ps [0..<length (mgAllConditionTrackers mg)] @
                 matchedCalls (mgTrackerToMetricMap mg) cache ev [0..<length (mgAllAtomMatchingTrackers mg)])"

lemma ownCalls_pairs: "ownCalls i (map (\<lambda>(mi, k). (k, f mi)) xs) = map (\<lambda>(mi, k). f mi) (filter (\<lambda>(mi, k). k = i) xs)"
  by (induction xs) (auto simp: ownCalls_def)

lemma ownCalls_distinct: "distinct is \<Longrightarrow> ownCalls i (map (\<lambda>k. (k, c)) is) = (if i \<in> set is then [c] else [])"
  by (induction "is") (auto simp: ownCalls_def)

lemma foldEvents_append: "foldEvents f (xs @ ys) m = (case foldEvents f xs m of None \<Rightarrow> None | Some m1 \<Rightarrow> foldEvents f ys m1)"
  by (induction xs arbitrary: m) (auto split: option.split)

lemma managerEnv_cong:
  "mgAllAtomMatchingTrackers mg' = mgAllAtomMatchingTrackers mg \<Longrightarrow> mgAllConditionTrackers mg' = mgAllConditionTrackers mg \<Longrightarrow> managerEnv um env mg' = managerEnv um env mg"
  by (simp add: managerEnv_def)

lemma events_routed:
  assumes r: "metricsManager_onLogEvent n bc dv um env ev mg = Some mg'"
    and c: "mgConfigValid mg" "checkLogCredentials ev mg" "eventSanityCheck bc dv um ev" "tagId ev \<in> set (mgTagIds mg)"
    and cache: "evaluateAtomMatchers (length (mgAllAtomMatchingTrackers mg)) (uidEnvOf um) (mgAllAtomMatchingTrackers mg) (log_event.truncate ev) = Some cache"
    and wf: "manager_wf mg" and i: "i < length (mgAllMetricProducers mg)" "\<not> isDuration (mgAllMetricProducers mg ! i)"
  shows "\<exists>conds condCache changed p1.
    evaluateConditions (length (mgAllConditionTrackers mg)) (event_values ev) (map (\<lambda>st. st = kMatched) cache)
      (conditionsToEvaluate (length (mgAllConditionTrackers mg)) (mgTrackerToConditionMap mg) cache) (mgAllConditionTrackers mg) = Some (conds, condCache, changed) \<and>
    mgAllConditionTrackers mg' = conds \<and>
    foldEvents (callAlone n (managerEnv um env mg)) (activationScript cache (elapsedTimestampNs ev) mg i) (mgAllMetricProducers mg ! i) = Some p1 \<and>
    foldEvents (callAlone n (managerEnv um env mg'))
      (eventScript cache condCache changed ev ((mgAllMetricProducers mg)[i := p1]) mg i) p1 = Some (mgAllMetricProducers mg' ! i)"
proof -
  let ?t = "elapsedTimestampNs ev" and ?s = "(mgAllMetricProducers mg, mgAnomalyTrackers mg)" and ?env = "managerEnv um env mg"
  let ?canceled = "metricsOfMatched (mgDeactivationAtomTrackerToMetricMap mg) cache" and ?act = "metricsOfMatched (mgActivationAtomTrackerToMetricMap mg) cache"
  obtain s active where s: "expireMetrics n ?env ?t (mgMetricIndexesWithActivation mg) ?s [] = Some (s, active)"
    and h: "handleMatchers n um env ev cache active ((setProducers s mg)\<lparr>mgIsActive := mgIsAlwaysActive mg \<or> active \<noteq> []\<rparr>) = Some mg'"
    using r c cache by (auto simp: metricsManager_onLogEvent_def Let_def split: option.splits)
  have e: "managerEnv um env ((setProducers s mg)\<lparr>mgIsActive := b\<rparr>) = ?env" for s b by (rule managerEnv_cong) (simp_all add: setProducers_def)
  obtain s1 s2 active2 s3 b where
    s1: "callMany n ?env (map (\<lambda>(mi, i). (i, CancelEventActivation (int mi))) ?canceled) s = Some s1" and
    s2: "expireCanceled n ?env ?t (remdups (map snd ?canceled)) s1 active = Some (s2, active2)" and
    s3: "activateMetrics n ?env ?t ?act s2 (mgIsAlwaysActive mg \<or> active2 \<noteq> []) = Some (s3, b)" and
    nm: "notifyConditionsAndMatches n um env ev cache ((setProducers s3 mg)\<lparr>mgIsActive := b\<rparr>) = Some mg'"
    using h unfolding handleMatchers_def Let_def e by (auto simp: setProducers_def split: option.splits)
  obtain conds condCache changed s4 where
    ec: "evaluateConditions (length (mgAllConditionTrackers mg)) (event_values ev) (map (\<lambda>st. st = kMatched) cache)
      (conditionsToEvaluate (length (mgAllConditionTrackers mg)) (mgTrackerToConditionMap mg) cache) (mgAllConditionTrackers mg) = Some (conds, condCache, changed)" and
    s4: "callMany n (managerEnv um env (mg\<lparr>mgAllConditionTrackers := conds\<rparr>))
      (conditionCalls (mgConditionToMetricMap mg) condCache changed ?t (fst s3) [0..<length (mgAllConditionTrackers mg)] @
       matchedCalls (mgTrackerToMetricMap mg) cache ev [0..<length (mgAllAtomMatchingTrackers mg)]) s3 = Some s4" and
    mg': "mg' = setProducers s4 (((setProducers s3 mg)\<lparr>mgIsActive := b\<rparr>)\<lparr>mgAllConditionTrackers := conds\<rparr>)"
    using nm by (cases s3) (auto simp: notifyConditionsAndMatches_def Let_def setProducers_def managerEnv_def split: option.splits)
  have e': "managerEnv um env mg' = managerEnv um env (mg\<lparr>mgAllConditionTrackers := conds\<rparr>)" by (rule managerEnv_cong) (simp_all add: mg' setProducers_def)
  have a0: "foldEvents (callAlone n ?env) (if i \<in> set (mgMetricIndexesWithActivation mg) then [FlushIfExpire ?t] else []) (mgAllMetricProducers mg ! i) = Some (fst s ! i)
     \<and> \<not> isDuration (fst s ! i) \<and> i < length (fst s)"
    using callMany_alone[OF expire_calls(1)[OF s], of i] i ownCalls_distinct[of "mgMetricIndexesWithActivation mg" i "FlushIfExpire ?t"] wf
    by (auto simp: manager_wf_def)
  have a1: "foldEvents (callAlone n ?env) (map (\<lambda>(mi, k). CancelEventActivation (int mi)) (filter (\<lambda>(mi, k). k = i) ?canceled)) (fst s ! i) = Some (fst s1 ! i)
     \<and> \<not> isDuration (fst s1 ! i) \<and> i < length (fst s1)"
    using callMany_alone[OF s1, of i, unfolded ownCalls_pairs] a0 by auto
  have a2: "foldEvents (callAlone n ?env) (if i \<in> set (map snd ?canceled) then [FlushIfExpire ?t] else []) (fst s1 ! i) = Some (fst s2 ! i)
     \<and> \<not> isDuration (fst s2 ! i) \<and> i < length (fst s2)"
    using callMany_alone[OF expire_calls(2)[OF s2], of i] a1 ownCalls_distinct[of "remdups (map snd ?canceled)" i "FlushIfExpire ?t"] by auto
  have a3: "foldEvents (callAlone n ?env) (map (\<lambda>(mi, k). Activate (int mi) ?t) (filter (\<lambda>(mi, k). k = i) ?act)) (fst s2 ! i) = Some (fst s3 ! i)
     \<and> \<not> isDuration (fst s3 ! i) \<and> i < length (fst s3)"
    using callMany_alone[OF activate_calls[OF s3], of i, unfolded ownCalls_pairs] a2 by auto
  have "foldEvents (callAlone n ?env) (activationScript cache ?t mg i) (mgAllMetricProducers mg ! i) = Some (fst s3 ! i)"
    using a0 a1 a2 a3 by (simp add: activationScript_def Let_def foldEvents_append del: foldEvents.simps)
  moreover have "foldEvents (callAlone n (managerEnv um env mg')) (eventScript cache condCache changed ev ((mgAllMetricProducers mg)[i := fst s3 ! i]) mg i) (fst s3 ! i) =
      Some (mgAllMetricProducers mg' ! i)"
    using callMany_alone[OF s4] a3 ownCalls_condition_cong[of "(mgAllMetricProducers mg)[i := fst s3 ! i]" i "fst s3" "mgConditionToMetricMap mg" condCache changed ?t] i(1)
    unfolding e' by (simp add: eventScript_def) (simp add: mg' setProducers_def)
  moreover have "mgAllConditionTrackers mg' = conds" by (simp add: mg' setProducers_def)
  ultimately show ?thesis using ec by blast
qed

section \<open>Properties\<close>

definition example_manager_parts :: metrics_manager where
  "example_manager_parts = \<lparr>mgConfigKey = \<lparr>ckUid = 1000, ckId = 1\<rparr>, mgConfigValid = True, mgTtlNs = -1, mgTtlEndNs = -1, mgLastReportTimeNs = 0, mgLastReportWallClockNs = 0,
     mgAllowedUid = [], mgAllowedPkg = [], mgAllowedLogSources = [], mgWhitelistedAtomIds = [], mgDefaultPullUids = [], mgPullAtomUids = [], mgPullAtomPackages = [],
     mgCombinedPullAtomUids = [], mgTagIds = [10],
     mgAllAtomMatchingTrackers = [newSimpleAtomMatchingTracker 1 0 \<lparr>atom_id = Some 10, field_value_matchers = []\<rparr>], mgAllConditionTrackers = [],
     mgAllMetricProducers = [CountProducer (newCountMetricProducer (example_base\<lparr>mpActivations := newActivations [newActivation ACTIVATE_IMMEDIATELY 100] [(0, 0)] []\<rparr>) 0 1000 5)],
     mgAnomalyTrackers = \<lparr>aeTrackers = [], aeMonitor = None, aeNextAddr = 0\<rparr>, mgTrackerToMetricMap = [(0, [0])], mgTrackerToConditionMap = [], mgConditionToMetricMap = [],
     mgActivationAtomTrackerToMetricMap = [(0, [0])], mgDeactivationAtomTrackerToMetricMap = [], mgMetricIndexesWithActivation = [0], mgNoReportMetricIds = [],
     mgIsActive = False, mgIsAlwaysActive = False\<rparr>"

definition example_manager :: metrics_manager where
  "example_manager = newMetricsManager \<lparr>lsAllowedLogSource = [''AID_SYSTEM'', ''app''], lsDefaultPullPackages = [], lsPullAtomPackages = []\<rparr> None 0 0 0 0 newUidMap example_manager_parts"

definition example_manager_event :: state_event where
  "example_manager_event = (example_gauge_event 10)\<lparr>logUid := 1000\<rparr>"

text \<open>
  Property C6. Whether a configuration is active is always exact: after any events, whatever matchers, activations, cancellations and expiries they
  cause, \<^verbatim>\<open>mIsActive\<close> holds iff the configuration is always active or one of its metrics with activations is active.
\<close>

theorem manager_activity_exact:
  assumes "manager_wf (newMetricsManager c ttl alerts timeBaseNs currentTimeNs wall um mg0)"
    and "manager_events n bc dv xs (newMetricsManager c ttl alerts timeBaseNs currentTimeNs wall um mg0) = Some mg"
  shows "mgIsActive mg = (mgIsAlwaysActive mg \<or>
    (\<exists>i \<in> set (mgMetricIndexesWithActivation mg). mIsActive (mpActivations (producerBase (mgAllMetricProducers mg ! i)))))"
  using events_activity[OF assms(1) new_activity assms(2)] by (simp add: activity_exact_def producerIsActive_def producerActivations_def)


theorem manager_activity_exact_witness:
  "\<exists>mg. manager_events 1 1 2 [(newUidMap, example_gauge_env, example_manager_event)] example_manager = Some mg \<and> mgIsActive mg \<and> \<not> mgIsAlwaysActive mg \<and>
     mIsActive (mpActivations (producerBase (mgAllMetricProducers mg ! 0)))"
proof -
  have "manager_wf example_manager" by code_simp
  moreover have "case manager_events 1 1 2 [(newUidMap, example_gauge_env, example_manager_event)] example_manager of
      None \<Rightarrow> False | Some mg \<Rightarrow> mgIsActive mg \<and> \<not> mgIsAlwaysActive mg \<and> mgMetricIndexesWithActivation mg = [0]"
    by code_simp
  ultimately show ?thesis
    using manager_activity_exact[of "\<lparr>lsAllowedLogSource = [''AID_SYSTEM'', ''app''], lsDefaultPullPackages = [], lsPullAtomPackages = []\<rparr>" None 0 0 0 0 newUidMap
        example_manager_parts 1 1 2 "[(newUidMap, example_gauge_env, example_manager_event)]"]
    by (auto simp: example_manager_def split: option.splits)
qed


lemma example_graph: "graph_ok (\<lambda>i. 0) (mgAllAtomMatchingTrackers example_manager)"
proof -
  have "mgAllAtomMatchingTrackers example_manager = mgAllAtomMatchingTrackers example_manager_parts" by code_simp
  then show ?thesis by (simp add: example_manager_parts_def newSimpleAtomMatchingTracker_def graph_ok_def children_of_def)
qed


text \<open>
  Property C8. The handler of events returns for every event when the matchers and conditions are acyclic, as initialisation ensures, and no gauge pulls its own trigger atom.
\<close>

theorem manager_returns:
  assumes "manager_wf mg" and "graph_ok rank (mgAllAtomMatchingTrackers mg)" and "cgraph_ok crank (mgAllConditionTrackers mg)"
    and "manager_quiet env (mgAllMetricProducers mg)"
  shows "\<exists>mg'. metricsManager_onLogEvent (Suc n) bc dv um env ev mg = Some mg'"
proof -
  let ?env = "managerEnv um env mg" and ?s = "(mgAllMetricProducers mg, mgAnomalyTrackers mg)" and ?t = "elapsedTimestampNs ev"
  have qe: "list_all (producer_quiet (managerEnv um env m)) ps = list_all (producer_quiet env) ps" for m ps by (simp add: list_all_iff quiet_env)
  obtain s active where s: "expireMetrics (Suc n) ?env ?t (mgMetricIndexesWithActivation mg) ?s [] = Some (s, active)"
    "list_all (producer_quiet ?env) (fst s)" "length (fst s) = length (mgAllMetricProducers mg)"
    using expireMetrics_returns(1)[of ?env ?s "mgMetricIndexesWithActivation mg" n ?t "[]"] assms(1,4) by (auto simp: qe manager_quiet_def manager_wf_def)
  let ?mg = "(setProducers s mg)\<lparr>mgIsActive := mgIsAlwaysActive mg \<or> active \<noteq> []\<rparr>"
  have "same_config ?mg mg" using s(3) by (simp add: same_config_def setProducers_def)
  from handleMatchers_returns[OF same_config_wf[OF this assms(1)], of env crank n um ev]
  have "handleMatchers (Suc n) um env ev cache active ?mg \<noteq> None" for cache
    using s(2) assms(3) by (simp add: qe setProducers_def)
  then show ?thesis using s(1) eval_matchers_formula[OF assms(2)] by (auto simp: metricsManager_onLogEvent_def Let_def)
qed

theorem manager_returns_witness:
  "\<exists>mg'. metricsManager_onLogEvent (Suc 0) 1 2 newUidMap example_gauge_env example_manager_event example_manager = Some mg'"
proof (rule manager_returns[OF _ example_graph])
  show "manager_wf example_manager" by code_simp
  have "mgAllConditionTrackers example_manager = []" by code_simp
  then show "cgraph_ok (\<lambda>i. 0) (mgAllConditionTrackers example_manager)" by (simp add: cgraph_ok_def)
  have "mgAllMetricProducers example_manager = mgAllMetricProducers example_manager_parts" by code_simp
  then show "manager_quiet example_gauge_env (mgAllMetricProducers example_manager)"
    by (simp add: example_manager_parts_def manager_quiet_def producer_quiet_def)
qed

section \<open>Log sources and installed apps\<close>

text \<open>The uid map tells the processor of changes, which tells every manager.\<close>

fun deliverNotice :: "nat \<Rightarrow> uid_map \<Rightarrow> 'l pull_env \<Rightarrow> package_notice \<Rightarrow> metrics_manager \<Rightarrow> metrics_manager option" where
  "deliverNotice n um env (UidMapReceived t) mg = Some (manager_onUidMapReceived um mg)"
| "deliverNotice n um env (AppUpgrade t app uid v) mg = manager_notifyAppUpgrade n um env t app mg"
| "deliverNotice n um env (AppRemoved t app uid) mg = manager_notifyAppRemoved n um env t app mg"

primrec deliverNotices :: "nat \<Rightarrow> uid_map \<Rightarrow> 'l pull_env \<Rightarrow> package_notice list \<Rightarrow> metrics_manager \<Rightarrow> metrics_manager option" where
  "deliverNotices n um env [] mg = Some mg"
| "deliverNotices n um env (x # xs) mg = (case deliverNotice n um env x mg of None \<Rightarrow> None | Some mg1 \<Rightarrow> deliverNotices n um env xs mg1)"

definition sources_current :: "uid_map \<Rightarrow> metrics_manager \<Rightarrow> bool" where
  "sources_current um mg \<longleftrightarrow> set (mgAllowedLogSources mg) = set (mgAllowedUid mg) \<union> {uid. \<exists>pkg \<in> set (mgAllowedPkg mg). hasApp uid pkg um}"

lemma set_getAppUid: "umap_ok (umMap um) \<Longrightarrow> set (getAppUid pkg um) = {uid. hasApp uid pkg um}"
proof (intro set_eqI iffI)
  fix u
  assume "umap_ok (umMap um)"
  note mem = map_of_Some_iff_mem[OF this]
  { assume "u \<in> set (getAppUid pkg um)"
    then obtain d where "((u, pkg), d) \<in> set (umMap um)" "\<not> adDeleted d" by (auto simp: getAppUid_def)
    then show "u \<in> {uid. hasApp uid pkg um}" by (simp add: hasApp_def mem[symmetric]) }
  { assume "u \<in> {uid. hasApp uid pkg um}"
    then obtain d where "((u, pkg), d) \<in> set (umMap um)" "\<not> adDeleted d" by (auto simp: hasApp_def mem split: option.splits)
    then show "u \<in> set (getAppUid pkg um)" by (force simp: getAppUid_def) }
qed

lemma initAllowed_current: "umap_ok (umMap um) \<Longrightarrow> sources_current um (initAllowedLogSources um mg)"
  by (auto simp: sources_current_def initAllowedLogSources_def set_getAppUid)

text \<open>A package whose entries did not change needs no refreshing.\<close>

lemma sources_current_other:
  assumes "sources_current um mg" "app \<notin> set (mgAllowedPkg mg)" "\<And>uid pkg. pkg \<noteq> app \<Longrightarrow> hasApp uid pkg um' = hasApp uid pkg um"
  shows "sources_current um' mg"
proof -
  have "(\<exists>pkg \<in> set (mgAllowedPkg mg). hasApp uid pkg um') = (\<exists>pkg \<in> set (mgAllowedPkg mg). hasApp uid pkg um)" for uid
    using assms(2,3) by metis
  then show ?thesis using assms(1) by (simp add: sources_current_def)
qed

lemma callAll_sources:
  assumes "callAll n um env c mg = Some mg'"
  shows "mgAllowedLogSources mg' = mgAllowedLogSources mg \<and> mgAllowedUid mg' = mgAllowedUid mg \<and> mgAllowedPkg mg' = mgAllowedPkg mg"
  using assms by (auto simp: callAll_def setProducers_def)

lemma refreshSources_current:
  assumes "umap_ok (umMap um')" "app \<notin> set (mgAllowedPkg mg) \<Longrightarrow> sources_current um' mg"
  shows "sources_current um' (refreshSources um' app mg)"
proof -
  have p: "sources_current um' (initPullAtomSources um' m) = sources_current um' m" for m by (simp add: sources_current_def initPullAtomSources_def Let_def)
  show ?thesis using assms initAllowed_current[OF assms(1), of mg] by (auto simp: refreshSources_def Let_def p)
qed

text \<open>What \<^verbatim>\<open>updateApp\<close> does to the installed apps and to the listener.\<close>

lemma addChange_frame:
  assumes "addChange recSize c um = Some um'"
  shows "umMap um' = umMap um \<and> umSubscriber um' = umSubscriber um"
  using assms by (auto simp: addChange_def ensureBytesUsedBelowLimit_def split: option.splits)

lemma updateApp_hasApp:
  assumes "updateApp recSize t app uid v vs inst um = Some (um', notices)" "umap_ok (umMap um)"
  shows "umap_ok (umMap um')" "hasApp u pkg um' = ((u, pkg) = (uid, app) \<or> hasApp u pkg um)"
    "notices = (if map_of (umMap um) (uid, app) \<noteq> None \<and> umSubscriber um then [AppUpgrade t app uid v] else [])"
proof -
  obtain c where c: "addChange recSize c (um\<lparr>umMap := AList.update (uid, app) (AppData v vs inst) (umMap um)\<rparr>) = Some um'"
    "notices = (if map_of (umMap um) (uid, app) \<noteq> None \<and> umSubscriber um' then [AppUpgrade t app uid v] else [])"
    using assms(1) by (auto simp: updateApp_def Let_def split: option.splits)
  note f = addChange_frame[OF c(1)]
  show "umap_ok (umMap um')" using f assms(2) by simp
  show "hasApp u pkg um' = ((u, pkg) = (uid, app) \<or> hasApp u pkg um)" using f by (auto simp: hasApp_def update_conv' AppData_def)
  show "notices = (if map_of (umMap um) (uid, app) \<noteq> None \<and> umSubscriber um then [AppUpgrade t app uid v] else [])" using c(2) f by simp
qed



end
