(* ===== verification/Spec2Isabelle.thy ===== *)
theory Spec2Isabelle
  imports MatchingTrackers MetadataUtil EventQueue CountMetric DurationMetric EventCodec ValueAggregation MetricsManager
begin

text \<open>
  A verification development for statsd, the Android daemon under \<^verbatim>\<open>src/bin/src\<close> that receives atoms (structured
  log events) from other processes, matches them against the configurations of its clients and aggregates them into
  metrics, with the client library that serialises atoms, \<^verbatim>\<open>src/lib/libstatssocket/stats_event.c\<close>.

  \<^bold>\<open>The program.\<close> A client builds an atom in a buffer and sends it over a socket. A reader thread parses it
  (\<^verbatim>\<open>LogEvent\<close>) and puts it into a bounded queue; one processing thread takes it out and offers it to every
  configuration. There the atom matchers decide which of them the event satisfies, the conditions (predicates started
  and stopped by matchers) are brought up to date, states follow the events that carry them, and the metrics whose
  matcher fired count it, start or stop a duration, subject to their condition, their states and their activations.
  Metrics cut time into buckets; anomaly trackers watch the buckets and raise alerts, durations by way of alarms that
  are set for the time a threshold will be crossed. Refractory periods and activations survive a restart.

  \<^bold>\<open>Theories and sources\<close> (paths under \<^verbatim>\<open>src/bin/src\<close> unless said otherwise).
  \<^item> \<^verbatim>\<open>StatsdPrelude\<close>: machine types, association lists as unordered maps, the dimension guard rail, generic lemmas.
  \<^item> \<^verbatim>\<open>FieldValue\<close>, \<^verbatim>\<open>StatsdValue\<close> (\<^verbatim>\<open>FieldValue.h/.cpp\<close>): encoded fields, field matchers and their translation from the
    configuration; values, annotations, comparison and arithmetic on values, with IEEE floating point on bit patterns.
  \<^item> \<^verbatim>\<open>DimensionKey\<close> (\<^verbatim>\<open>HashableDimensionKey\<close>): keys cut out of events, condition links, order and equality of keys.
  \<^item> \<^verbatim>\<open>StatsEventWriter\<close> (\<^verbatim>\<open>lib/libstatssocket/stats_event.c\<close>): the client's buffer, every call on it.
  \<^item> \<^verbatim>\<open>LogEventParsing\<close> (\<^verbatim>\<open>logd/LogEvent\<close>): the parser of the socket bytes and the accessors of an event.
  \<^item> \<^verbatim>\<open>EventCodec\<close>: both ends together, against a specification of what the client means.
  \<^item> \<^verbatim>\<open>FieldMatching\<close>, \<^verbatim>\<open>MatchingTrackers\<close> (\<^verbatim>\<open>matchers/\<close>, \<^verbatim>\<open>parsing_utils/metrics_manager_util.cpp\<close>): simple matching, the matcher graph,
    its initialisation and cached evaluation.
  \<^item> \<^verbatim>\<open>ConditionLogic\<close>, \<^verbatim>\<open>GraphEvaluation\<close>, \<^verbatim>\<open>ConditionGraph\<close> (\<^verbatim>\<open>condition/\<close>): three-valued combination, the condition timer, simple
    conditions as nesting counters, combination conditions, the condition wizard, evaluation over the graph.
  \<^item> \<^verbatim>\<open>StateTracking\<close> (\<^verbatim>\<open>state/\<close>): state trackers with nested and exclusive states, the state manager and its listeners.
  \<^item> \<^verbatim>\<open>EventQueue\<close> (\<^verbatim>\<open>logd/LogEventQueue\<close>, \<^verbatim>\<open>utils/MultiConditionTrigger\<close>): the bounded queue, the start-up trigger.
  \<^item> \<^verbatim>\<open>AlarmQueue\<close>, \<^verbatim>\<open>AlarmMonitor\<close>, \<^verbatim>\<open>AnomalyTracker\<close>, \<^verbatim>\<open>AlarmTrackers\<close> (\<^verbatim>\<open>anomaly/\<close>): the indexed heap, alarms registered with the
    companion service, the ring of past buckets, duration anomalies and periodic alarms.
  \<^item> \<^verbatim>\<open>MetadataUtil\<close> (\<^verbatim>\<open>metadata_util.cpp\<close>): keys and refractory periods in the metadata that survives a restart.
  \<^item> \<^verbatim>\<open>MetricActivation\<close>, \<^verbatim>\<open>MetricBase\<close> (\<^verbatim>\<open>metrics/MetricProducer\<close>): activations with their shared objects, bucket times, the
    extraction of keys from a matched event.
  \<^item> \<^verbatim>\<open>CountMetric\<close>, \<^verbatim>\<open>DurationTrackers\<close>, \<^verbatim>\<open>OringDuration\<close>, \<^verbatim>\<open>MaxDuration\<close>, \<^verbatim>\<open>DurationMetric\<close> (\<^verbatim>\<open>metrics/\<close>): the count metric, the two
    duration trackers with their anomaly prediction, the duration metric over a map of trackers.
  \<^item> \<^verbatim>\<open>PulledMetricBase\<close> (\<^verbatim>\<open>metrics/MetricProducer\<close>, \<^verbatim>\<open>matchers/EventMatcherWizard\<close>): drop reasons and skipped buckets, the
    answers of the puller, the clock, the conditions and the states that pulled metrics ask for (\<open>pull_env\<close>).
  \<^item> \<^verbatim>\<open>ValueMetric\<close> (\<^verbatim>\<open>metrics/ValueMetricProducer\<close>): the value metric; \<^verbatim>\<open>ValueBuckets\<close> has its invariants, \<^verbatim>\<open>ValueAggregation\<close> what its
    buckets contain.
  \<^item> \<^verbatim>\<open>EventMetric\<close>, \<^verbatim>\<open>GaugeMetric\<close> (\<^verbatim>\<open>metrics/EventMetricProducer\<close>, \<^verbatim>\<open>metrics/GaugeMetricProducer\<close>): the event log and the gauge metric;
    \<^verbatim>\<open>GaugeBuckets\<close> has the invariants of the gauge metric.
  \<^item> \<^verbatim>\<open>UidMap\<close> (\<^verbatim>\<open>packages/UidMap\<close>): installed apps, their changes, isolated uids.
  \<^item> \<^verbatim>\<open>MetricProducers\<close> (\<^verbatim>\<open>metrics/MetricProducer.h\<close>): the five kinds of metric behind one interface, as the manager calls them.
  \<^item> \<^verbatim>\<open>MetricsManager\<close> (\<^verbatim>\<open>metrics/MetricsManager\<close>): one configuration: log sources, the handler of an event over matchers, conditions and
    metrics, activity, reports.
  A class of the source is a record with the members as fields, a method a function that takes the object last and
  returns it changed; several return values are tuples, early returns are branches, errors are values of an option or
  sum type. Methods that call out (listeners, the alarm service, broadcasts) return the calls they make as a list.
  Objects shared by pointers are indices into a store where aliasing matters (activations, anomaly trackers of
  durations). An unordered map is an association list whose order stands for the unspecified iteration order.

  \<^bold>\<open>What is shown.\<close>
  \<^item> Encoding: an event written without errors is parsed as meant; the parser accepts no truncated or extended buffer,
    leaves no index out of range whatever bytes arrive, and rejects what the client marked as erroneous; the writer
    stays in its buffer but in one case, which is exhibited.
  \<^item> Matching and conditions: range search, cached graph evaluation and bit masks compute what the configuration says;
    initialisation terminates and finds every cycle.
  \<^item> Metrics: no counted event is lost or counted twice, buckets are ordered and disjoint, the summing duration tracker
    measures the union of the started intervals and predicts anomalies exactly, the maximum tracker reports the longest
    finished interval, a duration metric and its trackers stay in the same bucket.
  \<^item> Anomalies: sums over the window are exact, refractory periods suppress and survive restarts, the registered alarm
    is close to the soonest.
  \<^item> States, queue, trigger, activations: every change is reported once, events are delivered in order, the trigger fires
    once, activations last exactly their time to live.
  \<^item> Value and event metrics: reported and skipped buckets tile the time, vectors are never accessed out of range, pulled
    differences telescope, a failed pull publishes nothing; an event metric logs exactly the events it should.
  \<^item> Gauge metrics: keys and samples are limited, the first samples are kept, and a gauge triggered by the atom it pulls recurses without end.
  \<^item> Uid map: its memory is bounded, no configuration misses a change, and deleted apps are mistreated in two ways.
  \<^item> Manager: its activity is exact, every metric gets the calls meant for it and no others, handling an event returns, and the log sources follow
    updates of apps but not their first installation.
  \<^bold>\<open>Bounds and fuel.\<close> Nanosecond times are mathematical integers, since their overflow is undefined in C++; encoded fields,
  counters of seconds and lengths are words of their width. Recursion over the matcher and condition graphs takes a
  fuel argument; the theorems show that the number of nodes is enough, so that the result is always returned. Every
  other loop is a function with a termination proof or structural recursion.

  \<^bold>\<open>Interfaces.\<close> The locales are \<open>cpp_order\<close> (what ordered containers need of \<^verbatim>\<open>operator<\<close>; values, fields, keys), \<open>comparator\<close>
  and \<open>min_queue\<close> (the heap and what the alarm monitor relies on), \<open>fifo_channel\<close> (the event queue), \<open>cached_graph\<close> (evaluation
  with a cache; condition queries and condition evaluation), \<open>parser_property\<close> (what all parser steps share; streaming
  and well-formedness), \<open>value_keeps\<close> (an invariant of a value metric under all its handlers; time accounting and vector shapes).

  \<^bold>\<open>Not modelled.\<close> Configuration updates, the configuration manager, storage and the pullers. Left out for good:
  report serialisation and the guard rail statistics (they only write protobuf output and counters), the binder
  service, the socket listener, shell subscribers and the reporters to other services (input and output around the
  modelled core), and log messages.
\<close>

end
